(* ===== verification/Prelude.thy ===== *)
theory Prelude
  imports Main "HOL-Library.Word"
begin

text \<open>
  Shared vocabulary of the development: bytes and blocks, the little-endian layout the
  x86 kernel and \<open>mkfs\<close> use for every on-disk and in-memory integer, byte ranges of a
  block (\<open>subrange\<close> reads one, \<open>overlay\<close> is \<open>memmove\<close> into one), and C's conversions of
  unbounded numbers to 32-bit \<open>int\<close> and \<open>uint\<close>.  Unsigned C values are natural
  numbers below \<open>2 ^ 32\<close>; where an operation of the source can wrap, \<open>u32\<close> writes the
  wrap-around out.
\<close>

named_theorems byte_simps \<open>reading back byte ranges and little-endian fields\<close>
named_theorems layout_simps \<open>on-disk layout arithmetic\<close>

type_synonym byte = "8 word"
type_synonym block = "byte list"

section \<open>C integers\<close>

definition u32 :: "int \<Rightarrow> nat" where
  "u32 x = nat (x mod 2 ^ 32)"

definition s32 :: "nat \<Rightarrow> int" where
  "s32 n = (if n mod 2 ^ 32 < 2 ^ 31 then int (n mod 2 ^ 32) else int (n mod 2 ^ 32) - 2 ^ 32)"

lemma u32_less: "u32 x < 2 ^ 32"
proof -
  have "x mod 2 ^ 32 < 2 ^ 32" by simp
  then show ?thesis by (simp add: u32_def nat_less_iff)
qed

lemma u32_of_nat [simp]: "n < 2 ^ 32 \<Longrightarrow> u32 (int n) = n"
  by (simp add: u32_def nat_mod_as_int)

lemma s32_small [simp]: "n < 2 ^ 31 \<Longrightarrow> s32 n = int n"
  by (simp add: s32_def)

lemma s32_u32: "- (2 ^ 31) \<le> x \<Longrightarrow> x < 2 ^ 31 \<Longrightarrow> s32 (u32 x) = x"
proof (cases "0 \<le> x")
  case True
  assume "x < 2 ^ 31"
  with True have "x mod 2 ^ 32 = x" by (intro mod_pos_pos_trivial) auto
  with True \<open>x < 2 ^ 31\<close> show ?thesis by (simp add: u32_def s32_def nat_less_iff)
next
  case False
  assume lo: "- (2 ^ 31) \<le> x"
  from False lo have "(x + 2 ^ 32) mod 2 ^ 32 = x + 2 ^ 32" by (intro mod_pos_pos_trivial) auto
  then have "x mod 2 ^ 32 = x + 2 ^ 32" by simp
  with False lo show ?thesis by (simp add: u32_def s32_def nat_less_iff)
qed

section \<open>Byte ranges\<close>

definition subrange :: "nat \<Rightarrow> nat \<Rightarrow> 'a list \<Rightarrow> 'a list" where
  "subrange off n xs = take n (drop off xs)"

definition overlay :: "nat \<Rightarrow> 'a list \<Rightarrow> 'a list \<Rightarrow> 'a list" where
  "overlay off bs xs = take off xs @ bs @ drop (off + length bs) xs"

lemma length_subrange [simp]: "off + n \<le> length xs \<Longrightarrow> length (subrange off n xs) = n"
  by (simp add: subrange_def)

lemma length_overlay [simp, byte_simps]:
  "off + length bs \<le> length xs \<Longrightarrow> length (overlay off bs xs) = length xs"
  by (simp add: overlay_def)

lemma overlay_Nil [simp]: "overlay off [] xs = xs"
  by (simp add: overlay_def)

lemma overlay_all [simp]: "length bs = length xs \<Longrightarrow> overlay 0 bs xs = bs"
  by (simp add: overlay_def)

lemma subrange_all [simp]: "subrange 0 (length xs) xs = xs"
  by (simp add: subrange_def)

lemma nth_overlay:
  assumes "off + length bs \<le> length xs" "i < length xs"
  shows "overlay off bs xs ! i = (if off \<le> i \<and> i < off + length bs then bs ! (i - off) else xs ! i)"
  using assms by (auto simp: overlay_def nth_append nth_drop)

lemma nth_subrange: "off + n \<le> length xs \<Longrightarrow> i < n \<Longrightarrow> subrange off n xs ! i = xs ! (off + i)"
  by (simp add: subrange_def)

lemma subrange_overlay_same [byte_simps]:
  "off + length bs \<le> length xs \<Longrightarrow> n = length bs \<Longrightarrow> subrange off n (overlay off bs xs) = bs"
  by (simp add: subrange_def overlay_def)

lemma subrange_overlay_other [byte_simps]:
  assumes "off + length bs \<le> length xs" "off' + n \<le> length xs"
    and "off' + n \<le> off \<or> off + length bs \<le> off'"
  shows "subrange off' n (overlay off bs xs) = subrange off' n xs"
proof (rule nth_equalityI)
  show "length (subrange off' n (overlay off bs xs)) = length (subrange off' n xs)"
    using assms by simp
next
  fix i assume "i < length (subrange off' n (overlay off bs xs))"
  with assms have i: "i < n" by simp
  with assms show "subrange off' n (overlay off bs xs) ! i = subrange off' n xs ! i"
    by (auto simp: nth_subrange nth_overlay)
qed

lemma subrange_subrange:
  "i + m \<le> n \<Longrightarrow> subrange i m (subrange off n xs) = subrange (off + i) m xs"
  by (simp add: subrange_def drop_take take_take min_def add.commute)

lemma subrange_append: "subrange off (m + n) xs = subrange off m xs @ subrange (off + m) n xs"
  by (simp add: subrange_def take_add add.commute)

lemma overlay_overlay_same [byte_simps]:
  "off + length bs \<le> length xs \<Longrightarrow> length cs = length bs \<Longrightarrow>
   overlay off cs (overlay off bs xs) = overlay off cs xs"
  by (simp add: overlay_def)

lemma overlay_subrange_id [byte_simps]:
  "off + n \<le> length xs \<Longrightarrow> overlay off (subrange off n xs) xs = xs"
  by (simp add: overlay_def subrange_def) (metis append_take_drop_id drop_drop add.commute)

section \<open>Little-endian integers\<close>

fun enc_le :: "nat \<Rightarrow> nat \<Rightarrow> byte list" where
  "enc_le 0 v = []"
| "enc_le (Suc k) v = word_of_nat v # enc_le k (v div 256)"

fun dec_le :: "byte list \<Rightarrow> nat" where
  "dec_le [] = 0"
| "dec_le (b # bs) = unat b + 256 * dec_le bs"

lemma length_enc_le [simp, byte_simps]: "length (enc_le k v) = k"
  by (induction k arbitrary: v) auto

lemma unat_byte_of_nat: "unat (word_of_nat v :: byte) = v mod 256"
  by (simp add: unat_of_nat take_bit_eq_mod)

lemma dec_enc_le [byte_simps]: "dec_le (enc_le k v) = v mod 256 ^ k"
proof (induction k arbitrary: v)
  case 0
  then show ?case by simp
next
  case (Suc k)
  have "v mod 256 ^ Suc k = 256 * (v div 256 mod 256 ^ k) + v mod 256"
    by (simp add: mod_mult2_eq)
  with Suc.IH show ?case by (simp add: unat_byte_of_nat)
qed

lemma dec_le_less: "dec_le bs < 256 ^ length bs"
proof (induction bs)
  case Nil
  then show ?case by simp
next
  case (Cons b bs)
  have "unat b < 256" using unsigned_less [of b] by simp
  with Cons.IH show ?case by simp
qed

lemma enc_dec_le [byte_simps]: "k = length bs \<Longrightarrow> enc_le k (dec_le bs) = bs"
proof (induction bs arbitrary: k)
  case Nil
  then show ?case by simp
next
  case (Cons b bs)
  have b: "unat b < 256" using unsigned_less [of b] by simp
  have z: "(256 :: byte) = 0" by simp
  have "word_of_nat (unat b + 256 * dec_le bs) = b"
    by (simp add: z del: word_of_nat_eq_0_iff)
  with Cons b show ?case by simp
qed

lemma dec_le_zero: "dec_le (replicate k 0) = 0"
  by (induction k) auto

lemma enc_le_zero: "enc_le k 0 = replicate k 0"
  by (induction k) auto

text \<open>A field of \<open>k\<close> bytes at offset \<open>off\<close>: how the code reads and writes a member of
  a struct that overlays a buffer.\<close>

definition get_le :: "nat \<Rightarrow> nat \<Rightarrow> byte list \<Rightarrow> nat" where
  "get_le k off xs = dec_le (subrange off k xs)"

definition put_le :: "nat \<Rightarrow> nat \<Rightarrow> nat \<Rightarrow> byte list \<Rightarrow> byte list" where
  "put_le k off v xs = overlay off (enc_le k v) xs"

lemma length_put_le [simp, byte_simps]:
  "off + k \<le> length xs \<Longrightarrow> length (put_le k off v xs) = length xs"
  by (simp add: put_le_def)

lemma get_put_same [byte_simps]:
  "off + k \<le> length xs \<Longrightarrow> get_le k off (put_le k off v xs) = v mod 256 ^ k"
  by (simp add: get_le_def put_le_def byte_simps)

lemma get_put_other [byte_simps]:
  "off + k \<le> length xs \<Longrightarrow> off' + k' \<le> length xs \<Longrightarrow> off' + k' \<le> off \<or> off + k \<le> off' \<Longrightarrow>
   get_le k' off' (put_le k off v xs) = get_le k' off' xs"
  by (simp add: get_le_def put_le_def byte_simps)

lemma get_overlay_other [byte_simps]:
  "off + length bs \<le> length xs \<Longrightarrow> off' + k' \<le> length xs \<Longrightarrow>
   off' + k' \<le> off \<or> off + length bs \<le> off' \<Longrightarrow>
   get_le k' off' (overlay off bs xs) = get_le k' off' xs"
  by (simp add: get_le_def byte_simps)

lemma get_le_less: "get_le k off xs < 256 ^ k"
proof -
  have "get_le k off xs < 256 ^ length (subrange off k xs)"
    by (simp add: get_le_def dec_le_less)
  also have "\<dots> \<le> 256 ^ k"
    by (rule power_increasing) (simp_all add: subrange_def)
  finally show ?thesis .
qed

lemma get_le_zeroes [byte_simps]: "off + k \<le> n \<Longrightarrow> get_le k off (replicate n 0) = 0"
  by (simp add: get_le_def subrange_def dec_le_zero)

section \<open>Lists\<close>

lemma find_SomeD: "find P xs = Some x \<Longrightarrow> P x \<and> x \<in> set xs"
  by (auto simp: find_Some_iff in_set_conv_nth)

lemma find_NoneD: "find P xs = None \<Longrightarrow> x \<in> set xs \<Longrightarrow> \<not> P x"
  by (auto simp: find_None_iff)

lemma find_some_exists: "x \<in> set xs \<Longrightarrow> P x \<Longrightarrow> \<exists>y. find P xs = Some y"
  by (cases "find P xs") (auto simp: find_None_iff)

lemma find_unique:
  assumes "x \<in> set xs" "P x" "\<And>y. y \<in> set xs \<Longrightarrow> P y \<Longrightarrow> y = x"
  shows "find P xs = Some x"
proof -
  from assms(1,2) obtain y where y: "find P xs = Some y" using find_some_exists by metis
  then have "P y \<and> y \<in> set xs" by (rule find_SomeD)
  with assms(3) y show ?thesis by auto
qed

lemma take_Suc_snoc: "n < length xs \<Longrightarrow> take (Suc n) xs = take n xs @ [xs ! n]"
  by (rule take_Suc_conv_app_nth)

lemma take_update_beyond: "n \<le> i \<Longrightarrow> take n (xs[i := x]) = take n xs"
  by (simp add: take_update_cancel)

end
