(* ===== verification/Machine.thy ===== *)
theory Machine
  imports Prelude
begin

text \<open>
  How kernel C code is run in the model.  A kernel routine is a state transformer whose
  outcome is a value of \<open>res\<close>: it returns (\<open>Ok\<close>), calls \<open>panic\<close> (\<open>Panic\<close>, with the
  source's message), gives up the CPU in \<open>sleep\<close> (\<open>Block\<close>, with the channel it sleeps
  on and the state it leaves behind), or does something C leaves undefined such as an
  access outside an array (\<open>Undef\<close>).  The state of the executing CPU visible to
  every routine is the stack of spin locks it holds and the process it runs; the layers
  above extend this record with their own tables.
\<close>

section \<open>Outcomes\<close>

text \<open>Wait channels: the address passed to \<open>sleep\<close> and \<open>wakeup\<close>.\<close>

datatype chan =
    ChanBuf nat | ChanLog | ChanInode nat | ChanPipeR nat | ChanPipeW nat
  | ChanProc nat | ChanTicks | ChanInput

datatype ('a, 's) res = Ok 'a 's | Panic string | Block chan 's | Undef string

type_synonym ('s, 'a) kmon = "'s \<Rightarrow> ('a, 's) res"

definition ret :: "'a \<Rightarrow> ('s, 'a) kmon" where
  "ret a s = Ok a s"

definition kbind :: "('s, 'a) kmon \<Rightarrow> ('a \<Rightarrow> ('s, 'b) kmon) \<Rightarrow> ('s, 'b) kmon" where
  "kbind m f s = (case m s of Ok a t \<Rightarrow> f a t | Panic e \<Rightarrow> Panic e
                  | Block c t \<Rightarrow> Block c t | Undef e \<Rightarrow> Undef e)"

definition kseq :: "('s, 'a) kmon \<Rightarrow> ('s, 'b) kmon \<Rightarrow> ('s, 'b) kmon" where
  "kseq m n = kbind m (\<lambda>_. n)"

definition kget :: "('s \<Rightarrow> 'a) \<Rightarrow> ('s, 'a) kmon" where
  "kget f s = Ok (f s) s"

definition kmod :: "('s \<Rightarrow> 's) \<Rightarrow> ('s, unit) kmon" where
  "kmod f s = Ok () (f s)"

definition kpanic :: "string \<Rightarrow> ('s, 'a) kmon" where
  "kpanic e s = Panic e"

definition kundef :: "string \<Rightarrow> ('s, 'a) kmon" where
  "kundef e s = Undef e"

definition kwhen :: "bool \<Rightarrow> ('s, unit) kmon \<Rightarrow> ('s, unit) kmon" where
  "kwhen b m = (if b then m else ret ())"

text \<open>A counted \<open>for\<close> loop over a range known on entry.\<close>

primrec kfor :: "nat list \<Rightarrow> (nat \<Rightarrow> ('s, unit) kmon) \<Rightarrow> ('s, unit) kmon" where
  "kfor [] f = ret ()"
| "kfor (i # is) f = kseq (f i) (kfor is f)"

text \<open>A search loop: the body returns a value to leave the loop, \<open>None\<close> to go on.\<close>

primrec kfirst :: "nat list \<Rightarrow> (nat \<Rightarrow> ('s, 'a option) kmon) \<Rightarrow> ('s, 'a option) kmon" where
  "kfirst [] f = ret None"
| "kfirst (i # is) f =
     kbind (f i) (\<lambda>r. case r of None \<Rightarrow> kfirst is f | Some a \<Rightarrow> ret (Some a))"

named_theorems kmon_simps \<open>evaluating the outcome monad\<close>

lemma kbind_Ok [kmon_simps]: "m s = Ok a t \<Longrightarrow> kbind m f s = f a t"
  and kbind_Panic [kmon_simps]: "m s = Panic e \<Longrightarrow> kbind m f s = Panic e"
  and kbind_Block [kmon_simps]: "m s = Block c t \<Longrightarrow> kbind m f s = Block c t"
  and kbind_Undef [kmon_simps]: "m s = Undef e \<Longrightarrow> kbind m f s = Undef e"
  by (simp_all add: kbind_def)

lemma kbind_ret [simp]: "kbind (ret a) f = f a"
  by (simp add: kbind_def ret_def fun_eq_iff)

lemma kbind_kget [simp]: "kbind (kget g) f s = f (g s) s"
  by (simp add: kbind_def kget_def)

lemma kbind_kmod [simp]: "kbind (kmod h) f s = f () (h s)"
  by (simp add: kbind_def kmod_def)

lemma kbind_kpanic [simp]: "kbind (kpanic e) f = kpanic e"
  by (simp add: kbind_def kpanic_def fun_eq_iff)

lemma kbind_kundef [simp]: "kbind (kundef e) f = kundef e"
  by (simp add: kbind_def kundef_def fun_eq_iff)

lemma kbind_kbind [simp]: "kbind (kbind m g) f = kbind m (\<lambda>a. kbind (g a) f)"
  by (auto simp: kbind_def fun_eq_iff split: res.splits)

lemma ret_eq [simp]: "(ret a s = Ok b t) = (b = a \<and> t = s)"
  by (auto simp: ret_def)

lemma kget_eq [simp]: "(kget g s = Ok b t) = (b = g s \<and> t = s)"
  by (auto simp: kget_def)

lemma kmod_eq [simp]: "(kmod h s = Ok u t) = (t = h s)"
  by (auto simp: kmod_def)

lemma kpanic_eq [simp]: "(kpanic e s = Ok b t) = False"
  by (simp add: kpanic_def)

lemma kundef_eq [simp]: "(kundef e s = Ok b t) = False"
  by (simp add: kundef_def)

lemma kbind_eq_Ok:
  "(kbind m f s = Ok b t) = (\<exists>a u. m s = Ok a u \<and> f a u = Ok b t)"
  by (auto simp: kbind_def split: res.splits)

lemma kseq_eq_Ok:
  "(kseq m n s = Ok b t) = (\<exists>a u. m s = Ok a u \<and> n u = Ok b t)"
  by (simp add: kseq_def kbind_eq_Ok)

lemma kbind_OkE:
  assumes "kbind m f s = Ok b t"
  obtains a u where "m s = Ok a u" "f a u = Ok b t"
  using assms by (auto simp: kbind_eq_Ok)

lemma kseq_OkE:
  assumes "kseq m n s = Ok b t"
  obtains a u where "m s = Ok a u" "n u = Ok b t"
  using assms by (auto simp: kseq_eq_Ok)

lemma kseq_Ok [kmon_simps]: "m s = Ok a t \<Longrightarrow> kseq m n s = n t"
  by (simp add: kseq_def kmon_simps)

lemma kwhen_simps [simp]: "kwhen True m = m" "kwhen False m = ret ()"
  by (simp_all add: kwhen_def)

lemma kfor_append: "kfor (is @ js) f = kseq (kfor is f) (kfor js f)"
  by (induction "is") (auto simp: kseq_def)

text \<open>Loop rules: an invariant indexed by the part of the range already done.\<close>

lemma kfor_inv:
  assumes "kfor is f s = Ok u t" and "I [] s"
    and step: "\<And>done i rest a b. is = done @ i # rest \<Longrightarrow> I done a \<Longrightarrow> f i a = Ok () b \<Longrightarrow> I (done @ [i]) b"
  shows "I is t"
proof -
  have gen: "kfor rest f a = Ok u t \<Longrightarrow> I done a \<Longrightarrow> is = done @ rest \<Longrightarrow> I is t" for "done" rest a
  proof (induction rest arbitrary: "done" a)
    case Nil
    then show ?case by simp
  next
    case (Cons i rest)
    from Cons.prems(1) obtain x b where fi: "f i a = Ok x b" and rest: "kfor rest f b = Ok u t"
      by (auto elim: kseq_OkE)
    have "I (done @ [i]) b" using step Cons.prems(2,3) fi by simp
    with Cons.IH [OF rest, of "done @ [i]"] Cons.prems(3) show ?case by simp
  qed
  from gen [of "is" s "[]"] assms(1,2) show ?thesis by simp
qed

lemma kfor_total:
  assumes "I [] s"
    and step: "\<And>done i rest a. is = done @ i # rest \<Longrightarrow> I done a \<Longrightarrow> \<exists>b. f i a = Ok () b \<and> I (done @ [i]) b"
  shows "\<exists>t. kfor is f s = Ok () t \<and> I is t"
proof -
  have gen: "I done a \<Longrightarrow> is = done @ rest \<Longrightarrow> \<exists>t. kfor rest f a = Ok () t \<and> I is t" for "done" rest a
  proof (induction rest arbitrary: "done" a)
    case Nil
    then show ?case by (simp add: ret_def)
  next
    case (Cons i rest)
    obtain b where b: "f i a = Ok () b" "I (done @ [i]) b"
      using step [of "done" i rest a] Cons.prems by auto
    from Cons.IH [of "done @ [i]" b] b(2) Cons.prems(2)
    obtain t where "kfor rest f b = Ok () t" "I is t" by auto
    with b(1) show ?case by (auto simp: kmon_simps)
  qed
  from gen [of "[]" s "is"] assms(1) show ?thesis by simp
qed

lemma kfirst_inv:
  assumes "kfirst is f s = Ok r t" and "I s"
    and step: "\<And>i a r b. i \<in> set is \<Longrightarrow> I a \<Longrightarrow> f i a = Ok r b \<Longrightarrow> case r of None \<Rightarrow> I b | Some v \<Rightarrow> Q v b"
  shows "case r of None \<Rightarrow> I t | Some v \<Rightarrow> Q v t"
  using assms
proof (induction "is" arbitrary: s)
  case Nil
  then show ?case by simp
next
  case (Cons i "is")
  from Cons.prems(1) obtain q b where fi: "f i s = Ok q b"
    and rest: "(case q of None \<Rightarrow> kfirst is f | Some a \<Rightarrow> ret (Some a)) b = Ok r t"
    by (auto elim: kbind_OkE)
  have st: "case q of None \<Rightarrow> I b | Some v \<Rightarrow> Q v b"
    using Cons.prems(2,3) fi by (metis list.set_intros(1))
  show ?case
  proof (cases q)
    case None
    with st rest Cons.IH [of b] Cons.prems(3) show ?thesis by (metis list.set_intros(2) option.simps(4))
  next
    case (Some v)
    with st rest show ?thesis by simp
  qed
qed

text \<open>A search loop whose body decides a pure test \<open>P\<close> and does not change the state when it
  fails finds the first element that passes.\<close>

lemma kfirst_find:
  assumes "kfirst is f s = Ok r t" and "I s"
    and step: "\<And>i a r b. i \<in> set is \<Longrightarrow> I a \<Longrightarrow> f i a = Ok r b \<Longrightarrow> if P i then r \<noteq> None \<and> G i a r b else r = None \<and> I b"
  shows "case find P is of None \<Rightarrow> r = None \<and> I t | Some i \<Rightarrow> (\<exists>u. I u \<and> G i u r t)"
  using assms
proof (induction "is" arbitrary: s)
  case Nil
  then show ?case by simp
next
  case (Cons i "is")
  from Cons.prems(1) obtain q b where fi: "f i s = Ok q b"
    and rest: "(case q of None \<Rightarrow> kfirst is f | Some a \<Rightarrow> ret (Some a)) b = Ok r t"
    by (auto elim: kbind_OkE)
  have st: "if P i then q \<noteq> None \<and> G i s q b else q = None \<and> I b"
    by (rule Cons.prems(3) [OF list.set_intros(1) Cons.prems(2) fi])
  show ?case
  proof (cases "P i")
    case True
    with st rest have "r = q" "t = b" by auto
    with True st Cons.prems(2) show ?thesis by auto
  next
    case False
    with st rest have "kfirst is f b = Ok r t" "I b" by auto
    then have "case find P is of None \<Rightarrow> r = None \<and> I t | Some i \<Rightarrow> (\<exists>u. I u \<and> G i u r t)"
      by (rule Cons.IH) (rule Cons.prems(3), rule list.set_intros(2))
    with False show ?thesis by simp
  qed
qed

text \<open>Such a loop returns if its body does.\<close>

lemma kfirst_total:
  assumes "I s"
    and step: "\<And>i a. i \<in> set is \<Longrightarrow> I a \<Longrightarrow>
      if P i then \<exists>v b. f i a = Ok (Some v) b \<and> Q v b else \<exists>b. f i a = Ok None b \<and> I b"
  shows "if \<exists>i \<in> set is. P i then \<exists>v t. kfirst is f s = Ok (Some v) t \<and> Q v t
    else \<exists>t. kfirst is f s = Ok None t \<and> I t"
  using assms
proof (induction "is" arbitrary: s)
  case Nil
  then show ?case by (simp add: ret_def)
next
  case (Cons i "is")
  have st: "if P i then \<exists>v b. f i s = Ok (Some v) b \<and> Q v b else \<exists>b. f i s = Ok None b \<and> I b"
    by (rule Cons.prems(2) [OF list.set_intros(1) Cons.prems(1)])
  show ?case
  proof (cases "P i")
    case True
    with st show ?thesis by (auto simp: kbind_Ok ret_def)
  next
    case False
    with st obtain b where b: "f i s = Ok None b" "I b" by auto
    have "if \<exists>i \<in> set is. P i then \<exists>v t. kfirst is f b = Ok (Some v) t \<and> Q v t
        else \<exists>t. kfirst is f b = Ok None t \<and> I t"
      by (rule Cons.IH [OF b(2)]) (rule Cons.prems(2), rule list.set_intros(2))
    with b(1) False show ?thesis by (simp add: kbind_Ok)
  qed
qed

section \<open>Routines that keep a part of the state\<close>

text \<open>\<open>v\<close> is a view of the state, usually one or more members, that \<open>m\<close> leaves as it is when it
  returns.\<close>

definition keeps :: "('s \<Rightarrow> 'v) \<Rightarrow> ('s, 'a) kmon \<Rightarrow> bool" where
  "keeps v m \<longleftrightarrow> (\<forall>s a t. m s = Ok a t \<longrightarrow> v t = v s)"

named_theorems keeps_intros \<open>what keeps a part of the state\<close>

lemma keeps_basic [keeps_intros]: "keeps v (ret a)" "keeps v (kget f)" "keeps v (kpanic e)" "keeps v (kundef e)"
  by (simp_all add: keeps_def)

lemma keeps_kmod [keeps_intros]: "(\<And>s. v (f s) = v s) \<Longrightarrow> keeps v (kmod f)"
  by (simp add: keeps_def)

lemma keeps_kbind [keeps_intros]: "keeps v m \<Longrightarrow> (\<And>a. keeps v (f a)) \<Longrightarrow> keeps v (kbind m f)"
  by (force simp: keeps_def kbind_eq_Ok)

lemma keeps_kseq [keeps_intros]: "keeps v m \<Longrightarrow> keeps v n \<Longrightarrow> keeps v (kseq m n)"
  by (simp add: kseq_def keeps_kbind)

lemma keeps_kwhen [keeps_intros]: "keeps v m \<Longrightarrow> keeps v (kwhen b m)"
  by (simp add: kwhen_def keeps_basic)

lemma keeps_if [keeps_intros]:
  "(b \<Longrightarrow> keeps v m) \<Longrightarrow> (\<not> b \<Longrightarrow> keeps v n) \<Longrightarrow> keeps v (if b then m else n)"
  by simp

lemma keeps_option [keeps_intros]: "keeps v m \<Longrightarrow> (\<And>a. keeps v (f a)) \<Longrightarrow> keeps v (case x of None \<Rightarrow> m | Some a \<Rightarrow> f a)"
  by (simp split: option.split)

lemma keeps_prod [keeps_intros]: "(\<And>a b. keeps v (f a b)) \<Longrightarrow> keeps v (case x of (a, b) \<Rightarrow> f a b)"
  by (simp split: prod.split)

lemma keeps_kfor [keeps_intros]: "(\<And>i. keeps v (f i)) \<Longrightarrow> keeps v (kfor is f)"
  by (induction "is") (auto intro: keeps_intros)

lemma keepsD: "keeps v m \<Longrightarrow> m s = Ok a t \<Longrightarrow> v t = v s"
  by (simp add: keeps_def)

section \<open>Spin locks as seen by one CPU\<close>

text \<open>
  The locks of the kernel.  The detailed multiprocessor model of \<open>spinlock.c\<close> is the
  theory \<open>Spinlock\<close>; here a critical section is seen from the CPU that executes it:
  \<open>held\<close> is the stack of locks this CPU has acquired and not released, and its length is
  \<open>cpu->ncli\<close>.  An \<open>acquire\<close> that has to spin returns once the lock is free, so its
  effect on the caller is the same as that of an uncontended one.
\<close>

datatype lockid =
    KmemLock | PtableLock | BcacheLock | IcacheLock | FtableLock | LogLock
  | IdeLock | TicksLock | ConsLock | InputLock | PipeLock nat

record machine =
  held :: "lockid list"
  cur  :: "nat option"

definition acquire :: "lockid \<Rightarrow> ('z machine_scheme, unit) kmon" where
  "acquire l s = (if l \<in> set (held s) then Panic ''acquire'' else Ok () (s\<lparr>held := l # held s\<rparr>))"

definition release :: "lockid \<Rightarrow> ('z machine_scheme, unit) kmon" where
  "release l s = (if l \<notin> set (held s) then Panic ''release''
                  else Ok () (s\<lparr>held := remove1 l (held s)\<rparr>))"

lemma acquire_free [simp]: "l \<notin> set (held s) \<Longrightarrow> acquire l s = Ok () (s\<lparr>held := l # held s\<rparr>)"
  by (simp add: acquire_def)

lemma release_held [simp]: "l \<in> set (held s) \<Longrightarrow> release l s = Ok () (s\<lparr>held := remove1 l (held s)\<rparr>)"
  by (simp add: release_def)

lemma acquire_OkD: "acquire l s = Ok u t \<Longrightarrow> l \<notin> set (held s) \<and> t = s\<lparr>held := l # held s\<rparr>"
  by (simp add: acquire_def split: if_splits)

lemma release_OkD: "release l s = Ok u t \<Longrightarrow> l \<in> set (held s) \<and> t = s\<lparr>held := remove1 l (held s)\<rparr>"
  by (simp add: release_def split: if_splits)

text \<open>The critical-section bracket leaves the machine as it found it.\<close>

lemma acquire_release:
  "l \<notin> set (held s) \<Longrightarrow> kseq (acquire l) (release l) s = Ok () s"
  by (simp add: kseq_def kmon_simps)

end
