(* ===== verification/Cstring.thy ===== *)
theory Cstring
  imports Prelude
begin

unbundle bit_operations_syntax

text \<open>
  \<open>string.c\<close>: the kernel's memory and string routines, over a byte-addressed memory.
  Routines that only read take the bytes that follow their pointer arguments as
  functions of the offset, so \<open>p 0\<close> is \<open>*p\<close> and \<open>p (Suc i)\<close> is \<open>p[i+1]\<close>.
  A routine whose C loop has no bound (\<open>strlen\<close>) is a partial function: \<open>None\<close> is a
  scan that never meets a zero byte.
\<close>

type_synonym memory = "nat \<Rightarrow> byte"

definition ptr :: "memory \<Rightarrow> nat \<Rightarrow> nat \<Rightarrow> byte" where
  "ptr m a i = m (a + i)"

definition load :: "memory \<Rightarrow> nat \<Rightarrow> nat \<Rightarrow> byte list" where
  "load m a n = map (ptr m a) [0..<n]"

definition store :: "memory \<Rightarrow> nat \<Rightarrow> byte list \<Rightarrow> memory" where
  "store m a bs x = (if a \<le> x \<and> x < a + length bs then bs ! (x - a) else m x)"

definition load32 :: "memory \<Rightarrow> nat \<Rightarrow> nat" where
  "load32 m a = dec_le (load m a 4)"

definition store32 :: "memory \<Rightarrow> nat \<Rightarrow> nat \<Rightarrow> memory" where
  "store32 m a v = store m a (enc_le 4 v)"

named_theorems mem_simps \<open>reading memory after a write\<close>

lemma length_load [simp]: "length (load m a n) = n"
  by (simp add: load_def)

lemma load_store_same [mem_simps]: "n = length bs \<Longrightarrow> load (store m a bs) a n = bs"
  by (rule nth_equalityI) (auto simp: load_def store_def ptr_def)

lemma load_store_other [mem_simps]:
  "a + n \<le> b \<or> b + length bs \<le> a \<Longrightarrow> load (store m b bs) a n = load m a n"
  by (rule nth_equalityI) (auto simp: load_def store_def ptr_def)

lemma load32_store32_same [mem_simps]: "v < 2 ^ 32 \<Longrightarrow> load32 (store32 m a v) a = v"
  by (simp add: load32_def store32_def mem_simps byte_simps)

lemma load32_store32_other [mem_simps]:
  "a + 4 \<le> b \<or> b + 4 \<le> a \<Longrightarrow> load32 (store32 m b v) a = load32 m a"
  by (simp add: load32_def store32_def mem_simps)

lemma load32_less: "load32 m a < 2 ^ 32"
  using dec_le_less [of "load m a 4"] by (simp add: load32_def)

lemma load_cong: "(\<And>i. i < n \<Longrightarrow> m (a + i) = m' (a + i)) \<Longrightarrow> load m a n = load m' a n"
  by (simp add: load_def ptr_def)

section \<open>memset\<close>

text \<open>The string instructions \<open>memset\<close> is built on (\<open>x86.h\<close>): store \<open>n\<close> bytes, or
  \<open>n\<close> little-endian 32-bit words, going up from \<open>a\<close>.\<close>

primrec stosb :: "memory \<Rightarrow> nat \<Rightarrow> byte \<Rightarrow> nat \<Rightarrow> memory" where
  "stosb m a c 0 = m"
| "stosb m a c (Suc n) = stosb (m(a := c)) (Suc a) c n"

primrec stosl :: "memory \<Rightarrow> nat \<Rightarrow> nat \<Rightarrow> nat \<Rightarrow> memory" where
  "stosl m a w 0 = m"
| "stosl m a w (Suc n) = stosl (store32 m a w) (a + 4) w n"

definition memset :: "memory \<Rightarrow> nat \<Rightarrow> 32 word \<Rightarrow> nat \<Rightarrow> memory" where
  "memset m dst c n =
     (if dst mod 4 = 0 \<and> n mod 4 = 0 then
        let c = c AND 0xFF in
        stosl m dst (unat (((push_bit 24 c OR push_bit 16 c) OR push_bit 8 c) OR c)) (n div 4)
      else stosb m dst (ucast c) n)"

lemma stosb_eq: "stosb m a c n x = (if a \<le> x \<and> x < a + n then c else m x)"
  by (induction n arbitrary: m a) auto

lemma stosl_eq:
  "stosl m a w n x = (if a \<le> x \<and> x < a + 4 * n then enc_le 4 w ! ((x - a) mod 4) else m x)"
proof (induction n arbitrary: m a)
  case 0
  then show ?case by auto
next
  case (Suc n)
  consider "x < a" | "a \<le> x" "x < a + 4" | "a + 4 \<le> x" by linarith
  then show ?case
  proof cases
    case 2
    then show ?thesis using Suc by (simp add: store32_def store_def)
  next
    case 3
    then obtain d where "x = a + 4 + d" using le_Suc_ex by blast
    then have "(x - a) mod 4 = (x - (a + 4)) mod 4" by simp
    with 3 Suc show ?thesis by (simp add: store32_def store_def)
  qed (use Suc in \<open>simp add: store32_def store_def\<close>)
qed

lemma enc_le_nth: "i < k \<Longrightarrow> enc_le k v ! i = word_of_nat (v div 256 ^ i)"
proof (induction k arbitrary: v i)
  case 0
  then show ?case by simp
next
  case (Suc k)
  then show ?case by (cases i) (simp_all add: div_mult2_eq)
qed

lemma byte_of_word: "word_of_nat (unat w div 2 ^ k) = (ucast (drop_bit k (w :: 32 word)) :: byte)"
proof -
  have "unat w div 2 ^ k = unat (drop_bit k w)"
    by (simp only: unat_drop_bit_eq drop_bit_eq_div [of k "unat w"])
  then show ?thesis by (simp only: of_nat_unat)
qed

text \<open>The word \<open>memset\<close> stores is its byte argument four times.\<close>

lemma memset_word:
  fixes c :: "32 word"
  defines "w \<equiv> ((push_bit 24 (c AND 0xFF) OR push_bit 16 (c AND 0xFF)) OR push_bit 8 (c AND 0xFF)) OR (c AND 0xFF)"
  shows "enc_le 4 (unat w) = replicate 4 (ucast c)"
proof -
  have m: "(0xFF :: 32 word) = mask 8" by (simp add: mask_eq_exp_minus_1)
  have b: "ucast (drop_bit k w) = (ucast c :: byte)" if "k \<in> {0, 8, 16, 24}" for k
  proof (rule bit_word_eqI)
    fix n assume n: "n < LENGTH(8)"
    then have "bit w (k + n) = bit c n"
      using that unfolding w_def m by (elim insertE emptyE) (simp_all add: bit_simps)
    with n that show "bit (ucast (drop_bit k w) :: byte) n = bit (ucast c :: byte) n"
      by (auto simp: bit_simps)
  qed
  show ?thesis
  proof (rule nth_equalityI)
    fix i assume "i < length (enc_le 4 (unat w))"
    then have i: "i < 4" by simp
    have "enc_le 4 (unat w) ! i = word_of_nat (unat w div 2 ^ (8 * i))"
      using i by (simp add: enc_le_nth power_mult)
    also have "\<dots> = ucast (drop_bit (8 * i) w)" by (rule byte_of_word)
    also have "\<dots> = ucast c" using i by (intro b) auto
    finally show "enc_le 4 (unat w) ! i = replicate 4 (ucast c) ! i" using i by simp
  qed simp
qed

text \<open>Both ways of filling memory have the effect callers expect.\<close>

lemma memset_eq:
  "memset m dst c n x = (if dst \<le> x \<and> x < dst + n then ucast c else m x)"
proof (cases "dst mod 4 = 0 \<and> n mod 4 = 0")
  case True
  then have n: "4 * (n div 4) = n" by auto
  have "(x - dst) mod 4 < 4" by simp
  moreover have "memset m dst c n x =
      (if dst \<le> x \<and> x < dst + 4 * (n div 4) then replicate 4 (ucast c) ! ((x - dst) mod 4) else m x)"
    using True by (simp only: memset_def Let_def stosl_eq memset_word if_P)
  ultimately show ?thesis by (simp add: n)
next
  case False
  then show ?thesis by (auto simp: memset_def stosb_eq)
qed

lemma load_memset_other [mem_simps]:
  "a + k \<le> d \<or> d + n \<le> a \<Longrightarrow> load (memset m d c n) a k = load m a k"
  by (rule load_cong) (auto simp: memset_eq)

lemma load_memset_same [mem_simps]:
  "d \<le> a \<Longrightarrow> a + k \<le> d + n \<Longrightarrow> load (memset m d c n) a k = replicate k (ucast c)"
  by (rule nth_equalityI) (auto simp: load_def ptr_def memset_eq)

lemma load32_memset_other [mem_simps]:
  "a + 4 \<le> d \<or> d + n \<le> a \<Longrightarrow> load32 (memset m d c n) a = load32 m a"
  by (simp add: load32_def mem_simps)

lemma load32_memset_zero [mem_simps]:
  "d \<le> a \<Longrightarrow> a + 4 \<le> d + n \<Longrightarrow> load32 (memset m d 0 n) a = 0"
  by (simp add: load32_def mem_simps dec_le_zero)

section \<open>memmove and memcpy\<close>

primrec copy_up :: "memory \<Rightarrow> nat \<Rightarrow> nat \<Rightarrow> nat \<Rightarrow> memory" where
  "copy_up m d s 0 = m"
| "copy_up m d s (Suc n) = copy_up (m(d := m s)) (Suc d) (Suc s) n"

text \<open>\<open>d\<close> and \<open>s\<close> are one past the end of what is left to copy.\<close>

primrec copy_down :: "memory \<Rightarrow> nat \<Rightarrow> nat \<Rightarrow> nat \<Rightarrow> memory" where
  "copy_down m d s 0 = m"
| "copy_down m d s (Suc n) = copy_down (m(d - 1 := m (s - 1))) (d - 1) (s - 1) n"

definition memmove :: "memory \<Rightarrow> nat \<Rightarrow> nat \<Rightarrow> nat \<Rightarrow> memory" where
  "memmove m dst src n =
     (if src < dst \<and> src + n > dst then copy_down m (dst + n) (src + n) n
      else copy_up m dst src n)"

definition memcpy :: "memory \<Rightarrow> nat \<Rightarrow> nat \<Rightarrow> nat \<Rightarrow> memory" where
  "memcpy m dst src n = memmove m dst src n"

lemma copy_up_eq:
  "d \<le> s \<or> s + n \<le> d \<Longrightarrow>
   copy_up m d s n x = (if d \<le> x \<and> x < d + n then m (s + (x - d)) else m x)"
proof (induction n arbitrary: m d s)
  case 0
  then show ?case by auto
next
  case (Suc n)
  have "copy_up m d s (Suc n) x =
      (if Suc d \<le> x \<and> x < Suc d + n then (m(d := m s)) (Suc s + (x - Suc d)) else (m(d := m s)) x)"
    unfolding copy_up.simps using Suc.prems by (intro Suc.IH) auto
  with Suc.prems show ?case by (auto simp: Suc_diff_Suc)
qed

lemma copy_down_eq:
  "n \<le> s \<Longrightarrow> s \<le> d \<Longrightarrow>
   copy_down m d s n x = (if d - n \<le> x \<and> x < d then m (s + x - d) else m x)"
proof (induction n arbitrary: m d s)
  case 0
  then show ?case by auto
next
  case (Suc n)
  have "copy_down m d s (Suc n) x =
      (if d - 1 - n \<le> x \<and> x < d - 1 then (m(d - 1 := m (s - 1))) (s - 1 + x - (d - 1))
       else (m(d - 1 := m (s - 1))) x)"
    unfolding copy_down.simps using Suc.prems by (intro Suc.IH) auto
  with Suc.prems show ?case by (auto simp: algebra_simps)
qed

text \<open>The copy is as if the source had been read completely before the first write, for
  every overlap of the two ranges.\<close>

lemma memmove_eq:
  "memmove m dst src n x = (if dst \<le> x \<and> x < dst + n then m (src + (x - dst)) else m x)"
proof (cases "src < dst \<and> src + n > dst")
  case True
  have "copy_down m (dst + n) (src + n) n x =
      (if dst + n - n \<le> x \<and> x < dst + n then m (src + n + x - (dst + n)) else m x)"
    using True by (intro copy_down_eq) auto
  with True show ?thesis by (auto simp: memmove_def)
next
  case False
  then have "dst \<le> src \<or> src + n \<le> dst" by auto
  then show ?thesis using False copy_up_eq [of dst src n m x] by (auto simp: memmove_def)
qed

lemma memmove_store: "memmove m dst src n = store m dst (load m src n)"
  by (auto simp: fun_eq_iff memmove_eq store_def load_def ptr_def)

section \<open>Comparing and copying strings\<close>

primrec memcmp :: "(nat \<Rightarrow> byte) \<Rightarrow> (nat \<Rightarrow> byte) \<Rightarrow> nat \<Rightarrow> int" where
  "memcmp s1 s2 0 = 0"
| "memcmp s1 s2 (Suc n) =
     (if s1 0 \<noteq> s2 0 then int (unat (s1 0)) - int (unat (s2 0))
      else memcmp (\<lambda>i. s1 (Suc i)) (\<lambda>i. s2 (Suc i)) n)"

primrec strncmp :: "(nat \<Rightarrow> byte) \<Rightarrow> (nat \<Rightarrow> byte) \<Rightarrow> nat \<Rightarrow> int" where
  "strncmp p q 0 = 0"
| "strncmp p q (Suc n) =
     (if p 0 \<noteq> 0 \<and> p 0 = q 0 then strncmp (\<lambda>i. p (Suc i)) (\<lambda>i. q (Suc i)) n
      else int (unat (p 0)) - int (unat (q 0)))"

primrec zero_fill :: "memory \<Rightarrow> nat \<Rightarrow> nat \<Rightarrow> memory" where
  "zero_fill m s 0 = m"
| "zero_fill m s (Suc n) = zero_fill (m(s := 0)) (Suc s) n"

primrec strncpy_loop :: "memory \<Rightarrow> nat \<Rightarrow> nat \<Rightarrow> nat \<Rightarrow> memory" where
  "strncpy_loop m s t 0 = m"
| "strncpy_loop m s t (Suc n) =
     (if m t \<noteq> 0 then strncpy_loop (m(s := m t)) (Suc s) (Suc t) n
      else zero_fill (m(s := m t)) (Suc s) n)"

definition strncpy :: "memory \<Rightarrow> nat \<Rightarrow> nat \<Rightarrow> int \<Rightarrow> memory" where
  "strncpy m s t n = strncpy_loop m s t (nat n)"

primrec safestrcpy_loop :: "memory \<Rightarrow> nat \<Rightarrow> nat \<Rightarrow> nat \<Rightarrow> memory" where
  "safestrcpy_loop m s t 0 = m(s := 0)"
| "safestrcpy_loop m s t (Suc n) =
     (if m t \<noteq> 0 then safestrcpy_loop (m(s := m t)) (Suc s) (Suc t) n
      else (m(s := m t))(Suc s := 0))"

definition safestrcpy :: "memory \<Rightarrow> nat \<Rightarrow> nat \<Rightarrow> int \<Rightarrow> memory" where
  "safestrcpy m s t n = (if n \<le> 0 then m else safestrcpy_loop m s t (nat (n - 1)))"

partial_function (option) strlen_loop :: "(nat \<Rightarrow> byte) \<Rightarrow> nat \<Rightarrow> nat option" where
  "strlen_loop s n = (if s n = 0 then Some n else strlen_loop s (Suc n))"

definition strlen :: "(nat \<Rightarrow> byte) \<Rightarrow> nat option" where
  "strlen s = strlen_loop s 0"

text \<open>A NUL-terminated string at a pointer, and its bytes.\<close>

definition cstr :: "(nat \<Rightarrow> byte) \<Rightarrow> byte list \<Rightarrow> bool" where
  "cstr p xs \<longleftrightarrow> (\<forall>i < length xs. p i = xs ! i \<and> xs ! i \<noteq> 0) \<and> p (length xs) = 0"

lemma cstr_Cons: "cstr p (x # xs) \<longleftrightarrow> p 0 = x \<and> x \<noteq> 0 \<and> cstr (\<lambda>i. p (Suc i)) xs"
  by (auto simp: cstr_def less_Suc_eq_0_disj nth_Cons')

lemma strlen_loop_eq:
  "cstr (\<lambda>i. s (n + i)) xs \<Longrightarrow> strlen_loop s n = Some (n + length xs)"
proof (induction xs arbitrary: n)
  case Nil
  then show ?case by (simp add: cstr_def strlen_loop.simps)
next
  case (Cons x xs)
  then have "s n \<noteq> 0" "cstr (\<lambda>i. s (Suc n + i)) xs"
    by (auto simp: cstr_Cons)
  with Cons.IH [of "Suc n"] show ?case by (simp add: strlen_loop.simps [of s n])
qed

lemma strlen_cstr: "cstr s xs \<Longrightarrow> strlen s = Some (length xs)"
  using strlen_loop_eq [of s 0 xs] by (simp add: strlen_def)

lemma uint_inj: "uint a = uint b \<longleftrightarrow> a = b" for a b :: byte
  by (simp add: word_uint_eq_iff)

lemma memcmp_eq_0: "memcmp p q n = 0 \<longleftrightarrow> (\<forall>i < n. p i = q i)"
  by (induction n arbitrary: p q) (auto simp: less_Suc_eq_0_disj uint_inj)

text \<open>The bytes \<open>strncmp\<close> compares: up to \<open>n\<close> of them, stopping before a NUL.\<close>

primrec strn :: "(nat \<Rightarrow> byte) \<Rightarrow> nat \<Rightarrow> byte list" where
  "strn p 0 = []"
| "strn p (Suc n) = (if p 0 = 0 then [] else p 0 # strn (\<lambda>i. p (Suc i)) n)"

lemma strncmp_eq_0: "strncmp p q n = 0 \<longleftrightarrow> strn p n = strn q n"
  by (induction n arbitrary: p q) (auto simp: uint_inj uint_0_iff)

lemma ptr_Suc: "(\<lambda>i. ptr m a (Suc i)) = ptr m (Suc a)"
  and ptr_0: "ptr m a 0 = m a"
  by (auto simp: ptr_def fun_eq_iff)

lemma strn_cong: "(\<And>i. i < n \<Longrightarrow> p i = q i) \<Longrightarrow> strn p n = strn q n"
proof (induction n arbitrary: p q)
  case 0
  then show ?case by simp
next
  case (Suc n)
  have "strn (\<lambda>i. p (Suc i)) n = strn (\<lambda>i. q (Suc i)) n"
    by (rule Suc.IH) (rule Suc.prems, simp)
  moreover have "p 0 = q 0" by (rule Suc.prems) simp
  ultimately show ?case by simp
qed

lemma zero_fill_eq: "zero_fill m s n x = (if s \<le> x \<and> x < s + n then 0 else m x)"
  by (induction n arbitrary: m s) auto

text \<open>\<open>strncpy\<close> from a string outside its target writes exactly \<open>n\<close> bytes: the string,
  cut off at \<open>n\<close>, then zeroes.\<close>

lemma strncpy_loop_strn:
  assumes "t + n \<le> s \<or> s + n \<le> t"
  shows "strncpy_loop m s t n =
    store m s (strn (ptr m t) n @ replicate (n - length (strn (ptr m t) n)) 0)"
  using assms
proof (induction n arbitrary: m s t)
  case 0
  then show ?case by (auto simp: store_def fun_eq_iff)
next
  case (Suc n)
  let ?m = "m(s := m t)"
  have frame: "strn (ptr ?m (Suc t)) n = strn (ptr m (Suc t)) n"
    using Suc.prems by (intro strn_cong) (auto simp: ptr_def)
  show ?case
  proof (cases "m t = 0")
    case True
    then show ?thesis by (auto simp: fun_eq_iff zero_fill_eq store_def ptr_0 nth_Cons')
  next
    case False
    have "strncpy_loop m s t (Suc n) = strncpy_loop ?m (Suc s) (Suc t) n" using False by simp
    also have "\<dots> = store ?m (Suc s) (strn (ptr ?m (Suc t)) n @ replicate (n - length (strn (ptr ?m (Suc t)) n)) 0)"
      using Suc.prems by (intro Suc.IH) auto
    finally show ?thesis using False by (auto simp: frame ptr_0 ptr_Suc fun_eq_iff store_def nth_Cons')
  qed
qed

section \<open>Properties\<close>

text \<open>\<open>memmove\<close> copies as if it read the whole source first, however the ranges overlap, and
  changes nothing else; \<open>memset\<close> fills its range with the low byte of its argument on both its
  word and its byte path, and changes nothing else.\<close>

theorem memmove_memset:
  "memmove m dst src n = store m dst (load m src n) \<and>
   memset m dst c k x = (if dst \<le> x \<and> x < dst + k then ucast c else m x)"
  using memmove_store memset_eq by blast

lemma strn_cstr: "cstr p xs \<Longrightarrow> strn p n = take n xs"
proof (induction n arbitrary: p xs)
  case (Suc n)
  show ?case
  proof (cases xs)
    case Nil
    then show ?thesis using Suc.prems by (simp add: cstr_def)
  next
    case (Cons a list)
    then show ?thesis using Suc.prems Suc.IH [of "\<lambda>i. p (Suc i)" list] by (simp add: cstr_Cons)
  qed
qed simp

text \<open>The string routines on NUL-terminated strings.  \<open>strlen\<close> returns the length; \<open>strncmp\<close> is
  zero exactly when the strings agree on their first \<open>n\<close> bytes; \<open>strncpy\<close> writes exactly \<open>n\<close> bytes,
  the string cut at \<open>n\<close> and zeroes after it.\<close>

theorem string_routines:
  assumes "cstr p xs" "cstr q ys"
  shows "strlen p = Some (length xs) \<and> (strncmp p q n = 0 \<longleftrightarrow> take n xs = take n ys) \<and>
    (cstr (ptr m t) xs \<and> (t + n \<le> s \<or> s + n \<le> t) \<longrightarrow>
       strncpy m s t (int n) = store m s (take n xs @ replicate (n - length xs) 0))"
  using strlen_cstr [OF assms(1)] strn_cstr [OF assms(1)] strn_cstr [OF assms(2)]
  by (auto simp: strncmp_eq_0 strncpy_def strncpy_loop_strn strn_cstr min_def)

theorem string_routines_witness: "strncmp (\<lambda>i. if i = 0 then 97 else 0) (\<lambda>i. if i < 2 then 97 else 0) 1 = 0"
  using string_routines [of "\<lambda>i. if i = 0 then 97 else 0" "[97]" "\<lambda>i. if i < 2 then 97 else 0" "[97, 97]" 1]
  by (auto simp: cstr_def nth_Cons')

end
