(* ===== verification/Kalloc.thy ===== *)
theory Kalloc
  imports Machine Cstring
begin

text \<open>
  \<open>kalloc.c\<close>: the physical page allocator.  Kernel memory is a byte-addressed store and
  the free list is the linked list the code keeps inside the free pages themselves: the
  first word of a free page is the address of the next one.  \<open>kend\<close> is the linker symbol
  \<open>end\<close>, the first address after the kernel image.  The abstract view of the allocator is
  the list of free pages, most recently freed first.
\<close>

record kmem_state = machine +
  mem :: memory
  freelist :: nat
  use_lock :: bool
  kend :: nat

abbreviation PAGE :: nat where "PAGE \<equiv> 4096"
abbreviation KBASE :: nat where "KBASE \<equiv> 0x80000000"
abbreviation PHYS_TOP :: nat where "PHYS_TOP \<equiv> 0xE000000"

definition pground_up :: "nat \<Rightarrow> nat" where
  "pground_up a = (a + 4095) mod 2 ^ 32 div 4096 * 4096"

definition kfree :: "nat \<Rightarrow> ('z kmem_state_scheme, unit) kmon" where
  "kfree v = kbind (kget kend) (\<lambda>e.
     if v mod PAGE \<noteq> 0 \<or> v < e \<or> u32 (int v - int KBASE) \<ge> PHYS_TOP then kpanic ''kfree''
     else kbind (kmod (\<lambda>s. s\<lparr>mem := memset (mem s) v 1 PAGE\<rparr>)) (\<lambda>_.
       kbind (kget use_lock) (\<lambda>lk.
       kbind (kwhen lk (acquire KmemLock)) (\<lambda>_.
       kbind (kmod (\<lambda>s. s\<lparr>mem := store32 (mem s) v (freelist s)\<rparr>)) (\<lambda>_.
       kbind (kmod (\<lambda>s. s\<lparr>freelist := v\<rparr>)) (\<lambda>_.
       kwhen lk (release KmemLock)))))))"

text \<open>The null pointer, 0, is the answer when no page is left.\<close>

definition kalloc :: "('z kmem_state_scheme, nat) kmon" where
  "kalloc = kbind (kget use_lock) (\<lambda>lk.
     kbind (kwhen lk (acquire KmemLock)) (\<lambda>_.
     kbind (kget freelist) (\<lambda>r.
     kbind (kmod (\<lambda>s. if r \<noteq> 0 then s\<lparr>freelist := load32 (mem s) r\<rparr> else s)) (\<lambda>_.
     kbind (kwhen lk (release KmemLock)) (\<lambda>_.
     ret r)))))"

function freerange_loop :: "nat \<Rightarrow> nat \<Rightarrow> ('z kmem_state_scheme, unit) kmon" where
  "freerange_loop p vend =
     (if p + PAGE \<le> vend then kseq (kfree p) (freerange_loop (p + PAGE) vend) else ret ())"
  by pat_completeness auto
termination
  by (relation "measure (\<lambda>(p, vend). vend - p)") auto

declare freerange_loop.simps [simp del]

definition freerange :: "nat \<Rightarrow> nat \<Rightarrow> ('z kmem_state_scheme, unit) kmon" where
  "freerange vstart vend = freerange_loop (pground_up vstart) vend"

definition kinit1 :: "nat \<Rightarrow> nat \<Rightarrow> ('z kmem_state_scheme, unit) kmon" where
  "kinit1 vstart vend =
     kseq (kmod (\<lambda>s. s\<lparr>use_lock := False\<rparr>)) (freerange vstart vend)"

definition kinit2 :: "nat \<Rightarrow> nat \<Rightarrow> ('z kmem_state_scheme, unit) kmon" where
  "kinit2 vstart vend =
     kseq (freerange vstart vend) (kmod (\<lambda>s. s\<lparr>use_lock := True\<rparr>))"

section \<open>The free list as a list of pages\<close>

fun chain :: "memory \<Rightarrow> nat \<Rightarrow> nat list \<Rightarrow> bool" where
  "chain m p [] = (p = 0)"
| "chain m p (x # xs) = (p = x \<and> x \<noteq> 0 \<and> chain m (load32 m x) xs)"

definition page_ok :: "('z kmem_state_scheme) \<Rightarrow> nat \<Rightarrow> bool" where
  "page_ok s v \<longleftrightarrow> v mod PAGE = 0 \<and> kend s \<le> v \<and> KBASE \<le> v \<and> v < KBASE + PHYS_TOP"

definition free_pages :: "('z kmem_state_scheme) \<Rightarrow> nat list \<Rightarrow> bool" where
  "free_pages s xs \<longleftrightarrow> chain (mem s) (freelist s) xs \<and> distinct xs \<and> (\<forall>x \<in> set xs. page_ok s x)"

lemma chain_functional: "chain m p xs \<Longrightarrow> chain m p ys \<Longrightarrow> xs = ys"
proof (induction xs arbitrary: p ys)
  case Nil
  then show ?case by (cases ys) auto
next
  case (Cons x xs)
  then show ?case by (cases ys) auto
qed

lemma chain_cong: "(\<And>x. x \<in> set xs \<Longrightarrow> load32 m' x = load32 m x) \<Longrightarrow> chain m' p xs = chain m p xs"
  by (induction xs arbitrary: p) auto

text \<open>Different pages do not overlap.\<close>

lemma pages_apart:
  assumes "a mod PAGE = 0" "b mod PAGE = 0" "a \<noteq> b"
  shows "a + PAGE \<le> b \<or> b + PAGE \<le> (a :: nat)"
proof -
  from assms obtain i j where "a = PAGE * i" "b = PAGE * j"
    by (auto simp: mod_eq_0_iff_dvd elim!: dvdE)
  with assms(3) have "i < j \<or> j < i" by auto
  then show ?thesis
    unfolding \<open>a = PAGE * i\<close> \<open>b = PAGE * j\<close> by auto
qed

lemma page_ok_u32: "page_ok s v \<Longrightarrow> u32 (int v - int KBASE) < PHYS_TOP"
proof -
  assume "page_ok s v"
  then have v: "KBASE \<le> v" "v < KBASE + PHYS_TOP" by (auto simp: page_ok_def)
  then have "int v - int KBASE = int (v - KBASE)" by simp
  moreover have "v - KBASE < 2 ^ 32" using v by simp
  ultimately have "u32 (int v - int KBASE) = v - KBASE" by (metis u32_of_nat)
  with v show ?thesis by simp
qed

lemma kfree_spec:
  assumes "free_pages s xs" "page_ok s v" "v \<notin> set xs" "KmemLock \<notin> set (held s)"
  shows "\<exists>m. kfree v s = Ok () (s\<lparr>mem := m, freelist := v\<rparr>) \<and>
      free_pages (s\<lparr>mem := m, freelist := v\<rparr>) (v # xs) \<and>
      (\<forall>a. a < v \<or> v + PAGE \<le> a \<longrightarrow> m a = mem s a)"
proof -
  let ?m = "store32 (memset (mem s) v 1 PAGE) v (freelist s)"
  have ok: "v mod PAGE = 0" "kend s \<le> v" "KBASE \<le> v" "v < KBASE + PHYS_TOP"
    using assms(2) by (auto simp: page_ok_def)
  have run: "kfree v s = Ok () (s\<lparr>mem := ?m, freelist := v\<rparr>)"
    using ok page_ok_u32 [OF assms(2)] assms(4)
    by (cases "use_lock s") (simp_all add: kfree_def kbind_def kget_def kmod_def ret_def)
  have fl: "freelist s < 2 ^ 32"
    using assms(1) by (cases xs) (auto simp: free_pages_def page_ok_def)
  have "chain ?m v (v # xs)"
  proof -
    have "load32 ?m v = freelist s" using fl by (simp add: mem_simps)
    moreover have "chain ?m (freelist s) xs = chain (mem s) (freelist s) xs"
    proof (rule chain_cong)
      fix x assume x: "x \<in> set xs"
      with assms have "x mod PAGE = 0" "x \<noteq> v" by (auto simp: free_pages_def page_ok_def)
      with ok have "x + PAGE \<le> v \<or> v + PAGE \<le> x" using pages_apart [of x v] by simp
      then show "load32 ?m x = load32 (mem s) x"
        by (auto simp: mem_simps)
    qed
    ultimately show ?thesis using assms(1) ok by (simp add: free_pages_def)
  qed
  then have fp: "free_pages (s\<lparr>mem := ?m, freelist := v\<rparr>) (v # xs)"
    using assms by (auto simp: free_pages_def page_ok_def)
  have "\<forall>a. a < v \<or> v + PAGE \<le> a \<longrightarrow> ?m a = mem s a"
    by (auto simp: store32_def store_def memset_eq)
  with run fp show ?thesis by (intro exI [of _ ?m]) simp
qed

lemma kalloc_spec:
  assumes "free_pages s xs" "KmemLock \<notin> set (held s)"
  shows "case xs of
      [] \<Rightarrow> kalloc s = Ok 0 s
    | v # ys \<Rightarrow> kalloc s = Ok v (s\<lparr>freelist := load32 (mem s) v\<rparr>) \<and>
               free_pages (s\<lparr>freelist := load32 (mem s) v\<rparr>) ys"
proof (cases xs)
  case Nil
  with assms show ?thesis
    by (cases "use_lock s") (simp_all add: free_pages_def kalloc_def kbind_def kget_def kmod_def ret_def)
next
  case (Cons v ys)
  with assms have f: "freelist s = v" "v \<noteq> 0" by (auto simp: free_pages_def)
  have "kalloc s = Ok v (s\<lparr>freelist := load32 (mem s) v\<rparr>)"
    using f assms(2) by (cases "use_lock s") (simp_all add: kalloc_def kbind_def kget_def kmod_def ret_def)
  moreover have "free_pages (s\<lparr>freelist := load32 (mem s) v\<rparr>) ys"
    using assms Cons by (auto simp: free_pages_def page_ok_def)
  ultimately show ?thesis using Cons by simp
qed

section \<open>The contract of a page allocator\<close>

text \<open>What the rest of the kernel relies on: \<open>ready s xs\<close> says that the allocator is in a
  usable state with free pages \<open>xs\<close>; \<open>alloc\<close> takes the first, \<open>dealloc\<close> puts one back.\<close>

locale page_allocator =
  fixes alloc :: "'s \<Rightarrow> (nat, 's) res"
    and dealloc :: "nat \<Rightarrow> 's \<Rightarrow> (unit, 's) res"
    and ready :: "'s \<Rightarrow> nat list \<Rightarrow> bool"
    and page :: "'s \<Rightarrow> nat \<Rightarrow> bool"
  assumes alloc_empty: "ready s [] \<Longrightarrow> alloc s = Ok 0 s"
    and alloc_page: "ready s (v # xs) \<Longrightarrow> \<exists>t. alloc s = Ok v t \<and> ready t xs \<and> page t = page s"
    and dealloc_page: "ready s xs \<Longrightarrow> page s v \<Longrightarrow> v \<notin> set xs \<Longrightarrow>
      \<exists>t. dealloc v s = Ok () t \<and> ready t (v # xs) \<and> page t = page s"
    and ready_pages: "ready s xs \<Longrightarrow> distinct xs \<and> (\<forall>x \<in> set xs. page s x \<and> x \<noteq> 0)"
begin

lemma alloc_dealloc:
  assumes "ready s (v # xs)"
  shows "\<exists>t u. alloc s = Ok v t \<and> dealloc v t = Ok () u \<and> ready u (v # xs)"
proof -
  from assms alloc_page obtain t where t: "alloc s = Ok v t" "ready t xs" "page t = page s" by blast
  moreover have "page t v" "v \<notin> set xs" using ready_pages [OF assms] t(3) by auto
  ultimately show ?thesis using dealloc_page by blast
qed

lemma alloc_total:
  assumes "ready s xs"
  shows "\<exists>v t. alloc s = Ok v t \<and> (v = 0 \<longleftrightarrow> xs = []) \<and> ready t (tl xs)"
proof (cases xs)
  case Nil
  with assms alloc_empty show ?thesis by auto
next
  case (Cons v ys)
  with assms alloc_page obtain t where "alloc s = Ok v t" "ready t ys" by blast
  moreover have "v \<noteq> 0" using ready_pages [OF assms] Cons by auto
  ultimately show ?thesis using Cons by auto
qed

lemma alloc_twice_distinct:
  assumes "ready s xs" "alloc s = Ok v t" "alloc t = Ok w u" "v \<noteq> 0"
  shows "v \<noteq> w"
proof -
  from assms(1,2,4) obtain ys where xs: "xs = v # ys" "ready t ys"
    using alloc_empty alloc_page by (cases xs) fastforce+
  show ?thesis
  proof (cases ys)
    case Nil
    with xs assms(3,4) alloc_empty show ?thesis by fastforce
  next
    case (Cons y zs)
    with xs assms(3) alloc_page [of t y zs] have "w = y" by auto
    with Cons xs ready_pages [OF assms(1)] show ?thesis by auto
  qed
qed

end

definition kmem_ready :: "('z kmem_state_scheme) \<Rightarrow> nat list \<Rightarrow> bool" where
  "kmem_ready s xs \<longleftrightarrow> free_pages s xs \<and> KmemLock \<notin> set (held s) \<and> 0 < kend s"

interpretation kmem: page_allocator kalloc kfree kmem_ready page_ok
proof unfold_locales
  fix s :: "'z kmem_state_scheme" and v xs
  show "kmem_ready s [] \<Longrightarrow> kalloc s = Ok 0 s"
    using kalloc_spec [of s "[]"] by (simp add: kmem_ready_def)
  show "kmem_ready s (v # xs) \<Longrightarrow> \<exists>t. kalloc s = Ok v t \<and> kmem_ready t xs \<and> page_ok t = page_ok s"
    using kalloc_spec [of s "v # xs"] by (auto simp: kmem_ready_def page_ok_def fun_eq_iff)
  show "kmem_ready s xs \<Longrightarrow> page_ok s v \<Longrightarrow> v \<notin> set xs \<Longrightarrow>
      \<exists>t. kfree v s = Ok () t \<and> kmem_ready t (v # xs) \<and> page_ok t = page_ok s"
    using kfree_spec [of s xs v] by (auto simp: kmem_ready_def page_ok_def fun_eq_iff)
  show "kmem_ready s xs \<Longrightarrow> distinct xs \<and> (\<forall>x \<in> set xs. page_ok s x \<and> x \<noteq> 0)"
    by (auto simp: kmem_ready_def free_pages_def page_ok_def)
qed

text \<open>The pages \<open>freerange\<close> hands to \<open>kfree\<close>, in the order it does.\<close>

function pages_between :: "nat \<Rightarrow> nat \<Rightarrow> nat list" where
  "pages_between p vend = (if p + PAGE \<le> vend then p # pages_between (p + PAGE) vend else [])"
  by pat_completeness auto
termination
  by (relation "measure (\<lambda>(p, vend). vend - p)") auto

declare pages_between.simps [simp del]

lemma pages_between_ge: "x \<in> set (pages_between p vend) \<Longrightarrow> p \<le> x \<and> x + PAGE \<le> vend"
proof (induction p vend rule: pages_between.induct)
  case (1 p vend)
  then show ?case by (auto simp: pages_between.simps [of p vend] split: if_splits)
qed

lemma freerange_loop_spec:
  assumes "kmem_ready s xs" "p mod PAGE = 0" "kend s \<le> p" "KBASE \<le> p" "vend \<le> KBASE + PHYS_TOP"
    and "\<forall>x \<in> set xs. x < p \<or> vend \<le> x"
  shows "\<exists>t. freerange_loop p vend s = Ok () t \<and> kmem_ready t (rev (pages_between p vend) @ xs) \<and>
    page_ok t = page_ok s"
  using assms
proof (induction p vend arbitrary: s xs rule: freerange_loop.induct)
  case (1 p vend)
  show ?case
  proof (cases "p + PAGE \<le> vend")
    case False
    with 1(2) show ?thesis
      by (simp add: freerange_loop.simps [of p vend] pages_between.simps [of p vend] ret_def)
  next
    case True
    have "page_ok s p" using 1 True by (auto simp: page_ok_def)
    moreover have "p \<notin> set xs" using 1(7) True by auto
    ultimately obtain t where t: "kfree p s = Ok () t" "kmem_ready t (p # xs)" "page_ok t = page_ok s"
      using kmem.dealloc_page 1(2) by blast
    then have "kend t \<le> p + PAGE"
      using \<open>page_ok s p\<close> by (metis page_ok_def trans_le_add1)
    have "\<exists>u. freerange_loop (p + PAGE) vend t = Ok () u \<and>
        kmem_ready u (rev (pages_between (p + PAGE) vend) @ (p # xs)) \<and> page_ok u = page_ok t"
    proof (rule "1.IH" [OF True t(2)])
      show "\<forall>x \<in> set (p # xs). x < p + PAGE \<or> vend \<le> x" using 1(7) by auto
    qed (use 1 True \<open>kend t \<le> p + PAGE\<close> in \<open>auto simp: mod_add_self2\<close>)
    with t True show ?thesis
      by (auto simp: freerange_loop.simps [of p vend] pages_between.simps [of p vend] kmon_simps)
  qed
qed

section \<open>Properties\<close>

text \<open>C13: the free list.  \<open>kalloc\<close> returns the page freed last, or null when none is left, and two
  calls never return the same page; freeing a page gives it to the next \<open>kalloc\<close>.\<close>

theorem kalloc_kfree:
  assumes "kmem_ready s xs" "page_ok s v" "v \<notin> set xs"
  shows "\<exists>t u w. kfree v s = Ok () t \<and> kmem_ready t (v # xs) \<and> kalloc t = Ok v u \<and> kmem_ready u xs \<and>
    kalloc u = Ok (case xs of [] \<Rightarrow> 0 | x # _ \<Rightarrow> x) w \<and> kmem_ready w (tl xs) \<and> v \<noteq> (case xs of [] \<Rightarrow> 0 | x # _ \<Rightarrow> x)"
proof -
  obtain t where t: "kfree v s = Ok () t" "kmem_ready t (v # xs)" using kmem.dealloc_page [OF assms] by blast
  obtain u where u: "kalloc t = Ok v u" "kmem_ready u xs" using kmem.alloc_page [OF t(2)] by blast
  have "v \<noteq> 0" using kmem.ready_pages [OF t(2)] by simp
  show ?thesis
  proof (cases xs)
    case Nil
    then show ?thesis using t u kmem.alloc_empty [of u] \<open>v \<noteq> 0\<close> by auto
  next
    case (Cons x ys)
    then obtain w where "kalloc u = Ok x w" "kmem_ready w ys" using kmem.alloc_page [of u x ys] u(2) by blast
    then show ?thesis using t u Cons assms(3) by auto
  qed
qed

definition demo_kmem :: kmem_state where
  "demo_kmem = \<lparr>held = [], cur = None, mem = (\<lambda>_. 0), freelist = 0, use_lock = True, kend = KBASE + 4096\<rparr>"

lemma demo_kmem_ready: "kmem_ready demo_kmem []" "page_ok demo_kmem (KBASE + 8192)"
  by (simp_all add: kmem_ready_def free_pages_def demo_kmem_def page_ok_def)

theorem kalloc_kfree_witness: "\<exists>t u. kfree (KBASE + 8192) demo_kmem = Ok () t \<and> kalloc t = Ok (KBASE + 8192) u"
  using kalloc_kfree [OF demo_kmem_ready] by auto

text \<open>\<open>kinit2\<close> frees every page that fits between its bounds: afterwards the free list is those
  pages, last one first, before what it was.\<close>

theorem kinit2_frees:
  assumes "kmem_ready s xs" "kend s \<le> pground_up vstart" "KBASE \<le> pground_up vstart" "vend \<le> KBASE + PHYS_TOP"
    "\<forall>x \<in> set xs. x < pground_up vstart \<or> vend \<le> x"
  shows "\<exists>t. kinit2 vstart vend s = Ok () t \<and> use_lock t \<and>
    kmem_ready t (rev (pages_between (pground_up vstart) vend) @ xs)"
proof -
  have m: "pground_up vstart mod PAGE = 0" by (simp add: pground_up_def)
  obtain t where "freerange_loop (pground_up vstart) vend s = Ok () t"
    "kmem_ready t (rev (pages_between (pground_up vstart) vend) @ xs)"
    using freerange_loop_spec [OF assms(1) m assms(2-5)] by blast
  then show ?thesis
    by (simp add: kinit2_def freerange_def kseq_Ok kmod_def kmem_ready_def free_pages_def page_ok_def)
qed

theorem kinit2_frees_witness:
  "\<exists>t. kinit2 (KBASE + 5000) (KBASE + 20000) demo_kmem = Ok () t \<and> kmem_ready t [KBASE + 12288, KBASE + 8192]"
proof -
  have p: "pground_up (KBASE + 5000) = KBASE + 8192" by (simp add: pground_up_def)
  have "pages_between (KBASE + 8192) (KBASE + 20000) = [KBASE + 8192, KBASE + 12288]"
    by (simp add: pages_between.simps)
  then show ?thesis using kinit2_frees [OF demo_kmem_ready(1), of "KBASE + 5000" "KBASE + 20000", unfolded p]
    by (auto simp: demo_kmem_def)
qed

end
