(* ===== verification/Mmu.thy ===== *)
theory Mmu
  imports Prelude
begin

text \<open>
  \<open>mmu.h\<close> and \<open>memlayout.h\<close>: the address arithmetic of the two-level x86 page table, the
  page-table-entry flags, segment and gate descriptors.  The macros are modelled on
  32-bit words, bit for bit; the lemmas give their arithmetic meaning.
\<close>

unbundle bit_operations_syntax

type_synonym uint = "32 word"

section \<open>Constants\<close>

definition PGSIZE :: uint where "PGSIZE = 4096"
definition KERNBASE :: uint where "KERNBASE = 0x80000000"
definition EXTMEM :: uint where "EXTMEM = 0x100000"
definition PHYSTOP :: uint where "PHYSTOP = 0xE000000"
definition DEVSPACE :: uint where "DEVSPACE = 0xFE000000"

definition PTE_P :: uint where "PTE_P = 1"
definition PTE_W :: uint where "PTE_W = 2"
definition PTE_U :: uint where "PTE_U = 4"

lemmas mmu_consts = PGSIZE_def KERNBASE_def EXTMEM_def PHYSTOP_def DEVSPACE_def
  PTE_P_def PTE_W_def PTE_U_def

section \<open>Address arithmetic\<close>

definition PDX :: "uint \<Rightarrow> uint" where
  "PDX va = drop_bit 22 va AND 0x3FF"

definition PTX :: "uint \<Rightarrow> uint" where
  "PTX va = drop_bit 12 va AND 0x3FF"

definition PGADDR :: "uint \<Rightarrow> uint \<Rightarrow> uint \<Rightarrow> uint" where
  "PGADDR d t off = (push_bit 22 d OR push_bit 12 t) OR off"

definition PGROUNDUP :: "uint \<Rightarrow> uint" where
  "PGROUNDUP sz = (sz + PGSIZE - 1) AND NOT (PGSIZE - 1)"

definition PGROUNDDOWN :: "uint \<Rightarrow> uint" where
  "PGROUNDDOWN a = a AND NOT (PGSIZE - 1)"

definition PTE_ADDR :: "uint \<Rightarrow> uint" where
  "PTE_ADDR pte = pte AND NOT 0xFFF"

definition PTE_FLAGS :: "uint \<Rightarrow> uint" where
  "PTE_FLAGS pte = pte AND 0xFFF"

definition v2p :: "uint \<Rightarrow> uint" where
  "v2p a = a - KERNBASE"

definition p2v :: "uint \<Rightarrow> uint" where
  "p2v a = a + KERNBASE"

lemma v2p_p2v [simp]: "v2p (p2v a) = a" "p2v (v2p a) = a"
  by (simp_all add: v2p_def p2v_def)

lemma mask12: "(0xFFF :: uint) = mask 12"
  by (simp add: mask_eq_exp_minus_1)

lemma mask10: "(0x3FF :: uint) = mask 10"
  by (simp add: mask_eq_exp_minus_1)

lemma pgmask: "PGSIZE - 1 = (mask 12 :: uint)"
  by (simp add: PGSIZE_def mask_eq_exp_minus_1)

text \<open>Arithmetic reading of the bit operations.\<close>

lemma unat_take_bit: "unat (take_bit n w) = unat (w :: uint) mod 2 ^ n"
  by (rule trans [OF unsigned_take_bit_eq take_bit_eq_mod])

lemma unat_and_mask: "unat (w AND mask n) = unat (w :: uint) mod 2 ^ n"
  by (simp only: take_bit_eq_mask [symmetric] unat_take_bit)

lemma and_not_mask12: "w AND NOT (mask 12) = w - (w AND mask 12)" for w :: uint
proof -
  have m: "mask 32 = (-1 :: uint)" by (simp add: mask_eq_exp_minus_1)
  have "take_bit 20 (drop_bit 12 w) = drop_bit 12 w"
    by (simp add: take_bit_drop_bit take_bit_word_eq_self)
  then have "w AND NOT (mask 12) = push_bit 12 (drop_bit 12 w)"
    using slice_eq_mask [of 12 20 w] by (simp add: m del: push_bit_eq_mult)
  also have "\<dots> = w - take_bit 12 w"
    using bits_ident [of 12 w] by (simp only: eq_diff_eq)
  finally show ?thesis by (simp only: take_bit_eq_mask)
qed

lemma unat_and_not_mask12: "unat (w AND NOT (mask 12)) = unat (w :: uint) div 4096 * 4096"
proof -
  have t: "unat (w AND mask 12) = unat w mod 4096" by (simp add: unat_and_mask)
  then have "w AND mask 12 \<le> w" by (simp add: word_le_nat_alt)
  then have "unat (w - (w AND mask 12)) = unat w - unat w mod 4096" by (simp add: unat_sub t)
  then show ?thesis by (simp add: and_not_mask12 minus_mod_eq_div_mult)
qed

lemma unat_PDX: "unat (PDX va) = unat va div 2 ^ 22 mod 2 ^ 10"
  by (simp only: PDX_def mask10 unat_and_mask unat_drop_bit_eq drop_bit_eq_div [of 22 "unat va"])

lemma unat_PTX: "unat (PTX va) = unat va div 2 ^ 12 mod 2 ^ 10"
  by (simp only: PTX_def mask10 unat_and_mask unat_drop_bit_eq drop_bit_eq_div [of 12 "unat va"])

lemma unat_PTE_FLAGS: "unat (PTE_FLAGS w) = unat w mod 4096"
  by (simp add: PTE_FLAGS_def mask12 unat_and_mask)

lemma unat_PTE_ADDR: "unat (PTE_ADDR w) = unat w div 4096 * 4096"
  by (simp only: PTE_ADDR_def mask12 unat_and_not_mask12)

lemma unat_PGROUNDDOWN: "unat (PGROUNDDOWN a) = unat a div 4096 * 4096"
  by (simp only: PGROUNDDOWN_def pgmask unat_and_not_mask12)

lemma unat_PGROUNDUP:
  "unat (PGROUNDUP a) = (unat a + 4095) mod 2 ^ 32 div 4096 * 4096"
proof -
  have "a + PGSIZE - 1 = a + 4095" by (simp add: PGSIZE_def)
  moreover have "unat (a + 4095) = (unat a + 4095) mod 2 ^ 32"
    by (simp add: unat_word_ariths)
  ultimately show ?thesis
    by (simp only: PGROUNDUP_def pgmask unat_and_not_mask12)
qed

section \<open>The page-table split of an address\<close>

lemma PGADDR_split: "PGADDR (PDX va) (PTX va) (va AND 0xFFF) = va"
proof (rule bit_word_eqI)
  fix n assume n: "n < LENGTH(32)"
  show "bit (PGADDR (PDX va) (PTX va) (va AND 0xFFF)) n = bit va n"
    using n by (cases "n < 22")
      (auto simp: PGADDR_def PDX_def PTX_def mask10 mask12 bit_simps)
qed

section \<open>Properties\<close>

text \<open>\<open>PGADDR\<close> and the three projections of a linear address are inverse to each other:
  putting an address together from its parts gives it back, and the parts of an address put
  together from a directory index, a table index and an offset in range are those.\<close>

theorem page_address_split:
  "PGADDR (PDX va) (PTX va) (va AND 0xFFF) = va \<and>
   (unat d < 1024 \<and> unat t < 1024 \<and> unat off < 4096 \<longrightarrow>
     PDX (PGADDR d t off) = d \<and> PTX (PGADDR d t off) = t \<and> PGADDR d t off AND 0xFFF = off)"
proof (intro conjI impI)
  show "PGADDR (PDX va) (PTX va) (va AND 0xFFF) = va" by (rule PGADDR_split)
next
  assume a: "unat d < 1024 \<and> unat t < 1024 \<and> unat off < 4096"
  have hi: "\<not> bit w n" if "unat w < 2 ^ k" "k \<le> n" for w :: uint and k n
  proof -
    have "unat w < 2 ^ n" using that(1) by (rule less_le_trans) (rule power_increasing [OF that(2)], simp)
    then have "\<not> bit (unat w) n" by (simp add: bit_iff_odd)
    then show ?thesis by (simp add: bit_unsigned_iff)
  qed
  have d: "n < 10" if "bit d n" for n using hi [of d 10 n] a that by force
  have t: "n < 10" if "bit t n" for n using hi [of t 10 n] a that by force
  have f: "n < 12" if "bit off n" for n using hi [of off 12 n] a that by force
  show "PDX (PGADDR d t off) = d"
    by (rule bit_word_eqI) (auto simp: PDX_def PGADDR_def mask10 bit_simps not_less dest: d t f)
  show "PTX (PGADDR d t off) = t"
    by (rule bit_word_eqI) (auto simp: PTX_def PGADDR_def mask10 bit_simps not_less dest: d t f)
  show "PGADDR d t off AND 0xFFF = off"
    by (rule bit_word_eqI) (auto simp: PGADDR_def mask12 bit_simps not_less dest: d t f)
qed

theorem page_address_split_witness: "PTX (PGADDR 1 2 3) = 2"
  using page_address_split [of 0 1 2 3] by simp

end
