(* ===== verification/Vm.thy ===== *)
theory Vm
  imports Kalloc Mmu
begin

text \<open>
  Virtual memory: \<open>vm.c\<close>.  A page directory and the page tables are pages of kernel memory;
  an entry is a 32-bit word in it.  A \<open>pde_t*\<close> or \<open>pte_t*\<close> is an address in kernel memory and
  0 is the null pointer; user addresses and physical addresses are \<open>uint\<close>.  \<open>cr3\<close> and
  \<open>tss_esp0\<close> are the processor's page-table register and the kernel stack pointer of the task
  state segment, \<open>sym_data\<close> is the linker symbol \<open>data\<close>.  The message \<open>allocuvm\<close> prints when memory runs out is left out.
\<close>

record vm_state = kmem_state +
  sym_data :: uint
  kpgdir :: nat
  cr3 :: uint
  tss_esp0 :: nat

definition NPDENTRIES :: nat where "NPDENTRIES = 1024"
definition NPTENTRIES :: nat where "NPTENTRIES = 1024"
definition KERNLINK :: uint where "KERNLINK = KERNBASE + EXTMEM"

definition ldw :: "memory \<Rightarrow> nat \<Rightarrow> uint" where
  "ldw m a = word_of_nat (load32 m a)"

definition stw :: "memory \<Rightarrow> nat \<Rightarrow> uint \<Rightarrow> memory" where
  "stw m a w = store32 m a (unat w)"

definition get_word :: "nat \<Rightarrow> ('z kmem_state_scheme, uint) kmon" where
  "get_word a = kget (\<lambda>s. ldw (mem s) a)"

definition put_word :: "nat \<Rightarrow> uint \<Rightarrow> ('z kmem_state_scheme, unit) kmon" where
  "put_word a w = kmod (\<lambda>s. s\<lparr>mem := stw (mem s) a w\<rparr>)"

definition zero_page :: "nat \<Rightarrow> ('z kmem_state_scheme, unit) kmon" where
  "zero_page a = kmod (\<lambda>s. s\<lparr>mem := memset (mem s) a 0 PAGE\<rparr>)"

unbundle bit_operations_syntax

section \<open>Page tables\<close>

definition walkpgdir :: "nat \<Rightarrow> uint \<Rightarrow> bool \<Rightarrow> ('z kmem_state_scheme, nat) kmon" where
  "walkpgdir pgdir va alloc =
     kbind (get_word (pgdir + 4 * unat (PDX va))) (\<lambda>pde.
     if pde AND PTE_P \<noteq> 0 then ret (unat (p2v (PTE_ADDR pde)) + 4 * unat (PTX va))
     else if \<not> alloc then ret 0
     else kbind kalloc (\<lambda>pgtab. if pgtab = 0 then ret 0 else
       kbind (zero_page pgtab) (\<lambda>_.
       kbind (put_word (pgdir + 4 * unat (PDX va)) (((v2p (word_of_nat pgtab) OR PTE_P) OR PTE_W) OR PTE_U)) (\<lambda>_.
       ret (pgtab + 4 * unat (PTX va))))))"

text \<open>The loop of \<open>mappages\<close>: \<open>a\<close> and \<open>last\<close> are multiples of the page size, and \<open>k\<close> is the
  number of pages from \<open>a\<close> to \<open>last\<close>, so that \<open>a == last\<close> is \<open>k = 0\<close>.\<close>

primrec mappages_loop :: "nat \<Rightarrow> nat \<Rightarrow> uint \<Rightarrow> uint \<Rightarrow> uint \<Rightarrow> ('z kmem_state_scheme, int) kmon" where
  "mappages_loop pgdir 0 a pa perm =
     kbind (walkpgdir pgdir a True) (\<lambda>pte. if pte = 0 then ret (- 1) else
     kbind (get_word pte) (\<lambda>e. if e AND PTE_P \<noteq> 0 then kpanic ''remap'' else
     kbind (put_word pte ((pa OR perm) OR PTE_P)) (\<lambda>_. ret 0)))"
| "mappages_loop pgdir (Suc k) a pa perm =
     kbind (walkpgdir pgdir a True) (\<lambda>pte. if pte = 0 then ret (- 1) else
     kbind (get_word pte) (\<lambda>e. if e AND PTE_P \<noteq> 0 then kpanic ''remap'' else
     kbind (put_word pte ((pa OR perm) OR PTE_P)) (\<lambda>_.
     mappages_loop pgdir k (a + PGSIZE) (pa + PGSIZE) perm)))"

definition mappages :: "nat \<Rightarrow> uint \<Rightarrow> uint \<Rightarrow> uint \<Rightarrow> uint \<Rightarrow> ('z kmem_state_scheme, int) kmon" where
  "mappages pgdir va sz pa perm =
     (let a = PGROUNDDOWN va; last = PGROUNDDOWN (va + sz - 1) in
      mappages_loop pgdir (unat (last - a) div PAGE) a pa perm)"

record kmap_entry =
  virt :: uint
  phys_start :: uint
  phys_end :: uint
  kperm :: uint

definition kmap :: "uint \<Rightarrow> kmap_entry list" where
  "kmap data =
     [\<lparr>virt = KERNBASE, phys_start = 0, phys_end = EXTMEM, kperm = PTE_W\<rparr>,
      \<lparr>virt = KERNLINK, phys_start = v2p KERNLINK, phys_end = v2p data, kperm = 0\<rparr>,
      \<lparr>virt = data, phys_start = v2p data, phys_end = PHYSTOP, kperm = PTE_W\<rparr>,
      \<lparr>virt = DEVSPACE, phys_start = DEVSPACE, phys_end = 0, kperm = PTE_W\<rparr>]"

primrec setupkvm_loop :: "nat \<Rightarrow> kmap_entry list \<Rightarrow> ('z kmem_state_scheme, nat) kmon" where
  "setupkvm_loop pgdir [] = ret pgdir"
| "setupkvm_loop pgdir (k # ks) =
     kbind (mappages pgdir (virt k) (phys_end k - phys_start k) (phys_start k) (kperm k)) (\<lambda>r.
     if r < 0 then ret 0 else setupkvm_loop pgdir ks)"

definition setupkvm :: "('z vm_state_scheme, nat) kmon" where
  "setupkvm =
     kbind kalloc (\<lambda>pgdir. if pgdir = 0 then ret 0 else
     kbind (zero_page pgdir) (\<lambda>_.
     if p2v PHYSTOP > DEVSPACE then kpanic ''PHYSTOP too high''
     else kbind (kget sym_data) (\<lambda>data. setupkvm_loop pgdir (kmap data))))"

definition switchkvm :: "('z vm_state_scheme, unit) kmon" where
  "switchkvm = kmod (\<lambda>s. s\<lparr>cr3 := v2p (word_of_nat (kpgdir s))\<rparr>)"

definition kvmalloc :: "('z vm_state_scheme, unit) kmon" where
  "kvmalloc = kbind setupkvm (\<lambda>d. kbind (kmod (\<lambda>s. s\<lparr>kpgdir := d\<rparr>)) (\<lambda>_. switchkvm))"

section \<open>User memory\<close>

text \<open>\<open>init\<close> is the \<open>sz\<close> bytes at the pointer of that name.  The result of \<open>kalloc\<close> is used
  without a test.\<close>

definition inituvm :: "nat \<Rightarrow> byte list \<Rightarrow> ('z kmem_state_scheme, unit) kmon" where
  "inituvm pgdir init =
     (if length init \<ge> PAGE then kpanic ''inituvm: more than a page''
      else kbind kalloc (\<lambda>pg. if pg = 0 then kundef ''inituvm: null page'' else
        kbind (zero_page pg) (\<lambda>_.
        kbind (mappages pgdir 0 PGSIZE (v2p (word_of_nat pg)) (PTE_W OR PTE_U)) (\<lambda>_.
        kmod (\<lambda>s. s\<lparr>mem := store (mem s) pg init\<rparr>)))))"

text \<open>The loop of \<open>deallocuvm\<close>.  \<open>a\<close> cannot wrap around for \<open>oldsz\<close> at most \<open>2^32 - 2^22\<close>;
  process sizes are at most \<open>KERNBASE\<close>, and larger ones are outside the model.\<close>

function deallocuvm_loop :: "nat \<Rightarrow> nat \<Rightarrow> nat \<Rightarrow> ('z kmem_state_scheme, unit) kmon" where
  "deallocuvm_loop pgdir a oldsz =
     (if a < oldsz then
        kbind (walkpgdir pgdir (word_of_nat a) False) (\<lambda>pte.
        if pte = 0 then deallocuvm_loop pgdir (a + (NPTENTRIES - 1) * PAGE + PAGE) oldsz
        else kbind (get_word pte) (\<lambda>e.
          if e AND PTE_P \<noteq> 0 then
            (if PTE_ADDR e = 0 then kpanic ''kfree''
             else kbind (kfree (unat (p2v (PTE_ADDR e)))) (\<lambda>_.
                  kbind (put_word pte 0) (\<lambda>_.
                  deallocuvm_loop pgdir (a + PAGE) oldsz)))
          else deallocuvm_loop pgdir (a + PAGE) oldsz))
      else ret ())"
  by pat_completeness auto
termination
  by (relation "measure (\<lambda>(pgdir, a, oldsz). oldsz - a)") auto

declare deallocuvm_loop.simps [simp del]

definition deallocuvm :: "nat \<Rightarrow> uint \<Rightarrow> uint \<Rightarrow> ('z kmem_state_scheme, uint) kmon" where
  "deallocuvm pgdir oldsz newsz =
     (if newsz \<ge> oldsz then ret oldsz
      else if unat oldsz > 2 ^ 32 - 2 ^ 22 then kundef ''deallocuvm: size above the kernel base''
      else kbind (deallocuvm_loop pgdir (unat (PGROUNDUP newsz)) (unat oldsz)) (\<lambda>_. ret newsz))"

text \<open>The loop of \<open>allocuvm\<close>; \<open>False\<close> is the branch that gives up.\<close>

function allocuvm_loop :: "nat \<Rightarrow> nat \<Rightarrow> uint \<Rightarrow> uint \<Rightarrow> ('z kmem_state_scheme, uint) kmon" where
  "allocuvm_loop pgdir a oldsz newsz =
     (if a < unat newsz then
        kbind kalloc (\<lambda>pg.
        if pg = 0 then kbind (deallocuvm pgdir newsz oldsz) (\<lambda>_. ret 0)
        else kbind (zero_page pg) (\<lambda>_.
             kbind (mappages pgdir (word_of_nat a) PGSIZE (v2p (word_of_nat pg)) (PTE_W OR PTE_U)) (\<lambda>_.
             allocuvm_loop pgdir (a + PAGE) oldsz newsz)))
      else ret newsz)"
  by pat_completeness auto
termination
  by (relation "measure (\<lambda>(pgdir, a, oldsz, newsz). unat newsz - a)") auto

declare allocuvm_loop.simps [simp del]

definition allocuvm :: "nat \<Rightarrow> uint \<Rightarrow> uint \<Rightarrow> ('z kmem_state_scheme, uint) kmon" where
  "allocuvm pgdir oldsz newsz =
     (if newsz \<ge> KERNBASE then ret 0
      else if newsz < oldsz then ret oldsz
      else allocuvm_loop pgdir (unat (PGROUNDUP oldsz)) oldsz newsz)"

definition freevm :: "nat \<Rightarrow> ('z kmem_state_scheme, unit) kmon" where
  "freevm pgdir =
     (if pgdir = 0 then kpanic ''freevm: no pgdir''
      else kbind (deallocuvm pgdir KERNBASE 0) (\<lambda>_.
        kbind (kfor [0..<NPDENTRIES] (\<lambda>i.
          kbind (get_word (pgdir + 4 * i)) (\<lambda>e.
          kwhen (e AND PTE_P \<noteq> 0) (kfree (unat (p2v (PTE_ADDR e))))))) (\<lambda>_.
        kfree pgdir)))"

definition clearpteu :: "nat \<Rightarrow> uint \<Rightarrow> ('z kmem_state_scheme, unit) kmon" where
  "clearpteu pgdir uva =
     kbind (walkpgdir pgdir uva False) (\<lambda>pte.
     if pte = 0 then kpanic ''clearpteu''
     else kbind (get_word pte) (\<lambda>e. put_word pte (e AND NOT PTE_U)))"

text \<open>The loop of \<open>copyuvm\<close>; \<open>False\<close> is the jump to \<open>bad\<close>.  Like the size, the loop variable
  stays below \<open>2^32 - 4096\<close>.\<close>

function copyuvm_loop :: "nat \<Rightarrow> nat \<Rightarrow> nat \<Rightarrow> nat \<Rightarrow> ('z kmem_state_scheme, bool) kmon" where
  "copyuvm_loop pgdir d i sz =
     (if i < sz then
        kbind (walkpgdir pgdir (word_of_nat i) False) (\<lambda>pte.
        if pte = 0 then kpanic ''copyuvm: pte should exist'' else
        kbind (get_word pte) (\<lambda>e.
        if e AND PTE_P = 0 then kpanic ''copyuvm: page not present'' else
        kbind kalloc (\<lambda>pg. if pg = 0 then ret False else
        kbind (kmod (\<lambda>s. s\<lparr>mem := memmove (mem s) pg (unat (p2v (PTE_ADDR e))) PAGE\<rparr>)) (\<lambda>_.
        kbind (mappages d (word_of_nat i) PGSIZE (v2p (word_of_nat pg)) (PTE_FLAGS e)) (\<lambda>r.
        if r < 0 then ret False else copyuvm_loop pgdir d (i + PAGE) sz)))))
      else ret True)"
  by pat_completeness auto
termination
  by (relation "measure (\<lambda>(pgdir, d, i, sz). sz - i)") auto

declare copyuvm_loop.simps [simp del]

definition copyuvm :: "nat \<Rightarrow> uint \<Rightarrow> ('z vm_state_scheme, nat) kmon" where
  "copyuvm pgdir sz =
     (if unat sz > 2 ^ 32 - 2 ^ 12 then kundef ''copyuvm: size above the kernel base'' else
      kbind setupkvm (\<lambda>d. if d = 0 then ret 0 else
      kbind (copyuvm_loop pgdir d 0 (unat sz)) (\<lambda>ok.
      if ok then ret d else kbind (freevm d) (\<lambda>_. ret 0))))"

text \<open>\<open>uva2ka\<close> reads through the result of \<open>walkpgdir\<close> without a test for null.\<close>

definition uva2ka :: "nat \<Rightarrow> uint \<Rightarrow> ('z kmem_state_scheme, nat) kmon" where
  "uva2ka pgdir uva =
     kbind (walkpgdir pgdir uva False) (\<lambda>pte.
     if pte = 0 then kundef ''uva2ka: null pte'' else
     kbind (get_word pte) (\<lambda>e.
     if e AND PTE_P = 0 then ret 0
     else if e AND PTE_U = 0 then ret 0
     else ret (unat (p2v (PTE_ADDR e)))))"

text \<open>\<open>copyout\<close> of the bytes \<open>bs\<close> at \<open>p\<close>.\<close>

function copyout :: "nat \<Rightarrow> uint \<Rightarrow> byte list \<Rightarrow> ('z kmem_state_scheme, int) kmon" where
  "copyout pgdir va bs =
     (if bs = [] then ret 0
      else let va0 = PGROUNDDOWN va; off = unat (va - va0); n = min (PAGE - off) (length bs) in
        kbind (uva2ka pgdir va0) (\<lambda>pa0. if pa0 = 0 then ret (- 1) else
        kbind (kmod (\<lambda>s. s\<lparr>mem := store (mem s) (pa0 + off) (take n bs)\<rparr>)) (\<lambda>_.
        copyout pgdir (va0 + PGSIZE) (drop n bs))))"
  by pat_completeness auto

lemma page_offset: "unat (va - PGROUNDDOWN va) = unat va mod 4096"
proof -
  have e: "va AND NOT (mask 12) = va - (va AND mask 12)" by (rule and_not_mask12)
  have "va - PGROUNDDOWN va = va AND mask 12" unfolding PGROUNDDOWN_def pgmask e by simp
  then show ?thesis by (simp add: unat_and_mask)
qed

termination copyout
  by (relation "measure (\<lambda>(pgdir, va, bs). length bs)") (auto simp: page_offset)

declare copyout.simps [simp del]

end
