(* ===== verification/Proc.thy ===== *)
theory Proc
  imports Vm
begin

text \<open>
  The process table of \<open>proc.h\<close> and the routines of \<open>proc.c\<close> that work on the table
  alone: allocation of a slot, \<open>sched\<close>, \<open>sleep\<close>, \<open>wakeup\<close>, \<open>kill\<close>, \<open>yield\<close>.
  A process is named by its index in \<open>ptable.proc\<close>; a null \<open>struct proc*\<close> is \<open>None\<close>.  \<open>p_tf\<close> and \<open>p_context\<close> are the addresses the code computes inside the
  kernel stack page, and what they point to is in kernel memory.
\<close>

definition NPROC :: nat where "NPROC = 64"
definition NOFILE :: nat where "NOFILE = 16"
definition KSTACKSIZE :: nat where "KSTACKSIZE = 4096"

datatype procstate = UNUSED | EMBRYO | SLEEPING | RUNNABLE | RUNNING | ZOMBIE

record proc =
  p_sz :: nat
  p_pgdir :: nat
  p_kstack :: nat
  p_state :: procstate
  p_pid :: int
  p_parent :: "nat option"
  p_tf :: nat
  p_context :: nat
  p_chan :: "chan option"
  p_killed :: bool
  p_ofile :: "nat option list"
  p_cwd :: "nat option"
  p_name :: "byte list"

record proc_state = vm_state +
  procs :: "proc list"
  nextpid :: int
  initproc :: "nat option"
  sym_forkret :: nat
  sym_trapret :: nat

definition unused_proc :: proc where
  "unused_proc = \<lparr>p_sz = 0, p_pgdir = 0, p_kstack = 0, p_state = UNUSED, p_pid = 0,
     p_parent = None, p_tf = 0, p_context = 0, p_chan = None, p_killed = False,
     p_ofile = replicate NOFILE None, p_cwd = None, p_name = replicate 16 0\<rparr>"

definition upd_proc :: "nat \<Rightarrow> (proc \<Rightarrow> proc) \<Rightarrow> ('z proc_state_scheme) \<Rightarrow> ('z proc_state_scheme)" where
  "upd_proc i f s = s\<lparr>procs := (procs s)[i := f (procs s ! i)]\<rparr>"

text \<open>Layout of \<open>struct trapframe\<close> and \<open>struct context\<close>: sizes and the offsets used.\<close>

definition TF_SIZE :: nat where "TF_SIZE = 76"
definition TF_EAX :: nat where "TF_EAX = 28"
definition TF_ES :: nat where "TF_ES = 40"
definition TF_DS :: nat where "TF_DS = 44"
definition TF_EIP :: nat where "TF_EIP = 56"
definition TF_CS :: nat where "TF_CS = 60"
definition TF_EFLAGS :: nat where "TF_EFLAGS = 64"
definition TF_ESP :: nat where "TF_ESP = 68"
definition TF_SS :: nat where "TF_SS = 72"
definition CONTEXT_SIZE :: nat where "CONTEXT_SIZE = 20"
definition CONTEXT_EIP :: nat where "CONTEXT_EIP = 16"

section \<open>Waiting and waking\<close>

text \<open>\<open>sched\<close>: the checks, then the switch to the scheduler, which takes over
  \<open>ptable.lock\<close>, clears \<open>proc\<close> and releases the lock.  Its fourth check, that interrupts
  are off, holds because \<open>acquire\<close> has turned them off.  The caller continues only when
  the scheduler picks the process again, so the outcome is \<open>Block\<close>.\<close>

definition sched :: "chan \<Rightarrow> nat \<Rightarrow> ('z proc_state_scheme, 'a) kmon" where
  "sched c p s =
     (if PtableLock \<notin> set (held s) then Panic ''sched ptable.lock''
      else if length (held s) \<noteq> 1 then Panic ''sched locks''
      else if p_state (procs s ! p) = RUNNING then Panic ''sched running''
      else Block c (s\<lparr>held := [], cur := None\<rparr>))"

definition sleep :: "chan \<Rightarrow> lockid \<Rightarrow> ('z proc_state_scheme, 'a) kmon" where
  "sleep c lk = kbind (kget cur) (\<lambda>pr. case pr of
       None \<Rightarrow> kpanic ''sleep''
     | Some p \<Rightarrow>
        kbind (kwhen (lk \<noteq> PtableLock) (kseq (acquire PtableLock) (release lk))) (\<lambda>_.
        kbind (kmod (upd_proc p (\<lambda>q. q\<lparr>p_chan := Some c\<rparr>))) (\<lambda>_.
        kbind (kmod (upd_proc p (\<lambda>q. q\<lparr>p_state := SLEEPING\<rparr>))) (\<lambda>_.
        sched c p))))"

text \<open>What \<open>sleep\<close> does when the scheduler has resumed process \<open>p\<close>, with
  \<open>ptable.lock\<close> held again.\<close>

definition sleep_return :: "nat \<Rightarrow> lockid \<Rightarrow> ('z proc_state_scheme, unit) kmon" where
  "sleep_return p lk =
     kbind (kmod (upd_proc p (\<lambda>q. q\<lparr>p_chan := None\<rparr>))) (\<lambda>_.
     kwhen (lk \<noteq> PtableLock) (kseq (release PtableLock) (acquire lk)))"

definition wake :: "chan \<Rightarrow> proc \<Rightarrow> proc" where
  "wake c p = (if p_state p = SLEEPING \<and> p_chan p = Some c then p\<lparr>p_state := RUNNABLE\<rparr> else p)"

definition wakeup1 :: "chan \<Rightarrow> ('z proc_state_scheme, unit) kmon" where
  "wakeup1 c = kmod (\<lambda>s. s\<lparr>procs := map (wake c) (procs s)\<rparr>)"

definition wakeup :: "chan \<Rightarrow> ('z proc_state_scheme, unit) kmon" where
  "wakeup c = kseq (acquire PtableLock) (kseq (wakeup1 c) (release PtableLock))"

lemma wakeup_run [simp]:
  "PtableLock \<notin> set (held s) \<Longrightarrow> wakeup c s = Ok () (s\<lparr>procs := map (wake c) (procs s)\<rparr>)"
  by (simp add: wakeup_def wakeup1_def kseq_def kbind_def kmod_def)

lemma wakeup_OkD:
  "wakeup c s = Ok u t \<Longrightarrow> PtableLock \<notin> set (held s) \<and> t = s\<lparr>procs := map (wake c) (procs s)\<rparr>"
  by (cases "PtableLock \<in> set (held s)") 
    (auto simp: wakeup_def wakeup1_def kmod_def kseq_def kbind_def acquire_def)

lemma sleep_not_Ok [simp]: "sleep c lk s \<noteq> Ok a t"
  by (auto simp: sleep_def kbind_def kget_def kmod_def sched_def kpanic_def
      split: res.splits option.splits if_splits)

section \<open>kill\<close>

text \<open>Index of the first slot of the table that satisfies a test.\<close>

definition slot :: "(proc \<Rightarrow> bool) \<Rightarrow> proc list \<Rightarrow> nat option" where
  "slot P ps = find (\<lambda>i. P (ps ! i)) [0..<length ps]"

definition kill :: "int \<Rightarrow> ('z proc_state_scheme, int) kmon" where
  "kill pid =
     kbind (acquire PtableLock) (\<lambda>_.
     kbind (kget (\<lambda>s. slot (\<lambda>p. p_pid p = pid) (procs s))) (\<lambda>i. case i of
       Some i \<Rightarrow>
        kbind (kmod (upd_proc i (\<lambda>p. p\<lparr>p_killed := True\<rparr>))) (\<lambda>_.
        kbind (kmod (upd_proc i (\<lambda>p. if p_state p = SLEEPING then p\<lparr>p_state := RUNNABLE\<rparr> else p))) (\<lambda>_.
        kbind (release PtableLock) (\<lambda>_. ret 0)))
     | None \<Rightarrow> kbind (release PtableLock) (\<lambda>_. ret (- 1))))"

section \<open>allocproc\<close>

definition allocproc :: "('z proc_state_scheme, nat option) kmon" where
  "allocproc =
     kbind (acquire PtableLock) (\<lambda>_.
     kbind (kget (\<lambda>s. slot (\<lambda>p. p_state p = UNUSED) (procs s))) (\<lambda>i. case i of
       None \<Rightarrow> kbind (release PtableLock) (\<lambda>_. ret None)
     | Some i \<Rightarrow>
        kbind (kmod (upd_proc i (\<lambda>p. p\<lparr>p_state := EMBRYO\<rparr>))) (\<lambda>_.
        kbind (kget nextpid) (\<lambda>pid.
        kbind (kmod (upd_proc i (\<lambda>p. p\<lparr>p_pid := pid\<rparr>))) (\<lambda>_.
        kbind (kmod (\<lambda>s. s\<lparr>nextpid := pid + 1\<rparr>)) (\<lambda>_.
        kbind (release PtableLock) (\<lambda>_.
        kbind kalloc (\<lambda>ks.
        kbind (kmod (upd_proc i (\<lambda>p. p\<lparr>p_kstack := ks\<rparr>))) (\<lambda>_.
        if ks = 0 then
          kbind (kmod (upd_proc i (\<lambda>p. p\<lparr>p_state := UNUSED\<rparr>))) (\<lambda>_. ret None)
        else
          let tf = ks + KSTACKSIZE - TF_SIZE; sp = tf - 4; ctx = sp - CONTEXT_SIZE in
          kbind (kmod (upd_proc i (\<lambda>p. p\<lparr>p_tf := tf\<rparr>))) (\<lambda>_.
          kbind (kmod (\<lambda>s. s\<lparr>mem := store32 (mem s) sp (sym_trapret s)\<rparr>)) (\<lambda>_.
          kbind (kmod (upd_proc i (\<lambda>p. p\<lparr>p_context := ctx\<rparr>))) (\<lambda>_.
          kbind (kmod (\<lambda>s. s\<lparr>mem := memset (mem s) ctx 0 CONTEXT_SIZE\<rparr>)) (\<lambda>_.
          kbind (kmod (\<lambda>s. s\<lparr>mem := store32 (mem s) (ctx + CONTEXT_EIP) (sym_forkret s)\<rparr>)) (\<lambda>_.
          ret (Some i)))))))))))))))"

section \<open>Giving up the CPU\<close>

text \<open>\<open>yield\<close> runs up to the switch in \<open>sched\<close>; \<open>yield_return\<close> is what follows when the
  scheduler has picked the process again.  The channel of the outcome has no meaning: the
  process stays runnable.\<close>

definition yield :: "nat \<Rightarrow> ('z proc_state_scheme, unit) kmon" where
  "yield p =
     kbind (acquire PtableLock) (\<lambda>_.
     kbind (kmod (upd_proc p (\<lambda>q. q\<lparr>p_state := RUNNABLE\<rparr>))) (\<lambda>_.
     sched (ChanProc p) p))"

definition yield_return :: "('z proc_state_scheme, unit) kmon" where
  "yield_return = release PtableLock"

section \<open>Facts\<close>

lemma slot_SomeD: "slot P ps = Some i \<Longrightarrow> i < length ps \<and> P (ps ! i)"
  by (auto simp: slot_def dest: find_SomeD)

lemma slot_first: "slot P ps = Some i \<Longrightarrow> j < i \<Longrightarrow> \<not> P (ps ! j)"
  by (auto simp: slot_def find_Some_iff)

lemma slot_None: "slot P ps = None \<longleftrightarrow> (\<forall>i < length ps. \<not> P (ps ! i))"
  by (auto simp: slot_def find_None_iff)

lemma wake_eq_state:
  "p_state (wake c p) = (if p_state p = SLEEPING \<and> p_chan p = Some c then RUNNABLE else p_state p)"
  by (simp add: wake_def)

lemma wake_fields [simp]:
  "p_chan (wake c p) = p_chan p" "p_pid (wake c p) = p_pid p" "p_killed (wake c p) = p_killed p"
  "p_ofile (wake c p) = p_ofile p" "p_cwd (wake c p) = p_cwd p" "p_parent (wake c p) = p_parent p"
  "p_sz (wake c p) = p_sz p" "p_pgdir (wake c p) = p_pgdir p" "p_tf (wake c p) = p_tf p"
  by (simp_all add: wake_def)

lemma sleep_run:
  assumes "cur s = Some p" "p < length (procs s)" "held s = [lk]"
  shows "sleep c lk s = Block c (s\<lparr>held := [], cur := None,
      procs := (procs s)[p := (procs s ! p)\<lparr>p_chan := Some c, p_state := SLEEPING\<rparr>]\<rparr>)"
  using assms by (cases "lk = PtableLock")
    (simp_all add: sleep_def kbind_def kget_def kmod_def kseq_def upd_proc_def sched_def ret_def)

end
