(* ===== verification/Bio.thy ===== *)
theory Bio
  imports Proc
begin

text \<open>
  The block device and the buffer cache: \<open>buf.h\<close>, \<open>memide.c\<close> (the disk whose sectors are
  in memory) and \<open>bio.c\<close>.  A \<open>struct buf*\<close> is the index of the buffer in \<open>bcache.buf\<close>,
  and the doubly linked list through \<open>bcache.head\<close> is the list of those indices, most
  recently used first.  The disk also keeps the sequence of sectors written to it, oldest
  first, so that the disk a crash leaves behind can be spoken of.

  The abstract view of this layer is \<open>view s\<close>: the contents of every sector as the file
  system sees it, that is, from the cache if the sector is cached and from the disk
  otherwise.
\<close>

definition BSIZE :: nat where "BSIZE = 512"
definition NBUF :: nat where "NBUF = 30"
definition ROOTDEV :: nat where "ROOTDEV = 1"

record buf =
  b_busy :: bool
  b_valid :: bool
  b_dirty :: bool
  b_dev :: nat
  b_sector :: nat
  b_data :: block

record bio_state = proc_state +
  memdisk :: "nat \<Rightarrow> block"
  disksize :: nat
  disk_writes :: "(nat \<times> block) list"
  bufs :: "buf list"
  lru :: "nat list"

definition upd_buf :: "nat \<Rightarrow> (buf \<Rightarrow> buf) \<Rightarrow> ('z bio_state_scheme) \<Rightarrow> ('z bio_state_scheme)" where
  "upd_buf i f s = s\<lparr>bufs := (bufs s)[i := f (bufs s ! i)]\<rparr>"

abbreviation getbuf :: "('z bio_state_scheme) \<Rightarrow> nat \<Rightarrow> buf" where
  "getbuf s i \<equiv> bufs s ! i"

section \<open>The disk\<close>

definition disk_write :: "nat \<Rightarrow> block \<Rightarrow> ('z bio_state_scheme) \<Rightarrow> ('z bio_state_scheme)" where
  "disk_write n d s = s\<lparr>memdisk := (memdisk s)(n := d), disk_writes := disk_writes s @ [(n, d)]\<rparr>"

definition iderw :: "nat \<Rightarrow> ('z bio_state_scheme, unit) kmon" where
  "iderw i = kbind (kget (\<lambda>s. getbuf s i)) (\<lambda>b.
     if \<not> b_busy b then kpanic ''iderw: buf not busy''
     else if b_valid b \<and> \<not> b_dirty b then kpanic ''iderw: nothing to do''
     else if b_dev b \<noteq> 1 then kpanic ''iderw: request not for disk 1''
     else kbind (kget disksize) (\<lambda>n.
       if b_sector b \<ge> n then kpanic ''iderw: sector out of range''
       else kbind (if b_dirty b
                   then kseq (kmod (upd_buf i (\<lambda>b. b\<lparr>b_dirty := False\<rparr>)))
                             (kmod (disk_write (b_sector b) (b_data b)))
                   else kmod (\<lambda>s. upd_buf i (\<lambda>b. b\<lparr>b_data := memdisk s (b_sector b)\<rparr>) s)) (\<lambda>_.
         kmod (upd_buf i (\<lambda>b. b\<lparr>b_valid := True\<rparr>)))))"

section \<open>The buffer cache\<close>

text \<open>A buffer not yet given to a sector has device \<open>-1\<close>.\<close>

definition NODEV :: nat where "NODEV = u32 (- 1)"

definition empty_buf :: buf where
  "empty_buf = \<lparr>b_busy = False, b_valid = False, b_dirty = False, b_dev = 0, b_sector = 0,
     b_data = replicate BSIZE 0\<rparr>"

definition binit :: "('z bio_state_scheme, unit) kmon" where
  "binit =
     kseq (kmod (\<lambda>s. s\<lparr>lru := []\<rparr>))
     (kfor [0..<NBUF] (\<lambda>b.
       kseq (kmod (upd_buf b (\<lambda>x. x\<lparr>b_dev := NODEV\<rparr>)))
            (kmod (\<lambda>s. s\<lparr>lru := b # lru s\<rparr>))))"

definition cached :: "nat \<Rightarrow> nat \<Rightarrow> buf \<Rightarrow> bool" where
  "cached dev sector b \<longleftrightarrow> b_dev b = dev \<and> b_sector b = sector"

definition recyclable :: "buf \<Rightarrow> bool" where
  "recyclable b \<longleftrightarrow> \<not> b_busy b \<and> \<not> b_dirty b"

definition bget :: "nat \<Rightarrow> nat \<Rightarrow> ('z bio_state_scheme, nat) kmon" where
  "bget dev sector =
     kbind (acquire BcacheLock) (\<lambda>_.
     kbind (kget (\<lambda>s. find (\<lambda>i. cached dev sector (getbuf s i)) (lru s))) (\<lambda>hit. case hit of
       Some i \<Rightarrow>
         kbind (kget (\<lambda>s. b_busy (getbuf s i))) (\<lambda>busy.
         if \<not> busy then
           kbind (kmod (upd_buf i (\<lambda>b. b\<lparr>b_busy := True\<rparr>))) (\<lambda>_.
           kbind (release BcacheLock) (\<lambda>_. ret i))
         else sleep (ChanBuf i) BcacheLock)
     | None \<Rightarrow>
         kbind (kget (\<lambda>s. find (\<lambda>i. recyclable (getbuf s i)) (rev (lru s)))) (\<lambda>free. case free of
           Some i \<Rightarrow>
             kbind (kmod (upd_buf i (\<lambda>b. b\<lparr>b_dev := dev\<rparr>))) (\<lambda>_.
             kbind (kmod (upd_buf i (\<lambda>b. b\<lparr>b_sector := sector\<rparr>))) (\<lambda>_.
             kbind (kmod (upd_buf i (\<lambda>b. b\<lparr>b_busy := True, b_valid := False, b_dirty := False\<rparr>))) (\<lambda>_.
             kbind (release BcacheLock) (\<lambda>_. ret i))))
         | None \<Rightarrow> kpanic ''bget: no buffers'')))"

definition bread :: "nat \<Rightarrow> nat \<Rightarrow> ('z bio_state_scheme, nat) kmon" where
  "bread dev sector =
     kbind (bget dev sector) (\<lambda>b.
     kbind (kget (\<lambda>s. b_valid (getbuf s b))) (\<lambda>valid.
     kbind (kwhen (\<not> valid) (iderw b)) (\<lambda>_. ret b)))"

definition bwrite :: "nat \<Rightarrow> ('z bio_state_scheme, unit) kmon" where
  "bwrite b = kbind (kget (\<lambda>s. b_busy (getbuf s b))) (\<lambda>busy.
     if \<not> busy then kpanic ''bwrite''
     else kseq (kmod (upd_buf b (\<lambda>x. x\<lparr>b_dirty := True\<rparr>))) (iderw b))"

definition brelse :: "nat \<Rightarrow> ('z bio_state_scheme, unit) kmon" where
  "brelse b = kbind (kget (\<lambda>s. b_busy (getbuf s b))) (\<lambda>busy.
     if \<not> busy then kpanic ''brelse''
     else kbind (acquire BcacheLock) (\<lambda>_.
          kbind (kmod (\<lambda>s. s\<lparr>lru := b # remove1 b (lru s)\<rparr>)) (\<lambda>_.
          kbind (kmod (upd_buf b (\<lambda>x. x\<lparr>b_busy := False\<rparr>))) (\<lambda>_.
          kbind (wakeup (ChanBuf b)) (\<lambda>_.
          release BcacheLock)))))"

text \<open>The idiom for changing the contents of a locked buffer: \<open>memmove\<close>, \<open>memset\<close> or an
  assignment through a pointer into \<open>bp->data\<close>.\<close>

definition set_bdata :: "nat \<Rightarrow> (block \<Rightarrow> block) \<Rightarrow> ('z bio_state_scheme, unit) kmon" where
  "set_bdata b f = kmod (upd_buf b (\<lambda>x. x\<lparr>b_data := f (b_data x)\<rparr>))"

definition get_bdata :: "nat \<Rightarrow> ('z bio_state_scheme, block) kmon" where
  "get_bdata b = kget (\<lambda>s. b_data (getbuf s b))"

section \<open>The invariant and the abstract view\<close>

definition view :: "('z bio_state_scheme) \<Rightarrow> nat \<Rightarrow> block" where
  "view s n = (case find (cached ROOTDEV n) (bufs s) of Some b \<Rightarrow> b_data b | None \<Rightarrow> memdisk s n)"

definition buf_ok :: "('z bio_state_scheme) \<Rightarrow> buf \<Rightarrow> bool" where
  "buf_ok s b \<longleftrightarrow> length (b_data b) = BSIZE \<and>
     (b_dev b = ROOTDEV \<or> b_dev b = NODEV) \<and>
     (b_dev b = NODEV \<longrightarrow> \<not> b_busy b \<and> \<not> b_dirty b) \<and>
     (b_dev b = ROOTDEV \<longrightarrow> b_valid b \<and> b_sector b < disksize s \<and>
        (\<not> b_dirty b \<and> \<not> b_busy b \<longrightarrow> b_data b = memdisk s (b_sector b)))"

definition bcache_ok :: "('z bio_state_scheme) \<Rightarrow> bool" where
  "bcache_ok s \<longleftrightarrow> length (bufs s) = NBUF \<and> distinct (lru s) \<and> set (lru s) = {..<NBUF} \<and>
     (\<forall>i < NBUF. buf_ok s (bufs s ! i)) \<and>
     (\<forall>i < NBUF. \<forall>j < NBUF. b_dev (bufs s ! i) = ROOTDEV \<and> b_dev (bufs s ! j) = ROOTDEV \<and>
        b_sector (bufs s ! i) = b_sector (bufs s ! j) \<longrightarrow> i = j) \<and>
     (\<forall>n < disksize s. length (memdisk s n) = BSIZE)"

definition busy_bufs :: "('z bio_state_scheme) \<Rightarrow> nat set" where
  "busy_bufs s = {i. i < length (bufs s) \<and> b_busy (bufs s ! i)}"

text \<open>The parts of the state this layer may change.\<close>

definition bio_frame :: "('z bio_state_scheme) \<Rightarrow> ('z bio_state_scheme) \<Rightarrow> bool" where
  "bio_frame s t \<longleftrightarrow> t = s\<lparr>procs := procs t, memdisk := memdisk t, disk_writes := disk_writes t,
     bufs := bufs t, lru := lru t\<rparr>"

section \<open>Facts\<close>

named_theorems bio_simps \<open>reducing the buffer-cache operations\<close>

lemma bcache_okD:
  assumes "bcache_ok s"
  shows "length (bufs s) = NBUF" "distinct (lru s)" "set (lru s) = {..<NBUF}"
    and "i < NBUF \<Longrightarrow> buf_ok s (bufs s ! i)"
    and "i < NBUF \<Longrightarrow> j < NBUF \<Longrightarrow> b_dev (bufs s ! i) = ROOTDEV \<Longrightarrow> b_dev (bufs s ! j) = ROOTDEV \<Longrightarrow>
      b_sector (bufs s ! i) = b_sector (bufs s ! j) \<Longrightarrow> i = j"
    and "n < disksize s \<Longrightarrow> length (memdisk s n) = BSIZE"
  using assms by (auto simp: bcache_ok_def)

lemma NODEV_ne [simp]: "ROOTDEV \<noteq> NODEV" "NODEV \<noteq> ROOTDEV" "NODEV \<noteq> 1"
  by (simp_all add: ROOTDEV_def NODEV_def u32_def)

lemma view_cached:
  assumes "bcache_ok s" "i < NBUF" "cached ROOTDEV n (bufs s ! i)"
  shows "view s n = b_data (bufs s ! i)"
proof -
  have mem: "bufs s ! i \<in> set (bufs s)" using bcache_okD(1) [OF assms(1)] assms(2) by simp
  then obtain b where b: "find (cached ROOTDEV n) (bufs s) = Some b"
    using find_some_exists assms(3) by metis
  then have "cached ROOTDEV n b" "b \<in> set (bufs s)" by (auto dest: find_SomeD)
  then obtain j where "j < NBUF" "bufs s ! j = b"
    using bcache_okD(1) [OF assms(1)] by (auto simp: in_set_conv_nth)
  with \<open>cached ROOTDEV n b\<close> assms have "j = i"
    by (auto simp: cached_def intro: bcache_okD(5))
  with b \<open>bufs s ! j = b\<close> show ?thesis by (simp add: view_def)
qed

lemma view_uncached:
  assumes "length (bufs s) = NBUF" "\<And>i. i < NBUF \<Longrightarrow> \<not> cached ROOTDEV n (bufs s ! i)"
  shows "view s n = memdisk s n"
proof -
  have "find (cached ROOTDEV n) (bufs s) = None"
    using assms by (auto simp: find_None_iff in_set_conv_nth)
  then show ?thesis by (simp add: view_def)
qed

text \<open>Replacing one buffer keeps the invariant when the new buffer is well formed and does
  not duplicate a sector held by another buffer.\<close>

lemma bcache_ok_update:
  assumes ok: "bcache_ok s" and x: "buf_ok s x" and b: "b < NBUF"
    and uniq: "b_dev x = ROOTDEV \<longrightarrow> (\<forall>i < NBUF. i \<noteq> b \<longrightarrow> \<not> cached ROOTDEV (b_sector x) (bufs s ! i))"
  shows "bcache_ok (s\<lparr>bufs := (bufs s)[b := x]\<rparr>)"
proof -
  note D = bcache_okD [OF ok]
  have bo: "buf_ok (s\<lparr>bufs := bs\<rparr>) y = buf_ok s y" for bs y by (simp add: buf_ok_def)
  show ?thesis
    unfolding bcache_ok_def bo
  proof (intro conjI)
    show "\<forall>i < NBUF. \<forall>j < NBUF. b_dev (bufs (s\<lparr>bufs := (bufs s)[b := x]\<rparr>) ! i) = ROOTDEV \<and>
        b_dev (bufs (s\<lparr>bufs := (bufs s)[b := x]\<rparr>) ! j) = ROOTDEV \<and>
        b_sector (bufs (s\<lparr>bufs := (bufs s)[b := x]\<rparr>) ! i) =
        b_sector (bufs (s\<lparr>bufs := (bufs s)[b := x]\<rparr>) ! j) \<longrightarrow> i = j"
      using D(1) D(5) b uniq by (simp add: nth_list_update cached_def) metis
  qed (use D x b in \<open>auto simp: nth_list_update\<close>)
qed

lemma view_update_other:
  assumes "length (bufs s) = NBUF" "b < NBUF"
    and "\<not> cached ROOTDEV n (bufs s ! b)" "\<not> cached ROOTDEV n x"
  shows "view (s\<lparr>bufs := (bufs s)[b := x]\<rparr>) n = view s n"
proof -
  have "find P (xs[k := x]) = find P xs" if "k < length xs" "\<not> P (xs ! k)" "\<not> P x" for P k and xs :: "buf list"
    using that
  proof (induction xs arbitrary: k)
    case Nil
    then show ?case by simp
  next
    case (Cons y ys)
    then show ?case by (cases k) auto
  qed
  from this [of b "bufs s" "cached ROOTDEV n"] assms show ?thesis
    by (simp add: view_def split: option.split)
qed

lemma bget_Ok:
  assumes "bcache_ok s" "bget ROOTDEV n s = Ok b t"
  shows "b < NBUF \<and> BcacheLock \<notin> set (held s) \<and>
    ((cached ROOTDEV n (bufs s ! b) \<and> \<not> b_busy (bufs s ! b) \<and>
        t = s\<lparr>bufs := (bufs s)[b := (bufs s ! b)\<lparr>b_busy := True\<rparr>]\<rparr>) \<or>
     ((\<forall>i < NBUF. \<not> cached ROOTDEV n (bufs s ! i)) \<and> recyclable (bufs s ! b) \<and>
        t = s\<lparr>bufs := (bufs s)[b := (bufs s ! b)\<lparr>b_dev := ROOTDEV, b_sector := n, b_busy := True,
              b_valid := False, b_dirty := False\<rparr>]\<rparr>))"
proof -
  note D = bcache_okD [OF assms(1)]
  from assms(2) have lk: "BcacheLock \<notin> set (held s)"
    by (auto simp: bget_def kbind_def acquire_def split: if_splits)
  let ?hit = "find (\<lambda>i. cached ROOTDEV n (bufs s ! i)) (lru s)"
  let ?free = "find (\<lambda>i. recyclable (bufs s ! i)) (rev (lru s))"
  show ?thesis
  proof (cases ?hit)
    case (Some i)
    have i: "cached ROOTDEV n (bufs s ! i)" "i < NBUF" using find_SomeD [OF Some] D(3) by simp_all
    have nb: "\<not> b_busy (bufs s ! i)"
    proof
      assume "b_busy (bufs s ! i)"
      with assms(2) lk Some show False by (simp add: bget_def kmon_simps)
    qed
    have "bget ROOTDEV n s = Ok i (s\<lparr>bufs := (bufs s)[i := (bufs s ! i)\<lparr>b_busy := True\<rparr>]\<rparr>)"
      using lk Some nb by (simp add: bget_def kmon_simps upd_buf_def ret_def)
    with assms(2) have "b = i" "t = s\<lparr>bufs := (bufs s)[i := (bufs s ! i)\<lparr>b_busy := True\<rparr>]\<rparr>" by auto
    with i nb lk show ?thesis by blast
  next
    case None
    have no: "\<forall>i < NBUF. \<not> cached ROOTDEV n (bufs s ! i)"
      using find_NoneD [OF None] D(3) by simp
    show ?thesis
    proof (cases ?free)
      case None
      with assms(2) lk \<open>?hit = None\<close> show ?thesis by (simp add: bget_def kmon_simps)
    next
      case (Some i)
      have i: "recyclable (bufs s ! i)" "i < NBUF" using find_SomeD [OF Some] D(3) by simp_all
      have "bget ROOTDEV n s = Ok i (s\<lparr>bufs := (bufs s)[i := (bufs s ! i)\<lparr>b_dev := ROOTDEV,
          b_sector := n, b_busy := True, b_valid := False, b_dirty := False\<rparr>]\<rparr>)"
        using lk Some \<open>?hit = None\<close> i(2) D(1) by (simp add: bget_def kmon_simps upd_buf_def ret_def)
      with assms(2) have "b = i" "t = s\<lparr>bufs := (bufs s)[i := (bufs s ! i)\<lparr>b_dev := ROOTDEV,
          b_sector := n, b_busy := True, b_valid := False, b_dirty := False\<rparr>]\<rparr>" by auto
      with i no lk show ?thesis by blast
    qed
  qed
qed

text \<open>What \<open>bread\<close> leaves in the buffer it returns.\<close>

definition bread_buf :: "('z bio_state_scheme) \<Rightarrow> nat \<Rightarrow> nat \<Rightarrow> buf" where
  "bread_buf s n b = (if cached ROOTDEV n (bufs s ! b) then (bufs s ! b)\<lparr>b_busy := True\<rparr>
     else \<lparr>b_busy = True, b_valid = True, b_dirty = False, b_dev = ROOTDEV, b_sector = n,
           b_data = memdisk s n\<rparr>)"

lemma bread_hit:
  assumes ok: "bcache_ok s" and b: "b < NBUF" and hit: "cached ROOTDEV n (bufs s ! b)"
  shows "n < disksize s" "b_valid (bufs s ! b)" "view s n = b_data (bufs s ! b)"
    and "buf_ok s (bread_buf s n b)"
    and "\<forall>i < NBUF. i \<noteq> b \<longrightarrow> \<not> cached ROOTDEV n (bufs s ! i)"
proof -
  have bo: "buf_ok s (bufs s ! b)" by (rule bcache_okD(4) [OF ok b])
  have c: "b_dev (bufs s ! b) = ROOTDEV" "b_sector (bufs s ! b) = n"
    using hit by (auto simp: cached_def)
  show "n < disksize s" "b_valid (bufs s ! b)" using bo c by (auto simp: buf_ok_def)
  show "view s n = b_data (bufs s ! b)" by (rule view_cached [OF ok b hit])
  show "buf_ok s (bread_buf s n b)" using bo hit c by (simp add: buf_ok_def bread_buf_def)
  show "\<forall>i < NBUF. i \<noteq> b \<longrightarrow> \<not> cached ROOTDEV n (bufs s ! i)"
    using bcache_okD(5) [OF ok _ b] c unfolding cached_def by metis
qed

lemma bread_miss:
  assumes ok: "bcache_ok s" and miss: "\<forall>i < NBUF. \<not> cached ROOTDEV n (bufs s ! i)"
    and n: "n < disksize s" and b: "b < NBUF"
  shows "view s n = memdisk s n" "buf_ok s (bread_buf s n b)"
proof -
  show "view s n = memdisk s n" using miss bcache_okD(1) [OF ok] by (intro view_uncached) auto
  show "buf_ok s (bread_buf s n b)"
    using miss b n bcache_okD(6) [OF ok n] by (simp add: bread_buf_def buf_ok_def)
qed

lemma buf_eqI:
  fixes x y :: buf
  shows "b_busy x = b_busy y \<Longrightarrow> b_valid x = b_valid y \<Longrightarrow> b_dirty x = b_dirty y \<Longrightarrow>
    b_dev x = b_dev y \<Longrightarrow> b_sector x = b_sector y \<Longrightarrow> b_data x = b_data y \<Longrightarrow> x = y"
  by (cases x, cases y) simp

lemma bread_run:
  assumes ok: "bcache_ok s" and get: "bget ROOTDEV n s = Ok b u"
  shows "kbind (kwhen (\<not> b_valid (bufs u ! b)) (iderw b)) (\<lambda>_. ret b) u =
    (if n < disksize s then Ok b (s\<lparr>bufs := (bufs s)[b := bread_buf s n b]\<rparr>)
     else Panic ''iderw: sector out of range'')"
proof -
  note G = bget_Ok [OF ok get]
  have b: "b < length (bufs s)" "b < NBUF" using G bcache_okD(1) [OF ok] by auto
  show ?thesis
  proof (cases "cached ROOTDEV n (bufs s ! b)")
    case True
    have u: "u = s\<lparr>bufs := (bufs s)[b := (bufs s ! b)\<lparr>b_busy := True\<rparr>]\<rparr>" using G True b by auto
    show ?thesis unfolding u using True b bread_hit [OF ok b(2) True]
      by (simp add: bread_buf_def ret_def)
  next
    case False
    have u: "u = s\<lparr>bufs := (bufs s)[b := (bufs s ! b)\<lparr>b_dev := ROOTDEV, b_sector := n, b_busy := True,
              b_valid := False, b_dirty := False\<rparr>]\<rparr>" using G False by auto
    have x: "(bufs s ! b)\<lparr>b_dev := ROOTDEV, b_sector := n, b_busy := True, b_dirty := False,
      b_data := memdisk s n, b_valid := True\<rparr> = bread_buf s n b"
      using False by (intro buf_eqI) (simp_all add: bread_buf_def)
    show ?thesis unfolding u using False b x
      by (simp add: iderw_def upd_buf_def ROOTDEV_def ret_def kpanic_def kbind_def [of "kpanic _"])
  qed
qed



lemma bread_Ok:
  assumes ok: "bcache_ok s" and run: "bread ROOTDEV n s = Ok b t"
  shows "b < NBUF" "n < disksize s" "\<not> b_busy (bufs s ! b)" "BcacheLock \<notin> set (held s)"
    and "t = s\<lparr>bufs := (bufs s)[b := bread_buf s n b]\<rparr>"
    and "cached ROOTDEV n (bufs s ! b) \<or>
      (\<forall>i < NBUF. \<not> cached ROOTDEV n (bufs s ! i)) \<and> recyclable (bufs s ! b)"
proof -
  from run obtain c u where get: "bget ROOTDEV n s = Ok c u"
    and rest: "kbind (kwhen (\<not> b_valid (bufs u ! c)) (iderw c)) (\<lambda>_. ret c) u = Ok b t"
    by (auto simp: bread_def elim: kbind_OkE)
  from rest have c: "n < disksize s" "c = b" "t = s\<lparr>bufs := (bufs s)[b := bread_buf s n b]\<rparr>"
    unfolding bread_run [OF ok get] by (auto split: if_splits)
  note G = bget_Ok [OF ok get, unfolded c(2)]
  show "b < NBUF" "BcacheLock \<notin> set (held s)" using G by auto
  show "n < disksize s" "t = s\<lparr>bufs := (bufs s)[b := bread_buf s n b]\<rparr>" by fact+
  show "\<not> b_busy (bufs s ! b)" using G by (elim conjE disjE) (simp_all add: recyclable_def)
  show "cached ROOTDEV n (bufs s ! b) \<or>
      (\<forall>i < NBUF. \<not> cached ROOTDEV n (bufs s ! i)) \<and> recyclable (bufs s ! b)"
    using G by (elim conjE disjE) simp_all
qed

text \<open>Looking at one sector through the cache, after a buffer has been replaced.\<close>

lemma view_update_self:
  assumes "bcache_ok (s\<lparr>bufs := (bufs s)[b := x]\<rparr>)" "b < NBUF" "cached ROOTDEV n x"
  shows "view (s\<lparr>bufs := (bufs s)[b := x]\<rparr>) n = b_data x"
proof -
  have "b < length (bufs s)" using bcache_okD(1) [OF assms(1)] assms(2) by simp
  then show ?thesis using view_cached [OF assms(1,2), of n] assms(3) by simp
qed

lemma view_evict:
  assumes ok: "bcache_ok s" and b: "b < NBUF" and rec: "recyclable (bufs s ! b)"
    and x: "\<not> cached ROOTDEV m x"
  shows "view (s\<lparr>bufs := (bufs s)[b := x]\<rparr>) m = view s m"
proof (cases "cached ROOTDEV m (bufs s ! b)")
  case False
  then show ?thesis using view_update_other bcache_okD(1) [OF ok] b x by blast
next
  case True
  note D = bcache_okD [OF ok]
  have "view s m = memdisk s m"
    using view_cached [OF ok b True] D(4) [OF b] True rec
    by (simp add: buf_ok_def cached_def recyclable_def)
  moreover have "view (s\<lparr>bufs := (bufs s)[b := x]\<rparr>) m = memdisk s m"
  proof (subst view_uncached)
    fix i assume i: "i < NBUF"
    show "\<not> cached ROOTDEV m (bufs (s\<lparr>bufs := (bufs s)[b := x]\<rparr>) ! i)"
    proof (cases "i = b")
      case False
      then have "\<not> cached ROOTDEV m (bufs s ! i)"
        using D(5) [OF i b] True unfolding cached_def by metis
      with False show ?thesis by simp
    qed (use x b D(1) in simp)
  qed (use D(1) in simp_all)
  ultimately show ?thesis by simp
qed

lemma bread_buf_simps [simp]:
  "cached ROOTDEV n (bread_buf s n b)" "b_busy (bread_buf s n b)" "b_dev (bread_buf s n b) = ROOTDEV"
  "b_sector (bread_buf s n b) = n"
  by (auto simp: bread_buf_def cached_def)

lemma bread_post:
  assumes ok: "bcache_ok s" and run: "bread ROOTDEV n s = Ok b t"
  shows "bcache_ok t" "view t = view s"
proof -
  note R = bread_Ok [OF ok run]
  have x: "buf_ok s (bread_buf s n b)" "\<forall>i < NBUF. i \<noteq> b \<longrightarrow> \<not> cached ROOTDEV n (bufs s ! i)"
    "b_data (bread_buf s n b) = view s n"
    using R(6) bread_hit [OF ok R(1)] bread_miss [OF ok _ R(2,1)]
    by (auto simp: bread_buf_def recyclable_def)
  show ok': "bcache_ok t" unfolding R(5) using x R(1) by (intro bcache_ok_update [OF ok]) auto
  show "view t = view s"
  proof
    fix m
    have ne: "m \<noteq> n \<Longrightarrow> \<not> cached ROOTDEV m (bread_buf s n b)" by (simp add: cached_def)
    consider "m = n" | "m \<noteq> n" "\<not> cached ROOTDEV m (bufs s ! b)"
      | "m \<noteq> n" "cached ROOTDEV m (bufs s ! b)" "recyclable (bufs s ! b)"
      using R(6) by (auto simp: cached_def)
    then show "view t m = view s m" unfolding R(5)
    proof cases
      case 1
      then show "view (s\<lparr>bufs := (bufs s)[b := bread_buf s n b]\<rparr>) m = view s m"
        using view_update_self [OF ok' [unfolded R(5)] R(1), of n] x(3) by simp
    next
      case 2
      then show "view (s\<lparr>bufs := (bufs s)[b := bread_buf s n b]\<rparr>) m = view s m"
        using view_update_other bcache_okD(1) [OF ok] R(1) ne by blast
    next
      case 3
      then show "view (s\<lparr>bufs := (bufs s)[b := bread_buf s n b]\<rparr>) m = view s m"
        using view_evict [OF ok R(1)] ne by blast
    qed
  qed
qed

section \<open>Locks on sectors, pinned sectors, and the frame\<close>

text \<open>The sector a buffer handed out by \<open>bread\<close> holds; \<open>pinned\<close> sectors have a dirty
  buffer, which \<open>bget\<close> will not recycle.\<close>

definition locked :: "('z bio_state_scheme) \<Rightarrow> nat \<Rightarrow> nat option" where
  "locked s b = (if b < NBUF \<and> b_busy (bufs s ! b) then Some (b_sector (bufs s ! b)) else None)"

definition pinned :: "('z bio_state_scheme) \<Rightarrow> nat set" where
  "pinned s = {b_sector (bufs s ! i) | i. i < NBUF \<and> b_dev (bufs s ! i) = ROOTDEV \<and> b_dirty (bufs s ! i)}"

lemma locked_dev:
  assumes "bcache_ok s" "locked s b = Some n"
  shows "b < NBUF" "b_busy (bufs s ! b)" "cached ROOTDEV n (bufs s ! b)" "n < disksize s"
    "view s n = b_data (bufs s ! b)" "b_valid (bufs s ! b)"
proof -
  have l: "b < NBUF" "b_busy (bufs s ! b)" "b_sector (bufs s ! b) = n"
    using assms(2) by (auto simp: locked_def split: if_splits)
  have bo: "buf_ok s (bufs s ! b)" using bcache_okD(4) [OF assms(1) l(1)] .
  show c: "cached ROOTDEV n (bufs s ! b)" using bo l by (auto simp: buf_ok_def cached_def)
  show "b < NBUF" "b_busy (bufs s ! b)" by fact+
  show "n < disksize s" "b_valid (bufs s ! b)" "view s n = b_data (bufs s ! b)"
    using bread_hit(1,2,3) [OF assms(1) l(1) c] by simp_all
qed

lemma not_locked:
  assumes "n \<notin> ran (locked s)" "i < NBUF" "cached ROOTDEV n (bufs s ! i)"
  shows "\<not> b_busy (bufs s ! i)"
proof
  assume "b_busy (bufs s ! i)"
  then have "locked s i = Some n" using assms by (simp add: locked_def cached_def)
  then show False using assms(1) by (auto simp: ran_def)
qed

lemma pinnedI: "i < NBUF \<Longrightarrow> cached ROOTDEV n (bufs s ! i) \<Longrightarrow> b_dirty (bufs s ! i) \<Longrightarrow> n \<in> pinned s"
  by (auto simp: pinned_def cached_def)

lemma pinned_iff:
  assumes "bcache_ok s" "i < NBUF" "cached ROOTDEV n (bufs s ! i)"
  shows "n \<in> pinned s \<longleftrightarrow> b_dirty (bufs s ! i)"
proof
  assume "n \<in> pinned s"
  then obtain j where "j < NBUF" "b_dev (bufs s ! j) = ROOTDEV" "b_dirty (bufs s ! j)" "b_sector (bufs s ! j) = n"
    by (auto simp: pinned_def)
  moreover have "j = i" using bcache_okD(5) [OF assms(1), of j i] calculation assms(2,3) by (simp add: cached_def)
  ultimately show "b_dirty (bufs s ! i)" by simp
qed (use assms pinnedI in blast)

lemma locked_update:
  "length (bufs s) = NBUF \<Longrightarrow> b < NBUF \<Longrightarrow> locked (s\<lparr>bufs := (bufs s)[b := x]\<rparr>) =
     (locked s)(b := if b_busy x then Some (b_sector x) else None)"
  by (auto simp: fun_eq_iff locked_def nth_list_update)

lemma pinned_update:
  assumes "bcache_ok s" "b < NBUF" "cached ROOTDEV n x"
    and "\<forall>i < NBUF. i \<noteq> b \<longrightarrow> \<not> cached ROOTDEV n (bufs s ! i)"
    and "b_dev (bufs s ! b) = ROOTDEV \<and> b_sector (bufs s ! b) \<noteq> n \<longrightarrow> \<not> b_dirty (bufs s ! b)"
  shows "pinned (s\<lparr>bufs := (bufs s)[b := x]\<rparr>) = (if b_dirty x then insert n (pinned s) else pinned s - {n})"
proof -
  have L: "length (bufs s) = NBUF" using bcache_okD(1) [OF assms(1)] .
  have "m \<in> pinned (s\<lparr>bufs := (bufs s)[b := x]\<rparr>) \<longleftrightarrow>
     (m = n \<and> b_dirty x) \<or> (m \<noteq> n \<and> m \<in> pinned s)" for m
  proof (cases "m = n")
    case True
    have "n \<in> pinned (s\<lparr>bufs := (bufs s)[b := x]\<rparr>) \<longleftrightarrow> b_dirty x"
      using assms(2-4) L by (auto simp: pinned_def cached_def nth_list_update)
    with True show ?thesis by simp
  next
    case False
    have "m \<in> pinned (s\<lparr>bufs := (bufs s)[b := x]\<rparr>) \<longleftrightarrow> m \<in> pinned s"
      using assms(2,3,5) L False by (auto simp: pinned_def cached_def nth_list_update)
    with False show ?thesis by simp
  qed
  then show ?thesis by auto
qed

lemma bio_frame_refl [simp]: "bio_frame s s"
  by (simp add: bio_frame_def)

lemma bio_frame_trans: "bio_frame s t \<Longrightarrow> bio_frame t u \<Longrightarrow> bio_frame s u"
  unfolding bio_frame_def
proof -
  assume t: "t = s\<lparr>procs := procs t, memdisk := memdisk t, disk_writes := disk_writes t, bufs := bufs t, lru := lru t\<rparr>"
    and u: "u = t\<lparr>procs := procs u, memdisk := memdisk u, disk_writes := disk_writes u, bufs := bufs u, lru := lru u\<rparr>"
  show "u = s\<lparr>procs := procs u, memdisk := memdisk u, disk_writes := disk_writes u, bufs := bufs u, lru := lru u\<rparr>"
    by (subst u, subst t) simp
qed

lemma bread_locked:
  assumes ok: "bcache_ok s" and run: "bread ROOTDEV n s = Ok b t"
  shows "locked s b = None" "locked t = (locked s)(b \<mapsto> n)" "pinned t = pinned s" "n \<notin> ran (locked s)"
    "bio_frame s t" "memdisk t = memdisk s" "disk_writes t = disk_writes s"
proof -
  note R = bread_Ok [OF ok run]
  have un: "\<forall>i < NBUF. i \<noteq> b \<longrightarrow> \<not> cached ROOTDEV n (bufs s ! i)"
    using R(6) bread_hit(5) [OF ok R(1)] by auto
  show "locked s b = None" using R(3) by (simp add: locked_def)
  show "locked t = (locked s)(b \<mapsto> n)"
    unfolding R(5) using R(1) bcache_okD(1) [OF ok] by (subst locked_update) auto
  have nd: "b_dev (bufs s ! b) = ROOTDEV \<and> b_sector (bufs s ! b) \<noteq> n \<longrightarrow> \<not> b_dirty (bufs s ! b)"
    using R(6) by (auto simp: cached_def recyclable_def)
  have "b_dirty (bread_buf s n b) \<longleftrightarrow> n \<in> pinned s"
  proof (cases "cached ROOTDEV n (bufs s ! b)")
    case True
    then show ?thesis using pinned_iff [OF ok R(1) True] by (simp add: bread_buf_def)
  next
    case False
    then have "n \<notin> pinned s" using R(6) by (auto simp: pinned_def cached_def)
    with False show ?thesis by (simp add: bread_buf_def)
  qed
  then show "pinned t = pinned s"
    unfolding R(5) by (subst pinned_update [OF ok R(1) _ un nd]) auto
  show "n \<notin> ran (locked s)"
  proof
    assume "n \<in> ran (locked s)"
    then obtain c where c: "locked s c = Some n" by (auto simp: ran_def)
    from locked_dev [OF ok c] un R(3) show False by metis
  qed
  show "bio_frame s t" "memdisk t = memdisk s" "disk_writes t = disk_writes s"
    unfolding R(5) by (simp_all add: bio_frame_def)
qed


subsection \<open>Changing, writing and releasing a locked buffer\<close>

lemma bcache_ok_locked_update:
  assumes ok: "bcache_ok s" and l: "locked s b = Some n"
    and x: "b_sector x = n" "b_dev x = ROOTDEV" "b_valid x" "length (b_data x) = BSIZE"
      "\<not> b_dirty x \<and> \<not> b_busy x \<longrightarrow> b_data x = memdisk s n"
  shows "bcache_ok (s\<lparr>bufs := (bufs s)[b := x]\<rparr>)"
    "view (s\<lparr>bufs := (bufs s)[b := x]\<rparr>) = (view s)(n := b_data x)"
    "pinned (s\<lparr>bufs := (bufs s)[b := x]\<rparr>) = (if b_dirty x then insert n (pinned s) else pinned s - {n})"
proof -
  note L = locked_dev [OF ok l]
  have un: "\<forall>i < NBUF. i \<noteq> b \<longrightarrow> \<not> cached ROOTDEV n (bufs s ! i)"
    by (rule bread_hit(5) [OF ok L(1,3)])
  have c: "cached ROOTDEV n x" using x by (simp add: cached_def)
  show ok': "bcache_ok (s\<lparr>bufs := (bufs s)[b := x]\<rparr>)"
    using un x L by (intro bcache_ok_update [OF ok]) (auto simp: buf_ok_def)
  show "view (s\<lparr>bufs := (bufs s)[b := x]\<rparr>) = (view s)(n := b_data x)"
  proof
    fix m
    show "view (s\<lparr>bufs := (bufs s)[b := x]\<rparr>) m = ((view s)(n := b_data x)) m"
    proof (cases "m = n")
      case True
      then show ?thesis using view_update_self [OF ok' L(1) c] by simp
    next
      case False
      then show ?thesis using bcache_okD(1) [OF ok] L(1,3) x
        by (subst view_update_other) (auto simp: cached_def)
    qed
  qed
  have "b_sector (bufs s ! b) = n" using L(3) by (simp add: cached_def)
  then show "pinned (s\<lparr>bufs := (bufs s)[b := x]\<rparr>) = (if b_dirty x then insert n (pinned s) else pinned s - {n})"
    by (intro pinned_update [OF ok L(1) c un]) simp
qed

lemma set_bdata_Ok:
  assumes ok: "bcache_ok s" and l: "locked s b = Some n" and run: "set_bdata b f s = Ok u t"
    and len: "length (f (view s n)) = BSIZE"
  shows "bcache_ok t" "view t = (view s)(n := f (view s n))" "locked t = locked s" "pinned t = pinned s"
    "bio_frame s t" "memdisk t = memdisk s" "disk_writes t = disk_writes s"
proof -
  note L = locked_dev [OF ok l]
  let ?x = "(bufs s ! b)\<lparr>b_data := f (b_data (bufs s ! b))\<rparr>"
  have t: "t = s\<lparr>bufs := (bufs s)[b := ?x]\<rparr>" using run by (simp add: set_bdata_def upd_buf_def)
  have x: "b_sector ?x = n" "b_dev ?x = ROOTDEV" "b_valid ?x" "length (b_data ?x) = BSIZE"
    "\<not> b_dirty ?x \<and> \<not> b_busy ?x \<longrightarrow> b_data ?x = memdisk s n"
    using L len by (simp_all add: cached_def)
  note U = bcache_ok_locked_update [OF ok l x]
  show "bcache_ok t" "view t = (view s)(n := f (view s n))" using U(1,2) L(5) by (simp_all add: t)
  show "pinned t = pinned s" using U(3) pinned_iff [OF ok L(1,3)] by (auto simp: t)
  show "locked t = locked s"
    unfolding t using L l bcache_okD(1) [OF ok]
    by (subst locked_update) (auto simp: cached_def fun_upd_idem)
  show "bio_frame s t" "memdisk t = memdisk s" "disk_writes t = disk_writes s"
    by (simp_all add: t bio_frame_def)
qed

lemma bwrite_run:
  assumes ok: "bcache_ok s" and l: "locked s b = Some n"
  shows "bwrite b s = Ok () (disk_write n (view s n)
    (s\<lparr>bufs := (bufs s)[b := (bufs s ! b)\<lparr>b_dirty := False\<rparr>]\<rparr>))"
proof -
  note L = locked_dev [OF ok l]
  have x: "b_dev (bufs s ! b) = 1" "b_sector (bufs s ! b) = n" using L(3) by (auto simp: cached_def ROOTDEV_def)
  have b: "b < length (bufs s)" using L(1) bcache_okD(1) [OF ok] by simp
  have e: "b_valid_update (\<lambda>_. True) ((bufs s ! b)\<lparr>b_dirty := False\<rparr>) = (bufs s ! b)\<lparr>b_dirty := False\<rparr>"
    using L(6) by (intro buf_eqI) simp_all
  have "iderw b (upd_buf b (b_dirty_update (\<lambda>_. True)) s) = Ok () (upd_buf b (b_valid_update (\<lambda>_. True))
      (disk_write n (view s n) (upd_buf b (b_dirty_update (\<lambda>_. False)) s)))"
    using b x L(2,4) unfolding L(5) by (simp add: iderw_def kseq_def upd_buf_def kmod_def)
  also have "\<dots> = Ok () (disk_write n (view s n) (s\<lparr>bufs := (bufs s)[b := (bufs s ! b)\<lparr>b_dirty := False\<rparr>]\<rparr>))"
    using b e by (simp add: upd_buf_def disk_write_def)
  finally show ?thesis using L(2) by (simp add: bwrite_def kseq_def)
qed

lemma bwrite_Ok:
  assumes ok: "bcache_ok s" and l: "locked s b = Some n" and run: "bwrite b s = Ok u t"
  shows "bcache_ok t" "view t = view s" "locked t = locked s" "pinned t = pinned s - {n}"
    "bio_frame s t" "memdisk t = (memdisk s)(n := view s n)" "disk_writes t = disk_writes s @ [(n, view s n)]"
proof -
  note L = locked_dev [OF ok l]
  let ?x = "(bufs s ! b)\<lparr>b_dirty := False\<rparr>"
  let ?s = "s\<lparr>bufs := (bufs s)[b := ?x]\<rparr>"
  have t: "t = disk_write n (view s n) ?s" using run bwrite_run [OF ok l] by simp
  have x: "b_sector ?x = n" "b_dev ?x = ROOTDEV" "b_valid ?x" "length (b_data ?x) = BSIZE"
    "\<not> b_dirty ?x \<and> \<not> b_busy ?x \<longrightarrow> b_data ?x = memdisk s n"
    using L bcache_okD(4) [OF ok L(1)] by (simp_all add: cached_def buf_ok_def)
  note U = bcache_ok_locked_update [OF ok l x]
  have lk: "locked ?s = locked s"
    using L l bcache_okD(1) [OF ok] by (subst locked_update) (auto simp: cached_def fun_upd_idem)
  have vs: "view ?s = view s" using U(2) L(5) by auto
  have l': "locked ?s b = Some n" using lk l by simp
  note L' = locked_dev [OF U(1) l']
  show ok': "bcache_ok t"
  proof -
    note D = bcache_okD [OF U(1)]
    have "buf_ok t (bufs t ! i)" if i: "i < NBUF" for i
    proof (cases "i = b")
      case True
      have "bufs ?s ! b = ?x" using L(1) bcache_okD(1) [OF ok] by simp
      with True show ?thesis using x(2-4) L(2,4) x(1) by (simp add: t buf_ok_def disk_write_def)
    next
      case False
      have "\<not> cached ROOTDEV n (bufs ?s ! i)" using bread_hit(5) [OF U(1) L'(1,3)] i False by simp
      then show ?thesis using D(4) [OF i] by (auto simp: t buf_ok_def disk_write_def cached_def)
    qed
    moreover have "length (view s n) = BSIZE" using bcache_okD(4) [OF ok L(1)] L(5) by (simp add: buf_ok_def)
    moreover have "bufs t = bufs ?s" "lru t = lru ?s" "disksize t = disksize ?s"
        "memdisk t = (memdisk ?s)(n := view s n)" by (simp_all add: t disk_write_def)
    ultimately show ?thesis using D unfolding bcache_ok_def by simp
  qed
  have fx: "find (cached ROOTDEV n) (bufs ?s) \<noteq> None"
    using find_some_exists [OF nth_mem, of b "bufs ?s" "cached ROOTDEV n"] L'(1,3) bcache_okD(1) [OF U(1)]
    by auto
  have v: "view t m = view ?s m" for m
  proof (cases "m = n")
    case True
    then show ?thesis using fx by (auto simp: view_def t disk_write_def split: option.splits)
  next
    case False
    then show ?thesis by (simp add: view_def t disk_write_def split: option.splits)
  qed
  show "view t = view s" using v vs by (simp add: fun_eq_iff)
  have bt: "bufs t = bufs ?s" by (simp add: t disk_write_def)
  have "locked t = locked ?s" unfolding locked_def bt ..
  then show "locked t = locked s" using lk by simp
  have "pinned t = pinned ?s" unfolding pinned_def bt ..
  then show "pinned t = pinned s - {n}" using U(3) by simp
  show "bio_frame s t" "memdisk t = (memdisk s)(n := view s n)" "disk_writes t = disk_writes s @ [(n, view s n)]"
    by (simp_all add: t bio_frame_def disk_write_def)
qed

lemma bio_views_cong:
  assumes "bufs t = bufs s" "memdisk t = memdisk s" "disksize t = disksize s"
  shows "view t = view s" "locked t = locked s" "pinned t = pinned s"
    "bcache_ok t \<longleftrightarrow> bcache_ok (s\<lparr>lru := lru t\<rparr>)"
proof -
  show "view t = view s"
  proof
    fix n show "view t n = view s n" unfolding view_def assms ..
  qed
qed (use assms in \<open>simp_all add: fun_eq_iff locked_def pinned_def bcache_ok_def buf_ok_def\<close>)

lemma bcache_ok_lru:
  "bcache_ok s \<Longrightarrow> distinct l \<Longrightarrow> set l = {..<NBUF} \<Longrightarrow> bcache_ok (s\<lparr>lru := l\<rparr>)"
  by (simp add: bcache_ok_def buf_ok_def)

lemma brelse_run:
  assumes ok: "bcache_ok s" and l: "locked s b = Some n" and run: "brelse b s = Ok u t"
  shows "t = s\<lparr>lru := b # remove1 b (lru s),
      bufs := (bufs s)[b := (bufs s ! b)\<lparr>b_busy := False\<rparr>],
      procs := map (wake (ChanBuf b)) (procs s)\<rparr>"
    "BcacheLock \<notin> set (held s)" "PtableLock \<notin> set (held s)"
proof -
  note L = locked_dev [OF ok l]
  show lk: "BcacheLock \<notin> set (held s)" using run L(2)
    by (auto simp: brelse_def kbind_eq_Ok acquire_def split: if_splits)
  show pt: "PtableLock \<notin> set (held s)"
  proof
    assume "PtableLock \<in> set (held s)"
    then show False using run L(2) lk
      by (auto simp: brelse_def kbind_eq_Ok upd_buf_def wakeup_def kseq_eq_Ok acquire_def split: if_splits)
  qed
  show "t = s\<lparr>lru := b # remove1 b (lru s),
      bufs := (bufs s)[b := (bufs s ! b)\<lparr>b_busy := False\<rparr>],
      procs := map (wake (ChanBuf b)) (procs s)\<rparr>"
    using run lk pt L(2) by (simp add: brelse_def upd_buf_def kmon_simps)
qed


lemma brelse_Ok:
  assumes ok: "bcache_ok s" and l: "locked s b = Some n" and run: "brelse b s = Ok u t"
    and safe: "n \<in> pinned s \<or> memdisk s n = view s n"
  shows "bcache_ok t" "view t = view s" "locked t = (locked s)(b := None)" "pinned t = pinned s"
    "bio_frame s t" "memdisk t = memdisk s" "disk_writes t = disk_writes s"
proof -
  note L = locked_dev [OF ok l] and R = brelse_run [OF ok l run]
  let ?x = "(bufs s ! b)\<lparr>b_busy := False\<rparr>"
  let ?s = "s\<lparr>bufs := (bufs s)[b := ?x]\<rparr>"
  have dirty: "b_dirty (bufs s ! b) \<longleftrightarrow> n \<in> pinned s" by (rule pinned_iff [OF ok L(1,3), symmetric])
  have sf: "n \<notin> pinned s \<longrightarrow> b_data (bufs s ! b) = memdisk s n" using safe L(5) by metis
  have x: "b_sector ?x = n" "b_dev ?x = ROOTDEV" "b_valid ?x" "length (b_data ?x) = BSIZE"
    "\<not> b_dirty ?x \<and> \<not> b_busy ?x \<longrightarrow> b_data ?x = memdisk s n"
    using L(1-4,6) bcache_okD(4) [OF ok L(1)] sf dirty
    by (simp_all add: cached_def buf_ok_def)
  note U = bcache_ok_locked_update [OF ok l x]
  have f: "bufs t = bufs ?s" "memdisk t = memdisk ?s" "disksize t = disksize ?s" "lru t = b # remove1 b (lru s)"
    unfolding R(1) by simp_all
  note C = bio_views_cong [OF f(1-3)]
  have lru: "distinct (b # remove1 b (lru s))" "set (b # remove1 b (lru s)) = {..<NBUF}"
    using bcache_okD(2,3) [OF ok] L(1) by auto
  show "bcache_ok t" unfolding C(4) f(4) by (rule bcache_ok_lru [OF U(1) lru])
  show "view t = view s" unfolding C U(2) using L(5) by (simp add: fun_eq_iff)
  show "pinned t = pinned s" unfolding C U(3) using dirty by auto
  show "locked t = (locked s)(b := None)" unfolding C
    using L(1) bcache_okD(1) [OF ok] by (subst locked_update) auto
  show "bio_frame s t" "memdisk t = memdisk s" "disk_writes t = disk_writes s"
    unfolding R(1) by (simp_all add: bio_frame_def)
qed

text \<open>No panic and no sleep: \<open>bread\<close> succeeds on a sector nobody has locked while fewer
  than \<open>NBUF\<close> buffers are locked or pinned.\<close>

lemma bread_total:
  assumes ok: "bcache_ok s" and n: "n < disksize s" and lk: "BcacheLock \<notin> set (held s)"
    and un: "n \<notin> ran (locked s)" and room: "\<exists>i < NBUF. recyclable (bufs s ! i)"
  shows "\<exists>b t. bread ROOTDEV n s = Ok b t"
proof -
  note D = bcache_okD [OF ok]
  have "\<exists>b u. bget ROOTDEV n s = Ok b u"
  proof (cases "find (\<lambda>i. cached ROOTDEV n (bufs s ! i)) (lru s)")
    case (Some i)
    have i: "cached ROOTDEV n (bufs s ! i)" "i < NBUF" using find_SomeD [OF Some] D(3) by simp_all
    then have "\<not> b_busy (bufs s ! i)" using not_locked [OF un] by blast
    then show ?thesis using lk Some by (simp add: bget_def kmon_simps ret_def upd_buf_def)
  next
    case None
    from room obtain i where i: "i < NBUF" "recyclable (bufs s ! i)" by blast
    then have "i \<in> set (rev (lru s))" using D(3) by simp
    then obtain j where "find (\<lambda>i. recyclable (bufs s ! i)) (rev (lru s)) = Some j"
      using find_some_exists [of i "rev (lru s)" "\<lambda>i. recyclable (bufs s ! i)"] i(2) by blast
    then show ?thesis using lk None by (simp add: bget_def kmon_simps ret_def upd_buf_def)
  qed
  then obtain b u where get: "bget ROOTDEV n s = Ok b u" by blast
  have "bread ROOTDEV n s = kbind (kwhen (\<not> b_valid (bufs u ! b)) (iderw b)) (\<lambda>_. ret b) u"
    using get by (simp add: bread_def kmon_simps)
  also have "\<dots> = Ok b (s\<lparr>bufs := (bufs s)[b := bread_buf s n b]\<rparr>)"
    using n unfolding bread_run [OF ok get] by simp
  finally show ?thesis by blast
qed

lemma brelse_total:
  assumes "locked s b = Some n" "BcacheLock \<notin> set (held s)" "PtableLock \<notin> set (held s)"
  shows "\<exists>t. brelse b s = Ok () t"
  using assms by (auto simp: brelse_def locked_def kmon_simps upd_buf_def split: if_splits)

section \<open>The contract of the cache\<close>

text \<open>
  What the log and the file system rely on: they lock a sector, read and change the
  contents they see, push it to the disk and unlock it.  Unlocking is only safe for a
  sector that is pinned or whose contents are on the disk; otherwise the change is lost
  when the buffer is recycled.
\<close>

locale block_cache =
  fixes rd :: "nat \<Rightarrow> ('s, nat) kmon" and wr rel :: "nat \<Rightarrow> ('s, unit) kmon"
    and upd :: "nat \<Rightarrow> (block \<Rightarrow> block) \<Rightarrow> ('s, unit) kmon"
    and ok :: "'s \<Rightarrow> bool" and lockd :: "'s \<Rightarrow> nat \<Rightarrow> nat option" and contents :: "'s \<Rightarrow> nat \<Rightarrow> block"
    and pins :: "'s \<Rightarrow> nat set" and disk :: "'s \<Rightarrow> nat \<Rightarrow> block" and frame :: "'s \<Rightarrow> 's \<Rightarrow> bool"
  assumes rd_law: "ok s \<Longrightarrow> rd n s = Ok b t \<Longrightarrow> ok t \<and> contents t = contents s \<and> lockd s b = None \<and>
      lockd t = (lockd s)(b \<mapsto> n) \<and> n \<notin> ran (lockd s) \<and> pins t = pins s \<and> disk t = disk s \<and> frame s t"
    and upd_law: "ok s \<Longrightarrow> lockd s b = Some n \<Longrightarrow> length (f (contents s n)) = BSIZE \<Longrightarrow> upd b f s = Ok () t \<Longrightarrow>
      ok t \<and> contents t = (contents s)(n := f (contents s n)) \<and> lockd t = lockd s \<and> pins t = pins s \<and>
      disk t = disk s \<and> frame s t"
    and wr_law: "ok s \<Longrightarrow> lockd s b = Some n \<Longrightarrow> wr b s = Ok () t \<Longrightarrow>
      ok t \<and> contents t = contents s \<and> lockd t = lockd s \<and> pins t = pins s - {n} \<and>
      disk t = (disk s)(n := contents s n) \<and> frame s t"
    and rel_law: "ok s \<Longrightarrow> lockd s b = Some n \<Longrightarrow> n \<in> pins s \<or> disk s n = contents s n \<Longrightarrow> rel b s = Ok () t \<Longrightarrow>
      ok t \<and> contents t = contents s \<and> lockd t = (lockd s)(b := None) \<and> pins t = pins s \<and>
      disk t = disk s \<and> frame s t"
    and frame_trans: "frame s t \<Longrightarrow> frame t u \<Longrightarrow> frame s u"
    and clean: "ok s \<Longrightarrow> n \<notin> pins s \<Longrightarrow> n \<notin> ran (lockd s) \<Longrightarrow> disk s n = contents s n"
begin

text \<open>Locking a sector and unlocking it changes nothing.\<close>

lemma read_release:
  assumes "ok s" "kbind (rd n) (\<lambda>b. kbind (rel b) (\<lambda>_. ret (f b))) s = Ok r t"
  shows "ok t \<and> contents t = contents s \<and> lockd t = lockd s \<and> pins t = pins s \<and> disk t = disk s \<and> frame s t"
proof -
  from assms(2) obtain b u where b: "rd n s = Ok b u" and r: "rel b u = Ok () t"
    by (auto simp: kbind_eq_Ok)
  note R = rd_law [OF assms(1) b]
  have "n \<in> pins u \<or> disk u n = contents u n" using clean [OF assms(1)] R by auto
  with R rel_law [of u b n t] r have S: "ok t \<and> contents t = contents u \<and> lockd t = (lockd u)(b := None) \<and>
    pins t = pins u \<and> disk t = disk u \<and> frame u t" by auto
  have "(lockd s)(b := None) = lockd s" using R by (metis fun_upd_triv)
  with R S show ?thesis using frame_trans [of s u t] by auto
qed

text \<open>Write-through of one sector: after lock, change, write and unlock the new contents
  are both seen and on the disk.\<close>

lemma write_through:
  assumes "ok s" "length (f (contents s n)) = BSIZE"
    and "kbind (rd n) (\<lambda>b. kbind (upd b f) (\<lambda>_. kbind (wr b) (\<lambda>_. rel b))) s = Ok r t"
  shows "ok t \<and> contents t = (contents s)(n := f (contents s n)) \<and> lockd t = lockd s \<and>
    pins t = pins s - {n} \<and> disk t = (disk s)(n := f (contents s n)) \<and> frame s t"
proof -
  from assms(3) obtain b u v w where b: "rd n s = Ok b u" and v: "upd b f u = Ok () v"
    and w: "wr b v = Ok () w" and r: "rel b w = Ok () t" by (auto simp: kbind_eq_Ok)
  note R = rd_law [OF assms(1) b]
  with upd_law [of u b n f v] v assms(2) have V: "ok v \<and> contents v = (contents s)(n := f (contents s n)) \<and>
    lockd v = lockd u \<and> pins v = pins s \<and> disk v = disk s \<and> frame u v" by auto
  with wr_law [of v b n w] w R have W: "ok w \<and> contents w = contents v \<and> lockd w = lockd u \<and>
    pins w = pins s - {n} \<and> disk w = (disk s)(n := f (contents s n)) \<and> frame v w" by auto
  with rel_law [of w b n t] r R V have T: "ok t \<and> contents t = contents w \<and>
    lockd t = (lockd w)(b := None) \<and> pins t = pins w \<and> disk t = disk w \<and> frame w t" by auto
  have "(lockd s)(b := None) = lockd s" using R by (metis fun_upd_triv)
  with R V W T show ?thesis using frame_trans by (metis fun_upd_upd)
qed

end


lemma clean_view:
  assumes ok: "bcache_ok s" and np: "n \<notin> pinned s" and nl: "n \<notin> ran (locked s)"
  shows "memdisk s n = view s n"
proof (cases "\<exists>i < NBUF. cached ROOTDEV n (bufs s ! i)")
  case True
  then obtain i where i: "i < NBUF" "cached ROOTDEV n (bufs s ! i)" by blast
  have "\<not> b_busy (bufs s ! i)" using not_locked [OF nl i] .
  moreover have "\<not> b_dirty (bufs s ! i)" using pinned_iff [OF ok i] np by simp
  ultimately show ?thesis using bcache_okD(4) [OF ok i(1)] view_cached [OF ok i] i(2)
    by (simp add: buf_ok_def cached_def)
next
  case False
  then show ?thesis using bcache_okD(1) [OF ok] by (metis view_uncached)
qed

interpretation bc: block_cache "bread ROOTDEV" bwrite brelse set_bdata bcache_ok locked view pinned memdisk bio_frame
proof
  fix s t u :: "'a bio_state_scheme" and n b f
  show "bcache_ok s \<Longrightarrow> bread ROOTDEV n s = Ok b t \<Longrightarrow> bcache_ok t \<and> view t = view s \<and> locked s b = None \<and>
      locked t = (locked s)(b \<mapsto> n) \<and> n \<notin> ran (locked s) \<and> pinned t = pinned s \<and> memdisk t = memdisk s \<and> bio_frame s t"
    using bread_post [of s n b t] bread_locked [of s n b t] by simp
  show "bcache_ok s \<Longrightarrow> locked s b = Some n \<Longrightarrow> length (f (view s n)) = BSIZE \<Longrightarrow> set_bdata b f s = Ok () t \<Longrightarrow>
      bcache_ok t \<and> view t = (view s)(n := f (view s n)) \<and> locked t = locked s \<and> pinned t = pinned s \<and>
      memdisk t = memdisk s \<and> bio_frame s t"
    using set_bdata_Ok [of s b n f "()" t] by simp
  show "bcache_ok s \<Longrightarrow> locked s b = Some n \<Longrightarrow> bwrite b s = Ok () t \<Longrightarrow>
      bcache_ok t \<and> view t = view s \<and> locked t = locked s \<and> pinned t = pinned s - {n} \<and>
      memdisk t = (memdisk s)(n := view s n) \<and> bio_frame s t"
    using bwrite_Ok [of s b n "()" t] by simp
  show "bcache_ok s \<Longrightarrow> locked s b = Some n \<Longrightarrow> n \<in> pinned s \<or> memdisk s n = view s n \<Longrightarrow> brelse b s = Ok () t \<Longrightarrow>
      bcache_ok t \<and> view t = view s \<and> locked t = (locked s)(b := None) \<and> pinned t = pinned s \<and>
      memdisk t = memdisk s \<and> bio_frame s t"
    using brelse_Ok [of s b n "()" t] by simp
  show "bio_frame s t \<Longrightarrow> bio_frame t u \<Longrightarrow> bio_frame s u" by (rule bio_frame_trans)
  show "bcache_ok s \<Longrightarrow> n \<notin> pinned s \<Longrightarrow> n \<notin> ran (locked s) \<Longrightarrow> memdisk s n = view s n" by (rule clean_view)
qed


section \<open>Initialisation\<close>

definition binit_inv :: "('z bio_state_scheme) \<Rightarrow> nat list \<Rightarrow> ('z bio_state_scheme) \<Rightarrow> bool" where
  "binit_inv s ks t \<longleftrightarrow> t = s\<lparr>bufs := bufs t, lru := rev ks\<rparr> \<and> length (bufs t) = NBUF \<and>
     (\<forall>i < NBUF. bufs t ! i = (if i \<in> set ks then (bufs s ! i)\<lparr>b_dev := NODEV\<rparr> else bufs s ! i))"

lemma binit_run:
  assumes "length (bufs s) = NBUF"
  shows "\<exists>t. binit s = Ok () t \<and> binit_inv s [0..<NBUF] t"
proof -
  let ?f = "\<lambda>b. kseq (kmod (upd_buf b (\<lambda>x. x\<lparr>b_dev := NODEV\<rparr>))) (kmod (\<lambda>s. s\<lparr>lru := b # lru s\<rparr>))"
  have "\<exists>t. kfor [0..<NBUF] ?f (s\<lparr>lru := []\<rparr>) = Ok () t \<and> binit_inv s [0..<NBUF] t"
  proof (rule kfor_total)
    show "binit_inv s [] (s\<lparr>lru := []\<rparr>)" using assms by (simp add: binit_inv_def)
    fix ks i rest a
    assume d: "[0..<NBUF] = ks @ i # rest" and I: "binit_inv s ks a"
    have mem: "i \<in> set [0..<NBUF]" unfolding d by simp
    have "distinct (ks @ i # rest)" by (metis d distinct_upt)
    then have i: "i < NBUF" "i \<notin> set ks" using mem by auto
    let ?b = "(upd_buf i (\<lambda>x. x\<lparr>b_dev := NODEV\<rparr>) a)\<lparr>lru := i # lru a\<rparr>"
    have a: "a = s\<lparr>bufs := bufs a, lru := rev ks\<rparr>" "length (bufs a) = NBUF"
      "\<And>j. j < NBUF \<Longrightarrow> bufs a ! j = (if j \<in> set ks then (bufs s ! j)\<lparr>b_dev := NODEV\<rparr> else bufs s ! j)"
      using I by (auto simp: binit_inv_def)
    have l: "lru a = rev ks" by (subst a(1)) simp
    have "?b = s\<lparr>bufs := (bufs a)[i := (bufs a ! i)\<lparr>b_dev := NODEV\<rparr>], lru := i # rev ks\<rparr>"
      unfolding l upd_buf_def by (subst a(1)) simp
    then have "binit_inv s (ks @ [i]) ?b" using a(2,3) i by (simp add: binit_inv_def nth_list_update)
    moreover have "?f i a = Ok () ?b" by (simp add: kseq_def kmod_def upd_buf_def)
    ultimately show "\<exists>b. ?f i a = Ok () b \<and> binit_inv s (ks @ [i]) b" by blast
  qed
  then show ?thesis by (simp add: binit_def kseq_def)
qed

lemma binit_ok:
  assumes bss: "bufs s = replicate NBUF empty_buf" and disk: "\<forall>n < disksize s. length (memdisk s n) = BSIZE"
  shows "\<exists>t. binit s = Ok () t \<and> bcache_ok t \<and> view t = memdisk s \<and> locked t = Map.empty \<and> pinned t = {} \<and>
    bio_frame s t \<and> memdisk t = memdisk s \<and> disk_writes t = disk_writes s"
proof -
  obtain t where run: "binit s = Ok () t" and I: "binit_inv s [0..<NBUF] t"
    using binit_run [of s] bss by auto
  have t: "t = s\<lparr>bufs := bufs t, lru := rev [0..<NBUF]\<rparr>" "length (bufs t) = NBUF"
    and B: "\<And>i. i < NBUF \<Longrightarrow> bufs t ! i = empty_buf\<lparr>b_dev := NODEV\<rparr>"
    using I bss by (simp_all add: binit_inv_def)
  have f: "memdisk t = memdisk s" "disksize t = disksize s" "disk_writes t = disk_writes s" "lru t = rev [0..<NBUF]" "procs t = procs s"
    by (subst t(1), simp)+
  have "bcache_ok t" using t(2) B disk f
    by (simp add: bcache_ok_def buf_ok_def empty_buf_def atLeast0LessThan)
  moreover have "view t n = memdisk s n" for n
    using t(2) B f(1) by (subst view_uncached) (auto simp: cached_def)
  moreover have "locked t = Map.empty" "pinned t = {}"
    using B by (auto simp: locked_def pinned_def empty_buf_def fun_eq_iff)
  moreover have "bio_frame s t" unfolding bio_frame_def f by (subst t(1)) simp
  ultimately show ?thesis using run f by (intro exI [of _ t]) (simp add: fun_eq_iff)
qed

section \<open>Effects on the cache, composed\<close>

text \<open>The disk after a sequence of sector writes.\<close>

definition apply_writes :: "(nat \<Rightarrow> block) \<Rightarrow> (nat \<times> block) list \<Rightarrow> nat \<Rightarrow> block" where
  "apply_writes d ws = fold (\<lambda>(n, b) d. d(n := b)) ws d"

lemma apply_writes_simps [simp]:
  "apply_writes d [] = d" "apply_writes d ((n, b) # ws) = apply_writes (d(n := b)) ws"
  "apply_writes d (ws @ vs) = apply_writes (apply_writes d ws) vs"
  by (simp_all add: apply_writes_def)

lemma apply_writes_other: "n \<notin> fst ` set ws \<Longrightarrow> apply_writes d ws n = d n"
  by (induction ws arbitrary: d) auto

text \<open>\<open>bio_to s t V L P ws\<close>: from \<open>s\<close> to \<open>t\<close> the sectors \<open>ws\<close> were written to the
  disk, and \<open>t\<close> has view \<open>V\<close>, locked buffers \<open>L\<close> and pinned sectors \<open>P\<close>.\<close>

definition bio_to :: "('z bio_state_scheme) \<Rightarrow> ('z bio_state_scheme) \<Rightarrow> (nat \<Rightarrow> block) \<Rightarrow> (nat \<Rightarrow> nat option) \<Rightarrow>
    nat set \<Rightarrow> (nat \<times> block) list \<Rightarrow> bool" where
  "bio_to s t V L P ws \<longleftrightarrow> bcache_ok t \<and> view t = V \<and> locked t = L \<and> pinned t = P \<and>
     memdisk t = apply_writes (memdisk s) ws \<and> disk_writes t = disk_writes s @ ws \<and> bio_frame s t"

lemma bio_to_refl: "bcache_ok s \<Longrightarrow> bio_to s s (view s) (locked s) (pinned s) []"
  by (simp add: bio_to_def)

lemma bio_to_trans:
  "bio_to s t V L P ws \<Longrightarrow> bio_to t u V' L' P' vs \<Longrightarrow> bio_to s u V' L' P' (ws @ vs)"
  unfolding bio_to_def using bio_frame_trans by auto

lemma bio_frame_fields:
  assumes "bio_frame s t"
  shows "held t = held s" "cur t = cur s" "disksize t = disksize s" "mem t = mem s" "freelist t = freelist s"
    "bio_state.more t = bio_state.more s"
proof -
  note t = assms [unfolded bio_frame_def]
  show "held t = held s" by (subst t) simp
  show "cur t = cur s" by (subst t) simp
  show "disksize t = disksize s" by (subst t) simp
  show "mem t = mem s" by (subst t) simp
  show "freelist t = freelist s" by (subst t) simp
  show "bio_state.more t = bio_state.more s" by (subst t) simp
qed

lemma bio_toD:
  assumes "bio_to s t V L P ws"
  shows "bcache_ok t" "view t = V" "locked t = L" "pinned t = P" "memdisk t = apply_writes (memdisk s) ws"
    "disk_writes t = disk_writes s @ ws" "bio_frame s t" "held t = held s" "disksize t = disksize s"
proof -
  show "bcache_ok t" "view t = V" "locked t = L" "pinned t = P" "memdisk t = apply_writes (memdisk s) ws"
    "disk_writes t = disk_writes s @ ws" and f: "bio_frame s t"
    using assms by (simp_all add: bio_to_def)
  show "held t = held s" "disksize t = disksize s" by (rule bio_frame_fields [OF f])+
qed

text \<open>The locks a routine of the cache takes are free.\<close>

definition calm :: "('z machine_scheme) \<Rightarrow> bool" where
  "calm s \<longleftrightarrow> BcacheLock \<notin> set (held s) \<and> PtableLock \<notin> set (held s)"

lemma calm_bio_to: "bio_to s t V L P ws \<Longrightarrow> calm t \<longleftrightarrow> calm s"
  by (simp add: calm_def bio_toD(8))

lemma finite_locked [simp]: "finite (dom (locked s))"
  by (rule finite_subset [of _ "{..<NBUF}"]) (auto simp: locked_def split: if_splits)

lemma finite_pinned [simp]: "finite (pinned s)"
  by (simp add: pinned_def setcompr_eq_image)

lemma recyclable_exists:
  assumes ok: "bcache_ok s" and room: "card (dom (locked s)) + card (pinned s) < NBUF"
  shows "\<exists>i < NBUF. recyclable (bufs s ! i)"
proof (rule ccontr)
  assume no: "\<not> (\<exists>i < NBUF. recyclable (bufs s ! i))"
  let ?D = "{i. i < NBUF \<and> b_dev (bufs s ! i) = ROOTDEV \<and> b_dirty (bufs s ! i)}"
  have "{..<NBUF} \<subseteq> dom (locked s) \<union> ?D"
  proof
    fix i assume "i \<in> {..<NBUF}"
    then have i: "i < NBUF" by simp
    with no have bd: "b_busy (bufs s ! i) \<or> b_dirty (bufs s ! i)" by (auto simp: recyclable_def)
    show "i \<in> dom (locked s) \<union> ?D"
    proof (cases "b_busy (bufs s ! i)")
      case True
      with i have "locked s i = Some (b_sector (bufs s ! i))" by (simp add: locked_def)
      then show ?thesis by auto
    next
      case False
      with bd bcache_okD(4) [OF ok i] i show ?thesis by (auto simp: buf_ok_def)
    qed
  qed
  then have "NBUF \<le> card (dom (locked s) \<union> ?D)" using card_mono [of "dom (locked s) \<union> ?D" "{..<NBUF}"] by simp
  also have "\<dots> \<le> card (dom (locked s)) + card ?D" by (rule card_Un_le)
  also have "card ?D = card ((\<lambda>i. b_sector (bufs s ! i)) ` ?D)"
    by (rule card_image [symmetric]) (auto intro!: inj_onI bcache_okD(5) [OF ok])
  also have "(\<lambda>i. b_sector (bufs s ! i)) ` ?D = pinned s" by (auto simp: pinned_def)
  finally show False using room by simp
qed

lemma bread_step:
  assumes "bcache_ok s" "calm s" "n < disksize s" "n \<notin> ran (locked s)"
    "card (dom (locked s)) + card (pinned s) < NBUF"
  shows "\<exists>b t. bread ROOTDEV n s = Ok b t \<and> b \<notin> dom (locked s) \<and>
    bio_to s t (view s) ((locked s)(b \<mapsto> n)) (pinned s) [] \<and> (n \<in> pinned s \<or> memdisk s n = view s n) \<and>
    b_data (bufs t ! b) = view s n"
proof -
  obtain b t where r: "bread ROOTDEV n s = Ok b t"
    using bread_total [OF assms(1,3) _ assms(4) recyclable_exists [OF assms(1,5)]] assms(2)
    by (auto simp: calm_def)
  note P = bread_post [OF assms(1) r] and L = bread_locked [OF assms(1) r]
  have "view t n = b_data (bufs t ! b)" using locked_dev(5) [OF P(1), of b n] L(2) by simp
  then show ?thesis using r P L clean_view [OF assms(1) _ assms(4)]
    by (intro exI [of _ b] exI [of _ t]) (auto simp: bio_to_def)
qed

lemma set_bdata_step:
  assumes "bcache_ok s" "locked s b = Some n" "length (f (view s n)) = BSIZE"
  shows "\<exists>t. set_bdata b f s = Ok () t \<and> bio_to s t ((view s)(n := f (view s n))) (locked s) (pinned s) []"
proof -
  obtain t where r: "set_bdata b f s = Ok () t" by (simp add: set_bdata_def kmod_def)
  show ?thesis using r set_bdata_Ok [OF assms(1,2) r assms(3)] by (auto simp: bio_to_def)
qed

lemma bwrite_step:
  assumes "bcache_ok s" "locked s b = Some n"
  shows "\<exists>t. bwrite b s = Ok () t \<and> bio_to s t (view s) (locked s) (pinned s - {n}) [(n, view s n)]"
proof -
  obtain t where r: "bwrite b s = Ok () t" using bwrite_run [OF assms] by simp
  show ?thesis using r bwrite_Ok [OF assms r] by (auto simp: bio_to_def)
qed

lemma brelse_step:
  assumes "bcache_ok s" "locked s b = Some n" "calm s" "n \<in> pinned s \<or> memdisk s n = view s n"
  shows "\<exists>t. brelse b s = Ok () t \<and> bio_to s t (view s) ((locked s)(b := None)) (pinned s) []"
proof -
  obtain t where r: "brelse b s = Ok () t" using brelse_total [OF assms(2)] assms(3) by (auto simp: calm_def)
  show ?thesis using r brelse_Ok [OF assms(1,2) r assms(4)] by (auto simp: bio_to_def)
qed

lemma get_bdata_locked:
  assumes "bcache_ok s" "locked s b = Some n"
  shows "kbind (get_bdata b) f s = f (view s n) s"
  using locked_dev(5) [OF assms] by (simp add: get_bdata_def)

lemma view_length:
  assumes "bcache_ok s" "n < disksize s"
  shows "length (view s n) = BSIZE"
proof (cases "\<exists>i < NBUF. cached ROOTDEV n (bufs s ! i)")
  case True
  then obtain i where i: "i < NBUF" "cached ROOTDEV n (bufs s ! i)" by blast
  then show ?thesis using view_cached [OF assms(1) i] bcache_okD(4) [OF assms(1) i(1)] by (simp add: buf_ok_def)
next
  case False
  then have "view s n = memdisk s n" using bcache_okD(1) [OF assms(1)] by (metis view_uncached)
  then show ?thesis using bcache_okD(6) [OF assms] by simp
qed

text \<open>Copying one locked sector to another, writing it through and unlocking both: the
  common tail of the two copy loops of the log.\<close>

lemma copy_tail:
  assumes ok: "bcache_ok s" and c: "calm s"
    and d: "locked s d = Some nd" and b: "locked s b = Some nb" and ne: "nd \<noteq> nb"
    and safe: "nb \<in> pinned s \<or> memdisk s nb = view s nb"
  shows "\<exists>t. kbind (get_bdata b) (\<lambda>src. kbind (set_bdata d (overlay 0 (subrange 0 BSIZE src))) (\<lambda>_.
      kbind (bwrite d) (\<lambda>_. kbind (brelse b) (\<lambda>_. brelse d)))) s = Ok () t \<and>
    bio_to s t ((view s)(nd := view s nb)) ((locked s)(b := None, d := None)) (pinned s - {nd}) [(nd, view s nb)]"
proof -
  have db: "d \<noteq> b" using d b ne by auto
  have len: "length (view s nb) = BSIZE" "length (view s nd) = BSIZE"
    using view_length [OF ok] locked_dev(4) [OF ok d] locked_dev(4) [OF ok b] by auto
  then have ov: "overlay 0 (subrange 0 BSIZE (view s nb)) (view s nd) = view s nb"
    using subrange_all [of "view s nb"] by simp
  obtain u where u: "set_bdata d (overlay 0 (subrange 0 BSIZE (view s nb))) s = Ok () u"
      "bio_to s u ((view s)(nd := view s nb)) (locked s) (pinned s) []"
    using set_bdata_step [OF ok d, of "overlay 0 (subrange 0 BSIZE (view s nb))"] ov len by auto
  note U = bio_toD [OF u(2)]
  obtain v where v: "bwrite d u = Ok () v"
      "bio_to u v (view u) (locked s) (pinned s - {nd}) [(nd, view s nb)]"
    using bwrite_step [OF U(1), of d nd] U d by auto
  note V = bio_toD [OF v(2)]
  obtain w where w: "brelse b v = Ok () w"
      "bio_to v w (view u) ((locked s)(b := None)) (pinned s - {nd}) []"
    using brelse_step [OF V(1), of b nb] V U b c safe ne calm_bio_to [OF v(2)] calm_bio_to [OF u(2)] by auto
  note W = bio_toD [OF w(2)]
  obtain t where t: "brelse d w = Ok () t"
      "bio_to w t (view u) ((locked s)(b := None, d := None)) (pinned s - {nd}) []"
    using brelse_step [OF W(1), of d nd] W V U d db c calm_bio_to [OF v(2)] calm_bio_to [OF u(2)]
      calm_bio_to [OF w(2)] by auto
  have "bio_to s t (view u) ((locked s)(b := None, d := None)) (pinned s - {nd}) [(nd, view s nb)]"
    using bio_to_trans [OF bio_to_trans [OF bio_to_trans [OF u(2) v(2)] w(2)] t(2)] by simp
  then show ?thesis using u v w t U(2) by (simp add: get_bdata_locked [OF ok b] kmon_simps)
qed

section \<open>A concrete state\<close>

text \<open>A freshly initialised cache over a disk of 20 empty sectors.\<close>

definition demo_bio :: bio_state where
  "demo_bio = \<lparr>held = [], cur = Some 0, mem = (\<lambda>_. 0), freelist = 0, use_lock = True, kend = 0, sym_data = 0, kpgdir = 0, cr3 = 0, tss_esp0 = 0,
     procs = [unused_proc\<lparr>p_state := RUNNING\<rparr>], nextpid = 1, initproc = None, sym_forkret = 0, sym_trapret = 0,
     memdisk = (\<lambda>_. replicate BSIZE 0), disksize = 20, disk_writes = [],
     bufs = replicate NBUF (empty_buf\<lparr>b_dev := NODEV\<rparr>), lru = [0..<NBUF]\<rparr>"

lemma demo_bio_ok:
  "bcache_ok demo_bio" "locked demo_bio = Map.empty" "pinned demo_bio = {}" "view demo_bio n = replicate BSIZE 0"
proof -
  have f: "bufs demo_bio = replicate NBUF (empty_buf\<lparr>b_dev := NODEV\<rparr>)" "lru demo_bio = [0..<NBUF]"
    "memdisk demo_bio = (\<lambda>_. replicate BSIZE 0)" by (simp_all add: demo_bio_def)
  show "bcache_ok demo_bio" unfolding bcache_ok_def f by (auto simp: buf_ok_def empty_buf_def)
  show "locked demo_bio = Map.empty" "pinned demo_bio = {}"
    unfolding locked_def pinned_def f by (auto simp: empty_buf_def fun_eq_iff)
  show "view demo_bio n = replicate BSIZE 0" unfolding view_uncached [of demo_bio n, OF _, unfolded f]
    using view_uncached [of demo_bio n] f by (simp add: cached_def empty_buf_def)
qed

section \<open>Properties\<close>

text \<open>\<open>bread\<close> returns a buffer that nobody had locked, locks it, and holds in it the current
  contents of the sector, from the cache or from the disk; every other sector reads as before,
  nothing is written, and the cache stays well formed.\<close>

theorem bread_contents:
  assumes "bcache_ok s" "bread ROOTDEV n s = Ok b t"
  shows "locked s b = None \<and> n \<notin> ran (locked s) \<and> locked t = (locked s)(b \<mapsto> n) \<and>
    b_data (bufs t ! b) = view s n \<and> view t = view s \<and> bcache_ok t \<and> disk_writes t = disk_writes s"
proof -
  note P = bread_post [OF assms] and L = bread_locked [OF assms]
  have "view t n = b_data (bufs t ! b)" using locked_dev(5) [OF P(1), of b n] L(2) by simp
  then show ?thesis using P L by auto
qed

text \<open>\<open>bread\<close> neither panics nor sleeps on a sector that nobody has locked, as long as fewer
  than \<open>NBUF\<close> buffers are locked or pinned.\<close>

theorem bread_returns:
  assumes "bcache_ok s" "calm s" "n < disksize s" "n \<notin> ran (locked s)"
    and "card (dom (locked s)) + card (pinned s) < NBUF"
  shows "\<exists>b t. bread ROOTDEV n s = Ok b t"
  using bread_step [OF assms] by blast

theorem bread_returns_witness: "\<exists>b t. bread ROOTDEV 7 demo_bio = Ok b t"
  by (rule bread_returns) (use demo_bio_ok in \<open>simp_all add: calm_def NBUF_def\<close>, simp_all add: demo_bio_def)

theorem bread_contents_witness:
  "\<exists>b t. bread ROOTDEV 7 demo_bio = Ok b t \<and> locked t b = Some 7 \<and> b_data (bufs t ! b) = replicate BSIZE 0"
proof -
  have "card (dom (locked demo_bio)) + card (pinned demo_bio) < NBUF" using demo_bio_ok by (simp add: NBUF_def)
  moreover have "calm demo_bio" "7 < disksize demo_bio" by (simp_all add: calm_def demo_bio_def)
  ultimately obtain b t where r: "bread ROOTDEV 7 demo_bio = Ok b t"
    using bread_step [OF demo_bio_ok(1), of 7] demo_bio_ok(2) by auto
  show ?thesis using bread_contents [OF demo_bio_ok(1) r] demo_bio_ok r by auto
qed

text \<open>C14: locking a sector, changing its contents, \<open>bwrite\<close> and \<open>brelse\<close> put the new contents on
  the disk and in the view, and leave no other sector changed and no buffer locked.\<close>

theorem bwrite_persists:
  assumes "bcache_ok s" "length (f (view s n)) = BSIZE"
    and "kbind (bread ROOTDEV n) (\<lambda>b. kbind (set_bdata b f) (\<lambda>_. kbind (bwrite b) (\<lambda>_. brelse b))) s = Ok u t"
  shows "view t = (view s)(n := f (view s n)) \<and> memdisk t = (memdisk s)(n := f (view s n)) \<and>
    locked t = locked s \<and> bcache_ok t"
  using bc.write_through [OF assms] by blast

theorem bwrite_persists_witness:
  "\<exists>t. kbind (bread ROOTDEV 7) (\<lambda>b. kbind (set_bdata b (\<lambda>_. replicate BSIZE 1)) (\<lambda>_. kbind (bwrite b) (\<lambda>_. brelse b))) demo_bio = Ok () t \<and>
     memdisk t 7 = replicate BSIZE 1"
proof -
  have "card (dom (locked demo_bio)) + card (pinned demo_bio) < NBUF" using demo_bio_ok by (simp add: NBUF_def)
  moreover have c: "calm demo_bio" "7 < disksize demo_bio" by (simp_all add: calm_def demo_bio_def)
  ultimately obtain b t where r: "bread ROOTDEV 7 demo_bio = Ok b t"
      and B: "bio_to demo_bio t (view demo_bio) ((locked demo_bio)(b \<mapsto> 7)) (pinned demo_bio) []"
    using bread_step [OF demo_bio_ok(1), of 7] demo_bio_ok(2) by auto
  note T = bio_toD [OF B]
  obtain u where u: "set_bdata b (\<lambda>_. replicate BSIZE 1) t = Ok () u"
      "bio_to t u ((view t)(7 := replicate BSIZE 1)) (locked t) (pinned t) []"
    using set_bdata_step [OF T(1), of b 7 "\<lambda>_. replicate BSIZE 1"] T(3) by auto
  note U = bio_toD [OF u(2)]
  obtain v where v: "bwrite b u = Ok () v" "bio_to u v (view u) (locked u) (pinned u - {7}) [(7, view u 7)]"
    using bwrite_step [OF U(1), of b 7] U(3) T(3) by auto
  note V = bio_toD [OF v(2)]
  obtain w where w: "brelse b v = Ok () w"
    using brelse_step [OF V(1), of b 7] V U T calm_bio_to [OF v(2)] calm_bio_to [OF u(2)] calm_bio_to [OF B] c(1) by auto
  have run: "kbind (bread ROOTDEV 7) (\<lambda>b. kbind (set_bdata b (\<lambda>_. replicate BSIZE 1)) (\<lambda>_. kbind (bwrite b) (\<lambda>_. brelse b))) demo_bio = Ok () w"
    using r u(1) v(1) w by (simp add: kbind_Ok)
  have "length (replicate BSIZE (1::byte)) = BSIZE" by simp
  then show ?thesis using bwrite_persists [OF demo_bio_ok(1) _ run] run by auto
qed

end
