(* ===== verification/Log.thy ===== *)
theory Log
  imports Bio
begin

text \<open>
  The redo log: \<open>log.c\<close>, with the superblock of \<open>fs.h\<close> it is located by.  The state
  \<open>struct log\<close> is the layer \<open>log_state\<close> of the kernel state; block numbers are natural
  numbers.  The header sector has the number of logged sectors in its first four bytes and
  the sector numbers after it, little endian.

  The first lemmas give the effect of each routine on the cache's view, on the pinned
  sectors and on the sequence of disk writes; then come the admission control of
  \<open>begin_op\<close>, the crash atomicity of \<open>commit\<close> and the correctness of recovery.
\<close>

definition MAXOPBLOCKS :: nat where "MAXOPBLOCKS = 10"
definition LOGSIZE :: nat where "LOGSIZE = MAXOPBLOCKS * 3"

section \<open>Superblock\<close>

record superblock =
  sb_size :: nat
  sb_nblocks :: nat
  sb_ninodes :: nat
  sb_nlog :: nat

definition dec_superblock :: "block \<Rightarrow> superblock" where
  "dec_superblock d = \<lparr>sb_size = get_le 4 0 d, sb_nblocks = get_le 4 4 d,
     sb_ninodes = get_le 4 8 d, sb_nlog = get_le 4 12 d\<rparr>"

definition readsb :: "nat \<Rightarrow> ('z bio_state_scheme, superblock) kmon" where
  "readsb dev = kbind (bread dev 1) (\<lambda>bp.
     kbind (get_bdata bp) (\<lambda>d.
     kbind (brelse bp) (\<lambda>_. ret (dec_superblock d))))"

section \<open>State and operations\<close>

record log_state = bio_state +
  lstart :: nat
  lsize :: nat
  outstanding :: int
  committing :: bool
  ldev :: nat
  lh_n :: int
  lh_sector :: "nat list"

text \<open>Access to \<open>log.lh.sector\<close>, an array of \<open>LOGSIZE\<close> entries.\<close>

definition lh_get :: "nat \<Rightarrow> ('z log_state_scheme, nat) kmon" where
  "lh_get i = kbind (kget lh_sector) (\<lambda>a. if i < length a then ret (a ! i)
     else kundef ''log.lh.sector'')"

definition lh_set :: "nat \<Rightarrow> nat \<Rightarrow> ('z log_state_scheme, unit) kmon" where
  "lh_set i v = kbind (kget lh_sector) (\<lambda>a. if i < length a then kmod (\<lambda>s. s\<lparr>lh_sector := a[i := v]\<rparr>)
     else kundef ''log.lh.sector'')"

definition install_one :: "nat \<Rightarrow> ('z log_state_scheme, unit) kmon" where
  "install_one tail =
     kbind (kget ldev) (\<lambda>dev.
     kbind (kget lstart) (\<lambda>start.
     kbind (bread dev (start + tail + 1)) (\<lambda>lbuf.
     kbind (lh_get tail) (\<lambda>dst.
     kbind (bread dev dst) (\<lambda>dbuf.
     kbind (get_bdata lbuf) (\<lambda>src.
     kbind (set_bdata dbuf (overlay 0 (subrange 0 BSIZE src))) (\<lambda>_.
     kbind (bwrite dbuf) (\<lambda>_.
     kbind (brelse lbuf) (\<lambda>_.
     brelse dbuf)))))))))"

definition install_trans :: "('z log_state_scheme, unit) kmon" where
  "install_trans = kbind (kget lh_n) (\<lambda>n. kfor [0..<nat n] install_one)"

definition read_head :: "('z log_state_scheme, unit) kmon" where
  "read_head =
     kbind (kget ldev) (\<lambda>dev.
     kbind (kget lstart) (\<lambda>start.
     kbind (bread dev start) (\<lambda>buf.
     kbind (get_bdata buf) (\<lambda>lh.
     kbind (kmod (\<lambda>s. s\<lparr>lh_n := s32 (get_le 4 0 lh)\<rparr>)) (\<lambda>_.
     kbind (kfor [0..<nat (s32 (get_le 4 0 lh))] (\<lambda>i. lh_set i (get_le 4 (4 + 4 * i) lh))) (\<lambda>_.
     brelse buf))))))"

definition write_head :: "('z log_state_scheme, unit) kmon" where
  "write_head =
     kbind (kget ldev) (\<lambda>dev.
     kbind (kget lstart) (\<lambda>start.
     kbind (bread dev start) (\<lambda>buf.
     kbind (kget lh_n) (\<lambda>n.
     kbind (set_bdata buf (put_le 4 0 (u32 n))) (\<lambda>_.
     kbind (kfor [0..<nat n] (\<lambda>i. kbind (lh_get i) (\<lambda>x. set_bdata buf (put_le 4 (4 + 4 * i) x)))) (\<lambda>_.
     kbind (bwrite buf) (\<lambda>_.
     brelse buf)))))))"

definition recover_from_log :: "('z log_state_scheme, unit) kmon" where
  "recover_from_log =
     kbind read_head (\<lambda>_.
     kbind install_trans (\<lambda>_.
     kbind (kmod (\<lambda>s. s\<lparr>lh_n := 0\<rparr>)) (\<lambda>_.
     write_head)))"

text \<open>\<open>sizeof(struct logheader)\<close> is \<open>4 + 4 * LOGSIZE\<close>.\<close>

definition initlog :: "('z log_state_scheme, unit) kmon" where
  "initlog =
     (if 4 + 4 * LOGSIZE \<ge> BSIZE then kpanic ''initlog: too big logheader''
      else kbind (readsb ROOTDEV) (\<lambda>sb.
           kbind (kmod (\<lambda>s. s\<lparr>lstart := u32 (int (sb_size sb) - int (sb_nlog sb))\<rparr>)) (\<lambda>_.
           kbind (kmod (\<lambda>s. s\<lparr>lsize := sb_nlog sb\<rparr>)) (\<lambda>_.
           kbind (kmod (\<lambda>s. s\<lparr>ldev := ROOTDEV\<rparr>)) (\<lambda>_.
           recover_from_log)))))"

text \<open>One iteration of the loop of \<open>begin_op\<close>; after a sleep the loop runs again.\<close>

definition begin_op :: "('z log_state_scheme, unit) kmon" where
  "begin_op =
     kbind (acquire LogLock) (\<lambda>_.
     kbind (kget committing) (\<lambda>c.
     if c then sleep ChanLog LogLock
     else kbind (kget (\<lambda>s. lh_n s + (outstanding s + 1) * int MAXOPBLOCKS)) (\<lambda>need.
       if need > int LOGSIZE then sleep ChanLog LogLock
       else kbind (kmod (\<lambda>s. s\<lparr>outstanding := outstanding s + 1\<rparr>)) (\<lambda>_.
            release LogLock))))"

definition write_log_one :: "nat \<Rightarrow> ('z log_state_scheme, unit) kmon" where
  "write_log_one tail =
     kbind (kget ldev) (\<lambda>dev.
     kbind (kget lstart) (\<lambda>start.
     kbind (bread dev (start + tail + 1)) (\<lambda>to.
     kbind (lh_get tail) (\<lambda>home.
     kbind (bread dev home) (\<lambda>from.
     kbind (get_bdata from) (\<lambda>src.
     kbind (set_bdata to (overlay 0 (subrange 0 BSIZE src))) (\<lambda>_.
     kbind (bwrite to) (\<lambda>_.
     kbind (brelse from) (\<lambda>_.
     brelse to)))))))))"

definition write_log :: "('z log_state_scheme, unit) kmon" where
  "write_log = kbind (kget lh_n) (\<lambda>n. kfor [0..<nat n] write_log_one)"

definition commit :: "('z log_state_scheme, unit) kmon" where
  "commit = kbind (kget lh_n) (\<lambda>n.
     if n > 0 then
       kbind write_log (\<lambda>_.
       kbind write_head (\<lambda>_.
       kbind install_trans (\<lambda>_.
       kbind (kmod (\<lambda>s. s\<lparr>lh_n := 0\<rparr>)) (\<lambda>_.
       write_head))))
     else ret ())"

definition end_op :: "('z log_state_scheme, unit) kmon" where
  "end_op =
     kbind (acquire LogLock) (\<lambda>_.
     kbind (kmod (\<lambda>s. s\<lparr>outstanding := outstanding s - 1\<rparr>)) (\<lambda>_.
     kbind (kget committing) (\<lambda>c.
     if c then kpanic ''log.committing''
     else kbind (kget (\<lambda>s. outstanding s = 0)) (\<lambda>last.
       kbind (if last then kmod (\<lambda>s. s\<lparr>committing := True\<rparr>) else wakeup ChanLog) (\<lambda>_.
       kbind (release LogLock) (\<lambda>_.
       if last then
         kbind commit (\<lambda>_.
         kbind (acquire LogLock) (\<lambda>_.
         kbind (kmod (\<lambda>s. s\<lparr>committing := False\<rparr>)) (\<lambda>_.
         kbind (wakeup ChanLog) (\<lambda>_.
         release LogLock))))
       else ret ()))))))"

text \<open>Log absorption: the index of the sector if it is logged already, else \<open>lh.n\<close>.\<close>

definition log_index :: "nat list \<Rightarrow> nat \<Rightarrow> nat \<Rightarrow> nat" where
  "log_index sec n x = (case find (\<lambda>i. sec ! i = x) [0..<n] of Some i \<Rightarrow> i | None \<Rightarrow> n)"

definition log_write :: "nat \<Rightarrow> ('z log_state_scheme, unit) kmon" where
  "log_write b =
     kbind (kget (\<lambda>s. lh_n s \<ge> int LOGSIZE \<or> lh_n s \<ge> int (lsize s) - 1)) (\<lambda>big.
     if big then kpanic ''too big a transaction''
     else kbind (kget outstanding) (\<lambda>out.
     if out < 1 then kpanic ''log_write outside of trans''
     else kbind (kget (\<lambda>s. b_sector (getbuf s b))) (\<lambda>sec.
          kbind (kget (\<lambda>s. log_index (lh_sector s) (nat (lh_n s)) sec)) (\<lambda>i.
          kbind (lh_set i sec) (\<lambda>_.
          kbind (kmod (\<lambda>s. if int i = lh_n s then s\<lparr>lh_n := lh_n s + 1\<rparr> else s)) (\<lambda>_.
          kmod (upd_buf b (\<lambda>x. x\<lparr>b_dirty := True\<rparr>))))))))"

section \<open>Effects of the log routines\<close>

definition logged :: "('z log_state_scheme) \<Rightarrow> nat list" where
  "logged s = take (nat (lh_n s)) (lh_sector s)"

text \<open>The in-memory log: well-formedness, and the sectors in the header are exactly the
  pinned ones.\<close>

definition log_wf :: "('z log_state_scheme) \<Rightarrow> bool" where
  "log_wf s \<longleftrightarrow> bcache_ok s \<and> ldev s = ROOTDEV \<and> length (lh_sector s) = LOGSIZE \<and>
     0 \<le> lh_n s \<and> lh_n s \<le> int LOGSIZE \<and> lh_n s < int (lsize s) \<and> lstart s + lsize s \<le> disksize s \<and>
     distinct (logged s) \<and> (\<forall>x \<in> set (logged s). x < lstart s \<and> x < 2 ^ 32)"

lemma log_wf_bcache: "log_wf s \<Longrightarrow> bcache_ok s"
  by (simp add: log_wf_def)

lemma log_frame:
  assumes "bio_frame s t"
  shows "lstart t = lstart s" "lsize t = lsize s" "outstanding t = outstanding s" "committing t = committing s"
    "ldev t = ldev s" "lh_n t = lh_n s" "lh_sector t = lh_sector s" "logged t = logged s"
    "log_state.more t = log_state.more s"
proof -
  note t = assms [unfolded bio_frame_def]
  show n: "lh_n t = lh_n s" by (subst t) simp
  show se: "lh_sector t = lh_sector s" by (subst t) simp
  show "lstart t = lstart s" by (subst t) simp
  show "lsize t = lsize s" by (subst t) simp
  show "outstanding t = outstanding s" by (subst t) simp
  show "committing t = committing s" by (subst t) simp
  show "ldev t = ldev s" by (subst t) simp
  show "logged t = logged s" unfolding logged_def n se ..
  show "log_state.more t = log_state.more s" by (subst t) simp
qed

lemma log_wf_frame: "log_wf s \<Longrightarrow> bio_to s t V L P ws \<Longrightarrow> log_wf t"
  using log_frame [OF bio_toD(7)] bio_toD(1,9) unfolding log_wf_def by metis

lemma logged_nth: "log_wf s \<Longrightarrow> i < nat (lh_n s) \<Longrightarrow> logged s ! i = lh_sector s ! i \<and> i < length (lh_sector s)"
  by (auto simp: logged_def log_wf_def)

lemma length_logged [simp]: "log_wf s \<Longrightarrow> length (logged s) = nat (lh_n s)"
  by (auto simp: logged_def log_wf_def)

lemma logged_mem: "log_wf s \<Longrightarrow> i < nat (lh_n s) \<Longrightarrow> logged s ! i \<in> set (logged s)"
  by simp

lemma logged_bounds:
  assumes "log_wf s" "i < nat (lh_n s)"
  shows "lstart s + i + 1 < disksize s" "logged s ! i < lstart s" "logged s ! i < disksize s"
proof -
  have a: "lh_n s < int (lsize s)" "lstart s + lsize s \<le> disksize s" using assms(1) by (simp_all add: log_wf_def)
  show l: "logged s ! i < lstart s" using assms(1) logged_mem [OF assms] unfolding log_wf_def by blast
  show "lstart s + i + 1 < disksize s" "logged s ! i < disksize s" using a l assms(2) by linarith+
qed

text \<open>Conditions under which the commit code never sleeps: nobody holds a log sector or a
  logged sector, and two more buffers can be had.\<close>

definition quiet :: "('z log_state_scheme) \<Rightarrow> bool" where
  "quiet s \<longleftrightarrow> calm s \<and> (\<forall>m \<in> ran (locked s). m < lstart s \<and> m \<notin> set (logged s)) \<and>
     card (dom (locked s)) + card (pinned s) + 2 \<le> NBUF"

lemma card_dom_upd: "b \<notin> dom m \<Longrightarrow> finite (dom m) \<Longrightarrow> card (dom (m(b \<mapsto> n))) = Suc (card (dom m))"
  by simp

lemma two_reads:
  assumes ok: "bcache_ok s" and c: "calm s" and ne: "x \<noteq> y"
    and x: "x < disksize s" "x \<notin> ran (locked s)" and y: "y < disksize s" "y \<notin> ran (locked s)"
    and room: "card (dom (locked s)) + card (pinned s) + 2 \<le> NBUF"
  shows "\<exists>b c t u. bread ROOTDEV x s = Ok b t \<and> bread ROOTDEV y t = Ok c u \<and> bio_frame s t \<and>
    b \<notin> dom (locked s) \<and> c \<notin> dom (locked s) \<and> b \<noteq> c \<and>
    bio_to s u (view s) ((locked s)(b \<mapsto> x, c \<mapsto> y)) (pinned s) [] \<and>
    (x \<in> pinned u \<or> memdisk u x = view u x) \<and> (y \<in> pinned u \<or> memdisk u y = view u y)"
proof -
  obtain b t where b: "bread ROOTDEV x s = Ok b t" "b \<notin> dom (locked s)"
      "bio_to s t (view s) ((locked s)(b \<mapsto> x)) (pinned s) []" "x \<in> pinned s \<or> memdisk s x = view s x"
    using bread_step [OF ok c x] room by auto
  note T = bio_toD [OF b(3)]
  have cd: "card (dom (locked t)) = Suc (card (dom (locked s)))" using T(3) b(2) by simp
  have ny: "y \<notin> ran (locked t)" using T(3) b(2) ne y(2) by (auto simp: ran_def split: if_splits)
  obtain d u where d: "bread ROOTDEV y t = Ok d u" "d \<notin> dom (locked t)"
      "bio_to t u (view t) ((locked t)(d \<mapsto> y)) (pinned t) []" "y \<in> pinned t \<or> memdisk t y = view t y"
    using bread_step [OF T(1) _ _ ny] T c cd room y calm_bio_to [OF b(3)] by auto
  note U = bio_toD [OF d(3)]
  have "bio_to s u (view s) ((locked s)(b \<mapsto> x, d \<mapsto> y)) (pinned s) []"
    using bio_to_trans [OF b(3) d(3)] T by simp
  moreover have "d \<notin> dom (locked s)" "b \<noteq> d" using d(2) T(3) by (auto split: if_splits)
  moreover have "x \<in> pinned u \<or> memdisk u x = view u x" "y \<in> pinned u \<or> memdisk u y = view u y"
    using b(4) d(4) T U by auto
  ultimately show ?thesis using b d T(7) by blast
qed

lemma quietD:
  assumes "quiet s"
  shows "calm s" "m \<in> ran (locked s) \<Longrightarrow> m < lstart s" "m \<in> set (logged s) \<Longrightarrow> m \<notin> ran (locked s)"
    "card (dom (locked s)) + card (pinned s) + 2 \<le> NBUF"
  using assms by (auto simp: quiet_def)

lemma write_log_one_run:
  assumes wf: "log_wf s" and q: "quiet s" and i: "i < nat (lh_n s)"
  shows "\<exists>t. write_log_one i s = Ok () t \<and>
    bio_to s t ((view s)(lstart s + i + 1 := view s (logged s ! i))) (locked s)
      (pinned s - {lstart s + i + 1}) [(lstart s + i + 1, view s (logged s ! i))]"
proof -
  let ?x = "lstart s + i + 1" and ?y = "logged s ! i"
  have ok: "bcache_ok s" "ldev s = ROOTDEV" using wf by (auto simp: log_wf_def)
  note sz = logged_bounds [OF wf i]
  have nx: "?x \<notin> ran (locked s)" "?y \<notin> ran (locked s)" "?x \<noteq> ?y"
    using quietD(2) [OF q, of ?x] quietD(3) [OF q logged_mem [OF wf i]] sz by auto
  obtain b d t u where r: "bread ROOTDEV ?x s = Ok b t" "bread ROOTDEV ?y t = Ok d u" "bio_frame s t"
      "b \<notin> dom (locked s)" "d \<notin> dom (locked s)" "b \<noteq> d"
      "bio_to s u (view s) ((locked s)(b \<mapsto> ?x, d \<mapsto> ?y)) (pinned s) []"
      "?y \<in> pinned u \<or> memdisk u ?y = view u ?y"
    using two_reads [OF ok(1) quietD(1) [OF q] nx(3) sz(1) nx(1) sz(3) nx(2) quietD(4) [OF q]] by blast
  note U = bio_toD [OF r(7)]
  have "locked u b = Some ?x" "locked u d = Some ?y" using U(3) r(6) by auto
  from copy_tail [OF U(1) _ this nx(3) r(8)] obtain v where v:
      "kbind (get_bdata d) (\<lambda>src. kbind (set_bdata b (overlay 0 (subrange 0 BSIZE src))) (\<lambda>_.
        kbind (bwrite b) (\<lambda>_. kbind (brelse d) (\<lambda>_. brelse b)))) u = Ok () v"
      "bio_to u v ((view s)(?x := view s ?y)) ((locked u)(d := None, b := None)) (pinned s - {?x}) [(?x, view s ?y)]"
    using calm_bio_to [OF r(7)] quietD(1) [OF q] U by auto
  have l: "(locked u)(d := None, b := None) = locked s" using U(3) r(4,5,6) by (auto simp: fun_eq_iff domIff)
  have "lh_sector t = lh_sector s" by (rule log_frame [OF r(3)])
  then have "write_log_one i s = Ok () v"
    using r(1,2) v(1) ok logged_nth [OF wf i]
    by (simp add: write_log_one_def lh_get_def kbind_Ok [of "bread _ _"])
  then show ?thesis using bio_to_trans [OF r(7) v(2)] l by auto
qed

lemma install_one_run:
  assumes wf: "log_wf s" and q: "quiet s" and i: "i < nat (lh_n s)"
  shows "\<exists>t. install_one i s = Ok () t \<and>
    bio_to s t ((view s)(logged s ! i := view s (lstart s + i + 1))) (locked s)
      (pinned s - {logged s ! i}) [(logged s ! i, view s (lstart s + i + 1))]"
proof -
  let ?x = "lstart s + i + 1" and ?y = "logged s ! i"
  have ok: "bcache_ok s" "ldev s = ROOTDEV" using wf by (auto simp: log_wf_def)
  note sz = logged_bounds [OF wf i]
  have nx: "?x \<notin> ran (locked s)" "?y \<notin> ran (locked s)" "?x \<noteq> ?y"
    using quietD(2) [OF q, of ?x] quietD(3) [OF q logged_mem [OF wf i]] sz by auto
  obtain b d t u where r: "bread ROOTDEV ?x s = Ok b t" "bread ROOTDEV ?y t = Ok d u" "bio_frame s t"
      "b \<notin> dom (locked s)" "d \<notin> dom (locked s)" "b \<noteq> d"
      "bio_to s u (view s) ((locked s)(b \<mapsto> ?x, d \<mapsto> ?y)) (pinned s) []"
      "?x \<in> pinned u \<or> memdisk u ?x = view u ?x"
    using two_reads [OF ok(1) quietD(1) [OF q] nx(3) sz(1) nx(1) sz(3) nx(2) quietD(4) [OF q]] by blast
  note U = bio_toD [OF r(7)]
  have "locked u d = Some ?y" "locked u b = Some ?x" using U(3) r(6) by auto
  from copy_tail [OF U(1) _ this nx(3) [symmetric] r(8)] obtain v where v:
      "kbind (get_bdata b) (\<lambda>src. kbind (set_bdata d (overlay 0 (subrange 0 BSIZE src))) (\<lambda>_.
        kbind (bwrite d) (\<lambda>_. kbind (brelse b) (\<lambda>_. brelse d)))) u = Ok () v"
      "bio_to u v ((view s)(?y := view s ?x)) ((locked u)(b := None, d := None)) (pinned s - {?y}) [(?y, view s ?x)]"
    using calm_bio_to [OF r(7)] quietD(1) [OF q] U by auto
  have l: "(locked u)(b := None, d := None) = locked s" using U(3) r(4,5,6) by (auto simp: fun_eq_iff domIff)
  have "lh_sector t = lh_sector s" by (rule log_frame [OF r(3)])
  then have "install_one i s = Ok () v"
    using r(1,2) v(1) ok logged_nth [OF wf i]
    by (simp add: install_one_def lh_get_def kbind_Ok [of "bread _ _"])
  then show ?thesis using bio_to_trans [OF r(7) v(2)] l by auto
qed


text \<open>Both copy loops, as a sequence of writes that is also the change of the view.\<close>

definition log_writes :: "('z log_state_scheme) \<Rightarrow> nat \<Rightarrow> (nat \<times> block) list" where
  "log_writes s k = map (\<lambda>i. (lstart s + i + 1, view s (logged s ! i))) [0..<k]"

definition home_writes :: "('z log_state_scheme) \<Rightarrow> nat \<Rightarrow> (nat \<times> block) list" where
  "home_writes s k = map (\<lambda>i. (logged s ! i, view s (lstart s + i + 1))) [0..<k]"

lemma upt_split:
  assumes "[0..<n] = done @ i # rest"
  shows "done = [0..<i]" "i < n"
proof -
  have "[0..<n] ! length done = i" unfolding assms by simp
  moreover have "length done < n" using arg_cong [OF assms, of length] by simp
  ultimately have l: "length done = i" by simp
  with \<open>length done < n\<close> show n: "i < n" by simp
  have "done = take i [0..<n]" using assms l by simp
  then show "done = [0..<i]" using n by (simp add: take_upt)
qed

lemma apply_writes_home: "m \<notin> set (logged s) \<Longrightarrow> k \<le> length (logged s) \<Longrightarrow> apply_writes V (home_writes s k) m = V m"
  by (rule apply_writes_other) (auto simp: home_writes_def)

lemma apply_writes_log:
  "m \<le> lstart s \<Longrightarrow> apply_writes V (log_writes s k) m = V m"
  by (rule apply_writes_other) (auto simp: log_writes_def)

lemma quiet_step:
  assumes "quiet s" "bio_to s t V (locked s) P ws" "P \<subseteq> pinned s"
  shows "quiet t"
proof -
  have "card (pinned t) \<le> card (pinned s)" using assms(3) bio_toD(4) [OF assms(2)] by (simp add: card_mono)
  then show ?thesis using assms(1) bio_toD(3) [OF assms(2)] calm_bio_to [OF assms(2)]
      log_frame [OF bio_toD(7) [OF assms(2)]] by (simp add: quiet_def)
qed

lemma write_log_run:
  assumes wf: "log_wf s" and q: "quiet s" and P: "\<forall>m \<in> pinned s. m < lstart s"
  shows "\<exists>t. write_log s = Ok () t \<and> bio_to s t (apply_writes (view s) (log_writes s (nat (lh_n s))))
     (locked s) (pinned s) (log_writes s (nat (lh_n s)))"
proof -
  let ?I = "\<lambda>ks a. bio_to s a (apply_writes (view s) (log_writes s (length ks))) (locked s) (pinned s)
      (log_writes s (length ks))"
  have "\<exists>t. kfor [0..<nat (lh_n s)] write_log_one s = Ok () t \<and> ?I [0..<nat (lh_n s)] t"
  proof (rule kfor_total)
    show "?I [] s" using bio_to_refl [OF log_wf_bcache [OF wf]] by (simp add: log_writes_def)
    fix ks i rest a assume d: "[0..<nat (lh_n s)] = ks @ i # rest" and I: "?I ks a"
    note ki = upt_split [OF d]
    note A = bio_toD [OF I] and F = log_frame [OF bio_toD(7) [OF I]]
    have i: "i < nat (lh_n a)" using ki F by simp
    have va: "view a (logged s ! i) = view s (logged s ! i)"
      using A(2) apply_writes_log [OF less_imp_le [OF logged_bounds(2) [OF wf ki(2)]]] by simp
    obtain b where b: "write_log_one i a = Ok () b"
      "bio_to a b ((view a)(lstart a + i + 1 := view a (logged a ! i))) (locked a)
        (pinned a - {lstart a + i + 1}) [(lstart a + i + 1, view a (logged a ! i))]"
      using write_log_one_run [OF log_wf_frame [OF wf I] quiet_step [OF q I order_refl] i] by blast
    have "pinned s - {lstart s + i + 1} = pinned s" using P by auto
    then have "?I (ks @ [i]) b" using bio_to_trans [OF I b(2)] A F va ki(1)
      by (simp add: log_writes_def)
    with b(1) show "\<exists>b. write_log_one i a = Ok () b \<and> ?I (ks @ [i]) b" by blast
  qed
  then show ?thesis by (simp add: write_log_def)
qed

lemma install_trans_run:
  assumes wf: "log_wf s" and q: "quiet s"
  shows "\<exists>t. install_trans s = Ok () t \<and> bio_to s t (apply_writes (view s) (home_writes s (nat (lh_n s))))
     (locked s) (pinned s - set (logged s)) (home_writes s (nat (lh_n s)))"
proof -
  let ?I = "\<lambda>ks a. bio_to s a (apply_writes (view s) (home_writes s (length ks))) (locked s)
      (pinned s - set (take (length ks) (logged s))) (home_writes s (length ks))"
  have "\<exists>t. kfor [0..<nat (lh_n s)] install_one s = Ok () t \<and> ?I [0..<nat (lh_n s)] t"
  proof (rule kfor_total)
    show "?I [] s" using bio_to_refl [OF log_wf_bcache [OF wf]] by (simp add: home_writes_def)
    fix ks i rest a assume d: "[0..<nat (lh_n s)] = ks @ i # rest" and I: "?I ks a"
    note ki = upt_split [OF d]
    note A = bio_toD [OF I] and F = log_frame [OF bio_toD(7) [OF I]]
    have i: "i < nat (lh_n a)" using ki F by simp
    have il: "i < length (logged s)" using ki length_logged [OF wf] by simp
    have "lstart s + i + 1 \<notin> set (logged s)" using wf unfolding log_wf_def by auto
    then have va: "view a (lstart s + i + 1) = view s (lstart s + i + 1)"
      using A(2) ki il apply_writes_home [of "lstart s + i + 1" s i] by simp
    obtain b where b: "install_one i a = Ok () b"
      "bio_to a b ((view a)(logged a ! i := view a (lstart a + i + 1))) (locked a)
        (pinned a - {logged a ! i}) [(logged a ! i, view a (lstart a + i + 1))]"
      using install_one_run [OF log_wf_frame [OF wf I] quiet_step [OF q I] i] by blast
    have "pinned s - set (take i (logged s)) - {logged s ! i} = pinned s - set (take (Suc i) (logged s))"
      using il by (auto simp: take_Suc_snoc)
    then have "?I (ks @ [i]) b" using bio_to_trans [OF I b(2)] A F va ki(1)
      by (simp add: home_writes_def)
    with b(1) show "\<exists>b. install_one i a = Ok () b \<and> ?I (ks @ [i]) b" by blast
  qed
  then show ?thesis using length_logged [OF wf] by (simp add: install_trans_def)
qed


subsection \<open>The header sector\<close>

definition enc_head :: "nat \<Rightarrow> nat list \<Rightarrow> block \<Rightarrow> block" where
  "enc_head k sec d = fold (\<lambda>i. put_le 4 (4 + 4 * i) (sec ! i)) [0..<k] (put_le 4 0 (length sec) d)"

lemma enc_head_0 [simp]: "enc_head 0 sec d = put_le 4 0 (length sec) d"
  by (simp add: enc_head_def)

lemma enc_head_Suc: "enc_head (Suc k) sec d = put_le 4 (4 + 4 * k) (sec ! k) (enc_head k sec d)"
  by (simp add: enc_head_def)

lemma length_enc_head: "length d = BSIZE \<Longrightarrow> k \<le> LOGSIZE \<Longrightarrow> length (enc_head k sec d) = BSIZE"
  by (induction k) (simp_all add: enc_head_Suc BSIZE_def LOGSIZE_def MAXOPBLOCKS_def)

lemma enc_head_count:
  "length d = BSIZE \<Longrightarrow> k \<le> LOGSIZE \<Longrightarrow> length sec \<le> LOGSIZE \<Longrightarrow> get_le 4 0 (enc_head k sec d) = length sec"
proof (induction k)
  case 0
  then show ?case by (simp add: byte_simps BSIZE_def LOGSIZE_def MAXOPBLOCKS_def)
next
  case (Suc k)
  then have "length (enc_head k sec d) = BSIZE" by (intro length_enc_head) auto
  with Suc show ?case
    by (simp add: enc_head_Suc get_put_other BSIZE_def LOGSIZE_def MAXOPBLOCKS_def)
qed

lemma enc_head_sector:
  "length d = BSIZE \<Longrightarrow> k \<le> LOGSIZE \<Longrightarrow> i < k \<Longrightarrow> sec ! i < 2 ^ 32 \<Longrightarrow> get_le 4 (4 + 4 * i) (enc_head k sec d) = sec ! i"
proof (induction k)
  case 0
  then show ?case by simp
next
  case (Suc k)
  then have l: "length (enc_head k sec d) = BSIZE" by (intro length_enc_head) auto
  have k: "k < 30" using Suc.prems by (simp add: LOGSIZE_def MAXOPBLOCKS_def)
  show ?case
  proof (cases "i = k")
    case True
    then show ?thesis using Suc.prems l k by (simp add: enc_head_Suc get_put_same BSIZE_def)
  next
    case False
    then have "get_le 4 (4 + 4 * i) (enc_head (Suc k) sec d) = get_le 4 (4 + 4 * i) (enc_head k sec d)"
      unfolding enc_head_Suc using l k Suc.prems(3) by (intro get_put_other) (auto simp: BSIZE_def)
    then show ?thesis using Suc False by simp
  qed
qed

lemma write_head_loop:
  assumes ok: "bcache_ok s" and l: "locked s b = Some n" and h: "lh_sector s = sec" "length sec = LOGSIZE"
    and k: "k \<le> LOGSIZE"
  shows "\<exists>t. kfor [0..<k] (\<lambda>i. kbind (lh_get i) (\<lambda>x. set_bdata b (put_le 4 (4 + 4 * i) x))) s = Ok () t \<and>
     bio_to s t ((view s)(n := fold (\<lambda>i. put_le 4 (4 + 4 * i) (sec ! i)) [0..<k] (view s n))) (locked s) (pinned s) []"
proof -
  let ?H = "\<lambda>ks. fold (\<lambda>i. put_le 4 (4 + 4 * i) (sec ! i)) ks (view s n)"
  let ?I = "\<lambda>ks a. bio_to s a ((view s)(n := ?H ks)) (locked s) (pinned s) [] \<and> length (?H ks) = BSIZE"
  let ?f = "\<lambda>i. kbind (lh_get i) (\<lambda>x. set_bdata b (put_le 4 (4 + 4 * i) x))"
  have "\<exists>t. kfor [0..<k] ?f s = Ok () t \<and> ?I [0..<k] t"
  proof (rule kfor_total)
    show "?I [] s" using bio_to_refl [OF ok] view_length [OF ok locked_dev(4) [OF ok l]] by simp
    fix ds i rest a assume d: "[0..<k] = ds @ i # rest" and I: "?I ds a"
    note A = bio_toD [OF conjunct1 [OF I]]
    have i: "i < LOGSIZE" "ds = [0..<i]" using upt_split [OF d] k by auto
    then have i30: "i < 30" by (simp add: LOGSIZE_def MAXOPBLOCKS_def)
    have len: "length (put_le 4 (4 + 4 * i) (sec ! i) (?H ds)) = BSIZE"
      using I i30 by (simp add: BSIZE_def)
    obtain c where c: "set_bdata b (put_le 4 (4 + 4 * i) (sec ! i)) a = Ok () c"
        "bio_to a c ((view s)(n := put_le 4 (4 + 4 * i) (sec ! i) (?H ds))) (locked s) (pinned s) []"
      using set_bdata_step [OF A(1), of b n "put_le 4 (4 + 4 * i) (sec ! i)"] A l len by auto
    have "lh_sector a = sec" using log_frame(7) [OF A(7)] h(1) by simp
    then have "?f i a = Ok () c" using c(1) i h(2) by (simp add: lh_get_def)
    moreover have "?I (ds @ [i]) c" using bio_to_trans [OF conjunct1 [OF I] c(2)] len by simp
    ultimately show "\<exists>c. ?f i a = Ok () c \<and> ?I (ds @ [i]) c" by blast
  qed
  then show ?thesis by blast
qed

definition head_of :: "('z log_state_scheme) \<Rightarrow> block" where
  "head_of s = enc_head (nat (lh_n s)) (logged s) (view s (lstart s))"

lemma enc_head_take:
  "k \<le> length sec \<Longrightarrow> enc_head k (take k sec) d = fold (\<lambda>i. put_le 4 (4 + 4 * i) (sec ! i)) [0..<k] (put_le 4 0 k d)"
  unfolding enc_head_def by (rule fold_cong) (simp_all add: min_def)

lemma write_head_run:
  assumes wf: "log_wf s" and q: "quiet s" and P: "\<forall>m \<in> pinned s. m < lstart s"
  shows "\<exists>t. write_head s = Ok () t \<and> bio_to s t ((view s)(lstart s := head_of s)) (locked s) (pinned s)
    [(lstart s, head_of s)]"
proof -
  let ?L = "lstart s" and ?k = "nat (lh_n s)"
  note ok = log_wf_bcache [OF wf]
  have k: "?k \<le> LOGSIZE" "length (lh_sector s) = LOGSIZE" "?L < disksize s" "ldev s = ROOTDEV" "0 \<le> lh_n s"
    using wf by (auto simp: log_wf_def)
  have u: "u32 (lh_n s) = ?k" using k by (simp add: u32_def LOGSIZE_def MAXOPBLOCKS_def)
  have nl: "?L \<notin> ran (locked s)" using quietD(2) [OF q, of ?L] by auto
  obtain b t where b: "bread ROOTDEV ?L s = Ok b t" "b \<notin> dom (locked s)"
      "bio_to s t (view s) ((locked s)(b \<mapsto> ?L)) (pinned s) []"
    using bread_step [OF ok quietD(1) [OF q] k(3) nl] quietD(4) [OF q] by auto
  note T = bio_toD [OF b(3)] and FT = log_frame [OF bio_toD(7) [OF b(3)]]
  have len: "length (view s ?L) = BSIZE" by (rule view_length [OF ok k(3)])
  obtain v where v: "set_bdata b (put_le 4 0 ?k) t = Ok () v"
      "bio_to t v ((view s)(?L := put_le 4 0 ?k (view s ?L))) (locked t) (pinned t) []"
    using set_bdata_step [OF T(1), of b ?L "put_le 4 0 ?k"] T len by (auto simp: BSIZE_def)
  note V = bio_toD [OF v(2)] and FV = log_frame [OF bio_toD(7) [OF v(2)]]
  have lv: "locked v b = Some ?L" using V T by simp
  have h: "fold (\<lambda>i. put_le 4 (4 + 4 * i) (lh_sector s ! i)) [0..<?k] (view v ?L) = head_of s"
    unfolding V(2) head_of_def logged_def using k by (simp add: enc_head_take)
  obtain w where w: "kfor [0..<?k] (\<lambda>i. kbind (lh_get i) (\<lambda>x. set_bdata b (put_le 4 (4 + 4 * i) x))) v = Ok () w"
      "bio_to v w ((view v)(?L := head_of s)) (locked v) (pinned v) []"
    using write_head_loop [OF V(1) lv, of "lh_sector s" ?k] FT FV k h by auto
  note W = bio_toD [OF w(2)]
  have lw: "locked w b = Some ?L" using W lv by simp
  obtain x where x: "bwrite b w = Ok () x"
      "bio_to w x (view w) (locked w) (pinned w - {?L}) [(?L, head_of s)]"
    using bwrite_step [OF W(1) lw] W by auto
  note X = bio_toD [OF x(2)]
  have cx: "calm x" using calm_bio_to [OF x(2)] calm_bio_to [OF w(2)] calm_bio_to [OF v(2)] calm_bio_to [OF b(3)]
      quietD(1) [OF q] by simp
  obtain y where y: "brelse b x = Ok () y" "bio_to x y (view x) ((locked x)(b := None)) (pinned x) []"
    using brelse_step [OF X(1) _ cx, of b ?L] X W lw by auto
  have L: "(locked x)(b := None) = locked s" using X W V T b(2) by (auto simp: domIff)
  have Pn: "pinned x = pinned s" using X W V T P by auto
  have "write_head s = Ok () y"
    using b v w x y k u FT FV by (simp add: write_head_def kbind_Ok [of "bread _ _"] kbind_Ok [of "set_bdata _ _"]
      kbind_Ok [of "kfor _ _"] kbind_Ok [of "bwrite _"])
  moreover have "bio_to s y ((view s)(?L := head_of s)) (locked s) (pinned s) [(?L, head_of s)]"
    using bio_to_trans [OF bio_to_trans [OF bio_to_trans [OF bio_to_trans [OF b(3) v(2)] w(2)] x(2)] y(2)] L Pn
      X W V by simp
  ultimately show ?thesis by blast
qed

section \<open>Commit\<close>

lemma lh_n_update [simp]:
  "view (s\<lparr>lh_n := x\<rparr>) = view s" "locked (s\<lparr>lh_n := x\<rparr>) = locked s" "pinned (s\<lparr>lh_n := x\<rparr>) = pinned s"
  "bcache_ok (s\<lparr>lh_n := x\<rparr>) = bcache_ok s" "calm (s\<lparr>lh_n := x\<rparr>) = calm s"
  using bio_views_cong [of "s\<lparr>lh_n := x\<rparr>" s] by (simp_all add: calm_def)

text \<open>The invariant between transactions' steps: the logged sectors are the pinned ones, and
  the header on the disk is empty.\<close>

definition log_ok :: "('z log_state_scheme) \<Rightarrow> bool" where
  "log_ok s \<longleftrightarrow> log_wf s \<and> pinned s = set (logged s) \<and> get_le 4 0 (memdisk s (lstart s)) = 0 \<and>
     memdisk s (lstart s) = view s (lstart s)"

lemma bio_to_lh_n:
  assumes "bio_to s t V L P ws"
  shows "bio_to (s\<lparr>lh_n := x\<rparr>) (t\<lparr>lh_n := x\<rparr>) V L P ws"
proof -
  note T = bio_toD [OF assms]
  have "bio_frame (s\<lparr>lh_n := x\<rparr>) (t\<lparr>lh_n := x\<rparr>)"
    using arg_cong [OF T(7) [unfolded bio_frame_def], of "\<lambda>t. t\<lparr>lh_n := x\<rparr>"] by (simp add: bio_frame_def)
  then show ?thesis using T by (simp add: bio_to_def)
qed

text \<open>Everything \<open>commit\<close> writes to the disk, in order.\<close>

definition commit_writes :: "('z log_state_scheme) \<Rightarrow> (nat \<times> block) list" where
  "commit_writes s = log_writes s (nat (lh_n s)) @ [(lstart s, head_of s)] @
     map (\<lambda>x. (x, view s x)) (logged s) @ [(lstart s, put_le 4 0 0 (head_of s))]"

lemma apply_log_writes:
  "i < k \<Longrightarrow> apply_writes V (log_writes s k) (lstart s + i + 1) = view s (logged s ! i)"
proof (induction k)
  case 0
  then show ?case by simp
next
  case (Suc k)
  then show ?case by (cases "i = k") (simp_all add: log_writes_def)
qed

lemma apply_map_writes:
  "apply_writes d (map (\<lambda>x. (x, f x)) xs) m = (if m \<in> set xs then f m else d m)"
  by (induction xs arbitrary: d) (auto simp: apply_writes_other)

lemma map_nth_upt: "n = length xs \<Longrightarrow> map (\<lambda>i. f (xs ! i)) [0..<n] = map f xs"
  by (rule nth_equalityI) simp_all

lemma commit_run:
  assumes L: "log_ok s" and q: "quiet s" and n: "0 < lh_n s"
  shows "\<exists>t. commit s = Ok () t \<and> bio_to (s\<lparr>lh_n := 0\<rparr>) t
     ((apply_writes (view s) (log_writes s (nat (lh_n s))))(lstart s := put_le 4 0 0 (head_of s)))
     (locked s) {} (commit_writes s)"
proof -
  let ?k = "nat (lh_n s)" and ?L = "lstart s"
  have wf: "log_wf s" and P: "pinned s = set (logged s)" using L by (auto simp: log_ok_def)
  have pl: "\<forall>m \<in> pinned s. m < ?L" using wf P by (auto simp: log_wf_def)
  obtain t where t: "write_log s = Ok () t"
      "bio_to s t (apply_writes (view s) (log_writes s ?k)) (locked s) (pinned s) (log_writes s ?k)"
    using write_log_run [OF wf q pl] by blast
  note T = bio_toD [OF t(2)] and FT = log_frame [OF bio_toD(7) [OF t(2)]]
  have wt: "log_wf t" "quiet t" using log_wf_frame [OF wf t(2)] quiet_step [OF q t(2)] by auto
  have ht: "head_of t = head_of s" using FT T(2) apply_writes_log [of ?L s] by (simp add: head_of_def)
  obtain u where u: "write_head t = Ok () u"
      "bio_to t u ((view t)(?L := head_of s)) (locked t) (pinned t) [(?L, head_of s)]"
    using write_head_run [OF wt] T FT pl ht by auto
  note U = bio_toD [OF u(2)] and FU = log_frame [OF bio_toD(7) [OF u(2)]]
  have wu: "log_wf u" "quiet u" using log_wf_frame [OF wt(1) u(2)] quiet_step [OF wt(2) u(2)] by auto
  obtain v where v: "install_trans u = Ok () v"
      "bio_to u v (apply_writes (view u) (home_writes u ?k)) (locked u) (pinned u - set (logged u)) (home_writes u ?k)"
    using install_trans_run [OF wu] FT FU by auto
  note V = bio_toD [OF v(2)] and FV = log_frame [OF bio_toD(7) [OF v(2)]]
  have ln: "length (logged s) = ?k" using length_logged [OF wf] .
  have hw: "home_writes u ?k = map (\<lambda>x. (x, view s x)) (logged s)"
  proof -
    have "home_writes u ?k = map (\<lambda>i. (\<lambda>x. (x, view s x)) (logged s ! i)) [0..<?k]"
      unfolding home_writes_def using U(2) T(2) FU FT apply_log_writes [of _ ?k "view s" s] by simp
    also have "\<dots> = map (\<lambda>x. (x, view s x)) (logged s)" using ln by (intro map_nth_upt) simp
    finally show ?thesis .
  qed
  have vv: "view v = view u"
  proof
    fix m
    have "view u m = view s m" if "m \<in> set (logged s)"
      using that pl P U(2) T(2) apply_writes_log [of m s] by (auto simp: less_imp_le)
    then show "view v m = view u m" unfolding V(2) hw apply_map_writes by auto
  qed
  have wv: "log_wf v" "quiet v" using log_wf_frame [OF wu(1) v(2)] quiet_step [OF wu(2) v(2)] U(3) V(3) by auto
  let ?w = "v\<lparr>lh_n := 0\<rparr>"
  have ww: "log_wf ?w" "quiet ?w" "pinned ?w = {}"
    using wv V P T(4) U(4) FU FT by (auto simp: log_wf_def quiet_def logged_def)
  have hd: "head_of ?w = put_le 4 0 0 (head_of s)"
    using FV FU FT vv U(2) by (simp add: head_of_def [of ?w] logged_def)
  obtain x where x: "write_head ?w = Ok () x"
      "bio_to ?w x ((view u)(?L := put_le 4 0 0 (head_of s))) (locked s) {} [(?L, put_le 4 0 0 (head_of s))]"
    using write_head_run [OF ww(1,2)] ww(3) hd vv FV FU FT V(3) U(3) T(3) by auto
  have "bio_to s v (view v) (locked s) (pinned v) (log_writes s ?k @ [(?L, head_of s)] @ home_writes u ?k)"
    using bio_to_trans [OF bio_to_trans [OF t(2) u(2)] v(2)] V U T by simp
  from bio_to_trans [OF bio_to_lh_n [OF this, of 0] x(2)]
  have "bio_to (s\<lparr>lh_n := 0\<rparr>) x ((view t)(?L := put_le 4 0 0 (head_of s))) (locked s) {} (commit_writes s)"
    using U(2) by (simp add: commit_writes_def hw)
  moreover have "commit s = Ok () x" using n t(1) u(1) v(1) x(1) by (simp add: commit_def kmon_simps)
  ultimately show ?thesis using T(2) by auto
qed


section \<open>Crashes\<close>

text \<open>The disk as recovery leaves it: the sectors named in the header at \<open>L\<close> are replaced by
  the log sectors after it.\<close>

definition head_sectors :: "nat \<Rightarrow> (nat \<Rightarrow> block) \<Rightarrow> nat list" where
  "head_sectors L d = map (\<lambda>i. get_le 4 (4 + 4 * i) (d L)) [0..<nat (s32 (get_le 4 0 (d L)))]"

definition recovered :: "nat \<Rightarrow> (nat \<Rightarrow> block) \<Rightarrow> nat \<Rightarrow> block" where
  "recovered L d = apply_writes d (map (\<lambda>i. (head_sectors L d ! i, d (L + i + 1))) [0..<length (head_sectors L d)])"

text \<open>The file system with the current transaction applied.\<close>

definition committed :: "('z log_state_scheme) \<Rightarrow> nat \<Rightarrow> block" where
  "committed s m = (if m \<in> set (logged s) then view s m else memdisk s m)"

lemma recovered_empty: "get_le 4 0 (d L) = 0 \<Longrightarrow> recovered L d = d"
  by (simp add: recovered_def head_sectors_def)

lemma head_of_facts:
  assumes "log_wf s"
  shows "get_le 4 0 (head_of s) = length (logged s)" "length (head_of s) = BSIZE"
    "i < length (logged s) \<Longrightarrow> get_le 4 (4 + 4 * i) (head_of s) = logged s ! i"
proof -
  have k: "nat (lh_n s) \<le> LOGSIZE" "lstart s < disksize s" and "\<forall>x \<in> set (logged s). x < 2 ^ 32"
    using assms by (auto simp: log_wf_def)
  then have b: "i < length (logged s) \<Longrightarrow> logged s ! i < 2 ^ 32" by simp
  note l = view_length [OF log_wf_bcache [OF assms] k(2)]
  show "get_le 4 0 (head_of s) = length (logged s)"
    using enc_head_count [OF l k(1), of "logged s"] length_logged [OF assms] k(1) by (simp add: head_of_def)
  show "length (head_of s) = BSIZE" using length_enc_head [OF l k(1)] by (simp add: head_of_def)
  show "i < length (logged s) \<Longrightarrow> get_le 4 (4 + 4 * i) (head_of s) = logged s ! i"
    using enc_head_sector [OF l k(1), of i "logged s"] length_logged [OF assms] b by (simp add: head_of_def)
qed

lemma recovered_full:
  assumes wf: "log_wf s" and h: "d (lstart s) = head_of s"
    and c: "\<And>i. i < length (logged s) \<Longrightarrow> d (lstart s + i + 1) = view s (logged s ! i)"
  shows "recovered (lstart s) d m = (if m \<in> set (logged s) then view s m else d m)"
proof -
  note F = head_of_facts [OF wf]
  have "length (logged s) \<le> 30" using wf length_logged [OF wf] by (auto simp: log_wf_def LOGSIZE_def MAXOPBLOCKS_def)
  then have n: "nat (s32 (get_le 4 0 (d (lstart s)))) = length (logged s)" using F(1) h by simp
  have hs: "head_sectors (lstart s) d = logged s"
    unfolding head_sectors_def n by (rule nth_equalityI) (simp_all add: h F(3))
  have "map (\<lambda>i. (logged s ! i, d (lstart s + i + 1))) [0..<length (logged s)] =
      map (\<lambda>i. (\<lambda>x. (x, view s x)) (logged s ! i)) [0..<length (logged s)]"
    using c by simp
  also have "\<dots> = map (\<lambda>x. (x, view s x)) (logged s)" by (rule map_nth_upt) simp
  finally show ?thesis unfolding recovered_def hs by (simp add: apply_map_writes)
qed

lemma log_writes_take: "k \<le> n \<Longrightarrow> take k (log_writes s n) = log_writes s k"
  by (simp add: log_writes_def take_map take_upt)

lemma length_log_writes [simp]: "length (log_writes s n) = n"
  by (simp add: log_writes_def)

lemma crash_before_head:
  assumes L: "log_ok s" and k: "k \<le> length (logged s)" and m: "m < lstart s"
  shows "recovered (lstart s) (apply_writes (memdisk s) (log_writes s k)) m = memdisk s m"
proof -
  have "get_le 4 0 (memdisk s (lstart s)) = 0" using L unfolding log_ok_def by blast
  then have "get_le 4 0 (apply_writes (memdisk s) (log_writes s k) (lstart s)) = 0"
    using apply_writes_log [of "lstart s" s] by simp
  then show ?thesis using m apply_writes_log [of m s] by (simp add: recovered_empty)
qed

lemma crash_after_head:
  assumes L: "log_ok s" and m: "m < lstart s" and ys: "set ys \<subseteq> set (logged s)"
  shows "recovered (lstart s) (apply_writes ((apply_writes (memdisk s) (log_writes s (length (logged s))))
    (lstart s := head_of s)) (map (\<lambda>x. (x, view s x)) ys)) m = committed s m"
proof -
  have wf: "log_wf s" using L by (simp add: log_ok_def)
  have lt: "\<And>x. x \<in> set ys \<Longrightarrow> x < lstart s" using wf ys by (auto simp: log_wf_def)
  let ?d = "apply_writes ((apply_writes (memdisk s) (log_writes s (length (logged s))))
    (lstart s := head_of s)) (map (\<lambda>x. (x, view s x)) ys)"
  have hi: "\<not> x < lstart s \<Longrightarrow> x \<notin> set ys" for x using lt by blast
  have h: "?d (lstart s) = head_of s" using hi [of "lstart s"] by (simp add: apply_map_writes)
  have c: "?d (lstart s + i + 1) = view s (logged s ! i)" if "i < length (logged s)" for i
    using hi [of "lstart s + i + 1"] apply_log_writes [OF that, of _ s] by (simp add: apply_map_writes)
  have "recovered (lstart s) ?d m = (if m \<in> set (logged s) then view s m else ?d m)"
    by (rule recovered_full [OF wf h c])
  then show ?thesis
    using ys m apply_writes_log [of m s] by (auto simp: apply_map_writes committed_def)
qed

text \<open>At whatever point \<open>commit\<close> is cut short, what recovery makes of the disk is, on every
  sector outside the log, either the disk from before the transaction or the disk with the
  whole transaction; the write of the header decides.\<close>

lemma commit_crash:
  assumes L: "log_ok s" and m: "m < lstart s"
  shows "recovered (lstart s) (apply_writes (memdisk s) (take k (commit_writes s))) m =
    (if k \<le> length (logged s) then memdisk s m else committed s m)"
proof -
  have wf: "log_wf s" using L by (simp add: log_ok_def)
  let ?n = "length (logged s)" and ?A = "log_writes s (length (logged s))"
    and ?B = "map (\<lambda>x. (x, view s x)) (logged s)"
  have n: "nat (lh_n s) = ?n" using length_logged [OF wf] by simp
  consider "k \<le> ?n" | "?n < k" "k \<le> ?n + 1 + ?n" | "?n + 1 + ?n < k" by linarith
  then show ?thesis
  proof cases
    case 1
    then show ?thesis using crash_before_head [OF L 1 m] by (simp add: commit_writes_def n log_writes_take)
  next
    case 2
    then have "take k (commit_writes s) = ?A @ [(lstart s, head_of s)] @
        map (\<lambda>x. (x, view s x)) (take (k - ?n - 1) (logged s))"
      by (simp add: commit_writes_def n take_map take_Cons')
    with 2 show ?thesis using crash_after_head [OF L m, of "take (k - ?n - 1) (logged s)"]
      by (simp add: set_take_subset)
  next
    case 3
    let ?d = "apply_writes ((apply_writes (memdisk s) ?A)(lstart s := head_of s)) ?B"
    have e: "apply_writes (memdisk s) (take k (commit_writes s)) = ?d(lstart s := put_le 4 0 0 (head_of s))"
      using 3 by (simp add: commit_writes_def n)
    have "get_le 4 0 (put_le 4 0 0 (head_of s)) = 0"
      using head_of_facts(2) [OF wf] by (simp add: get_put_same BSIZE_def)
    then have "recovered (lstart s) (?d(lstart s := put_le 4 0 0 (head_of s))) m = ?d m"
      using m by (subst recovered_empty) auto
    then show ?thesis using 3 m apply_writes_log [of m s] unfolding e
      by (auto simp: apply_map_writes committed_def)
  qed
qed

lemma committed_view:
  assumes "log_ok s" "m \<notin> ran (locked s)"
  shows "committed s m = view s m"
  using assms clean_view [of s m] by (auto simp: committed_def log_ok_def log_wf_def)

section \<open>begin, write, end\<close>

lemma begin_op_Ok:
  assumes "begin_op s = Ok u t"
  shows "t = s\<lparr>outstanding := outstanding s + 1\<rparr>" "\<not> committing s"
    "lh_n t + outstanding t * int MAXOPBLOCKS \<le> int LOGSIZE" "LogLock \<notin> set (held s)"
  using assms by (auto simp: begin_op_def kbind_eq_Ok acquire_def release_def split: if_splits)

lemma begin_op_waits:
  assumes "cur s = Some p" "p < length (procs s)" "held s = []"
    and "committing s \<or> int LOGSIZE < lh_n s + (outstanding s + 1) * int MAXOPBLOCKS"
  shows "\<exists>t. begin_op s = Block ChanLog t \<and> held t = [] \<and> p_state (procs t ! p) = SLEEPING"
proof -
  have "begin_op s = sleep ChanLog LogLock (s\<lparr>held := [LogLock]\<rparr>)"
    using assms(3,4) by (auto simp: begin_op_def kmon_simps)
  also have "\<dots> = Block ChanLog (s\<lparr>held := [], cur := None,
      procs := (procs s)[p := (procs s ! p)\<lparr>p_chan := Some ChanLog, p_state := SLEEPING\<rparr>]\<rparr>)"
    using assms(1-3) by (subst sleep_run [of _ p]) simp_all
  finally show ?thesis using assms(2) by simp
qed

lemma log_index_facts:
  "log_index sec n x = i \<Longrightarrow> n \<le> length sec \<Longrightarrow>
     i \<le> n \<and> (i < n \<longrightarrow> sec ! i = x) \<and> (i = n \<longleftrightarrow> x \<notin> set (take n sec))"
proof (cases "find (\<lambda>i. sec ! i = x) [0..<n]")
  case None
  assume "log_index sec n x = i" "n \<le> length sec"
  moreover have "log_index sec n x = n" using None by (simp add: log_index_def)
  moreover have "\<forall>i < n. sec ! i \<noteq> x" using None by (simp add: find_None_iff)
  ultimately show ?thesis by (auto simp: in_set_conv_nth)
next
  case (Some j)
  assume i: "log_index sec n x = i" "n \<le> length sec"
  have j: "sec ! j = x" "j < n" using find_SomeD [OF Some] by auto
  moreover have "x \<in> set (take n sec)" using j i(2) by (auto simp: in_set_conv_nth)
  ultimately show ?thesis using i Some by (simp add: log_index_def)
qed


text \<open>What the header becomes: unchanged if the sector is in it (absorption), else one longer.\<close>

lemma log_slot_update:
  assumes k: "k \<le> length sec" and i: "i = log_index sec k n" "i < length sec"
  shows "n \<in> set (take k sec) \<Longrightarrow> sec[i := n] = sec \<and> i < k"
    and "n \<notin> set (take k sec) \<Longrightarrow> i = k \<and> take (Suc k) (sec[i := n]) = take k sec @ [n]"
proof -
  note F = log_index_facts [OF i(1) [symmetric] k]
  show "n \<in> set (take k sec) \<Longrightarrow> sec[i := n] = sec \<and> i < k" using F by (auto simp: list_update_same_conv)
  assume "n \<notin> set (take k sec)"
  with F have "i = k" by blast
  then show "i = k \<and> take (Suc k) (sec[i := n]) = take k sec @ [n]"
    using i(2) by (simp add: take_Suc_snoc take_update_beyond)
qed

lemma log_write_run:
  assumes run: "log_write b s = Ok u t" and n: "b_sector (bufs s ! b) = n"
    and i: "i = log_index (lh_sector s) (nat (lh_n s)) n"
  shows "t = upd_buf b (\<lambda>x. x\<lparr>b_dirty := True\<rparr>) (s\<lparr>lh_sector := (lh_sector s)[i := n],
      lh_n := if int i = lh_n s then lh_n s + 1 else lh_n s\<rparr>)"
    "i < length (lh_sector s)" "lh_n s < int LOGSIZE" "lh_n s < int (lsize s) - 1" "0 < outstanding s"
proof -
  from run have g: "lh_n s < int LOGSIZE" "lh_n s < int (lsize s) - 1" "0 < outstanding s"
    and r: "kbind (lh_set i n) (\<lambda>_. kbind (kmod (\<lambda>s. if int i = lh_n s then s\<lparr>lh_n := lh_n s + 1\<rparr> else s)) (\<lambda>_.
          kmod (upd_buf b (\<lambda>x. x\<lparr>b_dirty := True\<rparr>)))) s = Ok u t"
    using n i by (simp_all add: log_write_def split: if_splits)
  show "lh_n s < int LOGSIZE" "lh_n s < int (lsize s) - 1" "0 < outstanding s" by fact+
  from r show i: "i < length (lh_sector s)" by (simp add: lh_set_def split: if_splits)
  from r i show "t = upd_buf b (\<lambda>x. x\<lparr>b_dirty := True\<rparr>) (s\<lparr>lh_sector := (lh_sector s)[i := n],
      lh_n := if int i = lh_n s then lh_n s + 1 else lh_n s\<rparr>)"
    by (simp add: lh_set_def upd_buf_def)
qed

lemma log_write_Ok:
  assumes wf: "log_wf s" and l: "locked s b = Some n" and n: "n < lstart s" "n < 2 ^ 32"
    and run: "log_write b s = Ok u t"
  shows "log_wf t" "set (logged t) = insert n (set (logged s))" "view t = view s" "locked t = locked s"
    "pinned t = insert n (pinned s)"
    "t = s\<lparr>bufs := bufs t, lh_n := lh_n t, lh_sector := lh_sector t\<rparr>"
    "lh_n t = (if n \<in> set (logged s) then lh_n s else lh_n s + 1)" "0 < outstanding s"
proof -
  note ok = log_wf_bcache [OF wf] and L = locked_dev [OF log_wf_bcache [OF wf] l]
  let ?k = "nat (lh_n s)" and ?sec = "lh_sector s"
  define i where "i = log_index ?sec ?k n"
  have sn: "b_sector (bufs s ! b) = n" using L(3) by (simp add: cached_def)
  note R = log_write_run [OF run sn i_def]
  have k: "?k \<le> length ?sec" "0 \<le> lh_n s" using wf by (auto simp: log_wf_def)
  note S = log_slot_update [OF k(1) i_def R(2)]
  let ?x = "(bufs s ! b)\<lparr>b_dirty := True\<rparr>"
  let ?s = "s\<lparr>bufs := (bufs s)[b := ?x]\<rparr>"
  have x: "b_sector ?x = n" "b_dev ?x = ROOTDEV" "b_valid ?x" "length (b_data ?x) = BSIZE"
    "\<not> b_dirty ?x \<and> \<not> b_busy ?x \<longrightarrow> b_data ?x = memdisk s n"
    using L bcache_okD(4) [OF ok L(1)] by (simp_all add: cached_def buf_ok_def)
  note U = bcache_ok_locked_update [OF ok l x]
  have t: "t = ?s\<lparr>lh_sector := ?sec[i := n], lh_n := if int i = lh_n s then lh_n s + 1 else lh_n s\<rparr>"
    using R(1) by (simp add: upd_buf_def)
  have C: "view t = view ?s" "locked t = locked ?s" "pinned t = pinned ?s" "bcache_ok t = bcache_ok ?s"
    using bio_views_cong [of t ?s] unfolding t by simp_all
  show "view t = view s" unfolding C U(2) using L(5) by (simp add: fun_eq_iff)
  show "pinned t = insert n (pinned s)" unfolding C U(3) by simp
  show "locked t = locked s" unfolding C
    using L(1,2) l bcache_okD(1) [OF ok] sn by (subst locked_update) (auto simp: fun_upd_idem)
  show "t = s\<lparr>bufs := bufs t, lh_n := lh_n t, lh_sector := lh_sector t\<rparr>" unfolding t by simp
  show "0 < outstanding s" by (rule R(5))
  have lt: "logged t = (if n \<in> set (logged s) then logged s else logged s @ [n])"
  proof (cases "n \<in> set (logged s)")
    case True
    then show ?thesis using S(1) by (auto simp: t logged_def)
  next
    case False
    then have "i = ?k" "take (Suc ?k) (?sec[i := n]) = logged s @ [n]" using S(2) by (auto simp: logged_def)
    then show ?thesis using False k(2) by (simp add: t logged_def nat_add_distrib)
  qed
  then show "set (logged t) = insert n (set (logged s))" by auto
  show lhn: "lh_n t = (if n \<in> set (logged s) then lh_n s else lh_n s + 1)"
    using S k(2) by (auto simp: t logged_def)
  have D: "distinct (logged s)" "\<forall>x \<in> set (logged s). x < lstart s \<and> x < 2 ^ 32" "ldev s = ROOTDEV"
    "length (lh_sector s) = LOGSIZE" "lstart s + lsize s \<le> disksize s" using wf by (auto simp: log_wf_def)
  have f: "ldev t = ldev s" "length (lh_sector t) = length (lh_sector s)" "lsize t = lsize s" "lstart t = lstart s"
    "disksize t = disksize s" by (simp_all add: t)
  show "log_wf t"
    unfolding log_wf_def f C lt lhn using U(1) D k(2) R(3,4) n by auto
qed

section \<open>Recovery\<close>

text \<open>A header a crash may leave: at most \<open>LOGSIZE\<close> distinct sectors outside the log, which
  fit the log area of \<open>nl\<close> sectors.\<close>

definition head_ok :: "nat \<Rightarrow> nat \<Rightarrow> (nat \<Rightarrow> block) \<Rightarrow> bool" where
  "head_ok L nl d \<longleftrightarrow> 0 \<le> s32 (get_le 4 0 (d L)) \<and> s32 (get_le 4 0 (d L)) \<le> int LOGSIZE \<and>
     s32 (get_le 4 0 (d L)) < int nl \<and> distinct (head_sectors L d) \<and> (\<forall>x \<in> set (head_sectors L d). x < L)"

definition boot_ok :: "('z log_state_scheme) \<Rightarrow> bool" where
  "boot_ok s \<longleftrightarrow> bcache_ok s \<and> calm s \<and> locked s = Map.empty \<and> pinned s = {} \<and> length (lh_sector s) = LOGSIZE"

lemma read_head_loop:
  assumes k: "k \<le> length (lh_sector s)"
  shows "\<exists>sec. kfor [0..<k] (\<lambda>i. lh_set i (f i)) s = Ok () (s\<lparr>lh_sector := sec\<rparr>) \<and>
    length sec = length (lh_sector s) \<and> take k sec = map f [0..<k]"
proof -
  let ?I = "\<lambda>ks a. \<exists>sec. a = s\<lparr>lh_sector := sec\<rparr> \<and> length sec = length (lh_sector s) \<and>
      take (length ks) sec = map f ks"
  have "\<exists>t. kfor [0..<k] (\<lambda>i. lh_set i (f i)) s = Ok () t \<and> ?I [0..<k] t"
  proof (rule kfor_total)
    show "?I [] s" by (rule exI [of _ "lh_sector s"]) simp
    fix ks i rest a assume d: "[0..<k] = ks @ i # rest" and I: "?I ks a"
    note ki = upt_split [OF d]
    obtain sec where sec: "a = s\<lparr>lh_sector := sec\<rparr>" "length sec = length (lh_sector s)" "take (length ks) sec = map f ks"
      using I by blast
    have i: "i < length sec" "length ks = i" using ki k sec(2) by auto
    have "take (length (ks @ [i])) (sec[i := f i]) = map f (ks @ [i])"
      using i sec(3) by (simp add: take_Suc_snoc take_update_beyond)
    then show "\<exists>b. lh_set i (f i) a = Ok () b \<and> ?I (ks @ [i]) b"
      using sec(1,2) i by (intro exI [of _ "s\<lparr>lh_sector := sec[i := f i]\<rparr>"]) (auto simp: lh_set_def)
  qed
  then show ?thesis by auto
qed

lemma lh_update [simp]:
  "view (s\<lparr>lh_n := x, lh_sector := y\<rparr>) = view s" "locked (s\<lparr>lh_n := x, lh_sector := y\<rparr>) = locked s"
  "pinned (s\<lparr>lh_n := x, lh_sector := y\<rparr>) = pinned s"
  "bcache_ok (s\<lparr>lh_n := x, lh_sector := y\<rparr>) = bcache_ok s" "calm (s\<lparr>lh_n := x, lh_sector := y\<rparr>) = calm s"
  using bio_views_cong [of "s\<lparr>lh_n := x, lh_sector := y\<rparr>" s] by (simp_all add: calm_def)

lemma bio_to_lh:
  assumes "bio_to s t V L P ws"
  shows "bio_to (s\<lparr>lh_n := x, lh_sector := y\<rparr>) (t\<lparr>lh_n := x, lh_sector := y\<rparr>) V L P ws"
proof -
  note T = bio_toD [OF assms]
  have "bio_frame (s\<lparr>lh_n := x, lh_sector := y\<rparr>) (t\<lparr>lh_n := x, lh_sector := y\<rparr>)"
    using arg_cong [OF T(7) [unfolded bio_frame_def], of "\<lambda>t. t\<lparr>lh_n := x, lh_sector := y\<rparr>"] by (simp add: bio_frame_def)
  then show ?thesis using T by (simp add: bio_to_def)
qed

lemma read_head_run:
  assumes b: "boot_ok s" and d: "ldev s = ROOTDEV" "lstart s < disksize s"
    and h: "head_ok (lstart s) nl (view s)"
  shows "\<exists>t sec. read_head s = Ok () t \<and> length sec = LOGSIZE \<and>
    take (length (head_sectors (lstart s) (view s))) sec = head_sectors (lstart s) (view s) \<and>
    bio_to (s\<lparr>lh_n := int (length (head_sectors (lstart s) (view s))), lh_sector := sec\<rparr>) t (view s) Map.empty {} []"
proof -
  let ?L = "lstart s" and ?H = "view s (lstart s)"
  let ?n = "s32 (get_le 4 0 ?H)" and ?f = "\<lambda>i. get_le 4 (4 + 4 * i) ?H"
  have ok: "bcache_ok s" "calm s" and lp: "locked s = Map.empty" "pinned s = {}" and len: "length (lh_sector s) = LOGSIZE"
    using b by (auto simp: boot_ok_def)
  have n: "0 \<le> ?n" "nat ?n \<le> LOGSIZE" "int (nat ?n) = ?n" using h by (auto simp: head_ok_def)
  have hl: "length (head_sectors ?L (view s)) = nat ?n" by (simp add: head_sectors_def)
  obtain c t where c: "bread ROOTDEV ?L s = Ok c t" "bio_to s t (view s) [c \<mapsto> ?L] {} []"
      "memdisk s ?L = view s ?L" "b_data (bufs t ! c) = view s ?L"
    using bread_step [OF ok d(2)] lp by (auto simp: NBUF_def)
  note F = log_frame [OF bio_toD(7) [OF c(2)]]
  let ?t = "t\<lparr>lh_n := ?n\<rparr>"
  obtain sec where sec: "kfor [0..<nat ?n] (\<lambda>i. lh_set i (?f i)) ?t = Ok () (?t\<lparr>lh_sector := sec\<rparr>)"
      "length sec = LOGSIZE" "take (nat ?n) sec = map ?f [0..<nat ?n]"
    using read_head_loop [of "nat ?n" ?t ?f] n F(7) len by auto
  have U: "bio_to (s\<lparr>lh_n := ?n, lh_sector := sec\<rparr>) (t\<lparr>lh_n := ?n, lh_sector := sec\<rparr>) (view s) [c \<mapsto> ?L] {} []"
    by (rule bio_to_lh [OF c(2)])
  note B = bio_toD [OF U]
  obtain v where v: "brelse c (t\<lparr>lh_n := ?n, lh_sector := sec\<rparr>) = Ok () v"
      "bio_to (t\<lparr>lh_n := ?n, lh_sector := sec\<rparr>) v (view s) Map.empty {} []"
    using brelse_step [OF B(1), of c ?L] B c(3) ok(2) calm_bio_to [OF c(2)] by auto
  have "read_head s = Ok () v"
    using c d sec(1) v(1) F by (simp add: read_head_def get_bdata_def kmon_simps)
  moreover have "bio_to (s\<lparr>lh_n := int (length (head_sectors ?L (view s))), lh_sector := sec\<rparr>) v (view s) Map.empty {} []"
    using bio_to_trans [OF U v(2)] n(3) hl by simp
  ultimately show ?thesis using sec(2,3) hl by (auto simp: head_sectors_def)
qed

lemma recover_run:
  assumes b: "boot_ok s" and d: "ldev s = ROOTDEV" "lstart s + lsize s \<le> disksize s"
    and h: "head_ok (lstart s) (lsize s) (memdisk s)"
  shows "\<exists>t. recover_from_log s = Ok () t \<and> log_ok t \<and> lh_n t = 0 \<and> locked t = Map.empty \<and>
    (\<forall>m < lstart s. view t m = recovered (lstart s) (memdisk s) m) \<and> lstart t = lstart s \<and> lsize t = lsize s"
proof -
  let ?L = "lstart s" and ?hs = "head_sectors (lstart s) (memdisk s)"
  have ok: "bcache_ok s" "calm s" and lp: "locked s = Map.empty" "pinned s = {}" using b by (auto simp: boot_ok_def)
  have vs: "view s = memdisk s" using clean_view [OF ok(1)] lp by (auto simp: fun_eq_iff)
  have n: "int (length ?hs) \<le> int LOGSIZE" "int (length ?hs) < int (lsize s)"
    using h by (auto simp: head_ok_def head_sectors_def)
  have Lb: "?L < disksize s" using n d(2) by linarith
  obtain t sec where t: "read_head s = Ok () t" "length sec = LOGSIZE" "take (length ?hs) sec = ?hs"
      "bio_to (s\<lparr>lh_n := int (length ?hs), lh_sector := sec\<rparr>) t (memdisk s) Map.empty {} []"
    using read_head_run [OF b d(1) Lb, of "lsize s"] h vs by auto
  note T = bio_toD [OF t(4)] and FT = log_frame [OF bio_toD(7) [OF t(4)]]
  have lt: "logged t = ?hs" using FT t(3) by (simp add: logged_def)
  have lim: "x \<in> set ?hs \<Longrightarrow> x < 2 ^ 32" for x
    using get_le_less [of 4] by (auto simp: head_sectors_def)
  have wt: "log_wf t"
    unfolding log_wf_def lt using T FT t(2) d n h lim by (auto simp: head_ok_def)
  have qt: "quiet t" using T ok(2) by (auto simp: quiet_def NBUF_def calm_def)
  obtain u where u: "install_trans t = Ok () u"
      "bio_to t u (apply_writes (view t) (home_writes t (length ?hs))) Map.empty {} (home_writes t (length ?hs))"
    using install_trans_run [OF wt qt] T FT by auto
  note U = bio_toD [OF u(2)] and FU = log_frame [OF bio_toD(7) [OF u(2)]]
  let ?w = "u\<lparr>lh_n := 0\<rparr>"
  have ww: "log_wf ?w" "quiet ?w" using log_wf_frame [OF wt u(2)] quiet_step [OF qt, of u _ "{}"] u(2) T U
    by (auto simp: log_wf_def quiet_def logged_def NBUF_def)
  obtain x where x: "write_head ?w = Ok () x"
      "bio_to ?w x ((view u)(?L := head_of ?w)) Map.empty {} [(?L, head_of ?w)]"
    using write_head_run [OF ww] U FU FT by auto
  note X = bio_toD [OF x(2)] and FX = log_frame [OF bio_toD(7) [OF x(2)]]
  have "recover_from_log s = Ok () x" using t(1) u(1) x(1) by (simp add: recover_from_log_def kmon_simps)
  moreover have "log_ok x"
  proof -
    have "get_le 4 0 (head_of ?w) = 0" using head_of_facts(1) [OF ww(1)] by (simp add: logged_def)
    moreover have "log_wf x" by (rule log_wf_frame [OF ww(1) x(2)])
    ultimately show ?thesis using X FX FU FT U by (simp add: log_ok_def logged_def)
  qed
  moreover have "view x m = recovered ?L (memdisk s) m" if "m < ?L" for m
    using that X(2) U(2) T(2) FT lt by (simp add: recovered_def home_writes_def)
  ultimately show ?thesis using X FX FU FT by auto
qed

section \<open>The end of an operation\<close>

lemma log_fields_update [simp]:
  "view (s\<lparr>outstanding := x\<rparr>) = view s" "locked (s\<lparr>outstanding := x\<rparr>) = locked s"
  "pinned (s\<lparr>outstanding := x\<rparr>) = pinned s" "bcache_ok (s\<lparr>outstanding := x\<rparr>) = bcache_ok s"
  "view (s\<lparr>committing := c\<rparr>) = view s" "locked (s\<lparr>committing := c\<rparr>) = locked s"
  "pinned (s\<lparr>committing := c\<rparr>) = pinned s" "bcache_ok (s\<lparr>committing := c\<rparr>) = bcache_ok s"
  using bio_views_cong [of "s\<lparr>outstanding := x\<rparr>" s] bio_views_cong [of "s\<lparr>committing := c\<rparr>" s] by simp_all

lemma held_procs_update [simp]:
  "view (s\<lparr>held := h\<rparr>) = view s" "locked (s\<lparr>held := h\<rparr>) = locked s"
  "pinned (s\<lparr>held := h\<rparr>) = pinned s" "bcache_ok (s\<lparr>held := h\<rparr>) = bcache_ok s"
  "view (s\<lparr>procs := p\<rparr>) = view s" "locked (s\<lparr>procs := p\<rparr>) = locked s"
  "pinned (s\<lparr>procs := p\<rparr>) = pinned s" "bcache_ok (s\<lparr>procs := p\<rparr>) = bcache_ok s"
  using bio_views_cong [of "s\<lparr>held := h\<rparr>" s] bio_views_cong [of "s\<lparr>procs := p\<rparr>" s] by simp_all

lemma log_ok_cong:
  assumes "bufs t = bufs s" "memdisk t = memdisk s" "disksize t = disksize s" "lru t = lru s"
    "lstart t = lstart s" "lsize t = lsize s" "ldev t = ldev s" "lh_n t = lh_n s" "lh_sector t = lh_sector s"
  shows "log_wf t = log_wf s" "log_ok t = log_ok s" "logged t = logged s"
proof -
  note C = bio_views_cong [OF assms(1-3)]
  have ok: "bcache_ok t = bcache_ok s" unfolding C(4) assms(4) by simp
  show l: "logged t = logged s" unfolding logged_def assms ..
  show w: "log_wf t = log_wf s" unfolding log_wf_def ok l assms ..
  show "log_ok t = log_ok s" unfolding log_ok_def w l C(1-3) assms ..
qed

text \<open>With other operations outstanding, \<open>end_op\<close> only gives its reservation back and wakes
  waiters.\<close>

lemma end_op_not_last:
  assumes "calm s" "LogLock \<notin> set (held s)" "\<not> committing s" "outstanding s \<noteq> 1"
  shows "end_op s = Ok () (s\<lparr>outstanding := outstanding s - 1, procs := map (wake ChanLog) (procs s)\<rparr>)"
  using assms by (simp add: end_op_def calm_def kbind_Ok [of "acquire _"] kbind_Ok [of "wakeup _"] kbind_Ok [of "release _"]
      ret_def)

lemma end_op_last:
  assumes "calm s" "LogLock \<notin> set (held s)" "\<not> committing s" "outstanding s = 1"
    and c: "commit (s\<lparr>outstanding := 0, committing := True\<rparr>) = Ok () t" and h: "held t = held s"
  shows "end_op s = Ok () (t\<lparr>committing := False, procs := map (wake ChanLog) (procs t)\<rparr>)"
proof -
  let ?s = "s\<lparr>outstanding := 0, committing := True\<rparr>"
  have t: "calm t" "LogLock \<notin> set (held t)" using assms(1,2) h by (simp_all add: calm_def)
  have "end_op s = kbind commit (\<lambda>_. kbind (acquire LogLock) (\<lambda>_.
         kbind (kmod (\<lambda>s. s\<lparr>committing := False\<rparr>)) (\<lambda>_. kbind (wakeup ChanLog) (\<lambda>_. release LogLock)))) ?s"
    using assms(1-4) by (simp add: end_op_def calm_def kbind_Ok [of "acquire _"] kbind_Ok [of "release _"])
  also have "\<dots> = Ok () (t\<lparr>committing := False, procs := map (wake ChanLog) (procs t)\<rparr>)"
    using c t by (simp add: calm_def kmon_simps)
  finally show ?thesis .
qed

text \<open>The whole effect of the last \<open>end_op\<close> of a transaction: the transaction is on the disk,
  the file system still looks the same, and the log is empty again.\<close>

lemma end_op_commits:
  assumes L: "log_ok s" and q: "quiet s" and e: "LogLock \<notin> set (held s)" "\<not> committing s" "outstanding s = 1"
  shows "\<exists>t. end_op s = Ok () t \<and> log_ok t \<and> logged t = [] \<and> outstanding t = 0 \<and> \<not> committing t \<and>
    (\<forall>m < lstart s. view t m = view s m) \<and> locked t = locked s \<and> lstart t = lstart s \<and>
    memdisk t = apply_writes (memdisk s) (if lh_n s = 0 then [] else commit_writes s) \<and>
    (\<forall>m < lstart s. m \<notin> ran (locked s) \<longrightarrow> memdisk t m = view s m)"
proof -
  let ?s = "s\<lparr>outstanding := 0, committing := True\<rparr>"
  have C: "log_ok ?s" "quiet ?s" "log_wf s" using L q log_ok_cong [of ?s s]
    by (auto simp: quiet_def calm_def log_ok_def logged_def)
  have n: "0 \<le> lh_n s" "pinned s = set (logged s)" using L by (auto simp: log_ok_def log_wf_def)
  have cw: "commit_writes ?s = commit_writes s" "head_of ?s = head_of s"
    by (simp_all add: commit_writes_def log_writes_def head_of_def logged_def)
  have K: "\<exists>t. commit ?s = Ok () t \<and> log_ok t \<and> logged t = [] \<and> outstanding t = 0 \<and> held t = held s \<and>
    (\<forall>m < lstart s. view t m = view s m) \<and> locked t = locked s \<and> pinned t = {} \<and> lstart t = lstart s \<and>
    memdisk t = apply_writes (memdisk s) (if lh_n s = 0 then [] else commit_writes s)"
  proof (cases "lh_n s = 0")
    case True
    then have "logged s = []" by (simp add: logged_def)
    then show ?thesis using True C n by (auto simp: commit_def ret_def logged_def)
  next
    case False
    then have n0: "0 < lh_n ?s" using n by simp
    obtain t where t: "commit ?s = Ok () t" and B: "bio_to (?s\<lparr>lh_n := 0\<rparr>) t
       ((apply_writes (view ?s) (log_writes ?s (nat (lh_n ?s))))(lstart ?s := put_le 4 0 0 (head_of ?s)))
       (locked ?s) {} (commit_writes ?s)"
      using commit_run [OF C(1,2) n0] by blast
    note T = bio_toD [OF B] and F = log_frame [OF bio_toD(7) [OF B]]
    have lt: "logged t = []" using F by (simp add: logged_def)
    have "log_wf (?s\<lparr>lh_n := 0\<rparr>)" using C(3) by (auto simp: log_wf_def logged_def)
    then have wf: "log_wf t" by (rule log_wf_frame [OF _ B])
    have hd: "view t (lstart t) = put_le 4 0 0 (head_of s)" using T(2) F cw by simp
    have md: "memdisk t (lstart t) = put_le 4 0 0 (head_of s)"
      using T(5) F(1) cw by (simp add: commit_writes_def)
    have z: "get_le 4 0 (put_le 4 0 0 (head_of s)) = 0"
      using head_of_facts(2) [OF C(3)] by (simp add: get_put_same BSIZE_def)
    have "log_ok t" using wf hd md z lt T(4) by (simp add: log_ok_def)
    moreover have "view t m = view s m" if "m < lstart s" for m
      using that T(2) apply_writes_log [of m ?s] by simp
    ultimately show ?thesis using t T F lt cw False by auto
  qed
  then obtain t where t: "commit ?s = Ok () t" "log_ok t" "logged t = []" "outstanding t = 0" "held t = held s"
    "\<forall>m < lstart s. view t m = view s m" "locked t = locked s" "pinned t = {}" "lstart t = lstart s"
    "memdisk t = apply_writes (memdisk s) (if lh_n s = 0 then [] else commit_writes s)" by blast
  let ?t = "t\<lparr>committing := False, procs := map (wake ChanLog) (procs t)\<rparr>"
  have E: "end_op s = Ok () ?t" by (rule end_op_last [OF quietD(1) [OF q] e t(1,5)])
  have ok: "log_ok ?t" "logged ?t = []" using log_ok_cong [of ?t t] t(2,3) by (simp_all add: logged_def)
  have "\<forall>m < lstart s. m \<notin> ran (locked s) \<longrightarrow> memdisk t m = view s m"
    using clean_view [of t] t(2,6,7,8) by (auto simp: log_ok_def log_wf_def)
  then show ?thesis using E ok t by (intro exI [of _ ?t]) simp
qed

section \<open>Admission control\<close>

text \<open>
  Operations in progress, each with the number of blocks it may still add to the log:
  \<open>begin_op\<close> admits an operation with a budget of \<open>MAXOPBLOCKS\<close>; a \<open>log_write\<close> of a sector
  not yet in the header uses one block of the budget of the operation that does it;
  \<open>end_op\<close> of an operation that is not the last drops its budget, and that of the last
  empties the log.  The invariant says the log never overflows while every operation
  stays within its budget.
\<close>

inductive log_steps :: "('z log_state_scheme) \<Rightarrow> nat list \<Rightarrow> bool" where
  start: "lh_n s = 0 \<Longrightarrow> outstanding s = 0 \<Longrightarrow> log_steps s []"
| admit: "log_steps s bs \<Longrightarrow> begin_op s = Ok () t \<Longrightarrow> log_steps t (MAXOPBLOCKS # bs)"
| write_new: "log_steps s bs \<Longrightarrow> log_wf s \<Longrightarrow> locked s b = Some n \<Longrightarrow> n < lstart s \<Longrightarrow> n < 2 ^ 32 \<Longrightarrow>
    log_write b s = Ok () t \<Longrightarrow> n \<notin> set (logged s) \<Longrightarrow> i < length bs \<Longrightarrow> 0 < bs ! i \<Longrightarrow>
    log_steps t (bs[i := bs ! i - 1])"
| write_old: "log_steps s bs \<Longrightarrow> log_wf s \<Longrightarrow> locked s b = Some n \<Longrightarrow> n < lstart s \<Longrightarrow> n < 2 ^ 32 \<Longrightarrow>
    log_write b s = Ok () t \<Longrightarrow> n \<in> set (logged s) \<Longrightarrow> log_steps t bs"
| leave: "log_steps s bs \<Longrightarrow> calm s \<Longrightarrow> LogLock \<notin> set (held s) \<Longrightarrow> \<not> committing s \<Longrightarrow> outstanding s \<noteq> 1 \<Longrightarrow>
    i < length bs \<Longrightarrow> end_op s = Ok () t \<Longrightarrow> log_steps t (take i bs @ drop (Suc i) bs)"
| last: "log_steps s [b] \<Longrightarrow> log_ok s \<Longrightarrow> quiet s \<Longrightarrow> LogLock \<notin> set (held s) \<Longrightarrow> \<not> committing s \<Longrightarrow>
    end_op s = Ok () t \<Longrightarrow> log_steps t []"
| other: "log_steps s bs \<Longrightarrow> lh_n t = lh_n s \<Longrightarrow> outstanding t = outstanding s \<Longrightarrow> log_steps t bs"

lemma sum_list_update_minus:
  "i < length bs \<Longrightarrow> 0 < bs ! i \<Longrightarrow> Suc (sum_list (bs[i := bs ! i - 1])) = sum_list (bs :: nat list)"
  by (induction bs arbitrary: i) (auto split: nat.splits)

lemma sum_list_drop_one: "sum_list (take i bs @ drop (Suc i) bs) \<le> sum_list (bs :: nat list)"
proof (induction bs arbitrary: i)
  case (Cons b bs)
  from Cons.IH show ?case by (cases i) simp_all
qed simp

lemma log_steps_inv:
  "log_steps s bs \<Longrightarrow> outstanding s = int (length bs) \<and> 0 \<le> lh_n s \<and>
     lh_n s + int (sum_list bs) \<le> int LOGSIZE \<and> (\<forall>b \<in> set bs. b \<le> MAXOPBLOCKS)"
proof (induction rule: log_steps.induct)
  case (start s)
  then show ?case by simp
next
  case (admit s bs t)
  note B = begin_op_Ok [OF admit.hyps(2)]
  have "sum_list bs \<le> length bs * MAXOPBLOCKS" using admit.IH sum_list_mono2 [of bs "replicate (length bs) MAXOPBLOCKS"]
    by (auto simp: sum_list_replicate)
  then have "int (sum_list bs) \<le> int (length bs) * int MAXOPBLOCKS" by (metis of_nat_le_iff of_nat_mult)
  then show ?case using B admit.IH by (simp add: algebra_simps)
next
  case (write_new s bs b n t i)
  note W = log_write_Ok [OF write_new.hyps(2-6)]
  have o: "outstanding t = outstanding s" by (subst W(6)) simp
  have "int (Suc (sum_list (bs[i := bs ! i - 1]))) = int (sum_list bs)"
    using sum_list_update_minus write_new.hyps by simp
  moreover have "\<forall>b \<in> set (bs[i := bs ! i - 1]). b \<le> MAXOPBLOCKS"
  proof
    fix b assume "b \<in> set (bs[i := bs ! i - 1])"
    then have "b \<in> insert (bs ! i - 1) (set bs)" using set_update_subset_insert by fastforce
    moreover have "bs ! i \<in> set bs" using write_new.hyps by simp
    ultimately show "b \<le> MAXOPBLOCKS" using write_new.IH by fastforce
  qed
  ultimately show ?case using W(7) o write_new by simp
next
  case (write_old s bs b n t)
  note W = log_write_Ok [OF write_old.hyps(2-6)]
  have "outstanding t = outstanding s" by (subst W(6)) simp
  then show ?case using W(7) write_old by simp
next
  case (leave s bs i t)
  let ?bs = "take i bs @ drop (Suc i) bs"
  have t: "t = s\<lparr>outstanding := outstanding s - 1, procs := map (wake ChanLog) (procs s)\<rparr>"
    using end_op_not_last [OF leave.hyps(2-5)] leave.hyps(7) by simp
  have len: "int (length ?bs) = int (length bs) - 1" using leave.hyps(6) by (simp add: min_def)
  have sub: "set ?bs \<subseteq> set bs" using set_take_subset [of i bs] set_drop_subset [of "Suc i" bs] by simp
  have f: "outstanding t = outstanding s - 1" "lh_n t = lh_n s" unfolding t by simp_all
  show ?case
  proof (intro conjI)
    show "outstanding t = int (length ?bs)" unfolding f len using leave.IH by linarith
    show "0 \<le> lh_n t" unfolding f using leave.IH by linarith
    show "lh_n t + int (sum_list ?bs) \<le> int LOGSIZE"
      unfolding f using sum_list_drop_one [of i bs] leave.IH by linarith
    show "\<forall>b \<in> set ?bs. b \<le> MAXOPBLOCKS" using sub leave.IH by blast
  qed
next
  case (last s b t)
  have "outstanding s = 1" using last.IH by simp
  from end_op_commits [OF last.hyps(2-5) this] last.hyps(6)
  have "logged t = []" "outstanding t = 0" "log_ok t" by auto
  then show ?case by (auto simp: log_ok_def log_wf_def logged_def)
next
  case (other s bs t)
  then show ?case by simp
qed


text \<open>A \<open>log_write\<close> inside its budget does not panic.\<close>

lemma log_write_no_overflow:
  assumes "log_steps s bs" "i < length bs" "0 < bs ! i" "LOGSIZE < lsize s" "length (lh_sector s) = LOGSIZE"
  shows "\<exists>t. log_write b s = Ok () t"
proof -
  note I = log_steps_inv [OF assms(1)]
  have "bs ! i \<le> sum_list bs" using assms(2) by (simp add: member_le_sum_list)
  then have n: "lh_n s < int LOGSIZE" "\<not> lh_n s \<ge> int (lsize s) - 1" using I assms(3,4) by linarith+
  have o: "\<not> outstanding s < 1" using I assms(2) by auto
  let ?i = "log_index (lh_sector s) (nat (lh_n s)) (b_sector (bufs s ! b))"
  have "?i \<le> nat (lh_n s)" using log_index_facts [of "lh_sector s" "nat (lh_n s)" _ ?i] assms(5) n(1) by auto
  then have "?i < length (lh_sector s)" using I n(1) assms(5) by linarith
  then show ?thesis using n o by (simp add: log_write_def lh_set_def kmod_def)
qed

lemma log_write_outside:
  "outstanding s < 1 \<Longrightarrow> \<exists>e. log_write b s = Panic e"
  by (simp add: log_write_def kpanic_def)

section \<open>The idiom of the file system\<close>

text \<open>The log's part of the state that matters to the file system.\<close>

definition log_frame_to :: "('z log_state_scheme) \<Rightarrow> ('z log_state_scheme) \<Rightarrow> bool" where
  "log_frame_to s t \<longleftrightarrow> t = s\<lparr>procs := procs t, bufs := bufs t, lru := lru t, lh_n := lh_n t, lh_sector := lh_sector t\<rparr>"

lemma log_frame_refl [simp]: "log_frame_to s s"
  by (simp add: log_frame_to_def)

lemma log_frame_trans: "log_frame_to s t \<Longrightarrow> log_frame_to t u \<Longrightarrow> log_frame_to s u"
  unfolding log_frame_to_def
proof -
  assume t: "t = s\<lparr>procs := procs t, bufs := bufs t, lru := lru t, lh_n := lh_n t, lh_sector := lh_sector t\<rparr>"
    and u: "u = t\<lparr>procs := procs u, bufs := bufs u, lru := lru u, lh_n := lh_n u, lh_sector := lh_sector u\<rparr>"
  show "u = s\<lparr>procs := procs u, bufs := bufs u, lru := lru u, lh_n := lh_n u, lh_sector := lh_sector u\<rparr>"
    by (subst u, subst t) simp
qed

lemma log_frame_fields:
  assumes "log_frame_to s t"
  shows "memdisk t = memdisk s" "disk_writes t = disk_writes s" "disksize t = disksize s" "held t = held s"
    "lstart t = lstart s" "lsize t = lsize s" "ldev t = ldev s" "outstanding t = outstanding s"
    "committing t = committing s" "cur t = cur s" "mem t = mem s"
    "freelist t = freelist s" "log_state.more t = log_state.more s"
proof -
  note t = assms [unfolded log_frame_to_def]
  show "memdisk t = memdisk s" by (subst t) simp
  show "disk_writes t = disk_writes s" by (subst t) simp
  show "disksize t = disksize s" by (subst t) simp
  show "held t = held s" by (subst t) simp
  show "lstart t = lstart s" by (subst t) simp
  show "lsize t = lsize s" by (subst t) simp
  show "ldev t = ldev s" by (subst t) simp
  show "outstanding t = outstanding s" by (subst t) simp
  show "committing t = committing s" by (subst t) simp
  show "cur t = cur s" by (subst t) simp
  show "mem t = mem s" by (subst t) simp
  show "freelist t = freelist s" by (subst t) simp
  show "log_state.more t = log_state.more s" by (subst t) simp
qed


text \<open>Between \<open>begin_op\<close> and \<open>end_op\<close>: the pinned sectors are the logged ones, and changes
  go from one well-formed state to another; \<open>fs_to s t V L\<close> says that \<open>t\<close> is reached with
  view \<open>V\<close> and locked buffers \<open>L\<close>.\<close>

definition log_inv :: "('z log_state_scheme) \<Rightarrow> bool" where
  "log_inv s \<longleftrightarrow> log_wf s \<and> pinned s = set (logged s)"

definition fs_to :: "('z log_state_scheme) \<Rightarrow> ('z log_state_scheme) \<Rightarrow> (nat \<Rightarrow> block) \<Rightarrow> (nat \<Rightarrow> nat option) \<Rightarrow> bool" where
  "fs_to s t V L \<longleftrightarrow> log_inv t \<and> view t = V \<and> locked t = L \<and> pinned s \<subseteq> pinned t \<and> log_frame_to s t"

definition saved :: "('z bio_state_scheme) \<Rightarrow> nat \<Rightarrow> bool" where
  "saved s n \<longleftrightarrow> n \<in> pinned s \<or> memdisk s n = view s n"

lemma fs_to_refl: "log_inv s \<Longrightarrow> fs_to s s (view s) (locked s)"
  by (simp add: fs_to_def)

lemma fs_to_trans: "fs_to s t V L \<Longrightarrow> fs_to t u V' L' \<Longrightarrow> fs_to s u V' L'"
  unfolding fs_to_def using log_frame_trans by blast

lemma fs_toD:
  assumes "fs_to s t V L"
  shows "log_inv t" "view t = V" "locked t = L" "pinned s \<subseteq> pinned t" "log_frame_to s t"
  using assms by (simp_all add: fs_to_def)

lemma saved_fs_to: "saved s n \<Longrightarrow> fs_to s t V L \<Longrightarrow> V n = view s n \<Longrightarrow> saved t n"
  using log_frame_fields(1) by (fastforce simp: saved_def fs_to_def)

lemma log_inv_bio:
  assumes "log_inv s" "bio_to s t V L (pinned s) []"
  shows "fs_to s t V L"
proof -
  note B = bio_toD [OF assms(2)] and F = log_frame [OF bio_toD(7) [OF assms(2)]]
  have "log_inv t" using assms log_wf_frame [OF _ assms(2)] B F by (simp add: log_inv_def)
  moreover have "log_frame_to s t"
  proof -
    note t = B(7) [unfolded bio_frame_def]
    show ?thesis unfolding log_frame_to_def F(6,7) by (subst t) (simp add: B(5,6))
  qed
  ultimately show ?thesis using B by (simp add: fs_to_def)
qed

lemma bread_fs:
  assumes "log_inv s" "bread ROOTDEV n s = Ok b t"
  shows "fs_to s t (view s) ((locked s)(b \<mapsto> n))" "saved t n" "locked s b = None" "n \<notin> ran (locked s)"
    "locked t b = Some n" "n < disksize s"
proof -
  have ok: "bcache_ok s" using assms(1) by (simp add: log_inv_def log_wf_def)
  note P = bread_post [OF ok assms(2)] and L = bread_locked [OF ok assms(2)]
  have "bio_to s t (view s) ((locked s)(b \<mapsto> n)) (pinned s) []" using P L by (simp add: bio_to_def)
  then show "fs_to s t (view s) ((locked s)(b \<mapsto> n))" by (rule log_inv_bio [OF assms(1)])
  show "saved t n" using clean_view [OF ok _ L(4)] P L unfolding saved_def by metis
  show "locked s b = None" "n \<notin> ran (locked s)" "locked t b = Some n" using L by simp_all
  show "n < disksize s" by (rule bread_Ok(2) [OF ok assms(2)])
qed

lemma set_bdata_fs:
  assumes "log_inv s" "locked s b = Some n" "length (f (view s n)) = BSIZE" "set_bdata b f s = Ok u t"
  shows "fs_to s t ((view s)(n := f (view s n))) (locked s)"
proof -
  have ok: "bcache_ok s" using assms(1) by (simp add: log_inv_def log_wf_def)
  note S = set_bdata_Ok [OF ok assms(2,4,3)]
  have "bio_to s t ((view s)(n := f (view s n))) (locked s) (pinned s) []" using S by (simp add: bio_to_def)
  then show ?thesis by (rule log_inv_bio [OF assms(1)])
qed

lemma log_write_fs:
  assumes "log_inv s" "locked s b = Some n" "n < lstart s" "n < 2 ^ 32" "log_write b s = Ok u t"
  shows "fs_to s t (view s) (locked s)" "saved t n"
proof -
  have wf: "log_wf s" using assms(1) by (simp add: log_inv_def)
  note W = log_write_Ok [OF wf assms(2-5)]
  have "log_frame_to s t"
    unfolding log_frame_to_def by (subst W(6)) (simp add: arg_cong [OF W(6), of procs] arg_cong [OF W(6), of lru])
  then show "fs_to s t (view s) (locked s)" using W assms(1) by (auto simp: fs_to_def log_inv_def)
  show "saved t n" using W(5) by (simp add: saved_def)
qed

lemma brelse_fs:
  assumes "log_inv s" "locked s b = Some n" "saved s n" "brelse b s = Ok u t"
  shows "fs_to s t (view s) ((locked s)(b := None))"
proof -
  have ok: "bcache_ok s" using assms(1) by (simp add: log_inv_def log_wf_def)
  note S = brelse_Ok [OF ok assms(2,4) assms(3) [unfolded saved_def]]
  have "bio_to s t (view s) ((locked s)(b := None)) (pinned s) []" using S by (simp add: bio_to_def)
  then show ?thesis by (rule log_inv_bio [OF assms(1)])
qed

text \<open>Reading one sector, and changing one sector under the log, as rules for a run.\<close>

lemma read_sector_fs:
  assumes s: "log_inv s"
    and run: "kbind (bread ROOTDEV n) (\<lambda>b. kbind (get_bdata b) (\<lambda>d. kbind (brelse b) (\<lambda>_. k d))) s = Ok r t"
  shows "\<exists>u. fs_to s u (view s) (locked s) \<and> k (view s n) u = Ok r t \<and> n < disksize s"
proof -
  from run obtain b v u where b: "bread ROOTDEV n s = Ok b v" and rel: "brelse b v = Ok () u"
    and k: "k (b_data (bufs v ! b)) u = Ok r t" by (auto simp: kbind_eq_Ok get_bdata_def)
  note B = bread_fs [OF s b] and V = fs_toD [OF bread_fs(1) [OF s b]]
  have "bcache_ok v" using V(1) by (simp add: log_inv_def log_wf_def)
  then have "view s n = b_data (bufs v ! b)" using locked_dev(5) [of v b n] B(5) V(2) by simp
  moreover have "(locked v)(b := None) = locked s" using V(3) B(3) by (auto simp: fun_eq_iff)
  ultimately show ?thesis using fs_to_trans [OF B(1) brelse_fs [OF V(1) B(5,2) rel]] k V(2) B(6) by auto
qed

lemma update_sector_fs:
  assumes s: "log_inv s" and n: "n < lstart s" "n < 2 ^ 32" and len: "length (f (view s n)) = BSIZE"
    and run: "kbind (bread ROOTDEV n) (\<lambda>b. kbind (set_bdata b f) (\<lambda>_. kbind (log_write b) (\<lambda>_.
      kbind (brelse b) (\<lambda>_. k)))) s = Ok r t"
  shows "\<exists>u. fs_to s u ((view s)(n := f (view s n))) (locked s) \<and> k u = Ok r t"
proof -
  from run obtain b v w x u where b: "bread ROOTDEV n s = Ok b v" and w: "set_bdata b f v = Ok () w"
    and x: "log_write b w = Ok () x" and rel: "brelse b x = Ok () u" and k: "k u = Ok r t"
    by (auto simp: kbind_eq_Ok)
  note B = bread_fs [OF s b] and V = fs_toD [OF bread_fs(1) [OF s b]]
  have W: "fs_to v w ((view s)(n := f (view s n))) (locked v)"
    using set_bdata_fs [OF V(1) B(5) _ w] len V(2) by simp
  have lw: "locked w b = Some n" using fs_toD(3) [OF W] B(5) by simp
  have ln: "n < lstart w" using log_frame_fields(5) [OF V(5)] log_frame_fields(5) [OF fs_toD(5) [OF W]] n by simp
  note X = log_write_fs [OF fs_toD(1) [OF W] lw ln n(2) x]
  have lx: "locked x b = Some n" using fs_toD(3) [OF X(1)] lw by simp
  note R = brelse_fs [OF fs_toD(1) [OF X(1)] lx X(2) rel]
  have "(locked x)(b := None) = locked s"
    using fs_toD(3) [OF X(1)] fs_toD(3) [OF W] V(3) B(3) by (auto simp: fun_eq_iff)
  moreover have "view x = (view s)(n := f (view s n))" using fs_toD(2) [OF X(1)] fs_toD(2) [OF W] by simp
  ultimately have "fs_to s u ((view s)(n := f (view s n))) (locked s)"
    using fs_to_trans [OF fs_to_trans [OF fs_to_trans [OF B(1) W] X(1)] R] by simp
  with k show ?thesis by blast
qed

lemma bread_data_fs:
  assumes s: "log_inv s" and run: "kbind (bread ROOTDEV n) (\<lambda>b. kbind (get_bdata b) (f b)) s = Ok r t"
  shows "\<exists>b u. fs_to s u (view s) ((locked s)(b \<mapsto> n)) \<and> locked s b = None \<and> locked u b = Some n \<and>
    saved u n \<and> n < disksize s \<and> f b (view s n) u = Ok r t"
proof -
  from run obtain b v where b: "bread ROOTDEV n s = Ok b v" and k: "f b (b_data (bufs v ! b)) v = Ok r t"
    by (auto simp: kbind_eq_Ok get_bdata_def)
  note B = bread_fs [OF s b] and V = fs_toD [OF bread_fs(1) [OF s b]]
  have "bcache_ok v" using V(1) by (simp add: log_inv_def log_wf_def)
  then have "view s n = b_data (bufs v ! b)" using locked_dev(5) [of v b n] B(5) V(2) by simp
  then show ?thesis using B k by auto
qed

lemma release_fs:
  assumes s: "log_inv s" "locked s b = Some n" "saved s n" and run: "kbind (brelse b) k s = Ok r t"
  shows "\<exists>u. fs_to s u (view s) ((locked s)(b := None)) \<and> k () u = Ok r t"
  using run brelse_fs [OF s] by (auto simp: kbind_eq_Ok)

lemma write_fs:
  assumes s: "log_inv s" and l: "locked s b = Some n" and n: "n < lstart s" "n < 2 ^ 32"
    and len: "length (f (view s n)) = BSIZE"
    and run: "kbind (set_bdata b f) (\<lambda>_. kbind (log_write b) k) s = Ok r t"
  shows "\<exists>u. fs_to s u ((view s)(n := f (view s n))) (locked s) \<and> saved u n \<and> k () u = Ok r t"
proof -
  from run obtain w x where w: "set_bdata b f s = Ok () w" and x: "log_write b w = Ok () x" and k: "k () x = Ok r t"
    by (auto simp: kbind_eq_Ok)
  note W = set_bdata_fs [OF s l len w]
  have lw: "locked w b = Some n" "n < lstart w" using fs_toD(3) [OF W] l log_frame_fields(5) [OF fs_toD(5) [OF W]] n
    by simp_all
  note X = log_write_fs [OF fs_toD(1) [OF W] lw n(2) x]
  have "fs_to s x ((view s)(n := f (view s n))) (locked s)"
    using fs_to_trans [OF W X(1)] fs_toD(2,3) [OF W] by simp
  with X(2) k show ?thesis by blast
qed

lemma write_release_fs:
  assumes s: "log_inv s" and l: "locked s b = Some n" and n: "n < lstart s" "n < 2 ^ 32"
    and len: "length (f (view s n)) = BSIZE"
    and run: "kbind (set_bdata b f) (\<lambda>_. kbind (log_write b) (\<lambda>_. kbind (brelse b) k)) s = Ok r t"
  shows "\<exists>u. fs_to s u ((view s)(n := f (view s n))) ((locked s)(b := None)) \<and> k () u = Ok r t"
proof -
  obtain x where x: "fs_to s x ((view s)(n := f (view s n))) (locked s)" "saved x n"
      "kbind (brelse b) k x = Ok r t"
    using write_fs [OF s l n len run] by blast
  have lx: "locked x b = Some n" using fs_toD(3) [OF x(1)] l by simp
  obtain u where u: "fs_to x u (view x) ((locked x)(b := None))" "k () u = Ok r t"
    using release_fs [OF fs_toD(1) [OF x(1)] lx x(2,3)] by blast
  show ?thesis using fs_to_trans [OF x(1) u(1)] fs_toD(2,3) [OF x(1)] u(2) by auto
qed

text \<open>Whatever point a commit has reached, the header on the disk can be recovered from.\<close>

lemma commit_head:
  assumes L: "log_ok s"
  shows "apply_writes (memdisk s) (take k (commit_writes s)) (lstart s) \<in>
    {memdisk s (lstart s), head_of s, put_le 4 0 0 (head_of s)}"
proof -
  have wf: "log_wf s" using L by (simp add: log_ok_def)
  let ?n = "length (logged s)" and ?B = "map (\<lambda>x. (x, view s x)) (logged s)"
  have n: "nat (lh_n s) = ?n" using length_logged [OF wf] by simp
  have nb: "apply_writes d (take j ?B) (lstart s) = d (lstart s)" for d j
  proof (rule apply_writes_other)
    have "\<forall>x \<in> set (logged s). x < lstart s" using wf by (simp add: log_wf_def)
    then show "lstart s \<notin> fst ` set (take j ?B)" by (auto dest!: in_set_takeD)
  qed
  consider "k \<le> ?n" | "?n < k" "k \<le> ?n + 1 + ?n" | "?n + 1 + ?n < k" by linarith
  then show ?thesis
  proof cases
    case 1
    then show ?thesis using apply_writes_log [of "lstart s" s] by (simp add: commit_writes_def n log_writes_take)
  next
    case 2
    then have "take k (commit_writes s) = log_writes s ?n @ [(lstart s, head_of s)] @ take (k - ?n - 1) ?B"
      by (simp add: commit_writes_def n take_Cons')
    then show ?thesis by (simp add: nb)
  next
    case 3
    then show ?thesis by (simp add: commit_writes_def n)
  qed
qed

lemma commit_head_ok:
  assumes L: "log_ok s" and nl: "lh_n s < int nl"
  shows "head_ok (lstart s) nl (apply_writes (memdisk s) (take k (commit_writes s)))"
proof -
  let ?d = "apply_writes (memdisk s) (take k (commit_writes s))"
  have wf: "log_wf s" using L by (simp add: log_ok_def)
  note F = head_of_facts [OF wf]
  have b: "0 \<le> lh_n s" "lh_n s \<le> 30" "distinct (logged s)" "\<forall>x \<in> set (logged s). x < lstart s"
    using wf by (auto simp: log_wf_def LOGSIZE_def MAXOPBLOCKS_def)
  have z: "head_ok (lstart s) nl ?d" if "get_le 4 0 (?d (lstart s)) = 0"
    using that nl b(1) by (simp add: head_ok_def head_sectors_def)
  have "get_le 4 0 (memdisk s (lstart s)) = 0" using L unfolding log_ok_def by blast
  moreover have "get_le 4 0 (put_le 4 0 0 (head_of s)) = 0" using F(2) by (simp add: get_put_same BSIZE_def)
  moreover have "head_ok (lstart s) nl ?d" if h: "?d (lstart s) = head_of s"
  proof -
    have n: "nat (s32 (get_le 4 0 (head_of s))) = length (logged s)" "s32 (get_le 4 0 (head_of s)) = lh_n s"
      using F(1) length_logged [OF wf] b(1,2) by simp_all
    have "head_sectors (lstart s) ?d = logged s"
      unfolding head_sectors_def h n(1) by (rule nth_equalityI) (simp_all add: F(3))
    then show ?thesis using h n(2) b nl by (simp add: head_ok_def LOGSIZE_def MAXOPBLOCKS_def)
  qed
  ultimately show ?thesis using commit_head [OF L, of k] z by auto
qed

section \<open>A full log\<close>

lemma bread_no_buffers:
  assumes ok: "bcache_ok s" and lk: "BcacheLock \<notin> set (held s)"
    and un: "\<forall>i < NBUF. \<not> cached ROOTDEV n (bufs s ! i)" and full: "\<forall>i < NBUF. \<not> recyclable (bufs s ! i)"
  shows "bread ROOTDEV n s = Panic ''bget: no buffers''"
proof -
  have m: "set (lru s) = {..<NBUF}" by (rule bcache_okD(3) [OF ok])
  have "find (\<lambda>i. cached ROOTDEV n (bufs s ! i)) (lru s) = None" using un m by (auto simp: find_None_iff)
  moreover have "find (\<lambda>i. recyclable (bufs s ! i)) (rev (lru s)) = None" using full m by (auto simp: find_None_iff)
  ultimately have "bget ROOTDEV n s = Panic ''bget: no buffers''"
    using lk by (simp add: bget_def kmon_simps kpanic_def)
  then show ?thesis by (simp add: bread_def kmon_simps)
qed

text \<open>With as many pinned sectors as buffers, every buffer is pinned.\<close>

lemma all_pinned:
  assumes ok: "bcache_ok s" and c: "card (pinned s) = NBUF" and i: "i < NBUF"
  shows "b_dirty (bufs s ! i)" "b_dev (bufs s ! i) = ROOTDEV" "b_sector (bufs s ! i) \<in> pinned s"
proof -
  let ?D = "{i. i < NBUF \<and> b_dev (bufs s ! i) = ROOTDEV \<and> b_dirty (bufs s ! i)}"
  have "(\<lambda>i. b_sector (bufs s ! i)) ` ?D = pinned s" by (auto simp: pinned_def)
  then have "NBUF \<le> card ?D" using c card_image_le [of ?D "\<lambda>i. b_sector (bufs s ! i)"] by simp
  moreover have "?D \<subseteq> {..<NBUF}" by auto
  ultimately have "?D = {..<NBUF}" by (intro card_subset_eq) (auto intro!: antisym dest: card_mono [rotated])
  then have "i \<in> ?D" using i by simp
  then show "b_dirty (bufs s ! i)" "b_dev (bufs s ! i) = ROOTDEV" "b_sector (bufs s ! i) \<in> pinned s"
    by (auto simp: pinned_def)
qed

lemma commit_full_panics:
  assumes L: "log_ok s" and c: "calm s" and n: "lh_n s = int LOGSIZE"
  shows "commit s = Panic ''bget: no buffers''"
proof -
  have wf: "log_wf s" and P: "pinned s = set (logged s)" using L by (auto simp: log_ok_def)
  note ok = log_wf_bcache [OF wf]
  have "length (logged s) = NBUF" using length_logged [OF wf] n by (simp add: LOGSIZE_def MAXOPBLOCKS_def NBUF_def)
  then have cp: "card (pinned s) = NBUF" using P wf by (simp add: distinct_card log_wf_def)
  have lt: "\<forall>x \<in> pinned s. x < lstart s" and dv: "ldev s = ROOTDEV" using wf P by (auto simp: log_wf_def)
  have "\<not> cached ROOTDEV (lstart s + 0 + 1) (bufs s ! i)" "\<not> recyclable (bufs s ! i)" if "i < NBUF" for i
    using all_pinned [OF ok cp that] lt by (auto simp: cached_def recyclable_def)
  then have b: "bread ROOTDEV (lstart s + 0 + 1) s = Panic ''bget: no buffers''"
    using c by (intro bread_no_buffers [OF ok]) (auto simp: calm_def)
  have "write_log_one 0 s = Panic ''bget: no buffers''"
    using b dv by (simp add: write_log_one_def kbind_Panic)
  moreover have "[0..<LOGSIZE] = 0 # [1..<LOGSIZE]" by (simp add: upt_conv_Cons LOGSIZE_def MAXOPBLOCKS_def)
  ultimately have "write_log s = Panic ''bget: no buffers''"
    using n by (simp add: write_log_def kseq_def kbind_Panic)
  then show ?thesis using n by (simp add: commit_def kbind_Panic LOGSIZE_def MAXOPBLOCKS_def)
qed

section \<open>A concrete state\<close>

text \<open>A kernel in the middle of a transaction that has changed sector 5: used to show that the
  hypotheses of the properties can hold.\<close>

definition demo_buf :: buf where
  "demo_buf = \<lparr>b_busy = False, b_valid = True, b_dirty = True, b_dev = ROOTDEV, b_sector = 5,
     b_data = replicate BSIZE 1\<rparr>"

definition demo_log :: log_state where
  "demo_log = \<lparr>held = [], cur = Some 0, mem = (\<lambda>_. 0), freelist = 0, use_lock = True, kend = 0, sym_data = 0, kpgdir = 0, cr3 = 0, tss_esp0 = 0,
     procs = [unused_proc\<lparr>p_state := RUNNING\<rparr>], nextpid = 1, initproc = None, sym_forkret = 0, sym_trapret = 0,
     memdisk = (\<lambda>_. replicate BSIZE 0), disksize = 20, disk_writes = [],
     bufs = demo_buf # replicate 29 (empty_buf\<lparr>b_dev := NODEV\<rparr>), lru = [0..<30],
     lstart = 8, lsize = 12, outstanding = 1, committing = False, ldev = ROOTDEV, lh_n = 1,
     lh_sector = 5 # replicate 29 0\<rparr>"

lemma demo_bufs: "i < NBUF \<Longrightarrow> bufs demo_log ! i = (if i = 0 then demo_buf else empty_buf\<lparr>b_dev := NODEV\<rparr>)"
  by (cases i) (simp_all add: demo_log_def NBUF_def)

lemma demo_bcache: "bcache_ok demo_log"
proof -
  have "length (bufs demo_log) = NBUF" "distinct (lru demo_log)" "set (lru demo_log) = {..<NBUF}"
    by (auto simp: demo_log_def NBUF_def)
  moreover have "\<forall>n < disksize demo_log. length (memdisk demo_log n) = BSIZE" by (simp add: demo_log_def)
  moreover have "buf_ok demo_log (bufs demo_log ! i)" if "i < NBUF" for i
    using demo_bufs [OF that] by (simp add: buf_ok_def demo_buf_def empty_buf_def demo_log_def)
  ultimately show ?thesis unfolding bcache_ok_def
    using demo_bufs by (simp add: empty_buf_def split: if_splits)
qed

lemma demo_views:
  "locked demo_log = Map.empty" "pinned demo_log = {5}" "n \<noteq> 5 \<Longrightarrow> view demo_log n = replicate BSIZE 0"
  "logged demo_log = [5]"
proof -
  show "locked demo_log = Map.empty" using demo_bufs by (auto simp: locked_def fun_eq_iff demo_buf_def empty_buf_def)
  have "0 < NBUF" by (simp add: NBUF_def)
  then show "pinned demo_log = {5}"
    using demo_bufs by (auto simp: pinned_def demo_buf_def empty_buf_def split: if_splits intro!: exI [of _ 0])
  show "logged demo_log = [5]" by (simp add: logged_def demo_log_def)
  assume n: "n \<noteq> 5"
  have "view demo_log n = memdisk demo_log n"
    using bcache_okD(1) [OF demo_bcache] demo_bufs n
    by (intro view_uncached) (auto simp: cached_def demo_buf_def empty_buf_def)
  then show "view demo_log n = replicate BSIZE 0" by (simp add: demo_log_def)
qed

lemma demo_log_ok: "log_ok demo_log" "quiet demo_log"
proof -
  have f: "ldev demo_log = ROOTDEV" "length (lh_sector demo_log) = LOGSIZE" "lh_n demo_log = 1" "lsize demo_log = 12"
    "lstart demo_log = 8" "disksize demo_log = 20" "memdisk demo_log 8 = replicate BSIZE 0" "held demo_log = []"
    by (simp_all add: demo_log_def LOGSIZE_def MAXOPBLOCKS_def)
  have "log_wf demo_log"
    unfolding log_wf_def f demo_views(4) using demo_bcache by (simp add: LOGSIZE_def MAXOPBLOCKS_def)
  then show "log_ok demo_log"
    unfolding log_ok_def f demo_views(2,4) using demo_views(3) [of 8] by (simp add: get_le_zeroes BSIZE_def)
  show "quiet demo_log" unfolding quiet_def calm_def f demo_views by (simp add: NBUF_def)
qed

section \<open>Properties\<close>

text \<open>C1: crash atomicity of a transaction.  \<open>commit\<close> returns, and if the machine stops after
  any number \<open>k\<close> of the disk writes it makes, what recovery makes of the disk is on every
  sector outside the log the old contents, or, once the header with the sector list has been
  written, the contents the file system had in memory.\<close>

theorem commit_atomic:
  assumes "log_ok s" "quiet s" "0 < lh_n s"
  shows "\<exists>t ws. commit s = Ok () t \<and> disk_writes t = disk_writes s @ ws \<and>
    (\<forall>k m. m < lstart s \<and> m \<notin> ran (locked s) \<longrightarrow>
      recovered (lstart s) (apply_writes (memdisk s) (take k ws)) m =
        (if k \<le> length (logged s) then memdisk s m else view s m))"
proof -
  obtain t where t: "commit s = Ok () t" and B: "bio_to (s\<lparr>lh_n := 0\<rparr>) t
     ((apply_writes (view s) (log_writes s (nat (lh_n s))))(lstart s := put_le 4 0 0 (head_of s)))
     (locked s) {} (commit_writes s)" using commit_run [OF assms] by blast
  have "disk_writes t = disk_writes s @ commit_writes s" using bio_toD(6) [OF B] by simp
  then show ?thesis using t commit_crash [OF assms(1)] committed_view [OF assms(1)]
    by (intro exI [of _ t] exI [of _ "commit_writes s"]) auto
qed

theorem commit_atomic_witness:
  "\<exists>t ws. commit demo_log = Ok () t \<and> disk_writes t = ws \<and>
     recovered 8 (apply_writes (memdisk demo_log) (take 1 ws)) 5 = replicate BSIZE 0 \<and>
     recovered 8 (apply_writes (memdisk demo_log) (take 2 ws)) 5 = replicate BSIZE 1"
proof -
  have f: "lstart demo_log = 8" "disk_writes demo_log = []" "memdisk demo_log 5 = replicate BSIZE 0"
    "0 < lh_n demo_log" by (simp_all add: demo_log_def)
  have v: "view demo_log 5 = replicate BSIZE 1"
    using view_cached [OF demo_bcache, of 0 5] demo_bufs [of 0]
    by (simp add: NBUF_def cached_def demo_buf_def)
  show ?thesis using commit_atomic [OF demo_log_ok f(4)] demo_views v f by auto
qed


definition demo_boot :: log_state where
  "demo_boot = demo_log\<lparr>bufs := replicate NBUF (empty_buf\<lparr>b_dev := NODEV\<rparr>),
     memdisk := apply_writes (memdisk demo_log) (take 2 (commit_writes demo_log)), lh_n := 0\<rparr>"

lemma demo_commit_writes: "take 2 (commit_writes demo_log) = [(9, view demo_log 5), (8, head_of demo_log)]"
proof -
  have "nat (lh_n demo_log) = 1" "lstart demo_log = 8" by (simp_all add: demo_log_def)
  then show ?thesis using demo_views(4) by (simp add: commit_writes_def log_writes_def)
qed

lemma demo_boot_ok: "boot_ok demo_boot"
proof -
  have f: "length (lh_sector demo_boot) = LOGSIZE" "held demo_boot = []" "disksize demo_boot = 20"
    "set (lru demo_boot) = {..<NBUF}" "distinct (lru demo_boot)"
    by (auto simp: demo_boot_def demo_log_def LOGSIZE_def MAXOPBLOCKS_def NBUF_def)
  have b: "bufs demo_boot = replicate NBUF (empty_buf\<lparr>b_dev := NODEV\<rparr>)" by (simp add: demo_boot_def)
  have wf: "log_wf demo_log" using demo_log_ok by (simp add: log_ok_def)
  have l: "length (view demo_log 5) = BSIZE" "length (head_of demo_log) = BSIZE"
    using view_length [OF demo_bcache, of 5] head_of_facts(2) [OF wf] by (simp_all add: demo_log_def)
  have m: "memdisk demo_boot = (\<lambda>_. replicate BSIZE 0)(9 := view demo_log 5, 8 := head_of demo_log)"
    by (simp add: demo_boot_def demo_commit_writes) (simp add: demo_log_def)
  have "bcache_ok demo_boot"
    unfolding bcache_ok_def b f(3-5) m using l by (auto simp: buf_ok_def empty_buf_def f(4) f(5) m)
  then show ?thesis unfolding boot_ok_def calm_def locked_def pinned_def b f
    by (auto simp: empty_buf_def fun_eq_iff)
qed


text \<open>C6: the last \<open>end_op\<close> of a transaction returns with the transaction on the disk: every
  sector nobody has locked reads the same from the disk as from the cache, the log is empty,
  and no sector outside the log has changed for the file system.\<close>

theorem end_op_durable:
  assumes "log_ok s" "quiet s" "LogLock \<notin> set (held s)" "\<not> committing s" "outstanding s = 1"
  shows "\<exists>t. end_op s = Ok () t \<and> log_ok t \<and> logged t = [] \<and> outstanding t = 0 \<and> \<not> committing t \<and>
    (\<forall>m < lstart s. view t m = view s m \<and> (m \<notin> ran (locked s) \<longrightarrow> memdisk t m = view s m))"
  using end_op_commits [OF assms] by blast

theorem end_op_durable_witness:
  "\<exists>t. end_op demo_log = Ok () t \<and> memdisk t 5 = view demo_log 5"
proof -
  have f: "LogLock \<notin> set (held demo_log)" "\<not> committing demo_log" "outstanding demo_log = 1" "lstart demo_log = 8"
    by (simp_all add: demo_log_def)
  show ?thesis using end_op_durable [OF demo_log_ok f(1-3)] demo_views(1) f(4) by auto
qed

text \<open>C7: admission control.  In every state reached by \<open>begin_op\<close>, \<open>log_write\<close> and \<open>end_op\<close>
  with each operation inside its budget of \<open>MAXOPBLOCKS\<close> new sectors, a \<open>log_write\<close> inside the
  budget returns: it cannot panic with ''too big a transaction''.\<close>

theorem admission_no_overflow:
  assumes "log_steps s bs" "i < length bs" "0 < bs ! i" "LOGSIZE < lsize s" "length (lh_sector s) = LOGSIZE"
  shows "\<exists>t. log_write b s = Ok () t"
  using assms by (rule log_write_no_overflow)

definition demo_idle :: log_state where
  "demo_idle = demo_log\<lparr>lh_n := 0, outstanding := 0, lsize := 40\<rparr>"

theorem admission_no_overflow_witness:
  "\<exists>s t. begin_op demo_idle = Ok () s \<and> log_write 0 s = Ok () t"
proof -
  have "log_steps demo_idle []" by (rule log_steps.start) (simp_all add: demo_idle_def)
  moreover have b: "begin_op demo_idle = Ok () (demo_idle\<lparr>outstanding := 1\<rparr>)"
    by (simp add: begin_op_def demo_idle_def demo_log_def kmon_simps MAXOPBLOCKS_def LOGSIZE_def)
  ultimately have "log_steps (demo_idle\<lparr>outstanding := 1\<rparr>) [MAXOPBLOCKS]" by (rule log_steps.admit)
  from admission_no_overflow [OF this, of 0 0] b show ?thesis
    by (auto simp: MAXOPBLOCKS_def LOGSIZE_def demo_idle_def demo_log_def)
qed

text \<open>\<open>log_write\<close> adds the sector to the header at most once (absorption), pins it in the
  cache, and neither writes the disk nor changes what the file system reads.\<close>

theorem log_write_absorbs:
  assumes "log_wf s" "locked s b = Some n" "n < lstart s" "n < 2 ^ 32" "log_write b s = Ok u t"
  shows "set (logged t) = insert n (set (logged s)) \<and> distinct (logged t) \<and> pinned t = insert n (pinned s) \<and>
    view t = view s \<and> disk_writes t = disk_writes s \<and> locked t = locked s"
proof -
  note W = log_write_Ok [OF assms]
  have "disk_writes t = disk_writes s" by (subst W(6)) simp
  then show ?thesis using W by (auto simp: log_wf_def)
qed

definition demo_locked :: log_state where
  "demo_locked = demo_log\<lparr>bufs := (demo_buf\<lparr>b_busy := True\<rparr>) # replicate 29 (empty_buf\<lparr>b_dev := NODEV\<rparr>), lh_n := 0\<rparr>"

lemma demo_locked_ok: "log_wf demo_locked" "locked demo_locked 0 = Some 5"
proof -
  have e: "demo_locked = (demo_log\<lparr>bufs := (bufs demo_log)[0 := demo_buf\<lparr>b_busy := True\<rparr>]\<rparr>)\<lparr>lh_n := 0\<rparr>"
    by (simp add: demo_locked_def demo_log_def)
  have "bcache_ok (demo_log\<lparr>bufs := (bufs demo_log)[0 := demo_buf\<lparr>b_busy := True\<rparr>]\<rparr>)"
  proof (rule bcache_ok_update [OF demo_bcache])
    show "buf_ok demo_log (demo_buf\<lparr>b_busy := True\<rparr>)" by (simp add: buf_ok_def demo_buf_def demo_log_def)
    show "0 < NBUF" by (simp add: NBUF_def)
    show "b_dev (demo_buf\<lparr>b_busy := True\<rparr>) = ROOTDEV \<longrightarrow>
      (\<forall>i < NBUF. i \<noteq> 0 \<longrightarrow> \<not> cached ROOTDEV (b_sector (demo_buf\<lparr>b_busy := True\<rparr>)) (bufs demo_log ! i))"
      using demo_bufs by (simp add: cached_def empty_buf_def)
  qed
  then have "bcache_ok demo_locked" unfolding e by simp
  then show "log_wf demo_locked" unfolding log_wf_def logged_def
    by (simp add: demo_locked_def) (simp add: demo_log_def LOGSIZE_def MAXOPBLOCKS_def)
  show "locked demo_locked 0 = Some 5" by (simp add: locked_def demo_locked_def demo_buf_def NBUF_def)
qed

theorem log_write_absorbs_witness:
  "\<exists>t. log_write 0 demo_locked = Ok () t \<and> set (logged t) = {5} \<and> 5 \<in> pinned t"
proof -
  have f: "lstart demo_locked = 8" "logged demo_locked = []"
    by (simp_all add: demo_locked_def demo_log_def logged_def)
  obtain t where t: "log_write 0 demo_locked = Ok () t"
    by (simp add: log_write_def demo_locked_def demo_log_def lh_set_def log_index_def LOGSIZE_def MAXOPBLOCKS_def)
  show ?thesis using log_write_absorbs [OF demo_locked_ok _ _ t] t f by auto
qed

text \<open>C15: a transaction that fills the log cannot commit.  The log holds as many sectors as
  the cache has buffers, every logged sector is pinned in the cache, and \<open>write_log\<close> needs
  buffers for the log sectors: \<open>commit\<close> panics.\<close>

theorem full_log_commit_panics:
  assumes "log_ok s" "calm s" "lh_n s = int LOGSIZE"
  shows "commit s = Panic ''bget: no buffers''"
  using assms by (rule commit_full_panics)

definition demo_full :: log_state where
  "demo_full = demo_log\<lparr>disksize := 100, bufs := map (\<lambda>i. demo_buf\<lparr>b_sector := i + 10\<rparr>) [0..<30],
     lstart := 50, lsize := 40, lh_n := 30, lh_sector := [10..<40]\<rparr>"

lemma demo_full_ok: "log_ok demo_full"
proof -
  have f: "ldev demo_full = ROOTDEV" "length (lh_sector demo_full) = LOGSIZE" "lh_n demo_full = 30" "lsize demo_full = 40"
    "lstart demo_full = 50" "disksize demo_full = 100" "memdisk demo_full = (\<lambda>_. replicate BSIZE 0)"
    "logged demo_full = [10..<40]" "length (bufs demo_full) = NBUF" "distinct (lru demo_full)" "set (lru demo_full) = {..<NBUF}"
    by (auto simp: demo_full_def demo_log_def LOGSIZE_def MAXOPBLOCKS_def logged_def NBUF_def)
  have b: "bufs demo_full ! i = demo_buf\<lparr>b_sector := i + 10\<rparr>" if "i < NBUF" for i
    using that by (simp add: demo_full_def NBUF_def)
  have ok: "bcache_ok demo_full" unfolding bcache_ok_def f using b by (simp add: buf_ok_def demo_buf_def f NBUF_def)
  then have wf: "log_wf demo_full" unfolding log_wf_def f by (auto simp: LOGSIZE_def MAXOPBLOCKS_def)
  have p: "pinned demo_full = set (logged demo_full)"
  proof (intro set_eqI iffI)
    fix x assume "x \<in> pinned demo_full"
    then have "10 \<le> x \<and> x < 40" unfolding pinned_def using b by (auto simp: demo_buf_def NBUF_def)
    then show "x \<in> set (logged demo_full)" by (simp only: f set_upt atLeastLessThan_iff)
  next
    fix x assume "x \<in> set (logged demo_full)"
    then have x: "10 \<le> x" "x - 10 < NBUF" unfolding f by (auto simp: NBUF_def)
    then show "x \<in> pinned demo_full" unfolding pinned_def using b [OF x(2)]
      by (intro CollectI exI [of _ "x - 10"]) (simp add: demo_buf_def)
  qed
  have "view demo_full 50 = memdisk demo_full 50"
    using b f(9) by (intro view_uncached) (auto simp: cached_def NBUF_def)
  then show ?thesis unfolding log_ok_def f(5,7) using wf p f(7) by (simp add: get_le_zeroes BSIZE_def)
qed

theorem full_log_commit_panics_witness: "commit demo_full = Panic ''bget: no buffers''"
proof -
  have "calm demo_full" "lh_n demo_full = int LOGSIZE"
    by (simp_all add: calm_def demo_full_def demo_log_def LOGSIZE_def MAXOPBLOCKS_def)
  then show ?thesis by (rule full_log_commit_panics [OF demo_full_ok])
qed

section \<open>Sector operations that cannot fail\<close>

text \<open>\<open>roomy j s\<close>: inside a transaction, \<open>j\<close> more sectors can be logged and \<open>j\<close> more buffers
  had, and the cache's locks are free.\<close>

definition roomy :: "nat \<Rightarrow> ('z log_state_scheme) \<Rightarrow> bool" where
  "roomy j s \<longleftrightarrow> log_inv s \<and> calm s \<and> card (dom (locked s)) + card (pinned s) + j < NBUF \<and>
     lh_n s + int j \<le> int LOGSIZE \<and> lh_n s + int j < int (lsize s) \<and> 0 < outstanding s"

lemma roomy_mono: "roomy j s \<Longrightarrow> i \<le> j \<Longrightarrow> roomy i s"
  by (auto simp: roomy_def)

lemma roomy_fs_to:
  assumes r: "roomy j s" and f: "fs_to s t V L" and p: "card (dom L) + card (pinned t) + i \<le> card (dom (locked s)) + card (pinned s) + j"
    and n: "lh_n t + int i \<le> lh_n s + int j"
  shows "roomy i t"
proof -
  note F = fs_toD [OF f] and G = log_frame_fields [OF fs_toD(5) [OF f]]
  show ?thesis using r p n F(1,3) G(4,6,8) unfolding roomy_def calm_def by simp
qed

lemma read_sector_total:
  assumes r: "roomy 0 s" and n: "n < disksize s" "n \<notin> ran (locked s)"
  shows "\<exists>u. kbind (bread ROOTDEV n) (\<lambda>b. kbind (get_bdata b) (\<lambda>d. kbind (brelse b) (\<lambda>_. k d))) s = k (view s n) u \<and>
    fs_to s u (view s) (locked s) \<and> pinned u = pinned s \<and> lh_n u = lh_n s"
proof -
  have s: "log_inv s" "calm s" "card (dom (locked s)) + card (pinned s) < NBUF" using r by (auto simp: roomy_def)
  have ok: "bcache_ok s" using s(1) by (simp add: log_inv_def log_wf_def)
  obtain b t where b: "bread ROOTDEV n s = Ok b t" "b \<notin> dom (locked s)"
      "bio_to s t (view s) ((locked s)(b \<mapsto> n)) (pinned s) []" "n \<in> pinned s \<or> memdisk s n = view s n"
    using bread_step [OF ok s(2) n s(3)] by blast
  note T = bio_toD [OF b(3)]
  obtain u where u: "brelse b t = Ok () u" "bio_to t u (view t) ((locked t)(b := None)) (pinned t) []"
    using brelse_step [OF T(1), of b n] T b(4) s(2) calm_bio_to [OF b(3)] by auto
  have "(locked t)(b := None) = locked s" using T(3) b(2) by (auto simp: fun_eq_iff domIff)
  then have B: "bio_to s u (view s) (locked s) (pinned s) []"
    using bio_to_trans [OF b(3) u(2)] T by simp
  have "kbind (bread ROOTDEV n) (\<lambda>b. kbind (get_bdata b) (\<lambda>d. kbind (brelse b) (\<lambda>_. k d))) s = k (view s n) u"
    using b(1) u(1) T by (simp add: kbind_Ok get_bdata_locked [OF T(1), of b n])
  then show ?thesis using log_inv_bio [OF s(1) B] bio_toD(4) [OF B] log_frame(6) [OF bio_toD(7) [OF B]] by blast
qed

lemma get_bdata_fs:
  "log_inv s \<Longrightarrow> locked s b = Some n \<Longrightarrow> kbind (get_bdata b) f s = f (view s n) s"
  by (rule get_bdata_locked) (simp_all add: log_inv_def log_wf_def)

lemma log_write_total:
  assumes s: "log_wf s" "lh_n s < int LOGSIZE" "lh_n s < int (lsize s) - 1" "0 < outstanding s"
  shows "\<exists>t. log_write b s = Ok () t"
proof -
  let ?i = "log_index (lh_sector s) (nat (lh_n s)) (b_sector (bufs s ! b))"
  have l: "length (lh_sector s) = LOGSIZE" "0 \<le> lh_n s" using s(1) by (auto simp: log_wf_def)
  have "?i \<le> nat (lh_n s)" using log_index_facts [of "lh_sector s" "nat (lh_n s)" _ ?i] l s(2) by auto
  then have "?i < length (lh_sector s)" using l s(2) by linarith
  then show ?thesis using s by (simp add: log_write_def lh_set_def kmod_def)
qed

text \<open>Changing a locked sector, logging and unlocking it.\<close>

lemma write_release_total:
  assumes s: "log_inv s" "calm s" "lh_n s < int LOGSIZE" "lh_n s < int (lsize s) - 1" "0 < outstanding s"
    and l: "locked s b = Some n" and n: "n < lstart s" "n < 2 ^ 32" and len: "length (f (view s n)) = BSIZE"
  shows "\<exists>u. kbind (set_bdata b f) (\<lambda>_. kbind (log_write b) (\<lambda>_. kbind (brelse b) (\<lambda>_. k))) s = k u \<and>
    fs_to s u ((view s)(n := f (view s n))) ((locked s)(b := None)) \<and> pinned u = insert n (pinned s) \<and>
    lh_n u \<le> lh_n s + 1"
proof -
  have ok: "bcache_ok s" "log_wf s" using s(1) by (simp_all add: log_inv_def log_wf_def)
  obtain v where v: "set_bdata b f s = Ok () v" "bio_to s v ((view s)(n := f (view s n))) (locked s) (pinned s) []"
    using set_bdata_step [where f = f, OF ok(1) l len] by blast
  note V = bio_toD [OF v(2)] and FV = log_frame [OF bio_toD(7) [OF v(2)]]
  have wf: "log_wf v" by (rule log_wf_frame [OF ok(2) v(2)])
  obtain w where w: "log_write b v = Ok () w" using log_write_total [OF wf] FV s by auto
  have lv: "locked v b = Some n" "n < lstart v" using V l FV n by simp_all
  note W = log_write_Ok [OF wf lv n(2) w]
  have hw: "held w = held v" by (subst W(6)) simp
  have bw: "bcache_ok w" using W(1) by (simp add: log_wf_def)
  obtain u where u: "brelse b w = Ok () u" "bio_to w u (view w) ((locked w)(b := None)) (pinned w) []"
    using brelse_step [OF bw, of b n] W(4,5) lv s(2) hw V(8) by (auto simp: calm_def)
  have run: "kbind (set_bdata b f) (\<lambda>_. kbind (log_write b) (\<lambda>_. kbind (brelse b) (\<lambda>_. k))) s = k u"
    using v(1) w u(1) by (simp add: kbind_Ok)
  have "kbind (set_bdata b f) (\<lambda>_. kbind (log_write b) (\<lambda>_. kbind (brelse b) (\<lambda>_. ret ()))) s = Ok () u"
    using v(1) w u(1) by (simp add: kbind_Ok ret_def)
  from write_release_fs [where f = f and k = "\<lambda>_. ret ()", OF s(1) l n len this]
  have "fs_to s u ((view s)(n := f (view s n))) ((locked s)(b := None))" by auto
  moreover have "lh_n u \<le> lh_n s + 1" using W(7) FV log_frame(6) [OF bio_toD(7) [OF u(2)]] by simp
  moreover have "pinned u = insert n (pinned s)" using bio_toD(4) [OF u(2)] W(5) V(4) by simp
  ultimately show ?thesis using run by blast
qed

text \<open>Locking a sector in a transaction.\<close>

lemma bread_total_fs:
  assumes r: "roomy 0 s" and n: "n < disksize s" "n \<notin> ran (locked s)"
  shows "\<exists>b u. bread ROOTDEV n s = Ok b u \<and>
    fs_to s u (view s) ((locked s)(b \<mapsto> n)) \<and> locked s b = None \<and> locked u b = Some n \<and> saved u n \<and>
    pinned u = pinned s \<and> lh_n u = lh_n s"
proof -
  have s: "log_inv s" "calm s" "card (dom (locked s)) + card (pinned s) < NBUF" using r by (auto simp: roomy_def)
  have ok: "bcache_ok s" using s(1) by (simp add: log_inv_def log_wf_def)
  obtain b t where b: "bread ROOTDEV n s = Ok b t" "b \<notin> dom (locked s)"
      "bio_to s t (view s) ((locked s)(b \<mapsto> n)) (pinned s) []"
    using bread_step [OF ok s(2) n s(3)] by blast
  note T = bio_toD [OF b(3)] and B = bread_fs [OF s(1) b(1)]
  show ?thesis using b(1) B T(4) log_frame(6) [OF T(7)] by blast
qed

lemma update_sector_total:
  assumes r: "roomy 1 s" and n: "n < lstart s" "n < 2 ^ 32" "n \<notin> ran (locked s)" and len: "length (f (view s n)) = BSIZE"
  shows "\<exists>u. kbind (bread ROOTDEV n) (\<lambda>b. kbind (set_bdata b f) (\<lambda>_. kbind (log_write b) (\<lambda>_. kbind (brelse b) (\<lambda>_. k)))) s = k u \<and>
    fs_to s u ((view s)(n := f (view s n))) (locked s) \<and> pinned u = insert n (pinned s) \<and> lh_n u \<le> lh_n s + 1"
proof -
  have s: "log_inv s" using r by (simp add: roomy_def)
  have nd: "n < disksize s" using s n(1) by (auto simp: log_inv_def log_wf_def)
  obtain b t where b: "bread ROOTDEV n s = Ok b t" "fs_to s t (view s) ((locked s)(b \<mapsto> n))"
      "locked s b = None" "locked t b = Some n" "pinned t = pinned s" "lh_n t = lh_n s"
    using bread_total_fs [OF roomy_mono [OF r] nd n(3)] by auto
  note T = fs_toD [OF b(2)] and G = log_frame_fields [OF fs_toD(5) [OF b(2)]]
  have c: "calm t" "lh_n t < int LOGSIZE" "lh_n t < int (lsize t) - 1" "0 < outstanding t"
    using r b(6) G(4,6,8) by (auto simp: roomy_def calm_def)
  have lt: "n < lstart t" "length (f (view t n)) = BSIZE" using n G(5) len T(2) by simp_all
  obtain u where u: "kbind (set_bdata b f) (\<lambda>_. kbind (log_write b) (\<lambda>_. kbind (brelse b) (\<lambda>_. k))) t = k u"
      "fs_to t u ((view t)(n := f (view t n))) ((locked t)(b := None))" "pinned u = insert n (pinned t)" "lh_n u \<le> lh_n t + 1"
    using write_release_total [where f = f, OF T(1) c b(4) lt(1) n(2) lt(2)] by blast
  have "(locked t)(b := None) = locked s" using T(3) b(3) by (auto simp: fun_eq_iff)
  then have "fs_to s u ((view s)(n := f (view s n))) (locked s)" using fs_to_trans [OF b(2) u(2)] T(2) by simp
  then show ?thesis using b(1,5,6) u by (intro exI [of _ u]) (simp add: kbind_Ok)
qed

end
