(* ===== verification/Fs.thy ===== *)
theory Fs
  imports Log
begin

text \<open>
  The file system of \<open>fs.c\<close> with the on-disk layout of \<open>fs.h\<close>, the in-memory inodes of
  \<open>file.h\<close> and \<open>stat.h\<close>: block allocation in the bitmap, inode allocation and the inode
  cache, the blocks of a file, reading and writing, directories and path names.  An inode
  pointer is the index of the entry of \<open>icache.inode\<close>; a null pointer is \<open>None\<close>.  File
  names and paths are byte lists without the terminating NUL.  The table \<open>devsw\<close> of
  function pointers is the argument \<open>dsw\<close> of the routines that call through it.
\<close>

section \<open>Layout\<close>

definition NDIRECT :: nat where "NDIRECT = 12"
definition NINDIRECT :: nat where "NINDIRECT = BSIZE div 4"
definition MAXFILE :: nat where "MAXFILE = NDIRECT + NINDIRECT"
definition DINODE_SIZE :: nat where "DINODE_SIZE = 64"
definition IPB :: nat where "IPB = BSIZE div DINODE_SIZE"
definition IBLOCK :: "nat \<Rightarrow> nat" where "IBLOCK i = i div IPB + 2"
definition BPB :: nat where "BPB = BSIZE * 8"
definition BBLOCK :: "nat \<Rightarrow> nat \<Rightarrow> nat" where "BBLOCK b ninodes = b div BPB + ninodes div IPB + 3"
definition DIRSIZ :: nat where "DIRSIZ = 14"
definition DIRENT_SIZE :: nat where "DIRENT_SIZE = 16"
definition ROOTINO :: nat where "ROOTINO = 1"
definition NINODE :: nat where "NINODE = 50"
definition NDEV :: int where "NDEV = 10"
definition T_DIR :: int where "T_DIR = 1"
definition T_FILE :: int where "T_FILE = 2"
definition T_DEV :: int where "T_DEV = 3"

definition s16 :: "nat \<Rightarrow> int" where
  "s16 n = (if n mod 2 ^ 16 < 2 ^ 15 then int (n mod 2 ^ 16) else int (n mod 2 ^ 16) - 2 ^ 16)"

definition u16 :: "int \<Rightarrow> nat" where
  "u16 x = nat (x mod 2 ^ 16)"

record inode =
  i_dev :: nat
  i_inum :: nat
  i_ref :: int
  i_busy :: bool
  i_valid :: bool
  i_type :: int
  i_major :: int
  i_minor :: int
  i_nlink :: int
  i_size :: nat
  i_addrs :: "nat list"

record stat =
  st_type :: int
  st_dev :: nat
  st_ino :: nat
  st_nlink :: int
  st_size :: nat

record fs_state = log_state +
  inodes :: "inode list"

text \<open>An entry of \<open>devsw\<close>: the read routine returns its result and the bytes it delivered.\<close>

record 's devsw_entry =
  dev_read :: "(nat \<Rightarrow> nat \<Rightarrow> ('s, int \<times> byte list) kmon) option"
  dev_write :: "(nat \<Rightarrow> byte list \<Rightarrow> ('s, int) kmon) option"

type_synonym 's devsw = "int \<Rightarrow> 's devsw_entry"

definition upd_inode :: "nat \<Rightarrow> (inode \<Rightarrow> inode) \<Rightarrow> ('z fs_state_scheme) \<Rightarrow> ('z fs_state_scheme)" where
  "upd_inode i f s = s\<lparr>inodes := (inodes s)[i := f (inodes s ! i)]\<rparr>"

definition ip_get :: "nat \<Rightarrow> (inode \<Rightarrow> 'a) \<Rightarrow> ('z fs_state_scheme, 'a) kmon" where
  "ip_get ip f = kget (\<lambda>s. f (inodes s ! ip))"

definition ip_set :: "nat \<Rightarrow> (inode \<Rightarrow> inode) \<Rightarrow> ('z fs_state_scheme, unit) kmon" where
  "ip_set ip f = kmod (upd_inode ip f)"

text \<open>The member access \<open>((struct dinode*)bp->data + inum%IPB)->...\<close> of a block of inodes.\<close>

definition dinode_off :: "nat \<Rightarrow> nat" where
  "dinode_off inum = inum mod IPB * DINODE_SIZE"

definition dip_type :: "nat \<Rightarrow> block \<Rightarrow> int" where
  "dip_type inum d = s16 (get_le 2 (dinode_off inum) d)"

definition put_dinode :: "nat \<Rightarrow> inode \<Rightarrow> block \<Rightarrow> block" where
  "put_dinode inum ip d = (let o' = dinode_off inum in
     overlay (o' + 12) (concat (map (enc_le 4) (i_addrs ip)))
       (put_le 4 (o' + 8) (i_size ip)
       (put_le 2 (o' + 6) (u16 (i_nlink ip))
       (put_le 2 (o' + 4) (u16 (i_minor ip))
       (put_le 2 (o' + 2) (u16 (i_major ip))
       (put_le 2 o' (u16 (i_type ip)) d))))))"

definition load_dinode :: "nat \<Rightarrow> block \<Rightarrow> inode \<Rightarrow> inode" where
  "load_dinode inum d ip = (let o' = dinode_off inum in
     ip\<lparr>i_type := s16 (get_le 2 o' d), i_major := s16 (get_le 2 (o' + 2) d),
        i_minor := s16 (get_le 2 (o' + 4) d), i_nlink := s16 (get_le 2 (o' + 6) d),
        i_size := get_le 4 (o' + 8) d,
        i_addrs := map (\<lambda>i. get_le 4 (o' + 12 + 4 * i) d) [0..<NDIRECT + 1]\<rparr>)"

section \<open>Blocks\<close>

definition bzero :: "nat \<Rightarrow> nat \<Rightarrow> ('z log_state_scheme, unit) kmon" where
  "bzero dev bno =
     kbind (bread dev bno) (\<lambda>bp.
     kbind (set_bdata bp (\<lambda>_. replicate BSIZE 0)) (\<lambda>_.
     kbind (log_write bp) (\<lambda>_.
     kbind (brelse bp) (\<lambda>_. ret ()))))"

text \<open>The bitmap operations on byte \<open>bi/8\<close> with the mask \<open>1 << (bi % 8)\<close>.\<close>

definition bit_mask :: "nat \<Rightarrow> byte" where
  "bit_mask bi = push_bit (bi mod 8) 1"

definition bm_test :: "block \<Rightarrow> nat \<Rightarrow> bool" where
  "bm_test d bi \<longleftrightarrow> and (d ! (bi div 8)) (bit_mask bi) \<noteq> 0"

definition bm_set :: "nat \<Rightarrow> block \<Rightarrow> block" where
  "bm_set bi d = d[bi div 8 := or (d ! (bi div 8)) (bit_mask bi)]"

definition bm_clear :: "nat \<Rightarrow> block \<Rightarrow> block" where
  "bm_clear bi d = d[bi div 8 := and (d ! (bi div 8)) (not (bit_mask bi))]"

text \<open>\<open>balloc\<close>: the outer loop over bitmap blocks, the inner loop over their bits.\<close>

definition balloc_block :: "nat \<Rightarrow> superblock \<Rightarrow> nat \<Rightarrow> ('z log_state_scheme, nat option) kmon" where
  "balloc_block dev sb b =
     kbind (bread dev (BBLOCK b (sb_ninodes sb))) (\<lambda>bp.
     kbind (get_bdata bp) (\<lambda>d.
     case find (\<lambda>bi. \<not> bm_test d bi) [0..<min BPB (sb_size sb - b)] of
       Some bi \<Rightarrow>
         kbind (set_bdata bp (bm_set bi)) (\<lambda>_.
         kbind (log_write bp) (\<lambda>_.
         kbind (brelse bp) (\<lambda>_.
         kbind (bzero dev (b + bi)) (\<lambda>_. ret (Some (b + bi))))))
     | None \<Rightarrow> kbind (brelse bp) (\<lambda>_. ret None)))"

definition balloc :: "nat \<Rightarrow> ('z log_state_scheme, nat) kmon" where
  "balloc dev =
     kbind (readsb dev) (\<lambda>sb.
     kbind (kfirst (map (\<lambda>k. k * BPB) [0..<(sb_size sb + BPB - 1) div BPB]) (balloc_block dev sb)) (\<lambda>r. case r of
       Some b \<Rightarrow> ret b
     | None \<Rightarrow> kpanic ''balloc: out of blocks''))"

definition bfree :: "nat \<Rightarrow> nat \<Rightarrow> ('z log_state_scheme, unit) kmon" where
  "bfree dev b =
     kbind (readsb dev) (\<lambda>sb.
     kbind (bread dev (BBLOCK b (sb_ninodes sb))) (\<lambda>bp.
     kbind (get_bdata bp) (\<lambda>d.
     if \<not> bm_test d (b mod BPB) then kpanic ''freeing free block''
     else kbind (set_bdata bp (bm_clear (b mod BPB))) (\<lambda>_.
          kbind (log_write bp) (\<lambda>_.
          kbind (brelse bp) (\<lambda>_. ret ()))))))"

section \<open>The inode cache\<close>

definition iget :: "nat \<Rightarrow> nat \<Rightarrow> ('z fs_state_scheme, nat) kmon" where
  "iget dev inum =
     kbind (acquire IcacheLock) (\<lambda>_.
     kbind (kget inodes) (\<lambda>is.
     case find (\<lambda>i. i_ref (is ! i) > 0 \<and> i_dev (is ! i) = dev \<and> i_inum (is ! i) = inum) [0..<NINODE] of
       Some i \<Rightarrow>
         kbind (ip_set i (\<lambda>x. x\<lparr>i_ref := i_ref x + 1\<rparr>)) (\<lambda>_.
         kbind (release IcacheLock) (\<lambda>_. ret i))
     | None \<Rightarrow> (case find (\<lambda>i. i_ref (is ! i) = 0) [0..<NINODE] of
         None \<Rightarrow> kpanic ''iget: no inodes''
       | Some i \<Rightarrow>
           kbind (ip_set i (\<lambda>x. x\<lparr>i_dev := dev, i_inum := inum, i_ref := 1, i_busy := False, i_valid := False\<rparr>)) (\<lambda>_.
           kbind (release IcacheLock) (\<lambda>_. ret i)))))"

definition idup :: "nat \<Rightarrow> ('z fs_state_scheme, nat) kmon" where
  "idup ip =
     kbind (acquire IcacheLock) (\<lambda>_.
     kbind (ip_set ip (\<lambda>x. x\<lparr>i_ref := i_ref x + 1\<rparr>)) (\<lambda>_.
     kbind (release IcacheLock) (\<lambda>_. ret ip)))"

definition ialloc_try :: "nat \<Rightarrow> int \<Rightarrow> nat \<Rightarrow> ('z fs_state_scheme, nat option) kmon" where
  "ialloc_try dev type inum =
     kbind (bread dev (IBLOCK inum)) (\<lambda>bp.
     kbind (get_bdata bp) (\<lambda>d.
     if dip_type inum d = 0 then
       kbind (set_bdata bp (overlay (dinode_off inum) (replicate DINODE_SIZE 0))) (\<lambda>_.
       kbind (set_bdata bp (put_le 2 (dinode_off inum) (u16 type))) (\<lambda>_.
       kbind (log_write bp) (\<lambda>_.
       kbind (brelse bp) (\<lambda>_.
       kbind (iget dev inum) (\<lambda>ip. ret (Some ip))))))
     else kbind (brelse bp) (\<lambda>_. ret None)))"

definition ialloc :: "nat \<Rightarrow> int \<Rightarrow> ('z fs_state_scheme, nat) kmon" where
  "ialloc dev type =
     kbind (readsb dev) (\<lambda>sb.
     kbind (kfirst [1..<sb_ninodes sb] (ialloc_try dev type)) (\<lambda>r. case r of
       Some ip \<Rightarrow> ret ip
     | None \<Rightarrow> kpanic ''ialloc: no inodes''))"

definition iupdate :: "nat \<Rightarrow> ('z fs_state_scheme, unit) kmon" where
  "iupdate ip =
     kbind (ip_get ip (\<lambda>x. x)) (\<lambda>x.
     kbind (bread (i_dev x) (IBLOCK (i_inum x))) (\<lambda>bp.
     kbind (set_bdata bp (put_dinode (i_inum x) x)) (\<lambda>_.
     kbind (log_write bp) (\<lambda>_.
     kbind (brelse bp) (\<lambda>_. ret ())))))"

definition ilock :: "nat option \<Rightarrow> ('z fs_state_scheme, unit) kmon" where
  "ilock p = (case p of None \<Rightarrow> kpanic ''ilock'' | Some ip \<Rightarrow>
     kbind (ip_get ip i_ref) (\<lambda>r. if r < 1 then kpanic ''ilock'' else
     kbind (acquire IcacheLock) (\<lambda>_.
     kbind (ip_get ip i_busy) (\<lambda>busy. if busy then sleep (ChanInode ip) IcacheLock else
     kbind (ip_set ip (\<lambda>x. x\<lparr>i_busy := True\<rparr>)) (\<lambda>_.
     kbind (release IcacheLock) (\<lambda>_.
     kbind (ip_get ip (\<lambda>x. x)) (\<lambda>x. if i_valid x then ret () else
     kbind (bread (i_dev x) (IBLOCK (i_inum x))) (\<lambda>bp.
     kbind (get_bdata bp) (\<lambda>d.
     kbind (ip_set ip (load_dinode (i_inum x) d)) (\<lambda>_.
     kbind (brelse bp) (\<lambda>_.
     kbind (ip_set ip (\<lambda>x. x\<lparr>i_valid := True\<rparr>)) (\<lambda>_.
     kbind (ip_get ip i_type) (\<lambda>t. if t = 0 then kpanic ''ilock: no type'' else ret ())))))))))))))"

definition iunlock :: "nat option \<Rightarrow> ('z fs_state_scheme, unit) kmon" where
  "iunlock p = (case p of None \<Rightarrow> kpanic ''iunlock'' | Some ip \<Rightarrow>
     kbind (ip_get ip (\<lambda>x. \<not> i_busy x \<or> i_ref x < 1)) (\<lambda>bad. if bad then kpanic ''iunlock'' else
     kbind (acquire IcacheLock) (\<lambda>_.
     kbind (ip_set ip (\<lambda>x. x\<lparr>i_busy := False\<rparr>)) (\<lambda>_.
     kbind (wakeup (ChanInode ip)) (\<lambda>_.
     release IcacheLock)))))"

section \<open>Inode content\<close>

definition bmap :: "nat \<Rightarrow> nat \<Rightarrow> ('z fs_state_scheme, nat) kmon" where
  "bmap ip bn =
     kbind (ip_get ip i_dev) (\<lambda>dev.
     if bn < NDIRECT then
       kbind (ip_get ip (\<lambda>x. i_addrs x ! bn)) (\<lambda>addr.
       if addr = 0 then
         kbind (balloc dev) (\<lambda>a.
         kbind (ip_set ip (\<lambda>x. x\<lparr>i_addrs := (i_addrs x)[bn := a]\<rparr>)) (\<lambda>_. ret a))
       else ret addr)
     else if bn - NDIRECT < NINDIRECT then
       kbind (ip_get ip (\<lambda>x. i_addrs x ! NDIRECT)) (\<lambda>addr.
       kbind (if addr = 0 then
                kbind (balloc dev) (\<lambda>a.
                kbind (ip_set ip (\<lambda>x. x\<lparr>i_addrs := (i_addrs x)[NDIRECT := a]\<rparr>)) (\<lambda>_. ret a))
              else ret addr) (\<lambda>ind.
       kbind (bread dev ind) (\<lambda>bp.
       kbind (get_bdata bp) (\<lambda>d.
       kbind (if get_le 4 (4 * (bn - NDIRECT)) d = 0 then
                kbind (balloc dev) (\<lambda>a.
                kbind (set_bdata bp (put_le 4 (4 * (bn - NDIRECT)) a)) (\<lambda>_.
                kbind (log_write bp) (\<lambda>_. ret a)))
              else ret (get_le 4 (4 * (bn - NDIRECT)) d)) (\<lambda>a.
       kbind (brelse bp) (\<lambda>_. ret a))))))
     else kpanic ''bmap: out of range'')"

definition itrunc :: "nat \<Rightarrow> ('z fs_state_scheme, unit) kmon" where
  "itrunc ip =
     kbind (ip_get ip i_dev) (\<lambda>dev.
     kbind (kfor [0..<NDIRECT] (\<lambda>i.
       kbind (ip_get ip (\<lambda>x. i_addrs x ! i)) (\<lambda>a.
       kwhen (a \<noteq> 0)
         (kbind (bfree dev a) (\<lambda>_.
          ip_set ip (\<lambda>x. x\<lparr>i_addrs := (i_addrs x)[i := 0]\<rparr>)))))) (\<lambda>_.
     kbind (ip_get ip (\<lambda>x. i_addrs x ! NDIRECT)) (\<lambda>ind.
     kbind (kwhen (ind \<noteq> 0)
       (kbind (bread dev ind) (\<lambda>bp.
        kbind (kfor [0..<NINDIRECT] (\<lambda>j.
          kbind (get_bdata bp) (\<lambda>d.
          kwhen (get_le 4 (4 * j) d \<noteq> 0) (bfree dev (get_le 4 (4 * j) d))))) (\<lambda>_.
        kbind (brelse bp) (\<lambda>_.
        kbind (bfree dev ind) (\<lambda>_.
        ip_set ip (\<lambda>x. x\<lparr>i_addrs := (i_addrs x)[NDIRECT := 0]\<rparr>))))))) (\<lambda>_.
     kbind (ip_set ip (\<lambda>x. x\<lparr>i_size := 0\<rparr>)) (\<lambda>_.
     iupdate ip)))))"

definition iput :: "nat \<Rightarrow> ('z fs_state_scheme, unit) kmon" where
  "iput ip =
     kbind (acquire IcacheLock) (\<lambda>_.
     kbind (ip_get ip (\<lambda>x. i_ref x = 1 \<and> i_valid x \<and> i_nlink x = 0)) (\<lambda>last.
     kbind (kwhen last
       (kbind (ip_get ip i_busy) (\<lambda>busy. if busy then kpanic ''iput busy'' else
        kbind (ip_set ip (\<lambda>x. x\<lparr>i_busy := True\<rparr>)) (\<lambda>_.
        kbind (release IcacheLock) (\<lambda>_.
        kbind (itrunc ip) (\<lambda>_.
        kbind (ip_set ip (\<lambda>x. x\<lparr>i_type := 0\<rparr>)) (\<lambda>_.
        kbind (iupdate ip) (\<lambda>_.
        kbind (acquire IcacheLock) (\<lambda>_.
        kbind (ip_set ip (\<lambda>x. x\<lparr>i_busy := False, i_valid := False\<rparr>)) (\<lambda>_.
        wakeup (ChanInode ip))))))))))) (\<lambda>_.
     kbind (ip_set ip (\<lambda>x. x\<lparr>i_ref := i_ref x - 1\<rparr>)) (\<lambda>_.
     release IcacheLock))))"

definition iunlockput :: "nat \<Rightarrow> ('z fs_state_scheme, unit) kmon" where
  "iunlockput ip = kbind (iunlock (Some ip)) (\<lambda>_. iput ip)"

definition stati :: "nat \<Rightarrow> ('z fs_state_scheme, stat) kmon" where
  "stati ip = ip_get ip (\<lambda>x. \<lparr>st_type = i_type x, st_dev = i_dev x, st_ino = i_inum x,
     st_nlink = i_nlink x, st_size = i_size x\<rparr>)"

section \<open>Reading and writing\<close>

text \<open>The block loop of \<open>readi\<close>, \<open>n\<close> being \<open>n - tot\<close>; the result is what \<open>memmove\<close>
  delivers at \<open>dst\<close>.\<close>

function readi_loop :: "nat \<Rightarrow> nat \<Rightarrow> nat \<Rightarrow> ('z fs_state_scheme, byte list) kmon" where
  "readi_loop ip off n =
     (if n = 0 then ret []
      else let m = min n (BSIZE - off mod BSIZE) in
        kbind (ip_get ip i_dev) (\<lambda>dev.
        kbind (bmap ip (off div BSIZE)) (\<lambda>a.
        kbind (bread dev a) (\<lambda>bp.
        kbind (get_bdata bp) (\<lambda>d.
        kbind (brelse bp) (\<lambda>_.
        kbind (readi_loop ip (off + m) (n - m)) (\<lambda>bs.
        ret (subrange (off mod BSIZE) m d @ bs))))))))"
  by auto
termination
  by (relation "measure (\<lambda>(ip, off, n). n)") (auto simp: BSIZE_def)

definition readi :: "('z fs_state_scheme) devsw \<Rightarrow> nat \<Rightarrow> nat \<Rightarrow> nat \<Rightarrow> ('z fs_state_scheme, int \<times> byte list) kmon" where
  "readi dsw ip off n =
     kbind (ip_get ip (\<lambda>x. x)) (\<lambda>x.
     if i_type x = T_DEV then
       (if i_major x < 0 \<or> i_major x \<ge> NDEV then ret (- 1, [])
        else case dev_read (dsw (i_major x)) of None \<Rightarrow> ret (- 1, []) | Some f \<Rightarrow> f ip n)
     else if off > i_size x \<or> (off + n) mod 2 ^ 32 < off then ret (- 1, [])
     else let n' = (if (off + n) mod 2 ^ 32 > i_size x then i_size x - off else n) in
       kbind (readi_loop ip off n') (\<lambda>bs. ret (s32 n', bs)))"

text \<open>The block loop of \<open>writei\<close>, over the bytes of \<open>src\<close> still to be written; it returns the
  offset it has reached.\<close>

function writei_loop :: "nat \<Rightarrow> nat \<Rightarrow> byte list \<Rightarrow> ('z fs_state_scheme, nat) kmon" where
  "writei_loop ip off bs =
     (if bs = [] then ret off
      else let m = min (length bs) (BSIZE - off mod BSIZE) in
        kbind (ip_get ip i_dev) (\<lambda>dev.
        kbind (bmap ip (off div BSIZE)) (\<lambda>a.
        kbind (bread dev a) (\<lambda>bp.
        kbind (set_bdata bp (overlay (off mod BSIZE) (take m bs))) (\<lambda>_.
        kbind (log_write bp) (\<lambda>_.
        kbind (brelse bp) (\<lambda>_.
        writei_loop ip (off + m) (drop m bs))))))))"
  by auto
termination
  by (relation "measure (\<lambda>(ip, off, bs). length bs)") (auto simp: BSIZE_def)

definition writei :: "('z fs_state_scheme) devsw \<Rightarrow> nat \<Rightarrow> byte list \<Rightarrow> nat \<Rightarrow> ('z fs_state_scheme, int) kmon" where
  "writei dsw ip src off =
     kbind (ip_get ip (\<lambda>x. x)) (\<lambda>x.
     let n = length src in
     if i_type x = T_DEV then
       (if i_major x < 0 \<or> i_major x \<ge> NDEV then ret (- 1)
        else case dev_write (dsw (i_major x)) of None \<Rightarrow> ret (- 1) | Some f \<Rightarrow> f ip src)
     else if off > i_size x \<or> (off + n) mod 2 ^ 32 < off then ret (- 1)
     else if (off + n) mod 2 ^ 32 > MAXFILE * BSIZE then ret (- 1)
     else kbind (writei_loop ip off src) (\<lambda>off'.
          kbind (ip_get ip i_size) (\<lambda>sz.
          kbind (kwhen (n > 0 \<and> off' > sz)
                  (kbind (ip_set ip (\<lambda>x. x\<lparr>i_size := off'\<rparr>)) (\<lambda>_. iupdate ip))) (\<lambda>_.
          ret (s32 n)))))"

declare readi_loop.simps [simp del] writei_loop.simps [simp del]

section \<open>Directories\<close>

text \<open>A directory entry is an inode number and a name of \<open>DIRSIZ\<close> bytes, NUL-padded when
  shorter.  \<open>name_at\<close> is a name as memory: what follows a short name is its NUL.\<close>

definition name_at :: "byte list \<Rightarrow> nat \<Rightarrow> byte" where
  "name_at nm i = (if i < length nm then nm ! i else 0)"

definition namecmp :: "byte list \<Rightarrow> byte list \<Rightarrow> int" where
  "namecmp s t = strncmp (name_at s) (name_at t) DIRSIZ"

definition de_inum :: "byte list \<Rightarrow> nat" where "de_inum de = get_le 2 0 de"
definition de_name :: "byte list \<Rightarrow> byte list" where "de_name de = subrange 2 DIRSIZ de"

text \<open>\<open>strncpy(de.name, name, DIRSIZ); de.inum = inum\<close>.\<close>

definition mk_dirent :: "byte list \<Rightarrow> nat \<Rightarrow> byte list" where
  "mk_dirent nm inum = enc_le 2 inum @ take DIRSIZ (nm @ replicate DIRSIZ 0)"

definition dir_offsets :: "nat \<Rightarrow> nat list" where
  "dir_offsets sz = map (\<lambda>k. k * DIRENT_SIZE) [0..<(sz + DIRENT_SIZE - 1) div DIRENT_SIZE]"

definition dirlookup :: "('z fs_state_scheme) devsw \<Rightarrow> nat \<Rightarrow> byte list \<Rightarrow> ('z fs_state_scheme, (nat \<times> nat) option) kmon" where
  "dirlookup dsw dp nm =
     kbind (ip_get dp (\<lambda>x. x)) (\<lambda>x.
     if i_type x \<noteq> T_DIR then kpanic ''dirlookup not DIR''
     else kfirst (dir_offsets (i_size x)) (\<lambda>off.
       kbind (readi dsw dp off DIRENT_SIZE) (\<lambda>r. case r of (n, de) \<Rightarrow>
       if n \<noteq> int DIRENT_SIZE then kpanic ''dirlink read''
       else if de_inum de = 0 then ret None
       else if namecmp nm (de_name de) = 0 then
         kbind (iget (i_dev x) (de_inum de)) (\<lambda>ip. ret (Some (ip, off)))
       else ret None)))"

definition dirlink :: "('z fs_state_scheme) devsw \<Rightarrow> nat \<Rightarrow> byte list \<Rightarrow> nat \<Rightarrow> ('z fs_state_scheme, int) kmon" where
  "dirlink dsw dp nm inum =
     kbind (dirlookup dsw dp nm) (\<lambda>r. case r of
       Some (ip, _) \<Rightarrow> kbind (iput ip) (\<lambda>_. ret (- 1))
     | None \<Rightarrow>
        kbind (ip_get dp i_size) (\<lambda>sz.
        kbind (kfirst (dir_offsets sz) (\<lambda>off.
          kbind (readi dsw dp off DIRENT_SIZE) (\<lambda>r. case r of (n, de) \<Rightarrow>
          if n \<noteq> int DIRENT_SIZE then kpanic ''dirlink read''
          else ret (if de_inum de = 0 then Some off else None)))) (\<lambda>o'.
        let off = (case o' of Some off \<Rightarrow> off | None \<Rightarrow> length (dir_offsets sz) * DIRENT_SIZE) in
        kbind (writei dsw dp (mk_dirent nm inum) off) (\<lambda>w.
        if w \<noteq> int DIRENT_SIZE then kpanic ''dirlink'' else ret 0))))"

section \<open>Paths\<close>

definition slash :: byte where "slash = 47"

definition skipelem :: "byte list \<Rightarrow> (byte list \<times> byte list) option" where
  "skipelem path = (let p = dropWhile (\<lambda>c. c = slash) path in
     if p = [] then None
     else let s = takeWhile (\<lambda>c. c \<noteq> slash) p;
              rest = dropWhile (\<lambda>c. c = slash) (dropWhile (\<lambda>c. c \<noteq> slash) p) in
       Some (rest, if length s \<ge> DIRSIZ then take DIRSIZ s else s))"

lemma skipelem_shorter: "skipelem path = Some (rest, nm) \<Longrightarrow> length rest < length path"
proof -
  assume a: "skipelem path = Some (rest, nm)"
  let ?p = "dropWhile (\<lambda>c. c = slash) path"
  have ne: "?p \<noteq> []" and r: "rest = dropWhile (\<lambda>c. c = slash) (dropWhile (\<lambda>c. c \<noteq> slash) ?p)"
    using a by (auto simp: skipelem_def Let_def split: if_splits)
  then obtain c cs where p: "?p = c # cs" by (cases ?p) auto
  then have "c \<noteq> slash" using hd_dropWhile [OF ne] by simp
  then have "length rest \<le> length cs" using r p
    by (simp add: le_trans [OF length_dropWhile_le length_dropWhile_le])
  then show ?thesis using p length_dropWhile_le [of "\<lambda>c. c = slash" path] by simp
qed

text \<open>\<open>namex\<close> returns the inode, and for \<open>nameiparent\<close> also the last element.\<close>

function namex_loop :: "('z fs_state_scheme) devsw \<Rightarrow> bool \<Rightarrow> nat \<Rightarrow> byte list \<Rightarrow> byte list \<Rightarrow>
    ('z fs_state_scheme, (nat \<times> byte list) option) kmon" where
  "namex_loop dsw parent ip path nm =
     (case skipelem path of
       None \<Rightarrow> if parent then kbind (iput ip) (\<lambda>_. ret None) else ret (Some (ip, nm))
     | Some (rest, nm') \<Rightarrow>
        kbind (ilock (Some ip)) (\<lambda>_.
        kbind (ip_get ip i_type) (\<lambda>t.
        if t \<noteq> T_DIR then kbind (iunlockput ip) (\<lambda>_. ret None)
        else if parent \<and> rest = [] then kbind (iunlock (Some ip)) (\<lambda>_. ret (Some (ip, nm')))
        else kbind (dirlookup dsw ip nm') (\<lambda>r. case r of
            None \<Rightarrow> kbind (iunlockput ip) (\<lambda>_. ret None)
          | Some (next, _) \<Rightarrow> kbind (iunlockput ip) (\<lambda>_. namex_loop dsw parent next rest nm')))))"
  by pat_completeness auto
termination
  by (relation "measure (\<lambda>(dsw, parent, ip, path, nm). length path)") (auto dest: skipelem_shorter)

declare namex_loop.simps [simp del]

definition cwd :: "('z fs_state_scheme, nat) kmon" where
  "cwd = kbind (kget (\<lambda>s. case cur s of None \<Rightarrow> None | Some p \<Rightarrow> p_cwd (procs s ! p))) (\<lambda>c. case c of
     None \<Rightarrow> kundef ''proc->cwd'' | Some ip \<Rightarrow> ret ip)"

definition namex :: "('z fs_state_scheme) devsw \<Rightarrow> bool \<Rightarrow> byte list \<Rightarrow>
    ('z fs_state_scheme, (nat \<times> byte list) option) kmon" where
  "namex dsw parent path =
     kbind (if path \<noteq> [] \<and> hd path = slash then iget ROOTDEV ROOTINO else kbind cwd idup) (\<lambda>ip.
     namex_loop dsw parent ip path [])"

definition namei :: "('z fs_state_scheme) devsw \<Rightarrow> byte list \<Rightarrow> ('z fs_state_scheme, nat option) kmon" where
  "namei dsw path = kbind (namex dsw False path) (\<lambda>r. ret (map_option fst r))"

definition nameiparent :: "('z fs_state_scheme) devsw \<Rightarrow> byte list \<Rightarrow>
    ('z fs_state_scheme, (nat \<times> byte list) option) kmon" where
  "nameiparent dsw path = namex dsw True path"

section \<open>Facts: blocks\<close>

lemma fs_frame:
  assumes "log_frame_to s t"
  shows "inodes t = inodes s" "fs_state.more t = fs_state.more s"
proof -
  note t = assms [unfolded log_frame_to_def]
  show "inodes t = inodes s" by (subst t) simp
  show "fs_state.more t = fs_state.more s" by (subst t) simp
qed

lemma readsb_fs:
  assumes "log_inv s" "kbind (readsb ROOTDEV) k s = Ok r t"
  shows "\<exists>u. fs_to s u (view s) (locked s) \<and> k (dec_superblock (view s 1)) u = Ok r t"
  using read_sector_fs [OF assms(1), of 1 "\<lambda>d. k (dec_superblock d)"] assms(2) by (auto simp: readsb_def)

lemma log_inv_length:
  assumes "log_inv s" "n < disksize s"
  shows "length (view s n) = BSIZE"
  using view_length [OF log_wf_bcache assms(2)] assms(1) by (simp add: log_inv_def)

lemma lstart_disksize: "log_inv s \<Longrightarrow> n < lstart s \<Longrightarrow> n < disksize s"
  by (auto simp: log_inv_def log_wf_def)

lemma fs_to_lstart: "fs_to s t V L \<Longrightarrow> lstart t = lstart s \<and> disksize t = disksize s \<and> held t = held s"
  using log_frame_fields unfolding fs_to_def by blast

lemma bzero_fs:
  assumes "log_inv s" "n < lstart s" "n < 2 ^ 32" "kbind (bzero ROOTDEV n) k s = Ok r t"
  shows "\<exists>u. fs_to s u ((view s)(n := replicate BSIZE 0)) (locked s) \<and> k () u = Ok r t"
  using update_sector_fs [OF assms(1-3), of "\<lambda>_. replicate BSIZE 0" "k ()"] assms(4) by (simp add: bzero_def)

subsection \<open>Bits\<close>

lemma bit_mask_bit: "bit (bit_mask i) j \<longleftrightarrow> j = i mod 8 \<and> j < 8"
  by (auto simp: bit_mask_def bit_simps)

lemma bm_test_bit: "bm_test d i \<longleftrightarrow> bit (d ! (i div 8)) (i mod 8)"
proof
  assume "bm_test d i"
  then obtain j where "bit (and (d ! (i div 8)) (bit_mask i)) j"
    by (auto simp: bm_test_def bit_eq_iff)
  then show "bit (d ! (i div 8)) (i mod 8)" by (auto simp: bit_and_iff bit_mask_bit)
next
  assume "bit (d ! (i div 8)) (i mod 8)"
  then have "bit (and (d ! (i div 8)) (bit_mask i)) (i mod 8)" by (simp add: bit_and_iff bit_mask_bit)
  then show "bm_test d i" by (auto simp: bm_test_def bit_eq_iff intro!: exI [of _ "i mod 8"])
qed

lemma bm_set_test:
  "j div 8 < length d \<Longrightarrow> i div 8 < length d \<Longrightarrow> bm_test (bm_set i d) j \<longleftrightarrow> j = i \<or> bm_test d j"
  unfolding bm_test_bit bm_set_def
  by (cases "i div 8 = j div 8") (auto simp: bit_or_iff bit_mask_bit, metis div_mult_mod_eq)

lemma bm_clear_test:
  "j div 8 < length d \<Longrightarrow> i div 8 < length d \<Longrightarrow> bm_test (bm_clear i d) j \<longleftrightarrow> j \<noteq> i \<and> bm_test d j"
  unfolding bm_test_bit bm_clear_def
  by (cases "i div 8 = j div 8") (auto simp: bit_and_iff bit_not_iff bit_mask_bit, metis div_mult_mod_eq)

lemma length_bm [simp]: "length (bm_set i d) = length d" "length (bm_clear i d) = length d"
  by (simp_all add: bm_set_def bm_clear_def)

subsection \<open>Allocating and freeing a block\<close>

text \<open>Whether block \<open>b\<close> is marked in use on the disk \<open>V\<close>; the bitmap marks the log area and
  lies below it.\<close>

definition in_use :: "(nat \<Rightarrow> block) \<Rightarrow> nat \<Rightarrow> bool" where
  "in_use V b \<longleftrightarrow> bm_test (V (BBLOCK b (sb_ninodes (dec_superblock (V 1))))) (b mod BPB)"

definition bitmap_ok :: "nat \<Rightarrow> (nat \<Rightarrow> block) \<Rightarrow> bool" where
  "bitmap_ok L V \<longleftrightarrow> L < 2 ^ 32 \<and> (\<forall>b < sb_size (dec_superblock (V 1)).
     BBLOCK b (sb_ninodes (dec_superblock (V 1))) < L \<and>
     (L \<le> b \<or> b = 1 \<or> (\<exists>c < sb_size (dec_superblock (V 1)). b = BBLOCK c (sb_ninodes (dec_superblock (V 1)))) \<longrightarrow> in_use V b))"

definition balloc_view :: "(nat \<Rightarrow> block) \<Rightarrow> nat \<Rightarrow> nat \<Rightarrow> block" where
  "balloc_view V a = (let n = BBLOCK a (sb_ninodes (dec_superblock (V 1))) in
     V(n := bm_set (a mod BPB) (V n), a := replicate BSIZE 0))"

lemma BBLOCK_split:
  assumes "bi < BPB"
  shows "BBLOCK (k * BPB + bi) n = BBLOCK (k * BPB) n" "(k * BPB + bi) mod BPB = bi"
  using assms by (simp_all add: BBLOCK_def)

lemma balloc_view_split:
  assumes "bi < BPB"
  shows "balloc_view V (k * BPB + bi) = V(BBLOCK (k * BPB) (sb_ninodes (dec_superblock (V 1))) :=
      bm_set bi (V (BBLOCK (k * BPB) (sb_ninodes (dec_superblock (V 1))))), k * BPB + bi := replicate BSIZE 0)"
  using BBLOCK_split [OF assms] by (simp add: balloc_view_def Let_def)

text \<open>What one bitmap block contributes: a free block is taken, or nothing changes.\<close>

definition balloc_post :: "('z log_state_scheme) \<Rightarrow> nat option \<Rightarrow> ('z log_state_scheme) \<Rightarrow> bool" where
  "balloc_post s r t \<longleftrightarrow> (case r of
     None \<Rightarrow> fs_to s t (view s) (locked s)
   | Some a \<Rightarrow> fs_to s t (balloc_view (view s) a) (locked s) \<and> \<not> in_use (view s) a \<and>
       a < sb_size (dec_superblock (view s 1)))"

lemma balloc_block_fs:
  assumes s: "log_inv s" and bm: "bitmap_ok (lstart s) (view s)"
    and run: "balloc_block ROOTDEV (dec_superblock (view s 1)) (k * BPB) s = Ok r t"
  shows "balloc_post s r t"
proof -
  let ?sb = "dec_superblock (view s 1)" and ?b = "k * BPB"
  let ?n = "BBLOCK ?b (sb_ninodes ?sb)"
  let ?find = "find (\<lambda>bi. \<not> bm_test (view s ?n) bi) [0..<min BPB (sb_size ?sb - ?b)]"
  obtain bp u where u: "fs_to s u (view s) ((locked s)(bp \<mapsto> ?n))" "locked s bp = None" "locked u bp = Some ?n"
      "saved u ?n" "?n < disksize s"
    and k: "(case ?find of
       Some bi \<Rightarrow> kbind (set_bdata bp (bm_set bi)) (\<lambda>_. kbind (log_write bp) (\<lambda>_. kbind (brelse bp) (\<lambda>_.
         kbind (bzero ROOTDEV (?b + bi)) (\<lambda>_. ret (Some (?b + bi))))))
     | None \<Rightarrow> kbind (brelse bp) (\<lambda>_. ret None)) u = Ok r t"
    using bread_data_fs [OF s run [unfolded balloc_block_def]] by blast
  note U = fs_toD [OF u(1)] and UL = fs_to_lstart [OF u(1)]
  have unl: "(locked u)(bp := None) = locked s" using U(3) u(2) by (auto simp: fun_eq_iff)
  show ?thesis
  proof (cases ?find)
    case None
    obtain v where "fs_to u v (view u) ((locked u)(bp := None))" "ret None v = Ok r t"
      using release_fs [OF U(1) u(3,4), of "\<lambda>_. ret None"] k None by auto
    then show ?thesis using fs_to_trans [OF u(1)] U(2) unl by (auto simp: balloc_post_def)
  next
    case (Some bi)
    then have bi: "bi < BPB" "?b + bi < sb_size ?sb" "\<not> bm_test (view s ?n) bi" using find_SomeD [OF Some] by auto
    let ?a = "?b + bi"
    note BB = BBLOCK_split [OF bi(1)]
    have free: "\<not> in_use (view s) ?a" using bi(3) BB by (simp add: in_use_def)
    then have a: "?a < lstart s" "?a < 2 ^ 32" "?n < lstart s" "?n < 2 ^ 32"
      using bm bi(2) BB(1) [of k "sb_ninodes ?sb"] unfolding bitmap_ok_def by (metis leI less_trans)+
    have len: "length (bm_set bi (view u ?n)) = BSIZE" using log_inv_length [OF s u(5)] U(2) by simp
    obtain v where v: "fs_to u v ((view u)(?n := bm_set bi (view u ?n))) ((locked u)(bp := None))"
        "kbind (bzero ROOTDEV ?a) (\<lambda>_. ret (Some ?a)) v = Ok r t"
      using write_release_fs [where f = "bm_set bi" and k = "\<lambda>_. kbind (bzero ROOTDEV ?a) (\<lambda>_. ret (Some ?a))",
        OF U(1) u(3) _ a(4) len, of r t] k Some a(3) UL by auto
    note V = fs_toD [OF v(1)]
    obtain w where w: "fs_to v w ((view v)(?a := replicate BSIZE 0)) (locked v)" "ret (Some ?a) w = Ok r t"
      using bzero_fs [OF V(1) _ a(2) v(2)] a(1) fs_to_lstart [OF v(1)] UL by auto
    have "fs_to s w (balloc_view (view s) ?a) (locked s)"
      using fs_to_trans [OF fs_to_trans [OF u(1) v(1)] w(1)] V(2,3) U(2) unl balloc_view_split [OF bi(1), of "view s" k]
      by simp
    then show ?thesis using w(2) free bi(2) by (simp add: balloc_post_def)
  qed
qed

lemma balloc_fs:
  assumes s: "log_inv s" and bm: "bitmap_ok (lstart s) (view s)"
    and run: "balloc ROOTDEV s = Ok a t"
  shows "fs_to s t (balloc_view (view s) a) (locked s)" "\<not> in_use (view s) a"
    "a < sb_size (dec_superblock (view s 1))"
proof -
  let ?sb = "dec_superblock (view s 1)"
  let ?is = "map (\<lambda>k. k * BPB) [0..<(sb_size ?sb + BPB - 1) div BPB]"
  obtain u where u: "fs_to s u (view s) (locked s)"
      "kbind (kfirst ?is (balloc_block ROOTDEV ?sb)) (\<lambda>r. case r of
       Some b \<Rightarrow> ret b | None \<Rightarrow> kpanic ''balloc: out of blocks'') u = Ok a t"
    using readsb_fs [OF s run [unfolded balloc_def]] by blast
  from u(2) have kf: "kfirst ?is (balloc_block ROOTDEV ?sb) u = Ok (Some a) t"
    by (auto simp: kbind_eq_Ok split: option.splits)
  have "case Some a of None \<Rightarrow> fs_to s t (view s) (locked s) | Some a \<Rightarrow> balloc_post s (Some a) t"
  proof (rule kfirst_inv [where I = "\<lambda>v. fs_to s v (view s) (locked s)" and Q = "\<lambda>a. balloc_post s (Some a)", OF kf u(1)])
    fix b v r w
    assume b: "b \<in> set ?is" and v: "fs_to s v (view s) (locked s)"
      and body: "balloc_block ROOTDEV ?sb b v = Ok r w"
    then obtain k where k: "b = k * BPB" by auto
    note V = fs_toD [OF v]
    have "balloc_post v r w"
      using balloc_block_fs [of v k r w] V fs_to_lstart [OF v] bm body k by simp
    then show "case r of None \<Rightarrow> fs_to s w (view s) (locked s) | Some a \<Rightarrow> balloc_post s (Some a) w"
      using fs_to_trans [OF v] V(2,3) by (cases r) (auto simp: balloc_post_def)
  qed
  then show "fs_to s t (balloc_view (view s) a) (locked s)" "\<not> in_use (view s) a"
    "a < sb_size ?sb" by (simp_all add: balloc_post_def)
qed

text \<open>\<open>bfree\<close> clears exactly the bit of its block; it returns only for a block in use.\<close>

definition bfree_view :: "(nat \<Rightarrow> block) \<Rightarrow> nat \<Rightarrow> nat \<Rightarrow> block" where
  "bfree_view V b = (let n = BBLOCK b (sb_ninodes (dec_superblock (V 1))) in V(n := bm_clear (b mod BPB) (V n)))"

lemma bfree_fs:
  assumes s: "log_inv s" and bm: "bitmap_ok (lstart s) (view s)" "b < sb_size (dec_superblock (view s 1))"
    and run: "kbind (bfree ROOTDEV b) k s = Ok r t"
  shows "\<exists>u. fs_to s u (bfree_view (view s) b) (locked s) \<and> k () u = Ok r t" "in_use (view s) b"
proof -
  let ?sb = "dec_superblock (view s 1)"
  let ?n = "BBLOCK b (sb_ninodes ?sb)"
  have n: "?n < lstart s" "?n < 2 ^ 32" using bm unfolding bitmap_ok_def by (meson less_trans)+
  let ?k = "\<lambda>sb. kbind (bread ROOTDEV (BBLOCK b (sb_ninodes sb))) (\<lambda>bp. kbind (get_bdata bp) (\<lambda>d.
         if \<not> bm_test d (b mod BPB) then kpanic ''freeing free block''
         else kbind (set_bdata bp (bm_clear (b mod BPB))) (\<lambda>_. kbind (log_write bp) (\<lambda>_. kbind (brelse bp) k))))"
  have "kbind (bfree ROOTDEV b) k = kbind (readsb ROOTDEV) ?k"
    by (simp add: bfree_def if_distrib [of "\<lambda>m. kbind m _"] cong: if_cong)
  then obtain u where u: "fs_to s u (view s) (locked s)" "?k ?sb u = Ok r t"
    using readsb_fs [OF s, of ?k r t] run by auto
  note U = fs_toD [OF u(1)] and UL = fs_to_lstart [OF u(1)]
  obtain bp v where v: "fs_to u v (view u) ((locked u)(bp \<mapsto> ?n))" "locked u bp = None" "locked v bp = Some ?n"
     "(if \<not> bm_test (view u ?n) (b mod BPB) then kpanic ''freeing free block''
       else kbind (set_bdata bp (bm_clear (b mod BPB))) (\<lambda>_. kbind (log_write bp) (\<lambda>_. kbind (brelse bp) k))) v = Ok r t"
    "?n < disksize u"
    using bread_data_fs [OF U(1) u(2)] by blast
  note V = fs_toD [OF v(1)] and VL = fs_to_lstart [OF v(1)]
  have bt: "bm_test (view s ?n) (b mod BPB)" using v(4) U(2) by (auto split: if_splits)
  then show "in_use (view s) b" by (simp add: in_use_def)
  have len: "length (bm_clear (b mod BPB) (view v ?n)) = BSIZE" using log_inv_length [OF U(1) v(5)] V(2) by simp
  obtain w where w: "fs_to v w ((view v)(?n := bm_clear (b mod BPB) (view v ?n))) ((locked v)(bp := None))" "k () w = Ok r t"
    using write_release_fs [where f = "bm_clear (b mod BPB)", OF V(1) v(3) _ n(2) len, of k r t] v(4) bt U(2) n(1) UL VL by auto
  have "(locked v)(bp := None) = locked s" using V(3) U(3) v(2) by (auto simp: fun_eq_iff)
  then have "fs_to s w (bfree_view (view s) b) (locked s)"
    using fs_to_trans [OF fs_to_trans [OF u(1) v(1)] w(1)] V(2) U(2) by (simp add: bfree_view_def Let_def)
  with w(2) show "\<exists>u. fs_to s u (bfree_view (view s) b) (locked s) \<and> k () u = Ok r t" by blast
qed

section \<open>Facts: inodes\<close>

text \<open>An in-memory inode fits the on-disk format.\<close>

definition inode_fits :: "inode \<Rightarrow> bool" where
  "inode_fits x \<longleftrightarrow> - (2 ^ 15) \<le> i_type x \<and> i_type x < 2 ^ 15 \<and> - (2 ^ 15) \<le> i_major x \<and> i_major x < 2 ^ 15 \<and>
     - (2 ^ 15) \<le> i_minor x \<and> i_minor x < 2 ^ 15 \<and> - (2 ^ 15) \<le> i_nlink x \<and> i_nlink x < 2 ^ 15 \<and>
     i_size x < 2 ^ 32 \<and> length (i_addrs x) = NDIRECT + 1 \<and> (\<forall>a \<in> set (i_addrs x). a < 2 ^ 32)"

lemma u16_less: "u16 x < 2 ^ 16"
proof -
  have "x mod 2 ^ 16 < 2 ^ 16" by simp
  then show ?thesis by (simp add: u16_def nat_less_iff)
qed

lemma s16_u16: "- (2 ^ 15) \<le> x \<Longrightarrow> x < 2 ^ 15 \<Longrightarrow> s16 (u16 x) = x"
proof (cases "0 \<le> x")
  case True
  assume "x < 2 ^ 15"
  with True have "x mod 2 ^ 16 = x" by (intro mod_pos_pos_trivial) auto
  with True \<open>x < 2 ^ 15\<close> show ?thesis by (simp add: u16_def s16_def nat_less_iff)
next
  case False
  assume lo: "- (2 ^ 15) \<le> x"
  from False lo have "(x + 2 ^ 16) mod 2 ^ 16 = x + 2 ^ 16" by (intro mod_pos_pos_trivial) auto
  then have "x mod 2 ^ 16 = x + 2 ^ 16" by simp
  with False lo show ?thesis by (simp add: u16_def s16_def nat_less_iff)
qed

lemma dinode_off_bound: "dinode_off n + 64 \<le> BSIZE"
proof -
  have "n mod 8 < 8" by simp
  then show ?thesis by (simp add: dinode_off_def IPB_def BSIZE_def DINODE_SIZE_def)
qed

lemma length_addrs [simp]: "length (concat (map (enc_le 4) xs)) = 4 * length xs"
  by (induction xs) auto

lemma subrange_addrs: "i < length xs \<Longrightarrow> subrange (4 * i) 4 (concat (map (enc_le 4) xs)) = enc_le 4 (xs ! i)"
proof (induction xs arbitrary: i)
  case Nil
  then show ?case by simp
next
  case (Cons x xs)
  show ?case
  proof (cases i)
    case 0
    then show ?thesis by (simp add: subrange_def)
  next
    case (Suc j)
    then have "subrange (4 * i) 4 (enc_le 4 x @ concat (map (enc_le 4) xs)) =
        subrange (4 * j) 4 (concat (map (enc_le 4) xs))" by (simp add: subrange_def)
    with Suc Cons show ?thesis by simp
  qed
qed

lemma get_addrs:
  assumes "off + 4 * length xs \<le> length d" "i < length xs" "xs ! i < 2 ^ 32"
  shows "get_le 4 (off + 4 * i) (overlay off (concat (map (enc_le 4) xs)) d) = xs ! i"
proof -
  let ?bs = "concat (map (enc_le 4) xs)"
  have "subrange (off + 4 * i) 4 (overlay off ?bs d) = subrange (4 * i) 4 (subrange off (length ?bs) (overlay off ?bs d))"
    using assms by (subst subrange_subrange) auto
  also have "\<dots> = enc_le 4 (xs ! i)" using assms by (simp add: subrange_overlay_same subrange_addrs)
  finally show ?thesis using assms(3) by (simp add: get_le_def dec_enc_le)
qed

lemma length_put_dinode [simp]:
  "length d = BSIZE \<Longrightarrow> length (i_addrs x) = NDIRECT + 1 \<Longrightarrow> length (put_dinode n x d) = BSIZE"
  using dinode_off_bound [of n] by (simp add: put_dinode_def Let_def NDIRECT_def)

lemma dinode_fields:
  assumes d: "length d = BSIZE" and f: "inode_fits x"
  shows "get_le 2 (dinode_off n) (put_dinode n x d) = u16 (i_type x)"
    "get_le 2 (dinode_off n + 2) (put_dinode n x d) = u16 (i_major x)"
    "get_le 2 (dinode_off n + 4) (put_dinode n x d) = u16 (i_minor x)"
    "get_le 2 (dinode_off n + 6) (put_dinode n x d) = u16 (i_nlink x)"
    "get_le 4 (dinode_off n + 8) (put_dinode n x d) = i_size x"
    "i \<le> NDIRECT \<Longrightarrow> get_le 4 (dinode_off n + 12 + 4 * i) (put_dinode n x d) = i_addrs x ! i"
proof -
  have l: "length (i_addrs x) = 13" "i_size x < 2 ^ 32" "\<forall>a \<in> set (i_addrs x). a < 2 ^ 32"
    using f by (auto simp: inode_fits_def NDIRECT_def)
  note b = dinode_off_bound [of n] and u = u16_less [of "i_type x"] u16_less [of "i_major x"]
    u16_less [of "i_minor x"] u16_less [of "i_nlink x"]
  show "get_le 2 (dinode_off n) (put_dinode n x d) = u16 (i_type x)"
    "get_le 2 (dinode_off n + 2) (put_dinode n x d) = u16 (i_major x)"
    "get_le 2 (dinode_off n + 4) (put_dinode n x d) = u16 (i_minor x)"
    "get_le 2 (dinode_off n + 6) (put_dinode n x d) = u16 (i_nlink x)"
    "get_le 4 (dinode_off n + 8) (put_dinode n x d) = i_size x"
    using d l b u by (simp_all add: put_dinode_def Let_def get_overlay_other get_put_other get_put_same)
  show "i \<le> NDIRECT \<Longrightarrow> get_le 4 (dinode_off n + 12 + 4 * i) (put_dinode n x d) = i_addrs x ! i"
    using d l b by (simp add: put_dinode_def Let_def NDIRECT_def) (subst get_addrs, auto)
qed

text \<open>\<open>iupdate\<close> followed by the load in \<open>ilock\<close> gives the inode back.\<close>

lemma load_put_dinode:
  assumes "length d = BSIZE" "inode_fits x"
  shows "load_dinode n (put_dinode n x d) y =
    y\<lparr>i_type := i_type x, i_major := i_major x, i_minor := i_minor x, i_nlink := i_nlink x,
      i_size := i_size x, i_addrs := i_addrs x\<rparr>"
proof -
  have a: "map (\<lambda>i. get_le 4 (dinode_off n + 12 + 4 * i) (put_dinode n x d)) [0..<NDIRECT + 1] = i_addrs x"
    using assms dinode_fields(6) [OF assms] by (intro nth_equalityI) (auto simp: inode_fits_def NDIRECT_def)
  show ?thesis
    using assms(2) dinode_fields(1-5) [OF assms, of n] a
    by (simp add: load_dinode_def Let_def s16_u16 inode_fits_def)
qed

text \<open>Other inodes of the block are not touched.\<close>

lemma load_put_dinode_other:
  assumes d: "length d = BSIZE" and l: "length (i_addrs x) = NDIRECT + 1" and ne: "n mod IPB \<noteq> m mod IPB"
  shows "load_dinode m (put_dinode n x d) y = load_dinode m d y"
proof -
  let ?o = "dinode_off n" and ?p = "dinode_off m"
  note b = dinode_off_bound [of n] dinode_off_bound [of m]
  have dj: "?p + 64 \<le> ?o \<or> ?o + 64 \<le> ?p"
    using ne by (auto simp: dinode_off_def DINODE_SIZE_def neq_iff)
  have g: "get_le k (?p + j) (put_dinode n x d) = get_le k (?p + j) d" if "j + k \<le> 64" for j k
    using dj that b d l by (elim disjE) (simp_all add: put_dinode_def Let_def NDIRECT_def get_overlay_other get_put_other)
  have "get_le 4 (?p + 12 + 4 * i) (put_dinode n x d) = get_le 4 (?p + 12 + 4 * i) d" if "i < NDIRECT + 1" for i
    using g [of "12 + 4 * i" 4] that by (simp add: NDIRECT_def add.assoc)
  then show ?thesis using g [of 0 2] g [of 2 2] g [of 4 2] g [of 6 2] g [of 8 4]
    by (simp add: load_dinode_def Let_def cong: map_cong)
qed

subsection \<open>The inode cache\<close>

text \<open>At most one cache entry for an inode, and no negative reference counts.\<close>

definition icache_ok :: "('z fs_state_scheme) \<Rightarrow> bool" where
  "icache_ok s \<longleftrightarrow> length (inodes s) = NINODE \<and> (\<forall>i < NINODE. 0 \<le> i_ref (inodes s ! i)) \<and>
     (\<forall>i < NINODE. \<forall>j < NINODE. 0 < i_ref (inodes s ! i) \<and> 0 < i_ref (inodes s ! j) \<and>
        i_dev (inodes s ! i) = i_dev (inodes s ! j) \<and> i_inum (inodes s ! i) = i_inum (inodes s ! j) \<longrightarrow> i = j)"

definition refs_to :: "('z fs_state_scheme) \<Rightarrow> nat \<Rightarrow> nat \<Rightarrow> int" where
  "refs_to s dev inum = sum_list (map (\<lambda>x. if i_dev x = dev \<and> i_inum x = inum then i_ref x else 0) (inodes s))"

lemma iget_Ok:
  assumes ok: "length (inodes s) = NINODE" and run: "iget dev inum s = Ok i t"
  shows "i < NINODE" "IcacheLock \<notin> set (held s)"
    "((0 < i_ref (inodes s ! i) \<and> i_dev (inodes s ! i) = dev \<and> i_inum (inodes s ! i) = inum) \<and>
       t = s\<lparr>inodes := (inodes s)[i := (inodes s ! i)\<lparr>i_ref := i_ref (inodes s ! i) + 1\<rparr>]\<rparr>) \<or>
     ((\<forall>j < NINODE. \<not> (0 < i_ref (inodes s ! j) \<and> i_dev (inodes s ! j) = dev \<and> i_inum (inodes s ! j) = inum)) \<and>
       i_ref (inodes s ! i) = 0 \<and> t = s\<lparr>inodes := (inodes s)[i := (inodes s ! i)\<lparr>i_dev := dev, i_inum := inum,
         i_ref := 1, i_busy := False, i_valid := False\<rparr>]\<rparr>)"
proof -
  let ?P = "\<lambda>i. 0 < i_ref (inodes s ! i) \<and> i_dev (inodes s ! i) = dev \<and> i_inum (inodes s ! i) = inum"
  let ?E = "\<lambda>i. i_ref (inodes s ! i) = 0"
  show lk: "IcacheLock \<notin> set (held s)"
    using run by (auto simp: iget_def kbind_eq_Ok acquire_def split: if_splits)
  have "i < NINODE \<and> ((?P i \<and>
       t = s\<lparr>inodes := (inodes s)[i := (inodes s ! i)\<lparr>i_ref := i_ref (inodes s ! i) + 1\<rparr>]\<rparr>) \<or>
     ((\<forall>j < NINODE. \<not> ?P j) \<and> ?E i \<and> t = s\<lparr>inodes := (inodes s)[i := (inodes s ! i)\<lparr>i_dev := dev, i_inum := inum,
         i_ref := 1, i_busy := False, i_valid := False\<rparr>]\<rparr>))"
  proof (cases "find ?P [0..<NINODE]")
    case (Some j)
    then show ?thesis using find_SomeD [OF Some] run lk
      by (simp add: iget_def kmon_simps ip_set_def upd_inode_def)
  next
    case none: None
    show ?thesis
    proof (cases "find ?E [0..<NINODE]")
      case None
      then show ?thesis using none run lk by (simp add: iget_def kmon_simps)
    next
      case (Some j)
      have nP: "\<forall>j < NINODE. \<not> ?P j" using find_NoneD [OF none] by auto
      have "i = j \<and> t = s\<lparr>inodes := (inodes s)[j := (inodes s ! j)\<lparr>i_dev := dev, i_inum := inum,
         i_ref := 1, i_busy := False, i_valid := False\<rparr>]\<rparr>"
        using none Some run lk by (simp add: iget_def kmon_simps ip_set_def upd_inode_def)
      then show ?thesis using find_SomeD [OF Some] nP by auto
    qed
  qed
  then show "i < NINODE" "(?P i \<and>
       t = s\<lparr>inodes := (inodes s)[i := (inodes s ! i)\<lparr>i_ref := i_ref (inodes s ! i) + 1\<rparr>]\<rparr>) \<or>
     ((\<forall>j < NINODE. \<not> ?P j) \<and> ?E i \<and> t = s\<lparr>inodes := (inodes s)[i := (inodes s ! i)\<lparr>i_dev := dev, i_inum := inum,
         i_ref := 1, i_busy := False, i_valid := False\<rparr>]\<rparr>)" by blast+
qed

lemma iget_unique:
  assumes ok: "icache_ok s" and run: "iget dev inum s = Ok i t"
  shows "icache_ok t" "i < NINODE" "0 < i_ref (inodes t ! i)" "i_dev (inodes t ! i) = dev" "i_inum (inodes t ! i) = inum"
    "t = s\<lparr>inodes := inodes t\<rparr>"
proof -
  have len: "length (inodes s) = NINODE" using ok by (simp add: icache_ok_def)
  note G = iget_Ok [OF len run]
  show i: "i < NINODE" by (rule G(1))
  have R: "\<forall>j < NINODE. 0 \<le> i_ref (inodes s ! j)" and U: "\<And>j k. j < NINODE \<Longrightarrow> k < NINODE \<Longrightarrow>
     0 < i_ref (inodes s ! j) \<Longrightarrow> 0 < i_ref (inodes s ! k) \<Longrightarrow> i_dev (inodes s ! j) = i_dev (inodes s ! k) \<Longrightarrow>
     i_inum (inodes s ! j) = i_inum (inodes s ! k) \<Longrightarrow> j = k" using ok by (auto simp: icache_ok_def)
  obtain x where x: "t = s\<lparr>inodes := (inodes s)[i := x]\<rparr>" "0 < i_ref x" "i_dev x = dev" "i_inum x = inum"
    and ne: "\<And>j. j < NINODE \<Longrightarrow> j \<noteq> i \<Longrightarrow> \<not> (0 < i_ref (inodes s ! j) \<and> i_dev (inodes s ! j) = dev \<and> i_inum (inodes s ! j) = inum)"
    using G(3)
  proof (elim disjE conjE)
    assume a: "0 < i_ref (inodes s ! i)" "i_dev (inodes s ! i) = dev" "i_inum (inodes s ! i) = inum"
      "t = s\<lparr>inodes := (inodes s)[i := (inodes s ! i)\<lparr>i_ref := i_ref (inodes s ! i) + 1\<rparr>]\<rparr>"
    show thesis by (rule that [OF a(4)]) (use a(1-3) U [OF _ i] in auto)
  next
    assume a: "\<forall>j < NINODE. \<not> (0 < i_ref (inodes s ! j) \<and> i_dev (inodes s ! j) = dev \<and> i_inum (inodes s ! j) = inum)"
      "t = s\<lparr>inodes := (inodes s)[i := (inodes s ! i)\<lparr>i_dev := dev, i_inum := inum,
         i_ref := 1, i_busy := False, i_valid := False\<rparr>]\<rparr>"
    show thesis by (rule that [OF a(2)]) (use a(1) in auto)
  qed
  show "icache_ok t" unfolding icache_ok_def x(1)
    using len R U i x(2-4) ne by (simp add: nth_list_update) metis
  show "0 < i_ref (inodes t ! i)" "i_dev (inodes t ! i) = dev" "i_inum (inodes t ! i) = inum"
    "t = s\<lparr>inodes := inodes t\<rparr>" using x i len by simp_all
qed

section \<open>Facts: file content\<close>

text \<open>The block of block number \<open>bn\<close> of a file, and the bytes of the file.\<close>

definition blkaddr :: "(nat \<Rightarrow> block) \<Rightarrow> inode \<Rightarrow> nat \<Rightarrow> nat" where
  "blkaddr V x bn = (if bn < NDIRECT then i_addrs x ! bn
     else get_le 4 (4 * (bn - NDIRECT)) (V (i_addrs x ! NDIRECT)))"

definition mapped :: "(nat \<Rightarrow> block) \<Rightarrow> inode \<Rightarrow> nat \<Rightarrow> bool" where
  "mapped V x bn \<longleftrightarrow> bn < MAXFILE \<and> blkaddr V x bn \<noteq> 0 \<and> (NDIRECT \<le> bn \<longrightarrow> i_addrs x ! NDIRECT \<noteq> 0)"

definition fbyte :: "(nat \<Rightarrow> block) \<Rightarrow> inode \<Rightarrow> nat \<Rightarrow> byte" where
  "fbyte V x i = V (blkaddr V x (i div BSIZE)) ! (i mod BSIZE)"

lemma bmap_mapped:
  assumes s: "log_inv s" and d: "i_dev (inodes s ! ip) = ROOTDEV" and m: "mapped (view s) (inodes s ! ip) bn"
    and run: "kbind (bmap ip bn) k s = Ok r t"
  shows "\<exists>u. fs_to s u (view s) (locked s) \<and> k (blkaddr (view s) (inodes s ! ip) bn) u = Ok r t"
proof (cases "bn < NDIRECT")
  case True
  then show ?thesis using m run d fs_to_refl [OF s] by (auto simp: bmap_def ip_get_def mapped_def blkaddr_def)
next
  case False
  let ?ind = "i_addrs (inodes s ! ip) ! NDIRECT" and ?j = "bn - NDIRECT"
  have i: "?ind \<noteq> 0" "?j < NINDIRECT" "get_le 4 (4 * ?j) (view s ?ind) \<noteq> 0"
    using m False by (auto simp: mapped_def blkaddr_def MAXFILE_def)
  let ?f = "\<lambda>bp d. kbind (if get_le 4 (4 * ?j) d = 0 then
                kbind (balloc (i_dev (inodes s ! ip))) (\<lambda>a.
                kbind (set_bdata bp (put_le 4 (4 * ?j) a)) (\<lambda>_.
                kbind (log_write bp) (\<lambda>_. ret a)))
              else ret (get_le 4 (4 * ?j) d)) (\<lambda>a. kbind (brelse bp) (\<lambda>_. k a))"
  have "kbind (bread ROOTDEV ?ind) (\<lambda>bp. kbind (get_bdata bp) (?f bp)) s = Ok r t"
    using run False i(1,2) d by (simp add: bmap_def ip_get_def)
  from bread_data_fs [OF s this] obtain bp u where u: "fs_to s u (view s) ((locked s)(bp \<mapsto> ?ind))"
      "locked s bp = None" "locked u bp = Some ?ind" "saved u ?ind" "?f bp (view s ?ind) u = Ok r t" by blast
  note U = fs_toD [OF u(1)]
  obtain v where v: "fs_to u v (view u) ((locked u)(bp := None))" "k (get_le 4 (4 * ?j) (view s ?ind)) v = Ok r t"
    using release_fs [OF U(1) u(3,4), of "\<lambda>_. k (get_le 4 (4 * ?j) (view s ?ind))" r t] u(5) i(3) by auto
  have "(locked u)(bp := None) = locked s" using U(3) u(2) by (auto simp: fun_eq_iff)
  then show ?thesis using fs_to_trans [OF u(1) v(1)] U(2) v(2) False by (auto simp: blkaddr_def)
qed

lemma read_chunk:
  assumes "length d = BSIZE" "off mod BSIZE + m \<le> BSIZE"
  shows "subrange (off mod BSIZE) m d = map (\<lambda>i. d ! (i mod BSIZE)) [off..<off + m]"
proof (rule nth_equalityI)
  show "length (subrange (off mod BSIZE) m d) = length (map (\<lambda>i. d ! (i mod BSIZE)) [off..<off + m])"
    using assms by simp
  fix i assume "i < length (subrange (off mod BSIZE) m d)"
  then have i: "i < m" using assms by simp
  then have "(off + i) mod BSIZE = off mod BSIZE + i"
    using assms(2) by (metis add_less_cancel_left less_le_trans mod_add_left_eq mod_less)
  then show "subrange (off mod BSIZE) m d ! i = map (\<lambda>i. d ! (i mod BSIZE)) [off..<off + m] ! i"
    using assms i by (simp add: nth_subrange)
qed

lemma chunk_block:
  assumes "off mod BSIZE + m \<le> BSIZE" "off \<le> i" "i < off + m"
  shows "i div BSIZE = off div BSIZE"
proof -
  have "i = off div BSIZE * BSIZE + (off mod BSIZE + (i - off))" using assms(2) by simp
  moreover have "off mod BSIZE + (i - off) < BSIZE" using assms by linarith
  ultimately show ?thesis by (metis add.right_neutral div_less div_mult_self3 less_nat_zero_code)
qed

lemma readi_loop_fs:
  assumes "log_inv s" "i_dev (inodes s ! ip) = ROOTDEV"
    and "\<And>i. off \<le> i \<Longrightarrow> i < off + n \<Longrightarrow> mapped (view s) (inodes s ! ip) (i div BSIZE)"
    and "readi_loop ip off n s = Ok bs t"
  shows "fs_to s t (view s) (locked s) \<and> bs = map (fbyte (view s) (inodes s ! ip)) [off..<off + n]"
  using assms
proof (induction n arbitrary: off s bs rule: less_induct)
  case (less n)
  let ?x = "inodes s ! ip"
  show ?case
  proof (cases "n = 0")
    case True
    then show ?thesis using less.prems fs_to_refl by (simp add: readi_loop.simps)
  next
    case False
    let ?m = "min n (BSIZE - off mod BSIZE)" and ?a = "blkaddr (view s) ?x (off div BSIZE)"
    have m: "0 < ?m" "?m \<le> n" "off mod BSIZE + ?m \<le> BSIZE"
      using False by (auto simp: BSIZE_def)
    let ?k = "\<lambda>d. kbind (readi_loop ip (off + ?m) (n - ?m)) (\<lambda>bs. ret (subrange (off mod BSIZE) ?m d @ bs))"
    have "kbind (bmap ip (off div BSIZE)) (\<lambda>a. kbind (bread ROOTDEV a) (\<lambda>bp. kbind (get_bdata bp) (\<lambda>d.
        kbind (brelse bp) (\<lambda>_. ?k d)))) s = Ok bs t"
      using less.prems(2,4) False by (subst (asm) readi_loop.simps) (simp add: Let_def ip_get_def)
    from bmap_mapped [OF less.prems(1,2) less.prems(3) this] m(1,2) obtain u where
      u: "fs_to s u (view s) (locked s)" "kbind (bread ROOTDEV ?a) (\<lambda>bp. kbind (get_bdata bp) (\<lambda>d.
        kbind (brelse bp) (\<lambda>_. ?k d))) u = Ok bs t" by auto
    note U = fs_toD [OF u(1)]
    obtain v where v: "fs_to u v (view u) (locked u)" "?k (view u ?a) v = Ok bs t" "?a < disksize u"
      using read_sector_fs [OF U(1) u(2)] by blast
    note V = fs_toD [OF v(1)]
    have sv: "fs_to s v (view s) (locked s)" using fs_to_trans [OF u(1) v(1)] U by simp
    have x: "inodes v = inodes s" using fs_frame(1) [OF fs_toD(5) [OF sv]] .
    obtain cs where c: "readi_loop ip (off + ?m) (n - ?m) v = Ok cs t"
        "bs = subrange (off mod BSIZE) ?m (view s ?a) @ cs"
      using v(2) U(2) by (auto simp: kbind_eq_Ok)
    have IH: "fs_to v t (view v) (locked v) \<and> cs = map (fbyte (view v) ?x) [off + ?m..<off + ?m + (n - ?m)]"
      using less.IH [OF _ V(1) _ _ c(1)] less.prems(2,3) V(2) U(2) x m by auto
    have l: "length (view s ?a) = BSIZE" using log_inv_length [OF U(1) v(3)] U(2) by simp
    have "map (\<lambda>i. view s ?a ! (i mod BSIZE)) [off..<off + ?m] = map (fbyte (view s) ?x) [off..<off + ?m]"
      using chunk_block [OF m(3)] by (auto simp: fbyte_def)
    then have "bs = map (fbyte (view s) ?x) [off..<off + ?m] @ map (fbyte (view s) ?x) [off + ?m..<off + n]"
      using c(2) read_chunk [OF l m(3)] IH V(2) U(2) m(2) by simp
    also have "\<dots> = map (fbyte (view s) ?x) [off..<off + n]"
      using m(2) by (metis le_add1 le_add_diff_inverse map_append upt_add_eq_append add.assoc)
    finally show ?thesis using fs_to_trans [OF sv] IH V(2,3) U(2,3) by simp
  qed
qed

text \<open>\<open>readi\<close> on a file or directory whose blocks up to its size are allocated: the bytes
  asked for, cut at the end of the file; out of range is \<open>-1\<close>.\<close>

definition all_mapped :: "(nat \<Rightarrow> block) \<Rightarrow> inode \<Rightarrow> bool" where
  "all_mapped V x \<longleftrightarrow> i_dev x = ROOTDEV \<and> i_size x < 2 ^ 31 \<and> (\<forall>i < i_size x. mapped V x (i div BSIZE))"

lemma readi_fs:
  assumes s: "log_inv s" and x: "x = inodes s ! ip" "i_type x \<noteq> T_DEV" "all_mapped (view s) x"
    and o': "off + n < 2 ^ 32" and run: "readi dsw ip off n s = Ok r t"
  shows "fs_to s t (view s) (locked s)"
    "r = (if i_size x < off then (- 1, []) else
       let m = min n (i_size x - off) in (int m, map (fbyte (view s) x) [off..<off + m]))"
proof -
  have e: "(off + n) mod 2 ^ 32 = off + n" using o' by simp
  let ?m = "min n (i_size x - off)"
  have "fs_to s t (view s) (locked s) \<and> r = (if i_size x < off then (- 1, []) else
       (int ?m, map (fbyte (view s) x) [off..<off + ?m]))"
  proof (cases "i_size x < off")
    case True
    then show ?thesis using run x fs_to_refl [OF s] by (simp add: readi_def ip_get_def)
  next
    case False
    let ?n = "if off + n > i_size x then i_size x - off else n"
    have n: "?n = ?m" using False by auto
    have "kbind (readi_loop ip off ?n) (\<lambda>bs. ret (s32 ?n, bs)) s = Ok r t"
      using run x(2,3) False unfolding readi_def e x(1) by (simp add: ip_get_def Let_def split del: if_split)
    then obtain bs where bs: "readi_loop ip off ?m s = Ok bs t" "r = (s32 ?m, bs)" unfolding n
      by (auto simp: kbind_eq_Ok)
    have m: "?m < 2 ^ 31" using x(3) by (auto simp: all_mapped_def)
    have "fs_to s t (view s) (locked s) \<and> bs = map (fbyte (view s) x) [off..<off + ?m]"
      using readi_loop_fs [OF s _ _ bs(1)] x False by (auto simp: all_mapped_def)
    then show ?thesis using bs(2) False s32_small [OF m] by auto
  qed
  then show "fs_to s t (view s) (locked s)" "r = (if i_size x < off then (- 1, []) else
       let m = min n (i_size x - off) in (int m, map (fbyte (view s) x) [off..<off + m]))" by (auto simp: Let_def)
qed


subsection \<open>Overwriting\<close>

text \<open>The data blocks of a file are distinct, outside the log, and not its indirect block.\<close>

definition data_ok :: "nat \<Rightarrow> (nat \<Rightarrow> block) \<Rightarrow> inode \<Rightarrow> bool" where
  "data_ok L V x \<longleftrightarrow> L < 2 ^ 32 \<and> (\<forall>i. mapped V x i \<longrightarrow> blkaddr V x i < L \<and>
     (i_addrs x ! NDIRECT \<noteq> 0 \<longrightarrow> blkaddr V x i \<noteq> i_addrs x ! NDIRECT) \<and>
     (\<forall>j. mapped V x j \<and> blkaddr V x j = blkaddr V x i \<longrightarrow> j = i))"

lemma same_map:
  assumes "i_addrs x ! NDIRECT \<noteq> 0 \<Longrightarrow> V' (i_addrs x ! NDIRECT) = V (i_addrs x ! NDIRECT)"
  shows "mapped V' x bn = mapped V x bn" "mapped V x bn \<Longrightarrow> blkaddr V' x bn = blkaddr V x bn"
  using assms by (auto simp: mapped_def blkaddr_def)

lemma data_ok_cong:
  assumes "data_ok L V x" "i_addrs x ! NDIRECT \<noteq> 0 \<Longrightarrow> V' (i_addrs x ! NDIRECT) = V (i_addrs x ! NDIRECT)"
  shows "data_ok L V' x"
  using assms(1) same_map [of x V' V, OF assms(2)] unfolding data_ok_def by metis

text \<open>One block of \<open>writei\<close> in terms of the bytes of the file.\<close>

lemma fbyte_write:
  assumes D: "data_ok L V x" and m: "mapped V x (off div BSIZE)" "mapped V x (i div BSIZE)"
    and l: "length (V (blkaddr V x (off div BSIZE))) = BSIZE" "off mod BSIZE + length bs \<le> BSIZE"
    and V': "V' = V(blkaddr V x (off div BSIZE) := overlay (off mod BSIZE) bs (V (blkaddr V x (off div BSIZE))))"
  shows "fbyte V' x i = (if off \<le> i \<and> i < off + length bs then bs ! (i - off) else fbyte V x i)"
proof -
  let ?a = "blkaddr V x (off div BSIZE)"
  have ind: "i_addrs x ! NDIRECT \<noteq> 0 \<Longrightarrow> V' (i_addrs x ! NDIRECT) = V (i_addrs x ! NDIRECT)"
    using D m(1) unfolding V' data_ok_def by auto
  have b: "blkaddr V' x (i div BSIZE) = blkaddr V x (i div BSIZE)" using same_map(2) [of x V' V, OF ind m(2)] .
  show ?thesis
  proof (cases "i div BSIZE = off div BSIZE")
    case True
    have im: "i mod BSIZE < BSIZE" by (simp add: BSIZE_def)
    have eq: "i + off mod BSIZE = off + i mod BSIZE"
      using div_mult_mod_eq [of i BSIZE, unfolded True] div_mult_mod_eq [of off BSIZE] by linarith
    have "off \<le> i \<and> i < off + length bs \<longleftrightarrow> off mod BSIZE \<le> i mod BSIZE \<and> i mod BSIZE < off mod BSIZE + length bs"
      and "off \<le> i \<Longrightarrow> i mod BSIZE - off mod BSIZE = i - off"
      using eq by arith+
    then show ?thesis using True b l im by (auto simp: fbyte_def V' nth_overlay)
  next
    case False
    have "blkaddr V x (i div BSIZE) \<noteq> ?a" using D m False unfolding data_ok_def by blast
    moreover have "\<not> (off \<le> i \<and> i < off + length bs)" using chunk_block [OF l(2), of i] False by auto
    ultimately show ?thesis using b by (auto simp: fbyte_def V')
  qed
qed

lemma chunk_join:
  "m \<le> length bs \<Longrightarrow> (if off + m \<le> i \<and> i < off + m + length (drop m bs) then drop m bs ! (i - (off + m))
     else if off \<le> i \<and> i < off + m then take m bs ! (i - off) else z) =
   (if off \<le> i \<and> i < off + length bs then bs ! (i - off) else z)"
  by auto

lemma writei_loop_fs:
  assumes "log_inv s" "i_dev (inodes s ! ip) = ROOTDEV" "data_ok (lstart s) (view s) (inodes s ! ip)"
    and "\<And>i. off \<le> i \<Longrightarrow> i < off + length bs \<Longrightarrow> mapped (view s) (inodes s ! ip) (i div BSIZE)"
    and "writei_loop ip off bs s = Ok r t"
  shows "fs_to s t (view t) (locked s) \<and> r = off + length bs \<and>
    (\<forall>i. mapped (view s) (inodes s ! ip) (i div BSIZE) \<longrightarrow> fbyte (view t) (inodes s ! ip) i =
       (if off \<le> i \<and> i < off + length bs then bs ! (i - off) else fbyte (view s) (inodes s ! ip) i)) \<and>
    (\<forall>n. (\<forall>i. mapped (view s) (inodes s ! ip) i \<longrightarrow> n \<noteq> blkaddr (view s) (inodes s ! ip) i) \<longrightarrow> view t n = view s n)"
  using assms
proof (induction "length bs" arbitrary: off s bs rule: less_induct)
  case less
  let ?x = "inodes s ! ip"
  show ?case
  proof (cases "bs = []")
    case True
    then show ?thesis using less.prems fs_to_refl by (auto simp: writei_loop.simps)
  next
    case False
    let ?m = "min (length bs) (BSIZE - off mod BSIZE)" and ?a = "blkaddr (view s) ?x (off div BSIZE)"
    let ?f = "overlay (off mod BSIZE) (take ?m bs)"
    have m: "0 < ?m" "?m \<le> length bs" "off mod BSIZE + ?m \<le> BSIZE"
      using False by (auto simp: BSIZE_def)
    have mp: "mapped (view s) ?x (off div BSIZE)" using less.prems(4) [of off] m by simp
    have "kbind (bmap ip (off div BSIZE)) (\<lambda>a. kbind (bread ROOTDEV a) (\<lambda>bp. kbind (set_bdata bp ?f) (\<lambda>_.
        kbind (log_write bp) (\<lambda>_. kbind (brelse bp) (\<lambda>_. writei_loop ip (off + ?m) (drop ?m bs)))))) s = Ok r t"
      using less.prems(2,5) False by (subst (asm) writei_loop.simps) (simp add: Let_def ip_get_def)
    from bmap_mapped [OF less.prems(1,2) mp this] obtain u where
      u: "fs_to s u (view s) (locked s)" "kbind (bread ROOTDEV ?a) (\<lambda>bp. kbind (set_bdata bp ?f) (\<lambda>_.
        kbind (log_write bp) (\<lambda>_. kbind (brelse bp) (\<lambda>_. writei_loop ip (off + ?m) (drop ?m bs))))) u = Ok r t" by auto
    note U = fs_toD [OF u(1)] and UL = fs_to_lstart [OF u(1)]
    have a: "?a < lstart u" "?a < 2 ^ 32" using less.prems(3) mp UL unfolding data_ok_def by (auto intro: less_trans)
    have l: "length (view s ?a) = BSIZE" using log_inv_length [OF U(1) lstart_disksize [OF U(1) a(1)]] U(2) by simp
    obtain v where v: "fs_to u v ((view u)(?a := ?f (view u ?a))) (locked u)"
        "writei_loop ip (off + ?m) (drop ?m bs) v = Ok r t"
      using update_sector_fs [where f = ?f, OF U(1) a _ u(2)] l m U(2) by auto
    note V = fs_toD [OF v(1)] and VL = fs_to_lstart [OF v(1)]
    let ?V = "(view s)(?a := ?f (view s ?a))"
    have sv: "fs_to s v ?V (locked s)" using fs_to_trans [OF u(1) v(1)] U by simp
    have x: "inodes v ! ip = ?x" using fs_frame(1) [OF fs_toD(5) [OF sv]] by simp
    have ind: "i_addrs ?x ! NDIRECT \<noteq> 0 \<Longrightarrow> ?V (i_addrs ?x ! NDIRECT) = view s (i_addrs ?x ! NDIRECT)"
      using less.prems(3) mp unfolding data_ok_def by auto
    note sm = same_map [of ?x ?V "view s", OF ind]
    have vv: "view v = ?V" using fs_toD(2) [OF sv] .
    have IH: "fs_to v t (view t) (locked v) \<and> r = off + ?m + length (drop ?m bs) \<and>
      (\<forall>i. mapped (view v) ?x (i div BSIZE) \<longrightarrow> fbyte (view t) ?x i =
         (if off + ?m \<le> i \<and> i < off + ?m + length (drop ?m bs) then drop ?m bs ! (i - (off + ?m)) else fbyte (view v) ?x i)) \<and>
      (\<forall>n. (\<forall>i. mapped (view v) ?x i \<longrightarrow> n \<noteq> blkaddr (view v) ?x i) \<longrightarrow> view t n = view v n)"
    proof (rule less.hyps [of "drop ?m bs" v "off + ?m", unfolded x])
      show "length (drop ?m bs) < length bs" using m by simp
      show "log_inv v" by (rule V(1))
      show "i_dev ?x = ROOTDEV" by (rule less.prems(2))
      show "data_ok (lstart v) (view v) ?x" unfolding vv using data_ok_cong [of "lstart s" "view s" ?x ?V, OF less.prems(3) ind] UL VL by simp
      show "mapped (view v) ?x (i div BSIZE)" if "off + ?m \<le> i" "i < off + ?m + length (drop ?m bs)" for i
        using less.prems(4) [of i] that sm(1) [of "i div BSIZE"] vv m(2) by simp
      show "writei_loop ip (off + ?m) (drop ?m bs) v = Ok r t" by (rule v(2))
    qed
    have W: "fbyte ?V ?x i = (if off \<le> i \<and> i < off + ?m then take ?m bs ! (i - off) else fbyte (view s) ?x i)"
      if "mapped (view s) ?x (i div BSIZE)" for i
      using fbyte_write [OF less.prems(3) mp that l, of "take ?m bs" ?V] m by simp
    have F: "fbyte (view t) ?x i = (if off \<le> i \<and> i < off + length bs then bs ! (i - off) else fbyte (view s) ?x i)"
      if "mapped (view s) ?x (i div BSIZE)" for i
    proof -
      have "fbyte (view t) ?x i = (if off + ?m \<le> i \<and> i < off + ?m + length (drop ?m bs)
          then drop ?m bs ! (i - (off + ?m)) else fbyte ?V ?x i)"
        using IH sm(1) [of "i div BSIZE"] that unfolding vv by blast
      then show ?thesis unfolding W [OF that] using chunk_join [OF m(2)] by simp
    qed
    have "view t n = view s n" if "\<forall>i. mapped (view s) ?x i \<longrightarrow> n \<noteq> blkaddr (view s) ?x i" for n
    proof -
      have "view t n = view v n" using IH that sm unfolding vv by metis
      then show ?thesis using that mp unfolding vv by auto
    qed
    then show ?thesis using IH F fs_to_trans [OF sv] fs_toD(3) [OF sv] m(2) by auto
  qed
qed

lemma size_max:
  assumes "all_mapped V x"
  shows "i_size x \<le> MAXFILE * BSIZE"
proof (cases "i_size x = 0")
  case False
  then have "mapped V x ((i_size x - 1) div BSIZE)" using assms by (simp add: all_mapped_def)
  then have "(i_size x - 1) div BSIZE < MAXFILE" by (simp add: mapped_def)
  then have "i_size x - 1 < MAXFILE * BSIZE" by (simp add: less_mult_imp_div_less div_less_iff_less_mult BSIZE_def)
  then show ?thesis by simp
qed simp

text \<open>Overwriting part of a file changes exactly those bytes of it, and nothing but its data
  blocks.\<close>

lemma writei_fs:
  assumes s: "log_inv s" and x: "x = inodes s ! ip" "i_type x \<noteq> T_DEV" "all_mapped (view s) x"
    and D: "data_ok (lstart s) (view s) x" and o': "off + length src \<le> i_size x"
    and run: "writei dsw ip src off s = Ok r t"
  shows "r = int (length src)" "fs_to s t (view t) (locked s)" "inodes t = inodes s"
    "mapped (view s) x (i div BSIZE) \<Longrightarrow> fbyte (view t) x i =
       (if off \<le> i \<and> i < off + length src then src ! (i - off) else fbyte (view s) x i)"
    "(\<forall>i. mapped (view s) x i \<longrightarrow> n \<noteq> blkaddr (view s) x i) \<Longrightarrow> view t n = view s n"
proof -
  have b: "i_size x < 2 ^ 31" "i_size x \<le> MAXFILE * BSIZE" using x(3) size_max by (auto simp: all_mapped_def)
  have e: "(off + length src) mod 2 ^ 32 = off + length src" using o' b(1) by simp
  have "kbind (writei_loop ip off src) (\<lambda>off'. kbind (ip_get ip i_size) (\<lambda>sz.
          kbind (kwhen (length src > 0 \<and> off' > sz)
                  (kbind (ip_set ip (\<lambda>x. x\<lparr>i_size := off'\<rparr>)) (\<lambda>_. iupdate ip))) (\<lambda>_.
          ret (s32 (length src))))) s = Ok r t"
    using run x(2) o' b unfolding writei_def e x(1) by (simp add: ip_get_def Let_def)
  then obtain o2 u where u: "writei_loop ip off src s = Ok o2 u"
    and k: "kbind (kwhen (length src > 0 \<and> o2 > i_size (inodes u ! ip))
                  (kbind (ip_set ip (\<lambda>x. x\<lparr>i_size := o2\<rparr>)) (\<lambda>_. iupdate ip))) (\<lambda>_. ret (s32 (length src))) u = Ok r t"
    by (auto simp: kbind_eq_Ok ip_get_def)
  have mp: "\<And>i. off \<le> i \<Longrightarrow> i < off + length src \<Longrightarrow> mapped (view s) (inodes s ! ip) (i div BSIZE)"
    using x o' by (simp add: all_mapped_def)
  have dv: "i_dev (inodes s ! ip) = ROOTDEV" using x by (simp add: all_mapped_def)
  note W = writei_loop_fs [OF s dv D [unfolded x(1)] mp u]
  have F: "fs_to s u (view u) (locked s)" using W by blast
  have iu: "inodes u = inodes s" by (rule fs_frame(1) [OF fs_toD(5) [OF F]])
  have "\<not> o2 > i_size (inodes u ! ip)" using W o' x(1) unfolding iu by simp
  then have t: "t = u" "r = s32 (length src)" using k by (simp_all add: ret_def kwhen_def)
  show "r = int (length src)" using t(2) o' b(1) by simp
  show "fs_to s t (view t) (locked s)" "inodes t = inodes s" unfolding t(1) by (rule F, rule iu)
  show "mapped (view s) x (i div BSIZE) \<Longrightarrow> fbyte (view t) x i =
       (if off \<le> i \<and> i < off + length src then src ! (i - off) else fbyte (view s) x i)"
    unfolding t(1) x(1) using W by blast
  show "(\<forall>i. mapped (view s) x i \<longrightarrow> n \<noteq> blkaddr (view s) x i) \<Longrightarrow> view t n = view s n"
    unfolding t(1) x(1) using W by blast
qed

section \<open>Facts: directories\<close>

definition dirent_at :: "(nat \<Rightarrow> block) \<Rightarrow> inode \<Rightarrow> nat \<Rightarrow> byte list" where
  "dirent_at V x off = map (fbyte V x) [off..<off + DIRENT_SIZE]"

definition dir_match :: "(nat \<Rightarrow> block) \<Rightarrow> inode \<Rightarrow> byte list \<Rightarrow> nat \<Rightarrow> bool" where
  "dir_match V x nm off \<longleftrightarrow> de_inum (dirent_at V x off) \<noteq> 0 \<and> namecmp nm (de_name (dirent_at V x off)) = 0"

lemma dir_offsets_bound:
  assumes "DIRENT_SIZE dvd sz" "off \<in> set (dir_offsets sz)"
  shows "off + DIRENT_SIZE \<le> sz"
proof -
  obtain q where q: "sz = DIRENT_SIZE * q" using assms(1) by (auto elim: dvdE)
  have "(sz + DIRENT_SIZE - 1) div DIRENT_SIZE = q" unfolding q by (simp add: DIRENT_SIZE_def)
  then obtain k where "k < q" "off = k * DIRENT_SIZE" using assms(2) by (auto simp: dir_offsets_def)
  then show ?thesis using q by (simp add: DIRENT_SIZE_def)
qed

lemma read_dirent:
  assumes s: "log_inv s" and x: "x = inodes s ! dp" "i_type x = T_DIR" "all_mapped (view s) x"
    and o': "off + DIRENT_SIZE \<le> i_size x"
    and run: "kbind (readi dsw dp off DIRENT_SIZE) (\<lambda>r. case r of (n, de) \<Rightarrow>
       if n \<noteq> int DIRENT_SIZE then kpanic ''dirlink read'' else k de) s = Ok r t"
  shows "\<exists>u. fs_to s u (view s) (locked s) \<and> k (dirent_at (view s) x off) u = Ok r t"
proof -
  from run obtain q u where q: "readi dsw dp off DIRENT_SIZE s = Ok q u"
    and k: "(case q of (n, de) \<Rightarrow> if n \<noteq> int DIRENT_SIZE then kpanic ''dirlink read'' else k de) u = Ok r t"
    by (auto simp: kbind_eq_Ok)
  have b: "off + DIRENT_SIZE < 2 ^ 32" "i_type x \<noteq> T_DEV"
    using x o' by (auto simp: all_mapped_def T_DIR_def T_DEV_def)
  note R = readi_fs [OF s x(1) b(2) x(3) b(1) q]
  have "q = (int DIRENT_SIZE, dirent_at (view s) x off)"
    using R(2) o' by (simp add: Let_def dirent_at_def min_def split: if_splits)
  then show ?thesis using R(1) k by (auto split: if_splits)
qed

text \<open>\<open>dirlookup\<close> finds the first live entry whose name compares equal, and takes a reference
  to its inode; it returns null only if there is none.\<close>

lemma dirlookup_fs:
  assumes s: "log_inv s" and x: "x = inodes s ! dp" "all_mapped (view s) x" "DIRENT_SIZE dvd i_size x"
    and run: "dirlookup dsw dp nm s = Ok r t"
  shows "i_type x = T_DIR"
    "case find (dir_match (view s) x nm) (dir_offsets (i_size x)) of
       None \<Rightarrow> r = None \<and> fs_to s t (view s) (locked s)
     | Some off \<Rightarrow> (\<exists>u ip. fs_to s u (view s) (locked s) \<and> r = Some (ip, off) \<and>
         iget ROOTDEV (de_inum (dirent_at (view s) x off)) u = Ok ip t)"
proof -
  let ?body = "\<lambda>off. kbind (readi dsw dp off DIRENT_SIZE) (\<lambda>r. case r of (n, de) \<Rightarrow>
       if n \<noteq> int DIRENT_SIZE then kpanic ''dirlink read''
       else if de_inum de = 0 then ret None
       else if namecmp nm (de_name de) = 0 then
         kbind (iget (i_dev x) (de_inum de)) (\<lambda>ip. ret (Some (ip, off)))
       else ret None)"
  from run show ty: "i_type x = T_DIR" by (auto simp: dirlookup_def ip_get_def x(1) split: if_splits)
  have kf: "kfirst (dir_offsets (i_size x)) ?body s = Ok r t"
    using run ty unfolding x(1) by (simp add: dirlookup_def ip_get_def)
  let ?I = "\<lambda>u. fs_to s u (view s) (locked s)"
  let ?G = "\<lambda>off u r t. \<exists>v ip. fs_to s v (view s) (locked s) \<and> r = Some (ip, off) \<and>
         iget ROOTDEV (de_inum (dirent_at (view s) x off)) v = Ok ip t"
  have dv: "i_dev x = ROOTDEV" using x(2) by (simp add: all_mapped_def)
  have "case find (dir_match (view s) x nm) (dir_offsets (i_size x)) of None \<Rightarrow> r = None \<and> ?I t
     | Some off \<Rightarrow> (\<exists>u. ?I u \<and> ?G off u r t)"
  proof (rule kfirst_find [where I = ?I and G = ?G, OF kf fs_to_refl [OF s]])
    fix off a q b assume off: "off \<in> set (dir_offsets (i_size x))" and a: "?I a" and run: "?body off a = Ok q b"
    note A = fs_toD [OF a]
    have xa: "x = inodes a ! dp" "all_mapped (view a) x" using fs_frame(1) [OF A(5)] x A(2) by simp_all
    let ?de = "dirent_at (view s) x off"
    obtain u where u: "fs_to a u (view a) (locked a)" "(if de_inum ?de = 0 then ret None
       else if namecmp nm (de_name ?de) = 0 then kbind (iget (i_dev x) (de_inum ?de)) (\<lambda>ip. ret (Some (ip, off)))
       else ret None) u = Ok q b"
      using read_dirent [OF A(1) xa(1) ty xa(2) dir_offsets_bound [OF x(3) off] run] unfolding A(2) by blast
    have su: "?I u" using fs_to_trans [OF a u(1)] A(2,3) by simp
    show "if dir_match (view s) x nm off then q \<noteq> None \<and> ?G off a q b else q = None \<and> ?I b"
      using u(2) su dv by (auto simp: dir_match_def kbind_eq_Ok split: if_splits)
  qed
  then show "case find (dir_match (view s) x nm) (dir_offsets (i_size x)) of
       None \<Rightarrow> r = None \<and> fs_to s t (view s) (locked s)
     | Some off \<Rightarrow> (\<exists>u ip. fs_to s u (view s) (locked s) \<and> r = Some (ip, off) \<and>
         iget ROOTDEV (de_inum (dirent_at (view s) x off)) u = Ok ip t)"
    by (auto split: option.splits)
qed

lemma strn_name_at: "strn (name_at nm) n = takeWhile (\<lambda>c. c \<noteq> 0) (take n nm)"
proof (induction n arbitrary: nm)
  case (Suc n)
  show ?case
  proof (cases nm)
    case Nil
    then show ?thesis by (simp add: name_at_def)
  next
    case (Cons c cs)
    have "(\<lambda>i. name_at (c # cs) (Suc i)) = name_at cs" by (auto simp: name_at_def)
    moreover have "name_at (c # cs) 0 = c" by (simp add: name_at_def)
    ultimately show ?thesis using Suc.IH [of cs] Cons by simp
  qed
qed simp

text \<open>Two names compare equal exactly when they agree up to their first NUL within
  \<open>DIRSIZ\<close> bytes.\<close>

lemma namecmp_eq_0:
  "namecmp s t = 0 \<longleftrightarrow> takeWhile (\<lambda>c. c \<noteq> 0) (take DIRSIZ s) = takeWhile (\<lambda>c. c \<noteq> 0) (take DIRSIZ t)"
  unfolding namecmp_def strncmp_eq_0 strn_name_at ..

lemma mk_dirent_fields:
  shows "length (mk_dirent nm inum) = DIRENT_SIZE" "de_inum (mk_dirent nm inum) = inum mod 2 ^ 16"
    "0 \<notin> set nm \<Longrightarrow> namecmp nm (de_name (mk_dirent nm inum)) = 0"
proof -
  show "length (mk_dirent nm inum) = DIRENT_SIZE" by (simp add: mk_dirent_def DIRSIZ_def DIRENT_SIZE_def)
  have "subrange 0 2 (mk_dirent nm inum) = enc_le 2 inum" by (simp add: mk_dirent_def subrange_def)
  then show "de_inum (mk_dirent nm inum) = inum mod 2 ^ 16" by (simp add: de_inum_def get_le_def dec_enc_le)
  have "de_name (mk_dirent nm inum) = take DIRSIZ (nm @ replicate DIRSIZ 0)"
    by (simp add: mk_dirent_def de_name_def subrange_def)
  moreover have "takeWhile (\<lambda>c. c \<noteq> 0) (xs @ replicate k 0) = xs" if "0 \<notin> set xs" for xs :: "byte list" and k
    using that by (induction xs) (auto simp: takeWhile_replicate)
  moreover assume "0 \<notin> set nm"
  moreover have "0 \<notin> set (take DIRSIZ nm)" using \<open>0 \<notin> set nm\<close> by (meson in_set_takeD)
  ultimately show "namecmp nm (de_name (mk_dirent nm inum)) = 0"
    unfolding namecmp_eq_0 by (simp add: take_replicate takeWhile_eq_all_conv) (metis \<open>0 \<notin> set nm\<close> in_set_takeD takeWhile_eq_all_conv)
qed

section \<open>Facts: paths\<close>

text \<open>The elements of a path, each cut to \<open>DIRSIZ\<close> bytes.\<close>

function path_elems :: "byte list \<Rightarrow> byte list list" where
  "path_elems path = (case skipelem path of None \<Rightarrow> [] | Some (rest, nm) \<Rightarrow> nm # path_elems rest)"
  by pat_completeness auto
termination by (relation "measure length") (auto dest: skipelem_shorter)

declare path_elems.simps [simp del]

lemma path_elems_skip: "path_elems path = path_elems (dropWhile (\<lambda>c. c = slash) path)"
  by (subst (1 2) path_elems.simps) (simp add: skipelem_def Let_def dropWhile_idem)

lemma path_elems_Nil [simp]: "path_elems [] = []"
  by (subst path_elems.simps) (simp add: skipelem_def)

lemma path_elems_slash [simp]: "path_elems (slash # p) = path_elems p"
  by (subst (1 2) path_elems_skip) simp

text \<open>A name up to the next slash or the end of the path.\<close>

lemma path_elems_name:
  assumes "nm \<noteq> []" "slash \<notin> set nm"
  shows "path_elems (nm @ slash # q) = take DIRSIZ nm # path_elems q"
    "path_elems nm = [take DIRSIZ nm]"
proof -
  obtain c cs where c: "nm = c # cs" "c \<noteq> slash" using assms by (cases nm) auto
  have tk: "takeWhile (\<lambda>c. c \<noteq> slash) (nm @ slash # q) = nm" "takeWhile (\<lambda>c. c \<noteq> slash) nm = nm"
    "dropWhile (\<lambda>c. c \<noteq> slash) (nm @ slash # q) = slash # q" "dropWhile (\<lambda>c. c \<noteq> slash) nm = []"
    using assms(2) by (auto simp: takeWhile_append takeWhile_eq_all_conv dropWhile_append)
  have sk: "dropWhile (\<lambda>c. c = slash) (nm @ r) = nm @ r" for r using c by simp
  show "path_elems (nm @ slash # q) = take DIRSIZ nm # path_elems q"
    using tk sk [of "slash # q"] c(1) by (subst path_elems.simps) (simp add: skipelem_def Let_def path_elems_skip [of q, symmetric])
  show "path_elems nm = [take DIRSIZ nm]"
    using tk sk [of "[]"] c(1) by (subst path_elems.simps) (simp add: skipelem_def Let_def)
qed

text \<open>Paths split at a slash: the elements of the two halves, whatever slashes they repeat.\<close>

lemma path_elems_append: "path_elems (p @ slash # q) = path_elems p @ path_elems q"
proof (induction "length p" arbitrary: p rule: less_induct)
  case less
  show ?case
  proof (cases p)
    case Nil
    then show ?thesis by simp
  next
    case (Cons c cs)
    show ?thesis
    proof (cases "c = slash")
      case True
      then show ?thesis using less [of cs] Cons by simp
    next
      case False
      let ?n = "takeWhile (\<lambda>c. c \<noteq> slash) p" and ?r = "dropWhile (\<lambda>c. c \<noteq> slash) p"
      have n: "?n \<noteq> []" "slash \<notin> set ?n" using Cons False by (auto dest: set_takeWhileD)
      have p: "p = ?n @ ?r" by simp
      show ?thesis
      proof (cases ?r)
        case Nil
        then have pn: "?n = p" using takeWhile_dropWhile_id [of "\<lambda>c. c \<noteq> slash" p] by simp
        show ?thesis using path_elems_name [OF n [unfolded pn]] by simp
      next
        case r: (Cons d ds)
        then have "d = slash" using hd_dropWhile [of "\<lambda>c. c \<noteq> slash" p] by simp
        then have e: "p = ?n @ slash # ds" using p r by simp
        have l: "length ds < length p" by (subst e) simp
        have "path_elems (p @ slash # q) = take DIRSIZ ?n # path_elems (ds @ slash # q)"
          using path_elems_name(1) [OF n, of "ds @ slash # q"] by (subst e) simp
        also have "\<dots> = (take DIRSIZ ?n # path_elems ds) @ path_elems q" using less [OF l] by simp
        also have "take DIRSIZ ?n # path_elems ds = path_elems p" using path_elems_name(1) [OF n, of ds] e by simp
        finally show ?thesis .
      qed
    qed
  qed
qed

section \<open>Allocation returns\<close>

text \<open>The sectors a routine may lock: none that another buffer of the caller holds.\<close>

lemma release_total:
  assumes s: "log_inv s" "calm s" and l: "locked s b = Some n" "saved s n"
  shows "\<exists>u. brelse b s = Ok () u \<and> fs_to s u (view s) ((locked s)(b := None)) \<and> pinned u = pinned s \<and> lh_n u = lh_n s"
proof -
  have ok: "bcache_ok s" using s(1) by (simp add: log_inv_def log_wf_def)
  obtain u where u: "brelse b s = Ok () u" "bio_to s u (view s) ((locked s)(b := None)) (pinned s) []"
    using brelse_step [OF ok l(1) s(2) l(2) [unfolded saved_def]] by blast
  then show ?thesis using log_inv_bio [OF s(1) u(2)] bio_toD(4) [OF u(2)] log_frame(6) [OF bio_toD(7) [OF u(2)]] by blast
qed

definition balloc_clear :: "(nat \<Rightarrow> block) \<Rightarrow> (nat \<Rightarrow> nat option) \<Rightarrow> bool" where
  "balloc_clear V L \<longleftrightarrow> (\<forall>n \<in> ran L. n \<noteq> 1 \<and> in_use V n \<and>
     (\<forall>b < sb_size (dec_superblock (V 1)). n \<noteq> BBLOCK b (sb_ninodes (dec_superblock (V 1)))))"

lemma balloc_block_total:
  assumes r: "roomy 2 s" and bm: "bitmap_ok (lstart s) (view s)" and cl: "balloc_clear (view s) (locked s)"
    and k: "k * BPB < sb_size (dec_superblock (view s 1))"
  shows "if \<exists>bi < min BPB (sb_size (dec_superblock (view s 1)) - k * BPB). \<not> in_use (view s) (k * BPB + bi)
    then \<exists>a t. balloc_block ROOTDEV (dec_superblock (view s 1)) (k * BPB) s = Ok (Some a) t \<and>
      pinned t = insert a (insert (BBLOCK a (sb_ninodes (dec_superblock (view s 1)))) (pinned s)) \<and> lh_n t \<le> lh_n s + 2
    else \<exists>t. balloc_block ROOTDEV (dec_superblock (view s 1)) (k * BPB) s = Ok None t \<and>
      pinned t = pinned s \<and> lh_n t = lh_n s"
proof -
  let ?sb = "dec_superblock (view s 1)" and ?b = "k * BPB"
  let ?n = "BBLOCK ?b (sb_ninodes ?sb)"
  let ?P = "\<lambda>bi. \<not> bm_test (view s ?n) bi"
  let ?r = "[0..<min BPB (sb_size ?sb - ?b)]"
  have s: "log_inv s" "calm s" using r by (auto simp: roomy_def)
  have n: "?n < lstart s" "?n < 2 ^ 32" using bm k by (auto simp: bitmap_ok_def dest: less_trans)
  have nl: "?n \<notin> ran (locked s)" using cl k by (auto simp: balloc_clear_def)
  have iu: "\<not> in_use (view s) (?b + bi) \<longleftrightarrow> ?P bi" if "bi < BPB" for bi
    using BBLOCK_split [OF that] by (simp add: in_use_def)
  obtain bp u where u: "bread ROOTDEV ?n s = Ok bp u" "fs_to s u (view s) ((locked s)(bp \<mapsto> ?n))" "locked s bp = None"
      "locked u bp = Some ?n" "saved u ?n" "pinned u = pinned s" "lh_n u = lh_n s"
    using bread_total_fs [OF roomy_mono [OF r] lstart_disksize [OF s(1) n(1)] nl] by auto
  note U = fs_toD [OF u(2)] and UL = fs_to_lstart [OF u(2)]
  have cu: "calm u" using s(2) UL by (simp add: calm_def)
  have unl: "(locked u)(bp := None) = locked s" using U(3) u(3) by (auto simp: fun_eq_iff)
  have run: "balloc_block ROOTDEV ?sb ?b s = (case find ?P ?r of
       Some bi \<Rightarrow> kbind (set_bdata bp (bm_set bi)) (\<lambda>_. kbind (log_write bp) (\<lambda>_. kbind (brelse bp) (\<lambda>_.
         kbind (bzero ROOTDEV (?b + bi)) (\<lambda>_. ret (Some (?b + bi))))))
     | None \<Rightarrow> kbind (brelse bp) (\<lambda>_. ret None)) u"
    unfolding balloc_block_def kbind_Ok [of "bread ROOTDEV ?n" s, OF u(1)] get_bdata_fs [OF U(1) u(4)] U(2) ..
  show ?thesis
  proof (cases "find ?P ?r")
    case None
    obtain v where v: "brelse bp u = Ok () v" "pinned v = pinned s" "lh_n v = lh_n s"
      using release_total [OF U(1) cu u(4,5)] u(6,7) by auto
    have "\<not> (\<exists>bi < min BPB (sb_size ?sb - ?b). \<not> in_use (view s) (?b + bi))"
      using find_NoneD [OF None] iu by auto
    then show ?thesis using v unfolding run None by (simp add: kbind_Ok ret_def)
  next
    case (Some bi)
    then have bi: "bi < BPB" "?b + bi < sb_size ?sb" "?P bi" "bi < min BPB (sb_size ?sb - ?b)" using find_SomeD [OF Some] by auto
    let ?a = "?b + bi"
    note BB = BBLOCK_split [OF bi(1)]
    have free: "\<not> in_use (view s) ?a" using bi(3) iu [OF bi(1)] by simp
    have "lstart s \<le> ?a \<Longrightarrow> in_use (view s) ?a" "?a = ?n \<Longrightarrow> in_use (view s) ?a" "lstart s < 2 ^ 32"
      using bm bi(2) k unfolding bitmap_ok_def by blast+
    then have a: "?a < lstart s" "?a < 2 ^ 32" "?a \<noteq> ?n" using free by linarith+
    have al: "?a \<notin> ran (locked s)" using free cl by (auto simp: balloc_clear_def)
    have len: "length (bm_set bi (view u ?n)) = BSIZE" using log_inv_length [OF s(1) lstart_disksize [OF s(1) n(1)]] U(2) by simp
    have c: "lh_n u < int LOGSIZE" "lh_n u < int (lsize u) - 1" "0 < outstanding u" "?n < lstart u"
      using r u(7) n(1) log_frame_fields [OF U(5)] by (auto simp: roomy_def)
    obtain v where v: "kbind (set_bdata bp (bm_set bi)) (\<lambda>_. kbind (log_write bp) (\<lambda>_. kbind (brelse bp) (\<lambda>_.
         kbind (bzero ROOTDEV ?a) (\<lambda>_. ret (Some ?a))))) u = kbind (bzero ROOTDEV ?a) (\<lambda>_. ret (Some ?a)) v"
        "fs_to u v ((view u)(?n := bm_set bi (view u ?n))) ((locked u)(bp := None))" "pinned v = insert ?n (pinned u)"
        "lh_n v \<le> lh_n u + 1"
      using write_release_total [where f = "bm_set bi" and k = "kbind (bzero ROOTDEV ?a) (\<lambda>_. ret (Some ?a))",
        OF U(1) cu c(1-3) u(4) c(4) n(2) len] by blast
    note V = fs_toD [OF v(2)] and VL = fs_to_lstart [OF v(2)]
    have sv: "fs_to s v (view v) (locked s)" using fs_to_trans [OF u(2) v(2)] V(2) unl by simp
    have pn: "card (pinned v) \<le> card (pinned s) + 1" unfolding v(3) u(6) by (rule card_insert_le_m1) auto
    have rv: "roomy 1 v"
      by (rule roomy_fs_to [OF r sv]) (use pn v(4) u(7) in auto)
    have lz: "length (replicate BSIZE 0 :: block) = BSIZE" by simp
    obtain w where w: "kbind (bzero ROOTDEV ?a) (\<lambda>_. ret (Some ?a)) v = ret (Some ?a) w" "pinned w = insert ?a (pinned v)"
        "lh_n w \<le> lh_n v + 1"
      using update_sector_total [where f = "\<lambda>_. replicate BSIZE 0" and k = "ret (Some ?a)", OF rv _ a(2) _ lz]
        a(1) al UL VL V(3) unl by (auto simp: bzero_def)
    have "balloc_block ROOTDEV ?sb ?b s = Ok (Some ?a) w" unfolding run Some using v(1) w(1) by (simp add: ret_def)
    moreover have "lh_n w \<le> lh_n s + 2" using w(3) v(4) u(7) by simp
    moreover have "pinned w = insert ?a (insert (BBLOCK ?a (sb_ninodes ?sb)) (pinned s))" using w(2) v(3) u(6) BB(1) by simp
    ultimately show ?thesis using free bi(4) by auto
  qed
qed

lemma balloc_total:
  assumes r: "roomy 2 s" and bm: "bitmap_ok (lstart s) (view s)" and cl: "balloc_clear (view s) (locked s)"
    and one: "1 < disksize s"
  shows "if \<exists>b < sb_size (dec_superblock (view s 1)). \<not> in_use (view s) b
    then \<exists>a t. balloc ROOTDEV s = Ok a t \<and> pinned t = insert a (insert (BBLOCK a (sb_ninodes (dec_superblock (view s 1)))) (pinned s)) \<and>
      lh_n t \<le> lh_n s + 2
    else balloc ROOTDEV s = Panic ''balloc: out of blocks''"
proof -
  let ?sb = "dec_superblock (view s 1)"
  let ?ks = "[0..<(sb_size ?sb + BPB - 1) div BPB]"
  let ?is = "map (\<lambda>k. k * BPB) ?ks"
  let ?post = "\<lambda>a t. pinned t = insert a (insert (BBLOCK a (sb_ninodes ?sb)) (pinned s)) \<and> lh_n t \<le> lh_n s + 2"
  let ?I = "\<lambda>u. fs_to s u (view s) (locked s) \<and> pinned u = pinned s \<and> lh_n u = lh_n s"
  let ?P = "\<lambda>b. \<exists>bi < min BPB (sb_size ?sb - b). \<not> in_use (view s) (b + bi)"
  let ?k = "\<lambda>r. case r of Some b \<Rightarrow> ret b | None \<Rightarrow> kpanic ''balloc: out of blocks''"
  have s: "log_inv s" using r by (simp add: roomy_def)
  have B: "0 < BPB" by (simp add: BPB_def BSIZE_def)
  have "1 \<notin> ran (locked s)" using cl by (auto simp: balloc_clear_def)
  from read_sector_total [OF roomy_mono [OF r] one this, of "\<lambda>d. kbind (kfirst (map (\<lambda>k. k * BPB)
      [0..<(sb_size (dec_superblock d) + BPB - 1) div BPB]) (balloc_block ROOTDEV (dec_superblock d))) ?k"]
  obtain u where u: "balloc ROOTDEV s = kbind (kfirst ?is (balloc_block ROOTDEV ?sb)) ?k u" "?I u"
    by (auto simp: balloc_def readsb_def)
  have kb: "k * BPB < sb_size ?sb" if "k < (sb_size ?sb + BPB - 1) div BPB" for k
  proof -
    have "Suc k * BPB \<le> sb_size ?sb + BPB - 1"
      using that B by (metis Suc_leI div_times_less_eq_dividend le_trans mult_le_mono1)
    then show ?thesis using B by simp
  qed
  have "if \<exists>b \<in> set ?is. ?P b then \<exists>a t. kfirst ?is (balloc_block ROOTDEV ?sb) u = Ok (Some a) t \<and> ?post a t
    else \<exists>t. kfirst ?is (balloc_block ROOTDEV ?sb) u = Ok None t \<and> ?I t"
  proof (rule kfirst_total [where I = ?I, OF u(2)])
    fix b v assume b: "b \<in> set ?is" and v: "?I v"
    from b obtain k where kk: "b = k * BPB" "k < (sb_size ?sb + BPB - 1) div BPB"
      unfolding set_map image_iff set_upt by (meson atLeastLessThan_iff)
    note k = kk(1) kb [OF kk(2), folded kk(1)]
    have fv: "fs_to s v (view s) (locked s)" using v by blast
    note V = fs_toD [OF fv] and VL = fs_to_lstart [OF fv]
    have rv: "roomy 2 v" by (rule roomy_fs_to [OF r fv]) (use v in auto)
    have pv: "pinned v = pinned s" "lh_n v = lh_n s" using v by simp_all
    have bmv: "bitmap_ok (lstart v) (view s)" using bm VL by simp
    have "if ?P b then \<exists>a t. balloc_block ROOTDEV ?sb b v = Ok (Some a) t \<and> ?post a t
      else \<exists>t. balloc_block ROOTDEV ?sb b v = Ok None t \<and> pinned t = pinned s \<and> lh_n t = lh_n s"
      unfolding kk(1) by (rule balloc_block_total [OF rv, of k, unfolded V(2,3) pv(1,2), OF bmv cl k(2) [unfolded kk(1)]])
    moreover have "fs_to s t (view s) (locked s)" if "balloc_block ROOTDEV ?sb b v = Ok None t" for t
      using balloc_block_fs [OF V(1), of k None t] that bm VL V(2,3) k(1) fs_to_trans [OF fv] by (auto simp: balloc_post_def)
    ultimately show "if ?P b then \<exists>a t. balloc_block ROOTDEV ?sb b v = Ok (Some a) t \<and> ?post a t
      else \<exists>t. balloc_block ROOTDEV ?sb b v = Ok None t \<and> ?I t" by (auto split: if_splits)
  qed
  moreover have "(\<exists>b \<in> set ?is. ?P b) \<longleftrightarrow> (\<exists>b < sb_size ?sb. \<not> in_use (view s) b)"
  proof
    assume "\<exists>b < sb_size ?sb. \<not> in_use (view s) b"
    then obtain b where b: "b < sb_size ?sb" "\<not> in_use (view s) b" by blast
    have "(b + BPB) div BPB \<le> (sb_size ?sb + BPB - 1) div BPB" using b(1) by (intro div_le_mono) simp
    moreover have "(b + BPB) div BPB = Suc (b div BPB)" using B by (simp add: div_add_self2)
    ultimately have "b div BPB < (sb_size ?sb + BPB - 1) div BPB" by linarith
    moreover have "b mod BPB < min BPB (sb_size ?sb - b div BPB * BPB)"
      using b(1) B by (simp add: less_diff_conv)
    ultimately show "\<exists>b \<in> set ?is. ?P b" using b(2)
      by (intro bexI [of _ "b div BPB * BPB"] exI [of _ "b mod BPB"]) auto
  next
    assume "\<exists>b \<in> set ?is. ?P b"
    then obtain b bi where "bi < sb_size ?sb - b" "\<not> in_use (view s) (b + bi)" by auto
    then show "\<exists>b < sb_size ?sb. \<not> in_use (view s) b" by (intro exI [of _ "b + bi"]) simp
  qed
  ultimately show ?thesis unfolding u(1) by (auto simp: kbind_Ok ret_def kpanic_def split: if_splits)
qed

section \<open>Reading returns\<close>

text \<open>The sectors of a file are on the disk and not locked by the caller.\<close>

definition sectors_ok :: "nat \<Rightarrow> (nat \<Rightarrow> nat option) \<Rightarrow> (nat \<Rightarrow> block) \<Rightarrow> inode \<Rightarrow> bool" where
  "sectors_ok N L V x \<longleftrightarrow> (\<forall>bn. mapped V x bn \<longrightarrow> blkaddr V x bn < N \<and> blkaddr V x bn \<notin> ran L) \<and>
     (i_addrs x ! NDIRECT \<noteq> 0 \<longrightarrow> i_addrs x ! NDIRECT < N \<and> i_addrs x ! NDIRECT \<notin> ran L)"

text \<open>The state after an operation that only reads.\<close>

definition read_to :: "('z log_state_scheme) \<Rightarrow> ('z log_state_scheme) \<Rightarrow> bool" where
  "read_to s t \<longleftrightarrow> fs_to s t (view s) (locked s) \<and> pinned t = pinned s \<and> lh_n t = lh_n s"

lemma read_to_refl: "log_inv s \<Longrightarrow> read_to s s"
  by (simp add: read_to_def fs_to_refl)

lemma read_to_trans:
  assumes "read_to s t" "read_to t u" shows "read_to s u"
proof -
  have a: "fs_to s t (view s) (locked s)" "fs_to t u (view t) (locked t)" using assms by (simp_all add: read_to_def)
  have "fs_to s u (view s) (locked s)" using fs_to_trans [OF a] fs_toD(2,3) [OF a(1)] by simp
  then show ?thesis using assms by (simp add: read_to_def)
qed

lemma read_toD:
  assumes "read_to s t"
  shows "log_inv t" "view t = view s" "locked t = locked s" "pinned t = pinned s" "lh_n t = lh_n s" "log_frame_to s t"
    "lstart t = lstart s" "disksize t = disksize s" "held t = held s" "fs_to s t (view s) (locked s)"
  using assms fs_toD [of s t] fs_to_lstart [of s t] unfolding read_to_def by blast+

lemma roomy_read_to: "roomy j s \<Longrightarrow> read_to s t \<Longrightarrow> roomy j t"
  by (rule roomy_fs_to) (auto simp: read_to_def)

lemma bmap_mapped_total:
  assumes r: "roomy 0 s" and d: "i_dev (inodes s ! ip) = ROOTDEV" and m: "mapped (view s) (inodes s ! ip) bn"
    and sc: "sectors_ok (disksize s) (locked s) (view s) (inodes s ! ip)"
  shows "\<exists>u. bmap ip bn s = Ok (blkaddr (view s) (inodes s ! ip) bn) u \<and> read_to s u"
proof (cases "bn < NDIRECT")
  case True
  have "log_inv s" using r by (simp add: roomy_def)
  with True show ?thesis using m d read_to_refl by (auto simp: bmap_def ip_get_def mapped_def blkaddr_def ret_def)
next
  case False
  let ?ind = "i_addrs (inodes s ! ip) ! NDIRECT" and ?j = "bn - NDIRECT"
  have i: "?ind \<noteq> 0" "?j < NINDIRECT" "get_le 4 (4 * ?j) (view s ?ind) \<noteq> 0"
    using m False by (auto simp: mapped_def blkaddr_def MAXFILE_def)
  have ind: "?ind < disksize s" "?ind \<notin> ran (locked s)" using sc i(1) by (auto simp: sectors_ok_def)
  have s: "log_inv s" "calm s" using r by (auto simp: roomy_def)
  obtain bp u where u: "bread ROOTDEV ?ind s = Ok bp u" "fs_to s u (view s) ((locked s)(bp \<mapsto> ?ind))" "locked s bp = None"
      "locked u bp = Some ?ind" "saved u ?ind" "pinned u = pinned s" "lh_n u = lh_n s"
    using bread_total_fs [OF r ind] by auto
  note U = fs_toD [OF u(2)] and UL = fs_to_lstart [OF u(2)]
  have cu: "calm u" using s(2) UL by (simp add: calm_def)
  obtain v where v: "brelse bp u = Ok () v" "fs_to u v (view u) ((locked u)(bp := None))" "pinned v = pinned s" "lh_n v = lh_n s"
    using release_total [OF U(1) cu u(4,5)] u(6,7) by auto
  have "(locked u)(bp := None) = locked s" using U(3) u(3) by (auto simp: fun_eq_iff)
  then have "read_to s v" using fs_to_trans [OF u(2) v(2)] U(2) v(3,4) by (simp add: read_to_def)
  moreover have "bmap ip bn s = Ok (blkaddr (view s) (inodes s ! ip) bn) v"
    using False i(1,2,3) d u(1) v(1) U(2)
    by (simp add: bmap_def ip_get_def kbind_Ok get_bdata_fs [OF U(1) u(4)] blkaddr_def ret_def)
  ultimately show ?thesis by blast
qed

lemma readi_loop_total:
  assumes "roomy 0 s" "i_dev (inodes s ! ip) = ROOTDEV"
    and "\<And>i. off \<le> i \<Longrightarrow> i < off + n \<Longrightarrow> mapped (view s) (inodes s ! ip) (i div BSIZE)"
    and "sectors_ok (disksize s) (locked s) (view s) (inodes s ! ip)"
  shows "\<exists>bs t. readi_loop ip off n s = Ok bs t \<and> read_to s t"
  using assms
proof (induction n arbitrary: off s rule: less_induct)
  case (less n)
  let ?x = "inodes s ! ip"
  have s: "log_inv s" using less.prems(1) by (simp add: roomy_def)
  show ?case
  proof (cases "n = 0")
    case True
    then show ?thesis using read_to_refl [OF s] by (simp add: readi_loop.simps ret_def)
  next
    case False
    let ?m = "min n (BSIZE - off mod BSIZE)" and ?a = "blkaddr (view s) ?x (off div BSIZE)"
    have m: "0 < ?m" "?m \<le> n" using False by (auto simp: BSIZE_def)
    have mp: "mapped (view s) ?x (off div BSIZE)" using less.prems(3) [of off] False by simp
    let ?k = "\<lambda>d. kbind (readi_loop ip (off + ?m) (n - ?m)) (\<lambda>bs. ret (subrange (off mod BSIZE) ?m d @ bs))"
    obtain u where u: "bmap ip (off div BSIZE) s = Ok ?a u" "read_to s u"
      using bmap_mapped_total [OF less.prems(1,2) mp less.prems(4)] by blast
    note U = read_toD [OF u(2)]
    have a: "?a < disksize u" "?a \<notin> ran (locked u)" using less.prems(4) mp U by (auto simp: sectors_ok_def)
    obtain v where v: "kbind (bread ROOTDEV ?a) (\<lambda>b. kbind (get_bdata b) (\<lambda>d. kbind (brelse b) (\<lambda>_. ?k d))) u = ?k (view u ?a) v"
        "read_to u v" using read_sector_total [OF roomy_read_to [OF less.prems(1) u(2)] a, of ?k] unfolding read_to_def by blast
    have sv: "read_to s v" by (rule read_to_trans [OF u(2) v(2)])
    note V = read_toD [OF sv]
    have x: "inodes v = inodes s" by (rule fs_frame(1) [OF V(6)])
    obtain cs t where c: "readi_loop ip (off + ?m) (n - ?m) v = Ok cs t" "read_to v t"
      using less.IH [of "n - ?m" v "off + ?m"] roomy_read_to [OF less.prems(1) sv] less.prems(2-4) m V x by auto
    have "readi_loop ip off n s = Ok (subrange (off mod BSIZE) ?m (view u ?a) @ cs) t"
      using less.prems(2) False u(1) v(1) c(1)
      by (subst readi_loop.simps) (simp add: Let_def ip_get_def kbind_Ok ret_def)
    then show ?thesis using read_to_trans [OF sv c(2)] by blast
  qed
qed

lemma readi_total:
  assumes r: "roomy 0 s" and x: "x = inodes s ! ip" "i_type x \<noteq> T_DEV" "all_mapped (view s) x"
    and sc: "sectors_ok (disksize s) (locked s) (view s) x" and o': "off + n < 2 ^ 32"
  shows "\<exists>t. readi dsw ip off n s = Ok (if i_size x < off then (- 1, []) else
       let m = min n (i_size x - off) in (int m, map (fbyte (view s) x) [off..<off + m])) t \<and> read_to s t"
proof -
  have s: "log_inv s" using r by (simp add: roomy_def)
  have e: "(off + n) mod 2 ^ 32 = off + n" using o' by simp
  have "\<exists>q t. readi dsw ip off n s = Ok q t \<and> read_to s t"
  proof (cases "i_size x < off")
    case True
    then show ?thesis using x read_to_refl [OF s] by (simp add: readi_def ip_get_def ret_def)
  next
    case False
    let ?n = "if off + n > i_size x then i_size x - off else n"
    have dv: "i_dev (inodes s ! ip) = ROOTDEV" using x by (simp add: all_mapped_def)
    have mp: "mapped (view s) (inodes s ! ip) (i div BSIZE)" if "off \<le> i" "i < off + ?n" for i
      using x(1,3) False that by (auto simp: all_mapped_def split: if_splits)
    obtain bs t where bs: "readi_loop ip off ?n s = Ok bs t" "read_to s t"
      using readi_loop_total [OF r dv mp sc [unfolded x(1)]] by blast
    have "readi dsw ip off n s = kbind (readi_loop ip off ?n) (\<lambda>bs. ret (s32 ?n, bs)) s"
      using x(2,3) False unfolding readi_def e x(1) by (simp add: ip_get_def Let_def split del: if_split)
    then show ?thesis using bs by (simp add: kbind_Ok ret_def split del: if_split)
  qed
  then obtain q t where q: "readi dsw ip off n s = Ok q t" "read_to s t" by blast
  show ?thesis using q readi_fs(2) [OF s x o' q(1)] by auto
qed

section \<open>Overwriting returns\<close>

text \<open>The number of blocks a write of \<open>n\<close> bytes at \<open>off\<close> touches.\<close>

definition blocks_of :: "nat \<Rightarrow> nat \<Rightarrow> nat" where
  "blocks_of off n = (if n = 0 then 0 else (off mod BSIZE + n + (BSIZE - 1)) div BSIZE)"

lemma blocks_of_step:
  assumes "0 < n" "m = min n (BSIZE - off mod BSIZE)"
  shows "Suc (blocks_of (off + m) (n - m)) = blocks_of off n"
proof -
  have B: "0 < BSIZE" "off mod BSIZE < BSIZE" by (simp_all add: BSIZE_def)
  show ?thesis
  proof (cases "n \<le> BSIZE - off mod BSIZE")
    case True
    then have "off mod BSIZE + n + (BSIZE - 1) = (off mod BSIZE + n - 1) + BSIZE" "off mod BSIZE + n - 1 < BSIZE"
      using assms(1) B by linarith+
    then have "(off mod BSIZE + n + (BSIZE - 1)) div BSIZE = 1" using B by (simp only: div_add_self2) simp
    with True assms show ?thesis by (simp add: blocks_of_def)
  next
    case False
    then have m: "m = BSIZE - off mod BSIZE" "m < n" using assms by simp_all
    then have "(off + m) mod BSIZE = 0" using B
      by (metis add_diff_inverse_nat less_imp_not_less mod_add_left_eq mod_self)
    moreover have "off mod BSIZE + n + (BSIZE - 1) = (n - m + (BSIZE - 1)) + BSIZE" using m B by linarith
    moreover have "(off mod BSIZE + n + (BSIZE - 1)) div BSIZE = Suc ((n - m + (BSIZE - 1)) div BSIZE)"
      using B by (simp only: calculation(2) div_add_self2)
    ultimately show ?thesis using assms(1) m(2) by (simp only: blocks_of_def) simp
  qed
qed

lemma sectors_ok_cong:
  assumes "sectors_ok N L V x" "i_addrs x ! NDIRECT \<noteq> 0 \<Longrightarrow> V' (i_addrs x ! NDIRECT) = V (i_addrs x ! NDIRECT)"
  shows "sectors_ok N L V' x"
  using assms(1) same_map [of x V' V, OF assms(2)] unfolding sectors_ok_def by metis

lemma writei_loop_total:
  assumes "roomy (blocks_of off (length bs)) s" "i_dev (inodes s ! ip) = ROOTDEV" "data_ok (lstart s) (view s) (inodes s ! ip)"
    and "\<And>i. off \<le> i \<Longrightarrow> i < off + length bs \<Longrightarrow> mapped (view s) (inodes s ! ip) (i div BSIZE)"
    and "sectors_ok (disksize s) (locked s) (view s) (inodes s ! ip)"
  shows "\<exists>r t. writei_loop ip off bs s = Ok r t \<and> roomy 0 t"
  using assms
proof (induction "length bs" arbitrary: off s bs rule: less_induct)
  case less
  let ?x = "inodes s ! ip"
  have s: "log_inv s" using less.prems(1) by (simp add: roomy_def)
  show ?case
  proof (cases "bs = []")
    case True
    then show ?thesis using less.prems(1) by (auto simp: writei_loop.simps ret_def blocks_of_def)
  next
    case False
    let ?m = "min (length bs) (BSIZE - off mod BSIZE)" and ?a = "blkaddr (view s) ?x (off div BSIZE)"
    let ?f = "overlay (off mod BSIZE) (take ?m bs)"
    let ?j = "blocks_of (off + ?m) (length (drop ?m bs))"
    have m: "0 < ?m" "?m \<le> length bs" "off mod BSIZE + ?m \<le> BSIZE"
      using False by (auto simp: BSIZE_def)
    have r: "roomy (Suc ?j) s" using less.prems(1) blocks_of_step [of "length bs" ?m off] False by simp
    have mp: "mapped (view s) ?x (off div BSIZE)" using less.prems(4) [of off] m by simp
    obtain u where u: "bmap ip (off div BSIZE) s = Ok ?a u" "read_to s u"
      using bmap_mapped_total [OF roomy_mono [OF r] less.prems(2) mp less.prems(5)] by blast
    note U = read_toD [OF u(2)]
    have a: "?a < lstart u" "?a < 2 ^ 32" "?a \<notin> ran (locked u)" using less.prems(3,5) mp U
      unfolding data_ok_def sectors_ok_def by (auto intro: less_trans)
    have l: "length (view u ?a) = BSIZE" using log_inv_length [OF U(1) lstart_disksize [OF U(1) a(1)]] .
    then have lf: "length (?f (view u ?a)) = BSIZE" using m by simp
    have ru: "roomy 1 u" by (rule roomy_mono [OF roomy_read_to [OF r u(2)]]) simp
    obtain v where v: "kbind (bread ROOTDEV ?a) (\<lambda>b. kbind (set_bdata b ?f) (\<lambda>_. kbind (log_write b) (\<lambda>_. kbind (brelse b)
          (\<lambda>_. writei_loop ip (off + ?m) (drop ?m bs))))) u = writei_loop ip (off + ?m) (drop ?m bs) v"
        "fs_to u v ((view u)(?a := ?f (view u ?a))) (locked u)" "pinned v = insert ?a (pinned u)" "lh_n v \<le> lh_n u + 1"
      using update_sector_total [where f = ?f and k = "writei_loop ip (off + ?m) (drop ?m bs)", OF ru a lf] by blast
    let ?V = "(view s)(?a := ?f (view s ?a))"
    have sv: "fs_to s v ?V (locked s)" using fs_to_trans [OF U(10) v(2)] U by simp
    note V = fs_toD [OF sv] and VL = fs_to_lstart [OF sv]
    have x: "inodes v ! ip = ?x" using fs_frame(1) [OF V(5)] by simp
    have ind: "i_addrs ?x ! NDIRECT \<noteq> 0 \<Longrightarrow> ?V (i_addrs ?x ! NDIRECT) = view s (i_addrs ?x ! NDIRECT)"
      using less.prems(3) mp unfolding data_ok_def by auto
    have "card (pinned v) \<le> card (pinned s) + 1" unfolding v(3) U(4) by (rule card_insert_le_m1) auto
    then have rv: "roomy ?j v" by (intro roomy_fs_to [OF r sv]) (use v(4) U(5) in auto)
    have "\<exists>q t. writei_loop ip (off + ?m) (drop ?m bs) v = Ok q t \<and> roomy 0 t"
    proof (rule less.hyps [of "drop ?m bs" "off + ?m" v, unfolded x, OF _ rv less.prems(2)])
      show "length (drop ?m bs) < length bs" using m by simp
      show "data_ok (lstart v) (view v) ?x"
        unfolding V(2) using data_ok_cong [of "lstart s" "view s" ?x ?V, OF less.prems(3) ind] VL by simp
      show "mapped (view v) ?x (i div BSIZE)" if "off + ?m \<le> i" "i < off + ?m + length (drop ?m bs)" for i
        using less.prems(4) [of i] that same_map(1) [of ?x ?V "view s", OF ind] V(2) m(2) by simp
      show "sectors_ok (disksize v) (locked v) (view v) ?x"
        unfolding V(2,3) using sectors_ok_cong [of _ _ "view s" ?x ?V, OF less.prems(5) ind] VL by simp
    qed
    then show ?thesis using less.prems(2) False u(1) v(1)
      by (subst writei_loop.simps) (simp add: Let_def ip_get_def kbind_Ok)
  qed
qed

lemma writei_total:
  assumes r: "roomy (blocks_of off (length src)) s" and x: "x = inodes s ! ip" "i_type x \<noteq> T_DEV" "all_mapped (view s) x"
    and D: "data_ok (lstart s) (view s) x" "sectors_ok (disksize s) (locked s) (view s) x"
    and o': "off + length src \<le> i_size x"
  shows "\<exists>t. writei dsw ip src off s = Ok (int (length src)) t \<and> roomy 0 t"
proof -
  have s: "log_inv s" using r by (simp add: roomy_def)
  have b: "i_size x < 2 ^ 31" "i_size x \<le> MAXFILE * BSIZE" using x(3) size_max by (auto simp: all_mapped_def)
  have e: "(off + length src) mod 2 ^ 32 = off + length src" using o' b(1) by simp
  have mp: "\<And>i. off \<le> i \<Longrightarrow> i < off + length src \<Longrightarrow> mapped (view s) (inodes s ! ip) (i div BSIZE)"
    using x o' by (simp add: all_mapped_def)
  have dv: "i_dev (inodes s ! ip) = ROOTDEV" using x by (simp add: all_mapped_def)
  obtain o2 u where u: "writei_loop ip off src s = Ok o2 u" "roomy 0 u"
    using writei_loop_total [OF r dv D(1) [unfolded x(1)] mp D(2) [unfolded x(1)]] by blast
  note W = writei_loop_fs [OF s dv D(1) [unfolded x(1)] mp u(1)]
  have iu: "inodes u = inodes s" by (rule fs_frame(1) [OF fs_toD(5)]) (use W in blast)
  have k: "\<not> o2 > i_size (inodes u ! ip)" using W o' x(1) unfolding iu by simp
  have "writei dsw ip src off s = kbind (writei_loop ip off src) (\<lambda>off'. kbind (ip_get ip i_size) (\<lambda>sz.
          kbind (kwhen (length src > 0 \<and> off' > sz)
                  (kbind (ip_set ip (\<lambda>x. x\<lparr>i_size := off'\<rparr>)) (\<lambda>_. iupdate ip))) (\<lambda>_.
          ret (s32 (length src))))) s"
    using x(2) o' b unfolding writei_def e x(1) by (simp add: ip_get_def Let_def)
  also have "\<dots> = Ok (s32 (length src)) u" using u k by (simp add: kbind_Ok ip_get_def kwhen_def ret_def)
  finally show ?thesis using o' b(1) u(2) by simp
qed

section \<open>Directory lookup returns\<close>

lemma iget_total:
  assumes "IcacheLock \<notin> set (held s)" "\<exists>i < NINODE. i_ref (inodes s ! i) = 0"
  shows "\<exists>i t. iget dev inum s = Ok i t"
proof (cases "find (\<lambda>i. i_ref (inodes s ! i) > 0 \<and> i_dev (inodes s ! i) = dev \<and> i_inum (inodes s ! i) = inum) [0..<NINODE]")
  case (Some j)
  then show ?thesis using assms(1) by (simp add: iget_def kmon_simps ip_set_def upd_inode_def kmod_def ret_def)
next
  case None
  obtain j where "find (\<lambda>i. i_ref (inodes s ! i) = 0) [0..<NINODE] = Some j"
    using assms(2) find_some_exists [of _ "[0..<NINODE]" "\<lambda>i. i_ref (inodes s ! i) = 0"] by auto
  with None show ?thesis using assms(1) by (simp add: iget_def kmon_simps ip_set_def upd_inode_def kmod_def ret_def)
qed

lemma dirlookup_total:
  assumes r: "roomy 0 s" and x: "x = inodes s ! dp" "i_type x = T_DIR" "all_mapped (view s) x" "DIRENT_SIZE dvd i_size x"
    and sc: "sectors_ok (disksize s) (locked s) (view s) x"
    and ic: "IcacheLock \<notin> set (held s)" "\<exists>i < NINODE. i_ref (inodes s ! i) = 0"
  shows "\<exists>q t. dirlookup dsw dp nm s = Ok q t \<and> (case q of None \<Rightarrow> read_to s t
    | Some (ip, off) \<Rightarrow> \<exists>u. read_to s u \<and> iget ROOTDEV (de_inum (dirent_at (view s) x off)) u = Ok ip t)"
proof -
  let ?body = "\<lambda>off. kbind (readi dsw dp off DIRENT_SIZE) (\<lambda>r. case r of (n, de) \<Rightarrow>
       if n \<noteq> int DIRENT_SIZE then kpanic ''dirlink read''
       else if de_inum de = 0 then ret None
       else if namecmp nm (de_name de) = 0 then
         kbind (iget (i_dev x) (de_inum de)) (\<lambda>ip. ret (Some (ip, off)))
       else ret None)"
  have run: "dirlookup dsw dp nm s = kfirst (dir_offsets (i_size x)) ?body s"
    using x(2) unfolding x(1) by (simp add: dirlookup_def ip_get_def)
  have s: "log_inv s" using r by (simp add: roomy_def)
  have dv: "i_dev x = ROOTDEV" using x(3) by (simp add: all_mapped_def)
  let ?Q = "\<lambda>v b. \<exists>u. read_to s u \<and> iget ROOTDEV (de_inum (dirent_at (view s) x (snd v))) u = Ok (fst v) b"
  have *: "if \<exists>off \<in> set (dir_offsets (i_size x)). dir_match (view s) x nm off
    then \<exists>v t. kfirst (dir_offsets (i_size x)) ?body s = Ok (Some v) t \<and> ?Q v t
    else \<exists>t. kfirst (dir_offsets (i_size x)) ?body s = Ok None t \<and> read_to s t"
  proof (rule kfirst_total [where I = "read_to s", OF read_to_refl [OF s], where Q = ?Q])
    fix off a assume off: "off \<in> set (dir_offsets (i_size x))" and a: "read_to s a"
    note A = read_toD [OF a]
    have o': "off + DIRENT_SIZE \<le> i_size x" by (rule dir_offsets_bound [OF x(4) off])
    have xa: "x = inodes a ! dp" using fs_frame(1) [OF A(6)] x(1) by simp
    have b: "i_type x \<noteq> T_DEV" "off + DIRENT_SIZE < 2 ^ 32"
      using x(2,3) o' by (auto simp: all_mapped_def T_DIR_def T_DEV_def)
    have le: "\<not> i_size x < off" "min DIRENT_SIZE (i_size x - off) = DIRENT_SIZE" using o' by simp_all
    obtain t where t: "readi dsw dp off DIRENT_SIZE a = Ok (int DIRENT_SIZE, dirent_at (view s) x off) t" "read_to a t"
      using readi_total [OF roomy_read_to [OF r a] xa b(1) _ _ b(2), of dsw] x(3) sc A le
      unfolding A(2,3,8) by (auto simp: Let_def dirent_at_def)
    have st: "read_to s t" by (rule read_to_trans [OF a t(2)])
    note T = read_toD [OF st]
    have "\<exists>i w. iget ROOTDEV (de_inum (dirent_at (view s) x off)) t = Ok i w"
      by (rule iget_total) (use ic T fs_frame(1) [OF T(6)] in auto)
    then show "if dir_match (view s) x nm off then \<exists>v b. ?body off a = Ok (Some v) b \<and> ?Q v b
      else \<exists>b. ?body off a = Ok None b \<and> read_to s b"
      using t(1) st by (auto simp: kbind_Ok dir_match_def ret_def dv)
  qed
  then show ?thesis
  proof (cases "\<exists>off \<in> set (dir_offsets (i_size x)). dir_match (view s) x nm off")
    case True
    with * obtain v t where "kfirst (dir_offsets (i_size x)) ?body s = Ok (Some v) t" "?Q v t" by (simp only: if_True) blast
    then show ?thesis unfolding run by (cases v) auto
  next
    case False
    with * obtain t where "kfirst (dir_offsets (i_size x)) ?body s = Ok None t" "read_to s t" by (simp only: if_False) blast
    then show ?thesis unfolding run by (intro exI [of _ None] exI [of _ t]) simp
  qed
qed

section \<open>Freeing a block returns\<close>

lemma bfree_total:
  assumes r: "roomy 1 s" and bm: "bitmap_ok (lstart s) (view s)" "b < sb_size (dec_superblock (view s 1))"
    and one: "1 < disksize s" "1 \<notin> ran (locked s)"
    and fr: "BBLOCK b (sb_ninodes (dec_superblock (view s 1))) \<notin> ran (locked s)"
  shows "if in_use (view s) b then \<exists>t. bfree ROOTDEV b s = Ok () t else bfree ROOTDEV b s = Panic ''freeing free block''"
proof -
  let ?sb = "dec_superblock (view s 1)"
  let ?n = "BBLOCK b (sb_ninodes ?sb)"
  have n: "?n < lstart s" "?n < 2 ^ 32" using bm unfolding bitmap_ok_def by (meson less_trans)+
  let ?k = "\<lambda>sb. kbind (bread ROOTDEV (BBLOCK b (sb_ninodes sb))) (\<lambda>bp. kbind (get_bdata bp) (\<lambda>d.
     if \<not> bm_test d (b mod BPB) then kpanic ''freeing free block''
     else kbind (set_bdata bp (bm_clear (b mod BPB))) (\<lambda>_. kbind (log_write bp) (\<lambda>_. kbind (brelse bp) (\<lambda>_. ret ())))))"
  obtain u where u: "bfree ROOTDEV b s = ?k ?sb u" "read_to s u"
    using read_sector_total [OF roomy_mono [OF r] one, of "\<lambda>d. ?k (dec_superblock d)"]
    by (auto simp: bfree_def readsb_def read_to_def)
  note U = read_toD [OF u(2)]
  have ru: "roomy 1 u" by (rule roomy_read_to [OF r u(2)])
  obtain bp v where v: "bread ROOTDEV ?n u = Ok bp v" "fs_to u v (view u) ((locked u)(bp \<mapsto> ?n))" "locked v bp = Some ?n"
      "pinned v = pinned u" "lh_n v = lh_n u"
    using bread_total_fs [OF roomy_mono [OF ru] lstart_disksize [OF U(1)]] n(1) fr U(3,7) by fastforce
  note V = fs_toD [OF v(2)] and G = log_frame_fields [OF fs_toD(5) [OF v(2)]]
  have run: "bfree ROOTDEV b s = (if \<not> in_use (view s) b then kpanic ''freeing free block''
     else kbind (set_bdata bp (bm_clear (b mod BPB))) (\<lambda>_. kbind (log_write bp) (\<lambda>_. kbind (brelse bp) (\<lambda>_. ret ())))) v"
    unfolding u(1) using v(1) V(2) U(2) by (simp add: kbind_Ok get_bdata_fs [OF V(1) v(3)] in_use_def)
  show ?thesis
  proof (cases "in_use (view s) b")
    case False
    then show ?thesis by (simp add: run kpanic_def)
  next
    case True
    have c: "calm v" "lh_n v < int LOGSIZE" "lh_n v < int (lsize v) - 1" "0 < outstanding v" "?n < lstart v"
      using ru v(5) G(4,5,6,8) n(1) U(7) by (auto simp: roomy_def calm_def)
    have len: "length (bm_clear (b mod BPB) (view v ?n)) = BSIZE"
      using log_inv_length [OF V(1) lstart_disksize [OF V(1) c(5)]] by simp
    show ?thesis using write_release_total [where f = "bm_clear (b mod BPB)" and k = "ret ()", OF V(1) c(1-4) v(3) c(5) n(2) len] True
      by (auto simp: run ret_def)
  qed
qed

end
