(* ===== verification/FsProps.thy ===== *)
theory FsProps
  imports Fs
begin

text \<open>
  The correctness of the file system as properties: block allocation, the on-disk inode, the
  inode cache, file contents, directories and path names.  Each that has hypotheses is
  followed by an instance on \<open>demo_fs\<close>, a small file system of twenty sectors whose inode 1 is
  a directory with two entries.
\<close>

section \<open>A concrete file system\<close>

definition demo_super :: block where
  "demo_super = enc_le 4 20 @ enc_le 4 10 @ enc_le 4 8 @ enc_le 4 10 @ replicate 496 0"

definition demo_bitmap :: block where
  "demo_bitmap = [0x3f, 0xfc, 0x0f] @ replicate 509 0"

definition demo_dir :: block where
  "demo_dir = mk_dirent [46] 1 @ mk_dirent [97] 2 @ replicate 480 0"

definition demo_inode :: inode where
  "demo_inode = \<lparr>i_dev = ROOTDEV, i_inum = 1, i_ref = 1, i_busy = True, i_valid = True, i_type = T_DIR,
     i_major = 0, i_minor = 0, i_nlink = 1, i_size = 32, i_addrs = 5 # replicate 12 0\<rparr>"

definition free_inode :: inode where
  "free_inode = demo_inode\<lparr>i_ref := 0, i_busy := False, i_valid := False\<rparr>"

definition demo_fs :: fs_state where
  "demo_fs = \<lparr>held = [], cur = Some 0, mem = (\<lambda>_. 0), freelist = 0, use_lock = True, kend = 0, sym_data = 0, kpgdir = 0, cr3 = 0, tss_esp0 = 0,
     procs = [unused_proc\<lparr>p_state := RUNNING\<rparr>], nextpid = 1, initproc = None, sym_forkret = 0, sym_trapret = 0,
     memdisk = (\<lambda>n. if n = 1 then demo_super else if n = 4 then demo_bitmap else if n = 5 then demo_dir
       else replicate BSIZE 0), disksize = 20, disk_writes = [],
     bufs = replicate NBUF (empty_buf\<lparr>b_dev := NODEV\<rparr>), lru = [0..<NBUF],
     lstart = 10, lsize = 10, outstanding = 1, committing = False, ldev = ROOTDEV, lh_n = 0,
     lh_sector = replicate 30 0, inodes = demo_inode # replicate 49 free_inode\<rparr>"

text \<open>A \<open>devsw\<close> without drivers.\<close>

definition no_devsw :: "fs_state devsw" where
  "no_devsw = (\<lambda>_. \<lparr>dev_read = None, dev_write = None\<rparr>)"

lemma demo_fs_fields:
  "ldev demo_fs = ROOTDEV" "length (lh_sector demo_fs) = LOGSIZE" "lh_n demo_fs = 0" "lsize demo_fs = 10"
  "lstart demo_fs = 10" "disksize demo_fs = 20" "held demo_fs = []" "outstanding demo_fs = 1"
  "inodes demo_fs ! 0 = demo_inode" "length (inodes demo_fs) = NINODE"
  by (simp_all add: demo_fs_def LOGSIZE_def MAXOPBLOCKS_def NINODE_def)

lemma demo_fs_bufs: "i < NBUF \<Longrightarrow> bufs demo_fs ! i = empty_buf\<lparr>b_dev := NODEV\<rparr>"
  by (simp add: demo_fs_def)

lemma demo_fs_lengths: "length demo_super = BSIZE" "length demo_bitmap = BSIZE" "length demo_dir = BSIZE"
  by (simp_all add: demo_super_def demo_bitmap_def demo_dir_def mk_dirent_fields(1) DIRENT_SIZE_def BSIZE_def)

lemma demo_fs_bcache: "bcache_ok demo_fs"
proof -
  have "length (bufs demo_fs) = NBUF" "distinct (lru demo_fs)" "set (lru demo_fs) = {..<NBUF}"
    by (auto simp: demo_fs_def)
  moreover have "\<forall>n < disksize demo_fs. length (memdisk demo_fs n) = BSIZE"
    by (simp add: demo_fs_def demo_fs_lengths)
  ultimately show ?thesis unfolding bcache_ok_def
    using demo_fs_bufs by (simp add: empty_buf_def buf_ok_def)
qed

lemma demo_fs_views: "locked demo_fs = Map.empty" "pinned demo_fs = {}" "view demo_fs = memdisk demo_fs"
proof -
  show "locked demo_fs = Map.empty" using demo_fs_bufs by (auto simp: locked_def fun_eq_iff empty_buf_def)
  show "pinned demo_fs = {}" using demo_fs_bufs by (auto simp: pinned_def empty_buf_def)
  show "view demo_fs = memdisk demo_fs"
  proof
    fix n show "view demo_fs n = memdisk demo_fs n"
      using bcache_okD(1) [OF demo_fs_bcache] demo_fs_bufs
      by (intro view_uncached) (auto simp: cached_def empty_buf_def NODEV_def ROOTDEV_def u32_def)
  qed
qed

lemma demo_fs_roomy: "j < 10 \<Longrightarrow> roomy j demo_fs"
  unfolding roomy_def log_inv_def log_wf_def calm_def demo_fs_fields demo_fs_views
  using demo_fs_bcache by (auto simp: logged_def demo_fs_fields NBUF_def LOGSIZE_def MAXOPBLOCKS_def)

lemma demo_fs_super: "dec_superblock (view demo_fs 1) = \<lparr>sb_size = 20, sb_nblocks = 10, sb_ninodes = 8, sb_nlog = 10\<rparr>"
proof -
  have "view demo_fs 1 = demo_super" by (simp add: demo_fs_views(3)) (simp add: demo_fs_def)
  then show ?thesis
    by (simp add: dec_superblock_def demo_super_def get_le_def subrange_def dec_enc_le)
qed

lemma demo_fs_in_use: "b < 20 \<Longrightarrow> in_use (view demo_fs) b \<longleftrightarrow> b < 6 \<or> 10 \<le> b"
proof -
  assume b: "b < 20"
  then have "BBLOCK b 8 = 4" "b mod BPB = b" by (simp_all add: BBLOCK_def BPB_def BSIZE_def IPB_def DINODE_SIZE_def)
  moreover have "view demo_fs 4 = demo_bitmap" by (simp add: demo_fs_views(3)) (simp add: demo_fs_def)
  ultimately have "in_use (view demo_fs) b = bm_test demo_bitmap b" unfolding in_use_def demo_fs_super by simp
  moreover have "\<forall>b \<in> set [0..<20]. bm_test demo_bitmap b \<longleftrightarrow> b < 6 \<or> 10 \<le> b" by code_simp
  ultimately show ?thesis using b by simp
qed

lemma demo_fs_bitmap: "bitmap_ok (lstart demo_fs) (view demo_fs)"
  unfolding bitmap_ok_def demo_fs_super demo_fs_fields
  using demo_fs_in_use by (auto simp: BBLOCK_def BPB_def BSIZE_def IPB_def DINODE_SIZE_def)

section \<open>Blocks\<close>

lemma bit_index: "b mod BPB div 8 < BSIZE"
proof -
  have "b mod BPB < BSIZE * 8" by (simp add: BPB_def BSIZE_def)
  then show ?thesis by (simp add: less_mult_imp_div_less)
qed

lemma BBLOCK_ge: "3 \<le> BBLOCK b n"
  by (simp add: BBLOCK_def)

lemma div_mod_eqI: "a div n = b div n \<Longrightarrow> a mod n = b mod n \<Longrightarrow> a = (b :: nat)"
  by (metis div_mult_mod_eq)

text \<open>What a change of the bit of block \<open>a\<close> means for \<open>in_use\<close>.\<close>

lemma in_use_upd:
  assumes V': "V' 1 = V 1" "V' (BBLOCK b n) = (if BBLOCK b n = BBLOCK a n then f (a mod BPB) (V (BBLOCK a n)) else V (BBLOCK b n))"
    and n: "n = sb_ninodes (dec_superblock (V 1))" and len: "length (V (BBLOCK a n)) = BSIZE"
    and f: "\<And>i j d. j div 8 < length d \<Longrightarrow> i div 8 < length d \<Longrightarrow> bm_test (f i d) j \<longleftrightarrow> P (j = i) (bm_test d j)"
    and P: "\<And>x. P False x = x"
  shows "in_use V' b \<longleftrightarrow> P (b = a) (in_use V b)"
proof (cases "BBLOCK b n = BBLOCK a n")
  case True
  have v: "V' (BBLOCK b n) = f (a mod BPB) (V (BBLOCK b n))" "length (V (BBLOCK b n)) = BSIZE"
    using V'(2) len unfolding True by simp_all
  have e: "b mod BPB = a mod BPB \<longleftrightarrow> b = a" using True div_mod_eqI [of b BPB a] by (auto simp add: BBLOCK_def)
  have "bm_test (f (a mod BPB) (V (BBLOCK b n))) (b mod BPB) \<longleftrightarrow> P (b mod BPB = a mod BPB) (bm_test (V (BBLOCK b n)) (b mod BPB))"
    by (rule f) (simp_all only: v(2) bit_index)
  then show ?thesis unfolding in_use_def V'(1) n [symmetric] v(1) e .
next
  case False
  then have v: "V' (BBLOCK b n) = V (BBLOCK b n)" "b \<noteq> a" using V'(2) by auto
  then show ?thesis unfolding in_use_def V'(1) n [symmetric] v(1) by (simp add: P)
qed

lemma balloc_view_in_use:
  assumes bm: "bitmap_ok L V" and a: "a < sb_size (dec_superblock (V 1))" "\<not> in_use V a"
    and len: "length (V (BBLOCK a (sb_ninodes (dec_superblock (V 1))))) = BSIZE"
    and b: "b < sb_size (dec_superblock (V 1))"
  shows "in_use (balloc_view V a) b \<longleftrightarrow> b = a \<or> in_use V b"
proof -
  let ?n = "sb_ninodes (dec_superblock (V 1))"
  have ne: "a \<noteq> 1" "a \<noteq> BBLOCK b ?n" using bm a b unfolding bitmap_ok_def by blast+
  have v: "balloc_view V a = V(BBLOCK a ?n := bm_set (a mod BPB) (V (BBLOCK a ?n)), a := replicate BSIZE 0)"
    by (simp only: balloc_view_def Let_def)
  have one: "balloc_view V a 1 = V 1" using ne(1) BBLOCK_ge [of a ?n] unfolding v by (simp only: fun_upd_apply) auto
  have bl: "balloc_view V a (BBLOCK b ?n) = (if BBLOCK b ?n = BBLOCK a ?n then bm_set (a mod BPB) (V (BBLOCK a ?n)) else V (BBLOCK b ?n))"
    using ne(2) unfolding v by (simp only: fun_upd_apply) auto
  show ?thesis
    by (rule in_use_upd [where f = bm_set and P = "(\<or>)", OF one bl refl len]) (simp_all add: bm_set_test)
qed

lemma bfree_view_in_use:
  assumes len: "length (V (BBLOCK a (sb_ninodes (dec_superblock (V 1))))) = BSIZE"
  shows "in_use (bfree_view V a) b \<longleftrightarrow> b \<noteq> a \<and> in_use V b"
proof -
  let ?n = "sb_ninodes (dec_superblock (V 1))"
  have v: "bfree_view V a = V(BBLOCK a ?n := bm_clear (a mod BPB) (V (BBLOCK a ?n)))"
    by (simp only: bfree_view_def Let_def)
  have one: "bfree_view V a 1 = V 1" using BBLOCK_ge [of a ?n] unfolding v by (simp only: fun_upd_apply) auto
  have bl: "bfree_view V a (BBLOCK b ?n) = (if BBLOCK b ?n = BBLOCK a ?n then bm_clear (a mod BPB) (V (BBLOCK a ?n)) else V (BBLOCK b ?n))"
    unfolding v by (simp only: fun_upd_apply)
  show ?thesis
    by (rule in_use_upd [where f = bm_clear and P = "\<lambda>x y. \<not> x \<and> y", OF one bl refl len]) (simp_all add: bm_clear_test)
qed


lemma demo_fs_clear: "balloc_clear (view demo_fs) (locked demo_fs)" "1 < disksize demo_fs"
  by (simp_all add: balloc_clear_def demo_fs_views(1) demo_fs_fields)


text \<open>\<open>bfree\<close> of a block in use clears its mark, and no other mark and no sector other than
  the bitmap block changes; \<open>bfree\<close> of a free block panics.\<close>

theorem bfree_frees:
  assumes "roomy 1 s" "bitmap_ok (lstart s) (view s)" "b < sb_size (dec_superblock (view s 1))"
    "1 < disksize s" "balloc_clear (view s) (locked s)"
  shows "if in_use (view s) b
    then \<exists>t. bfree ROOTDEV b s = Ok () t \<and> locked t = locked s \<and>
      (\<forall>c. in_use (view t) c \<longleftrightarrow> c \<noteq> b \<and> in_use (view s) c) \<and>
      (\<forall>n. n \<noteq> BBLOCK b (sb_ninodes (dec_superblock (view s 1))) \<longrightarrow> view t n = view s n)
    else bfree ROOTDEV b s = Panic ''freeing free block''"
proof -
  have s: "log_inv s" using assms(1) by (simp add: roomy_def)
  have nl: "1 \<notin> ran (locked s)" "BBLOCK b (sb_ninodes (dec_superblock (view s 1))) \<notin> ran (locked s)"
    using assms(3,5) unfolding balloc_clear_def by blast+
  note T = bfree_total [OF assms(1-3) assms(4) nl]
  have n: "BBLOCK b (sb_ninodes (dec_superblock (view s 1))) < lstart s" using assms(2,3) unfolding bitmap_ok_def by blast
  have len: "length (view s (BBLOCK b (sb_ninodes (dec_superblock (view s 1))))) = BSIZE"
    by (rule log_inv_length [OF s lstart_disksize [OF s n]])
  show ?thesis
  proof (cases "in_use (view s) b")
    case False
    then show ?thesis using T by (simp only: if_False)
  next
    case True
    then obtain t where run: "bfree ROOTDEV b s = Ok () t" using T by (auto simp only: if_True)
    then have "kbind (bfree ROOTDEV b) (\<lambda>_. ret ()) s = Ok () t" by (simp add: kbind_Ok ret_def)
    from bfree_fs(1) [OF s assms(2,3) this] have "fs_to s t (bfree_view (view s) b) (locked s)" by auto
    note V = fs_toD [OF this]
    have fr: "\<forall>n. n \<noteq> BBLOCK b (sb_ninodes (dec_superblock (view s 1))) \<longrightarrow> view t n = view s n"
      unfolding V(2) bfree_view_def by (simp add: Let_def)
    have iu: "\<forall>c. in_use (view t) c \<longleftrightarrow> c \<noteq> b \<and> in_use (view s) c"
      unfolding V(2) using bfree_view_in_use [of "view s" b, OF len] by blast
    show ?thesis using True run V(3) fr iu by (simp only: if_True) blast
  qed
qed

theorem bfree_frees_witness:
  "\<exists>t. bfree ROOTDEV 5 demo_fs = Ok () t \<and> \<not> in_use (view t) 5"
proof -
  have "5 < sb_size (dec_superblock (view demo_fs 1))" unfolding demo_fs_super by simp
  from bfree_frees [OF demo_fs_roomy demo_fs_bitmap this demo_fs_clear(2,1)] demo_fs_in_use [of 5]
  show ?thesis by auto
qed

section \<open>Inodes\<close>

text \<open>The on-disk inode.  Storing inode \<open>n\<close> in its block and loading inode \<open>m\<close> of the same
  block gives every field back when they are the same slot, and what was there before when
  they are not.\<close>

theorem dinode_round_trip:
  assumes "length d = BSIZE" "inode_fits x"
  shows "load_dinode m (put_dinode n x d) y =
    (if m mod IPB = n mod IPB then y\<lparr>i_type := i_type x, i_major := i_major x, i_minor := i_minor x,
       i_nlink := i_nlink x, i_size := i_size x, i_addrs := i_addrs x\<rparr>
     else load_dinode m d y)"
proof -
  have l: "length (i_addrs x) = NDIRECT + 1" using assms(2) by (simp add: inode_fits_def)
  have "m mod IPB = n mod IPB \<Longrightarrow> load_dinode m (put_dinode n x d) y = load_dinode n (put_dinode n x d) y"
    by (simp add: load_dinode_def dinode_off_def)
  then show ?thesis
    using load_put_dinode [OF assms, of n y] load_put_dinode_other [OF assms(1) l, of n m y] by auto
qed

lemma demo_inode_fits: "inode_fits demo_inode"
  by (simp add: inode_fits_def demo_inode_def T_DIR_def NDIRECT_def)

theorem dinode_round_trip_witness:
  "i_size (load_dinode 1 (put_dinode 1 demo_inode (replicate BSIZE 0)) free_inode) = 32"
  by (subst dinode_round_trip [OF _ demo_inode_fits]) (simp_all add: demo_inode_def)


lemma demo_fs_inodes: "i < NINODE \<Longrightarrow> inodes demo_fs ! i = (if i = 0 then demo_inode else free_inode)"
  by (cases i) (simp_all add: demo_fs_def NINODE_def)

lemma demo_fs_icache: "icache_ok demo_fs" "\<exists>i < NINODE. i_ref (inodes demo_fs ! i) = 0"
proof -
  show "icache_ok demo_fs" unfolding icache_ok_def
    using demo_fs_inodes demo_fs_fields(10) by (simp add: demo_inode_def free_inode_def)
  have "1 < NINODE" by (simp add: NINODE_def)
  then show "\<exists>i < NINODE. i_ref (inodes demo_fs ! i) = 0"
    using demo_fs_inodes [of 1] by (intro exI [of _ 1]) (simp add: free_inode_def)
qed


section \<open>File contents\<close>

lemma demo_mapped: "mapped (view demo_fs) demo_inode bn \<longleftrightarrow> bn = 0"
  by (cases bn) (auto simp: mapped_def blkaddr_def demo_inode_def NDIRECT_def MAXFILE_def nth_Cons' split: if_splits)

lemma demo_inode_ok:
  "all_mapped (view demo_fs) demo_inode" "sectors_ok (disksize demo_fs) (locked demo_fs) (view demo_fs) demo_inode"
  "data_ok (lstart demo_fs) (view demo_fs) demo_inode" "i_type demo_inode \<noteq> T_DEV" "i_type demo_inode = T_DIR"
  "i_size demo_inode = 32"
proof -
  have a: "i_addrs demo_inode ! NDIRECT = 0" "blkaddr (view demo_fs) demo_inode 0 = 5"
    by (simp_all add: demo_inode_def NDIRECT_def blkaddr_def)
  show "all_mapped (view demo_fs) demo_inode"
    unfolding all_mapped_def demo_mapped by (simp add: demo_inode_def BSIZE_def)
  show "sectors_ok (disksize demo_fs) (locked demo_fs) (view demo_fs) demo_inode"
    unfolding sectors_ok_def demo_mapped demo_fs_fields demo_fs_views(1) using a by simp
  show "data_ok (lstart demo_fs) (view demo_fs) demo_inode"
    unfolding data_ok_def demo_mapped demo_fs_fields using a by simp
  show "i_type demo_inode \<noteq> T_DEV" "i_type demo_inode = T_DIR" "i_size demo_inode = 32"
    by (simp_all add: demo_inode_def T_DIR_def T_DEV_def)
qed

text \<open>C10: \<open>readi\<close> on a file whose blocks are allocated returns the bytes of the file from
  \<open>off\<close>, cut at its end, with their number; past the end it returns \<open>-1\<close>.  It changes no
  sector and leaves no buffer locked.\<close>

theorem readi_reads:
  assumes "roomy 0 s" "i_type (inodes s ! ip) \<noteq> T_DEV" "all_mapped (view s) (inodes s ! ip)"
    "sectors_ok (disksize s) (locked s) (view s) (inodes s ! ip)" "off + n < 2 ^ 32"
  shows "\<exists>t. readi dsw ip off n s = Ok (if i_size (inodes s ! ip) < off then (- 1, []) else
       let m = min n (i_size (inodes s ! ip) - off) in (int m, map (fbyte (view s) (inodes s ! ip)) [off..<off + m])) t \<and>
     view t = view s \<and> locked t = locked s \<and> inodes t = inodes s"
proof -
  obtain t where "readi dsw ip off n s = Ok (if i_size (inodes s ! ip) < off then (- 1, []) else
       let m = min n (i_size (inodes s ! ip) - off) in (int m, map (fbyte (view s) (inodes s ! ip)) [off..<off + m])) t"
    "read_to s t" using readi_total [OF assms(1) refl assms(2-5)] by blast
  then show ?thesis using read_toD(2,3) fs_frame(1) [OF read_toD(6)] by blast
qed

theorem readi_reads_witness:
  "\<exists>t bs. readi no_devsw 0 16 100 demo_fs = Ok (16, bs) t \<and> length bs = 16"
  using readi_reads [OF demo_fs_roomy, of 0 16 100 no_devsw] demo_inode_ok(1,2,4,6) by (auto simp: demo_fs_fields(9))

text \<open>C4: \<open>writei\<close> over existing bytes of a file, in a transaction with room for the blocks it
  touches, returns the number of bytes written.  Reading the same range afterwards gives those
  bytes, every other byte of the file is as before, and no sector outside the file's data
  blocks has changed.\<close>

theorem writei_then_readi:
  assumes "roomy (blocks_of off (length src)) s" "i_type (inodes s ! ip) \<noteq> T_DEV" "all_mapped (view s) (inodes s ! ip)"
    "data_ok (lstart s) (view s) (inodes s ! ip)" "sectors_ok (disksize s) (locked s) (view s) (inodes s ! ip)"
    "off + length src \<le> i_size (inodes s ! ip)"
  shows "\<exists>t u. writei dsw ip src off s = Ok (int (length src)) t \<and>
    readi dsw ip off (length src) t = Ok (int (length src), src) u \<and>
    (\<forall>i < i_size (inodes s ! ip). i < off \<or> off + length src \<le> i \<longrightarrow>
       fbyte (view t) (inodes t ! ip) i = fbyte (view s) (inodes s ! ip) i) \<and>
    (\<forall>n. (\<forall>i. mapped (view s) (inodes s ! ip) i \<longrightarrow> n \<noteq> blkaddr (view s) (inodes s ! ip) i) \<longrightarrow> view t n = view s n)"
proof -
  let ?x = "inodes s ! ip"
  have s: "log_inv s" using assms(1) by (simp add: roomy_def)
  obtain t where t: "writei dsw ip src off s = Ok (int (length src)) t" "roomy 0 t"
    using writei_total [OF assms(1) refl assms(2-6)] by blast
  note W = writei_fs [OF s refl assms(2-4,6) t(1)]
  note F = fs_toD [OF W(2)] and FL = fs_to_lstart [OF W(2)]
  have mp: "i < i_size ?x \<Longrightarrow> mapped (view s) ?x (i div BSIZE)" for i using assms(3) by (simp add: all_mapped_def)
  have ind: "view t (i_addrs ?x ! NDIRECT) = view s (i_addrs ?x ! NDIRECT)" if "i_addrs ?x ! NDIRECT \<noteq> 0"
    using W(5) [of "i_addrs ?x ! NDIRECT"] assms(4) that unfolding data_ok_def by metis
  have am: "all_mapped (view t) ?x" using assms(3) same_map(1) [of ?x "view t" "view s", OF ind]
    by (simp add: all_mapped_def)
  have sc: "sectors_ok (disksize t) (locked t) (view t) ?x"
    using sectors_ok_cong [of _ _ "view s" ?x "view t", OF assms(5) ind] FL F(3) by simp
  have o': "off + length src < 2 ^ 32" using assms(3,6) by (simp add: all_mapped_def)
  have x: "inodes t ! ip = ?x" by (simp only: W(3))
  obtain u where u: "readi dsw ip off (length src) t = Ok (if i_size ?x < off then (- 1, []) else
       let m = min (length src) (i_size ?x - off) in (int m, map (fbyte (view t) ?x) [off..<off + m])) u"
    using readi_total [OF t(2) x [symmetric] assms(2) am sc o'] by blast
  have m: "\<not> i_size ?x < off" "min (length src) (i_size ?x - off) = length src" using assms(6) by simp_all
  have "fbyte (view t) ?x i = src ! (i - off)" if "off \<le> i" "i < off + length src" for i
    using W(4) [OF mp [of i]] that assms(6) by simp
  then have "map (fbyte (view t) ?x) [off..<off + length src] = src"
    by (intro nth_equalityI) simp_all
  then have "readi dsw ip off (length src) t = Ok (int (length src), src) u"
    using u m by (simp add: Let_def)
  moreover have "fbyte (view t) (inodes t ! ip) i = fbyte (view s) ?x i"
    if "i < i_size ?x" "i < off \<or> off + length src \<le> i" for i
    using W(4) [OF mp [OF that(1)]] that(2) unfolding x by auto
  ultimately show ?thesis using t(1) W(5) by (intro exI [of _ t] exI [of _ u]) blast
qed

theorem writei_then_readi_witness:
  "\<exists>t u. writei no_devsw 0 [1, 2, 3] 8 demo_fs = Ok 3 t \<and> readi no_devsw 0 8 3 t = Ok (3, [1, 2, 3]) u"
proof -
  have "blocks_of 8 (length [1, 2, 3 :: byte]) = 1" by (simp add: blocks_of_def BSIZE_def)
  then have "roomy (blocks_of 8 (length [1, 2, 3 :: byte])) demo_fs" using demo_fs_roomy [of 1] by simp
  from writei_then_readi [OF this, of 0 no_devsw] demo_inode_ok(1-4,6) show ?thesis
    by (auto simp: demo_fs_fields(9) numeral_3_eq_3)
qed

section \<open>Directories\<close>

text \<open>C8: \<open>dirlookup\<close> in a directory returns the first entry that is in use and whose name equals
  the one asked for up to \<open>DIRSIZ\<close> bytes or a NUL: its offset and a referenced cache entry for its
  inode; if there is none it returns null.  No sector changes.\<close>

theorem dirlookup_finds:
  assumes "roomy 0 s" "i_type (inodes s ! dp) = T_DIR" "all_mapped (view s) (inodes s ! dp)"
    "DIRENT_SIZE dvd i_size (inodes s ! dp)" "sectors_ok (disksize s) (locked s) (view s) (inodes s ! dp)"
    "IcacheLock \<notin> set (held s)" "\<exists>i < NINODE. i_ref (inodes s ! i) = 0" "icache_ok s"
  shows "\<exists>r t. dirlookup dsw dp nm s = Ok r t \<and> view t = view s \<and> icache_ok t \<and>
    (case find (dir_match (view s) (inodes s ! dp) nm) (dir_offsets (i_size (inodes s ! dp))) of
       None \<Rightarrow> r = None
     | Some off \<Rightarrow> \<exists>ip < NINODE. r = Some (ip, off) \<and> 0 < i_ref (inodes t ! ip) \<and>
         i_dev (inodes t ! ip) = ROOTDEV \<and> i_inum (inodes t ! ip) = de_inum (dirent_at (view s) (inodes s ! dp) off))"
proof -
  have s: "log_inv s" using assms(1) by (simp add: roomy_def)
  obtain r t where run: "dirlookup dsw dp nm s = Ok r t"
    using dirlookup_total [OF assms(1) refl assms(2-7)] by blast
  note D = dirlookup_fs(2) [OF s refl assms(3,4) run]
  have ic: "icache_ok u" if "fs_to s u (view s) (locked s)" for u
    using assms(8) fs_frame(1) [OF fs_toD(5) [OF that]] by (simp add: icache_ok_def)
  show ?thesis
  proof (cases "find (dir_match (view s) (inodes s ! dp) nm) (dir_offsets (i_size (inodes s ! dp)))")
    case None
    then have "r = None" "fs_to s t (view s) (locked s)" using D by simp_all
    then show ?thesis using run None ic fs_toD(2) by auto
  next
    case (Some off)
    then obtain u ip where u: "fs_to s u (view s) (locked s)" "r = Some (ip, off)"
      "iget ROOTDEV (de_inum (dirent_at (view s) (inodes s ! dp) off)) u = Ok ip t" using D by auto
    note G = iget_unique [OF ic [OF u(1)] u(3)]
    have "view t = view u" by (subst G(6)) (simp add: view_def fun_eq_iff split: option.split)
    then show ?thesis using run Some u(2) G(1-5) fs_toD(2) [OF u(1)] by auto
  qed
qed

theorem dirlookup_finds_witness:
  "\<exists>ip t. dirlookup no_devsw 0 [97] demo_fs = Ok (Some (ip, 16)) t \<and> i_inum (inodes t ! ip) = 2"
proof -
  have "DIRENT_SIZE dvd i_size (inodes demo_fs ! 0)" by (simp add: demo_fs_fields(9) demo_inode_ok(6) DIRENT_SIZE_def)
  note D = dirlookup_finds [OF demo_fs_roomy, of 0 no_devsw "[97]", unfolded demo_fs_fields(9), OF _ demo_inode_ok(5,1) this [unfolded demo_fs_fields(9)]
    demo_inode_ok(2) _ demo_fs_icache(2,1)]
  have b: "blkaddr (view demo_fs) demo_inode 0 = 5" by (simp add: blkaddr_def demo_inode_def NDIRECT_def)
  have d: "view demo_fs 5 = demo_dir" by (simp add: demo_fs_views(3)) (simp add: demo_fs_def)
  have fb: "fbyte (view demo_fs) demo_inode i = demo_dir ! i" if "i < 512" for i
    using that b d by (simp add: fbyte_def BSIZE_def)
  have de: "dirent_at (view demo_fs) demo_inode off = map ((!) demo_dir) [off..<off + 16]" if "off + 16 \<le> 512" for off
    using fb that by (simp add: dirent_at_def DIRENT_SIZE_def)
  have e: "map ((!) demo_dir) [0..<0 + 16] = mk_dirent [46] 1" "map ((!) demo_dir) [16..<16 + 16] = mk_dirent [97] 2" by code_simp+
  have "find (dir_match (view demo_fs) demo_inode [97]) (dir_offsets 32) = Some 16"
    "de_inum (dirent_at (view demo_fs) demo_inode 16) = 2"
  proof -
    have n: "namecmp [97] (de_name (mk_dirent [46] 1)) \<noteq> 0" "namecmp [97] (de_name (mk_dirent [97] 2)) = 0"
      "de_inum (mk_dirent [97] 2) = 2" by code_simp+
    have o': "dir_offsets 32 = [0, 16]" by code_simp
    show "de_inum (dirent_at (view demo_fs) demo_inode 16) = 2" using de [of 16] e(2) n(3) by simp
    show "find (dir_match (view demo_fs) demo_inode [97]) (dir_offsets 32) = Some 16"
      unfolding o' using de [of 0] de [of 16] e n by (simp add: dir_match_def)
  qed
  then show ?thesis using D by (auto simp: demo_fs_fields(7) demo_inode_ok(6))
qed

section \<open>Paths\<close>

text \<open>The names \<open>namex\<close> walks through.  Joining two paths with a slash concatenates their
  elements whatever slashes they begin or end with; a slash-free name is one element, cut to
  \<open>DIRSIZ\<close> bytes; a path of slashes has none.\<close>

theorem path_walk:
  "path_elems (p @ slash # q) = path_elems p @ path_elems q \<and> path_elems (replicate k slash) = [] \<and>
   (nm \<noteq> [] \<and> slash \<notin> set nm \<longrightarrow> path_elems nm = [take DIRSIZ nm])"
proof -
  have "path_elems (replicate k slash) = []" by (induction k) simp_all
  then show ?thesis using path_elems_append path_elems_name(2) by blast
qed

theorem path_walk_witness: "path_elems [97, 98] = [[97, 98 :: byte]]"
  using path_walk [of "[]" "[]" 0 "[97, 98]"] by (simp add: slash_def DIRSIZ_def)

end
