(* ===== verification/Pipe.thy ===== *)
theory Pipe
  imports FsProps
begin

text \<open>
  Pipes and the open-file structure: \<open>pipe.c\<close> and \<open>struct file\<close> of \<open>file.h\<close>.  A pipe is
  named by the address of its page.  The ring buffer is indexed by two 32-bit counters that
  only grow and wrap around; the abstraction \<open>pipe_q\<close> reads the bytes between them as a
  queue, and the lemmas show that the byte operations implement the queue, that
  \<open>pipewrite\<close> appends and \<open>piperead\<close> removes at the front, and when they wait.
\<close>

definition PIPESIZE :: nat where "PIPESIZE = 512"

record pipe =
  pi_data :: "byte list"
  nread :: nat
  nwrite :: nat
  readopen :: bool
  writeopen :: bool

datatype fdtype = FD_NONE | FD_PIPE | FD_INODE

record openfile =
  f_type :: fdtype
  f_ref :: int
  f_readable :: bool
  f_writable :: bool
  f_pipe :: nat
  f_ip :: nat
  f_off :: nat

record file_state = fs_state +
  files :: "openfile list"
  pipes :: "nat \<Rightarrow> pipe"

section \<open>Byte operations\<close>

definition pipe_full :: "pipe \<Rightarrow> bool" where
  "pipe_full p \<longleftrightarrow> nwrite p = (nread p + PIPESIZE) mod 2 ^ 32"

definition pipe_empty :: "pipe \<Rightarrow> bool" where
  "pipe_empty p \<longleftrightarrow> nread p = nwrite p"

text \<open>\<open>p->data[p->nwrite++ % PIPESIZE] = b\<close> and \<open>p->data[p->nread++ % PIPESIZE]\<close>.\<close>

definition pipe_put :: "byte \<Rightarrow> pipe \<Rightarrow> pipe" where
  "pipe_put b p = p\<lparr>pi_data := (pi_data p)[nwrite p mod PIPESIZE := b], nwrite := (nwrite p + 1) mod 2 ^ 32\<rparr>"

definition pipe_get :: "pipe \<Rightarrow> byte \<times> pipe" where
  "pipe_get p = (pi_data p ! (nread p mod PIPESIZE), p\<lparr>nread := (nread p + 1) mod 2 ^ 32\<rparr>)"

section \<open>Operations\<close>

definition upd_pipe :: "nat \<Rightarrow> (pipe \<Rightarrow> pipe) \<Rightarrow> ('z file_state_scheme) \<Rightarrow> ('z file_state_scheme)" where
  "upd_pipe p f s = s\<lparr>pipes := (pipes s)(p := f (pipes s p))\<rparr>"

text \<open>\<open>proc->killed\<close>.\<close>

definition cur_killed :: "('z proc_state_scheme) \<Rightarrow> bool" where
  "cur_killed s = (case cur s of None \<Rightarrow> False | Some p \<Rightarrow> p_killed (procs s ! p))"

definition pipeclose :: "nat \<Rightarrow> bool \<Rightarrow> ('z file_state_scheme, unit) kmon" where
  "pipeclose p writable =
     kbind (acquire (PipeLock p)) (\<lambda>_.
     kbind (if writable
            then kseq (kmod (upd_pipe p (\<lambda>x. x\<lparr>writeopen := False\<rparr>))) (wakeup (ChanPipeR p))
            else kseq (kmod (upd_pipe p (\<lambda>x. x\<lparr>readopen := False\<rparr>))) (wakeup (ChanPipeW p))) (\<lambda>_.
     kbind (kget (\<lambda>s. \<not> readopen (pipes s p) \<and> \<not> writeopen (pipes s p))) (\<lambda>closed.
     if closed then kseq (release (PipeLock p)) (kfree p)
     else release (PipeLock p))))"

text \<open>The loop of \<open>pipewrite\<close> from index \<open>i\<close> with \<open>k\<close> bytes to go; \<open>False\<close> is the early
  return of \<open>-1\<close>.  When the pipe is full the writer wakes readers and sleeps; woken, it
  comes back to the same loop with the same \<open>i\<close>.\<close>

primrec pipewrite_loop :: "nat \<Rightarrow> (nat \<Rightarrow> byte) \<Rightarrow> nat \<Rightarrow> nat \<Rightarrow> ('z file_state_scheme, bool) kmon" where
  "pipewrite_loop p addr i 0 = ret True"
| "pipewrite_loop p addr i (Suc k) =
     kbind (kget (\<lambda>s. pipe_full (pipes s p))) (\<lambda>full.
     if full then
       kbind (kget (\<lambda>s. \<not> readopen (pipes s p) \<or> cur_killed s)) (\<lambda>dead.
       if dead then kbind (release (PipeLock p)) (\<lambda>_. ret False)
       else kbind (wakeup (ChanPipeR p)) (\<lambda>_. sleep (ChanPipeW p) (PipeLock p)))
     else kbind (kmod (upd_pipe p (pipe_put (addr i)))) (\<lambda>_. pipewrite_loop p addr (Suc i) k))"

definition pipewrite :: "nat \<Rightarrow> (nat \<Rightarrow> byte) \<Rightarrow> int \<Rightarrow> ('z file_state_scheme, int) kmon" where
  "pipewrite p addr n =
     kbind (acquire (PipeLock p)) (\<lambda>_.
     kbind (pipewrite_loop p addr 0 (nat n)) (\<lambda>done.
     if done then
       kbind (wakeup (ChanPipeR p)) (\<lambda>_.
       kbind (release (PipeLock p)) (\<lambda>_. ret n))
     else ret (- 1)))"

text \<open>The copy loop of \<open>piperead\<close>; the bytes are those stored at \<open>addr\<close>.\<close>

primrec piperead_loop :: "nat \<Rightarrow> nat \<Rightarrow> ('z file_state_scheme, byte list) kmon" where
  "piperead_loop p 0 = ret []"
| "piperead_loop p (Suc k) =
     kbind (kget (\<lambda>s. pipe_empty (pipes s p))) (\<lambda>em.
     if em then ret []
     else kbind (kget (\<lambda>s. fst (pipe_get (pipes s p)))) (\<lambda>b.
          kbind (kmod (upd_pipe p (\<lambda>x. snd (pipe_get x)))) (\<lambda>_.
          kbind (piperead_loop p k) (\<lambda>bs. ret (b # bs)))))"

definition piperead :: "nat \<Rightarrow> int \<Rightarrow> ('z file_state_scheme, int \<times> byte list) kmon" where
  "piperead p n =
     kbind (acquire (PipeLock p)) (\<lambda>_.
     kbind (kget (\<lambda>s. pipe_empty (pipes s p) \<and> writeopen (pipes s p))) (\<lambda>wait.
     if wait then
       kbind (kget cur_killed) (\<lambda>k.
       if k then kbind (release (PipeLock p)) (\<lambda>_. ret (- 1, []))
       else sleep (ChanPipeR p) (PipeLock p))
     else
       kbind (piperead_loop p (nat n)) (\<lambda>bs.
       kbind (wakeup (ChanPipeW p)) (\<lambda>_.
       kbind (release (PipeLock p)) (\<lambda>_. ret (int (length bs), bs))))))"

section \<open>A bounded queue\<close>

text \<open>What the loops rely on: single-byte operations on some ring implement a queue of at
  most \<open>cap\<close> bytes.\<close>

locale byte_ring =
  fixes wf :: "'r \<Rightarrow> bool" and q :: "'r \<Rightarrow> byte list" and put :: "byte \<Rightarrow> 'r \<Rightarrow> 'r"
    and get :: "'r \<Rightarrow> byte \<times> 'r" and full empty :: "'r \<Rightarrow> bool" and cap :: nat
  assumes q_cap: "wf r \<Longrightarrow> length (q r) \<le> cap"
    and full_law: "wf r \<Longrightarrow> full r \<longleftrightarrow> length (q r) = cap"
    and empty_law: "wf r \<Longrightarrow> empty r \<longleftrightarrow> q r = []"
    and put_law: "wf r \<Longrightarrow> length (q r) < cap \<Longrightarrow> wf (put b r) \<and> q (put b r) = q r @ [b]"
    and get_law: "wf r \<Longrightarrow> q r = b # bs \<Longrightarrow> fst (get r) = b \<and> wf (snd (get r)) \<and> q (snd (get r)) = bs"
begin

primrec put_all :: "byte list \<Rightarrow> 'r \<Rightarrow> 'r" where
  "put_all [] r = r"
| "put_all (b # bs) r = (if full r then r else put_all bs (put b r))"

primrec get_all :: "nat \<Rightarrow> 'r \<Rightarrow> byte list \<times> 'r" where
  "get_all 0 r = ([], r)"
| "get_all (Suc k) r = (if empty r then ([], r)
     else case get_all k (snd (get r)) of (bs, r') \<Rightarrow> (fst (get r) # bs, r'))"

lemma put_all_q: "wf r \<Longrightarrow> wf (put_all bs r) \<and> q (put_all bs r) = q r @ take (cap - length (q r)) bs"
proof (induction bs arbitrary: r)
  case Nil
  then show ?case by simp
next
  case (Cons b bs)
  show ?case
  proof (cases "full r")
    case True
    then show ?thesis using Cons.prems full_law by simp
  next
    case False
    then have l: "length (q r) < cap" using Cons.prems full_law q_cap by (meson le_neq_implies_less)
    obtain d where d: "cap - length (q r) = Suc d" using l by (metis Suc_diff_Suc)
    then have "cap - length (q (put b r)) = d" using put_law [OF Cons.prems l] by auto
    then show ?thesis using Cons.IH [of "put b r"] put_law [OF Cons.prems l] False d by simp
  qed
qed

lemma get_all_q: "wf r \<Longrightarrow> fst (get_all k r) = take k (q r) \<and> wf (snd (get_all k r)) \<and> q (snd (get_all k r)) = drop k (q r)"
proof (induction k arbitrary: r)
  case 0
  then show ?case by simp
next
  case (Suc k)
  show ?case
  proof (cases "q r")
    case Nil
    then show ?thesis using Suc.prems empty_law by simp
  next
    case (Cons b bs)
    then show ?thesis using Suc.IH [of "snd (get r)"] Suc.prems get_law [OF Suc.prems Cons] empty_law [OF Suc.prems]
      by (auto simp: split_beta)
  qed
qed

text \<open>What is written comes out again, in order.\<close>

lemma fifo:
  assumes "wf r" "q r = []" "length bs \<le> cap"
  shows "fst (get_all (length bs) (put_all bs r)) = bs"
  using put_all_q [OF assms(1), of bs] get_all_q [of "put_all bs r" "length bs"] assms by simp

end

section \<open>The ring buffer of a pipe\<close>

text \<open>The number of bytes in the pipe, and the bytes, oldest first.\<close>

definition pipe_len :: "pipe \<Rightarrow> nat" where
  "pipe_len p = (nwrite p + 2 ^ 32 - nread p) mod 2 ^ 32"

definition pipe_q :: "pipe \<Rightarrow> byte list" where
  "pipe_q p = map (\<lambda>i. pi_data p ! ((nread p + i) mod PIPESIZE)) [0..<pipe_len p]"

definition pipe_ok :: "pipe \<Rightarrow> bool" where
  "pipe_ok p \<longleftrightarrow> length (pi_data p) = PIPESIZE \<and> nread p < 2 ^ 32 \<and> nwrite p < 2 ^ 32 \<and> pipe_len p \<le> PIPESIZE"

lemma mod_double: "a < 2 * n \<Longrightarrow> a mod n = (if a < n then a else a - n)" for a n :: nat
  by (simp add: le_mod_geq)

lemma pipe_len_iff:
  assumes "nread p < 2 ^ 32" "nwrite p < 2 ^ 32" "l < 2 ^ 32"
  shows "pipe_len p = l \<longleftrightarrow> nwrite p = (nread p + l) mod 2 ^ 32"
proof -
  let ?N = "2 ^ 32 :: nat"
  have 1: "nwrite p + ?N - nread p < 2 * ?N" "nread p + l < 2 * ?N" using assms by linarith+
  show ?thesis unfolding pipe_len_def mod_double [OF 1(1)] mod_double [OF 1(2)] using assms by auto
qed

lemma pipe_index: "n < 2 ^ 32 \<Longrightarrow> (n + i) mod 2 ^ 32 mod PIPESIZE = (n + i) mod PIPESIZE"
proof -
  have "PIPESIZE dvd 2 ^ 32" by (simp add: PIPESIZE_def)
  then show ?thesis by (simp add: mod_mod_cancel)
qed

lemma pipe_put_q:
  assumes p: "pipe_ok p" and l: "pipe_len p < PIPESIZE"
  shows "pipe_ok (pipe_put b p)" "pipe_q (pipe_put b p) = pipe_q p @ [b]"
proof -
  have w: "nread p < 2 ^ 32" "nwrite p < 2 ^ 32" "length (pi_data p) = PIPESIZE" using p by (auto simp: pipe_ok_def)
  have sz: "pipe_len p < 2 ^ 32" "Suc (pipe_len p) < 2 ^ 32" using l by (auto simp: PIPESIZE_def)
  have nw: "nwrite p = (nread p + pipe_len p) mod 2 ^ 32" using pipe_len_iff [OF w(1,2) sz(1)] by simp
  have "nwrite (pipe_put b p) = (nread (pipe_put b p) + Suc (pipe_len p)) mod 2 ^ 32"
    by (simp add: pipe_put_def nw mod_simps)
  then have len: "pipe_len (pipe_put b p) = Suc (pipe_len p)"
    using pipe_len_iff [of "pipe_put b p" "Suc (pipe_len p)"] w sz(2) by (simp add: pipe_put_def)
  then show "pipe_ok (pipe_put b p)" using w l by (simp add: pipe_ok_def pipe_put_def)
  have ix: "nwrite p mod PIPESIZE = (nread p + pipe_len p) mod PIPESIZE"
    unfolding nw by (rule pipe_index [OF w(1)])
  have P: "0 < PIPESIZE" by (simp add: PIPESIZE_def)
  have ne: "(nread p + i) mod PIPESIZE \<noteq> (nread p + pipe_len p) mod PIPESIZE" if "i < pipe_len p" for i
  proof
    assume "(nread p + i) mod PIPESIZE = (nread p + pipe_len p) mod PIPESIZE"
    then have "PIPESIZE dvd (nread p + pipe_len p) - (nread p + i)"
      using that by (intro mod_eq_dvd_iff_nat [THEN iffD1]) auto
    then have "PIPESIZE dvd pipe_len p - i" by simp
    then show False using that l by (auto dest: dvd_imp_le)
  qed
  show "pipe_q (pipe_put b p) = pipe_q p @ [b]"
    unfolding pipe_q_def len using w P by (auto simp: pipe_put_def ix nth_list_update) (metis ne)
qed

lemma pipe_get_q:
  assumes p: "pipe_ok p" and q: "pipe_q p = b # bs"
  shows "fst (pipe_get p) = b" "pipe_ok (snd (pipe_get p))" "pipe_q (snd (pipe_get p)) = bs"
proof -
  have w: "nread p < 2 ^ 32" "nwrite p < 2 ^ 32" "pipe_len p \<le> PIPESIZE" using p by (auto simp: pipe_ok_def)
  obtain l where l: "pipe_len p = Suc l" using q by (cases "pipe_len p") (auto simp: pipe_q_def)
  then have sz: "pipe_len p < 2 ^ 32" "l < 2 ^ 32" using w(3) by (auto simp: PIPESIZE_def)
  have nw: "nwrite p = (nread p + Suc l) mod 2 ^ 32" using pipe_len_iff [OF w(1,2) sz(1)] l by simp
  have "nwrite (snd (pipe_get p)) = (nread (snd (pipe_get p)) + l) mod 2 ^ 32"
    by (simp add: pipe_get_def nw mod_simps)
  then have len: "pipe_len (snd (pipe_get p)) = l"
    using pipe_len_iff [of "snd (pipe_get p)" l] w sz(2) by (simp add: pipe_get_def)
  then show "pipe_ok (snd (pipe_get p))" using p l w by (simp add: pipe_ok_def pipe_get_def)
  have e: "pipe_q p = (pi_data p ! (nread p mod PIPESIZE)) # map (\<lambda>i. pi_data p ! ((nread p + Suc i) mod PIPESIZE)) [0..<l]"
    unfolding pipe_q_def l by (simp add: upt_conv_Cons map_Suc_upt [symmetric] del: upt_Suc)
  then show "fst (pipe_get p) = b" using q by (simp add: pipe_get_def)
  have "((nread p + 1) mod 2 ^ 32 + i) mod PIPESIZE = (nread p + Suc i) mod PIPESIZE" for i
    using pipe_index [OF w(1), of 1] by (metis add.assoc mod_add_left_eq plus_1_eq_Suc)
  then show "pipe_q (snd (pipe_get p)) = bs"
    using q e unfolding pipe_q_def len by (simp add: pipe_get_def)
qed

interpretation pr: byte_ring pipe_ok pipe_q pipe_put pipe_get pipe_full pipe_empty PIPESIZE
proof
  fix r b bs
  assume r: "pipe_ok r"
  then have w: "nread r < 2 ^ 32" "nwrite r < 2 ^ 32" "pipe_len r \<le> PIPESIZE" by (auto simp: pipe_ok_def)
  show "length (pipe_q r) \<le> PIPESIZE" using w by (simp add: pipe_q_def)
  have "PIPESIZE < 2 ^ 32" by (simp add: PIPESIZE_def)
  then show "pipe_full r = (length (pipe_q r) = PIPESIZE)"
    using pipe_len_iff [OF w(1,2)] by (simp add: pipe_q_def pipe_full_def)
  show "pipe_empty r = (pipe_q r = [])"
    using pipe_len_iff [OF w(1,2), of 0] w by (auto simp: pipe_q_def pipe_empty_def)
  show "length (pipe_q r) < PIPESIZE \<Longrightarrow> pipe_ok (pipe_put b r) \<and> pipe_q (pipe_put b r) = pipe_q r @ [b]"
    using pipe_put_q [OF r] by (simp add: pipe_q_def)
  show "pipe_q r = b # bs \<Longrightarrow> fst (pipe_get r) = b \<and> pipe_ok (snd (pipe_get r)) \<and> pipe_q (snd (pipe_get r)) = bs"
    using pipe_get_q [OF r] by blast
qed

section \<open>Reading and writing\<close>

lemma upd_pipe_fields [simp]:
  "held (upd_pipe p f s) = held s" "procs (upd_pipe p f s) = procs s" "cur (upd_pipe p f s) = cur s"
  "pipes (upd_pipe p f s) p = f (pipes s p)" "p' \<noteq> p \<Longrightarrow> pipes (upd_pipe p f s) p' = pipes s p'"
  by (simp_all add: upd_pipe_def)

lemma upd_pipe_id [simp]: "upd_pipe p (\<lambda>x. x) s = s"
  by (simp add: upd_pipe_def)

lemma upd_pipe_upd [simp]: "upd_pipe p f (upd_pipe p g s) = upd_pipe p (\<lambda>x. f (g x)) s"
  by (simp add: upd_pipe_def)

lemma pipewrite_loop_Ok:
  "pipe_ok (pipes s p) \<Longrightarrow> pipewrite_loop p addr i k s = Ok True t \<Longrightarrow>
   t = upd_pipe p (pr.put_all (map addr [i..<i + k])) s \<and> length (pipe_q (pipes s p)) + k \<le> PIPESIZE"
proof (induction k arbitrary: i s)
  case 0
  then show ?case using pr.q_cap by simp
next
  case (Suc k)
  let ?r = "pipes s p"
  have nf: "\<not> pipe_full ?r"
  proof
    assume "pipe_full ?r"
    then show False using Suc.prems(2) by (auto simp: kbind_eq_Ok split: if_splits)
  qed
  then have l: "length (pipe_q ?r) < PIPESIZE"
    using pr.full_law [OF Suc.prems(1)] pr.q_cap [OF Suc.prems(1)] by simp
  note P = pr.put_law [OF Suc.prems(1) l]
  have "pipewrite_loop p addr (Suc i) k (upd_pipe p (pipe_put (addr i)) s) = Ok True t"
    using Suc.prems(2) nf by simp
  from Suc.IH [OF _ this] P have t: "t = upd_pipe p (\<lambda>x. pr.put_all (map addr [Suc i..<Suc i + k]) (pipe_put (addr i) x)) s"
    and len: "length (pipe_q ?r) + Suc k \<le> PIPESIZE" by auto
  have e: "map addr [i..<i + Suc k] = addr i # map addr [Suc i..<Suc i + k]"
    by (simp add: upt_conv_Cons del: upt_Suc)
  have u: "upd_pipe p f s = upd_pipe p g s" if "f ?r = g ?r" for f g using that by (simp add: upd_pipe_def)
  have "upd_pipe p (pr.put_all (map addr [i..<i + Suc k])) s =
      upd_pipe p (\<lambda>x. pr.put_all (map addr [Suc i..<Suc i + k]) (pipe_put (addr i) x)) s"
    unfolding e by (rule u) (simp only: pr.put_all.simps nf if_False)
  with t len show ?case by simp
qed

text \<open>A \<open>pipewrite\<close> that returns \<open>n\<close> has appended all \<open>n\<close> bytes.\<close>

lemma pipewrite_Ok:
  assumes p: "pipe_ok (pipes s p)" and run: "pipewrite p addr n s = Ok r t" and n: "0 \<le> n" "r \<noteq> - 1"
  shows "r = n" "pipe_ok (pipes t p)" "pipe_q (pipes t p) = pipe_q (pipes s p) @ map addr [0..<nat n]"
    "procs t = map (wake (ChanPipeR p)) (procs s)"
proof -
  from run have lk: "PipeLock p \<notin> set (held s)" by (auto simp: pipewrite_def kbind_eq_Ok acquire_def split: if_splits)
  let ?s = "s\<lparr>held := PipeLock p # held s\<rparr>"
  from run lk obtain d u where u: "pipewrite_loop p addr 0 (nat n) ?s = Ok d u"
    and k: "(if d then kbind (wakeup (ChanPipeR p)) (\<lambda>_. kbind (release (PipeLock p)) (\<lambda>_. ret n)) else ret (- 1)) u = Ok r t"
    by (auto simp: pipewrite_def kbind_eq_Ok)
  from k n(2) have d: "d" by (cases d) auto
  then have ul: "pipewrite_loop p addr 0 (nat n) ?s = Ok True u" using u by simp
  note L = pipewrite_loop_Ok [OF _ ul]
  have U: "u = upd_pipe p (pr.put_all (map addr [0..<nat n])) ?s" "length (pipe_q (pipes s p)) + nat n \<le> PIPESIZE"
    using L p by simp_all
  from k d obtain v where v: "wakeup (ChanPipeR p) u = Ok () v" "kbind (release (PipeLock p)) (\<lambda>_. ret n) v = Ok r t"
    by (auto simp: kbind_eq_Ok)
  from wakeup_OkD [OF v(1)] have v': "v = u\<lparr>procs := map (wake (ChanPipeR p)) (procs u)\<rparr>" by simp
  have "held v = PipeLock p # held s" by (simp add: v' U)
  then have t: "t = v\<lparr>held := held s\<rparr>" "r = n" using v(2) by (auto simp: kbind_eq_Ok release_def split: if_splits)
  show "r = n" by (rule t(2))
  have "pipes t p = pr.put_all (map addr [0..<nat n]) (pipes s p)" by (simp add: t(1) v' U)
  then show "pipe_ok (pipes t p)" "pipe_q (pipes t p) = pipe_q (pipes s p) @ map addr [0..<nat n]"
    using pr.put_all_q [OF p, of "map addr [0..<nat n]"] U(2) by simp_all
  show "procs t = map (wake (ChanPipeR p)) (procs s)" by (simp add: t(1) v' U)
qed

lemma piperead_loop_Ok:
  "piperead_loop p k s = Ok bs t \<longleftrightarrow>
   bs = fst (pr.get_all k (pipes s p)) \<and> t = upd_pipe p (\<lambda>x. snd (pr.get_all k x)) s"
proof (induction k arbitrary: s bs)
  case 0
  then show ?case by auto
next
  case (Suc k)
  let ?r = "pipes s p"
  have u: "upd_pipe p f s = upd_pipe p g s" if "f ?r = g ?r" for f g using that by (simp add: upd_pipe_def)
  show ?case
  proof (cases "pipe_empty ?r")
    case True
    then have "upd_pipe p (\<lambda>x. snd (pr.get_all (Suc k) x)) s = s" using u [of _ "\<lambda>x. x"] by simp
    with True show ?thesis by auto
  next
    case False
    have e: "upd_pipe p (\<lambda>x. snd (pr.get_all (Suc k) x)) s = upd_pipe p (\<lambda>x. snd (pr.get_all k (snd (pipe_get x)))) s"
      by (rule u) (simp add: False split_beta)
    from False show ?thesis unfolding e by (auto simp: kbind_eq_Ok Suc.IH split_beta)
  qed
qed

text \<open>A \<open>piperead\<close> that returns takes as many of the oldest bytes as it can.\<close>

lemma piperead_Ok:
  assumes p: "pipe_ok (pipes s p)" and run: "piperead p n s = Ok (r, bs) t" and r: "r \<noteq> - 1"
  shows "r = int (length bs)" "bs = take (nat n) (pipe_q (pipes s p))" "pipe_ok (pipes t p)"
    "pipe_q (pipes t p) = drop (nat n) (pipe_q (pipes s p))" "procs t = map (wake (ChanPipeW p)) (procs s)"
    "pipe_q (pipes s p) = [] \<longrightarrow> \<not> writeopen (pipes s p)"
proof -
  from run have lk: "PipeLock p \<notin> set (held s)" by (auto simp: piperead_def kbind_eq_Ok acquire_def split: if_splits)
  let ?s = "s\<lparr>held := PipeLock p # held s\<rparr>"
  have nw: "\<not> (pipe_empty (pipes s p) \<and> writeopen (pipes s p))"
  proof
    assume "pipe_empty (pipes s p) \<and> writeopen (pipes s p)"
    then show False using run lk r by (auto simp: piperead_def kbind_eq_Ok split: if_splits)
  qed
  then show "pipe_q (pipes s p) = [] \<longrightarrow> \<not> writeopen (pipes s p)" using pr.empty_law [OF p] by blast
  from run lk nw obtain cs u where u: "piperead_loop p (nat n) ?s = Ok cs u"
    and k: "kbind (wakeup (ChanPipeW p)) (\<lambda>_. kbind (release (PipeLock p)) (\<lambda>_. ret (int (length cs), cs))) u = Ok (r, bs) t"
    by (auto simp: piperead_def kbind_eq_Ok)
  have U: "cs = fst (pr.get_all (nat n) (pipes s p))" "u = upd_pipe p (\<lambda>x. snd (pr.get_all (nat n) x)) ?s"
    using u [unfolded piperead_loop_Ok] by simp_all
  from k obtain v where v: "wakeup (ChanPipeW p) u = Ok () v"
    "kbind (release (PipeLock p)) (\<lambda>_. ret (int (length cs), cs)) v = Ok (r, bs) t" by (auto simp: kbind_eq_Ok)
  from wakeup_OkD [OF v(1)] have v': "v = u\<lparr>procs := map (wake (ChanPipeW p)) (procs u)\<rparr>" by simp
  have "held v = PipeLock p # held s" by (simp add: v' U)
  then have t: "t = v\<lparr>held := held s\<rparr>" "r = int (length cs)" "bs = cs"
    using v(2) by (auto simp: kbind_eq_Ok release_def split: if_splits)
  have "pipes t p = snd (pr.get_all (nat n) (pipes s p))" by (simp add: t(1) v' U)
  then show "r = int (length bs)" "bs = take (nat n) (pipe_q (pipes s p))" "pipe_ok (pipes t p)"
    "pipe_q (pipes t p) = drop (nat n) (pipe_q (pipes s p))"
    using t(2,3) U(1) pr.get_all_q [OF p, of "nat n"] by simp_all
  show "procs t = map (wake (ChanPipeW p)) (procs s)" by (simp add: t(1) v' U)
qed

section \<open>Properties\<close>

lemma pipewrite_loop_total:
  "pipe_ok (pipes s p) \<Longrightarrow> length (pipe_q (pipes s p)) + k \<le> PIPESIZE \<Longrightarrow> \<exists>t. pipewrite_loop p addr i k s = Ok True t"
proof (induction k arbitrary: i s)
  case 0
  then show ?case by (simp add: ret_def)
next
  case (Suc k)
  let ?r = "pipes s p"
  have l: "length (pipe_q ?r) < PIPESIZE" "\<not> pipe_full ?r" using Suc.prems pr.full_law [OF Suc.prems(1)] by simp_all
  note P = pr.put_law [OF Suc.prems(1) l(1)]
  have "\<exists>t. pipewrite_loop p addr (Suc i) k (upd_pipe p (pipe_put (addr i)) s) = Ok True t"
    by (rule Suc.IH) (use P [of "addr i"] Suc.prems(2) in auto)
  then show ?case using l(2) by simp
qed

lemma pipe_put_open: "writeopen (pipe_put b x) = writeopen x"
  by (simp add: pipe_put_def)

lemma put_all_open [simp]: "writeopen (pr.put_all bs x) = writeopen x"
proof (induction bs arbitrary: x)
  case (Cons b bs)
  then show ?case using pipe_put_open [of b x] by simp
qed simp

lemma pipewrite_total:
  assumes "pipe_ok (pipes s p)" "PipeLock p \<notin> set (held s)" "PtableLock \<notin> set (held s)" "0 \<le> n"
    "length (pipe_q (pipes s p)) + nat n \<le> PIPESIZE"
  shows "\<exists>t. pipewrite p addr n s = Ok n t \<and> held t = held s \<and> writeopen (pipes t p) = writeopen (pipes s p)"
proof -
  let ?s = "s\<lparr>held := PipeLock p # held s\<rparr>"
  obtain u where u: "pipewrite_loop p addr 0 (nat n) ?s = Ok True u"
    using pipewrite_loop_total [of ?s p "nat n"] assms by auto
  then have U: "u = upd_pipe p (pr.put_all (map addr [0..<nat n])) ?s"
    using pipewrite_loop_Ok [OF _ u] assms(1) by simp
  have h: "held u = PipeLock p # held s" by (simp add: U)
  have "pipewrite p addr n s = Ok n (u\<lparr>procs := map (wake (ChanPipeR p)) (procs u), held := held s\<rparr>)"
    using u h assms(2,3) by (simp add: pipewrite_def kbind_Ok ret_def)
  then show ?thesis by (intro exI) (auto simp: U)
qed

lemma piperead_total:
  assumes "pipe_ok (pipes s p)" "PipeLock p \<notin> set (held s)" "PtableLock \<notin> set (held s)"
    "pipe_q (pipes s p) \<noteq> [] \<or> \<not> writeopen (pipes s p)"
  shows "\<exists>bs t. piperead p n s = Ok (int (length bs), bs) t"
proof -
  let ?s = "s\<lparr>held := PipeLock p # held s\<rparr>"
  have w: "\<not> (pipe_empty (pipes s p) \<and> writeopen (pipes s p))" using assms(1,4) pr.empty_law by blast
  let ?bs = "fst (pr.get_all (nat n) (pipes s p))" and ?u = "upd_pipe p (\<lambda>x. snd (pr.get_all (nat n) x)) ?s"
  have u: "piperead_loop p (nat n) ?s = Ok ?bs ?u" by (simp add: piperead_loop_Ok)
  show ?thesis using u w assms(2,3) by (auto simp: piperead_def kbind_Ok ret_def)
qed

text \<open>C11: a pipe is a queue of at most \<open>PIPESIZE\<close> bytes.  A write that fits appends its bytes and
  returns their number; a read that follows takes as many as it asked for of the oldest bytes,
  in order, and leaves the rest, also when the 32-bit counters wrap around.\<close>

theorem pipe_write_read:
  assumes "pipe_ok (pipes s p)" "PipeLock p \<notin> set (held s)" "PtableLock \<notin> set (held s)" "0 < n"
    "length (pipe_q (pipes s p)) + nat n \<le> PIPESIZE"
  shows "\<exists>t u bs. pipewrite p addr n s = Ok n t \<and> piperead p m t = Ok (int (length bs), bs) u \<and>
    bs = take (nat m) (pipe_q (pipes s p) @ map addr [0..<nat n]) \<and>
    pipe_q (pipes u p) = drop (nat m) (pipe_q (pipes s p) @ map addr [0..<nat n]) \<and> pipe_ok (pipes u p)"
proof -
  obtain t where t: "pipewrite p addr n s = Ok n t" "held t = held s" using pipewrite_total [OF assms(1-3) _ assms(5)] assms(4) by auto
  note W = pipewrite_Ok [OF assms(1) t(1)]
  have n: "0 \<le> n" "n \<noteq> - 1" using assms(4) by simp_all
  have q: "pipe_q (pipes t p) = pipe_q (pipes s p) @ map addr [0..<nat n]" "pipe_ok (pipes t p)" using W(2,3) n by blast+
  then have "pipe_q (pipes t p) \<noteq> []" using assms(4) by simp
  then obtain bs u where u: "piperead p m t = Ok (int (length bs), bs) u"
    using piperead_total [OF q(2), of m] assms(2,3) t(2) by auto
  have "int (length bs) \<noteq> - 1" by simp
  note R = piperead_Ok [OF q(2) u this]
  show ?thesis using t(1) u R(2-4) [unfolded q(1)] by blast
qed


section \<open>Instances\<close>

text \<open>A pipe whose counters are about to wrap around.\<close>

definition demo_pipe :: pipe where
  "demo_pipe = \<lparr>pi_data = replicate PIPESIZE 0, nread = 2 ^ 32 - 1, nwrite = 2 ^ 32 - 1, readopen = True, writeopen = True\<rparr>"

definition demo_files :: file_state where
  "demo_files = fs_state.extend demo_fs (file_state.fields [] (\<lambda>_. demo_pipe))"

lemma demo_files_fields:
  "held demo_files = []" "cur demo_files = Some 0" "pipes demo_files p = demo_pipe"
  "procs demo_files = [unused_proc\<lparr>p_state := RUNNING\<rparr>]"
  by (simp_all add: demo_files_def demo_fs_def fs_state.extend_def file_state.fields_def)

lemma demo_pipe_open: "writeopen demo_pipe" "p_killed (unused_proc\<lparr>p_state := RUNNING\<rparr>) = False"
  by (simp_all add: demo_pipe_def unused_proc_def)

lemma demo_pipe_ok: "pipe_ok demo_pipe" "pipe_q demo_pipe = []"
  by (simp_all add: pipe_ok_def pipe_q_def pipe_len_def demo_pipe_def)

theorem pipe_write_read_witness:
  "\<exists>t u. pipewrite 0 (\<lambda>i. word_of_nat (i + 7)) 3 demo_files = Ok 3 t \<and> piperead 0 2 t = Ok (2, [7, 8]) u \<and>
     pipe_q (pipes u 0) = [9]"
  using pipe_write_read [of demo_files 0 3 "\<lambda>i. word_of_nat (i + 7)" 2]
  by (auto simp: demo_files_fields demo_pipe_ok PIPESIZE_def upt_rec numeral_2_eq_2 numeral_3_eq_3)


end
