(* ===== verification/File.thy ===== *)
theory File
  imports Pipe
begin

text \<open>
  The table of open files: \<open>file.c\<close>, and \<open>pipealloc\<close> of \<open>pipe.c\<close>, which allocates from it.
  A \<open>struct file*\<close> is an index into \<open>ftable.file\<close>.  Reading and writing dispatch to
  pipes and inodes; a write to an inode is cut into transactions of at most
  \<open>FILEWRITE_MAX\<close> bytes.
\<close>

definition NFILE :: nat where "NFILE = 100"

definition upd_file :: "nat \<Rightarrow> (openfile \<Rightarrow> openfile) \<Rightarrow> ('z file_state_scheme) \<Rightarrow> ('z file_state_scheme)" where
  "upd_file i f s = s\<lparr>files := (files s)[i := f (files s ! i)]\<rparr>"

definition file_get :: "nat \<Rightarrow> (openfile \<Rightarrow> 'a) \<Rightarrow> ('z file_state_scheme, 'a) kmon" where
  "file_get f g = kget (\<lambda>s. g (files s ! f))"

definition filealloc :: "('z file_state_scheme, nat option) kmon" where
  "filealloc =
     kbind (acquire FtableLock) (\<lambda>_.
     kbind (kget (\<lambda>s. find (\<lambda>i. f_ref (files s ! i) = 0) [0..<NFILE])) (\<lambda>r. case r of
       Some i \<Rightarrow>
         kbind (kmod (upd_file i (\<lambda>x. x\<lparr>f_ref := 1\<rparr>))) (\<lambda>_.
         kbind (release FtableLock) (\<lambda>_. ret (Some i)))
     | None \<Rightarrow> kbind (release FtableLock) (\<lambda>_. ret None)))"

definition filedup :: "nat \<Rightarrow> ('z file_state_scheme, nat) kmon" where
  "filedup f =
     kbind (acquire FtableLock) (\<lambda>_.
     kbind (file_get f f_ref) (\<lambda>r.
     if r < 1 then kpanic ''filedup''
     else kbind (kmod (upd_file f (\<lambda>x. x\<lparr>f_ref := f_ref x + 1\<rparr>))) (\<lambda>_.
          kbind (release FtableLock) (\<lambda>_. ret f))))"

definition fileclose :: "nat \<Rightarrow> ('z file_state_scheme, unit) kmon" where
  "fileclose f =
     kbind (acquire FtableLock) (\<lambda>_.
     kbind (file_get f f_ref) (\<lambda>r.
     if r < 1 then kpanic ''fileclose''
     else
       kbind (kmod (upd_file f (\<lambda>x. x\<lparr>f_ref := f_ref x - 1\<rparr>))) (\<lambda>_.
       kbind (file_get f f_ref) (\<lambda>r'.
       if r' > 0 then release FtableLock
       else
         kbind (file_get f (\<lambda>x. x)) (\<lambda>ff.
         kbind (kmod (upd_file f (\<lambda>x. x\<lparr>f_ref := 0, f_type := FD_NONE\<rparr>))) (\<lambda>_.
         kbind (release FtableLock) (\<lambda>_.
         if f_type ff = FD_PIPE then pipeclose (f_pipe ff) (f_writable ff)
         else if f_type ff = FD_INODE then
           kbind begin_op (\<lambda>_. kbind (iput (f_ip ff)) (\<lambda>_. end_op))
         else ret ())))))))"

definition filestat :: "nat \<Rightarrow> ('z file_state_scheme, int \<times> stat option) kmon" where
  "filestat f =
     kbind (file_get f (\<lambda>x. x)) (\<lambda>x.
     if f_type x = FD_INODE then
       kbind (ilock (Some (f_ip x))) (\<lambda>_.
       kbind (stati (f_ip x)) (\<lambda>st.
       kbind (iunlock (Some (f_ip x))) (\<lambda>_. ret (0, Some st))))
     else ret (- 1, None))"

definition fileread :: "('z file_state_scheme) devsw \<Rightarrow> nat \<Rightarrow> int \<Rightarrow> ('z file_state_scheme, int \<times> byte list) kmon" where
  "fileread dsw f n =
     kbind (file_get f (\<lambda>x. x)) (\<lambda>x.
     if \<not> f_readable x then ret (- 1, [])
     else if f_type x = FD_PIPE then piperead (f_pipe x) n
     else if f_type x = FD_INODE then
       kbind (ilock (Some (f_ip x))) (\<lambda>_.
       kbind (file_get f f_off) (\<lambda>off.
       kbind (readi dsw (f_ip x) off (u32 n)) (\<lambda>r.
       kbind (kwhen (fst r > 0) (kmod (upd_file f (\<lambda>x. x\<lparr>f_off := u32 (int (f_off x) + fst r)\<rparr>)))) (\<lambda>_.
       kbind (iunlock (Some (f_ip x))) (\<lambda>_. ret r)))))
     else kpanic ''fileread'')"

definition FILEWRITE_MAX :: int where
  "FILEWRITE_MAX = ((int LOGSIZE - 1 - 1 - 2) div 2) * 512"

text \<open>The loop of \<open>filewrite\<close> from index \<open>i\<close>; the result is the index it ends with.\<close>

function filewrite_loop :: "('z file_state_scheme) devsw \<Rightarrow> nat \<Rightarrow> nat \<Rightarrow> (nat \<Rightarrow> byte) \<Rightarrow> int \<Rightarrow> int \<Rightarrow>
    ('z file_state_scheme, int) kmon" where
  "filewrite_loop dsw f ip addr n i =
     (if \<not> i < n then ret i
      else let n1 = (if n - i > FILEWRITE_MAX then FILEWRITE_MAX else n - i) in
        kbind begin_op (\<lambda>_.
        kbind (ilock (Some ip)) (\<lambda>_.
        kbind (file_get f f_off) (\<lambda>off.
        kbind (writei dsw ip (map (\<lambda>j. addr (nat i + j)) [0..<nat n1]) off) (\<lambda>r.
        kbind (kwhen (r > 0) (kmod (upd_file f (\<lambda>x. x\<lparr>f_off := u32 (int (f_off x) + r)\<rparr>)))) (\<lambda>_.
        kbind (iunlock (Some ip)) (\<lambda>_.
        kbind end_op (\<lambda>_.
        if r < 0 then ret i
        else if r \<noteq> n1 then kpanic ''short filewrite''
        else filewrite_loop dsw f ip addr n (i + n1)))))))))"
  by auto
termination
  by (relation "measure (\<lambda>(dsw, f, ip, addr, n, i). nat (n - i))") (auto simp: FILEWRITE_MAX_def LOGSIZE_def MAXOPBLOCKS_def)

declare filewrite_loop.simps [simp del]

definition filewrite :: "('z file_state_scheme) devsw \<Rightarrow> nat \<Rightarrow> (nat \<Rightarrow> byte) \<Rightarrow> int \<Rightarrow> ('z file_state_scheme, int) kmon" where
  "filewrite dsw f addr n =
     kbind (file_get f (\<lambda>x. x)) (\<lambda>x.
     if \<not> f_writable x then ret (- 1)
     else if f_type x = FD_PIPE then pipewrite (f_pipe x) addr n
     else if f_type x = FD_INODE then
       kbind (filewrite_loop dsw f (f_ip x) addr n 0) (\<lambda>i. ret (if i = n then n else - 1))
     else kpanic ''filewrite'')"

section \<open>pipealloc\<close>

definition new_pipe :: "pipe \<Rightarrow> pipe" where
  "new_pipe p = p\<lparr>readopen := True, writeopen := True, nwrite := 0, nread := 0\<rparr>"

definition pipealloc_bad :: "nat option \<Rightarrow> nat option \<Rightarrow> ('z file_state_scheme, int \<times> nat option \<times> nat option) kmon" where
  "pipealloc_bad f0 f1 =
     kbind (case f0 of None \<Rightarrow> ret () | Some f \<Rightarrow> fileclose f) (\<lambda>_.
     kbind (case f1 of None \<Rightarrow> ret () | Some f \<Rightarrow> fileclose f) (\<lambda>_.
     ret (- 1, f0, f1)))"

definition pipealloc :: "('z file_state_scheme, int \<times> nat option \<times> nat option) kmon" where
  "pipealloc =
     kbind filealloc (\<lambda>f0. case f0 of None \<Rightarrow> pipealloc_bad None None | Some a \<Rightarrow>
     kbind filealloc (\<lambda>f1. case f1 of None \<Rightarrow> pipealloc_bad f0 None | Some b \<Rightarrow>
     kbind kalloc (\<lambda>p. if p = 0 then pipealloc_bad f0 f1 else
     kbind (kmod (upd_pipe p new_pipe)) (\<lambda>_.
     kbind (kmod (upd_file a (\<lambda>x. x\<lparr>f_type := FD_PIPE, f_readable := True, f_writable := False, f_pipe := p\<rparr>))) (\<lambda>_.
     kbind (kmod (upd_file b (\<lambda>x. x\<lparr>f_type := FD_PIPE, f_readable := False, f_writable := True, f_pipe := p\<rparr>))) (\<lambda>_.
     ret (0, f0, f1)))))))"

section \<open>Facts\<close>

definition ftable_ok :: "('z file_state_scheme) \<Rightarrow> bool" where
  "ftable_ok s \<longleftrightarrow> length (files s) = NFILE \<and> (\<forall>i < NFILE. 0 \<le> f_ref (files s ! i))"

lemma filealloc_run:
  assumes "ftable_ok s" "FtableLock \<notin> set (held s)"
  shows "filealloc s = (case find (\<lambda>i. f_ref (files s ! i) = 0) [0..<NFILE] of
     Some i \<Rightarrow> Ok (Some i) (upd_file i (\<lambda>x. x\<lparr>f_ref := 1\<rparr>) s) | None \<Rightarrow> Ok None s)"
  using assms(2) by (cases "find (\<lambda>i. f_ref (files s ! i) = 0) [0..<NFILE]")
    (simp_all add: filealloc_def kmon_simps upd_file_def ret_def)

text \<open>A file structure handed out was free, and the others keep their counts; there is none
  only if all are in use.\<close>

lemma filealloc_Ok:
  assumes ok: "ftable_ok s" and lk: "FtableLock \<notin> set (held s)"
  shows "\<exists>r t. filealloc s = Ok r t \<and> ftable_ok t \<and> (case r of
      Some i \<Rightarrow> i < NFILE \<and> f_ref (files s ! i) = 0 \<and> f_ref (files t ! i) = 1 \<and>
        (\<forall>j. j \<noteq> i \<longrightarrow> files t ! j = files s ! j)
    | None \<Rightarrow> t = s \<and> (\<forall>i < NFILE. 0 < f_ref (files s ! i)))"
proof (cases "find (\<lambda>i. f_ref (files s ! i) = 0) [0..<NFILE]")
  case None
  have "0 < f_ref (files s ! i)" if "i < NFILE" for i
    using find_NoneD [OF None, of i] ok that by (force simp: ftable_ok_def)
  then show ?thesis using filealloc_run [OF ok lk] None ok by auto
next
  case (Some i)
  have i: "i < NFILE" "f_ref (files s ! i) = 0" using find_SomeD [OF Some] by auto
  let ?t = "upd_file i (\<lambda>x. x\<lparr>f_ref := 1\<rparr>) s"
  have r: "filealloc s = Ok (Some i) ?t" using filealloc_run [OF ok lk] Some by simp
  have "files ?t ! i = (files s ! i)\<lparr>f_ref := 1\<rparr>" "\<forall>j. j \<noteq> i \<longrightarrow> files ?t ! j = files s ! j" "length (files ?t) = NFILE"
    using i ok by (simp_all add: upd_file_def ftable_ok_def)
  moreover have "ftable_ok ?t" unfolding ftable_ok_def
  proof (intro conjI allI impI)
    fix j assume "j < NFILE"
    then show "0 \<le> f_ref (files ?t ! j)" using calculation ok by (cases "j = i") (auto simp: ftable_ok_def)
  qed (rule calculation(3))
  ultimately show ?thesis using r i by auto
qed

lemma filedup_run:
  assumes "FtableLock \<notin> set (held s)"
  shows "filedup f s = (if f_ref (files s ! f) < 1 then Panic ''filedup''
     else Ok f (upd_file f (\<lambda>x. x\<lparr>f_ref := f_ref x + 1\<rparr>) s))"
  using assms by (simp add: filedup_def kmon_simps file_get_def upd_file_def ret_def kpanic_def)

text \<open>Closing a reference that is not the last only lowers the count.\<close>

lemma fileclose_shared:
  assumes "FtableLock \<notin> set (held s)" "f < length (files s)" "1 < f_ref (files s ! f)"
  shows "fileclose f s = Ok () (upd_file f (\<lambda>x. x\<lparr>f_ref := f_ref x - 1\<rparr>) s)"
  using assms by (simp add: fileclose_def kmon_simps file_get_def upd_file_def)

text \<open>\<open>filedup\<close> and \<open>fileclose\<close> cancel.\<close>

lemma dup_close:
  assumes "FtableLock \<notin> set (held s)" "f < length (files s)" "1 \<le> f_ref (files s ! f)"
  shows "kbind (filedup f) fileclose s = Ok () s"
proof -
  let ?t = "upd_file f (\<lambda>x. x\<lparr>f_ref := f_ref x + 1\<rparr>) s"
  have t: "FtableLock \<notin> set (held ?t)" "f < length (files ?t)" "1 < f_ref (files ?t ! f)"
    using assms by (simp_all add: upd_file_def)
  have "upd_file f (\<lambda>x. x\<lparr>f_ref := f_ref x - 1\<rparr>) ?t = s" using assms(2) by (simp add: upd_file_def)
  moreover have "filedup f s = Ok f ?t" using filedup_run [OF assms(1)] assms(3) by simp
  ultimately show ?thesis using fileclose_shared [OF t] by (simp add: kbind_Ok)
qed

text \<open>One transaction of \<open>filewrite\<close> may need more blocks than \<open>begin_op\<close> reserves.\<close>

lemma filewrite_chunk_exceeds:
  "FILEWRITE_MAX = 6656" "FILEWRITE_MAX > int (MAXOPBLOCKS * BSIZE)"
  by (simp_all add: FILEWRITE_MAX_def LOGSIZE_def MAXOPBLOCKS_def BSIZE_def)

section \<open>Properties\<close>

text \<open>\<open>filealloc\<close> hands out a structure no one uses, now with one reference, and leaves the
  others alone; it returns null only when every structure is in use.\<close>

theorem filealloc_fresh:
  assumes "ftable_ok s" "FtableLock \<notin> set (held s)"
  shows "\<exists>r t. filealloc s = Ok r t \<and> ftable_ok t \<and> (case r of
      Some i \<Rightarrow> i < NFILE \<and> f_ref (files s ! i) = 0 \<and> f_ref (files t ! i) = 1 \<and>
        (\<forall>j. j \<noteq> i \<longrightarrow> files t ! j = files s ! j)
    | None \<Rightarrow> t = s \<and> (\<forall>i < NFILE. 0 < f_ref (files s ! i)))"
  using filealloc_Ok [OF assms] .

text \<open>A file table with one structure in use, the write end of a pipe held twice.\<close>

definition demo_file :: openfile where
  "demo_file = \<lparr>f_type = FD_PIPE, f_ref = 2, f_readable = False, f_writable = True, f_pipe = 0, f_ip = 0, f_off = 0\<rparr>"

definition demo_table :: file_state where
  "demo_table = demo_files\<lparr>files := demo_file # replicate 99 (demo_file\<lparr>f_ref := 0\<rparr>)\<rparr>"

lemma demo_table_ok: "ftable_ok demo_table" "held demo_table = []" "files demo_table ! 0 = demo_file"
  "length (files demo_table) = NFILE" "pipes demo_table 0 = demo_pipe"
  by (auto simp: ftable_ok_def demo_table_def NFILE_def demo_file_def demo_files_fields nth_Cons' )

theorem filealloc_fresh_witness: "\<exists>r t. filealloc demo_table = Ok r t \<and> ftable_ok t"
  using filealloc_fresh [of demo_table] demo_table_ok(1,2) by auto

lemma fileclose_pipe_last:
  assumes "FtableLock \<notin> set (held s)" "f < length (files s)" "f_ref (files s ! f) = 1" "f_type (files s ! f) = FD_PIPE"
  shows "fileclose f s = pipeclose (f_pipe (files s ! f)) (f_writable (files s ! f))
    (upd_file f (\<lambda>x. x\<lparr>f_ref := 0, f_type := FD_NONE\<rparr>) s)"
  using assms by (simp add: fileclose_def kmon_simps file_get_def upd_file_def)

lemma pipeclose_half:
  assumes "PipeLock p \<notin> set (held s)" "PtableLock \<notin> set (held s)"
    "if w then readopen (pipes s p) else writeopen (pipes s p)"
  shows "pipeclose p w s = Ok () ((upd_pipe p (\<lambda>x. if w then x\<lparr>writeopen := False\<rparr> else x\<lparr>readopen := False\<rparr>) s)
      \<lparr>procs := map (wake (if w then ChanPipeR p else ChanPipeW p)) (procs s)\<rparr>)"
  using assms by (cases w) (simp_all add: pipeclose_def kbind_Ok kseq_def upd_pipe_def)

text \<open>Reference counting of open files.  \<open>filedup\<close> then \<open>fileclose\<close> restores the state; the
  last \<open>fileclose\<close> of a write end whose pipe still has a reader frees the structure, closes the
  pipe for writing and wakes the readers, and does not free the pipe's page.\<close>

theorem file_references:
  assumes "FtableLock \<notin> set (held s)" "PtableLock \<notin> set (held s)" "f < length (files s)" "1 \<le> f_ref (files s ! f)"
  shows "kbind (filedup f) fileclose s = Ok () s \<and>
    (f_ref (files s ! f) = 1 \<and> f_type (files s ! f) = FD_PIPE \<and> f_writable (files s ! f) \<and>
       PipeLock (f_pipe (files s ! f)) \<notin> set (held s) \<and> readopen (pipes s (f_pipe (files s ! f))) \<longrightarrow>
     (\<exists>t. fileclose f s = Ok () t \<and> f_ref (files t ! f) = 0 \<and> f_type (files t ! f) = FD_NONE \<and>
       \<not> writeopen (pipes t (f_pipe (files s ! f))) \<and> pipe_q (pipes t (f_pipe (files s ! f))) = pipe_q (pipes s (f_pipe (files s ! f))) \<and>
       procs t = map (wake (ChanPipeR (f_pipe (files s ! f)))) (procs s) \<and> freelist t = freelist s))"
proof (intro conjI impI)
  show "kbind (filedup f) fileclose s = Ok () s" by (rule dup_close [OF assms(1,3,4)])
next
  let ?p = "f_pipe (files s ! f)"
  assume a: "f_ref (files s ! f) = 1 \<and> f_type (files s ! f) = FD_PIPE \<and> f_writable (files s ! f) \<and>
       PipeLock ?p \<notin> set (held s) \<and> readopen (pipes s ?p)"
  let ?s = "upd_file f (\<lambda>x. x\<lparr>f_ref := 0, f_type := FD_NONE\<rparr>) s"
  have h: "held ?s = held s" "procs ?s = procs s" "pipes ?s = pipes s" by (simp_all add: upd_file_def)
  have "fileclose f s = pipeclose ?p True ?s" using fileclose_pipe_last [OF assms(1,3)] a by simp
  also have "\<dots> = Ok () ((upd_pipe ?p (\<lambda>x. x\<lparr>writeopen := False\<rparr>) ?s)\<lparr>procs := map (wake (ChanPipeR ?p)) (procs s)\<rparr>)"
    using pipeclose_half [of ?p ?s True] a assms(2) h by simp
  finally show "\<exists>t. fileclose f s = Ok () t \<and> f_ref (files t ! f) = 0 \<and> f_type (files t ! f) = FD_NONE \<and>
       \<not> writeopen (pipes t ?p) \<and> pipe_q (pipes t ?p) = pipe_q (pipes s ?p) \<and>
       procs t = map (wake (ChanPipeR ?p)) (procs s) \<and> freelist t = freelist s"
    using assms(3) by (simp add: upd_pipe_def upd_file_def pipe_q_def pipe_len_def)
qed

theorem file_references_witness: "kbind (filedup 0) fileclose demo_table = Ok () demo_table"
  using file_references [of demo_table 0] demo_table_ok by (simp add: demo_file_def NFILE_def)

end
