(* ===== verification/Console.thy ===== *)
theory Console
  imports File
begin

text \<open>
  The console: \<open>console.c\<close>, \<open>uartputc\<close> of \<open>uart.c\<close>, and the two routines of other files
  that only print, \<open>procdump\<close> of \<open>proc.c\<close> and \<open>getcallerpcs\<close> of \<open>spinlock.c\<close>.  The layer
  \<open>sys_state\<close> completes the kernel state: the characters sent to the serial port, the screen
  memory and cursor of the CGA adapter, the line buffer of \<open>input\<close> with its three 32-bit
  indices, the clock \<open>ticks\<close> of \<open>trap.c\<close>, the bytes the keyboard controller and the serial port
  hold ready, the \<open>shift\<close> of \<open>kbdgetc\<close>, the number of this CPU, the end-of-interrupt writes made
  to its local APIC and its fault address register.  A variable argument of \<open>cprintf\<close> is a value of
  \<open>carg\<close>.
\<close>

record sys_state = file_state +
  uart_present :: bool
  serial :: "int list"
  cga_pos :: nat
  cga :: "nat list"
  cons_locking :: bool
  panicked :: bool
  in_buf :: "byte list"
  in_r :: uint
  in_w :: uint
  in_e :: uint
  ticks :: uint
  forkret_first :: bool
  kbd_in :: "byte list"
  kbd_shift :: uint
  uart_in :: "byte list"
  cpu_id :: nat
  eoi :: nat
  cr2 :: uint

section \<open>Characters out\<close>

definition BACKSPACE :: int where "BACKSPACE = 0x100"

text \<open>\<open>uartputc\<close>, the wait for the transmitter left out; the port takes the low byte.\<close>

definition uartputc :: "int \<Rightarrow> ('z sys_state_scheme, unit) kmon" where
  "uartputc c = kmod (\<lambda>s. if uart_present s then s\<lparr>serial := serial s @ [c mod 256]\<rparr> else s)"

text \<open>The effect of a character on the cursor and the screen; \<open>None\<close> is a store outside the
  screen memory.\<close>

definition cga_scroll :: "nat \<Rightarrow> nat list \<Rightarrow> nat \<times> nat list" where
  "cga_scroll pos crt =
     (if pos div 80 \<ge> 24 then
        let moved = overlay 0 (subrange 80 (23 * 80) crt) crt; pos = pos - 80 in
        (pos, overlay pos (replicate (24 * 80 - pos) 0) moved)
      else (pos, crt))"

definition cga_put :: "int \<Rightarrow> nat \<Rightarrow> nat list \<Rightarrow> (nat \<times> nat list) option" where
  "cga_put c pos crt =
     (let (pos, crt, ok) =
        (if c = 10 then (pos + (80 - pos mod 80), crt, True)
         else if c = BACKSPACE then (if pos > 0 then pos - 1 else pos, crt, True)
         else (pos + 1, crt[pos := nat (c mod 256) + 0x700], pos < length crt));
          (pos, crt) = cga_scroll pos crt in
      if ok \<and> pos < length crt \<and> pos \<le> 24 * 80 then Some (pos, crt[pos := 32 + 0x700]) else None)"

definition cgaputc :: "int \<Rightarrow> ('z sys_state_scheme, unit) kmon" where
  "cgaputc c = kbind (kget (\<lambda>s. cga_put c (cga_pos s) (cga s))) (\<lambda>r. case r of
     None \<Rightarrow> kundef ''crt'' | Some (pos, crt) \<Rightarrow> kmod (\<lambda>s. s\<lparr>cga_pos := pos, cga := crt\<rparr>))"

text \<open>Once a CPU has panicked the others freeze in \<open>consputc\<close>.\<close>

definition consputc :: "int \<Rightarrow> ('z sys_state_scheme, unit) kmon" where
  "consputc c = kbind (kget panicked) (\<lambda>p. if p then kundef ''frozen'' else
     kbind (if c = BACKSPACE then kseq (uartputc 8) (kseq (uartputc 32) (uartputc 8))
            else uartputc c) (\<lambda>_. cgaputc c))"

primrec consputs :: "int list \<Rightarrow> ('z sys_state_scheme, unit) kmon" where
  "consputs [] = ret ()"
| "consputs (c # cs) = kseq (consputc c) (consputs cs)"

section \<open>cprintf\<close>

definition digit :: "nat \<Rightarrow> int" where
  "digit d = (if d < 10 then 48 + int d else 87 + int d)"

text \<open>The digits from the lowest, as the loop stores them in \<open>buf\<close>.\<close>

function digits_rev :: "nat \<Rightarrow> nat \<Rightarrow> int list" where
  "digits_rev base x =
     digit (x mod base) # (if x div base \<noteq> 0 \<and> 1 < base then digits_rev base (x div base) else [])"
  by pat_completeness auto
termination
proof (relation "measure (\<lambda>(base, x). x)")
  fix base x :: nat
  assume a: "x div base \<noteq> 0 \<and> 1 < base"
  then have "0 < x" by (cases x) auto
  with a show "((base, x div base), base, x) \<in> measure (\<lambda>(base, x). x)" by simp
qed auto

declare digits_rev.simps [simp del]

definition printint :: "int \<Rightarrow> nat \<Rightarrow> bool \<Rightarrow> int list" where
  "printint xx base sign =
     (let neg = (sign \<and> xx < 0); x = (if neg then u32 (- xx) else u32 xx) in
      rev (digits_rev base x @ (if neg then [45] else [])))"

datatype carg = CInt int | CStr "int list option"

definition null_str :: "int list" where
  "null_str = [40, 110, 117, 108, 108, 41]"

text \<open>What \<open>cprintf\<close> prints for a format (up to its NUL) and its arguments; \<open>None\<close> when an
  argument is missing or of the wrong kind.\<close>

fun cformat :: "int list \<Rightarrow> carg list \<Rightarrow> int list option" where
  "cformat [] as = Some []"
| "cformat (c # cs) as =
     (if c \<noteq> 37 then map_option ((#) c) (cformat cs as)
      else case cs of
        [] \<Rightarrow> Some []
      | d # ds \<Rightarrow>
          if d = 100 then (case as of CInt i # as' \<Rightarrow> map_option ((@) (printint i 10 True)) (cformat ds as') | _ \<Rightarrow> None)
          else if d = 120 \<or> d = 112 then
            (case as of CInt i # as' \<Rightarrow> map_option ((@) (printint i 16 False)) (cformat ds as') | _ \<Rightarrow> None)
          else if d = 115 then
            (case as of CStr s # as' \<Rightarrow>
               map_option ((@) (case s of None \<Rightarrow> null_str | Some t \<Rightarrow> t)) (cformat ds as') | _ \<Rightarrow> None)
          else if d = 37 then map_option ((#) 37) (cformat ds as)
          else map_option (\<lambda>r. 37 # d # r) (cformat ds as))"

definition chars :: "string \<Rightarrow> int list" where
  "chars = map (\<lambda>c. int (of_char c))"

definition bytes :: "byte list \<Rightarrow> int list" where
  "bytes bs = map uint (takeWhile (\<lambda>b. b \<noteq> 0) bs)"

definition cprintf :: "string \<Rightarrow> carg list \<Rightarrow> ('z sys_state_scheme, unit) kmon" where
  "cprintf fmt as =
     kbind (kget cons_locking) (\<lambda>locking.
     kbind (kwhen locking (acquire ConsLock)) (\<lambda>_.
     kbind (case cformat (chars fmt) as of None \<Rightarrow> kundef ''cprintf: arguments'' | Some cs \<Rightarrow> consputs cs) (\<lambda>_.
     kwhen locking (release ConsLock))))"

section \<open>Backtraces and the process listing\<close>

text \<open>\<open>getcallerpcs\<close> from the frame pointer \<open>v - 8\<close>: the return addresses, up to ten, zeroes
  after the chain ends.\<close>

primrec callerpcs :: "memory \<Rightarrow> uint \<Rightarrow> nat \<Rightarrow> uint list" where
  "callerpcs m ebp 0 = []"
| "callerpcs m ebp (Suc n) =
     (if ebp = 0 \<or> ebp < KERNBASE \<or> ebp = 0xffffffff then replicate (Suc n) 0
      else ldw m (unat (ebp + 4)) # callerpcs m (ldw m (unat ebp)) n)"

definition getcallerpcs :: "memory \<Rightarrow> uint \<Rightarrow> uint list" where
  "getcallerpcs m v = callerpcs m (v - 8) 10"

fun state_name :: "procstate \<Rightarrow> string" where
  "state_name UNUSED = ''unused''"
| "state_name EMBRYO = ''embryo''"
| "state_name SLEEPING = ''sleep ''"
| "state_name RUNNABLE = ''runble''"
| "state_name RUNNING = ''run   ''"
| "state_name ZOMBIE = ''zombie''"

definition CONTEXT_EBP :: nat where "CONTEXT_EBP = 12"

primrec print_pcs :: "uint list \<Rightarrow> ('z sys_state_scheme, unit) kmon" where
  "print_pcs [] = ret ()"
| "print_pcs (pc # pcs) = (if pc \<noteq> 0 then kseq (cprintf '' %p'' [CInt (sint pc)]) (print_pcs pcs) else ret ())"

definition newline :: string where "newline = [CHR 10]"

definition procdump :: "('z sys_state_scheme, unit) kmon" where
  "procdump = kbind (kget (\<lambda>s. length (procs s))) (\<lambda>n. kfor [0..<n] (\<lambda>i.
     kbind (kget (\<lambda>s. procs s ! i)) (\<lambda>p.
     if p_state p = UNUSED then ret () else
     kbind (cprintf ''%d %s %s'' [CInt (p_pid p), CStr (Some (chars (state_name (p_state p)))), CStr (Some (bytes (p_name p)))]) (\<lambda>_.
     kbind (kwhen (p_state p = SLEEPING)
       (kbind (kget (\<lambda>s. getcallerpcs (mem s) (ldw (mem s) (p_context p + CONTEXT_EBP) + 8))) print_pcs)) (\<lambda>_.
     cprintf newline [])))))"

text \<open>\<open>panic\<close> of \<open>console.c\<close> up to its endless loop; to the routines of the kernel it is the outcome
  \<open>Panic\<close>.  \<open>v\<close> is the address of its argument on the stack.  Afterwards no character is put out.\<close>

definition cons_panic :: "string \<Rightarrow> uint \<Rightarrow> ('z sys_state_scheme, unit) kmon" where
  "cons_panic m v =
     kbind (kmod (\<lambda>s. s\<lparr>cons_locking := False\<rparr>)) (\<lambda>_.
     kbind (kget cpu_id) (\<lambda>c.
     kbind (cprintf ''cpu%d: panic: '' [CInt (int c)]) (\<lambda>_.
     kbind (cprintf m []) (\<lambda>_.
     kbind (cprintf newline []) (\<lambda>_.
     kbind (kget (\<lambda>s. getcallerpcs (mem s) v)) (\<lambda>pcs.
     kbind (kfor [0..<10] (\<lambda>i. cprintf '' %p'' [CInt (sint (pcs ! i))])) (\<lambda>_.
     kmod (\<lambda>s. s\<lparr>panicked := True\<rparr>))))))))"

lemma cons_panic_freezes: "cons_panic m v t = Ok () u \<Longrightarrow> consputc c u = Undef ''frozen''"
  by (auto simp: cons_panic_def consputc_def kundef_def kbind_eq_Ok)

section \<open>Characters in\<close>

definition INPUT_BUF :: nat where "INPUT_BUF = 128"

text \<open>\<open>input.buf[i % INPUT_BUF]\<close>.\<close>

definition in_char :: "('z sys_state_scheme) \<Rightarrow> uint \<Rightarrow> byte" where
  "in_char s i = in_buf s ! (unat i mod INPUT_BUF)"

lemma unat_pred: "e \<noteq> w \<Longrightarrow> unat (e - 1 - w) < unat (e - w)" for e w :: uint
proof -
  assume "e \<noteq> w"
  then have "e - w \<noteq> 0" by simp
  then have "unat (e - w - 1) < unat (e - w)" by (metis measure_unat)
  then show ?thesis by (simp add: algebra_simps)
qed

text \<open>Kill line: the loop of \<open>C('U')\<close>, the index \<open>input.e\<close> it ends with.\<close>

function kill_line :: "byte list \<Rightarrow> uint \<Rightarrow> uint \<Rightarrow> uint" where
  "kill_line buf w e =
     (if e \<noteq> w \<and> buf ! (unat (e - 1) mod INPUT_BUF) \<noteq> 10 then kill_line buf w (e - 1) else e)"
  by pat_completeness auto

termination
  by (relation "measure (\<lambda>(buf, w, e). unat (e - w))") (auto simp: unat_pred)

declare kill_line.simps [simp del]

definition consoleintr_char :: "int \<Rightarrow> ('z sys_state_scheme, unit) kmon" where
  "consoleintr_char c =
     (if c = 16 then procdump
      else if c = 21 then
        kbind (kget (\<lambda>s. kill_line (in_buf s) (in_w s) (in_e s))) (\<lambda>e'.
        kbind (kget in_e) (\<lambda>e.
        kbind (kmod (\<lambda>s. s\<lparr>in_e := e'\<rparr>)) (\<lambda>_.
        consputs (replicate (unat (e - e')) BACKSPACE))))
      else if c = 8 \<or> c = 127 then
        kbind (kget (\<lambda>s. in_e s \<noteq> in_w s)) (\<lambda>some.
        kwhen some (kseq (kmod (\<lambda>s. s\<lparr>in_e := in_e s - 1\<rparr>)) (consputc BACKSPACE)))
      else
        kbind (kget (\<lambda>s. c \<noteq> 0 \<and> unat (in_e s - in_r s) < INPUT_BUF)) (\<lambda>room.
        kwhen room (let c = (if c = 13 then 10 else c) in
          kbind (kmod (\<lambda>s. s\<lparr>in_buf := (in_buf s)[unat (in_e s) mod INPUT_BUF := word_of_int c], in_e := in_e s + 1\<rparr>)) (\<lambda>_.
          kbind (consputc c) (\<lambda>_.
          kbind (kget (\<lambda>s. c = 10 \<or> c = 4 \<or> in_e s = in_r s + word_of_nat INPUT_BUF)) (\<lambda>line.
          kwhen line (kseq (kmod (\<lambda>s. s\<lparr>in_w := in_e s\<rparr>)) (wakeup ChanInput))))))))"

primrec consoleintr_loop :: "int list \<Rightarrow> ('z sys_state_scheme, unit) kmon" where
  "consoleintr_loop [] = ret ()"
| "consoleintr_loop (c # cs) = kseq (consoleintr_char c) (consoleintr_loop cs)"

text \<open>\<open>cs\<close> is what \<open>getc\<close> returns before its first negative value.\<close>

definition consoleintr :: "int list \<Rightarrow> ('z sys_state_scheme, unit) kmon" where
  "consoleintr cs = kseq (acquire InputLock) (kseq (consoleintr_loop cs) (release InputLock))"

text \<open>The loop of \<open>consoleread\<close> with \<open>n\<close> bytes to go of \<open>target\<close>: \<open>None\<close> is the return of a killed
  process; a wait for input ends the run in \<open>Block\<close>.\<close>

primrec consoleread_loop :: "nat \<Rightarrow> nat \<Rightarrow> ('z sys_state_scheme, byte list option) kmon" where
  "consoleread_loop target 0 = ret (Some [])"
| "consoleread_loop target (Suc n) =
     kbind (kget (\<lambda>s. in_r s = in_w s)) (\<lambda>none. if none then
       kbind (kget cur_killed) (\<lambda>k. if k then ret None else sleep ChanInput InputLock)
     else
       kbind (kget (\<lambda>s. in_char s (in_r s))) (\<lambda>c.
       kbind (kmod (\<lambda>s. s\<lparr>in_r := in_r s + 1\<rparr>)) (\<lambda>_.
       if c = 4 then
         kbind (kwhen (Suc n < target) (kmod (\<lambda>s. s\<lparr>in_r := in_r s - 1\<rparr>))) (\<lambda>_. ret (Some []))
       else if c = 10 then ret (Some [c])
       else kbind (consoleread_loop target n) (\<lambda>r. ret (map_option ((#) c) r)))))"

definition consoleread :: "nat \<Rightarrow> nat \<Rightarrow> ('z sys_state_scheme, int \<times> byte list) kmon" where
  "consoleread ip n =
     kbind (iunlock (Some ip)) (\<lambda>_.
     kbind (acquire InputLock) (\<lambda>_.
     kbind (consoleread_loop (nat (s32 n)) (nat (s32 n))) (\<lambda>r.
     kbind (release InputLock) (\<lambda>_.
     kbind (ilock (Some ip)) (\<lambda>_.
     ret (case r of None \<Rightarrow> (- 1, []) | Some bs \<Rightarrow> (int (length bs), bs)))))))"

definition consolewrite :: "nat \<Rightarrow> byte list \<Rightarrow> ('z sys_state_scheme, int) kmon" where
  "consolewrite ip bs =
     kbind (iunlock (Some ip)) (\<lambda>_.
     kbind (acquire ConsLock) (\<lambda>_.
     kbind (consputs (map uint bs)) (\<lambda>_.
     kbind (release ConsLock) (\<lambda>_.
     kbind (ilock (Some ip)) (\<lambda>_.
     ret (int (length bs)))))))"

text \<open>\<open>devsw\<close> after \<open>consoleinit\<close>.\<close>

definition CONSOLE :: int where "CONSOLE = 1"

definition consoleinit :: "('z sys_state_scheme) devsw \<Rightarrow> ('z sys_state_scheme) devsw" where
  "consoleinit dsw = dsw(CONSOLE := (dsw CONSOLE)\<lparr>dev_write := Some consolewrite, dev_read := Some consoleread\<rparr>)"

end
