(* ===== verification/Gates.thy ===== *)
theory Gates
  imports Mmu
begin

text \<open>
  The hardware tables: segment and gate descriptors of \<open>mmu.h\<close>, the segment table \<open>seginit\<close> of
  \<open>vm.c\<close> builds for a CPU and the interrupt table \<open>tvinit\<close> of \<open>trap.c\<close> builds.  A descriptor is
  the record of its bit fields; \<open>gate_off\<close> and \<open>seg_base\<close> put the split fields together as the
  processor does.
\<close>

record segdesc =
  lim_15_0 :: nat
  base_15_0 :: nat
  base_23_16 :: nat
  sd_type :: nat
  sd_s :: nat
  sd_dpl :: nat
  sd_p :: nat
  lim_19_16 :: nat
  avl :: nat
  sd_rsv1 :: nat
  db :: nat
  gran :: nat
  base_31_24 :: nat

record gatedesc =
  off_15_0 :: nat
  gate_cs :: nat
  gate_args :: nat
  gate_rsv1 :: nat
  gate_type :: nat
  gate_s :: nat
  gate_dpl :: nat
  gate_p :: nat
  off_31_16 :: nat

definition DPL_USER :: nat where "DPL_USER = 3"
definition SEG_KCODE :: nat where "SEG_KCODE = 1"
definition SEG_KDATA :: nat where "SEG_KDATA = 2"
definition SEG_KCPU :: nat where "SEG_KCPU = 3"
definition SEG_UCODE :: nat where "SEG_UCODE = 4"
definition SEG_UDATA :: nat where "SEG_UDATA = 5"
definition SEG_TSS :: nat where "SEG_TSS = 6"
definition NSEGS :: nat where "NSEGS = 7"
definition STA_X :: nat where "STA_X = 8"
definition STA_W :: nat where "STA_W = 2"
definition STA_R :: nat where "STA_R = 2"
definition STS_T32A :: nat where "STS_T32A = 9"
definition STS_IG32 :: nat where "STS_IG32 = 14"
definition STS_TG32 :: nat where "STS_TG32 = 15"
definition T_SYSCALL :: nat where "T_SYSCALL = 64"

definition SEG :: "nat \<Rightarrow> nat \<Rightarrow> nat \<Rightarrow> nat \<Rightarrow> segdesc" where
  "SEG type base lim dpl =
     \<lparr>lim_15_0 = lim div 2 ^ 12 mod 2 ^ 16, base_15_0 = base mod 2 ^ 16,
      base_23_16 = base div 2 ^ 16 mod 2 ^ 8, sd_type = type, sd_s = 1, sd_dpl = dpl, sd_p = 1,
      lim_19_16 = lim div 2 ^ 28, avl = 0, sd_rsv1 = 0, db = 1, gran = 1,
      base_31_24 = base div 2 ^ 24\<rparr>"

definition SEG16 :: "nat \<Rightarrow> nat \<Rightarrow> nat \<Rightarrow> nat \<Rightarrow> segdesc" where
  "SEG16 type base lim dpl =
     \<lparr>lim_15_0 = lim mod 2 ^ 16, base_15_0 = base mod 2 ^ 16,
      base_23_16 = base div 2 ^ 16 mod 2 ^ 8, sd_type = type, sd_s = 1, sd_dpl = dpl, sd_p = 1,
      lim_19_16 = lim div 2 ^ 16, avl = 0, sd_rsv1 = 0, db = 1, gran = 0,
      base_31_24 = base div 2 ^ 24\<rparr>"

definition SETGATE :: "bool \<Rightarrow> nat \<Rightarrow> nat \<Rightarrow> nat \<Rightarrow> gatedesc" where
  "SETGATE istrap sel off d =
     \<lparr>off_15_0 = off mod 2 ^ 16, gate_cs = sel, gate_args = 0, gate_rsv1 = 0,
      gate_type = (if istrap then STS_TG32 else STS_IG32), gate_s = 0, gate_dpl = d, gate_p = 1,
      off_31_16 = off div 2 ^ 16\<rparr>"

text \<open>\<open>cpu_base\<close> is the address of the member \<open>cpu\<close> of the CPU's structure; the entries that are
  not set keep their values in \<open>gdt\<close>.\<close>

definition seginit :: "nat \<Rightarrow> segdesc list \<Rightarrow> segdesc list" where
  "seginit cpu_base gdt =
     gdt[SEG_KCODE := SEG (STA_X + STA_R) 0 0xffffffff 0,
         SEG_KDATA := SEG STA_W 0 0xffffffff 0,
         SEG_UCODE := SEG (STA_X + STA_R) 0 0xffffffff DPL_USER,
         SEG_UDATA := SEG STA_W 0 0xffffffff DPL_USER,
         SEG_KCPU := SEG STA_W cpu_base 8 0]"

definition tvinit :: "(nat \<Rightarrow> nat) \<Rightarrow> gatedesc list" where
  "tvinit vectors =
     (map (\<lambda>i. SETGATE False (SEG_KCODE * 8) (vectors i) 0) [0..<256])
       [T_SYSCALL := SETGATE True (SEG_KCODE * 8) (vectors T_SYSCALL) DPL_USER]"

section \<open>How the processor reads them\<close>

definition gate_off :: "gatedesc \<Rightarrow> nat" where
  "gate_off g = off_31_16 g * 2 ^ 16 + off_15_0 g"

definition seg_base :: "segdesc \<Rightarrow> nat" where
  "seg_base d = base_31_24 d * 2 ^ 24 + base_23_16 d * 2 ^ 16 + base_15_0 d"

lemma gate_off_SETGATE: "gate_off (SETGATE istrap sel off d) = off"
  by (simp add: gate_off_def SETGATE_def div_mult_mod_eq)

lemma seg_base_SEG: "seg_base (SEG type base lim dpl) = base"
proof -
  define q where "q = base div 65536"
  have d: "base div 16777216 = q div 256" by (simp add: q_def div_mult2_eq [symmetric])
  have e: "q div 256 * 16777216 + q mod 256 * 65536 = (q div 256 * 256 + q mod 256) * 65536"
    by (simp only: add_mult_distrib mult.assoc)
  have "seg_base (SEG type base lim dpl) = q div 256 * 16777216 + q mod 256 * 65536 + base mod 65536"
    by (simp add: seg_base_def SEG_def d q_def [symmetric])
  also have "\<dots> = q * 65536 + base mod 65536" by (simp only: e div_mult_mod_eq)
  also have "\<dots> = base" by (simp only: q_def div_mult_mod_eq)
  finally show ?thesis .
qed

text \<open>The interrupt table has 256 present gates into the kernel code segment, each with the
  handler address of its vector; user code may invoke only the system-call gate, which alone
  leaves interrupts on.\<close>

theorem tvinit_gates:
  "length (tvinit vectors) = 256 \<and>
   (\<forall>i \<in> {0..<256}. gate_off (tvinit vectors ! i) = vectors i \<and>
      gate_cs (tvinit vectors ! i) = SEG_KCODE * 8 \<and> gate_p (tvinit vectors ! i) = 1 \<and>
      (gate_dpl (tvinit vectors ! i) = DPL_USER) = (i = T_SYSCALL) \<and>
      (gate_type (tvinit vectors ! i) = STS_TG32) = (i = T_SYSCALL))"
proof (intro conjI ballI)
  fix i :: nat
  assume "i \<in> {0..<256}"
  then have i: "tvinit vectors ! i = (if i = T_SYSCALL then SETGATE True (SEG_KCODE * 8) (vectors i) DPL_USER
      else SETGATE False (SEG_KCODE * 8) (vectors i) 0)"
    by (simp add: tvinit_def T_SYSCALL_def nth_list_update)
  show "gate_off (tvinit vectors ! i) = vectors i" by (simp add: i gate_off_SETGATE)
  show "gate_cs (tvinit vectors ! i) = SEG_KCODE * 8" "gate_p (tvinit vectors ! i) = 1"
    "(gate_dpl (tvinit vectors ! i) = DPL_USER) = (i = T_SYSCALL)"
    "(gate_type (tvinit vectors ! i) = STS_TG32) = (i = T_SYSCALL)"
    by (simp_all add: i SETGATE_def DPL_USER_def STS_TG32_def STS_IG32_def)
qed (simp add: tvinit_def)

theorem tvinit_gates_witness: "gate_off (tvinit (\<lambda>i. 0x80100000 + 16 * i) ! 33) = 0x80100210"
  using tvinit_gates [of "\<lambda>i. 0x80100000 + 16 * i"] by simp

end
