(* ===== verification/Procs.thy ===== *)
theory Procs
  imports Console Gates
begin

text \<open>
  The life of a process: the routines of \<open>proc.c\<close> that use memory, files and the log, and
  \<open>switchuvm\<close> of \<open>vm.c\<close>.  A trap frame is at the address \<open>p_tf\<close> in kernel memory.  \<open>exit\<close> ends
  in the scheduler, so it never returns; the scheduler's loop is cut at its two switches:
  \<open>scheduler_pick\<close> runs from a place in the table to the next \<open>swtch\<close> or the end of the
  table, \<open>scheduler_back\<close> is what follows when a process has switched back.
\<close>

section \<open>Trap frames\<close>

definition FL_IF :: nat where "FL_IF = 0x200"

definition tf_get :: "nat \<Rightarrow> nat \<Rightarrow> ('z kmem_state_scheme, nat) kmon" where
  "tf_get tf off = kget (\<lambda>s. load32 (mem s) (tf + off))"

definition tf_set :: "nat \<Rightarrow> nat \<Rightarrow> nat \<Rightarrow> ('z kmem_state_scheme, unit) kmon" where
  "tf_set tf off v = kmod (\<lambda>s. s\<lparr>mem := store32 (mem s) (tf + off) v\<rparr>)"

text \<open>The segment selectors are 16-bit members.\<close>

definition tf_set16 :: "nat \<Rightarrow> nat \<Rightarrow> nat \<Rightarrow> ('z kmem_state_scheme, unit) kmon" where
  "tf_set16 tf off v = kmod (\<lambda>s. s\<lparr>mem := store (mem s) (tf + off) (enc_le 2 v)\<rparr>)"

text \<open>\<open>proc\<close>, the process of this CPU; the code uses it where it is not null.\<close>

definition the_proc :: "('z machine_scheme, nat) kmon" where
  "the_proc = kbind (kget cur) (\<lambda>c. case c of None \<Rightarrow> kundef ''proc'' | Some p \<Rightarrow> ret p)"

definition proc_get :: "nat \<Rightarrow> (proc \<Rightarrow> 'a) \<Rightarrow> ('z proc_state_scheme, 'a) kmon" where
  "proc_get p f = kget (\<lambda>s. f (procs s ! p))"

definition proc_set :: "nat \<Rightarrow> (proc \<Rightarrow> proc) \<Rightarrow> ('z proc_state_scheme, unit) kmon" where
  "proc_set p f = kmod (upd_proc p f)"

section \<open>Address spaces\<close>

text \<open>\<open>switchuvm\<close>: the task state takes the kernel stack of \<open>proc\<close>, the page tables are those of
  \<open>p\<close>.\<close>

definition switchuvm :: "nat \<Rightarrow> ('z proc_state_scheme, unit) kmon" where
  "switchuvm p =
     kbind the_proc (\<lambda>c.
     kbind (proc_get c p_kstack) (\<lambda>ks.
     kbind (kmod (\<lambda>s. s\<lparr>tss_esp0 := ks + KSTACKSIZE\<rparr>)) (\<lambda>_.
     kbind (proc_get p p_pgdir) (\<lambda>d.
     if d = 0 then kpanic ''switchuvm: no pgdir''
     else kmod (\<lambda>s. s\<lparr>cr3 := v2p (word_of_nat d)\<rparr>)))))"

definition growproc :: "int \<Rightarrow> ('z proc_state_scheme, int) kmon" where
  "growproc n =
     kbind the_proc (\<lambda>c.
     kbind (proc_get c p_sz) (\<lambda>sz0.
     kbind (proc_get c p_pgdir) (\<lambda>d.
     let sz = word_of_nat sz0 :: uint; new = sz + word_of_int n in
     kbind (if n > 0 then allocuvm d sz new else if n < 0 then deallocuvm d sz new else ret sz) (\<lambda>sz'.
     if n \<noteq> 0 \<and> sz' = 0 then ret (- 1)
     else kbind (proc_set c (\<lambda>p. p\<lparr>p_sz := unat sz'\<rparr>)) (\<lambda>_.
          kbind (switchuvm c) (\<lambda>_. ret 0))))))"

section \<open>Creating processes\<close>

definition user_selector :: "nat \<Rightarrow> nat" where
  "user_selector seg = seg * 8 + DPL_USER"

definition initcode_name :: "byte list" where
  "initcode_name = [105, 110, 105, 116, 99, 111, 100, 101]"

text \<open>\<open>safestrcpy\<close> of a name into the 16 bytes of \<open>p->name\<close>: what is beyond the NUL stays.\<close>

definition copy_name :: "byte list \<Rightarrow> byte list \<Rightarrow> byte list" where
  "copy_name src old =
     (let s = take 15 (takeWhile (\<lambda>c. c \<noteq> 0) src) in overlay 0 (s @ [0]) old)"

text \<open>\<open>initcode\<close> is the image the linker includes, \<open>path_root\<close> the path \<open>/\<close>.\<close>

definition userinit :: "byte list \<Rightarrow> 'z fs_state_scheme devsw \<Rightarrow> ('z fs_state_scheme, unit) kmon" where
  "userinit initcode dsw =
     kbind allocproc (\<lambda>r.
     kbind (kmod (\<lambda>s. s\<lparr>initproc := r\<rparr>)) (\<lambda>_.
     case r of None \<Rightarrow> kundef ''userinit: no process'' | Some p \<Rightarrow>
     kbind setupkvm (\<lambda>d.
     kbind (proc_set p (\<lambda>q. q\<lparr>p_pgdir := d\<rparr>)) (\<lambda>_.
     if d = 0 then kpanic ''userinit: out of memory?'' else
     kbind (inituvm d initcode) (\<lambda>_.
     kbind (proc_set p (\<lambda>q. q\<lparr>p_sz := PAGE\<rparr>)) (\<lambda>_.
     kbind (proc_get p p_tf) (\<lambda>tf.
     kbind (kmod (\<lambda>s. s\<lparr>mem := memset (mem s) tf 0 TF_SIZE\<rparr>)) (\<lambda>_.
     kbind (tf_set16 tf TF_CS (user_selector SEG_UCODE)) (\<lambda>_.
     kbind (tf_set16 tf TF_DS (user_selector SEG_UDATA)) (\<lambda>_.
     kbind (tf_set16 tf TF_ES (user_selector SEG_UDATA)) (\<lambda>_.
     kbind (tf_set16 tf TF_SS (user_selector SEG_UDATA)) (\<lambda>_.
     kbind (tf_set tf TF_EFLAGS FL_IF) (\<lambda>_.
     kbind (tf_set tf TF_ESP PAGE) (\<lambda>_.
     kbind (tf_set tf TF_EIP 0) (\<lambda>_.
     kbind (proc_set p (\<lambda>q. q\<lparr>p_name := copy_name initcode_name (p_name q)\<rparr>)) (\<lambda>_.
     kbind (namei dsw [slash]) (\<lambda>ip.
     kbind (proc_set p (\<lambda>q. q\<lparr>p_cwd := ip\<rparr>)) (\<lambda>_.
     proc_set p (\<lambda>q. q\<lparr>p_state := RUNNABLE\<rparr>)))))))))))))))))))"

text \<open>The loop of \<open>fork\<close> over the open files.\<close>

definition fork_files :: "nat \<Rightarrow> nat \<Rightarrow> ('z file_state_scheme, unit) kmon" where
  "fork_files c np = kfor [0..<NOFILE] (\<lambda>i.
     kbind (proc_get c (\<lambda>p. p_ofile p ! i)) (\<lambda>f. case f of
       None \<Rightarrow> ret ()
     | Some f \<Rightarrow> kbind (filedup f) (\<lambda>g. proc_set np (\<lambda>p. p\<lparr>p_ofile := (p_ofile p)[i := Some g]\<rparr>))))"

definition fork :: "('z file_state_scheme, int) kmon" where
  "fork =
     kbind the_proc (\<lambda>c.
     kbind allocproc (\<lambda>r. case r of None \<Rightarrow> ret (- 1) | Some np \<Rightarrow>
     kbind (proc_get c (\<lambda>p. p)) (\<lambda>pr.
     kbind (copyuvm (p_pgdir pr) (word_of_nat (p_sz pr))) (\<lambda>d.
     kbind (proc_set np (\<lambda>q. q\<lparr>p_pgdir := d\<rparr>)) (\<lambda>_.
     if d = 0 then
       kbind (proc_get np p_kstack) (\<lambda>ks.
       kbind (kfree ks) (\<lambda>_.
       kbind (proc_set np (\<lambda>q. q\<lparr>p_kstack := 0, p_state := UNUSED\<rparr>)) (\<lambda>_. ret (- 1))))
     else
       kbind (proc_set np (\<lambda>q. q\<lparr>p_sz := p_sz pr, p_parent := Some c\<rparr>)) (\<lambda>_.
       kbind (proc_get np p_tf) (\<lambda>tf.
       kbind (kmod (\<lambda>s. s\<lparr>mem := memmove (mem s) tf (p_tf pr) TF_SIZE\<rparr>)) (\<lambda>_.
       kbind (tf_set tf TF_EAX 0) (\<lambda>_.
       kbind (fork_files c np) (\<lambda>_.
       case p_cwd pr of None \<Rightarrow> kundef ''proc->cwd'' | Some ip \<Rightarrow>
       kbind (idup ip) (\<lambda>ip'.
       kbind (proc_set np (\<lambda>q. q\<lparr>p_cwd := Some ip'\<rparr>)) (\<lambda>_.
       kbind (proc_set np (\<lambda>q. q\<lparr>p_name := copy_name (p_name pr) (p_name q)\<rparr>)) (\<lambda>_.
       kbind (proc_get np p_pid) (\<lambda>pid.
       kbind (acquire PtableLock) (\<lambda>_.
       kbind (proc_set np (\<lambda>q. q\<lparr>p_state := RUNNABLE\<rparr>)) (\<lambda>_.
       kbind (release PtableLock) (\<lambda>_. ret pid)))))))))))))))))"

section \<open>Ending processes\<close>

text \<open>\<open>wakeup1\<close> of a pointer that may be null.\<close>

definition wakeup1_ptr :: "nat option \<Rightarrow> ('z proc_state_scheme, unit) kmon" where
  "wakeup1_ptr p = kmod (\<lambda>s. s\<lparr>procs := map (\<lambda>q. if p_state q = SLEEPING \<and> p_chan q = map_option ChanProc p
     then q\<lparr>p_state := RUNNABLE\<rparr> else q) (procs s)\<rparr>)"

text \<open>\<open>exit\<close> passes the children of \<open>c\<close> to \<open>init\<close>.\<close>

definition reparent :: "nat \<Rightarrow> ('z proc_state_scheme, unit) kmon" where
  "reparent c = kbind (kget (\<lambda>s. length (procs s))) (\<lambda>n. kfor [0..<n] (\<lambda>i.
     kbind (proc_get i p_parent) (\<lambda>par.
     kwhen (par = Some c)
       (kbind (kget initproc) (\<lambda>ini.
        kbind (proc_set i (\<lambda>q. q\<lparr>p_parent := ini\<rparr>)) (\<lambda>_.
        kbind (proc_get i p_state) (\<lambda>st. kwhen (st = ZOMBIE) (wakeup1_ptr ini))))))))"

definition exit_files :: "nat \<Rightarrow> ('z file_state_scheme, unit) kmon" where
  "exit_files c = kfor [0..<NOFILE] (\<lambda>fd.
     kbind (proc_get c (\<lambda>p. p_ofile p ! fd)) (\<lambda>f. case f of
       None \<Rightarrow> ret ()
     | Some f \<Rightarrow> kbind (fileclose f) (\<lambda>_. proc_set c (\<lambda>p. p\<lparr>p_ofile := (p_ofile p)[fd := None]\<rparr>))))"

text \<open>The channel in the outcome of the final \<open>sched\<close> has no meaning: a zombie does not wait.\<close>

definition exit :: "('z file_state_scheme, 'a) kmon" where
  "exit =
     kbind the_proc (\<lambda>c.
     kbind (kget initproc) (\<lambda>ini.
     if ini = Some c then kpanic ''init exiting'' else
     kbind (exit_files c) (\<lambda>_.
     kbind begin_op (\<lambda>_.
     kbind (proc_get c p_cwd) (\<lambda>d. case d of None \<Rightarrow> kundef ''proc->cwd'' | Some ip \<Rightarrow>
     kbind (iput ip) (\<lambda>_.
     kbind end_op (\<lambda>_.
     kbind (proc_set c (\<lambda>p. p\<lparr>p_cwd := None\<rparr>)) (\<lambda>_.
     kbind (acquire PtableLock) (\<lambda>_.
     kbind (proc_get c p_parent) (\<lambda>par.
     kbind (wakeup1_ptr par) (\<lambda>_.
     kbind (reparent c) (\<lambda>_.
     kbind (proc_set c (\<lambda>p. p\<lparr>p_state := ZOMBIE\<rparr>)) (\<lambda>_.
     sched (ChanProc c) c)))))))))))))"

definition wait :: "('z proc_state_scheme, int) kmon" where
  "wait =
     kbind the_proc (\<lambda>c.
     kbind (acquire PtableLock) (\<lambda>_.
     kbind (kget (\<lambda>s. slot (\<lambda>p. p_parent p = Some c \<and> p_state p = ZOMBIE) (procs s))) (\<lambda>z. case z of
       Some i \<Rightarrow>
         kbind (proc_get i (\<lambda>p. p)) (\<lambda>p.
         kbind (kfree (p_kstack p)) (\<lambda>_.
         kbind (proc_set i (\<lambda>q. q\<lparr>p_kstack := 0\<rparr>)) (\<lambda>_.
         kbind (freevm (p_pgdir p)) (\<lambda>_.
         kbind (proc_set i (\<lambda>q. q\<lparr>p_state := UNUSED, p_pid := 0, p_parent := None,
            p_name := (p_name q)[0 := 0], p_killed := False\<rparr>)) (\<lambda>_.
         kbind (release PtableLock) (\<lambda>_. ret (p_pid p)))))))
     | None \<Rightarrow>
         kbind (kget (\<lambda>s. slot (\<lambda>p. p_parent p = Some c) (procs s) = None \<or> p_killed (procs s ! c))) (\<lambda>none.
         if none then kbind (release PtableLock) (\<lambda>_. ret (- 1))
         else sleep (ChanProc c) PtableLock))))"

section \<open>The scheduler\<close>

text \<open>From index \<open>i\<close> of the table with \<open>ptable.lock\<close> held: the next runnable process is made the
  running one and its index is the result; at the end of the table the lock is released.\<close>

definition scheduler_pick :: "nat \<Rightarrow> ('z proc_state_scheme, nat option) kmon" where
  "scheduler_pick i =
     kbind (kget (\<lambda>s. find (\<lambda>j. p_state (procs s ! j) = RUNNABLE) [i..<length (procs s)])) (\<lambda>r. case r of
       None \<Rightarrow> kbind (release PtableLock) (\<lambda>_. ret None)
     | Some j \<Rightarrow>
         kbind (kmod (\<lambda>s. s\<lparr>cur := Some j\<rparr>)) (\<lambda>_.
         kbind (switchuvm j) (\<lambda>_.
         kbind (proc_set j (\<lambda>q. q\<lparr>p_state := RUNNING\<rparr>)) (\<lambda>_. ret (Some j)))))"

definition scheduler_start :: "('z proc_state_scheme, nat option) kmon" where
  "scheduler_start = kbind (acquire PtableLock) (\<lambda>_. scheduler_pick 0)"

definition scheduler_back :: "nat \<Rightarrow> ('z proc_state_scheme, nat option) kmon" where
  "scheduler_back j =
     kbind switchkvm (\<lambda>_.
     kbind (kmod (\<lambda>s. s\<lparr>cur := None\<rparr>)) (\<lambda>_. scheduler_pick (Suc j)))"

definition forkret :: "('z sys_state_scheme, unit) kmon" where
  "forkret =
     kbind (release PtableLock) (\<lambda>_.
     kbind (kget forkret_first) (\<lambda>first.
     kwhen first (kseq (kmod (\<lambda>s. s\<lparr>forkret_first := False\<rparr>)) initlog)))"

end
