(* ===== verification/Kbd.thy ===== *)
theory Kbd
  imports Console
begin

text \<open>
  The keyboard and the receiving side of the serial port: \<open>kbd.c\<close> with the key tables of \<open>kbd.h\<close>,
  \<open>uartgetc\<close> and \<open>uartintr\<close> of \<open>uart.c\<close>.  The status port says that data is there as long as
  \<open>kbd_in\<close> (\<open>uart_in\<close>) is not empty.  The tables have 256 entries; those not named are 0.
\<close>

definition SHIFT :: uint where "SHIFT = 1"
definition CTL :: uint where "CTL = 2"
definition ALT :: uint where "ALT = 4"
definition CAPSLOCK :: uint where "CAPSLOCK = 8"
definition NUMLOCK :: uint where "NUMLOCK = 16"
definition SCROLLLOCK :: uint where "SCROLLLOCK = 32"
definition E0ESC :: uint where "E0ESC = 64"

lemmas kbd_consts = SHIFT_def CTL_def ALT_def CAPSLOCK_def NUMLOCK_def SCROLLLOCK_def E0ESC_def

definition shiftcode :: "nat \<Rightarrow> uint" where
  "shiftcode d = (if d = 0x1D \<or> d = 0x9D then CTL else if d = 0x2A \<or> d = 0x36 then SHIFT
     else if d = 0x38 \<or> d = 0xB8 then ALT else 0)"

definition togglecode :: "nat \<Rightarrow> uint" where
  "togglecode d = (if d = 0x3A then CAPSLOCK else if d = 0x45 then NUMLOCK
     else if d = 0x46 then SCROLLLOCK else 0)"

text \<open>The entries of the three maps above \<open>0x80\<close>, the first two of which differ in \<open>ctlmap\<close>.\<close>

definition key_ext :: "nat \<Rightarrow> nat \<Rightarrow> nat \<Rightarrow> nat" where
  "key_ext kpenter kpdiv d =
     (case map_of [(0x9C, kpenter), (0xB5, kpdiv), (0xC8, 0xE2), (0xD0, 0xE3), (0xC9, 0xE6), (0xD1, 0xE7),
        (0xCB, 0xE4), (0xCD, 0xE5), (0x97, 0xE0), (0xCF, 0xE1), (0xD2, 0xE8), (0xD3, 0xE9)] d of
      None \<Rightarrow> 0 | Some k \<Rightarrow> k)"

definition normal_keys :: "nat list" where
  "normal_keys =
  [0, 27, 49, 50, 51, 52, 53, 54, 55, 56, 57, 48, 45, 61, 8, 9,
     113, 119, 101, 114, 116, 121, 117, 105, 111, 112, 91, 93, 10, 0, 97, 115,
     100, 102, 103, 104, 106, 107, 108, 59, 39, 96, 0, 92, 122, 120, 99, 118,
     98, 110, 109, 44, 46, 47, 0, 42, 0, 32, 0, 0, 0, 0, 0, 0,
     0, 0, 0, 0, 0, 0, 0, 55, 56, 57, 45, 52, 53, 54, 43, 49,
     50, 51, 48, 46, 0, 0, 0, 0]"

definition shift_keys :: "nat list" where
  "shift_keys =
  [0, 27, 33, 64, 35, 36, 37, 94, 38, 42, 40, 41, 95, 43, 8, 9,
     81, 87, 69, 82, 84, 89, 85, 73, 79, 80, 123, 125, 10, 0, 65, 83,
     68, 70, 71, 72, 74, 75, 76, 58, 34, 126, 0, 124, 90, 88, 67, 86,
     66, 78, 77, 60, 62, 63, 0, 42, 0, 32, 0, 0, 0, 0, 0, 0,
     0, 0, 0, 0, 0, 0, 0, 55, 56, 57, 45, 52, 53, 54, 43, 49,
     50, 51, 48, 46, 0, 0, 0, 0]"

definition ctl_keys :: "nat list" where
  "ctl_keys =
  [0, 0, 0, 0, 0, 0, 0, 0, 0, 0, 0, 0, 0, 0, 0, 0,
     17, 23, 5, 18, 20, 25, 21, 9, 15, 16, 0, 0, 13, 0, 1, 19,
     4, 6, 7, 8, 10, 11, 12, 0, 0, 0, 0, 28, 26, 24, 3, 22,
     2, 14, 13, 0, 0, 239, 0, 0]"

definition normalmap :: "nat \<Rightarrow> nat" where
  "normalmap d = (if d < length normal_keys then normal_keys ! d else key_ext 10 47 d)"

definition shiftmap :: "nat \<Rightarrow> nat" where
  "shiftmap d = (if d < length shift_keys then shift_keys ! d else key_ext 10 47 d)"

definition ctlmap :: "nat \<Rightarrow> nat" where
  "ctlmap d = (if d < length ctl_keys then ctl_keys ! d else key_ext 13 239 d)"

definition charcode :: "uint \<Rightarrow> nat \<Rightarrow> nat" where
  "charcode i = (if i = 0 then normalmap else if i = 1 then shiftmap else ctlmap)"

text \<open>\<open>kbdgetc\<close> of one scan code: the new \<open>shift\<close> and the character, 0 for none.\<close>

definition kbd_decode :: "uint \<Rightarrow> nat \<Rightarrow> uint \<times> nat" where
  "kbd_decode shift data =
     (if data = 0xE0 then (shift OR E0ESC, 0)
      else if data \<ge> 0x80 then
        let data = (if shift AND E0ESC \<noteq> 0 then data else data mod 0x80) in
        (shift AND NOT (shiftcode data OR E0ESC), 0)
      else
        let (data, shift) = (if shift AND E0ESC \<noteq> 0 then (data + 0x80, shift AND NOT E0ESC) else (data, shift));
            shift = (shift OR shiftcode data) XOR togglecode data;
            c = charcode (shift AND (CTL OR SHIFT)) data in
        (shift,
         if shift AND CAPSLOCK \<noteq> 0 then
           (if 97 \<le> c \<and> c \<le> 122 then c - 32 else if 65 \<le> c \<and> c \<le> 90 then c + 32 else c)
         else c))"

definition kbdgetc :: "('z sys_state_scheme, int) kmon" where
  "kbdgetc = kbind (kget kbd_in) (\<lambda>q. case q of
     [] \<Rightarrow> ret (- 1)
   | d # ds \<Rightarrow> kbind (kget (\<lambda>s. kbd_decode (kbd_shift s) (unat d))) (\<lambda>(sh, c).
       kbind (kmod (\<lambda>s. s\<lparr>kbd_in := ds, kbd_shift := sh\<rparr>)) (\<lambda>_. ret (int c))))"

definition uartgetc :: "('z sys_state_scheme, int) kmon" where
  "uartgetc = kbind (kget (\<lambda>s. (uart_present s, uart_in s))) (\<lambda>(present, q).
     if \<not> present then ret (- 1) else case q of
       [] \<Rightarrow> ret (- 1)
     | d # ds \<Rightarrow> kbind (kmod (\<lambda>s. s\<lparr>uart_in := ds\<rparr>)) (\<lambda>_. ret (uint d)))"

text \<open>The characters a device delivers until it has none: at most \<open>n\<close> calls of \<open>getc\<close>, where \<open>n\<close>
  is above the number of bytes it holds.  Reading them does not depend on what \<open>consoleintr\<close> does
  with them.\<close>

primrec drain :: "nat \<Rightarrow> ('s, int) kmon \<Rightarrow> ('s, int list) kmon" where
  "drain 0 getc = ret []"
| "drain (Suc n) getc = kbind getc (\<lambda>c. if c < 0 then ret [] else
     kbind (drain n getc) (\<lambda>cs. ret (c # cs)))"

definition kbdintr :: "('z sys_state_scheme, unit) kmon" where
  "kbdintr = kbind (kget (\<lambda>s. Suc (length (kbd_in s)))) (\<lambda>n. kbind (drain n kbdgetc) consoleintr)"

definition uartintr :: "('z sys_state_scheme, unit) kmon" where
  "uartintr = kbind (kget (\<lambda>s. Suc (length (uart_in s)))) (\<lambda>n. kbind (drain n uartgetc) consoleintr)"

end
