(* ===== verification/Syscall.thy ===== *)
theory Syscall
  imports Procs Kbd
begin

text \<open>
  Access of the kernel to user memory, the argument routines of \<open>syscall.c\<close> and the system calls
  of \<open>sysproc.c\<close>.  The kernel dereferences user addresses through the page table in \<open>cr3\<close>
  (\<open>user_addr\<close>): it may read every present page and write every present writable one, and a fault
  ends in the \<open>panic\<close> of \<open>trap\<close>.  An \<open>int*\<close> or \<open>char**\<close> result is part of the value of a routine:
  \<open>None\<close> is the return of \<open>-1\<close>; the string a \<open>char*\<close> points to stands for the pointer.
\<close>

section \<open>User memory\<close>

definition user_pte :: "memory \<Rightarrow> uint \<Rightarrow> uint \<Rightarrow> uint" where
  "user_pte m c va =
     (let pde = ldw m (unat (p2v (PTE_ADDR c)) + 4 * unat (PDX va)) in
      if pde AND PTE_P = 0 then 0
      else ldw m (unat (p2v (PTE_ADDR pde)) + 4 * unat (PTX va)) AND (pde OR NOT PTE_W))"

text \<open>The address in kernel memory of the byte at user address \<open>va\<close>, for an access that needs
  the permission bits \<open>perm\<close>.\<close>

definition user_addr :: "uint \<Rightarrow> uint \<Rightarrow> ('z vm_state_scheme) \<Rightarrow> nat option" where
  "user_addr perm va s =
     (let e = user_pte (mem s) (cr3 s) va in
      if e AND perm \<noteq> perm then None else Some (unat (p2v (PTE_ADDR e OR (va AND 0xFFF)))))"

definition user_get :: "uint \<Rightarrow> ('z vm_state_scheme, byte) kmon" where
  "user_get va = kbind (kget (user_addr PTE_P va)) (\<lambda>a. case a of
     None \<Rightarrow> kpanic ''trap'' | Some a \<Rightarrow> kget (\<lambda>s. mem s a))"

primrec user_load :: "nat \<Rightarrow> uint \<Rightarrow> ('z vm_state_scheme, byte list) kmon" where
  "user_load 0 va = ret []"
| "user_load (Suc n) va = kbind (user_get va) (\<lambda>b. kbind (user_load n (va + 1)) (\<lambda>bs. ret (b # bs)))"

primrec user_store :: "byte list \<Rightarrow> uint \<Rightarrow> ('z vm_state_scheme, unit) kmon" where
  "user_store [] va = ret ()"
| "user_store (b # bs) va = kbind (kget (user_addr (PTE_P OR PTE_W) va)) (\<lambda>a. case a of
     None \<Rightarrow> kpanic ''trap''
   | Some a \<Rightarrow> kbind (kmod (\<lambda>s. s\<lparr>mem := (mem s)(a := b)\<rparr>)) (\<lambda>_. user_store bs (va + 1)))"

section \<open>Arguments\<close>

definition cur_sz :: "('z proc_state_scheme, nat) kmon" where
  "cur_sz = kbind the_proc (\<lambda>c. proc_get c p_sz)"

definition fetchint :: "uint \<Rightarrow> ('z proc_state_scheme, uint option) kmon" where
  "fetchint addr = kbind cur_sz (\<lambda>sz.
     if unat addr \<ge> sz \<or> unat (addr + 4) > sz then ret None
     else kbind (user_load 4 addr) (\<lambda>bs. ret (Some (word_of_nat (dec_le bs)))))"

primrec fetchstr_loop :: "nat \<Rightarrow> uint \<Rightarrow> ('z proc_state_scheme, byte list option) kmon" where
  "fetchstr_loop 0 s = ret None"
| "fetchstr_loop (Suc k) s = kbind (user_get s) (\<lambda>c. if c = 0 then ret (Some []) else
     kbind (fetchstr_loop k (s + 1)) (\<lambda>r. ret (map_option ((#) c) r)))"

definition fetchstr :: "uint \<Rightarrow> ('z proc_state_scheme, byte list option) kmon" where
  "fetchstr addr = kbind cur_sz (\<lambda>sz.
     if unat addr \<ge> sz then ret None else fetchstr_loop (sz - unat addr) addr)"

definition argint :: "nat \<Rightarrow> ('z proc_state_scheme, uint option) kmon" where
  "argint n = kbind the_proc (\<lambda>c. kbind (proc_get c p_tf) (\<lambda>tf. kbind (tf_get tf TF_ESP) (\<lambda>esp.
     fetchint (word_of_nat esp + 4 + 4 * word_of_nat n))))"

definition argptr :: "nat \<Rightarrow> int \<Rightarrow> ('z proc_state_scheme, uint option) kmon" where
  "argptr n len = kbind (argint n) (\<lambda>r. case r of None \<Rightarrow> ret None | Some i \<Rightarrow>
     kbind cur_sz (\<lambda>sz.
     if unat i \<ge> sz \<or> unat (i + word_of_int len) > sz then ret None else ret (Some i)))"

definition argstr :: "nat \<Rightarrow> ('z proc_state_scheme, byte list option) kmon" where
  "argstr n = kbind (argint n) (\<lambda>r. case r of None \<Rightarrow> ret None | Some addr \<Rightarrow> fetchstr addr)"

text \<open>The short-circuit tests \<open>argxxx(...) < 0 || ...\<close>: the rest runs only with the argument.\<close>

definition with_arg :: "('s, 'a option) kmon \<Rightarrow> ('a \<Rightarrow> ('s, int) kmon) \<Rightarrow> ('s, int) kmon" where
  "with_arg m f = kbind m (\<lambda>r. case r of None \<Rightarrow> ret (- 1) | Some a \<Rightarrow> f a)"

section \<open>System calls on processes\<close>

definition sys_fork :: "('z file_state_scheme, int) kmon" where "sys_fork = fork"
definition sys_exit :: "('z file_state_scheme, int) kmon" where "sys_exit = exit"
definition sys_wait :: "('z proc_state_scheme, int) kmon" where "sys_wait = wait"

definition sys_kill :: "('z proc_state_scheme, int) kmon" where
  "sys_kill = with_arg (argint 0) (\<lambda>pid. kill (sint pid))"

definition sys_getpid :: "('z proc_state_scheme, int) kmon" where
  "sys_getpid = kbind the_proc (\<lambda>c. proc_get c p_pid)"

definition sys_sbrk :: "('z proc_state_scheme, int) kmon" where
  "sys_sbrk = with_arg (argint 0) (\<lambda>n.
     kbind cur_sz (\<lambda>addr.
     kbind (growproc (sint n)) (\<lambda>r. ret (if r < 0 then - 1 else s32 addr))))"

text \<open>The loop of \<open>sys_sleep\<close>; it goes on at the same test when the process has been woken.\<close>

definition sys_sleep_loop :: "uint \<Rightarrow> uint \<Rightarrow> ('z sys_state_scheme, int) kmon" where
  "sys_sleep_loop ticks0 n =
     kbind (kget ticks) (\<lambda>t.
     if t - ticks0 < n then
       kbind (kget cur_killed) (\<lambda>k.
       if k then kbind (release TicksLock) (\<lambda>_. ret (- 1))
       else sleep ChanTicks TicksLock)
     else kbind (release TicksLock) (\<lambda>_. ret 0))"

definition sys_sleep :: "('z sys_state_scheme, int) kmon" where
  "sys_sleep = with_arg (argint 0) (\<lambda>n.
     kbind (acquire TicksLock) (\<lambda>_. kbind (kget ticks) (\<lambda>ticks0. sys_sleep_loop ticks0 n)))"

definition sys_uptime :: "('z sys_state_scheme, int) kmon" where
  "sys_uptime =
     kbind (acquire TicksLock) (\<lambda>_. kbind (kget ticks) (\<lambda>t. kbind (release TicksLock) (\<lambda>_. ret (sint t))))"

end
