(* ===== verification/Exec.thy ===== *)
theory Exec
  imports Syscall
begin

text \<open>
  \<open>exec\<close> of \<open>exec.c\<close>, \<open>loaduvm\<close> of \<open>vm.c\<close> and the structures of \<open>elf.h\<close>.  Path and argument strings
  are byte lists without their NUL.  The jumps to \<open>bad\<close> are calls of \<open>exec_bad\<close>.
\<close>

section \<open>ELF\<close>

definition ELF_MAGIC :: uint where "ELF_MAGIC = 0x464C457F"
definition ELF_PROG_LOAD :: uint where "ELF_PROG_LOAD = 1"
definition ELFHDR_SIZE :: nat where "ELFHDR_SIZE = 52"
definition PROGHDR_SIZE :: nat where "PROGHDR_SIZE = 32"
definition MAXARG :: nat where "MAXARG = 32"

text \<open>The members of \<open>struct elfhdr\<close> and \<open>struct proghdr\<close> that are used.\<close>

record elfhdr =
  elf_magic :: uint
  elf_entry :: uint
  elf_phoff :: uint
  elf_phnum :: nat

record proghdr =
  ph_type :: uint
  ph_off :: uint
  ph_vaddr :: uint
  ph_filesz :: uint
  ph_memsz :: uint

definition get_uint :: "nat \<Rightarrow> byte list \<Rightarrow> uint" where
  "get_uint off bs = word_of_nat (get_le 4 off bs)"

definition dec_elfhdr :: "byte list \<Rightarrow> elfhdr" where
  "dec_elfhdr bs = \<lparr>elf_magic = get_uint 0 bs, elf_entry = get_uint 24 bs, elf_phoff = get_uint 28 bs,
     elf_phnum = get_le 2 44 bs\<rparr>"

definition dec_proghdr :: "byte list \<Rightarrow> proghdr" where
  "dec_proghdr bs = \<lparr>ph_type = get_uint 0 bs, ph_off = get_uint 4 bs, ph_vaddr = get_uint 8 bs,
     ph_filesz = get_uint 16 bs, ph_memsz = get_uint 20 bs\<rparr>"

section \<open>Loading a segment\<close>

text \<open>The loop of \<open>loaduvm\<close> from index \<open>i\<close>.  \<open>i += PGSIZE\<close> cannot wrap around for \<open>sz\<close> at most
  \<open>2^32 - 4096\<close>; a larger \<open>sz\<close> would need as many mapped pages.\<close>

function loaduvm_loop :: "('z fs_state_scheme) devsw \<Rightarrow> nat \<Rightarrow> uint \<Rightarrow> nat \<Rightarrow> uint \<Rightarrow> nat \<Rightarrow> nat \<Rightarrow> ('z fs_state_scheme, int) kmon" where
  "loaduvm_loop dsw pgdir addr ip off sz i =
     (if i < sz then
        kbind (walkpgdir pgdir (addr + word_of_nat i) False) (\<lambda>pte.
        if pte = 0 then kpanic ''loaduvm: address should exist'' else
        kbind (get_word pte) (\<lambda>e.
        let pa = PTE_ADDR e; n = (if sz - i < PAGE then sz - i else PAGE) in
        kbind (readi dsw ip (unat (off + word_of_nat i)) n) (\<lambda>(r, bs).
        kbind (kmod (\<lambda>s. s\<lparr>mem := store (mem s) (unat (p2v pa)) bs\<rparr>)) (\<lambda>_.
        if r \<noteq> int n then ret (- 1) else loaduvm_loop dsw pgdir addr ip off sz (i + PAGE)))))
      else ret 0)"
  by auto
termination
  by (relation "measure (\<lambda>(dsw, pgdir, addr, ip, off, sz, i). sz - i)") auto

declare loaduvm_loop.simps [simp del]

definition loaduvm :: "('z fs_state_scheme) devsw \<Rightarrow> nat \<Rightarrow> uint \<Rightarrow> nat \<Rightarrow> uint \<Rightarrow> uint \<Rightarrow> ('z fs_state_scheme, int) kmon" where
  "loaduvm dsw pgdir addr ip off sz =
     (if unat addr mod PAGE \<noteq> 0 then kpanic ''loaduvm: addr must be page aligned''
      else if unat sz > 2 ^ 32 - 4096 then kundef ''loaduvm: segment above the kernel base''
      else loaduvm_loop dsw pgdir addr ip off (unat sz) 0)"

section \<open>exec\<close>

definition exec_bad :: "nat \<Rightarrow> nat option \<Rightarrow> ('z fs_state_scheme, int) kmon" where
  "exec_bad pgdir ip =
     kbind (kwhen (pgdir \<noteq> 0) (freevm pgdir)) (\<lambda>_.
     kbind (case ip of None \<Rightarrow> ret () | Some ip \<Rightarrow> kbind (iunlockput ip) (\<lambda>_. end_op)) (\<lambda>_.
     ret (- 1)))"

text \<open>The loop over the program headers with \<open>k\<close> of them to go: the size of the image, \<open>None\<close>
  for a jump to \<open>bad\<close>.\<close>

primrec exec_load :: "('z fs_state_scheme) devsw \<Rightarrow> nat \<Rightarrow> nat \<Rightarrow> nat \<Rightarrow> uint \<Rightarrow> uint \<Rightarrow> ('z fs_state_scheme, uint option) kmon" where
  "exec_load dsw pgdir ip 0 off sz = ret (Some sz)"
| "exec_load dsw pgdir ip (Suc k) off sz =
     kbind (readi dsw ip (unat off) PROGHDR_SIZE) (\<lambda>(r, bs).
     if r \<noteq> int PROGHDR_SIZE then ret None else
     let ph = dec_proghdr bs; off' = off + word_of_nat PROGHDR_SIZE in
     if ph_type ph \<noteq> ELF_PROG_LOAD then exec_load dsw pgdir ip k off' sz
     else if ph_memsz ph < ph_filesz ph then ret None
     else kbind (allocuvm pgdir sz (ph_vaddr ph + ph_memsz ph)) (\<lambda>sz'.
       if sz' = 0 then ret None
       else kbind (loaduvm dsw pgdir (ph_vaddr ph) ip (ph_off ph) (ph_filesz ph)) (\<lambda>r.
         if r < 0 then ret None else exec_load dsw pgdir ip k off' sz')))"

text \<open>Pushing the argument strings from index \<open>argc\<close>: the stack pointer and the words of
  \<open>ustack\<close> from index 3.\<close>

primrec exec_args :: "nat \<Rightarrow> byte list list \<Rightarrow> nat \<Rightarrow> uint \<Rightarrow> ('z kmem_state_scheme, (uint \<times> uint list) option) kmon" where
  "exec_args pgdir [] argc sp = ret (Some (sp, []))"
| "exec_args pgdir (a # as) argc sp =
     (if argc \<ge> MAXARG then ret None
      else let sp' = (sp - word_of_nat (length a + 1)) AND NOT 3 in
        kbind (copyout pgdir sp' (a @ [0])) (\<lambda>r.
        if r < 0 then ret None
        else kbind (exec_args pgdir as (Suc argc) sp') (\<lambda>q.
             ret (map_option (\<lambda>(sp'', ps). (sp'', sp' # ps)) q))))"

definition enc_uints :: "uint list \<Rightarrow> byte list" where
  "enc_uints ws = concat (map (\<lambda>w. enc_le 4 (unat w)) ws)"

text \<open>What follows the last \<open>'/'\<close>.\<close>

definition last_elem :: "byte list \<Rightarrow> byte list" where
  "last_elem path = rev (takeWhile (\<lambda>c. c \<noteq> slash) (rev path))"

text \<open>The part of \<open>exec\<close> from the user stack on: \<open>sz\<close> is the size of the loaded image.\<close>

definition exec_stack :: "nat \<Rightarrow> uint \<Rightarrow> byte list \<Rightarrow> byte list list \<Rightarrow> uint \<Rightarrow> ('z fs_state_scheme, int) kmon" where
  "exec_stack pgdir entry path argv sz0 =
     (let sz1 = PGROUNDUP sz0 in
      kbind (allocuvm pgdir sz1 (sz1 + 2 * PGSIZE)) (\<lambda>sz.
      if sz = 0 then exec_bad pgdir None else
      kbind (clearpteu pgdir (sz - 2 * PGSIZE)) (\<lambda>_.
      kbind (exec_args pgdir argv 0 sz) (\<lambda>q. case q of None \<Rightarrow> exec_bad pgdir None | Some (sp, ps) \<Rightarrow>
      let argc = length argv; n = word_of_nat (3 + argc + 1) * 4;
          ustack = [0xffffffff, word_of_nat argc, sp - word_of_nat (argc + 1) * 4] @ ps @ [0] in
      kbind (copyout pgdir (sp - n) (enc_uints ustack)) (\<lambda>r.
      if r < 0 then exec_bad pgdir None else
      kbind the_proc (\<lambda>c.
      kbind (proc_set c (\<lambda>p. p\<lparr>p_name := copy_name (last_elem path) (p_name p)\<rparr>)) (\<lambda>_.
      kbind (proc_get c (\<lambda>p. p)) (\<lambda>pr.
      kbind (proc_set c (\<lambda>p. p\<lparr>p_pgdir := pgdir, p_sz := unat sz\<rparr>)) (\<lambda>_.
      kbind (tf_set (p_tf pr) TF_EIP (unat entry)) (\<lambda>_.
      kbind (tf_set (p_tf pr) TF_ESP (unat (sp - n))) (\<lambda>_.
      kbind (switchuvm c) (\<lambda>_.
      kbind (freevm (p_pgdir pr)) (\<lambda>_. ret 0)))))))))))))"

text \<open>A result \<open>-1\<close> of \<open>readi\<close> is not below the unsigned \<open>sizeof(elf)\<close>, so the code goes on with a
  header it has not read.\<close>

definition exec :: "('z fs_state_scheme) devsw \<Rightarrow> byte list \<Rightarrow> byte list list \<Rightarrow> ('z fs_state_scheme, int) kmon" where
  "exec dsw path argv =
     kbind begin_op (\<lambda>_.
     kbind (namei dsw path) (\<lambda>r. case r of None \<Rightarrow> kbind end_op (\<lambda>_. ret (- 1)) | Some ip \<Rightarrow>
     kbind (ilock (Some ip)) (\<lambda>_.
     kbind (readi dsw ip 0 ELFHDR_SIZE) (\<lambda>(r, bs).
     if u32 r < ELFHDR_SIZE then exec_bad 0 (Some ip)
     else if r < 0 then kundef ''exec: header not read''
     else let elf = dec_elfhdr bs in
     if elf_magic elf \<noteq> ELF_MAGIC then exec_bad 0 (Some ip) else
     kbind setupkvm (\<lambda>pgdir. if pgdir = 0 then exec_bad 0 (Some ip) else
     kbind (exec_load dsw pgdir ip (elf_phnum elf) (elf_phoff elf) 0) (\<lambda>q. case q of
       None \<Rightarrow> exec_bad pgdir (Some ip)
     | Some sz \<Rightarrow>
         kbind (iunlockput ip) (\<lambda>_.
         kbind end_op (\<lambda>_. exec_stack pgdir (elf_entry elf) path argv sz))))))))"

end
