(* ===== verification/Sysfile.thy ===== *)
theory Sysfile
  imports Exec
begin

text \<open>
  The file-system calls: \<open>sysfile.c\<close>, with the open modes of \<open>fcntl.h\<close>.  Arguments are fetched from
  the user stack as in \<open>Syscall\<close>; data is copied between user memory and the byte lists of the
  layers below.  For a write the bytes are fetched before the call, for a read they are stored
  after it.
\<close>

section \<open>File descriptors\<close>

definition O_RDONLY :: uint where "O_RDONLY = 0"
definition O_WRONLY :: uint where "O_WRONLY = 1"
definition O_RDWR :: uint where "O_RDWR = 2"
definition O_CREATE :: uint where "O_CREATE = 0x200"

definition argfd :: "nat \<Rightarrow> ('z proc_state_scheme, (nat \<times> nat) option) kmon" where
  "argfd n = kbind (argint n) (\<lambda>r. case r of None \<Rightarrow> ret None | Some w \<Rightarrow>
     kbind the_proc (\<lambda>c.
     if sint w < 0 \<or> sint w \<ge> int NOFILE then ret None
     else kbind (proc_get c (\<lambda>p. p_ofile p ! unat w)) (\<lambda>f.
          ret (map_option (\<lambda>f. (unat w, f)) f))))"

text \<open>The result of \<open>fdalloc\<close> is \<open>None\<close> for \<open>-1\<close>.\<close>

definition fdalloc :: "nat \<Rightarrow> ('z proc_state_scheme, nat option) kmon" where
  "fdalloc f = kbind the_proc (\<lambda>c.
     kbind (proc_get c (\<lambda>p. find (\<lambda>fd. p_ofile p ! fd = None) [0..<NOFILE])) (\<lambda>r. case r of
       None \<Rightarrow> ret None
     | Some fd \<Rightarrow> kbind (proc_set c (\<lambda>p. p\<lparr>p_ofile := (p_ofile p)[fd := Some f]\<rparr>)) (\<lambda>_. ret (Some fd))))"

definition clear_fd :: "nat \<Rightarrow> ('z proc_state_scheme, unit) kmon" where
  "clear_fd fd = kbind the_proc (\<lambda>c. proc_set c (\<lambda>p. p\<lparr>p_ofile := (p_ofile p)[fd := None]\<rparr>))"

definition sys_dup :: "('z file_state_scheme, int) kmon" where
  "sys_dup = with_arg (argfd 0) (\<lambda>(_, f). with_arg (fdalloc f) (\<lambda>fd. kbind (filedup f) (\<lambda>_. ret (int fd))))"

definition sys_read :: "('z file_state_scheme) devsw \<Rightarrow> ('z file_state_scheme, int) kmon" where
  "sys_read dsw = with_arg (argfd 0) (\<lambda>(_, f). with_arg (argint 2) (\<lambda>n. with_arg (argptr 1 (sint n)) (\<lambda>p.
     kbind (fileread dsw f (sint n)) (\<lambda>(r, bs). kbind (user_store bs p) (\<lambda>_. ret r)))))"

definition sys_write :: "('z file_state_scheme) devsw \<Rightarrow> ('z file_state_scheme, int) kmon" where
  "sys_write dsw = with_arg (argfd 0) (\<lambda>(_, f). with_arg (argint 2) (\<lambda>n. with_arg (argptr 1 (sint n)) (\<lambda>p.
     kbind (user_load (nat (sint n)) p) (\<lambda>bs. filewrite dsw f (\<lambda>i. bs ! i) (sint n)))))"

definition sys_close :: "('z file_state_scheme, int) kmon" where
  "sys_close = with_arg (argfd 0) (\<lambda>(fd, f).
     kbind (clear_fd fd) (\<lambda>_. kbind (fileclose f) (\<lambda>_. ret 0)))"

text \<open>The assignments to the members of \<open>*st\<close>, at their offsets in \<open>struct stat\<close>.\<close>

definition STAT_SIZE :: nat where "STAT_SIZE = 20"

definition store_stat :: "stat \<Rightarrow> uint \<Rightarrow> ('z vm_state_scheme, unit) kmon" where
  "store_stat st p =
     kbind (user_store (enc_le 4 (st_dev st)) (p + 4)) (\<lambda>_.
     kbind (user_store (enc_le 4 (st_ino st)) (p + 8)) (\<lambda>_.
     kbind (user_store (enc_le 2 (u16 (st_type st))) p) (\<lambda>_.
     kbind (user_store (enc_le 2 (u16 (st_nlink st))) (p + 12)) (\<lambda>_.
     user_store (enc_le 4 (st_size st)) (p + 16)))))"

definition sys_fstat :: "('z file_state_scheme, int) kmon" where
  "sys_fstat = with_arg (argfd 0) (\<lambda>(_, f). with_arg (argptr 1 (int STAT_SIZE)) (\<lambda>p.
     kbind (filestat f) (\<lambda>(r, st). case st of None \<Rightarrow> ret r | Some st \<Rightarrow>
       kbind (store_stat st p) (\<lambda>_. ret r))))"

section \<open>Links\<close>

definition fail_op :: "('z log_state_scheme, int) kmon" where
  "fail_op = kbind end_op (\<lambda>_. ret (- 1))"

definition put_fail :: "nat \<Rightarrow> ('z fs_state_scheme, int) kmon" where
  "put_fail ip = kbind (iunlockput ip) (\<lambda>_. fail_op)"

definition add_nlink :: "nat \<Rightarrow> int \<Rightarrow> ('z fs_state_scheme, unit) kmon" where
  "add_nlink ip d =
     kbind (ip_set ip (\<lambda>x. x\<lparr>i_nlink := s16 (u16 (i_nlink x + d))\<rparr>)) (\<lambda>_. iupdate ip)"

definition sys_link_bad :: "nat \<Rightarrow> ('z fs_state_scheme, int) kmon" where
  "sys_link_bad ip = kbind (ilock (Some ip)) (\<lambda>_. kbind (add_nlink ip (- 1)) (\<lambda>_. put_fail ip))"

definition sys_link :: "('z fs_state_scheme) devsw \<Rightarrow> ('z fs_state_scheme, int) kmon" where
  "sys_link dsw = with_arg (argstr 0) (\<lambda>old. with_arg (argstr 1) (\<lambda>new.
     kbind begin_op (\<lambda>_.
     kbind (namei dsw old) (\<lambda>r. case r of None \<Rightarrow> fail_op | Some ip \<Rightarrow>
     kbind (ilock (Some ip)) (\<lambda>_.
     kbind (ip_get ip i_type) (\<lambda>t. if t = T_DIR then put_fail ip else
     kbind (add_nlink ip 1) (\<lambda>_.
     kbind (iunlock (Some ip)) (\<lambda>_.
     kbind (nameiparent dsw new) (\<lambda>r. case r of None \<Rightarrow> sys_link_bad ip | Some (dp, name) \<Rightarrow>
     kbind (ilock (Some dp)) (\<lambda>_.
     kbind (ip_get dp i_dev) (\<lambda>ddev.
     kbind (ip_get ip (\<lambda>x. x)) (\<lambda>x.
     kbind (if ddev \<noteq> i_dev x then ret (- 1) else dirlink dsw dp name (i_inum x)) (\<lambda>r.
     if r < 0 then kbind (iunlockput dp) (\<lambda>_. sys_link_bad ip)
     else kbind (iunlockput dp) (\<lambda>_. kbind (iput ip) (\<lambda>_. kbind end_op (\<lambda>_. ret 0))))))))))))))))"

definition isdirempty :: "('z fs_state_scheme) devsw \<Rightarrow> nat \<Rightarrow> ('z fs_state_scheme, bool) kmon" where
  "isdirempty dsw dp =
     kbind (ip_get dp i_size) (\<lambda>sz.
     kbind (kfirst (drop 2 (dir_offsets sz)) (\<lambda>off.
       kbind (readi dsw dp off DIRENT_SIZE) (\<lambda>(r, de).
       if r \<noteq> int DIRENT_SIZE then kpanic ''isdirempty: readi''
       else ret (if de_inum de \<noteq> 0 then Some () else None)))) (\<lambda>found.
     ret (found = None)))"

definition dot :: "byte list" where "dot = [46]"
definition dotdot :: "byte list" where "dotdot = [46, 46]"

definition sys_unlink :: "('z fs_state_scheme) devsw \<Rightarrow> ('z fs_state_scheme, int) kmon" where
  "sys_unlink dsw = with_arg (argstr 0) (\<lambda>path.
     kbind begin_op (\<lambda>_.
     kbind (nameiparent dsw path) (\<lambda>r. case r of None \<Rightarrow> fail_op | Some (dp, name) \<Rightarrow>
     kbind (ilock (Some dp)) (\<lambda>_.
     if namecmp name dot = 0 \<or> namecmp name dotdot = 0 then put_fail dp else
     kbind (dirlookup dsw dp name) (\<lambda>r. case r of None \<Rightarrow> put_fail dp | Some (ip, off) \<Rightarrow>
     kbind (ilock (Some ip)) (\<lambda>_.
     kbind (ip_get ip (\<lambda>x. x)) (\<lambda>x.
     if i_nlink x < 1 then kpanic ''unlink: nlink < 1'' else
     kbind (if i_type x = T_DIR then isdirempty dsw ip else ret True) (\<lambda>ok.
     if \<not> ok then kbind (iunlockput ip) (\<lambda>_. put_fail dp) else
     kbind (writei dsw dp (replicate DIRENT_SIZE 0) off) (\<lambda>w.
     if w \<noteq> int DIRENT_SIZE then kpanic ''unlink: writei'' else
     kbind (kwhen (i_type x = T_DIR) (add_nlink dp (- 1))) (\<lambda>_.
     kbind (iunlockput dp) (\<lambda>_.
     kbind (add_nlink ip (- 1)) (\<lambda>_.
     kbind (iunlockput ip) (\<lambda>_.
     kbind end_op (\<lambda>_. ret 0))))))))))))))"

section \<open>Creating and opening\<close>

definition create :: "('z fs_state_scheme) devsw \<Rightarrow> byte list \<Rightarrow> int \<Rightarrow> int \<Rightarrow> int \<Rightarrow> ('z fs_state_scheme, nat option) kmon" where
  "create dsw path type major minor =
     kbind (nameiparent dsw path) (\<lambda>r. case r of None \<Rightarrow> ret None | Some (dp, name) \<Rightarrow>
     kbind (ilock (Some dp)) (\<lambda>_.
     kbind (dirlookup dsw dp name) (\<lambda>r. case r of
       Some (ip, _) \<Rightarrow>
         kbind (iunlockput dp) (\<lambda>_.
         kbind (ilock (Some ip)) (\<lambda>_.
         kbind (ip_get ip i_type) (\<lambda>t.
         if type = T_FILE \<and> t = T_FILE then ret (Some ip)
         else kbind (iunlockput ip) (\<lambda>_. ret None))))
     | None \<Rightarrow>
         kbind (ip_get dp (\<lambda>x. x)) (\<lambda>d.
         kbind (ialloc (i_dev d) type) (\<lambda>ip.
         kbind (ilock (Some ip)) (\<lambda>_.
         kbind (ip_set ip (\<lambda>x. x\<lparr>i_major := major, i_minor := minor, i_nlink := 1\<rparr>)) (\<lambda>_.
         kbind (iupdate ip) (\<lambda>_.
         kbind (ip_get ip i_inum) (\<lambda>inum.
         kbind (kwhen (type = T_DIR)
           (kbind (add_nlink dp 1) (\<lambda>_.
            kbind (dirlink dsw ip dot inum) (\<lambda>r. if r < 0 then kpanic ''create dots'' else
            kbind (dirlink dsw ip dotdot (i_inum d)) (\<lambda>r. if r < 0 then kpanic ''create dots'' else ret ()))))) (\<lambda>_.
         kbind (dirlink dsw dp name inum) (\<lambda>r. if r < 0 then kpanic ''create: dirlink'' else
         kbind (iunlockput dp) (\<lambda>_. ret (Some ip)))))))))))))"

text \<open>The inode \<open>sys_open\<close> opens, locked; \<open>None\<close> after one of its early returns.\<close>

definition open_inode :: "('z fs_state_scheme) devsw \<Rightarrow> byte list \<Rightarrow> uint \<Rightarrow> ('z fs_state_scheme, nat option) kmon" where
  "open_inode dsw path omode =
     (if omode AND O_CREATE \<noteq> 0 then
        kbind (create dsw path T_FILE 0 0) (\<lambda>r. case r of
          None \<Rightarrow> kbind end_op (\<lambda>_. ret None) | Some ip \<Rightarrow> ret (Some ip))
      else
        kbind (namei dsw path) (\<lambda>r. case r of None \<Rightarrow> kbind end_op (\<lambda>_. ret None) | Some ip \<Rightarrow>
        kbind (ilock (Some ip)) (\<lambda>_.
        kbind (ip_get ip i_type) (\<lambda>t.
        if t = T_DIR \<and> omode \<noteq> O_RDONLY then kbind (iunlockput ip) (\<lambda>_. kbind end_op (\<lambda>_. ret None))
        else ret (Some ip)))))"

definition sys_open :: "('z file_state_scheme) devsw \<Rightarrow> ('z file_state_scheme, int) kmon" where
  "sys_open dsw = with_arg (argstr 0) (\<lambda>path. with_arg (argint 1) (\<lambda>omode.
     kbind begin_op (\<lambda>_.
     with_arg (open_inode dsw path omode) (\<lambda>ip.
     kbind filealloc (\<lambda>f.
     kbind (case f of None \<Rightarrow> ret None | Some f \<Rightarrow> fdalloc f) (\<lambda>fd.
     case (f, fd) of
       (Some f, Some fd) \<Rightarrow>
         kbind (iunlock (Some ip)) (\<lambda>_.
         kbind end_op (\<lambda>_.
         kbind (kmod (upd_file f (\<lambda>x. x\<lparr>f_type := FD_INODE, f_ip := ip, f_off := 0,
           f_readable := (omode AND O_WRONLY = 0),
           f_writable := (omode AND O_WRONLY \<noteq> 0 \<or> omode AND O_RDWR \<noteq> 0)\<rparr>))) (\<lambda>_. ret (int fd))))
     | _ \<Rightarrow> kbind (case f of None \<Rightarrow> ret () | Some f \<Rightarrow> fileclose f) (\<lambda>_. put_fail ip)))))))"

definition make_node :: "('z fs_state_scheme) devsw \<Rightarrow> byte list \<Rightarrow> int \<Rightarrow> int \<Rightarrow> int \<Rightarrow> ('z fs_state_scheme, int) kmon" where
  "make_node dsw path type major minor = kbind (create dsw path type major minor) (\<lambda>r. case r of
     None \<Rightarrow> fail_op | Some ip \<Rightarrow> kbind (iunlockput ip) (\<lambda>_. kbind end_op (\<lambda>_. ret 0)))"

definition sys_mkdir :: "('z fs_state_scheme) devsw \<Rightarrow> ('z fs_state_scheme, int) kmon" where
  "sys_mkdir dsw = kbind begin_op (\<lambda>_. kbind (argstr 0) (\<lambda>r. case r of
     None \<Rightarrow> fail_op | Some path \<Rightarrow> make_node dsw path T_DIR 0 0))"

definition sys_mknod :: "('z fs_state_scheme) devsw \<Rightarrow> ('z fs_state_scheme, int) kmon" where
  "sys_mknod dsw = kbind begin_op (\<lambda>_. kbind (argstr 0) (\<lambda>r. case r of None \<Rightarrow> fail_op | Some path \<Rightarrow>
     kbind (argint 1) (\<lambda>r. case r of None \<Rightarrow> fail_op | Some major \<Rightarrow>
     kbind (argint 2) (\<lambda>r. case r of None \<Rightarrow> fail_op | Some minor \<Rightarrow>
     make_node dsw path T_DEV (s16 (unat major)) (s16 (unat minor))))))"

definition sys_chdir :: "('z fs_state_scheme) devsw \<Rightarrow> ('z fs_state_scheme, int) kmon" where
  "sys_chdir dsw = kbind begin_op (\<lambda>_. kbind (argstr 0) (\<lambda>r. case r of None \<Rightarrow> fail_op | Some path \<Rightarrow>
     kbind (namei dsw path) (\<lambda>r. case r of None \<Rightarrow> fail_op | Some ip \<Rightarrow>
     kbind (ilock (Some ip)) (\<lambda>_.
     kbind (ip_get ip i_type) (\<lambda>t. if t \<noteq> T_DIR then put_fail ip else
     kbind (iunlock (Some ip)) (\<lambda>_.
     kbind cwd (\<lambda>old.
     kbind (iput old) (\<lambda>_.
     kbind end_op (\<lambda>_.
     kbind the_proc (\<lambda>c.
     kbind (proc_set c (\<lambda>p. p\<lparr>p_cwd := Some ip\<rparr>)) (\<lambda>_. ret 0)))))))))))"

section \<open>exec and pipe\<close>

text \<open>The loop of \<open>sys_exec\<close> from index \<open>i\<close> with \<open>k\<close> entries of \<open>argv\<close> left.\<close>

primrec exec_argv :: "nat \<Rightarrow> uint \<Rightarrow> ('z proc_state_scheme, byte list list option) kmon" where
  "exec_argv 0 p = ret None"
| "exec_argv (Suc k) p = kbind (fetchint p) (\<lambda>r. case r of None \<Rightarrow> ret None | Some uarg \<Rightarrow>
     if uarg = 0 then ret (Some [])
     else kbind (fetchstr uarg) (\<lambda>r. case r of None \<Rightarrow> ret None | Some a \<Rightarrow>
       kbind (exec_argv k (p + 4)) (\<lambda>as. ret (map_option ((#) a) as))))"

definition sys_exec :: "('z fs_state_scheme) devsw \<Rightarrow> ('z fs_state_scheme, int) kmon" where
  "sys_exec dsw = with_arg (argstr 0) (\<lambda>path. with_arg (argint 1) (\<lambda>uargv.
     with_arg (exec_argv MAXARG uargv) (\<lambda>argv. exec dsw path argv)))"

definition sys_pipe :: "('z file_state_scheme, int) kmon" where
  "sys_pipe = with_arg (argptr 0 8) (\<lambda>fdp.
     kbind pipealloc (\<lambda>(r, rfile, wfile). case (rfile, wfile) of
       (Some rfile, Some wfile) \<Rightarrow>
         if r < 0 then ret (- 1) else
         kbind (fdalloc rfile) (\<lambda>fd0.
         kbind (case fd0 of None \<Rightarrow> ret None | Some _ \<Rightarrow> fdalloc wfile) (\<lambda>fd1.
         case (fd0, fd1) of
           (Some fd0, Some fd1) \<Rightarrow>
             kbind (user_store (enc_le 4 fd0) fdp) (\<lambda>_.
             kbind (user_store (enc_le 4 fd1) (fdp + 4)) (\<lambda>_. ret 0))
         | _ \<Rightarrow>
             kbind (case fd0 of None \<Rightarrow> ret () | Some fd0 \<Rightarrow> clear_fd fd0) (\<lambda>_.
             kbind (fileclose rfile) (\<lambda>_. kbind (fileclose wfile) (\<lambda>_. ret (- 1))))))
     | _ \<Rightarrow> ret (- 1)))"

end
