(* ===== verification/Trap.thy ===== *)
theory Trap
  imports Sysfile
begin

text \<open>
  System-call dispatch (\<open>syscall\<close> of \<open>syscall.c\<close>) and the trap handler of \<open>trap.c\<close>.  The trap frame is
  in kernel memory at \<open>tf\<close>.  \<open>exit\<close> and \<open>yield\<close> end in the scheduler, which is the outcome
  \<open>Block\<close>; \<open>trap_after_yield\<close> is the rest of \<open>trap\<close> for a process that has been picked again.
  The kernel is the one with the memory disk, whose \<open>ideintr\<close> does nothing.
\<close>

section \<open>Dispatch\<close>

definition syscalls :: "('z sys_state_scheme) devsw \<Rightarrow> int \<Rightarrow> ('z sys_state_scheme, int) kmon option" where
  "syscalls dsw = map_of
     [(1, sys_fork), (2, sys_exit), (3, sys_wait), (4, sys_pipe), (5, sys_read dsw), (6, sys_kill),
      (7, sys_exec dsw), (8, sys_fstat), (9, sys_chdir dsw), (10, sys_dup), (11, sys_getpid),
      (12, sys_sbrk), (13, sys_sleep), (14, sys_uptime), (15, sys_open dsw), (16, sys_write dsw),
      (17, sys_mknod dsw), (18, sys_unlink dsw), (19, sys_link dsw), (20, sys_mkdir dsw),
      (21, sys_close)]"

definition set_eax :: "int \<Rightarrow> ('z proc_state_scheme, unit) kmon" where
  "set_eax r = kbind the_proc (\<lambda>c. kbind (proc_get c p_tf) (\<lambda>tf. tf_set tf TF_EAX (u32 r)))"

definition syscall :: "('z sys_state_scheme) devsw \<Rightarrow> ('z sys_state_scheme, unit) kmon" where
  "syscall dsw =
     kbind the_proc (\<lambda>c.
     kbind (proc_get c p_tf) (\<lambda>tf.
     kbind (tf_get tf TF_EAX) (\<lambda>eax.
     let num = s32 eax in
     case syscalls dsw num of
       Some f \<Rightarrow> kbind f set_eax
     | None \<Rightarrow>
         kbind (proc_get c (\<lambda>p. p)) (\<lambda>p.
         kbind (cprintf (''%d %s: unknown sys call %d'' @ newline)
           [CInt (p_pid p), CStr (Some (bytes (p_name p))), CInt num]) (\<lambda>_. set_eax (- 1))))))"

section \<open>trap\<close>

definition T_IRQ0 :: nat where "T_IRQ0 = 32"
definition IRQ_TIMER :: nat where "IRQ_TIMER = 0"
definition IRQ_KBD :: nat where "IRQ_KBD = 1"
definition IRQ_COM1 :: nat where "IRQ_COM1 = 4"
definition IRQ_IDE :: nat where "IRQ_IDE = 14"
definition IRQ_SPURIOUS :: nat where "IRQ_SPURIOUS = 31"

lemmas irq_consts = T_SYSCALL_def T_IRQ0_def IRQ_TIMER_def IRQ_KBD_def IRQ_COM1_def IRQ_IDE_def IRQ_SPURIOUS_def

definition TF_TRAPNO :: nat where "TF_TRAPNO = 48"
definition TF_ERR :: nat where "TF_ERR = 52"

definition ideintr :: "('z sys_state_scheme, unit) kmon" where
  "ideintr = ret ()"

definition lapiceoi :: "('z sys_state_scheme, unit) kmon" where
  "lapiceoi = kmod (\<lambda>s. s\<lparr>eoi := eoi s + 1\<rparr>)"

definition timer_tick :: "('z sys_state_scheme, unit) kmon" where
  "timer_tick = kbind (kget cpu_id) (\<lambda>id. kwhen (id = 0)
     (kseq (acquire TicksLock)
     (kseq (kmod (\<lambda>s. s\<lparr>ticks := ticks s + 1\<rparr>))
     (kseq (wakeup ChanTicks) (release TicksLock)))))"

text \<open>\<open>tf->cs & 3\<close>, the privilege level the trap came from; the selector is the low half of its
  word.\<close>

definition tf_cpl :: "nat \<Rightarrow> ('z kmem_state_scheme, nat) kmon" where
  "tf_cpl tf = kbind (tf_get tf TF_CS) (\<lambda>cs. ret (cs mod 4))"

definition exit_if_killed :: "nat \<Rightarrow> ('z file_state_scheme, unit) kmon" where
  "exit_if_killed tf =
     kbind (tf_cpl tf) (\<lambda>cpl. kbind (kget cur_killed) (\<lambda>k. kwhen (k \<and> cpl = DPL_USER) exit))"

definition trap_fault :: "nat \<Rightarrow> nat \<Rightarrow> ('z sys_state_scheme, unit) kmon" where
  "trap_fault tf no =
     kbind (kget (\<lambda>s. (cur s, cpu_id s, cr2 s))) (\<lambda>(pr, id, addr).
     kbind (tf_cpl tf) (\<lambda>cpl.
     kbind (tf_get tf TF_EIP) (\<lambda>eip.
     kbind (tf_get tf TF_ERR) (\<lambda>err.
     if pr = None \<or> cpl = 0 then
       kbind (cprintf (''unexpected trap %d from cpu %d eip %x (cr2=0x%x)'' @ newline)
         [CInt (s32 no), CInt (int id), CInt (s32 eip), CInt (sint addr)]) (\<lambda>_. kpanic ''trap'')
     else
       kbind (proc_get (the pr) (\<lambda>p. p)) (\<lambda>p.
       kbind (cprintf (''pid %d %s: trap %d err %d on cpu %d eip 0x%x addr 0x%x--kill proc'' @ newline)
         [CInt (p_pid p), CStr (Some (bytes (p_name p))), CInt (s32 no), CInt (s32 err), CInt (int id),
          CInt (s32 eip), CInt (sint addr)]) (\<lambda>_.
       proc_set (the pr) (\<lambda>q. q\<lparr>p_killed := True\<rparr>)))))))"

definition trap_interrupt :: "nat \<Rightarrow> nat \<Rightarrow> ('z sys_state_scheme, unit) kmon" where
  "trap_interrupt tf no =
     (if no = T_IRQ0 + IRQ_TIMER then kseq timer_tick lapiceoi
      else if no = T_IRQ0 + IRQ_IDE then kseq ideintr lapiceoi
      else if no = T_IRQ0 + IRQ_IDE + 1 then ret ()
      else if no = T_IRQ0 + IRQ_KBD then kseq kbdintr lapiceoi
      else if no = T_IRQ0 + IRQ_COM1 then kseq uartintr lapiceoi
      else if no = T_IRQ0 + 7 \<or> no = T_IRQ0 + IRQ_SPURIOUS then
        kbind (kget cpu_id) (\<lambda>id. kbind (tf_get tf TF_CS) (\<lambda>cs. kbind (tf_get tf TF_EIP) (\<lambda>eip.
        kseq (cprintf (''cpu%d: spurious interrupt at %x:%x'' @ newline)
          [CInt (int id), CInt (int (cs mod 2 ^ 16)), CInt (s32 eip)]) lapiceoi)))
      else trap_fault tf no)"

definition trap_after_yield :: "nat \<Rightarrow> ('z sys_state_scheme, unit) kmon" where
  "trap_after_yield tf = exit_if_killed tf"

definition trap :: "('z sys_state_scheme) devsw \<Rightarrow> nat \<Rightarrow> ('z sys_state_scheme, unit) kmon" where
  "trap dsw tf =
     kbind (tf_get tf TF_TRAPNO) (\<lambda>no.
     if no = T_SYSCALL then
       kbind the_proc (\<lambda>c.
       kbind (kget cur_killed) (\<lambda>k. if k then exit else
       kbind (proc_set c (\<lambda>p. p\<lparr>p_tf := tf\<rparr>)) (\<lambda>_.
       kbind (syscall dsw) (\<lambda>_.
       kbind (kget cur_killed) (\<lambda>k. kwhen k exit)))))
     else
       kbind (trap_interrupt tf no) (\<lambda>_.
       kbind (exit_if_killed tf) (\<lambda>_.
       kbind (kget (\<lambda>s. case cur s of None \<Rightarrow> None
         | Some p \<Rightarrow> if p_state (procs s ! p) = RUNNING \<and> no = T_IRQ0 + IRQ_TIMER then Some p else None)) (\<lambda>y.
       kbind (case y of None \<Rightarrow> ret () | Some p \<Rightarrow> yield p) (\<lambda>_.
       trap_after_yield tf)))))"

end
