(* ===== verification/VmProps.thy ===== *)
theory VmProps
  imports Vm
begin

text \<open>
  What the page-table routines of \<open>vm.c\<close> do to the map of virtual pages.  The abstract view is
  \<open>pte_of\<close>: the entry a page directory gives for a virtual address, 0 if it has no page table for
  it; \<open>pgdir_ok\<close> says that a page directory, its tables and the free list are disjoint pages.
  \<open>walkpgdir\<close> with allocation keeps the map, storing an entry changes it at one page, and
  \<open>mappages\<close> is the update of a range.
\<close>

section \<open>Words in page tables\<close>

lemma ldw_stw:
  assumes "a mod 4 = 0" "b mod 4 = 0"
  shows "ldw (stw m a w) b = (if a = b then w else ldw m b)"
proof (cases "a = b")
  case True
  have "unat w < 2 ^ 32" using unsigned_less [of w] by simp
  with True show ?thesis by (simp add: ldw_def stw_def load32_store32_same)
next
  case False
  from assms obtain i j where "a = 4 * i" "b = 4 * j" by (auto simp: mod_eq_0_iff_dvd elim!: dvdE)
  with False have "a + 4 \<le> b \<or> b + 4 \<le> a" by (cases "i < j") auto
  with False show ?thesis by (auto simp: ldw_def stw_def load32_store32_other)
qed

lemma ldw_zero:
  assumes "p mod PAGE = 0" "b mod 4 = 0"
  shows "ldw (memset m p 0 PAGE) b = (if p \<le> b \<and> b < p + PAGE then 0 else ldw m b)"
proof -
  from assms obtain i j where "p = PAGE * i" "b = 4 * j" by (auto simp: mod_eq_0_iff_dvd elim!: dvdE)
  have "b + 4 \<le> p + PAGE" if "b < p + PAGE"
  proof -
    have "j < 1024 * i + 1024" using that \<open>p = PAGE * i\<close> \<open>b = 4 * j\<close> by linarith
    then show ?thesis using \<open>p = PAGE * i\<close> \<open>b = 4 * j\<close> by linarith
  qed
  moreover have "b + 4 \<le> p" if "b < p"
  proof -
    have "j < 1024 * i" using that \<open>p = PAGE * i\<close> \<open>b = 4 * j\<close> by linarith
    then show ?thesis using \<open>p = PAGE * i\<close> \<open>b = 4 * j\<close> by linarith
  qed
  ultimately show ?thesis
    by (auto simp: ldw_def load32_memset_zero load32_memset_other not_le not_less)
qed

lemma entry_inj:
  assumes "p mod PAGE = 0" "q mod PAGE = 0" "i < 1024" "j < 1024"
  shows "(p + 4 * i = q + 4 * j) = (p = q \<and> i = j)"
  using pages_apart [OF assms(1,2)] assms(3,4) by (cases "p = q") auto

lemma PTE_ADDR_aligned: "unat w mod 4096 = 0 \<Longrightarrow> PTE_ADDR w = w"
  by (rule word_unat_eq_iff [THEN iffD2]) (simp add: unat_PTE_ADDR minus_mod_eq_div_mult [symmetric])

lemma PTE_ADDR_or: "PTE_ADDR (a OR b) = PTE_ADDR a OR PTE_ADDR b"
  by (simp add: PTE_ADDR_def bit.conj_disj_distrib2)

lemma PTE_ADDR_flags [simp]: "PTE_ADDR PTE_P = 0" "PTE_ADDR PTE_W = 0" "PTE_ADDR PTE_U = 0"
  by (simp_all add: PTE_ADDR_def mmu_consts)

text \<open>The entry \<open>walkpgdir\<close> stores for a page of kernel memory leads back to it.\<close>

lemma pde_of_page:
  assumes "page_ok s v"
  defines "e \<equiv> ((v2p (word_of_nat v) OR PTE_P) OR PTE_W) OR PTE_U"
  shows "unat (p2v (PTE_ADDR e)) = v" "e AND PTE_P \<noteq> 0"
proof -
  let ?w = "word_of_nat v :: uint"
  have v: "v < 2 ^ 32" "v mod 4096 = 0" "KBASE \<le> v" using assms(1) by (auto simp: page_ok_def)
  then have u: "unat ?w = v" by (simp add: unat_of_nat)
  have "KERNBASE \<le> ?w" using v u by (simp add: word_le_nat_alt KERNBASE_def)
  then have "unat (v2p ?w) = v - KBASE" using u by (simp add: v2p_def unat_sub KERNBASE_def)
  moreover have "(v - KBASE) mod 4096 = 0"
  proof -
    have "4096 dvd v" using v(2) by (simp add: mod_eq_0_iff_dvd)
    then have "4096 dvd v - KBASE" by (rule dvd_diff_nat) simp
    then show ?thesis by (simp add: mod_eq_0_iff_dvd)
  qed
  ultimately have "PTE_ADDR (v2p ?w) = v2p ?w" by (simp add: PTE_ADDR_aligned)
  then have "PTE_ADDR e = v2p ?w" by (simp add: e_def PTE_ADDR_or)
  then show "unat (p2v (PTE_ADDR e)) = v" by (simp add: u)
  have "bit (e AND PTE_P) 0" by (simp add: e_def bit_simps PTE_P_def)
  then show "e AND PTE_P \<noteq> 0" by (metis bit_0_eq bot_apply bot_bool_def)
qed

section \<open>The map of virtual pages\<close>

text \<open>The table of directory index \<open>i\<close>, the entry for \<open>va\<close> and its address; 0 if there is no
  table.\<close>

definition table_of :: "memory \<Rightarrow> nat \<Rightarrow> nat \<Rightarrow> nat" where
  "table_of m pgdir i =
     (let pde = ldw m (pgdir + 4 * i) in
      if pde AND PTE_P \<noteq> 0 then unat (p2v (PTE_ADDR pde)) else 0)"

definition pte_addr :: "memory \<Rightarrow> nat \<Rightarrow> uint \<Rightarrow> nat" where
  "pte_addr m pgdir va =
     (let t = table_of m pgdir (unat (PDX va)) in if t = 0 then 0 else t + 4 * unat (PTX va))"

definition pte_of :: "memory \<Rightarrow> nat \<Rightarrow> uint \<Rightarrow> uint" where
  "pte_of m pgdir va = (let a = pte_addr m pgdir va in if a = 0 then 0 else ldw m a)"

text \<open>A page directory and its tables are different pages, none of them free.\<close>

definition pgdir_ok :: "('z kmem_state_scheme) \<Rightarrow> nat \<Rightarrow> nat list \<Rightarrow> bool" where
  "pgdir_ok s pgdir fs \<longleftrightarrow>
     kmem_ready s fs \<and> page_ok s pgdir \<and> pgdir \<notin> set fs \<and>
     (\<forall>i < 1024. let t = table_of (mem s) pgdir i in t \<noteq> 0 \<longrightarrow>
        page_ok s t \<and> t \<noteq> pgdir \<and> t \<notin> set fs \<and> (\<forall>j < 1024. table_of (mem s) pgdir j = t \<longrightarrow> j = i)) \<and>
     (\<forall>i < 1024. table_of (mem s) pgdir i = 0 \<longrightarrow> ldw (mem s) (pgdir + 4 * i) AND PTE_P = 0)"

lemma pdx_less [simp]: "unat (PDX va) < 1024" "unat (PTX va) < 1024"
  by (simp_all add: unat_PDX unat_PTX)

lemma aligned4: "p mod PAGE = 0 \<Longrightarrow> (p + 4 * i) mod 4 = 0"
  by (auto simp: mod_eq_0_iff_dvd intro!: dvd_add elim: dvd_trans [rotated])

lemma ldw_stw_entry:
  assumes "p mod PAGE = 0" "q mod PAGE = 0" "i < 1024" "j < 1024"
  shows "ldw (stw m (p + 4 * j) w) (q + 4 * i) = (if q = p \<and> i = j then w else ldw m (q + 4 * i))"
  unfolding ldw_stw [OF aligned4 [OF assms(1)] aligned4 [OF assms(2)]]
  using entry_inj [OF assms(1,2,4,3)] by auto

lemma ldw_zero_entry:
  assumes "p mod PAGE = 0" "v mod PAGE = 0" "i < 1024"
  shows "ldw (memset m v 0 PAGE) (p + 4 * i) = (if p = v then 0 else ldw m (p + 4 * i))"
  unfolding ldw_zero [OF assms(2) aligned4 [OF assms(1)]]
  using pages_apart [OF assms(1,2)] assms(3) by auto

lemma pgdir_okD:
  assumes "pgdir_ok s pgdir fs"
  shows "kmem_ready s fs" "page_ok s pgdir" "pgdir \<notin> set fs" "pgdir mod PAGE = 0" "0 < pgdir"
    and "i < 1024 \<Longrightarrow> table_of (mem s) pgdir i = t \<Longrightarrow> t \<noteq> 0 \<Longrightarrow> page_ok s t \<and> t \<noteq> pgdir \<and> t \<notin> set fs \<and> t mod PAGE = 0"
    and "i < 1024 \<Longrightarrow> j < 1024 \<Longrightarrow> table_of (mem s) pgdir i = table_of (mem s) pgdir j \<Longrightarrow>
      table_of (mem s) pgdir i \<noteq> 0 \<Longrightarrow> i = j"
    and "i < 1024 \<Longrightarrow> table_of (mem s) pgdir i = 0 \<Longrightarrow> ldw (mem s) (pgdir + 4 * i) AND PTE_P = 0"
  using assms unfolding pgdir_ok_def Let_def by (auto simp: page_ok_def)

text \<open>The map depends only on the pages of the directory and its tables.\<close>

lemma table_of_cong:
  assumes "ldw m' (pgdir + 4 * i) = ldw m (pgdir + 4 * i)"
  shows "table_of m' pgdir i = table_of m pgdir i"
  using assms by (simp add: table_of_def)

text \<open>\<open>walkpgdir\<close> finds the entry where there is a table, changing nothing.\<close>

lemma walkpgdir_hit:
  assumes "pte_addr (mem s) pgdir va \<noteq> 0" "pgdir_ok s pgdir fs"
  shows "walkpgdir pgdir va alloc s = Ok (pte_addr (mem s) pgdir va) s"
  using assms(1)
  by (auto simp: walkpgdir_def get_word_def pte_addr_def table_of_def Let_def ret_def split: if_splits)

lemma walkpgdir_none:
  assumes "pte_addr (mem s) pgdir va = 0" "pgdir_ok s pgdir fs"
  shows "walkpgdir pgdir va False s = Ok 0 s"
proof -
  have "table_of (mem s) pgdir (unat (PDX va)) = 0" using assms(1)
    by (simp add: pte_addr_def Let_def split: if_splits)
  then have "ldw (mem s) (pgdir + 4 * unat (PDX va)) AND PTE_P = 0"
    using pgdir_okD(8) [OF assms(2)] by simp
  then show ?thesis by (simp add: walkpgdir_def get_word_def ret_def)
qed

text \<open>Memory changes that keep the free list.\<close>

lemma kmem_ready_mem:
  assumes "kmem_ready s fs" "\<And>x. x \<in> set fs \<Longrightarrow> load32 m x = load32 (mem s) x"
  shows "kmem_ready (s\<lparr>mem := m\<rparr>) fs"
  using assms chain_cong [of fs m "mem s" "freelist s"] by (auto simp: kmem_ready_def free_pages_def page_ok_def)

lemma upd_swap: "s\<lparr>freelist := f, mem := m\<rparr> = s\<lparr>mem := m, freelist := f\<rparr>"
  by simp

lemma ready_page: "kmem_ready s fs \<Longrightarrow> x \<in> set fs \<Longrightarrow> page_ok s x"
  by (auto simp: kmem_ready_def free_pages_def)

lemma page_okD: "page_ok s v \<Longrightarrow> v mod PAGE = 0" "page_ok s v \<Longrightarrow> 0 < v"
  by (auto simp: page_ok_def)

lemma load32_stw_other: "x + 4 \<le> a \<or> a + 4 \<le> x \<Longrightarrow> load32 (stw m a w) x = load32 m x"
  by (simp add: stw_def load32_store32_other)

lemma stw_other: "y < a \<or> a + 4 \<le> y \<Longrightarrow> stw m a w y = m y"
  by (auto simp: stw_def store32_def store_def)

lemma off_page:
  assumes "x mod PAGE = 0" "p mod PAGE = 0" "x \<noteq> p" "i < 1024"
  shows "x + 4 \<le> p + 4 * i \<or> p + 4 * i + 4 \<le> x"
  using pages_apart [OF assms(1-3)] assms(4) by auto

lemma kalloc_page:
  assumes "kmem_ready s (v # fs)"
  shows "kalloc s = Ok v (s\<lparr>freelist := load32 (mem s) v\<rparr>) \<and> kmem_ready (s\<lparr>freelist := load32 (mem s) v\<rparr>) fs \<and>
    page_ok s v \<and> v \<notin> set fs"
  using assms kalloc_spec [of s "v # fs"] by (auto simp: kmem_ready_def free_pages_def)

lemma walkpgdir_alloc:
  assumes ok: "pgdir_ok s pgdir (v # fs)" and none: "pte_addr (mem s) pgdir va = 0"
  shows "\<exists>m f. walkpgdir pgdir va True s = Ok (v + 4 * unat (PTX va)) (s\<lparr>mem := m, freelist := f\<rparr>) \<and>
    pgdir_ok (s\<lparr>mem := m, freelist := f\<rparr>) pgdir fs \<and> pte_addr m pgdir va = v + 4 * unat (PTX va) \<and>
    (\<forall>va'. pte_of m pgdir va' = pte_of (mem s) pgdir va') \<and>
    (\<forall>i < 1024. table_of m pgdir i = (if i = unat (PDX va) then v else table_of (mem s) pgdir i)) \<and>
    (\<forall>y. (y < v \<or> v + PAGE \<le> y) \<and> (y < pgdir \<or> pgdir + PAGE \<le> y) \<longrightarrow> m y = mem s y)"
proof -
  note d = pgdir_okD [OF ok]
  let ?k = "unat (PDX va)" and ?f = "load32 (mem s) v"
  let ?e = "((v2p (word_of_nat v) OR PTE_P) OR PTE_W) OR PTE_U"
  let ?m = "stw (memset (mem s) v 0 PAGE) (pgdir + 4 * ?k) ?e"
  let ?t = "s\<lparr>mem := ?m, freelist := ?f\<rparr>"
  have ka: "kalloc s = Ok v (s\<lparr>freelist := ?f\<rparr>)" "kmem_ready (s\<lparr>freelist := ?f\<rparr>) fs"
    and v: "page_ok s v" "v \<notin> set fs" using kalloc_page [OF d(1)] by auto
  note e = pde_of_page [OF v(1)]
  have vp: "v mod PAGE = 0" "0 < v" "v \<noteq> pgdir" using page_okD [OF v(1)] d(3) by auto
  have k0: "table_of (mem s) pgdir ?k = 0" using none by (simp add: pte_addr_def Let_def split: if_splits)
  then have pde: "ldw (mem s) (pgdir + 4 * ?k) AND PTE_P = 0" using d(8) by simp
  have run: "walkpgdir pgdir va True s = Ok (v + 4 * unat (PTX va)) ?t"
    using pde ka(1) vp(2)
    by (simp add: walkpgdir_def get_word_def put_word_def zero_page_def kbind_Ok ret_def)
  have word: "ldw ?m (p + 4 * i) = (if p = pgdir \<and> i = ?k then ?e else if p = v then 0 else ldw (mem s) (p + 4 * i))"
    if "p mod PAGE = 0" "i < 1024" for p i
    unfolding ldw_stw_entry [OF d(4) that(1,2) pdx_less(1)] ldw_zero_entry [OF that(1) vp(1) that(2)] by simp
  have tab: "table_of ?m pgdir i = (if i = ?k then v else table_of (mem s) pgdir i)" if "i < 1024" for i
    using word [OF d(4) that] vp(3) e by (simp add: table_of_def Let_def)
  have ready: "kmem_ready ?t fs"
  proof -
    have "load32 ?m x = load32 (mem s) x" if "x \<in> set fs" for x
    proof -
      have x: "x mod PAGE = 0" "x \<noteq> v" "x \<noteq> pgdir"
        using ready_page [OF d(1), of x] v(2) d(3) that page_okD by auto
      then show ?thesis using off_page [OF x(1) d(4) x(3)] pages_apart [OF x(1) vp(1) x(2)]
        by (auto simp: load32_stw_other load32_memset_other)
    qed
    then show ?thesis using kmem_ready_mem [OF ka(2), of ?m] by (simp add: upd_swap)
  qed
  have vi: "table_of (mem s) pgdir i \<noteq> v" if "i < 1024" for i
    using d(6) [OF that refl] vp(2) by (cases "table_of (mem s) pgdir i = 0") auto
  have ok': "pgdir_ok ?t pgdir fs"
    unfolding pgdir_ok_def Let_def
  proof (intro conjI allI impI)
    show "kmem_ready ?t fs" by (rule ready)
    show "page_ok ?t pgdir" "pgdir \<notin> set fs" using d(2,3) by (auto simp: page_ok_def)
    fix i :: nat assume i: "i < 1024"
    { assume "table_of (mem ?t) pgdir i \<noteq> 0"
      then have t: "i = ?k \<or> table_of (mem s) pgdir i \<noteq> 0" using tab [OF i] by (auto split: if_splits)
      show "page_ok ?t (table_of (mem ?t) pgdir i)" "table_of (mem ?t) pgdir i \<noteq> pgdir"
        "table_of (mem ?t) pgdir i \<notin> set fs"
        using t tab [OF i] d(6) [OF i refl] v vp(3) by (auto simp: page_ok_def)
      fix j :: nat assume j: "j < 1024" and "table_of (mem ?t) pgdir j = table_of (mem ?t) pgdir i"
      then have eq: "(if j = ?k then v else table_of (mem s) pgdir j) = (if i = ?k then v else table_of (mem s) pgdir i)"
        using tab [OF i] tab [OF j] by simp
      show "j = i"
      proof (cases "i = ?k \<or> j = ?k")
        case True
        with eq vi [OF i] vi [OF j] show ?thesis by (simp split: if_splits)
      next
        case False
        with eq t d(7) [OF i j] show ?thesis by simp
      qed }
    assume "table_of (mem ?t) pgdir i = 0"
    then have "i \<noteq> ?k" "table_of (mem s) pgdir i = 0" using tab [OF i] vp(2) by (auto split: if_splits)
    then show "ldw (mem ?t) (pgdir + 4 * i) AND PTE_P = 0"
      using word [OF d(4) i] vp(3) d(8) [OF i] by simp
  qed
  have pa: "pte_addr ?m pgdir va = v + 4 * unat (PTX va)" using tab [of ?k] vp(2) by (simp add: pte_addr_def)
  have "pte_of ?m pgdir va' = pte_of (mem s) pgdir va'" for va'
  proof -
    let ?i = "unat (PDX va')"
    show ?thesis
    proof (cases "?i = ?k")
      case True
      then show ?thesis using tab [of ?k] k0 vp word [OF vp(1), of "unat (PTX va')"]
        by (simp add: pte_of_def pte_addr_def Let_def)
    next
      case False
      then have t: "table_of ?m pgdir ?i = table_of (mem s) pgdir ?i" using tab by simp
      show ?thesis
      proof (cases "table_of (mem s) pgdir ?i = 0")
        case True
        with t show ?thesis by (simp add: pte_of_def pte_addr_def)
      next
        case nz: False
        have "table_of (mem s) pgdir ?i mod PAGE = 0" "table_of (mem s) pgdir ?i \<noteq> pgdir" "table_of (mem s) pgdir ?i \<noteq> v"
          using d(6) [OF _ refl nz] by auto
        then show ?thesis using t nz word [of "table_of (mem s) pgdir ?i" "unat (PTX va')"]
          by (simp add: pte_of_def pte_addr_def Let_def)
      qed
    qed
  qed
  moreover have "?m y = mem s y" if "(y < v \<or> v + PAGE \<le> y) \<and> (y < pgdir \<or> pgdir + PAGE \<le> y)" for y
  proof -
    have "pgdir + 4 * ?k + 4 \<le> pgdir + PAGE" using pdx_less(1) [of va] by linarith
    then have "y < pgdir + 4 * ?k \<or> pgdir + 4 * ?k + 4 \<le> y" using that by linarith
    then show ?thesis using that by (auto simp: stw_other memset_eq)
  qed
  ultimately show ?thesis using run ok' pa tab by (intro exI [of _ ?m] exI [of _ ?f]) blast
qed

lemma put_pte:
  fixes w :: uint
  assumes ok: "pgdir_ok s pgdir fs" and a: "pte_addr (mem s) pgdir va \<noteq> 0"
  defines "m \<equiv> stw (mem s) (pte_addr (mem s) pgdir va) w"
  shows "pgdir_ok (s\<lparr>mem := m\<rparr>) pgdir fs"
    and "\<forall>i < 1024. table_of m pgdir i = table_of (mem s) pgdir i"
    and "y < table_of (mem s) pgdir (unat (PDX va)) \<or> table_of (mem s) pgdir (unat (PDX va)) + PAGE \<le> y \<Longrightarrow> m y = mem s y"
    and "pte_of m pgdir va' = (if PDX va' = PDX va \<and> PTX va' = PTX va then w else pte_of (mem s) pgdir va')"
proof -
  note d = pgdir_okD [OF ok]
  let ?k = "unat (PDX va)" and ?j = "unat (PTX va)"
  let ?p = "table_of (mem s) pgdir ?k"
  have p: "?p \<noteq> 0" "pte_addr (mem s) pgdir va = ?p + 4 * ?j" using a by (auto simp: pte_addr_def Let_def split: if_splits)
  have pp: "page_ok s ?p" "?p \<noteq> pgdir" "?p \<notin> set fs" "?p mod PAGE = 0" using d(6) [OF _ refl p(1)] by auto
  have word: "ldw m (q + 4 * i) = (if q = ?p \<and> i = ?j then w else ldw (mem s) (q + 4 * i))"
    if "q mod PAGE = 0" "i < 1024" for q i
    unfolding m_def p(2) ldw_stw_entry [OF pp(4) that pdx_less(2)] by simp
  have tab: "table_of m pgdir i = table_of (mem s) pgdir i" if "i < 1024" for i
    using word [OF d(4) that] pp(2) by (intro table_of_cong) auto
  have "load32 m x = load32 (mem s) x" if "x \<in> set fs" for x
  proof -
    have x: "x mod PAGE = 0" "x \<noteq> ?p" using ready_page [OF d(1) that] pp(3) that page_okD by auto
    show ?thesis using off_page [OF x(1) pp(4) x(2), of ?j] by (simp add: m_def p(2) load32_stw_other)
  qed
  then have "kmem_ready (s\<lparr>mem := m\<rparr>) fs" by (rule kmem_ready_mem [OF d(1)])
  then show "pgdir_ok (s\<lparr>mem := m\<rparr>) pgdir fs"
    using ok tab word [OF d(4)] pp(2) by (simp add: pgdir_ok_def Let_def page_ok_def)
  show "\<forall>i < 1024. table_of m pgdir i = table_of (mem s) pgdir i" using tab by blast
  show "y < ?p \<or> ?p + PAGE \<le> y \<Longrightarrow> m y = mem s y"
  proof -
    have "?p + 4 * ?j + 4 \<le> ?p + PAGE" using pdx_less(2) [of va] by linarith
    then show "y < ?p \<or> ?p + PAGE \<le> y \<Longrightarrow> m y = mem s y" unfolding m_def p(2) by (intro stw_other) linarith
  qed
  let ?i = "unat (PDX va')"
  show "pte_of m pgdir va' = (if PDX va' = PDX va \<and> PTX va' = PTX va then w else pte_of (mem s) pgdir va')"
  proof (cases "table_of (mem s) pgdir ?i = 0")
    case True
    then show ?thesis using tab [of ?i] p(1) by (auto simp: pte_of_def pte_addr_def)
  next
    case False
    have q: "table_of (mem s) pgdir ?i mod PAGE = 0" using d(6) [OF _ refl False] by simp
    have "?i = ?k" if "table_of (mem s) pgdir ?i = ?p" using d(7) [OF _ _ that False] by simp
    then show ?thesis using False tab [of ?i] word [OF q, of "unat (PTX va')"]
      by (simp add: pte_of_def pte_addr_def Let_def word_unat_eq_iff [of "PDX va'"] word_unat_eq_iff [of "PTX va'"])
  qed
qed

text \<open>The number of the page an address is in.\<close>

definition vpn :: "uint \<Rightarrow> nat" where
  "vpn va = unat va div PAGE"

lemma vpn_eq: "(PDX a = PDX b \<and> PTX a = PTX b) = (vpn a = vpn b)"
proof -
  have x: "unat (PTX c) = vpn c mod 1024" "unat (PDX c) = vpn c div 1024" for c
  proof -
    have "unat c < 2 ^ 32" using unsigned_less [of c] by simp
    then have "vpn c < 1024 * 1024" by (simp add: vpn_def less_mult_imp_div_less)
    then have "vpn c div 1024 < 1024" by (simp add: less_mult_imp_div_less)
    then show "unat (PTX c) = vpn c mod 1024" "unat (PDX c) = vpn c div 1024"
      by (simp_all add: unat_PTX unat_PDX vpn_def div_mult2_eq [symmetric])
  qed
  show ?thesis
  proof
    assume "PDX a = PDX b \<and> PTX a = PTX b"
    then have "vpn a div 1024 = vpn b div 1024" "vpn a mod 1024 = vpn b mod 1024" by (simp_all add: x [symmetric])
    then show "vpn a = vpn b" by (metis div_mult_mod_eq)
  qed (simp add: word_unat_eq_iff x)
qed

lemma vpn_next:
  assumes "unat a + PAGE < 2 ^ 32"
  shows "vpn (a + PGSIZE) = Suc (vpn a)" "unat (a + PGSIZE) = unat a + PAGE"
proof -
  have "unat PGSIZE = PAGE" by (simp add: PGSIZE_def)
  then show u: "unat (a + PGSIZE) = unat a + PAGE" using assms unat_add_lem [of a PGSIZE] by simp
  show "vpn (a + PGSIZE) = Suc (vpn a)" unfolding vpn_def u by simp
qed

lemma pte_of_page: "vpn a = vpn b \<Longrightarrow> pte_of m pgdir a = pte_of m pgdir b"
  using vpn_eq [of a b] by (simp add: pte_of_def pte_addr_def Let_def)

text \<open>The indices with a table, the pages that a page directory and the free list occupy, and the growth of a
  page directory: its pages and the free ones are among those there were, and no byte outside of them
  changes.\<close>

definition tables :: "memory \<Rightarrow> nat \<Rightarrow> nat set" where
  "tables m pgdir = {i. i < 1024 \<and> table_of m pgdir i \<noteq> 0}"

definition owned :: "memory \<Rightarrow> nat \<Rightarrow> nat list \<Rightarrow> nat set" where
  "owned m pgdir fs = insert pgdir (table_of m pgdir ` tables m pgdir \<union> set fs)"

definition outside :: "nat set \<Rightarrow> nat \<Rightarrow> bool" where
  "outside P y \<longleftrightarrow> (\<forall>p \<in> P. y < p \<or> p + PAGE \<le> y)"

definition grown :: "('z kmem_state_scheme) \<Rightarrow> nat \<Rightarrow> nat list \<Rightarrow> memory \<Rightarrow> nat \<Rightarrow> nat list \<Rightarrow> bool" where
  "grown s pgdir fs m f fs' \<longleftrightarrow> pgdir_ok (s\<lparr>mem := m, freelist := f\<rparr>) pgdir fs' \<and>
     owned m pgdir fs' \<subseteq> owned (mem s) pgdir fs \<and> (\<forall>y. outside (owned (mem s) pgdir fs) y \<longrightarrow> m y = mem s y)"

lemma outside_mono: "outside P y \<Longrightarrow> Q \<subseteq> P \<Longrightarrow> outside Q y"
  by (auto simp: outside_def)

lemma grown_trans:
  "grown s pgdir fs m f fs' \<Longrightarrow> grown (s\<lparr>mem := m, freelist := f\<rparr>) pgdir fs' m' f' fs'' \<Longrightarrow> grown s pgdir fs m' f' fs''"
proof -
  assume g: "grown s pgdir fs m f fs'" "grown (s\<lparr>mem := m, freelist := f\<rparr>) pgdir fs' m' f' fs''"
  have "m' y = mem s y" if "outside (owned (mem s) pgdir fs) y" for y
  proof -
    have "outside (owned m pgdir fs') y" using g(1) that by (auto simp: grown_def intro: outside_mono)
    then show ?thesis using g that by (simp add: grown_def)
  qed
  then show "grown s pgdir fs m' f' fs''" using g by (auto simp: grown_def)
qed

lemma grown_refl: "pgdir_ok s pgdir fs \<Longrightarrow> grown s pgdir fs (mem s) (freelist s) fs"
  by (simp add: grown_def)

lemma pdx_vpn: "unat (PDX a) = vpn a div 1024"
proof -
  have "unat a < 2 ^ 32" using unsigned_less [of a] by simp
  then have "vpn a < 1024 * 1024" by (simp add: vpn_def less_mult_imp_div_less)
  then have "vpn a div 1024 < 1024" by (simp add: less_mult_imp_div_less)
  then show ?thesis by (simp add: unat_PDX vpn_def div_mult2_eq [symmetric])
qed

lemma tables_addr: "pte_addr m pgdir va \<noteq> 0 \<longleftrightarrow> vpn va div 1024 \<in> tables m pgdir"
  using pdx_less(1) [of va] by (auto simp: pte_addr_def tables_def Let_def pdx_vpn)

text \<open>What \<open>walkpgdir\<close> with allocation gives in either case.\<close>

lemma walkpgdir_entry:
  assumes ok: "pgdir_ok s pgdir fs" and ne: "vpn va div 1024 \<in> tables (mem s) pgdir \<or> fs \<noteq> []"
  shows "\<exists>m f. walkpgdir pgdir va True s = Ok (pte_addr m pgdir va) (s\<lparr>mem := m, freelist := f\<rparr>) \<and>
    grown s pgdir fs m f (if vpn va div 1024 \<in> tables (mem s) pgdir then fs else tl fs) \<and> pte_addr m pgdir va \<noteq> 0 \<and>
    pte_of m pgdir = pte_of (mem s) pgdir \<and> tables m pgdir = insert (vpn va div 1024) (tables (mem s) pgdir)"
proof (cases "vpn va div 1024 \<in> tables (mem s) pgdir")
  case True
  then have nz: "pte_addr (mem s) pgdir va \<noteq> 0" using tables_addr by blast
  then have "walkpgdir pgdir va True s = Ok (pte_addr (mem s) pgdir va) (s\<lparr>mem := mem s, freelist := freelist s\<rparr>)"
    using walkpgdir_hit [OF nz ok] by simp
  then show ?thesis using True nz grown_refl [OF ok] by (intro exI [of _ "mem s"] exI [of _ "freelist s"]) auto
next
  case False
  then have z: "pte_addr (mem s) pgdir va = 0" using tables_addr by blast
  from ne False obtain v vs where fs: "fs = v # vs" by (cases fs) auto
  from walkpgdir_alloc [OF ok [unfolded fs] z] obtain m f where w:
    "walkpgdir pgdir va True s = Ok (v + 4 * unat (PTX va)) (s\<lparr>mem := m, freelist := f\<rparr>)"
    "pgdir_ok (s\<lparr>mem := m, freelist := f\<rparr>) pgdir vs" "pte_addr m pgdir va = v + 4 * unat (PTX va)"
    "\<forall>va'. pte_of m pgdir va' = pte_of (mem s) pgdir va'"
    "\<forall>i < 1024. table_of m pgdir i = (if i = vpn va div 1024 then v else table_of (mem s) pgdir i)"
    "\<forall>y. (y < v \<or> v + PAGE \<le> y) \<and> (y < pgdir \<or> pgdir + PAGE \<le> y) \<longrightarrow> m y = mem s y" unfolding pdx_vpn by blast
  have v: "0 < v" using pgdir_okD(1) [OF ok] fs ready_page [of s fs v] page_okD by auto
  have k: "vpn va div 1024 < 1024" using pdx_less(1) [of va] by (simp add: pdx_vpn)
  have t: "tables m pgdir = insert (vpn va div 1024) (tables (mem s) pgdir)"
    using w(5) k v by (auto simp: tables_def split: if_splits)
  have "owned m pgdir vs \<subseteq> owned (mem s) pgdir fs"
    using w(5) k fs unfolding owned_def t by (auto simp: tables_def)
  moreover have "m y = mem s y" if "outside (owned (mem s) pgdir fs) y" for y
    using w(6) that fs by (simp add: outside_def owned_def)
  ultimately have "grown s pgdir fs m f vs" using w(2) by (simp add: grown_def)
  then show ?thesis using w v fs False t by (intro exI [of _ m] exI [of _ f]) auto
qed

definition map_range :: "(uint \<Rightarrow> uint) \<Rightarrow> nat \<Rightarrow> nat \<Rightarrow> uint \<Rightarrow> uint \<Rightarrow> uint \<Rightarrow> uint" where
  "map_range old first n pa perm va =
     (if first \<le> vpn va \<and> vpn va < first + n
      then ((pa + word_of_nat (vpn va - first) * PGSIZE) OR perm) OR PTE_P else old va)"

lemma map_one:
  assumes ok: "pgdir_ok s pgdir fs" and ne: "vpn a div 1024 \<in> tables (mem s) pgdir \<or> fs \<noteq> []"
    and new: "pte_of (mem s) pgdir a AND PTE_P = 0"
  shows "\<exists>m f. kbind (walkpgdir pgdir a True) (\<lambda>pte. if pte = 0 then ret (- 1) else
     kbind (get_word pte) (\<lambda>e. if e AND PTE_P \<noteq> 0 then kpanic ''remap'' else
     kbind (put_word pte ((pa OR perm) OR PTE_P)) g)) s = g () (s\<lparr>mem := m, freelist := f\<rparr>) \<and>
    grown s pgdir fs m f (if vpn a div 1024 \<in> tables (mem s) pgdir then fs else tl fs) \<and>
    tables m pgdir = insert (vpn a div 1024) (tables (mem s) pgdir) \<and>
    pte_of m pgdir = map_range (pte_of (mem s) pgdir) (vpn a) 1 pa perm"
proof -
  let ?fs = "if vpn a div 1024 \<in> tables (mem s) pgdir then fs else tl fs"
  from walkpgdir_entry [OF ok ne] obtain m f where w:
    "walkpgdir pgdir a True s = Ok (pte_addr m pgdir a) (s\<lparr>mem := m, freelist := f\<rparr>)"
    "grown s pgdir fs m f ?fs" "pte_addr m pgdir a \<noteq> 0"
    "pte_of m pgdir = pte_of (mem s) pgdir" "tables m pgdir = insert (vpn a div 1024) (tables (mem s) pgdir)" by blast
  let ?w = "(pa OR perm) OR PTE_P"
  let ?m = "stw m (pte_addr m pgdir a) ?w"
  let ?s = "s\<lparr>mem := m, freelist := f\<rparr>"
  have e: "ldw m (pte_addr m pgdir a) AND PTE_P = 0"
    using new w(3) fun_cong [OF w(4), of a] by (simp add: pte_of_def)
  have ok': "pgdir_ok ?s pgdir ?fs" using w(2) by (simp add: grown_def)
  have nz: "pte_addr (mem ?s) pgdir a \<noteq> 0" using w(3) by simp
  note p = put_pte [OF ok' nz, where w = ?w, simplified]
  have "pte_of ?m pgdir va = map_range (pte_of (mem s) pgdir) (vpn a) 1 pa perm va" for va
    using p(4) [of va] fun_cong [OF w(4), of va] by (auto simp: map_range_def vpn_eq)
  moreover have t: "tables ?m pgdir = tables m pgdir" using p(2) by (auto simp: tables_def)
  moreover have "grown ?s pgdir ?fs ?m f ?fs"
  proof -
    have "vpn a div 1024 \<in> tables m pgdir" using w(5) by simp
    then have "table_of m pgdir (unat (PDX a)) \<in> owned m pgdir ?fs" by (simp add: owned_def pdx_vpn)
    then have "?m y = m y" if "outside (owned m pgdir ?fs) y" for y
      using p(3) [of y] that by (simp add: outside_def)
    moreover have "owned ?m pgdir ?fs = owned m pgdir ?fs"
      unfolding owned_def t using p(2) by (auto simp: tables_def)
    ultimately show ?thesis using p(1) by (simp add: grown_def upd_swap)
  qed
  ultimately show ?thesis using w e grown_trans [OF w(2)]
    by (intro exI [of _ ?m] exI [of _ f])
      (auto simp: kbind_Ok get_word_def put_word_def fun_eq_iff upd_swap)
qed

lemma map_range_step:
  "map_range (map_range old first 1 pa perm) (Suc first) n (pa + PGSIZE) perm = map_range old first (Suc n) pa perm"
proof
  fix va
  show "map_range (map_range old first 1 pa perm) (Suc first) n (pa + PGSIZE) perm va =
      map_range old first (Suc n) pa perm va"
  proof (cases "Suc first \<le> vpn va")
    case True
    then obtain d where d: "vpn va = Suc first + d" using le_Suc_ex by blast
    have "pa + PGSIZE + word_of_nat d * PGSIZE = pa + word_of_nat (Suc d) * PGSIZE"
      by (simp add: distrib_right)
    moreover have "vpn va - first = Suc d" "vpn va - Suc first = d" using d by simp_all
    ultimately show ?thesis using d by (simp only: map_range_def) simp
  next
    case False
    then have "vpn va = first \<or> vpn va < first" by linarith
    then show ?thesis by (auto simp: map_range_def)
  qed
qed

lemma map_range_below: "vpn va \<noteq> first \<Longrightarrow> map_range old first (Suc 0) pa perm va = old va"
  by (auto simp: map_range_def)

text \<open>The page tables a range of pages needs.\<close>

definition need :: "nat \<Rightarrow> nat \<Rightarrow> nat set" where
  "need first n = (\<lambda>k. k div 1024) ` {first..<first + n}"

lemma need_Suc: "need first (Suc n) = insert (first div 1024) (need (Suc first) n)"
proof -
  have "{first..<first + Suc n} = insert first {Suc first..<Suc first + n}" by auto
  then show ?thesis by (simp add: need_def)
qed

lemma need_finite [simp]: "finite (need first n)"
  by (simp add: need_def)

lemma need_card: "card (need first n) \<le> n"
  using card_image_le [of "{first..<first + n}" "\<lambda>k. k div 1024"] by (simp add: need_def)

lemma need_step: "need first (Suc n) - T =
  (if first div 1024 \<in> T then need (Suc first) n - T else insert (first div 1024) (need (Suc first) n - insert (first div 1024) T))"
  by (auto simp: need_Suc)

lemma card_need_step: "card (need first (Suc n) - T) =
  (if first div 1024 \<in> T then 0 else 1) + card (need (Suc first) n - insert (first div 1024) T)"
  unfolding need_step by (auto simp: insert_absorb)

lemma mappages_loop_spec:
  assumes "pgdir_ok s pgdir fs" "card (need (vpn a) (Suc k) - tables (mem s) pgdir) \<le> length fs" "unat a + k * PAGE < 2 ^ 32"
    and "\<And>va. vpn a \<le> vpn va \<Longrightarrow> vpn va \<le> vpn a + k \<Longrightarrow> pte_of (mem s) pgdir va AND PTE_P = 0"
  shows "\<exists>m f. mappages_loop pgdir k a pa perm s = Ok 0 (s\<lparr>mem := m, freelist := f\<rparr>) \<and>
    grown s pgdir fs m f (drop (card (need (vpn a) (Suc k) - tables (mem s) pgdir)) fs) \<and>
    tables m pgdir = tables (mem s) pgdir \<union> need (vpn a) (Suc k) \<and>
    pte_of m pgdir = map_range (pte_of (mem s) pgdir) (vpn a) (Suc k) pa perm"
  using assms
proof (induction k arbitrary: a pa s fs)
  case 0
  let ?T = "tables (mem s) pgdir"
  have n1: "need (vpn a) (Suc 0) = {vpn a div 1024}" by (simp add: need_def)
  have c: "card (need (vpn a) (Suc 0) - ?T) = (if vpn a div 1024 \<in> ?T then 0 else 1)" unfolding n1 by (simp add: insert_Diff_if)
  have ne: "vpn a div 1024 \<in> ?T \<or> fs \<noteq> []" using 0(2) unfolding c by (auto split: if_splits)
  have new: "pte_of (mem s) pgdir a AND PTE_P = 0" using 0 by simp
  from map_one [OF 0(1) ne new, where g = "\<lambda>_. ret 0" and pa = pa and perm = perm] obtain m f where w:
    "mappages_loop pgdir 0 a pa perm s = ret 0 (s\<lparr>mem := m, freelist := f\<rparr>)"
    "grown s pgdir fs m f (if vpn a div 1024 \<in> ?T then fs else tl fs)" "tables m pgdir = insert (vpn a div 1024) ?T"
    "pte_of m pgdir = map_range (pte_of (mem s) pgdir) (vpn a) 1 pa perm"
    unfolding mappages_loop.simps by blast
  then show ?case unfolding c by (intro exI [of _ m] exI [of _ f]) (simp add: n1 ret_def drop_Suc split: if_splits)
next
  case (Suc k)
  let ?T = "tables (mem s) pgdir" and ?i = "vpn a div 1024"
  let ?fs = "if ?i \<in> ?T then fs else tl fs"
  have nx: "vpn (a + PGSIZE) = Suc (vpn a)" "unat (a + PGSIZE) = unat a + PAGE"
    using vpn_next [of a] Suc.prems(3) by auto
  note c = card_need_step [of "vpn a" "Suc k" ?T]
  have ne: "?i \<in> ?T \<or> fs \<noteq> []" using Suc.prems(2) unfolding c by (auto split: if_splits)
  have new: "pte_of (mem s) pgdir a AND PTE_P = 0" using Suc.prems(4) by simp
  from map_one [OF Suc.prems(1) ne new, where g = "\<lambda>_. mappages_loop pgdir k (a + PGSIZE) (pa + PGSIZE) perm"
      and pa = pa and perm = perm] obtain m f where w:
    "mappages_loop pgdir (Suc k) a pa perm s = mappages_loop pgdir k (a + PGSIZE) (pa + PGSIZE) perm (s\<lparr>mem := m, freelist := f\<rparr>)"
    "grown s pgdir fs m f ?fs" "tables m pgdir = insert ?i ?T"
    "pte_of m pgdir = map_range (pte_of (mem s) pgdir) (vpn a) 1 pa perm"
    unfolding mappages_loop.simps by blast
  let ?s = "s\<lparr>mem := m, freelist := f\<rparr>"
  let ?n = "card (need (Suc (vpn a)) (Suc k) - insert ?i ?T)"
  have "\<exists>m' f'. mappages_loop pgdir k (a + PGSIZE) (pa + PGSIZE) perm ?s = Ok 0 (?s\<lparr>mem := m', freelist := f'\<rparr>) \<and>
    grown ?s pgdir ?fs m' f' (drop (card (need (vpn (a + PGSIZE)) (Suc k) - tables (mem ?s) pgdir)) ?fs) \<and>
    tables m' pgdir = tables (mem ?s) pgdir \<union> need (vpn (a + PGSIZE)) (Suc k) \<and>
    pte_of m' pgdir = map_range (pte_of (mem ?s) pgdir) (vpn (a + PGSIZE)) (Suc k) (pa + PGSIZE) perm"
  proof (rule Suc.IH)
    show "pgdir_ok ?s pgdir ?fs" using w(2) by (simp add: grown_def)
    show "card (need (vpn (a + PGSIZE)) (Suc k) - tables (mem ?s) pgdir) \<le> length ?fs"
      using Suc.prems(2) w(3) unfolding nx c by (auto split: if_splits)
    show "unat (a + PGSIZE) + k * PAGE < 2 ^ 32" using nx Suc.prems(3) by simp
    fix va assume "vpn (a + PGSIZE) \<le> vpn va" "vpn va \<le> vpn (a + PGSIZE) + k"
    then show "pte_of (mem ?s) pgdir va AND PTE_P = 0"
      using nx Suc.prems(4) [of va] w(4) by (simp add: map_range_below)
  qed
  then obtain m' f' where r: "mappages_loop pgdir k (a + PGSIZE) (pa + PGSIZE) perm ?s = Ok 0 (s\<lparr>mem := m', freelist := f'\<rparr>)"
    "grown ?s pgdir ?fs m' f' (drop ?n ?fs)" "tables m' pgdir = insert ?i ?T \<union> need (Suc (vpn a)) (Suc k)"
    "pte_of m' pgdir = map_range (pte_of m pgdir) (Suc (vpn a)) (Suc k) (pa + PGSIZE) perm"
    unfolding nx by (auto simp: w(3))
  have "drop ?n ?fs = drop (card (need (vpn a) (Suc (Suc k)) - ?T)) fs" unfolding c by (simp add: drop_Suc)
  moreover have "tables m' pgdir = ?T \<union> need (vpn a) (Suc (Suc k))" unfolding r(3) need_Suc [of "vpn a"] by auto
  moreover have "pte_of m' pgdir = map_range (pte_of (mem s) pgdir) (vpn a) (Suc (Suc k)) pa perm"
    unfolding r(4) w(4) map_range_step ..
  ultimately show ?case using r(1) w(1) grown_trans [OF w(2) r(2)] by (intro exI [of _ m'] exI [of _ f']) simp
qed

lemma mappages_run:
  assumes ok: "pgdir_ok s pgdir fs" and sz: "0 < unat sz" "unat va + unat sz \<le> 2 ^ 32"
  defines "N \<equiv> need (vpn va) (Suc (vpn (va + sz - 1) - vpn va))"
  assumes enough: "card (N - tables (mem s) pgdir) \<le> length fs"
    and new: "\<And>a. vpn va \<le> vpn a \<Longrightarrow> vpn a \<le> vpn (va + sz - 1) \<Longrightarrow> pte_of (mem s) pgdir a AND PTE_P = 0"
  shows "\<exists>m f. mappages pgdir va sz pa perm s = Ok 0 (s\<lparr>mem := m, freelist := f\<rparr>) \<and>
    grown s pgdir fs m f (drop (card (N - tables (mem s) pgdir)) fs) \<and> tables m pgdir = tables (mem s) pgdir \<union> N \<and>
    (\<forall>a. pte_of m pgdir a =
      (if vpn va \<le> vpn a \<and> vpn a \<le> vpn (va + sz - 1)
       then ((pa + word_of_nat (vpn a - vpn va) * PGSIZE) OR perm) OR PTE_P else pte_of (mem s) pgdir a))"
proof -
  have lo: "unat (PGROUNDDOWN w) = vpn w * PAGE" for w by (simp add: unat_PGROUNDDOWN vpn_def)
  have vd: "vpn (PGROUNDDOWN w) = vpn w" for w unfolding vpn_def [of "PGROUNDDOWN w"] lo by simp
  have "unat (va + sz - 1) = unat va + unat sz - 1"
  proof -
    have s1: "unat (sz - 1) = unat sz - 1" using sz(1) by (intro unat_minus_one) auto
    have "unat va + unat (sz - 1) < 2 ^ 32" using s1 sz by linarith
    then have "unat (va + (sz - 1)) = unat va + unat (sz - 1)"
      using unat_add_lem [of va "sz - 1"] by simp
    then show ?thesis using s1 sz(1) by (simp add: add_diff_eq)
  qed
  then have le: "vpn va \<le> vpn (va + sz - 1)" using sz(1) by (simp add: vpn_def div_le_mono)
  let ?k = "vpn (va + sz - 1) - vpn va"
  have "PGROUNDDOWN va \<le> PGROUNDDOWN (va + sz - 1)" using le by (simp add: word_le_nat_alt lo)
  then have "unat (PGROUNDDOWN (va + sz - 1) - PGROUNDDOWN va) = ?k * PAGE"
    by (simp add: unat_sub lo diff_mult_distrib)
  then have run: "mappages pgdir va sz pa perm = mappages_loop pgdir ?k (PGROUNDDOWN va) pa perm"
    by (simp add: mappages_def Let_def)
  have top: "unat (PGROUNDDOWN va) + ?k * PAGE < 2 ^ 32"
  proof -
    have "unat (PGROUNDDOWN va) + ?k * PAGE = unat (PGROUNDDOWN (va + sz - 1))" using le
      by (simp add: lo add_mult_distrib [symmetric])
    then show ?thesis using unsigned_less [of "PGROUNDDOWN (va + sz - 1)"] by simp
  qed
  obtain m f where w:
    "mappages_loop pgdir ?k (PGROUNDDOWN va) pa perm s = Ok 0 (s\<lparr>mem := m, freelist := f\<rparr>)"
    "grown s pgdir fs m f (drop (card (N - tables (mem s) pgdir)) fs)" "tables m pgdir = tables (mem s) pgdir \<union> N"
    "pte_of m pgdir = map_range (pte_of (mem s) pgdir) (vpn va) (Suc ?k) pa perm"
    using mappages_loop_spec [OF ok _ top, of pa perm] enough new le unfolding vd N_def by auto
  have "pte_of m pgdir a =
      (if vpn va \<le> vpn a \<and> vpn a \<le> vpn (va + sz - 1)
       then ((pa + word_of_nat (vpn a - vpn va) * PGSIZE) OR perm) OR PTE_P else pte_of (mem s) pgdir a)" for a
  proof -
    have "vpn a < vpn va + Suc ?k \<longleftrightarrow> vpn a \<le> vpn (va + sz - 1)" using le by linarith
    then show ?thesis unfolding w(4) map_range_def by simp
  qed
  with w(1-3) show ?thesis unfolding run by blast
qed

text \<open>C19: \<open>mappages\<close> refines the update of the abstract map.  For a range that does not wrap
  around, none of whose pages is mapped, and a free page for each page table that the range needs and
  the directory has not, it returns 0 and afterwards page \<open>i\<close> of the range is mapped to page \<open>i\<close> of the
  physical range with the given permissions and every other entry is what it was; exactly the missing
  tables have been taken from the free list, and the page directory, its tables and the free list are
  still disjoint; and no byte outside of their pages has changed.\<close>

theorem mappages_maps:
  assumes "pgdir_ok s pgdir fs" "0 < unat sz" "unat va + unat sz \<le> 2 ^ 32"
    and "n = card (need (vpn va) (Suc (vpn (va + sz - 1) - vpn va)) - tables (mem s) pgdir)" "n \<le> length fs"
    and "\<And>a. vpn va \<le> vpn a \<Longrightarrow> vpn a \<le> vpn (va + sz - 1) \<Longrightarrow> pte_of (mem s) pgdir a AND PTE_P = 0"
  shows "\<exists>m f. mappages pgdir va sz pa perm s = Ok 0 (s\<lparr>mem := m, freelist := f\<rparr>) \<and>
    pgdir_ok (s\<lparr>mem := m, freelist := f\<rparr>) pgdir (drop n fs) \<and>
    (\<forall>a. pte_of m pgdir a =
      (if vpn va \<le> vpn a \<and> vpn a \<le> vpn (va + sz - 1)
       then ((pa + word_of_nat (vpn a - vpn va) * PGSIZE) OR perm) OR PTE_P else pte_of (mem s) pgdir a)) \<and>
    (\<forall>y. outside (owned (mem s) pgdir fs) y \<longrightarrow> m y = mem s y)"
  using mappages_run [OF assms(1-3) _ assms(6), folded assms(4), OF assms(5), of pa perm] unfolding grown_def by blast

text \<open>An empty page directory with two free pages.\<close>

definition demo_vm :: kmem_state where
  "demo_vm = demo_kmem\<lparr>mem := store32 (\<lambda>a. 0) (KBASE + 12288) (KBASE + 16384), freelist := KBASE + 12288\<rparr>"

lemma load32_zeroes: "load32 (\<lambda>a. 0) x = 0"
proof -
  have "load (\<lambda>a. 0) x 4 = replicate 4 0" by (rule nth_equalityI) (simp_all add: load_def ptr_def)
  then show ?thesis by (simp add: load32_def dec_le_zero)
qed

lemma demo_vm_tables:
  assumes "i < 1024"
  shows "ldw (mem demo_vm) (KBASE + 8192 + 4 * i) = 0" "table_of (mem demo_vm) (KBASE + 8192) i = 0"
proof -
  have "load32 (mem demo_vm) (KBASE + 8192 + 4 * i) = 0"
    using assms by (simp add: demo_vm_def load32_store32_other load32_zeroes)
  then show w: "ldw (mem demo_vm) (KBASE + 8192 + 4 * i) = 0" by (simp add: ldw_def)
  show "table_of (mem demo_vm) (KBASE + 8192) i = 0" using w by (simp add: table_of_def)
qed

lemma demo_vm_ok: "pgdir_ok demo_vm (KBASE + 8192) [KBASE + 12288, KBASE + 16384]"
proof -
  have "load32 (mem demo_vm) (KBASE + 12288) = KBASE + 16384" "load32 (mem demo_vm) (KBASE + 16384) = 0"
    by (simp_all add: demo_vm_def load32_store32_same load32_store32_other load32_zeroes)
  then have "kmem_ready demo_vm [KBASE + 12288, KBASE + 16384]"
    by (simp add: kmem_ready_def free_pages_def page_ok_def) (simp add: demo_vm_def demo_kmem_def)
  moreover have "page_ok demo_vm (KBASE + 8192)" by (simp add: page_ok_def demo_vm_def demo_kmem_def)
  ultimately show ?thesis using demo_vm_tables unfolding pgdir_ok_def Let_def by simp
qed

lemma demo_vm_empty: "pte_of (mem demo_vm) (KBASE + 8192) a = 0"
proof -
  have "KBASE + 8192 + 4 * unat (PDX a) + 4 \<le> KBASE + 12288" using pdx_less(1) [of a] by linarith
  then have "load32 (mem demo_vm) (KBASE + 8192 + 4 * unat (PDX a)) = 0"
    unfolding demo_vm_def by (simp del: add_le_cancel_left add: load32_store32_other [OF disjI1] load32_zeroes)
  then show ?thesis by (simp add: pte_of_def pte_addr_def table_of_def ldw_def)
qed

theorem mappages_maps_witness:
  "\<exists>m f. mappages (KBASE + 8192) 0x1000 0x1800 0x5000 PTE_W demo_vm = Ok 0 (demo_vm\<lparr>mem := m, freelist := f\<rparr>) \<and>
    pte_of m (KBASE + 8192) 0x2abc = 0x6003 \<and> pte_of m (KBASE + 8192) 0x3000 = 0 \<and> m KBASE = mem demo_vm KBASE"
proof -
  let ?n = "card (need (vpn 0x1000) (Suc (vpn (0x1000 + 0x1800 - 1) - vpn 0x1000)) - tables (mem demo_vm) (KBASE + 8192))"
  have v: "vpn 0x1000 = 1" "vpn (0x1000 + 0x1800 - 1) = 2" by (simp_all add: vpn_def)
  have n2: "?n \<le> 2" unfolding v by (rule order_trans [OF card_mono [OF _ Diff_subset]]) (simp_all add: need_card [THEN order_trans])
  have "\<exists>m f. mappages (KBASE + 8192) 0x1000 0x1800 0x5000 PTE_W demo_vm = Ok 0 (demo_vm\<lparr>mem := m, freelist := f\<rparr>) \<and>
    pgdir_ok (demo_vm\<lparr>mem := m, freelist := f\<rparr>) (KBASE + 8192) (drop ?n [KBASE + 12288, KBASE + 16384]) \<and>
    (\<forall>a. pte_of m (KBASE + 8192) a =
      (if vpn 0x1000 \<le> vpn a \<and> vpn a \<le> vpn (0x1000 + 0x1800 - 1)
       then ((0x5000 + word_of_nat (vpn a - vpn 0x1000) * PGSIZE) OR PTE_W) OR PTE_P
       else pte_of (mem demo_vm) (KBASE + 8192) a)) \<and>
    (\<forall>y. outside (owned (mem demo_vm) (KBASE + 8192) [KBASE + 12288, KBASE + 16384]) y \<longrightarrow> m y = mem demo_vm y)"
    by (rule mappages_maps [OF demo_vm_ok _ _ refl]) (use n2 in \<open>simp_all add: demo_vm_empty [simplified]\<close>)
  then obtain m f where r: "mappages (KBASE + 8192) 0x1000 0x1800 0x5000 PTE_W demo_vm = Ok 0 (demo_vm\<lparr>mem := m, freelist := f\<rparr>)"
    "\<And>a. pte_of m (KBASE + 8192) a =
      (if vpn 0x1000 \<le> vpn a \<and> vpn a \<le> vpn (0x1000 + 0x1800 - 1)
       then ((0x5000 + word_of_nat (vpn a - vpn 0x1000) * PGSIZE) OR PTE_W) OR PTE_P
       else pte_of (mem demo_vm) (KBASE + 8192) a)"
    "\<And>y. outside (owned (mem demo_vm) (KBASE + 8192) [KBASE + 12288, KBASE + 16384]) y \<Longrightarrow> m y = mem demo_vm y" by blast
  have "pte_of m (KBASE + 8192) 0x2abc = 0x6003" "pte_of m (KBASE + 8192) 0x3000 = 0"
    unfolding r(2) by (simp_all add: vpn_def demo_vm_empty [simplified] PGSIZE_def PTE_W_def PTE_P_def)
  moreover have "m KBASE = mem demo_vm KBASE"
  proof (rule r(3))
    have "tables (mem demo_vm) (KBASE + 8192) = {}" by (auto simp: tables_def demo_vm_tables [simplified])
    then show "outside (owned (mem demo_vm) (KBASE + 8192) [KBASE + 12288, KBASE + 16384]) KBASE"
      by (simp add: outside_def owned_def)
  qed
  ultimately show ?thesis using r(1) by blast
qed

end
