(* ===== verification/VmUser.thy ===== *)
theory VmUser
  imports VmProps
begin

text \<open>
  User memory.  \<open>frame_of\<close> and \<open>ubyte\<close> are what a process sees through its page directory.  \<open>setupkvm\<close> makes a
  directory with the kernel's mappings and an empty user part, and \<open>copyuvm\<close> gives a child a copy of its
  parent's memory in pages of its own.
\<close>

section \<open>The view of an address space\<close>

definition frame_of :: "memory \<Rightarrow> nat \<Rightarrow> uint \<Rightarrow> nat" where
  "frame_of m pgdir va = unat (p2v (PTE_ADDR (pte_of m pgdir va)))"

definition ubyte :: "memory \<Rightarrow> nat \<Rightarrow> uint \<Rightarrow> byte" where
  "ubyte m pgdir va = m (frame_of m pgdir va + unat va mod PAGE)"

text \<open>Page \<open>k\<close> of the user part begins at this address.\<close>

definition upage :: "nat \<Rightarrow> uint" where
  "upage k = word_of_nat (k * PAGE)"

lemma unat_upage: "k < 2 ^ 20 \<Longrightarrow> unat (upage k) = k * PAGE"
  by (simp only: upage_def unat_of_nat) simp

lemma vpn_upage: "k < 2 ^ 20 \<Longrightarrow> vpn (upage k) = k"
  by (simp add: vpn_def unat_upage)

lemma vpn_less: "vpn va < 2 ^ 20"
proof -
  have "unat va < 2 ^ 32" using unsigned_less [of va] by simp
  then show ?thesis by (simp add: vpn_def less_mult_imp_div_less)
qed

lemma pte_of_upage: "pte_of m pgdir va = pte_of m pgdir (upage (vpn va))"
  using vpn_upage [OF vpn_less [of va]] by (intro pte_of_page) simp

text \<open>Memories that agree on some pages.\<close>

definition same_on :: "nat set \<Rightarrow> memory \<Rightarrow> memory \<Rightarrow> bool" where
  "same_on P m m' \<longleftrightarrow> (\<forall>q \<in> P. \<forall>y. q \<le> y \<and> y < q + PAGE \<longrightarrow> m' y = m y)"

lemma same_onD: "same_on P m m' \<Longrightarrow> q \<in> P \<Longrightarrow> q \<le> y \<Longrightarrow> y < q + PAGE \<Longrightarrow> m' y = m y"
  by (simp add: same_on_def)

lemma same_on_mono: "same_on P m m' \<Longrightarrow> Q \<subseteq> P \<Longrightarrow> same_on Q m m'"
  by (auto simp: same_on_def)

lemma same_on_load: "same_on P m m' \<Longrightarrow> q \<in> P \<Longrightarrow> n \<le> PAGE \<Longrightarrow> load m' q n = load m q n"
  by (intro load_cong) (auto simp: same_on_def)

lemma pages_alike:
  assumes "same_on (insert d (table_of m d ` tables m d)) m m'"
  shows "i < 1024 \<Longrightarrow> ldw m' (d + 4 * i) = ldw m (d + 4 * i)" "i < 1024 \<Longrightarrow> table_of m' d i = table_of m d i"
    "pte_of m' d = pte_of m d" "tables m' d = tables m d"
proof -
  have w: "ldw m' (q + 4 * j) = ldw m (q + 4 * j)" if "q \<in> insert d (table_of m d ` tables m d)" "j < 1024" for q j
    using same_onD [OF assms that(1)] that(2) unfolding ldw_def load32_def by (intro arg_cong [where f = word_of_nat] arg_cong [where f = dec_le] load_cong) simp
  show "ldw m' (d + 4 * i) = ldw m (d + 4 * i)" if "i < 1024" for i using w that by blast
  then show t: "table_of m' d i = table_of m d i" if "i < 1024" for i using table_of_cong that by blast
  show "tables m' d = tables m d" using t by (auto simp: tables_def)
  show "pte_of m' d = pte_of m d"
  proof
    fix va
    let ?i = "unat (PDX va)"
    show "pte_of m' d va = pte_of m d va"
    proof (cases "table_of m d ?i = 0")
      case False
      then have "table_of m d ?i \<in> insert d (table_of m d ` tables m d)" by (simp add: tables_def)
      then have "ldw m' (table_of m d ?i + 4 * unat (PTX va)) = ldw m (table_of m d ?i + 4 * unat (PTX va))" by (rule w) simp
      then show ?thesis using t [of ?i] False by (simp add: pte_of_def pte_addr_def)
    qed (use t [of ?i] in \<open>simp add: pte_of_def pte_addr_def\<close>)
  qed
qed

lemma not_outside: "q \<in> P \<Longrightarrow> q \<le> y \<Longrightarrow> y < q + PAGE \<Longrightarrow> \<not> outside P y"
  by (auto simp: outside_def not_less not_le)

lemma pages_outside:
  assumes "q mod PAGE = 0" "\<forall>p \<in> P. p mod PAGE = 0" "q \<notin> P" "q \<le> y" "y < q + PAGE"
  shows "outside P y"
  unfolding outside_def
proof
  fix p assume p: "p \<in> P"
  then have "p mod PAGE = 0" "q \<noteq> p" using assms(2,3) by auto
  then show "y < p \<or> p + PAGE \<le> y" using pages_apart [OF assms(1), of p] assms(4,5) by linarith
qed

lemma same_on_outside:
  assumes "\<forall>q \<in> Q. q mod PAGE = 0 \<and> q \<notin> P" "\<forall>p \<in> P. p mod PAGE = 0" "\<forall>y. outside P y \<longrightarrow> m' y = m y"
  shows "same_on Q m m'"
  unfolding same_on_def
proof (intro ballI allI impI)
  fix q y assume "q \<in> Q" "q \<le> y \<and> y < q + PAGE"
  then have "outside P y" using pages_outside [of q P y] assms(1,2) by simp
  then show "m' y = m y" using assms(3) by blast
qed

lemma owned_aligned: "pgdir_ok s d fs \<Longrightarrow> \<forall>p \<in> owned (mem s) d fs. p mod PAGE = 0"
proof
  fix p
  assume ok: "pgdir_ok s d fs" and p: "p \<in> owned (mem s) d fs"
  then consider "p = d" | i where "i < 1024" "table_of (mem s) d i = p" "p \<noteq> 0" | "p \<in> set fs"
    by (auto simp: owned_def tables_def)
  then show "p mod PAGE = 0"
  proof cases
    case 1
    then show ?thesis using pgdir_okD(4) [OF ok] by simp
  next
    case 2
    then show ?thesis using pgdir_okD(6) [OF ok 2] by simp
  next
    case 3
    then show ?thesis using ready_page [OF pgdir_okD(1) [OF ok]] page_okD(1) by blast
  qed
qed

text \<open>An entry for a page of kernel memory leads back to it.\<close>

lemma pte_of_frame:
  assumes "page_ok s v" "PTE_ADDR perm = 0"
  shows "unat (p2v (PTE_ADDR ((v2p (word_of_nat v) OR perm) OR PTE_P))) = v" "((v2p (word_of_nat v) OR perm) OR PTE_P) AND PTE_P \<noteq> 0"
proof -
  have "PTE_ADDR ((v2p (word_of_nat v) OR perm) OR PTE_P) = PTE_ADDR (((v2p (word_of_nat v) OR PTE_P) OR PTE_W) OR PTE_U)"
    by (simp add: PTE_ADDR_or assms(2))
  then show "unat (p2v (PTE_ADDR ((v2p (word_of_nat v) OR perm) OR PTE_P))) = v" using pde_of_page(1) [OF assms(1)] by simp
  have "bit (((v2p (word_of_nat v) OR perm) OR PTE_P) AND PTE_P) 0" by (simp add: bit_simps PTE_P_def)
  then show "((v2p (word_of_nat v) OR perm) OR PTE_P) AND PTE_P \<noteq> 0" by (metis bit_0_eq bot_apply bot_bool_def)
qed

lemma PTE_ADDR_FLAGS [simp]: "PTE_ADDR (PTE_FLAGS e) = 0"
  by (rule word_unat_eq_iff [THEN iffD2]) (simp add: unat_PTE_ADDR unat_PTE_FLAGS)

text \<open>The pages of an address space with \<open>n\<close> user pages.\<close>

definition space :: "memory \<Rightarrow> nat \<Rightarrow> nat \<Rightarrow> nat set" where
  "space m p n = insert p (table_of m p ` tables m p \<union> (\<lambda>k. frame_of m p (upage k)) ` {..<n})"

lemma space_alike:
  assumes "same_on (space m p n) m m'"
  shows "pte_of m' p = pte_of m p" "space m' p n = space m p n" "tables m' p = tables m p"
proof -
  have "same_on (insert p (table_of m p ` tables m p)) m m'" by (rule same_on_mono [OF assms]) (auto simp: space_def)
  note a = pages_alike [OF this]
  show "pte_of m' p = pte_of m p" "tables m' p = tables m p" by (rule a(3) a(4))+
  moreover have "table_of m' p ` tables m p = table_of m p ` tables m p"
    by (rule image_cong [OF refl]) (simp add: a(2) tables_def)
  ultimately show "space m' p n = space m p n" by (simp add: space_def frame_of_def)
qed

section \<open>Taking a page\<close>

text \<open>The first free page is taken and filled; the directory is as before.\<close>

lemma take_page:
  assumes ok: "pgdir_ok s d (v # fs)" and m: "\<And>y. y < v \<or> v + PAGE \<le> y \<Longrightarrow> m y = mem s y"
  shows "kalloc s = Ok v (s\<lparr>freelist := load32 (mem s) v\<rparr>)" "page_ok s v" "v \<noteq> 0"
    "pgdir_ok (s\<lparr>mem := m, freelist := load32 (mem s) v\<rparr>) d fs" "owned m d fs \<subseteq> owned (mem s) d (v # fs)"
    "v \<notin> owned m d fs" "tables m d = tables (mem s) d" "pte_of m d = pte_of (mem s) d"
proof -
  note o = pgdir_okD [OF ok]
  have k: "kmem_ready (s\<lparr>freelist := load32 (mem s) v\<rparr>) fs" "v \<notin> set fs" and v: "page_ok s v"
    using kalloc_page [OF o(1)] by auto
  show "kalloc s = Ok v (s\<lparr>freelist := load32 (mem s) v\<rparr>)" using kalloc_page [OF o(1)] by simp
  show "page_ok s v" "v \<noteq> 0" using v by (auto simp: page_ok_def)
  have va: "v mod PAGE = 0" using v by (simp add: page_ok_def)
  have P: "q mod PAGE = 0 \<and> q \<noteq> v" if q: "q \<in> insert d (table_of (mem s) d ` tables (mem s) d)" for q
    using q o(3,4) o(6) by (auto simp: tables_def)
  have alike: "m y = mem s y" if "q mod PAGE = 0 \<and> q \<noteq> v" "q \<le> y" "y < q + PAGE" for q y
  proof -
    have "q + PAGE \<le> v \<or> v + PAGE \<le> q" using pages_apart [OF conjunct1 [OF that(1)] va] that(1) by simp
    then show ?thesis using that(2,3) by (intro m) linarith
  qed
  have "same_on (insert d (table_of (mem s) d ` tables (mem s) d)) (mem s) m"
    unfolding same_on_def using alike [OF P] by blast
  note a = pages_alike [OF this]
  show t: "tables m d = tables (mem s) d" and "pte_of m d = pte_of (mem s) d" by (rule a(3) a(4))+
  have tab: "table_of m d ` tables m d = table_of (mem s) d ` tables (mem s) d"
    unfolding t by (rule image_cong [OF refl]) (use a(2) in \<open>auto simp: tables_def\<close>)
  show "owned m d fs \<subseteq> owned (mem s) d (v # fs)" unfolding owned_def tab by auto
  show "v \<notin> owned m d fs" unfolding owned_def tab using P k(2) by auto
  have "load32 m x = load32 (mem s) x" if "x \<in> set fs" for x
  proof -
    have "x mod PAGE = 0 \<and> x \<noteq> v" using ready_page [OF o(1), of x] that k(2) page_okD by auto
    then show ?thesis unfolding load32_def by (intro arg_cong [where f = dec_le] load_cong) (simp add: alike)
  qed
  then have "kmem_ready (s\<lparr>mem := m, freelist := load32 (mem s) v\<rparr>) fs"
    using kmem_ready_mem [OF k(1), of m] by (simp add: upd_swap)
  then show "pgdir_ok (s\<lparr>mem := m, freelist := load32 (mem s) v\<rparr>) d fs"
    using ok a(1,2) unfolding pgdir_ok_def Let_def by (simp add: page_ok_def)
qed

text \<open>Mapping one page.\<close>

lemma map_page:
  assumes ok: "pgdir_ok s d fs" and k: "k < 2 ^ 20" and enough: "k div 1024 \<in> tables (mem s) d \<or> fs \<noteq> []"
    and new: "pte_of (mem s) d (upage k) AND PTE_P = 0"
  shows "\<exists>m f. mappages d (upage k) PGSIZE pa perm s = Ok 0 (s\<lparr>mem := m, freelist := f\<rparr>) \<and>
    grown s d fs m f (if k div 1024 \<in> tables (mem s) d then fs else tl fs) \<and> tables m d = insert (k div 1024) (tables (mem s) d) \<and>
    (\<forall>a. pte_of m d a = (if vpn a = k then (pa OR perm) OR PTE_P else pte_of (mem s) d a))"
proof -
  have P: "unat PGSIZE = PAGE" by (simp add: PGSIZE_def)
  have u: "unat (upage k) = k * PAGE" by (rule unat_upage [OF k])
  have b: "k * PAGE + PAGE \<le> 2 ^ 32" using k by simp
  have "unat (upage k + (PGSIZE - 1)) = k * PAGE + 4095"
    using u b by (subst unat_add_lem [THEN iffD1]) (simp_all add: PGSIZE_def)
  then have last: "vpn (upage k + PGSIZE - 1) = k" by (simp add: vpn_def add_diff_eq)
  have N: "need k (Suc (k - k)) = {k div 1024}" by (simp add: need_def)
  have c: "card ({k div 1024} - tables (mem s) d) = (if k div 1024 \<in> tables (mem s) d then 0 else 1)"
    by (simp add: insert_Diff_if)
  have "\<exists>m f. mappages d (upage k) PGSIZE pa perm s = Ok 0 (s\<lparr>mem := m, freelist := f\<rparr>) \<and>
    grown s d fs m f (drop (card ({k div 1024} - tables (mem s) d)) fs) \<and> tables m d = tables (mem s) d \<union> {k div 1024} \<and>
    (\<forall>a. pte_of m d a = (if k \<le> vpn a \<and> vpn a \<le> k then ((pa + word_of_nat (vpn a - k) * PGSIZE) OR perm) OR PTE_P else pte_of (mem s) d a))"
  proof (rule mappages_run [OF ok, of PGSIZE "upage k" pa perm, unfolded last vpn_upage [OF k] N])
    show "0 < unat PGSIZE" "unat (upage k) + unat PGSIZE \<le> 2 ^ 32" using b by (simp_all add: P u)
    show "card ({k div 1024} - tables (mem s) d) \<le> length fs" using enough unfolding c by (cases fs) auto
    fix a assume "k \<le> vpn a" "vpn a \<le> k"
    then have "vpn a = k" by simp
    then show "pte_of (mem s) d a AND PTE_P = 0" using new pte_of_upage [of "mem s" d a] by simp
  qed
  then show ?thesis unfolding c by (auto simp: drop_Suc split: if_splits)
qed

lemma walk_hit: "pte_of (mem s) p va AND PTE_P \<noteq> 0 \<Longrightarrow> walkpgdir p va alloc s = Ok (pte_addr (mem s) p va) s"
  "pte_of (mem s) p va AND PTE_P \<noteq> 0 \<Longrightarrow> pte_addr (mem s) p va \<noteq> 0 \<and> ldw (mem s) (pte_addr (mem s) p va) = pte_of (mem s) p va"
  by (auto simp: walkpgdir_def get_word_def pte_of_def pte_addr_def table_of_def Let_def ret_def split: if_splits)

section \<open>copyuvm\<close>

text \<open>What the loop has done for the pages from \<open>k\<close> on, with the pages \<open>gs\<close>.\<close>

definition copied :: "memory \<Rightarrow> memory \<Rightarrow> nat \<Rightarrow> nat \<Rightarrow> nat \<Rightarrow> nat list \<Rightarrow> bool" where
  "copied m0 m p d k gs \<longleftrightarrow> (\<forall>j < length gs.
     pte_of m d (upage (k + j)) = (v2p (word_of_nat (gs ! j)) OR PTE_FLAGS (pte_of m0 p (upage (k + j)))) OR PTE_P \<and>
     load m (gs ! j) PAGE = load m0 (frame_of m0 p (upage (k + j))) PAGE)"

lemma copyuvm_step:
  fixes s :: "'z kmem_state_scheme"
  assumes ok: "pgdir_ok s d (v # fs)" and k: "k < n" "n \<le> 2 ^ 19"
    and pr: "pte_of (mem s) p (upage k) AND PTE_P \<noteq> 0"
    and sp: "\<forall>q \<in> space (mem s) p n. q mod PAGE = 0 \<and> q \<notin> owned (mem s) d (v # fs)"
    and enough: "k div 1024 \<in> tables (mem s) d \<or> fs \<noteq> []"
    and new: "pte_of (mem s) d (upage k) AND PTE_P = 0"
    and sz: "k * PAGE < sz"
  defines "e \<equiv> pte_of (mem s) p (upage k)"
  shows "\<exists>m f. copyuvm_loop p d (k * PAGE) sz s = copyuvm_loop p d (Suc k * PAGE) sz (s\<lparr>mem := m, freelist := f\<rparr>) \<and>
    pgdir_ok (s\<lparr>mem := m, freelist := f\<rparr>) d (if k div 1024 \<in> tables (mem s) d then fs else tl fs) \<and>
    owned m d (if k div 1024 \<in> tables (mem s) d then fs else tl fs) \<subseteq> owned (mem s) d (v # fs) - {v} \<and>
    (\<forall>y. outside (owned (mem s) d (v # fs)) y \<longrightarrow> m y = mem s y) \<and> page_ok s v \<and>
    tables m d = insert (k div 1024) (tables (mem s) d) \<and> load m v PAGE = load (mem s) (frame_of (mem s) p (upage k)) PAGE \<and>
    (\<forall>a. pte_of m d a = (if vpn a = k then (v2p (word_of_nat v) OR PTE_FLAGS e) OR PTE_P else pte_of (mem s) d a))"
proof -
  let ?F = "frame_of (mem s) p (upage k)" and ?f1 = "load32 (mem s) v"
  let ?m1 = "memmove (mem s) v ?F PAGE"
  let ?s1 = "s\<lparr>mem := ?m1, freelist := ?f1\<rparr>"
  let ?fs = "if k div 1024 \<in> tables (mem s) d then fs else tl fs"
  have m1: "?m1 y = mem s y" if "y < v \<or> v + PAGE \<le> y" for y using that by (auto simp: memmove_eq)
  note t = take_page [OF ok m1]
  have k20: "k < 2 ^ 20" using k by simp
  obtain m f where w: "mappages d (upage k) PGSIZE (v2p (word_of_nat v)) (PTE_FLAGS e) ?s1 = Ok 0 (?s1\<lparr>mem := m, freelist := f\<rparr>)"
    "grown ?s1 d fs m f ?fs" "tables m d = insert (k div 1024) (tables (mem s) d)"
    "\<forall>a. pte_of m d a = (if vpn a = k then (v2p (word_of_nat v) OR PTE_FLAGS e) OR PTE_P else pte_of (mem s) d a)"
    using map_page [OF t(4) k20, of "v2p (word_of_nat v)" "PTE_FLAGS e"] enough new t(7,8) by auto
  have va: "v mod PAGE = 0" using t(2) by (simp add: page_ok_def)
  have run: "copyuvm_loop p d (k * PAGE) sz s = copyuvm_loop p d (Suc k * PAGE) sz (s\<lparr>mem := m, freelist := f\<rparr>)"
  proof -
    have w1: "mappages d (upage k) PGSIZE (v2p (word_of_nat v)) (PTE_FLAGS e)
        (s\<lparr>freelist := ?f1, mem := memmove (mem s) v (unat (p2v (PTE_ADDR e))) PAGE\<rparr>) = Ok 0 (s\<lparr>mem := m, freelist := f\<rparr>)"
      using w(1) by (simp add: e_def frame_of_def upd_swap)
    have h: "walkpgdir p (upage k) False s = Ok (pte_addr (mem s) p (upage k)) s" by (rule walk_hit(1) [OF pr])
    have g: "get_word (pte_addr (mem s) p (upage k)) s = Ok e s" using walk_hit(2) [OF pr] by (simp add: get_word_def e_def)
    have "copyuvm_loop p d (k * PAGE) sz s = copyuvm_loop p d (k * PAGE + PAGE) sz (s\<lparr>mem := m, freelist := f\<rparr>)"
      using sz pr walk_hit(2) [OF pr] t(3) unfolding e_def [symmetric]
      by (subst copyuvm_loop.simps, unfold upage_def [symmetric]) (simp add: kbind_Ok h g t(1) w1)
    then show ?thesis by (simp only: mult_Suc add.commute)
  qed
  have own: "owned m d ?fs \<subseteq> owned ?m1 d fs" using w(2) by (simp add: grown_def)
  have same: "m y = mem s y" if y: "outside (owned (mem s) d (v # fs)) y" for y
  proof -
    have "v \<in> owned (mem s) d (v # fs)" by (simp add: owned_def)
    then have "?m1 y = mem s y" using y by (intro m1) (auto simp: outside_def)
    moreover have "outside (owned ?m1 d fs) y" using y t(5) by (rule outside_mono)
    ultimately show ?thesis using w(2) by (simp add: grown_def)
  qed
  have "load m v PAGE = load ?m1 v PAGE"
  proof (rule load_cong)
    fix i assume "i < PAGE"
    then have "outside (owned ?m1 d fs) (v + i)"
      using pages_outside [OF va _ t(6)] owned_aligned [OF t(4)] by simp
    then show "m (v + i) = ?m1 (v + i)" using w(2) by (simp add: grown_def)
  qed
  also have "\<dots> = load (mem s) ?F PAGE" by (simp add: memmove_store load_store_same)
  finally have "load m v PAGE = load (mem s) ?F PAGE" .
  then show ?thesis using run w own t(2,5,6) same by (intro exI [of _ m] exI [of _ f]) (auto simp: grown_def)
qed

lemma copyuvm_loop_spec:
  fixes s :: "'z kmem_state_scheme"
  assumes "n \<le> 2 ^ 19" "\<forall>j. j * PAGE < sz \<longleftrightarrow> j < n"
  shows "k \<le> n \<Longrightarrow> pgdir_ok s d fs \<Longrightarrow> \<forall>j < n. pte_of (mem s) p (upage j) AND PTE_P \<noteq> 0 \<Longrightarrow>
    \<forall>q \<in> space (mem s) p n. q mod PAGE = 0 \<and> q \<notin> owned (mem s) d fs \<Longrightarrow>
    card (need k (n - k) - tables (mem s) d) + (n - k) \<le> length fs \<Longrightarrow>
    \<forall>j. k \<le> j \<and> j < n \<longrightarrow> pte_of (mem s) d (upage j) AND PTE_P = 0 \<Longrightarrow>
    \<exists>m f fs' gs. copyuvm_loop p d (k * PAGE) sz s = Ok True (s\<lparr>mem := m, freelist := f\<rparr>) \<and>
      pgdir_ok (s\<lparr>mem := m, freelist := f\<rparr>) d fs' \<and> owned m d fs' \<union> set gs \<subseteq> owned (mem s) d fs \<and> owned m d fs' \<inter> set gs = {} \<and>
      (\<forall>y. outside (owned (mem s) d fs) y \<longrightarrow> m y = mem s y) \<and>
      length gs = n - k \<and> distinct gs \<and> (\<forall>g \<in> set gs. page_ok s g) \<and> copied (mem s) m p d k gs \<and>
      (\<forall>a. \<not> (k \<le> vpn a \<and> vpn a < n) \<longrightarrow> pte_of m d a = pte_of (mem s) d a)"
proof (induction "n - k" arbitrary: k s fs)
  case 0
  then have "k = n" by simp
  then have "copyuvm_loop p d (k * PAGE) sz s = Ok True s" using assms(2) by (subst copyuvm_loop.simps) (simp add: ret_def)
  then show ?case using 0(3) \<open>k = n\<close>
    by (intro exI [of _ "mem s"] exI [of _ "freelist s"] exI [of _ fs] exI [of _ "[]"]) (auto simp: copied_def)
next
  case (Suc x)
  have k: "k < n" and x: "x = n - Suc k" using Suc.hyps(2) by simp_all
  let ?T = "tables (mem s) d" and ?i = "k div 1024"
  have c: "card (need k (n - k) - ?T) = (if ?i \<in> ?T then 0 else 1) + card (need (Suc k) (n - Suc k) - insert ?i ?T)"
    using card_need_step [of k x ?T] unfolding x [symmetric] Suc.hyps(2) [symmetric] by simp
  obtain v fs1 where fs: "fs = v # fs1" using Suc.prems(5) k by (cases fs) auto
  let ?fs = "if ?i \<in> ?T then fs1 else tl fs1"
  have enough: "?i \<in> ?T \<or> fs1 \<noteq> []" using Suc.prems(5) k unfolding c fs by (auto split: if_splits)
  let ?e = "pte_of (mem s) p (upage k)" and ?F = "\<lambda>j. frame_of (mem s) p (upage j)"
  have pr: "?e AND PTE_P \<noteq> 0" and new: "pte_of (mem s) d (upage k) AND PTE_P = 0" and lt: "k * PAGE < sz"
    using Suc.prems(3,6) k assms(2) by simp_all
  obtain m f where w: "copyuvm_loop p d (k * PAGE) sz s = copyuvm_loop p d (Suc k * PAGE) sz (s\<lparr>mem := m, freelist := f\<rparr>)"
    "pgdir_ok (s\<lparr>mem := m, freelist := f\<rparr>) d ?fs" "owned m d ?fs \<subseteq> owned (mem s) d fs - {v}"
    "\<forall>y. outside (owned (mem s) d fs) y \<longrightarrow> m y = mem s y" "page_ok s v" "tables m d = insert ?i ?T"
    "load m v PAGE = load (mem s) (?F k) PAGE"
    "\<forall>a. pte_of m d a = (if vpn a = k then (v2p (word_of_nat v) OR PTE_FLAGS ?e) OR PTE_P else pte_of (mem s) d a)"
    using copyuvm_step [OF Suc.prems(2) [unfolded fs] k assms(1) pr Suc.prems(4) [unfolded fs] enough new lt] unfolding fs by blast
  let ?s = "s\<lparr>mem := m, freelist := f\<rparr>"
  have al: "\<forall>q \<in> owned (mem s) d fs. q mod PAGE = 0" by (rule owned_aligned [OF Suc.prems(2)])
  have so: "same_on (space (mem s) p n) (mem s) m"
    by (rule same_on_outside [OF Suc.prems(4) al w(4)])
  note sa = space_alike [OF so]
  have Fl: "load m (?F j) PAGE = load (mem s) (?F j) PAGE" if "j < n" for j
    using same_on_load [OF so, of "?F j" PAGE] that by (simp add: space_def)
  have vp: "vpn (upage j) = j" if "j < n" for j using that assms(1) by (intro vpn_upage) simp
  obtain m' f' fs' gs where r: "copyuvm_loop p d (Suc k * PAGE) sz ?s = Ok True (?s\<lparr>mem := m', freelist := f'\<rparr>)"
    "pgdir_ok (?s\<lparr>mem := m', freelist := f'\<rparr>) d fs'" "owned m' d fs' \<union> set gs \<subseteq> owned m d ?fs" "owned m' d fs' \<inter> set gs = {}"
    "\<forall>y. outside (owned m d ?fs) y \<longrightarrow> m' y = m y" "length gs = n - Suc k" "distinct gs" "\<forall>g \<in> set gs. page_ok ?s g"
    "copied m m' p d (Suc k) gs" "\<forall>a. \<not> (Suc k \<le> vpn a \<and> vpn a < n) \<longrightarrow> pte_of m' d a = pte_of m d a"
  proof -
    have "\<forall>j < n. pte_of (mem ?s) p (upage j) AND PTE_P \<noteq> 0" using Suc.prems(3) sa(1) by simp
    moreover have "\<forall>q \<in> space (mem ?s) p n. q mod PAGE = 0 \<and> q \<notin> owned (mem ?s) d ?fs"
      using Suc.prems(4) w(3) sa(2) by auto
    moreover have "card (need (Suc k) (n - Suc k) - tables (mem ?s) d) + (n - Suc k) \<le> length ?fs"
      using Suc.prems(5) k enough w(6) unfolding c fs by (auto split: if_splits)
    moreover have "\<forall>j. Suc k \<le> j \<and> j < n \<longrightarrow> pte_of (mem ?s) d (upage j) AND PTE_P = 0"
      using Suc.prems(6) w(8) vp by simp
    ultimately show ?thesis using Suc.hyps(1) [of "Suc k" ?s ?fs] x k w(2) that by simp blast
  qed
  have va: "v mod PAGE = 0" and vo: "v \<in> owned (mem s) d fs" using w(5) by (auto simp: page_ok_def owned_def fs)
  have vno: "v \<notin> owned m d ?fs" using w(3) by blast
  have ow: "\<forall>p \<in> owned m d ?fs. p mod PAGE = 0" using owned_aligned [OF w(2)] by simp
  have "load m' v PAGE = load m v PAGE"
  proof (rule load_cong)
    fix i assume "i < PAGE"
    then have "outside (owned m d ?fs) (v + i)" by (intro pages_outside [OF va ow vno]) simp_all
    then show "m' (v + i) = m (v + i)" using r(5) by blast
  qed
  moreover have "pte_of m' d (upage k) = (v2p (word_of_nat v) OR PTE_FLAGS ?e) OR PTE_P"
    using r(10) w(8) vp [OF k] by simp
  moreover have "pte_of m' d (upage (Suc (k + j))) = (v2p (word_of_nat (gs ! j)) OR PTE_FLAGS (pte_of (mem s) p (upage (Suc (k + j))))) OR PTE_P \<and>
      load m' (gs ! j) PAGE = load (mem s) (?F (Suc (k + j))) PAGE" if "j < length gs" for j
    using r(9) that Fl [of "Suc (k + j)"] r(6) sa(1) by (simp add: copied_def frame_of_def)
  ultimately have "copied (mem s) m' p d k (v # gs)"
    using w(7) unfolding copied_def by (auto simp: nth_Cons split: nat.splits)
  moreover have "\<forall>y. outside (owned (mem s) d fs) y \<longrightarrow> m' y = mem s y"
  proof (intro allI impI)
    fix y assume y: "outside (owned (mem s) d fs) y"
    then have "outside (owned m d ?fs) y" by (rule outside_mono) (use w(3) in blast)
    then show "m' y = mem s y" using r(5) w(4) y by simp
  qed
  moreover have "owned m' d fs' \<union> set (v # gs) \<subseteq> owned (mem s) d fs" "owned m' d fs' \<inter> set (v # gs) = {}" "distinct (v # gs)"
    using r(3,4,7) w(3) vo by auto
  moreover have "\<forall>a. \<not> (k \<le> vpn a \<and> vpn a < n) \<longrightarrow> pte_of m' d a = pte_of (mem s) d a"
    using r(10) w(8) k by auto
  moreover have "\<forall>g \<in> set (v # gs). page_ok s g" using r(8) w(5) by (simp add: page_ok_def)
  ultimately show ?case using w(1) r(1,2,6) k
    by (intro exI [of _ m'] exI [of _ f'] exI [of _ fs'] exI [of _ "v # gs"]) simp
qed

section \<open>setupkvm\<close>

text \<open>The directory indices of the kernel's mappings.\<close>

definition kernel_tables :: "nat set" where
  "kernel_tables = {512..567} \<union> {1016..1023}"

lemma kernel_tables_card: "card kernel_tables = 64" "finite kernel_tables"
  by (simp_all add: kernel_tables_def card_Un_disjoint)

lemma zero_dir:
  assumes k: "kmem_ready s (v # fs)"
  shows "let m = memset (mem s) v 0 PAGE; t = s\<lparr>mem := m, freelist := load32 (mem s) v\<rparr> in
    kalloc s = Ok v (s\<lparr>freelist := load32 (mem s) v\<rparr>) \<and> v \<noteq> 0 \<and> pgdir_ok t v fs \<and> tables m v = {} \<and> (\<forall>a. pte_of m v a = 0)"
proof -
  let ?m = "memset (mem s) v 0 PAGE"
  have ka: "kalloc s = Ok v (s\<lparr>freelist := load32 (mem s) v\<rparr>)" "kmem_ready (s\<lparr>freelist := load32 (mem s) v\<rparr>) fs"
    and v: "page_ok s v" "v \<notin> set fs" using kalloc_page [OF k] by auto
  have vm: "v mod PAGE = 0" "v \<noteq> 0" using v(1) by (auto simp: page_ok_def)
  have z: "ldw ?m (v + 4 * i) = 0" if "i < 1024" for i using ldw_zero_entry [OF vm(1) vm(1) that] by simp
  have t: "table_of ?m v i = 0" if "i < 1024" for i using z [OF that] by (simp add: table_of_def)
  have "load32 ?m x = load32 (mem s) x" if "x \<in> set fs" for x
  proof -
    have x: "x mod PAGE = 0" "x \<noteq> v" using ready_page [OF k, of x] that v(2) page_okD by auto
    show ?thesis using pages_apart [OF x(1) vm(1) x(2)] by (auto simp: load32_memset_other)
  qed
  then have "kmem_ready (s\<lparr>mem := ?m, freelist := load32 (mem s) v\<rparr>) fs"
    using kmem_ready_mem [OF ka(2), of ?m] by (simp add: upd_swap)
  then have "pgdir_ok (s\<lparr>mem := ?m, freelist := load32 (mem s) v\<rparr>) v fs"
    using v z t unfolding pgdir_ok_def Let_def by (simp add: page_ok_def)
  then show ?thesis using ka(1) vm(2) t by (auto simp: Let_def tables_def pte_of_def pte_addr_def)
qed

text \<open>One line of \<open>kmap\<close>: its tables are among those of the kernel, as many free pages are left as the
  directory still lacks tables.\<close>

lemma kmap_line:
  fixes s :: "'z kmem_state_scheme"
  assumes ok: "pgdir_ok s d (drop (card (tables (mem s) d)) fs)" and T: "tables (mem s) d \<subseteq> kernel_tables" and len: "64 \<le> length fs"
    and sz: "0 < unat sz" "unat va + unat sz \<le> 2 ^ 32"
    and N: "need (vpn va) (Suc (vpn (va + sz - 1) - vpn va)) \<subseteq> kernel_tables"
    and new: "\<And>a. vpn va \<le> vpn a \<Longrightarrow> vpn a \<le> vpn (va + sz - 1) \<Longrightarrow> pte_of (mem s) d a AND PTE_P = 0"
  shows "\<exists>m f. mappages d va sz pa perm s = Ok 0 (s\<lparr>mem := m, freelist := f\<rparr>) \<and>
    grown s d (drop (card (tables (mem s) d)) fs) m f (drop (card (tables m d)) fs) \<and>
    tables m d = tables (mem s) d \<union> need (vpn va) (Suc (vpn (va + sz - 1) - vpn va)) \<and>
    (\<forall>a. \<not> (vpn va \<le> vpn a \<and> vpn a \<le> vpn (va + sz - 1)) \<longrightarrow> pte_of m d a = pte_of (mem s) d a)"
proof -
  let ?T = "tables (mem s) d" and ?N = "need (vpn va) (Suc (vpn (va + sz - 1) - vpn va))"
  have fin: "finite ?T" using T kernel_tables_card(2) finite_subset by blast
  have "card (?T \<union> ?N) \<le> 64" using card_mono [of kernel_tables "?T \<union> ?N"] T N kernel_tables_card by auto
  moreover have c: "card (?T \<union> ?N) = card ?T + card (?N - ?T)"
    using card_Un_disjoint [of ?T "?N - ?T"] fin by auto
  ultimately have "card (?N - ?T) \<le> length (drop (card ?T) fs)" using len by simp
  from mappages_run [OF ok sz this new, of pa perm] obtain m f where
    "mappages d va sz pa perm s = Ok 0 (s\<lparr>mem := m, freelist := f\<rparr>)"
    "grown s d (drop (card ?T) fs) m f (drop (card (?N - ?T)) (drop (card ?T) fs))" "tables m d = ?T \<union> ?N"
    "\<forall>a. pte_of m d a = (if vpn va \<le> vpn a \<and> vpn a \<le> vpn (va + sz - 1)
       then ((pa + word_of_nat (vpn a - vpn va) * PGSIZE) OR perm) OR PTE_P else pte_of (mem s) d a)" by blast
  moreover have "drop (card (?N - ?T)) (drop (card ?T) fs) = drop (card (?T \<union> ?N)) fs"
    unfolding c by (simp only: drop_drop add.commute)
  ultimately show ?thesis by (intro exI [of _ m] exI [of _ f]) simp
qed

text \<open>The directory while the lines of \<open>kmap\<close> are mapped: nothing below the kernel's part, and nothing from
  page \<open>up\<close> on.\<close>

definition kinv :: "memory \<Rightarrow> ('z kmem_state_scheme) \<Rightarrow> nat \<Rightarrow> nat list \<Rightarrow> nat \<Rightarrow> bool" where
  "kinv m0 s d fs up \<longleftrightarrow> pgdir_ok s d (drop (card (tables (mem s) d)) fs) \<and> tables (mem s) d \<subseteq> kernel_tables \<and>
     owned (mem s) d (drop (card (tables (mem s) d)) fs) \<subseteq> insert d (set fs) \<and>
     (\<forall>a. vpn a < 0x80000 \<or> up \<le> vpn a \<longrightarrow> pte_of (mem s) d a = 0) \<and>
     (\<forall>y. outside (insert d (set fs)) y \<longrightarrow> mem s y = m0 y)"

lemma kinv_line:
  fixes s :: "'z kmem_state_scheme"
  assumes inv: "kinv m0 s d fs up" and len: "64 \<le> length fs"
    and sz: "0 < unat sz" "unat va + unat sz \<le> 2 ^ 32"
    and N: "need (vpn va) (Suc (vpn (va + sz - 1) - vpn va)) \<subseteq> kernel_tables"
    and up: "0x80000 \<le> vpn va" "up \<le> vpn va" "vpn (va + sz - 1) < up'" "up \<le> up'"
  shows "\<exists>m f. mappages d va sz pa perm s = Ok 0 (s\<lparr>mem := m, freelist := f\<rparr>) \<and>
    kinv m0 (s\<lparr>mem := m, freelist := f\<rparr>) d fs up' \<and>
    tables m d = tables (mem s) d \<union> need (vpn va) (Suc (vpn (va + sz - 1) - vpn va))"
proof -
  have i: "pgdir_ok s d (drop (card (tables (mem s) d)) fs)" "tables (mem s) d \<subseteq> kernel_tables"
    "owned (mem s) d (drop (card (tables (mem s) d)) fs) \<subseteq> insert d (set fs)"
    "\<And>a. vpn a < 0x80000 \<or> up \<le> vpn a \<Longrightarrow> pte_of (mem s) d a = 0" "\<And>y. outside (insert d (set fs)) y \<Longrightarrow> mem s y = m0 y"
    using inv unfolding kinv_def by blast+
  have new: "pte_of (mem s) d a AND PTE_P = 0" if "vpn va \<le> vpn a" "vpn a \<le> vpn (va + sz - 1)" for a
    using i(4) [of a] that up(2) by simp
  obtain m f where w: "mappages d va sz pa perm s = Ok 0 (s\<lparr>mem := m, freelist := f\<rparr>)"
    "grown s d (drop (card (tables (mem s) d)) fs) m f (drop (card (tables m d)) fs)"
    "tables m d = tables (mem s) d \<union> need (vpn va) (Suc (vpn (va + sz - 1) - vpn va))"
    "\<And>a. \<not> (vpn va \<le> vpn a \<and> vpn a \<le> vpn (va + sz - 1)) \<Longrightarrow> pte_of m d a = pte_of (mem s) d a"
    using kmap_line [OF i(1,2) len sz N new, of pa perm] by blast
  have "m y = m0 y" if "outside (insert d (set fs)) y" for y
    using w(2) outside_mono [OF that i(3)] i(5) [OF that] by (simp add: grown_def)
  moreover have "pte_of m d a = 0" if "vpn a < 0x80000 \<or> up' \<le> vpn a" for a
    using w(4) [of a] i(4) [of a] that up by auto
  moreover have "owned m d (drop (card (tables m d)) fs) \<subseteq> insert d (set fs)" using w(2) i(3) by (auto simp: grown_def)
  ultimately have "kinv m0 (s\<lparr>mem := m, freelist := f\<rparr>) d fs up'"
    using w(2) i(2) N unfolding kinv_def by (simp add: grown_def w(3))
  then show ?thesis using w(1,3) by blast
qed

lemma need_append: "need a m \<union> need (a + m) n = need a (m + n)"
proof -
  have "{a..<a + m} \<union> {a + m..<a + m + n} = {a..<a + (m + n)}" by auto
  then show ?thesis unfolding need_def image_Un [symmetric] by simp
qed

lemma need_eq:
  assumes "0 < n"
  shows "need a n = {a div 1024..(a + n - 1) div 1024}"
proof
  show "need a n \<subseteq> {a div 1024..(a + n - 1) div 1024}" by (auto simp: need_def intro: div_le_mono)
  show "{a div 1024..(a + n - 1) div 1024} \<subseteq> need a n"
  proof
    fix i assume i: "i \<in> {a div 1024..(a + n - 1) div 1024}"
    let ?k = "max (i * 1024) a"
    have "?k div 1024 = i"
    proof (cases "a \<le> i * 1024")
      case False
      then have "i \<le> a div 1024" by (simp add: less_eq_div_iff_mult_less_eq)
      then show ?thesis using False i by (simp add: max_def)
    qed (simp add: max_def)
    moreover have "i * 1024 \<le> a + n - 1" using i by (simp add: less_eq_div_iff_mult_less_eq)
    then have "?k \<in> {a..<a + n}" using assms by auto
    ultimately show "i \<in> need a n" unfolding need_def by (metis image_eqI)
  qed
qed

text \<open>Where the linker script puts \<open>data\<close>.\<close>

definition data_ok :: "uint \<Rightarrow> bool" where
  "data_ok data \<longleftrightarrow> unat data mod 4096 = 0 \<and> 0x80100000 < unat data \<and> unat data < 0x8E000000"

lemma kmap_sizes:
  assumes "data_ok data"
  defines "q \<equiv> unat data div PAGE"
  shows "vpn data = q" "0x80100 < q" "q < 0x8E000" "unat data = q * PAGE"
    "unat (v2p data - v2p KERNLINK) = (q - 0x80100) * PAGE" "vpn (KERNLINK + (v2p data - v2p KERNLINK) - 1) = q - 1"
    "unat (PHYSTOP - v2p data) = (0x8E000 - q) * PAGE" "vpn (data + (PHYSTOP - v2p data) - 1) = 0x8DFFF"
proof -
  have q: "unat data = q * PAGE" using assms(1) div_mult_mod_eq [of "unat data" PAGE] by (simp add: q_def data_ok_def)
  then show "unat data = q * PAGE" .
  show b: "0x80100 < q" "q < 0x8E000" using assms(1) q by (simp_all add: data_ok_def)
  show "vpn data = q" by (simp add: vpn_def q_def)
  have e1: "v2p data - v2p KERNLINK = data - 0x80100000" by (simp add: v2p_def KERNLINK_def Mmu.KERNBASE_def EXTMEM_def)
  have le: "0x80100000 \<le> data" "data \<le> 0x8E000000" using assms(1) by (simp_all add: word_le_nat_alt data_ok_def)
  show "unat (v2p data - v2p KERNLINK) = (q - 0x80100) * PAGE"
    unfolding e1 by (simp add: unat_sub [OF le(1)] q diff_mult_distrib)
  have "unat (data - 1) = q * PAGE - 1" using q b by (subst unat_minus_one) auto
  then show "vpn (KERNLINK + (v2p data - v2p KERNLINK) - 1) = q - 1"
  proof -
    assume u: "unat (data - 1) = q * PAGE - 1"
    have "KERNLINK + (v2p data - v2p KERNLINK) - 1 = data - 1" unfolding e1 by (simp add: KERNLINK_def Mmu.KERNBASE_def EXTMEM_def)
    moreover obtain r where "q = Suc r" using b by (cases q) auto
    ultimately show ?thesis using u by (simp add: vpn_def)
  qed
  have e2: "PHYSTOP - v2p data = 0x8E000000 - data" by (simp add: v2p_def PHYSTOP_def Mmu.KERNBASE_def)
  show "unat (PHYSTOP - v2p data) = (0x8E000 - q) * PAGE"
    unfolding e2 by (simp add: unat_sub [OF le(2)] q diff_mult_distrib)
  show "vpn (data + (PHYSTOP - v2p data) - 1) = 0x8DFFF" unfolding e2 by (simp add: vpn_def)
qed

lemma kinv_start:
  assumes "kmem_ready s (v # fs)"
  shows "kalloc s = Ok v (s\<lparr>freelist := load32 (mem s) v\<rparr>)" "v \<noteq> 0"
    "kinv (mem s) (s\<lparr>mem := memset (mem s) v 0 PAGE, freelist := load32 (mem s) v\<rparr>) v fs 0x80000"
    "tables (memset (mem s) v 0 PAGE) v = {}"
proof -
  note z = zero_dir [OF assms, unfolded Let_def]
  show "kalloc s = Ok v (s\<lparr>freelist := load32 (mem s) v\<rparr>)" "v \<noteq> 0" "tables (memset (mem s) v 0 PAGE) v = {}" using z by blast+
  show "kinv (mem s) (s\<lparr>mem := memset (mem s) v 0 PAGE, freelist := load32 (mem s) v\<rparr>) v fs 0x80000"
    using z unfolding kinv_def by (auto simp: owned_def outside_def memset_eq)
qed

lemma setupkvm_spec:
  fixes s :: "'z vm_state_scheme"
  assumes k: "kmem_ready s (v # fs)" and len: "64 \<le> length fs" and data: "data_ok (sym_data s)"
  shows "\<exists>m f. setupkvm s = Ok v (s\<lparr>mem := m, freelist := f\<rparr>) \<and> v \<noteq> 0 \<and> kinv (mem s) (s\<lparr>mem := m, freelist := f\<rparr>) v fs 0x100000 \<and>
    tables m v = kernel_tables"
proof -
  let ?d = "sym_data s" and ?q = "unat (sym_data s) div PAGE"
  note q = kmap_sizes [OF data]
  note st = kinv_start [OF k]
  let ?m0 = "memset (mem s) v 0 PAGE" and ?f0 = "load32 (mem s) v"
  have v1: "vpn Mmu.KERNBASE = 0x80000" "vpn (Mmu.KERNBASE + (EXTMEM - 0) - 1) = 0x800FF" "unat (EXTMEM - 0) = 0x100000" "unat Mmu.KERNBASE = 0x80000000"
    by (simp_all add: vpn_def Mmu.KERNBASE_def EXTMEM_def)
  have n1: "need 0x80000 (Suc (0x800FF - 0x80000)) = {512}" by (simp add: need_eq)
  obtain m1 f1 where w1: "mappages v Mmu.KERNBASE (EXTMEM - 0) 0 PTE_W (s\<lparr>mem := ?m0, freelist := ?f0\<rparr>) = Ok 0 (s\<lparr>mem := m1, freelist := f1\<rparr>)"
    "kinv (mem s) (s\<lparr>mem := m1, freelist := f1\<rparr>) v fs 0x80100" "tables m1 v = {512}"
    using kinv_line [OF st(3) len, where sz = "EXTMEM - 0" and va = Mmu.KERNBASE and up' = "0x80100" and pa = 0 and perm = PTE_W, unfolded v1 n1] st(4) by (auto simp: kernel_tables_def)
  have v2: "vpn KERNLINK = 0x80100" "unat KERNLINK = 0x80100000" by (simp_all add: vpn_def KERNLINK_def Mmu.KERNBASE_def EXTMEM_def)
  have n2: "need 0x80100 (Suc (?q - 1 - 0x80100)) = {512..(?q - 1) div 1024}" using q(2) by (simp add: need_eq)
  have s2: "0 < unat (v2p ?d - v2p KERNLINK)" "unat KERNLINK + unat (v2p ?d - v2p KERNLINK) \<le> 2 ^ 32" using q(2,3) unfolding q(5) v2 by simp_all
  have l2: "(?q - 1) div 1024 \<le> 567" using q(3) by simp
  then have k2: "{512..(?q - 1) div 1024} \<subseteq> kernel_tables" unfolding kernel_tables_def by (intro subsetI) simp
  have b2: "(0x80000 :: nat) \<le> 0x80100" "(0x80100 :: nat) \<le> 0x80100" "?q - 1 < ?q" "0x80100 \<le> ?q" using q(2) by linarith+
  obtain m2 f2 where w2: "mappages v KERNLINK (v2p ?d - v2p KERNLINK) (v2p KERNLINK) 0 (s\<lparr>mem := m1, freelist := f1\<rparr>) = Ok 0 (s\<lparr>mem := m2, freelist := f2\<rparr>)"
    "kinv (mem s) (s\<lparr>mem := m2, freelist := f2\<rparr>) v fs ?q" "tables m2 v = {512} \<union> {512..(?q - 1) div 1024}"
  proof -
    from kinv_line [OF w1(2) len s2, where up' = ?q and pa = "v2p KERNLINK" and perm = 0, unfolded v2 q(6) n2, OF k2 b2]
    show ?thesis by (elim exE conjE) (rule that, simp_all add: w1(3))
  qed
  have n3: "need ?q (Suc (0x8DFFF - ?q)) = {?q div 1024..567}" using q(3) by (simp add: need_eq)
  have "unat ?d + unat (PHYSTOP - v2p ?d) = (?q + (0x8E000 - ?q)) * PAGE" unfolding q(7) add_mult_distrib using q(4) by simp
  then have e3: "unat ?d + unat (PHYSTOP - v2p ?d) = 0x8E000 * PAGE" unfolding le_add_diff_inverse [OF less_imp_le [OF q(3)]] .
  have s3: "0 < unat (PHYSTOP - v2p ?d)" "unat ?d + unat (PHYSTOP - v2p ?d) \<le> 2 ^ 32"
    unfolding e3 using q(3) by (simp_all add: q(7))
  have l3: "512 \<le> ?q div 1024" using q(2) by simp
  then have k3: "{?q div 1024..567} \<subseteq> kernel_tables" unfolding kernel_tables_def by (intro subsetI) simp
  have b3: "(0x80000 :: nat) \<le> ?q" "?q \<le> ?q" "(0x8DFFF :: nat) < 0x8E000" "?q \<le> 0x8E000" using q(2,3) by linarith+
  obtain m3 f3 where w3: "mappages v ?d (PHYSTOP - v2p ?d) (v2p ?d) PTE_W (s\<lparr>mem := m2, freelist := f2\<rparr>) = Ok 0 (s\<lparr>mem := m3, freelist := f3\<rparr>)"
    "kinv (mem s) (s\<lparr>mem := m3, freelist := f3\<rparr>) v fs 0x8E000"
    "tables m3 v = {512} \<union> {512..(?q - 1) div 1024} \<union> {?q div 1024..567}"
  proof -
    from kinv_line [OF w2(2) len s3, where up' = "0x8E000" and pa = "v2p ?d" and perm = PTE_W, unfolded q(1,8) n3, OF k3 b3]
    show ?thesis by (elim exE conjE) (rule that, simp_all add: w2(3))
  qed
  have v4: "vpn DEVSPACE = 0xFE000" "vpn (DEVSPACE + (0 - DEVSPACE) - 1) = 0xFFFFF" "unat (0 - DEVSPACE) = 0x2000000" "unat DEVSPACE = 0xFE000000"
  proof -
    have "DEVSPACE + (0 - DEVSPACE) - 1 = 0xFFFFFFFF" by (simp add: DEVSPACE_def)
    then show "vpn (DEVSPACE + (0 - DEVSPACE) - 1) = 0xFFFFF" by (simp only: vpn_def) simp
  qed (simp_all add: vpn_def DEVSPACE_def)
  have n4: "need 0xFE000 (Suc (0xFFFFF - 0xFE000)) = {1016..1023}" by (simp add: need_eq)
  obtain m4 f4 where w4: "mappages v DEVSPACE (0 - DEVSPACE) DEVSPACE PTE_W (s\<lparr>mem := m3, freelist := f3\<rparr>) = Ok 0 (s\<lparr>mem := m4, freelist := f4\<rparr>)"
    "kinv (mem s) (s\<lparr>mem := m4, freelist := f4\<rparr>) v fs 0x100000"
    "tables m4 v = {512} \<union> {512..(?q - 1) div 1024} \<union> {?q div 1024..567} \<union> {1016..1023}"
    using kinv_line [OF w3(2) len, where sz = "0 - DEVSPACE" and va = DEVSPACE and up' = "0x100000" and pa = DEVSPACE and perm = PTE_W, unfolded v4 n4] w3(3) by (auto simp: kernel_tables_def)
  have "?q div 1024 \<le> Suc ((?q - 1) div 1024)"
  proof -
    obtain r where "?q = Suc r" using q(2) by (cases ?q) auto
    then show ?thesis by (simp add: div_Suc)
  qed
  then have t: "tables m4 v = kernel_tables" using l2 l3 unfolding w4(3) kernel_tables_def by auto
  have top: "\<not> p2v PHYSTOP > DEVSPACE" by (simp add: p2v_def PHYSTOP_def Mmu.KERNBASE_def DEVSPACE_def)
  have "setupkvm s = Ok v (s\<lparr>mem := m4, freelist := f4\<rparr>)"
    using st(1,2) top w1(1) w2(1) w3(1) w4(1)
    by (simp add: setupkvm_def kmap_def kbind_Ok zero_page_def upd_swap ret_def del: diff_0 diff_0_right)
  then show ?thesis using w4(2) t st(2) by blast
qed

section \<open>The child's memory\<close>

text \<open>An address space of \<open>n\<close> user pages next to the free list: its pages are mapped, and neither its pages nor
  those of its page tables are free.\<close>

definition user_space :: "('z kmem_state_scheme) \<Rightarrow> nat \<Rightarrow> nat \<Rightarrow> nat list \<Rightarrow> bool" where
  "user_space s p n fs \<longleftrightarrow> kmem_ready s fs \<and> n \<le> 2 ^ 19 \<and> (\<forall>k < n. pte_of (mem s) p (upage k) AND PTE_P \<noteq> 0) \<and>
     (\<forall>q \<in> space (mem s) p n. q mod PAGE = 0 \<and> q \<notin> set fs)"

lemma copied_bytes:
  assumes c: "copied m0 m p d 0 gs" and g: "\<forall>g \<in> set gs. page_ok s g" and va: "vpn va < length gs"
  shows "frame_of m d va = gs ! vpn va" "ubyte m d va = ubyte m0 p va"
proof -
  have e: "pte_of m d va = (v2p (word_of_nat (gs ! vpn va)) OR PTE_FLAGS (pte_of m0 p va)) OR PTE_P"
    "load m (gs ! vpn va) PAGE = load m0 (frame_of m0 p va) PAGE"
    using c va pte_of_upage [of m d va] pte_of_upage [of m0 p va] unfolding copied_def frame_of_def by auto
  show f: "frame_of m d va = gs ! vpn va" unfolding frame_of_def e(1) by (rule pte_of_frame(1) [of s]) (use g va in simp_all)
  have o: "unat va mod PAGE < PAGE" by simp
  have "load m (gs ! vpn va) PAGE ! (unat va mod PAGE) = load m0 (frame_of m0 p va) PAGE ! (unat va mod PAGE)" using e(2) by simp
  then show "ubyte m d va = ubyte m0 p va" unfolding ubyte_def f using o by (simp add: load_def ptr_def)
qed

lemma copyuvm_spec:
  fixes s :: "'z vm_state_scheme"
  assumes u: "user_space s p n fs" and data: "data_ok (sym_data s)" and sz: "n = (unat sz + 4095) div PAGE"
    and len: "65 + card (need 0 n) + n \<le> length fs"
  shows "\<exists>d m f fs' gs. copyuvm p sz s = Ok d (s\<lparr>mem := m, freelist := f\<rparr>) \<and> d \<noteq> 0 \<and>
    pgdir_ok (s\<lparr>mem := m, freelist := f\<rparr>) d fs' \<and> owned m d fs' \<union> set gs \<subseteq> set fs \<and> owned m d fs' \<inter> set gs = {} \<and>
    length gs = n \<and> distinct gs \<and> (\<forall>g \<in> set gs. page_ok s g) \<and> copied (mem s) m p d 0 gs \<and>
    same_on (space (mem s) p n) (mem s) m"
proof -
  have u': "kmem_ready s fs" "n \<le> 2 ^ 19" "\<forall>k < n. pte_of (mem s) p (upage k) AND PTE_P \<noteq> 0"
    "\<forall>q \<in> space (mem s) p n. q mod PAGE = 0 \<and> q \<notin> set fs" using u by (simp_all add: user_space_def)
  obtain d fs1 where fs: "fs = d # fs1" using len by (cases fs) auto
  obtain m1 f1 where s1: "setupkvm s = Ok d (s\<lparr>mem := m1, freelist := f1\<rparr>)" "d \<noteq> 0"
    "kinv (mem s) (s\<lparr>mem := m1, freelist := f1\<rparr>) d fs1 0x100000" "tables m1 d = kernel_tables"
    using setupkvm_spec [OF u'(1) [unfolded fs] _ data] len fs by auto
  let ?s1 = "s\<lparr>mem := m1, freelist := f1\<rparr>"
  let ?fs = "drop 64 fs1"
  have i: "pgdir_ok ?s1 d ?fs" "owned m1 d ?fs \<subseteq> set fs" "\<And>a. vpn a < 0x80000 \<Longrightarrow> pte_of m1 d a = 0"
    "\<forall>y. outside (set fs) y \<longrightarrow> m1 y = mem s y"
    using s1(3) kernel_tables_card(1) unfolding kinv_def fs by (simp_all add: s1(4))
  have al: "\<forall>q \<in> set fs. q mod PAGE = 0" using ready_page [OF u'(1)] page_okD by blast
  have so1: "same_on (space (mem s) p n) (mem s) m1" by (rule same_on_outside [OF u'(4) al i(4)])
  note sa = space_alike [OF so1]
  have lt: "\<forall>j. j * PAGE < unat sz \<longleftrightarrow> j < n" 
  proof
    fix j
    have "j < n \<longleftrightarrow> Suc j * PAGE \<le> unat sz + 4095" unfolding sz Suc_le_eq [symmetric] by (simp add: less_eq_div_iff_mult_less_eq)
    then show "j * PAGE < unat sz \<longleftrightarrow> j < n" by auto
  qed
  have "card (need 0 (n - 0) - tables (mem ?s1) d) + (n - 0) \<le> length ?fs"
    using card_mono [of "need 0 n" "need 0 n - tables (mem ?s1) d"] len unfolding fs by simp
  moreover have "\<forall>j < n. pte_of (mem ?s1) p (upage j) AND PTE_P \<noteq> 0" using u'(3) sa(1) by simp
  moreover have "\<forall>q \<in> space (mem ?s1) p n. q mod PAGE = 0 \<and> q \<notin> owned (mem ?s1) d ?fs" using u'(4) i(2) sa(2) by auto
  moreover have "\<forall>j. 0 \<le> j \<and> j < n \<longrightarrow> pte_of (mem ?s1) d (upage j) AND PTE_P = 0"
    using i(3) u'(2) by (simp add: vpn_upage)
  ultimately obtain m f fs' gs where r: "copyuvm_loop p d (0 * PAGE) (unat sz) ?s1 = Ok True (?s1\<lparr>mem := m, freelist := f\<rparr>)"
    "pgdir_ok (?s1\<lparr>mem := m, freelist := f\<rparr>) d fs'" "owned m d fs' \<union> set gs \<subseteq> owned m1 d ?fs" "owned m d fs' \<inter> set gs = {}"
    "\<forall>y. outside (owned m1 d ?fs) y \<longrightarrow> m y = m1 y" "length gs = n" "distinct gs" "\<forall>g \<in> set gs. page_ok ?s1 g"
    "copied m1 m p d 0 gs"
    using copyuvm_loop_spec [OF u'(2) lt, of 0 ?s1 d ?fs p] i(1) by auto
  have n32: "unat sz \<le> 2 ^ 32 - 2 ^ 12" using u'(2) sz by simp
  have "copyuvm p sz s = Ok d (s\<lparr>mem := m, freelist := f\<rparr>)"
    using s1(1,2) r(1) n32 by (simp add: copyuvm_def kbind_Ok ret_def)
  moreover have so: "same_on (space (mem s) p n) (mem s) m"
    unfolding same_on_def
  proof (intro ballI allI impI)
    fix q y assume q: "q \<in> space (mem s) p n" and y: "q \<le> y \<and> y < q + PAGE"
    have "outside (set fs) y" using pages_outside [OF _ al, of q y] u'(4) q y by simp
    then show "m y = mem s y" using r(5) i(4) outside_mono [OF _ i(2)] by simp
  qed
  moreover have "copied (mem s) m p d 0 gs"
  proof -
    have "load m1 (frame_of m1 p (upage j)) PAGE = load (mem s) (frame_of (mem s) p (upage j)) PAGE" if "j < n" for j
      using same_on_load [OF so1, of "frame_of (mem s) p (upage j)" PAGE] that sa(1) by (simp add: space_def frame_of_def)
    then show ?thesis using r(9) r(6) sa(1) by (simp add: copied_def)
  qed
  ultimately show ?thesis using s1(2) r i(2) by (intro exI [of _ d] exI [of _ m] exI [of _ f] exI [of _ fs'] exI [of _ gs]) (auto simp: page_ok_def)
qed

lemma frame_in_space: "vpn va < n \<Longrightarrow> frame_of m p va \<in> space m p n"
  using pte_of_upage [of m p va] by (auto simp: space_def frame_of_def)

lemma ubyte_same:
  assumes "same_on (space m p n) m m'" "vpn va < n"
  shows "ubyte m' p va = ubyte m p va"
proof -
  have "frame_of m' p va = frame_of m p va" using space_alike(1) [OF assms(1)] by (simp add: frame_of_def)
  moreover have "m' (frame_of m p va + unat va mod PAGE) = m (frame_of m p va + unat va mod PAGE)"
    by (rule same_onD [OF assms(1) frame_in_space [OF assms(2)]]) simp_all
  ultimately show ?thesis by (simp add: ubyte_def)
qed

text \<open>A store into a page leaves other pages alone.\<close>

lemma same_on_upd:
  assumes "\<forall>q \<in> P. q mod PAGE = 0 \<and> q \<noteq> g" "g mod PAGE = 0" "off < PAGE"
  shows "same_on P m (m(g + off := b))"
  unfolding same_on_def
proof (intro ballI allI impI)
  fix q y assume "q \<in> P" and y: "q \<le> y \<and> y < q + PAGE"
  then have "q + PAGE \<le> g \<or> g + PAGE \<le> q" using pages_apart [of q g] assms by simp
  then have "y \<noteq> g + off" using y assms(3) by auto
  then show "(m(g + off := b)) y = m y" by simp
qed

lemma same_on_trans: "same_on P m m1 \<Longrightarrow> same_on P m1 m2 \<Longrightarrow> same_on P m m2"
  by (simp add: same_on_def)

lemma va_eq: "(va = va') = (vpn va = vpn va' \<and> unat va mod PAGE = unat va' mod PAGE)"
proof
  assume h: "vpn va = vpn va' \<and> unat va mod PAGE = unat va' mod PAGE"
  have "unat x = vpn x * PAGE + unat x mod PAGE" for x :: uint by (simp add: vpn_def)
  then have "unat va = unat va'" using h by metis
  then show "va = va'" by (simp add: word_unat_eq_iff)
qed simp

section \<open>Property\<close>

text \<open>C18: \<open>copyuvm\<close> gives a child its parent's memory.  For a parent of \<open>n\<close> mapped pages and enough free pages (one
  for the directory, 64 for the kernel's page tables, the tables of the user part and \<open>n\<close>) it returns a
  page directory through which every byte of the first \<open>n\<close> pages reads as it does for the parent, whose
  memory is unchanged; the child's pages are its own: they are no longer free, and storing a byte at an
  address of the child changes the child's byte at that address, no other byte of the child and none of
  the parent.\<close>

theorem copyuvm_copies:
  fixes s :: "'z vm_state_scheme"
  assumes "user_space s p n fs" "data_ok (sym_data s)" "n = (unat sz + 4095) div PAGE" "65 + card (need 0 n) + n \<le> length fs"
  shows "\<exists>d t fs'. copyuvm p sz s = Ok d t \<and> d \<noteq> 0 \<and> pgdir_ok t d fs' \<and>
    (\<forall>va. vpn va < n \<longrightarrow> ubyte (mem t) d va = ubyte (mem s) p va \<and> ubyte (mem t) p va = ubyte (mem s) p va \<and>
      frame_of (mem t) d va \<notin> set fs' \<and>
      (\<forall>b va'. let m = (mem t)(frame_of (mem t) d va + unat va mod PAGE := b) in vpn va' < n \<longrightarrow>
        ubyte m p va' = ubyte (mem s) p va' \<and> ubyte m d va' = (if va' = va then b else ubyte (mem s) p va')))"
proof -
  obtain d m f fs' gs where r: "copyuvm p sz s = Ok d (s\<lparr>mem := m, freelist := f\<rparr>)" "d \<noteq> 0"
    "pgdir_ok (s\<lparr>mem := m, freelist := f\<rparr>) d fs'" "owned m d fs' \<union> set gs \<subseteq> set fs" "owned m d fs' \<inter> set gs = {}"
    "length gs = n" "distinct gs" "\<forall>g \<in> set gs. page_ok s g" "copied (mem s) m p d 0 gs"
    "same_on (space (mem s) p n) (mem s) m" using copyuvm_spec [OF assms] by blast
  have sp: "\<forall>q \<in> space (mem s) p n. q mod PAGE = 0 \<and> q \<notin> set fs" using assms(1) by (simp add: user_space_def)
  have own: "\<forall>q \<in> owned m d fs'. q mod PAGE = 0" using owned_aligned [OF r(3)] by simp
  let ?t = "s\<lparr>mem := m, freelist := f\<rparr>"
  have c: "frame_of m d va = gs ! vpn va" "ubyte m d va = ubyte (mem s) p va" if "vpn va < n" for va
    using copied_bytes [OF r(9,8)] that r(6) by simp_all
  have "ubyte m' p va' = ubyte (mem s) p va' \<and> ubyte m' d va' = (if va' = va then b else ubyte (mem s) p va')"
    if va: "vpn va < n" "vpn va' < n" and m': "m' = m(frame_of m d va + unat va mod PAGE := b)" for va va' b m'
  proof
    let ?g = "gs ! vpn va"
    have g: "?g \<in> set gs" "?g mod PAGE = 0" using va(1) r(6,8) by (simp_all add: page_ok_def)
    have m: "m' = m(?g + unat va mod PAGE := b)" using m' c(1) [OF va(1)] by simp
    have o: "unat va mod PAGE < PAGE" "unat va' mod PAGE < PAGE" by simp_all
    have "same_on (space (mem s) p n) m m'"
      unfolding m by (rule same_on_upd [OF _ g(2) o(1)]) (use sp r(4) g(1) in auto)
    then show "ubyte m' p va' = ubyte (mem s) p va'" using ubyte_same [OF same_on_trans [OF r(10)] va(2)] by blast
    have "same_on (insert d (table_of m d ` tables m d)) m m'"
      unfolding m by (rule same_on_upd [OF _ g(2) o(1)]) (use own r(5) g(1) in \<open>auto simp: owned_def\<close>)
    then have f': "frame_of m' d va' = gs ! vpn va'" using pages_alike(3) c(1) [OF va(2)] by (simp add: frame_of_def)
    have ub: "ubyte m' d va' = m' (gs ! vpn va' + unat va' mod PAGE)" by (simp only: ubyte_def f')
    have "gs ! vpn va' + unat va' mod PAGE = ?g + unat va mod PAGE \<longleftrightarrow> va' = va"
    proof (cases "vpn va' = vpn va")
      case True
      then show ?thesis using va_eq [of va' va] by simp
    next
      case False
      then have "gs ! vpn va' \<noteq> ?g" using r(6,7) va by (simp add: nth_eq_iff_index_eq)
      moreover have "gs ! vpn va' mod PAGE = 0" using va(2) r(6,8) by (simp add: page_ok_def)
      ultimately have "gs ! vpn va' + PAGE \<le> ?g \<or> ?g + PAGE \<le> gs ! vpn va'" using pages_apart [of "gs ! vpn va'" ?g] g(2) by simp
      then show ?thesis using o False by auto
    qed
    moreover have "m (gs ! vpn va' + unat va' mod PAGE) = ubyte (mem s) p va'" using c [OF va(2)] by (simp add: ubyte_def)
    ultimately show "ubyte m' d va' = (if va' = va then b else ubyte (mem s) p va')"
      unfolding ub unfolding m by simp
  qed
  moreover have "frame_of m d va \<notin> set fs'" if "vpn va < n" for va
    using c(1) [OF that] r(5,6) that by (auto simp: owned_def)
  ultimately show ?thesis using r(1-3) c(2) ubyte_same [OF r(10)]
    by (intro exI [of _ d] exI [of _ ?t] exI [of _ fs']) (simp add: Let_def)
qed

section \<open>A parent with one page\<close>

text \<open>Free pages linked from \<open>F\<close> on; the last is number \<open>N\<close>.\<close>

definition links :: "nat \<Rightarrow> nat \<Rightarrow> memory" where
  "links F N a = (if F \<le> a \<and> (a - F) div PAGE < N \<and> (a - F) mod PAGE < 4
     then enc_le 4 (F + PAGE * Suc ((a - F) div PAGE)) ! ((a - F) mod PAGE) else 0)"

lemma links_word:
  assumes "F + PAGE * Suc N \<le> 2 ^ 32"
  shows "i < N \<Longrightarrow> load32 (links F N) (F + PAGE * i) = F + PAGE * Suc i" "load32 (links F N) (F + PAGE * N) = 0"
    "a + 4 \<le> F \<Longrightarrow> load32 (links F N) a = 0"
proof -
  have at: "(F + PAGE * i + k - F) div PAGE = i" "(F + PAGE * i + k - F) mod PAGE = k" if "k < 4" for i k using that by simp_all
  show "load32 (links F N) (F + PAGE * i) = F + PAGE * Suc i" if i: "i < N"
  proof -
    have "load (links F N) (F + PAGE * i) 4 = enc_le 4 (F + PAGE * Suc i)"
      by (rule nth_equalityI) (use i at in \<open>simp_all add: load_def ptr_def links_def\<close>)
    moreover have "F + PAGE * Suc i < 2 ^ 32"
    proof -
      have "PAGE * Suc i < PAGE * Suc N" using i by simp
      then show ?thesis using assms by linarith
    qed
    ultimately show ?thesis by (simp add: load32_def dec_enc_le)
  qed
  show "load32 (links F N) (F + PAGE * N) = 0"
  proof -
    have "load (links F N) (F + PAGE * N) 4 = replicate 4 0"
      by (rule nth_equalityI) (use at in \<open>simp_all add: load_def ptr_def links_def\<close>)
    then show ?thesis by (simp add: load32_def dec_le_zero)
  qed
  show "load32 (links F N) a = 0" if "a + 4 \<le> F"
  proof -
    have "load (links F N) a 4 = replicate 4 0"
      by (rule nth_equalityI) (use that in \<open>simp_all add: load_def ptr_def links_def\<close>)
    then show ?thesis by (simp add: load32_def dec_le_zero)
  qed
qed

lemma links_chain:
  assumes "F + PAGE * Suc N \<le> 2 ^ 32" "0 < F"
  shows "n \<le> N \<Longrightarrow> chain (links F N) (F + PAGE * (N - n)) (map (\<lambda>i. F + PAGE * i) [N - n..<Suc N])"
proof (induction n)
  case 0
  then show ?case using links_word(2) [OF assms(1)] assms(2) by simp
next
  case (Suc n)
  have e: "Suc (N - Suc n) = N - n" using Suc.prems by simp
  have u: "[N - Suc n..<Suc N] = (N - Suc n) # [N - n..<Suc N]" using upt_conv_Cons [of "N - Suc n" "Suc N"] e by simp
  show ?case unfolding u using Suc links_word(1) [OF assms(1), of "N - Suc n"] assms(2) by (simp add: e del: upt_Suc)
qed

text \<open>A directory at \<open>KBASE + 0x200000\<close>, its page table behind it, and behind that the user page, whose first
  byte is 7; the free pages begin at \<open>KBASE + 0x300000\<close>.\<close>

definition demo_umem :: memory where
  "demo_umem = (stw (stw (links (KBASE + 0x300000) 69)
     (KBASE + 0x200000 + 4 * 0) (((v2p (word_of_nat (KBASE + 0x201000)) OR PTE_P) OR PTE_W) OR PTE_U))
     (KBASE + 0x201000 + 4 * 0) ((v2p (word_of_nat (KBASE + 0x202000)) OR (PTE_W OR PTE_U)) OR PTE_P)) (KBASE + 0x202000 := 7)"

definition demo_user :: vm_state where
  "demo_user = \<lparr>held = [], cur = None, mem = demo_umem, freelist = KBASE + 0x300000, use_lock = True, kend = KBASE + 0x100000,
     sym_data = 0x80108000, kpgdir = 0, cr3 = 0, tss_esp0 = 0\<rparr>"

definition demo_upages :: "nat list" where
  "demo_upages = map (\<lambda>i. KBASE + 0x300000 + PAGE * i) [0..<70]"

lemma demo_page_ok: "v mod PAGE = 0 \<Longrightarrow> KBASE + 0x100000 \<le> v \<Longrightarrow> v < KBASE + 0x400000 \<Longrightarrow> page_ok demo_user v"
  by (simp add: page_ok_def demo_user_def)

lemma demo_umem_word:
  assumes "p \<in> {KBASE + 0x200000, KBASE + 0x201000}" "i < 1024"
  shows "ldw demo_umem (p + 4 * i) = (if i = 0 then if p = KBASE + 0x200000 then ((v2p (word_of_nat (KBASE + 0x201000)) OR PTE_P) OR PTE_W) OR PTE_U
     else (v2p (word_of_nat (KBASE + 0x202000)) OR (PTE_W OR PTE_U)) OR PTE_P else 0)"
proof -
  let ?e = "((v2p (word_of_nat (KBASE + 0x201000)) OR PTE_P) OR PTE_W) OR PTE_U"
  let ?g = "(v2p (word_of_nat (KBASE + 0x202000)) OR (PTE_W OR PTE_U)) OR PTE_P"
  let ?l = "links (KBASE + 0x300000) 69"
  let ?m = "stw (stw ?l (KBASE + 0x200000 + 4 * 0) ?e) (KBASE + 0x201000 + 4 * 0) ?g"
  have pm: "p mod PAGE = 0" "p + 4 * i + 4 \<le> KBASE + 0x202000" using assms by auto
  have "load demo_umem (p + 4 * i) 4 = load ?m (p + 4 * i) 4"
    unfolding demo_umem_def using pm(2) by (intro load_cong) auto
  then have "ldw demo_umem (p + 4 * i) = ldw ?m (p + 4 * i)" by (simp add: ldw_def load32_def)
  also have "\<dots> = (if p = KBASE + 0x201000 \<and> i = 0 then ?g else ldw (stw ?l (KBASE + 0x200000 + 4 * 0) ?e) (p + 4 * i))"
    by (rule ldw_stw_entry) (use pm assms(2) in simp_all)
  also have "ldw (stw ?l (KBASE + 0x200000 + 4 * 0) ?e) (p + 4 * i) = (if p = KBASE + 0x200000 \<and> i = 0 then ?e else ldw ?l (p + 4 * i))"
    by (rule ldw_stw_entry) (use pm assms(2) in simp_all)
  also have "ldw ?l (p + 4 * i) = 0" using links_word(3) [of "KBASE + 0x300000" 69 "p + 4 * i"] pm(2) by (simp add: ldw_def)
  finally show ?thesis using assms(1) by auto
qed

lemma demo_user_tables:
  shows "tables demo_umem (KBASE + 0x200000) = {0}" "table_of demo_umem (KBASE + 0x200000) 0 = KBASE + 0x201000"
    "pte_of demo_umem (KBASE + 0x200000) (upage 0) = (v2p (word_of_nat (KBASE + 0x202000)) OR (PTE_W OR PTE_U)) OR PTE_P"
proof -
  have w: "ldw demo_umem (KBASE + 0x200000 + 4 * i) = (if i = 0 then ((v2p (word_of_nat (KBASE + 0x201000)) OR PTE_P) OR PTE_W) OR PTE_U else 0)"
    if "i < 1024" for i using demo_umem_word [of "KBASE + 0x200000" i] that by simp
  note e = pde_of_page [OF demo_page_ok [of "KBASE + 0x201000"]]
  show t: "table_of demo_umem (KBASE + 0x200000) 0 = KBASE + 0x201000"
    unfolding table_of_def Let_def w [of 0, simplified if_True simp_thms] using w [of 0] e by simp
  have "table_of demo_umem (KBASE + 0x200000) i = 0" if "i < 1024" "i \<noteq> 0" for i
    using w [OF that(1)] that(2) by (simp add: table_of_def)
  then have "i < 1024 \<and> table_of demo_umem (KBASE + 0x200000) i \<noteq> 0 \<longleftrightarrow> i = 0" for i using t by (cases "i = 0") auto
  then show "tables demo_umem (KBASE + 0x200000) = {0}" unfolding tables_def by simp
  have x: "unat (PDX (upage 0)) = 0" "unat (PTX (upage 0)) = 0" by (simp_all add: unat_PDX unat_PTX upage_def)
  have "ldw demo_umem (KBASE + 0x201000 + 4 * 0) = (v2p (word_of_nat (KBASE + 0x202000)) OR (PTE_W OR PTE_U)) OR PTE_P"
    using demo_umem_word [of "KBASE + 0x201000" 0] by simp
  then show "pte_of demo_umem (KBASE + 0x200000) (upage 0) = (v2p (word_of_nat (KBASE + 0x202000)) OR (PTE_W OR PTE_U)) OR PTE_P"
    unfolding pte_of_def pte_addr_def Let_def x t by simp
qed

lemma demo_user_space: "user_space demo_user (KBASE + 0x200000) 1 demo_upages"
proof -
  note d = demo_user_tables
  note e = pte_of_frame [OF demo_page_ok [of "KBASE + 0x202000"], of "PTE_W OR PTE_U"]
  have fl: "PTE_ADDR (PTE_W OR PTE_U) = 0" by (simp add: PTE_ADDR_or)
  have m: "mem demo_user = demo_umem" by (simp add: demo_user_def)
  have fr: "frame_of demo_umem (KBASE + 0x200000) (upage 0) = KBASE + 0x202000"
    unfolding frame_of_def d(3) using e(1) fl by simp
  have sp: "space demo_umem (KBASE + 0x200000) 1 = {KBASE + 0x200000, KBASE + 0x201000, KBASE + 0x202000}"
    unfolding space_def d(1) by (simp add: d(2) [simplified] fr [simplified] lessThan_Suc insert_commute)
  have "load32 demo_umem x = load32 (links (KBASE + 0x300000) 69) x" if "KBASE + 0x300000 \<le> x" for x
    unfolding demo_umem_def load32_def using that by (intro arg_cong [where f = dec_le] load_cong) (simp add: stw_other)
  then have "chain demo_umem p demo_upages = chain (links (KBASE + 0x300000) 69) p demo_upages" for p
    by (intro chain_cong) (auto simp: demo_upages_def)
  moreover have "chain (links (KBASE + 0x300000) 69) (KBASE + 0x300000) demo_upages"
    using links_chain [of "KBASE + 0x300000" 69 69] unfolding demo_upages_def by (simp del: upt_Suc)
  ultimately have "chain demo_umem (KBASE + 0x300000) demo_upages" by simp
  moreover have "distinct demo_upages" by (simp add: demo_upages_def distinct_map inj_on_def)
  moreover have "page_ok demo_user x" if "x \<in> set demo_upages" for x
    using that by (intro demo_page_ok) (auto simp: demo_upages_def)
  ultimately have "kmem_ready demo_user demo_upages"
    unfolding kmem_ready_def free_pages_def by (simp add: demo_user_def)
  moreover have "q \<notin> set demo_upages" if "q \<in> space demo_umem (KBASE + 0x200000) 1" for q
    using that unfolding sp by (auto simp: demo_upages_def)
  moreover have "q mod PAGE = 0" if "q \<in> space demo_umem (KBASE + 0x200000) 1" for q
    using that unfolding sp by auto
  ultimately show ?thesis unfolding user_space_def m using d(3) e(2) fl by simp
qed

theorem copyuvm_copies_witness:
  "\<exists>d t. copyuvm (KBASE + 0x200000) 10 demo_user = Ok d t \<and> ubyte (mem t) d 0 = 7 \<and>
    ubyte ((mem t)(frame_of (mem t) d 5 + 5 := 9)) d 5 = 9 \<and> ubyte ((mem t)(frame_of (mem t) d 0 := 9)) (KBASE + 0x200000) 0 = 7"
proof -
  have dat: "data_ok (sym_data demo_user)" by (simp add: data_ok_def demo_user_def)
  have n1: "1 = (unat (10 :: uint) + 4095) div PAGE" by simp
  have len: "65 + card (need 0 1) + 1 \<le> length demo_upages" using need_card [of 0 1] by (simp add: demo_upages_def)
  have v: "vpn 0 = 0" "vpn 5 = 0" by (simp_all add: vpn_def)
  have u0: "upage 0 = 0" by (simp add: upage_def)
  have z: "ubyte (mem demo_user) (KBASE + 0x200000) 0 = 7"
  proof -
    have "PTE_ADDR (PTE_W OR PTE_U) = 0" by (simp add: PTE_ADDR_or)
    then have "frame_of demo_umem (KBASE + 0x200000) 0 = KBASE + 0x202000"
      using pte_of_frame(1) [OF demo_page_ok [of "KBASE + 0x202000"], of "PTE_W OR PTE_U"] demo_user_tables(3)
      unfolding frame_of_def u0 by simp
    then show ?thesis by (simp add: ubyte_def demo_user_def demo_umem_def)
  qed
  obtain d t where r: "copyuvm (KBASE + 0x200000) 10 demo_user = Ok d t" and
    b: "\<And>va. vpn va < 1 \<Longrightarrow> ubyte (mem t) d va = ubyte (mem demo_user) (KBASE + 0x200000) va \<and>
      (\<forall>b va'. let m = (mem t)(frame_of (mem t) d va + unat va mod PAGE := b) in vpn va' < 1 \<longrightarrow>
        ubyte m (KBASE + 0x200000) va' = ubyte (mem demo_user) (KBASE + 0x200000) va' \<and>
        ubyte m d va' = (if va' = va then b else ubyte (mem demo_user) (KBASE + 0x200000) va'))"
    using copyuvm_copies [OF demo_user_space dat n1 len] by blast
  show ?thesis using r b [of 0] b [of 5] z v
    by (intro exI [of _ d] exI [of _ t]) (simp add: Let_def)
qed

end
