(* ===== verification/SyscallProps.thy ===== *)
theory SyscallProps
  imports Syscall
begin

text \<open>
  What the kernel accepts as system-call arguments: integers and strings are read only from
  below the size of the process, and \<open>argptr\<close> accepts a block only if it lies there, for a size
  that is not negative.
\<close>

section \<open>Reading arguments\<close>

lemma the_proc_run: "cur s = Some c \<Longrightarrow> the_proc s = Ok c s"
  by (simp add: the_proc_def kget_def kbind_def ret_def)

lemma cur_sz_run: "cur s = Some c \<Longrightarrow> cur_sz s = Ok (p_sz (procs s ! c)) s"
  by (simp add: cur_sz_def kbind_Ok the_proc_run proc_get_def kget_def)

lemma user_get_Ok:
  "user_get va s = Ok b t \<longleftrightarrow> t = s \<and> (\<exists>a. user_addr PTE_P va s = Some a \<and> b = mem s a)"
  by (auto simp: user_get_def split: option.splits)

text \<open>The bytes of user memory as the kernel sees them.\<close>

definition user_byte :: "('z vm_state_scheme) \<Rightarrow> uint \<Rightarrow> byte option" where
  "user_byte s va = map_option (mem s) (user_addr PTE_P va s)"

lemma user_load_Ok:
  "user_load n va s = Ok bs t \<Longrightarrow> t = s \<and> length bs = n \<and> (\<forall>i < n. user_byte s (va + word_of_nat i) = Some (bs ! i))"
proof (induction n arbitrary: va bs)
  case (Suc n)
  from Suc.prems obtain b cs where r: "user_get va s = Ok b s" "user_load n (va + 1) s = Ok cs t" "bs = b # cs"
    by (auto simp: kbind_eq_Ok user_get_Ok)
  from Suc.IH [OF r(2)] have ih: "t = s" "length cs = n" "\<forall>i < n. user_byte s (va + 1 + word_of_nat i) = Some (cs ! i)" by auto
  have "user_byte s (va + word_of_nat i) = Some (bs ! i)" if "i < Suc n" for i
  proof (cases i)
    case 0
    with r(1,3) show ?thesis by (auto simp: user_get_Ok user_byte_def)
  next
    case (Suc j)
    with ih(3) that r(3) show ?thesis by (simp add: add.assoc)
  qed
  with ih r show ?case by simp
qed simp

lemma fetchint_Ok:
  assumes "fetchint addr s = Ok r t" "cur s = Some c" "p_sz (procs s ! c) \<le> KBASE"
  shows "t = s \<and> (case r of
      None \<Rightarrow> p_sz (procs s ! c) < unat addr + 4
    | Some v \<Rightarrow> unat addr + 4 \<le> p_sz (procs s ! c) \<and>
        (\<exists>bs. v = word_of_nat (dec_le bs) \<and> length bs = 4 \<and> (\<forall>i < 4. user_byte s (addr + word_of_nat i) = Some (bs ! i))))"
proof -
  let ?sz = "p_sz (procs s ! c)"
  have wrap: "unat (addr + 4) = unat addr + 4" if "unat addr < ?sz"
    using that assms(3) unat_add_lem [of addr 4] by simp
  show ?thesis
  proof (cases "unat addr \<ge> ?sz \<or> unat (addr + 4) > ?sz")
    case True
    with assms(1,2) have "r = None" "t = s" by (auto simp: fetchint_def kbind_Ok cur_sz_run)
    moreover have "?sz < unat addr + 4" using True wrap by (cases "unat addr < ?sz") auto
    ultimately show ?thesis by simp
  next
    case False
    with assms(1,2) obtain bs where "user_load 4 addr s = Ok bs t" "r = Some (word_of_nat (dec_le bs))"
      by (auto simp: fetchint_def kbind_Ok cur_sz_run kbind_eq_Ok)
    with user_load_Ok [OF this(1)] False wrap show ?thesis by auto
  qed
qed

lemma fetchstr_loop_Ok:
  "fetchstr_loop k a s = Ok r t \<Longrightarrow> t = s \<and> (case r of
      None \<Rightarrow> \<forall>i < k. \<exists>b. user_byte s (a + word_of_nat i) = Some b \<and> b \<noteq> 0
    | Some bs \<Rightarrow> length bs < k \<and> 0 \<notin> set bs \<and> user_byte s (a + word_of_nat (length bs)) = Some 0 \<and>
        (\<forall>i < length bs. user_byte s (a + word_of_nat i) = Some (bs ! i)))"
proof (induction k arbitrary: a r)
  case (Suc k)
  from Suc.prems obtain c where c: "user_get a s = Ok c s"
    and rest: "(if c = 0 then ret (Some []) else
      kbind (fetchstr_loop k (a + 1)) (\<lambda>r. ret (map_option ((#) c) r))) s = Ok r t"
    by (auto simp: kbind_eq_Ok user_get_Ok)
  have ub: "user_byte s a = Some c" using c by (auto simp: user_get_Ok user_byte_def)
  have shift: "a + 1 + word_of_nat i = a + word_of_nat (Suc i)" for i by simp
  show ?case
  proof (cases "c = 0")
    case True
    with rest ub show ?thesis by auto
  next
    case False
    with rest obtain q where q: "fetchstr_loop k (a + 1) s = Ok q t" "r = map_option ((#) c) q"
      by (auto simp: kbind_eq_Ok)
    note ih = Suc.IH [OF q(1), unfolded shift]
    show ?thesis
    proof (cases q)
      case None
      have "\<exists>b. user_byte s (a + word_of_nat i) = Some b \<and> b \<noteq> 0" if "i < Suc k" for i
        using ih None that ub False by (cases i) auto
      with None q ih show ?thesis by simp
    next
      case (Some bs)
      have "user_byte s (a + word_of_nat i) = Some ((c # bs) ! i)" if "i < Suc (length bs)" for i
        using ih Some that ub by (cases i) auto
      with Some q ih False show ?thesis by auto
    qed
  qed
qed simp

section \<open>Properties\<close>

text \<open>C20: a string argument the kernel accepts is NUL-terminated in user memory inside the process:
  the bytes of the string and its NUL are all at addresses below \<open>proc->sz\<close>; it is refused only
  when it starts outside or has no NUL before the end of the process.\<close>

theorem fetchstr_string:
  assumes "fetchstr addr s = Ok r t" "cur s = Some c"
  defines "sz \<equiv> p_sz (procs s ! c)"
  shows "t = s \<and> (case r of
      None \<Rightarrow> sz \<le> unat addr \<or> (\<forall>i < sz - unat addr. \<exists>b. user_byte s (addr + word_of_nat i) = Some b \<and> b \<noteq> 0)
    | Some bs \<Rightarrow> unat addr + length bs < sz \<and> 0 \<notin> set bs \<and>
        user_byte s (addr + word_of_nat (length bs)) = Some 0 \<and>
        (\<forall>i < length bs. user_byte s (addr + word_of_nat i) = Some (bs ! i)))"
proof (cases "sz \<le> unat addr")
  case True
  with assms show ?thesis by (auto simp: fetchstr_def kbind_Ok cur_sz_run)
next
  case False
  with assms have "fetchstr_loop (sz - unat addr) addr s = Ok r t"
    by (simp add: fetchstr_def kbind_Ok cur_sz_run)
  from fetchstr_loop_Ok [OF this] False show ?thesis by (cases r) auto
qed

text \<open>C21: a block argument of \<open>len\<close> bytes, \<open>len\<close> not negative, is accepted only if all of it lies
  below \<open>proc->sz\<close>.  For a negative \<open>len\<close> the test says nothing about the block: every pointer
  into the process that is at least \<open>- len\<close> passes.\<close>

theorem argptr_bounds:
  assumes "argptr n len s = Ok r t" "cur s = Some c" "p_sz (procs s ! c) \<le> KBASE"
    "- (2 ^ 31) \<le> len" "len < 2 ^ 31"
  defines "sz \<equiv> p_sz (procs s ! c)"
  shows "t = s \<and> (\<forall>i. r = Some i \<longrightarrow> unat i < sz \<and> (0 \<le> len \<longrightarrow> unat i + nat len \<le> sz)) \<and>
    (\<forall>i. argint n s = Ok (Some i) s \<and> len < 0 \<and> unat i < sz \<and> - len \<le> int (unat i) \<longrightarrow> r = Some i)"
proof -
  from assms(1) obtain q u where a: "argint n s = Ok q u"
    and rest: "(case q of None \<Rightarrow> ret None | Some i \<Rightarrow> kbind cur_sz (\<lambda>sz.
     if unat i \<ge> sz \<or> unat (i + word_of_int len) > sz then ret None else ret (Some i))) u = Ok r t"
    by (auto simp: argptr_def kbind_eq_Ok)
  have us: "u = s"
  proof -
    have "argint n s = fetchint (word_of_nat (load32 (mem s) (p_tf (procs s ! c) + TF_ESP)) + 4 + 4 * word_of_nat n) s"
      using assms(2) by (simp add: argint_def kbind_Ok the_proc_run proc_get_def tf_get_def kget_def)
    with a fetchint_Ok assms(2,3) show ?thesis by metis
  qed
  show ?thesis
  proof (cases q)
    case None
    with rest a us show ?thesis by auto
  next
    case (Some i)
    then have r: "t = s" "r = (if unat i \<ge> sz \<or> unat (i + word_of_int len) > sz then None else Some i)"
      using rest us assms(2) by (auto simp: kbind_Ok cur_sz_run sz_def split: if_splits)
    have up: "unat (i + word_of_int len) = unat i + nat len" if "0 \<le> len" "unat i < sz"
    proof -
      have u: "unat (word_of_int len :: uint) = nat len" using that(1) assms(5)
        by (simp add: unat_eq_nat_uint uint_word_of_int)
      have "unat i + nat len < 2 ^ 32" using that assms(3,5) by (simp add: sz_def)
      with u show ?thesis using unat_add_lem [of i "word_of_int len"] by simp
    qed
    have down: "unat (i + word_of_int len) \<le> unat i" if "len < 0" "- len \<le> int (unat i)"
    proof -
      define k where "k = nat (- len)"
      have k: "len = - int k" "k \<le> 2 ^ 31" using that(1) assms(4) by (auto simp: k_def)
      have "unat (word_of_nat k :: uint) = k" using k(2) by (simp add: unat_of_nat take_bit_nat_eq_self)
      moreover have "k \<le> unat i" using that(2) unfolding k(1) by linarith
      ultimately show ?thesis
        using k(1) unat_sub [of "word_of_nat k" i] by (simp add: word_le_nat_alt)
    qed
    have "unat i < sz \<and> (0 \<le> len \<longrightarrow> unat i + nat len \<le> sz)" if "r = Some i"
      using that r(2) up by (auto split: if_splits)
    moreover have "r = Some i" if "len < 0" "unat i < sz" "- len \<le> int (unat i)"
      using that r(2) down by auto
    moreover have "j = i" if "r = Some j" for j using that r(2) by (auto split: if_splits)
    moreover have "j = i" if "argint n s = Ok (Some j) s" for j using that a Some by simp
    ultimately show ?thesis using r(1) by metis
  qed
qed

text \<open>A process of one page whose stack pointer is 100 and whose first argument is 200, the address
  of the string \<open>ab\<close>.\<close>

definition demo_user :: proc_state where
  "demo_user = \<lparr>held = [], cur = Some 0,
     mem = store (store32 (store32 (store32 (store32 (\<lambda>a. 0) (KBASE + 0x2000) 0x3007) (KBASE + 0x3000) 0x4007)
       (KBASE + 0x5000 + 68) 100) (KBASE + 0x4000 + 104) 200) (KBASE + 0x4000 + 200) [97, 98],
     freelist = 0, use_lock = True, kend = KBASE + 0x1000,
     sym_data = 0, kpgdir = 0, cr3 = 0x2000, tss_esp0 = 0,
     procs = [unused_proc\<lparr>p_sz := 4096, p_tf := KBASE + 0x5000, p_state := RUNNING\<rparr>],
     nextpid = 2, initproc = None, sym_forkret = 0, sym_trapret = 0\<rparr>"

lemma demo_user_fields: "cur demo_user = Some 0" "p_sz (procs demo_user ! 0) = 4096"
  by (simp_all add: demo_user_def)

lemma demo_user_addr:
  assumes "unat va < 4096"
  shows "user_addr PTE_P va demo_user = Some (KBASE + 0x4000 + unat va)"
proof -
  have x: "PDX va = 0" "PTX va = 0" using assms by (simp_all add: word_unat_eq_iff unat_PDX unat_PTX)
  have "load32 (mem demo_user) (KBASE + 0x2000) = 0x3007" "load32 (mem demo_user) (KBASE + 0x3000) = 0x4007"
    by (simp_all add: demo_user_def mem_simps load32_def [of "store _ _ _"] load32_def [symmetric])
  then have e: "user_pte (mem demo_user) (cr3 demo_user) va = 0x4007"
    using x by (simp add: user_pte_def ldw_def demo_user_def PTE_ADDR_def p2v_def mmu_consts)
  have "va AND 0xFFF = va" using assms by (simp add: mask12 word_unat_eq_iff unat_and_mask)
  then have "0x4000 AND va = 0x4000 AND (0xFFF AND va)" by (simp only: and.commute)
  then have "0x4000 AND va = 0" by (simp add: and.assoc [symmetric])
  then have "0x4000 + va = 0x4000 OR va" by (rule disjunctive_add_eq_or)
  with \<open>va AND 0xFFF = va\<close> have "p2v (PTE_ADDR 0x4007 OR (va AND 0xFFF)) = 0x80004000 + va"
    by (simp add: p2v_def PTE_ADDR_def mmu_consts)
  moreover have "unat (0x80004000 + va) = 0x80004000 + unat va"
    using assms unat_add_lem [of "0x80004000" va] by simp
  ultimately show ?thesis using e assms by (simp add: user_addr_def Let_def PTE_P_def)
qed

lemma demo_user_get: "unat va < 4096 \<Longrightarrow> user_get va demo_user = Ok (mem demo_user (KBASE + 0x4000 + unat va)) demo_user"
  by (simp add: user_get_def demo_user_addr kget_def)

lemma enc_le_4: "enc_le 4 v = [word_of_nat v, word_of_nat (v div 256), word_of_nat (v div 256 div 256),
    word_of_nat (v div 256 div 256 div 256)]"
proof -
  have "4 = Suc (Suc (Suc (Suc 0)))" by simp
  then show ?thesis by (simp only: enc_le.simps)
qed

lemma demo_user_bytes:
  "mem demo_user 0x800040C8 = 97" "mem demo_user 0x800040C9 = 98" "mem demo_user 0x800040CA = 0"
  by (simp_all add: demo_user_def store_def store32_def enc_le_4)

lemma demo_user_args:
  "mem demo_user 0x80004068 = 200" "mem demo_user 0x80004069 = 0" "mem demo_user 0x8000406A = 0" "mem demo_user 0x8000406B = 0"
  by (simp_all add: demo_user_def store_def store32_def enc_le_4)

lemma fetchstr_loop_pos:
  "0 < k \<Longrightarrow> fetchstr_loop k s = kbind (user_get s) (\<lambda>c. if c = 0 then ret (Some []) else
     kbind (fetchstr_loop (k - 1) (s + 1)) (\<lambda>r. ret (map_option ((#) c) r)))"
  using fetchstr_loop.simps(2) [of "k - 1" s] by simp

lemma demo_fetchstr: "fetchstr 200 demo_user = Ok (Some [97, 98]) demo_user"
proof -
  have "fetchstr_loop 3896 200 demo_user = Ok (Some [97, 98]) demo_user"
    by (simp add: fetchstr_loop_pos [of 3896] fetchstr_loop_pos [of 3895] fetchstr_loop_pos [of 3894]
        kbind_def demo_user_get demo_user_bytes ret_def)
  then show ?thesis
    by (simp add: fetchstr_def kbind_Ok cur_sz_run [OF demo_user_fields(1)] demo_user_fields(2))
qed

theorem fetchstr_string_witness: "user_byte demo_user 202 = Some 0"
  using fetchstr_string [OF demo_fetchstr demo_user_fields(1)] by simp

lemma demo_argint: "argint 0 demo_user = Ok (Some 200) demo_user"
proof -
  have "load32 (mem demo_user) (KBASE + 0x5000 + 68) = 100"
    by (simp add: demo_user_def mem_simps load32_def [of "store _ _ _"] load32_def [symmetric])
  then have "argint 0 demo_user = fetchint 104 demo_user"
    by (simp add: argint_def kbind_Ok the_proc_run [OF demo_user_fields(1)] proc_get_def tf_get_def kget_def TF_ESP_def)
      (simp add: demo_user_def)
  also have "\<dots> = Ok (Some 200) demo_user"
  proof -
    have "user_load 4 104 demo_user = Ok [200, 0, 0, 0] demo_user"
    proof -
      have four: "4 = Suc (Suc (Suc (Suc 0)))" by simp
      show ?thesis unfolding four user_load.simps
        by (simp add: kbind_def demo_user_get demo_user_args ret_def)
    qed
    then show ?thesis
      by (simp add: fetchint_def kbind_Ok cur_sz_run [OF demo_user_fields(1)] demo_user_fields(2) ret_def)
  qed
  finally show ?thesis .
qed

theorem argptr_bounds_witness:
  "argptr 0 (- 1) demo_user = Ok (Some 200) demo_user \<and> argptr 0 4000 demo_user = Ok None demo_user"
proof -
  have a: "argptr 0 len demo_user = (if unat (200 + word_of_int len :: uint) > 4096
      then Ok None demo_user else Ok (Some 200) demo_user)" for len
    by (simp add: argptr_def kbind_Ok demo_argint cur_sz_run [OF demo_user_fields(1)] demo_user_fields(2) ret_def)
  then obtain r where r: "argptr 0 (- 1) demo_user = Ok r demo_user" by (simp split: if_splits)
  have "r = Some 200" using argptr_bounds [OF r demo_user_fields(1)] demo_argint demo_user_fields(2) by simp
  moreover obtain q where q: "argptr 0 4000 demo_user = Ok q demo_user" using a [of 4000] by (simp split: if_splits)
  moreover have "q = None"
  proof -
    have "q = None \<or> q = Some 200" using q a [of 4000] by (auto split: if_splits)
    then show ?thesis using argptr_bounds [OF q demo_user_fields(1)] demo_user_fields(2) by auto
  qed
  ultimately show ?thesis using r by simp
qed

end
