(* ===== verification/ConsoleProps.thy ===== *)
theory ConsoleProps
  imports Console
begin

text \<open>
  The input side of the console.  The three indices of \<open>input\<close> divide the ring buffer in two
  parts: from \<open>r\<close> to \<open>w\<close> are the bytes of completed lines, waiting for a reader, from \<open>w\<close> to
  \<open>e\<close> those of the line being edited.  \<open>committed\<close> is the first part as a list.
\<close>

section \<open>Output leaves the input buffer alone\<close>

definition input_of :: "('z sys_state_scheme) \<Rightarrow> byte list \<times> uint \<times> uint \<times> uint" where
  "input_of s = (in_buf s, in_r s, in_w s, in_e s)"

lemma keeps_lock [keeps_intros]: "keeps input_of (acquire l)" "keeps input_of (release l)"
  by (auto simp: keeps_def acquire_def release_def input_of_def split: if_splits)

lemma keeps_consputc [keeps_intros]: "keeps input_of (consputc c)"
  unfolding consputc_def uartputc_def cgaputc_def
  by (intro keeps_intros) (auto simp: input_of_def)

lemma keeps_consputs [keeps_intros]: "keeps input_of (consputs cs)"
  by (induction cs) (auto intro: keeps_intros)

lemma keeps_cprintf [keeps_intros]: "keeps input_of (cprintf fmt as)"
  unfolding cprintf_def by (intro keeps_intros)

lemma keeps_print_pcs [keeps_intros]: "keeps input_of (print_pcs pcs)"
  by (induction pcs) (auto intro: keeps_intros)

lemma keeps_procdump [keeps_intros]: "keeps input_of procdump"
  unfolding procdump_def by (intro keeps_intros)

lemma keeps_wakeup [keeps_intros]: "keeps input_of (wakeup c)"
  unfolding wakeup_def wakeup1_def by (intro keeps_intros) (auto simp: input_of_def)

section \<open>The input buffer\<close>

definition input_ok :: "('z sys_state_scheme) \<Rightarrow> bool" where
  "input_ok s \<longleftrightarrow> length (in_buf s) = INPUT_BUF \<and>
     unat (in_w s - in_r s) \<le> unat (in_e s - in_r s) \<and> unat (in_e s - in_r s) \<le> INPUT_BUF"

definition committed :: "('z sys_state_scheme) \<Rightarrow> byte list" where
  "committed s = map (\<lambda>i. in_char s (in_r s + word_of_nat i)) [0..<unat (in_w s - in_r s)]"

text \<open>\<open>t\<close> differs from \<open>s\<close> in the line being edited, or has completed it.\<close>

definition input_grows :: "('z sys_state_scheme) \<Rightarrow> ('z sys_state_scheme) \<Rightarrow> bool" where
  "input_grows s t \<longleftrightarrow> input_ok t \<and> in_r t = in_r s \<and> (\<exists>bs. committed t = committed s @ bs)"

lemma input_ok_cong: "input_of t = input_of s \<Longrightarrow> input_ok t = input_ok s \<and> in_r t = in_r s \<and> committed t = committed s"
  by (simp add: input_of_def input_ok_def committed_def in_char_def)

lemma input_grows_refl: "input_ok s \<Longrightarrow> input_grows s s"
  by (simp add: input_grows_def)

lemma input_grows_trans: "input_grows s t \<Longrightarrow> input_grows t u \<Longrightarrow> input_grows s u"
  by (auto simp: input_grows_def)

lemma input_grows_cong: "input_of t = input_of s \<Longrightarrow> input_grows u s \<Longrightarrow> input_grows u t"
  using input_ok_cong [of t s] by (simp add: input_grows_def)

text \<open>The position in the buffer of an index, counted from \<open>r\<close>.\<close>

lemma index_mod: "unat (r + word_of_nat i :: uint) mod INPUT_BUF = (unat r + i) mod INPUT_BUF"
proof -
  have "unat (r + word_of_nat i) = (unat r + i) mod 2 ^ 32"
    by (simp add: unat_word_ariths unat_of_nat take_bit_eq_mod mod_simps)
  then show ?thesis by (simp add: INPUT_BUF_def mod_mod_cancel)
qed

text \<open>Moving \<open>e\<close> back, not below \<open>w\<close>.\<close>

lemma input_back:
  assumes "input_ok s" "unat (e - in_w s) \<le> unat (in_e s - in_w s)"
  shows "input_grows s (s\<lparr>in_e := e\<rparr>)"
proof -
  have w: "unat (in_e s - in_r s) = unat (in_w s - in_r s) + unat (in_e s - in_w s)"
  proof -
    have le: "in_w s - in_r s \<le> in_e s - in_r s" using assms(1) by (simp add: input_ok_def word_le_nat_alt)
    have "in_e s - in_w s = (in_e s - in_r s) - (in_w s - in_r s)" by simp
    then have "unat (in_e s - in_w s) = unat (in_e s - in_r s) - unat (in_w s - in_r s)"
      using unat_sub [OF le] by simp
    then show ?thesis using le by (simp add: word_le_nat_alt)
  qed
  have "unat (e - in_r s) = unat (in_w s - in_r s) + unat (e - in_w s)"
  proof -
    have s: "e - in_r s = (in_w s - in_r s) + (e - in_w s)" by simp
    have "unat (in_w s - in_r s) + unat (e - in_w s) < 2 ^ 32"
      using assms w by (simp add: input_ok_def INPUT_BUF_def)
    then have "unat ((in_w s - in_r s) + (e - in_w s)) = unat (in_w s - in_r s) + unat (e - in_w s)"
      by (intro unat_add_lem [THEN iffD1]) simp
    then show ?thesis by (simp only: s)
  qed
  then show ?thesis using assms w
    by (auto simp: input_grows_def input_ok_def committed_def in_char_def)
qed

text \<open>Storing a character at \<open>e\<close>.\<close>

lemma input_put:
  assumes "input_ok s" "unat (in_e s - in_r s) < INPUT_BUF"
  shows "input_grows s (s\<lparr>in_buf := (in_buf s)[unat (in_e s) mod INPUT_BUF := b], in_e := in_e s + 1\<rparr>)"
proof -
  let ?d = "unat (in_e s - in_r s)"
  let ?t = "s\<lparr>in_buf := (in_buf s)[unat (in_e s) mod INPUT_BUF := b], in_e := in_e s + 1\<rparr>"
  have e: "in_e s = in_r s + word_of_nat ?d" by simp
  have d1: "unat (in_e s + 1 - in_r s) = ?d + 1"
  proof -
    have e: "in_e s + 1 - in_r s = (in_e s - in_r s) + 1" by simp
    have "unat (in_e s - in_r s) + unat (1 :: uint) < 2 ^ 32" using assms(2) by (simp add: INPUT_BUF_def)
    then have "unat ((in_e s - in_r s) + 1) = unat (in_e s - in_r s) + unat (1 :: uint)"
      by (intro unat_add_lem [THEN iffD1]) simp
    then show ?thesis by (simp only: e unsigned_1)
  qed
  have "in_char ?t (in_r s + word_of_nat i) = in_char s (in_r s + word_of_nat i)" if "i < ?d" for i
  proof -
    have "(unat (in_r s) + i) mod INPUT_BUF \<noteq> (unat (in_r s) + ?d) mod INPUT_BUF"
    proof
      assume a: "(unat (in_r s) + i) mod INPUT_BUF = (unat (in_r s) + ?d) mod INPUT_BUF"
      then have "INPUT_BUF dvd (unat (in_r s) + ?d) - (unat (in_r s) + i)"
        using that by (metis mod_eq_dvd_iff_nat add_left_mono less_imp_le)
      then have "INPUT_BUF dvd ?d - i" by simp
      then show False using that assms(2) by (auto dest: dvd_imp_le)
    qed
    moreover have "unat (in_e s) mod INPUT_BUF = (unat (in_r s) + ?d) mod INPUT_BUF"
      using index_mod [of "in_r s" ?d] by simp
    ultimately show ?thesis by (simp add: in_char_def index_mod)
  qed
  then have "committed ?t = committed s" using assms(1) by (auto simp: committed_def input_ok_def)
  then show ?thesis using assms d1 by (simp add: input_grows_def input_ok_def)
qed

text \<open>Completing the line.\<close>

lemma input_commit:
  assumes "input_ok s"
  shows "input_grows s (s\<lparr>in_w := in_e s\<rparr>)"
proof -
  let ?t = "s\<lparr>in_w := in_e s\<rparr>"
  from assms obtain k where k: "unat (in_e s - in_r s) = unat (in_w s - in_r s) + k"
    by (metis input_ok_def le_Suc_ex)
  have "committed ?t = committed s @ map (\<lambda>i. in_char s (in_r s + word_of_nat i))
      [unat (in_w s - in_r s)..<unat (in_w s - in_r s) + k]"
    by (simp add: committed_def in_char_def k upt_add_eq_append [of 0])
  with assms show ?thesis by (auto simp: input_grows_def input_ok_def)
qed

lemma kill_line_back: "unat (kill_line buf w e - w) \<le> unat (e - w)"
proof (induction buf w e rule: kill_line.induct)
  case (1 buf w e)
  show ?case
  proof (cases "e \<noteq> w \<and> buf ! (unat (e - 1) mod INPUT_BUF) \<noteq> 10")
    case True
    with 1 have "unat (kill_line buf w (e - 1) - w) \<le> unat (e - 1 - w)" by simp
    with True unat_pred [of e w] show ?thesis by (subst kill_line.simps) simp
  next
    case False
    then have "kill_line buf w e = e" by (subst kill_line.simps) auto
    then show ?thesis by simp
  qed
qed

lemma consoleintr_char_grows:
  assumes run: "consoleintr_char c s = Ok u t" and ok: "input_ok s"
  shows "input_grows s t"
proof -
  consider "c = 16" | "c = 21" | "c = 8 \<or> c = 127" | "c \<notin> {16, 21, 8, 127}" by blast
  then show ?thesis
  proof cases
    case 1
    with run have "procdump s = Ok u t" by (simp add: consoleintr_char_def)
    then show ?thesis using input_grows_cong [OF keepsD [OF keeps_procdump] input_grows_refl [OF ok]] by blast
  next
    case 2
    let ?e = "kill_line (in_buf s) (in_w s) (in_e s)"
    from 2 run have "consputs (replicate (unat (in_e s - ?e)) BACKSPACE) (s\<lparr>in_e := ?e\<rparr>) = Ok u t"
      by (simp add: consoleintr_char_def)
    then show ?thesis
      using input_grows_cong [OF keepsD [OF keeps_consputs] input_back [OF ok kill_line_back]] by blast
  next
    case 3
    show ?thesis
    proof (cases "in_e s = in_w s")
      case True
      with 3 run show ?thesis using ok by (auto simp: consoleintr_char_def input_grows_refl)
    next
      case False
      with 3 run have "consputc BACKSPACE (s\<lparr>in_e := in_e s - 1\<rparr>) = Ok u t"
        by (auto simp: consoleintr_char_def kseq_def)
      then show ?thesis
        using input_grows_cong [OF keepsD [OF keeps_consputc] input_back [OF ok]] unat_pred [OF False] less_imp_le by blast
    qed
  next
    case 4
    let ?c = "if c = 13 then 10 else c"
    let ?s = "s\<lparr>in_buf := (in_buf s)[unat (in_e s) mod INPUT_BUF := word_of_int ?c], in_e := in_e s + 1\<rparr>"
    show ?thesis
    proof (cases "c \<noteq> 0 \<and> unat (in_e s - in_r s) < INPUT_BUF")
      case False
      with 4 run show ?thesis using ok by (auto simp: consoleintr_char_def input_grows_refl)
    next
      case True
      with 4 run obtain v where v: "consputc ?c ?s = Ok () v"
        and rest: "kwhen (?c = 10 \<or> ?c = 4 \<or> in_e v = in_r v + word_of_nat INPUT_BUF)
          (kseq (kmod (\<lambda>s. s\<lparr>in_w := in_e s\<rparr>)) (wakeup ChanInput)) v = Ok u t"
        by (auto simp: consoleintr_char_def Let_def kbind_eq_Ok)
      have g: "input_grows s v"
        using input_grows_cong [OF keepsD [OF keeps_consputc v] input_put [OF ok]] True by blast
      show ?thesis
      proof (cases "?c = 10 \<or> ?c = 4 \<or> in_e v = in_r v + word_of_nat INPUT_BUF")
        case True
        with rest have w: "wakeup ChanInput (v\<lparr>in_w := in_e v\<rparr>) = Ok u t" by (simp add: kseq_def)
        have "input_grows v (v\<lparr>in_w := in_e v\<rparr>)" using g by (intro input_commit) (simp add: input_grows_def)
        from input_grows_trans [OF g input_grows_cong [OF keepsD [OF keeps_wakeup w] this]] show ?thesis .
      next
        case False
        with rest g show ?thesis by simp
      qed
    qed
  qed
qed

lemma consoleintr_loop_grows: "consoleintr_loop cs s = Ok u t \<Longrightarrow> input_ok s \<Longrightarrow> input_grows s t"
proof (induction cs arbitrary: s)
  case Nil
  then show ?case by (simp add: input_grows_refl)
next
  case (Cons c cs)
  then obtain v where v: "consoleintr_char c s = Ok () v" "consoleintr_loop cs v = Ok u t" by (auto simp: kseq_eq_Ok)
  have g: "input_grows s v" by (rule consoleintr_char_grows [OF v(1) Cons.prems(2)])
  then have "input_ok v" by (simp add: input_grows_def)
  from input_grows_trans [OF g Cons.IH [OF v(2) this]] show ?case .
qed

section \<open>Reading\<close>

lemma committed_Cons:
  assumes "committed s = c # cs" "input_ok s"
  shows "in_r s \<noteq> in_w s" "in_char s (in_r s) = c"
    "committed (s\<lparr>in_r := in_r s + 1\<rparr>) = cs" "input_ok (s\<lparr>in_r := in_r s + 1\<rparr>)"
proof -
  let ?d = "unat (in_w s - in_r s)"
  have d: "0 < ?d" using assms(1) by (cases ?d) (auto simp: committed_def)
  then show ne: "in_r s \<noteq> in_w s" by auto
  have up: "[0..<?d] = 0 # [1..<?d]" using d by (simp add: upt_conv_Cons)
  show "in_char s (in_r s) = c" using assms(1) unfolding committed_def up by simp
  have dec: "unat (x - (in_r s + 1)) = unat (x - in_r s) - 1" if "x - in_r s \<noteq> 0" for x
  proof -
    have "x - (in_r s + 1) = (x - in_r s) - 1" by simp
    then show ?thesis using unat_minus_one [OF that] by (simp only:)
  qed
  have w: "unat (in_w s - (in_r s + 1)) = ?d - 1" using ne by (intro dec) simp
  have "committed (s\<lparr>in_r := in_r s + 1\<rparr>) = map (\<lambda>i. in_char s (in_r s + word_of_nat (Suc i))) [0..<?d - 1]"
    by (simp add: committed_def w in_char_def add.assoc)
  also have "\<dots> = map (\<lambda>i. in_char s (in_r s + word_of_nat i)) [1..<?d]"
    by (rule nth_equalityI) simp_all
  also have "\<dots> = cs" using assms(1) unfolding committed_def up by simp
  finally show "committed (s\<lparr>in_r := in_r s + 1\<rparr>) = cs" .
  have "in_e s - in_r s \<noteq> 0"
  proof
    assume "in_e s - in_r s = 0"
    with assms(2) d show False by (simp add: input_ok_def)
  qed
  from dec [OF this] w d show "input_ok (s\<lparr>in_r := in_r s + 1\<rparr>)"
    using assms(2) by (auto simp: input_ok_def)
qed

lemma consoleread_loop_line:
  assumes "input_ok s" "committed s = line @ 10 # rest" "set line \<inter> {4, 10} = {}" "length line < n"
  shows "\<exists>t. consoleread_loop target n s = Ok (Some (line @ [10])) t \<and> committed t = rest \<and> input_ok t"
  using assms
proof (induction line arbitrary: s n)
  case Nil
  then obtain k where n: "n = Suc k" by (cases n) auto
  have c: "committed s = 10 # rest" using Nil by simp
  note r = committed_Cons [OF c Nil.prems(1)]
  have "consoleread_loop target n s = Ok (Some [10]) (s\<lparr>in_r := in_r s + 1\<rparr>)"
    using r(1,2) by (simp add: n ret_def)
  with r(3,4) show ?case by auto
next
  case (Cons c line)
  then obtain k where n: "n = Suc k" by (cases n) auto
  have c: "committed s = c # line @ 10 # rest" using Cons.prems by simp
  note r = committed_Cons [OF c Cons.prems(1)]
  let ?s = "s\<lparr>in_r := in_r s + 1\<rparr>"
  from Cons.IH [OF r(4) r(3), of k] Cons.prems(3,4) n obtain t where
    t: "consoleread_loop target k ?s = Ok (Some (line @ [10])) t" "committed t = rest" "input_ok t" by auto
  have "consoleread_loop target n s = Ok (Some (c # line @ [10])) t"
    using r(1,2) Cons.prems(3) t(1) by (simp add: n kbind_Ok ret_def)
  with t show ?case by auto
qed

section \<open>Properties\<close>

text \<open>C22: typing never loses or changes input that is waiting for a reader.  Whatever characters
  arrive, line kill, backspace and a full buffer included, \<open>consoleintr\<close> keeps
  \<open>r \<le> w \<le> e \<le> r + INPUT_BUF\<close> modulo \<open>2^32\<close>, does not touch \<open>r\<close>, and leaves the bytes between \<open>r\<close>
  and \<open>w\<close> a prefix of what is between them afterwards.\<close>

theorem consoleintr_keeps_input:
  assumes "consoleintr cs s = Ok u t" "input_ok s"
  shows "input_ok t \<and> in_r t = in_r s \<and> (\<exists>bs. committed t = committed s @ bs)"
proof -
  from assms(1) obtain a b where r: "acquire InputLock s = Ok () a" "consoleintr_loop cs a = Ok () b" "release InputLock b = Ok u t"
    by (auto simp: consoleintr_def kseq_eq_Ok)
  have a: "input_of a = input_of s" by (rule keepsD [OF keeps_lock(1) r(1)])
  have "input_ok a" using assms(2) input_ok_cong [OF a] by simp
  from input_grows_cong [OF keepsD [OF keeps_lock(2) r(3)] consoleintr_loop_grows [OF r(2) this]]
  show ?thesis using input_ok_cong [OF a] by (simp add: input_grows_def)
qed

text \<open>C23: a reader with room for it gets the first waiting line, newline included, and leaves the
  rest waiting.\<close>

theorem consoleread_line:
  assumes "input_ok s" "committed s = line @ 10 # rest" "set line \<inter> {4, 10} = {}" "length line < n"
  shows "\<exists>t. consoleread_loop target n s = Ok (Some (line @ [10])) t \<and> committed t = rest \<and> input_ok t"
  using consoleread_loop_line [OF assms] .

text \<open>A console with nothing typed yet.\<close>

definition demo_console :: sys_state where
  "demo_console = file_state.extend demo_files (sys_state.fields False [] 0 (replicate 2000 0) True False
     (replicate 128 0) 0xfffffffe 0xfffffffe 0xfffffffe 0 False [] 0 [] 0 0 0)"

lemma demo_console_fields:
  "held demo_console = []" "in_buf demo_console = replicate 128 0" "in_r demo_console = 0xfffffffe"
  "in_w demo_console = 0xfffffffe" "in_e demo_console = 0xfffffffe" "panicked demo_console = False"
  "cga demo_console = replicate 2000 0" "cga_pos demo_console = 0" "uart_present demo_console = False"
  by (simp_all add: demo_console_def demo_files_fields file_state.defs sys_state.defs)

lemma demo_typed:
  "\<exists>t. consoleintr [104, 13] demo_console = Ok () t"
  by (simp add: consoleintr_def kseq_def consoleintr_char_def consputc_def uartputc_def cgaputc_def cga_put_def
      cga_scroll_def BACKSPACE_def INPUT_BUF_def Let_def demo_console_fields kbind_def kget_def kmod_def ret_def)

lemma demo_console_ok: "input_ok demo_console"
  by (simp add: input_ok_def demo_console_fields INPUT_BUF_def)

theorem consoleintr_keeps_input_witness:
  "\<exists>t. consoleintr [104, 13] demo_console = Ok () t \<and> input_ok t \<and> in_r t = 0xfffffffe"
proof -
  from demo_typed obtain t where t: "consoleintr [104, 13] demo_console = Ok () t" by blast
  from consoleintr_keeps_input [OF t demo_console_ok] t show ?thesis by (auto simp: demo_console_fields)
qed

text \<open>The line \<open>h\<close>, stored across the wrap-around of the indices.\<close>

definition demo_line :: sys_state where
  "demo_line = demo_console\<lparr>in_buf := (replicate 128 0)[126 := 104, 127 := 10], in_w := 0, in_e := 0\<rparr>"

lemma demo_line_ok: "input_ok demo_line" "committed demo_line = [104] @ 10 # []"
proof -
  show "input_ok demo_line" by (simp add: input_ok_def demo_line_def demo_console_fields INPUT_BUF_def)
  have "[0..<2] = [0, 1]" by (simp add: upt_rec)
  then show "committed demo_line = [104] @ 10 # []"
    by (simp add: committed_def in_char_def demo_line_def demo_console_fields INPUT_BUF_def)
qed

theorem consoleread_line_witness:
  "\<exists>t. consoleread_loop 100 100 demo_line = Ok (Some [104, 10]) t \<and> committed t = []"
  using consoleread_line [OF demo_line_ok, of 100 100] by auto

end
