(* ===== verification/ProcsProps.thy ===== *)
theory ProcsProps
  imports Procs
begin

text \<open>
  Properties of the process routines: which process the scheduler picks and what it sets up,
  what \<open>wait\<close> does with the children of its caller, how \<open>exit\<close> passes children to \<open>init\<close>, and
  what \<open>kill\<close> does with a process id of 0.
\<close>

section \<open>What leaves the process table alone\<close>

lemma keeps_acquire [keeps_intros]: "(\<And>s h. v (s\<lparr>held := h\<rparr>) = v s) \<Longrightarrow> keeps v (acquire l)"
  by (auto simp: keeps_def acquire_def split: if_splits)

lemma keeps_release [keeps_intros]: "(\<And>s h. v (s\<lparr>held := h\<rparr>) = v s) \<Longrightarrow> keeps v (release l)"
  by (auto simp: keeps_def release_def split: if_splits)

lemma keeps_kfree [keeps_intros]: "keeps procs (kfree a)"
  unfolding kfree_def by (intro keeps_intros) auto

lemma keeps_kalloc [keeps_intros]: "keeps procs kalloc"
  unfolding kalloc_def by (intro keeps_intros) auto

lemma keeps_words [keeps_intros]: "keeps procs (get_word a)" "keeps procs (put_word a w)" "keeps procs (zero_page a)"
  unfolding get_word_def put_word_def zero_page_def by (auto intro!: keeps_intros)

lemma keeps_walkpgdir [keeps_intros]: "keeps procs (walkpgdir d va alloc)"
  unfolding walkpgdir_def by (intro keeps_intros)

lemma keeps_deallocuvm_loop [keeps_intros]: "keeps procs (deallocuvm_loop d a n)"
proof (induction "n - a" arbitrary: a rule: less_induct)
  case less
  show ?case unfolding deallocuvm_loop.simps [of d a n] by (intro keeps_intros less) simp_all
qed

lemma keeps_freevm [keeps_intros]: "keeps procs (freevm d)"
  unfolding freevm_def deallocuvm_def by (intro keeps_intros)

section \<open>Running process routines\<close>

lemma proc_get_run [simp]: "proc_get p f s = Ok (f (procs s ! p)) s"
  by (simp add: proc_get_def kget_def)

lemma kbind_proc_get [simp]: "kbind (proc_get p f) g s = g (f (procs s ! p)) s"
  by (simp add: proc_get_def)

lemma kbind_proc_set [simp]: "kbind (proc_set p f) g s = g () (upd_proc p f s)"
  by (simp add: proc_set_def)

lemma proc_set_run: "proc_set p f s = Ok () (upd_proc p f s)"
  by (simp add: proc_set_def kmod_def)

lemma the_proc_cur: "cur s = Some c \<Longrightarrow> kbind the_proc g s = g c s"
  by (simp add: the_proc_def kbind_def kget_def ret_def)

lemma upd_proc_fields [simp]:
  "procs (upd_proc p f s) = (procs s)[p := f (procs s ! p)]" "held (upd_proc p f s) = held s"
  "cur (upd_proc p f s) = cur s" "cr3 (upd_proc p f s) = cr3 s"
  by (simp_all add: upd_proc_def)

section \<open>wait\<close>

definition child :: "('z proc_state_scheme) \<Rightarrow> nat \<Rightarrow> nat \<Rightarrow> bool" where
  "child s c i \<longleftrightarrow> i < length (procs s) \<and> p_parent (procs s ! i) = Some c"

lemma wait_none:
  assumes "cur s = Some c" "PtableLock \<notin> set (held s)"
    and "\<And>i. child s c i \<Longrightarrow> p_state (procs s ! i) \<noteq> ZOMBIE"
  shows "wait s = (if (\<forall>i. \<not> child s c i) \<or> p_killed (procs s ! c) then Ok (- 1) s
    else sleep (ChanProc c) PtableLock (s\<lparr>held := PtableLock # held s\<rparr>))"
proof -
  have z: "slot (\<lambda>p. p_parent p = Some c \<and> p_state p = ZOMBIE) (procs s) = None"
    using assms(3) by (auto simp: slot_None child_def)
  have n: "(slot (\<lambda>p. p_parent p = Some c) (procs s) = None) = (\<forall>i. \<not> child s c i)"
    by (auto simp: slot_None child_def)
  show ?thesis using assms(1,2) z n
    by (auto simp: wait_def the_proc_cur kbind_Ok ret_def)
qed

lemma wait_zombie:
  assumes "cur s = Some c" "wait s = Ok r t" "child s c j" "p_state (procs s ! j) = ZOMBIE"
  shows "\<exists>i. child s c i \<and> p_state (procs s ! i) = ZOMBIE \<and> r = p_pid (procs s ! i) \<and>
    procs t = (procs s)[i := (procs s ! i)\<lparr>p_kstack := 0, p_state := UNUSED, p_pid := 0, p_parent := None,
      p_name := (p_name (procs s ! i))[0 := 0], p_killed := False\<rparr>]"
proof -
  let ?P = "\<lambda>p. p_parent p = Some c \<and> p_state p = ZOMBIE"
  obtain i where i: "slot ?P (procs s) = Some i"
    using assms(3,4) by (cases "slot ?P (procs s)") (auto simp: slot_None child_def)
  have P: "i < length (procs s)" "?P (procs s ! i)" using slot_SomeD [OF i] by auto
  let ?p = "procs s ! i"
  from assms(1,2) i obtain a b d e where r:
    "acquire PtableLock s = Ok () a" "kfree (p_kstack ?p) a = Ok () b"
    "freevm (p_pgdir ?p) (upd_proc i (\<lambda>q. q\<lparr>p_kstack := 0\<rparr>) b) = Ok () d"
    "release PtableLock (upd_proc i (\<lambda>q. q\<lparr>p_state := UNUSED, p_pid := 0, p_parent := None,
       p_name := (p_name q)[0 := 0], p_killed := False\<rparr>) d) = Ok () t" "r = p_pid ?p"
    by (auto simp: wait_def the_proc_cur kbind_eq_Ok acquire_def split: if_splits)
  have "procs a = procs s" using r(1) by (auto dest: acquire_OkD)
  moreover have "procs b = procs a" by (rule keepsD [OF keeps_kfree r(2)])
  moreover have "procs d = procs (upd_proc i (\<lambda>q. q\<lparr>p_kstack := 0\<rparr>) b)" by (rule keepsD [OF keeps_freevm r(3)])
  ultimately have d: "procs d = (procs s)[i := ?p\<lparr>p_kstack := 0\<rparr>]" by simp
  have "procs t = (procs d)[i := (procs d ! i)\<lparr>p_state := UNUSED, p_pid := 0, p_parent := None,
       p_name := (p_name (procs d ! i))[0 := 0], p_killed := False\<rparr>]"
    using r(4) by (auto dest: release_OkD)
  with d P r(5) show ?thesis by (intro exI [of _ i]) (simp add: child_def)
qed

section \<open>exit\<close>

definition reparent_body :: "nat \<Rightarrow> nat \<Rightarrow> ('z proc_state_scheme, unit) kmon" where
  "reparent_body c i = kbind (proc_get i p_parent) (\<lambda>par. kwhen (par = Some c)
     (kbind (kget initproc) (\<lambda>ini. kbind (proc_set i (\<lambda>q. q\<lparr>p_parent := ini\<rparr>)) (\<lambda>_.
      kbind (proc_get i p_state) (\<lambda>st. kwhen (st = ZOMBIE) (wakeup1_ptr ini))))))"

definition wake_all :: "chan option \<Rightarrow> proc list \<Rightarrow> proc list" where
  "wake_all ch = map (\<lambda>q. if p_state q = SLEEPING \<and> p_chan q = ch then q\<lparr>p_state := RUNNABLE\<rparr> else q)"

lemma wakeup1_ptr_run: "wakeup1_ptr p s = Ok () (s\<lparr>procs := wake_all (map_option ChanProc p) (procs s)\<rparr>)"
  by (simp add: wakeup1_ptr_def wake_all_def kmod_def)

lemma reparent_body_run:
  assumes "i < length (procs s)"
  shows "\<exists>t. reparent_body c i s = Ok () t \<and> initproc t = initproc s \<and> held t = held s \<and> cur t = cur s \<and>
    (let qs = (if p_parent (procs s ! i) = Some c then (procs s)[i := (procs s ! i)\<lparr>p_parent := initproc s\<rparr>] else procs s) in
     procs t = (if p_parent (procs s ! i) = Some c \<and> p_state (procs s ! i) = ZOMBIE
       then wake_all (map_option ChanProc (initproc s)) qs else qs))"
  using assms by (auto simp: reparent_body_def kwhen_def wakeup1_ptr_run ret_def Let_def upd_proc_def)

lemma length_wake_all [simp]: "length (wake_all ch ps) = length ps"
  by (simp add: wake_all_def)

lemma wake_all_nth: "j < length ps \<Longrightarrow> wake_all ch ps ! j =
    (if p_state (ps ! j) = SLEEPING \<and> p_chan (ps ! j) = ch then (ps ! j)\<lparr>p_state := RUNNABLE\<rparr> else ps ! j)"
  by (simp add: wake_all_def)

text \<open>After the first \<open>k\<close> entries: those have been passed on, the others not yet.\<close>

definition passed_on :: "('z proc_state_scheme) \<Rightarrow> nat \<Rightarrow> nat \<Rightarrow> ('z proc_state_scheme) \<Rightarrow> bool" where
  "passed_on s c k t \<longleftrightarrow> length (procs t) = length (procs s) \<and> initproc t = initproc s \<and> held t = held s \<and> cur t = cur s \<and>
     (\<forall>j < length (procs s). let p = procs s ! j; q = procs t ! j in
        p_parent q = (if p_parent p = Some c \<and> j < k then initproc s else p_parent p) \<and>
        (p_state q = p_state p \<or> p_state p = SLEEPING \<and> p_chan p = map_option ChanProc (initproc s) \<and> p_state q = RUNNABLE) \<and>
        p_chan q = p_chan p \<and> p_pid q = p_pid p \<and> p_killed q = p_killed p \<and>
        ((\<exists>i < k. p_parent (procs s ! i) = Some c \<and> p_state (procs s ! i) = ZOMBIE) \<longrightarrow>
           \<not> (p_state q = SLEEPING \<and> p_chan q = map_option ChanProc (initproc s))))"

lemma passed_on_step:
  assumes "passed_on s c k t" "k < length (procs s)"
  shows "\<exists>u. reparent_body c k t = Ok () u \<and> passed_on s c (Suc k) u"
proof -
  have k: "k < length (procs t)" using assms by (simp add: passed_on_def)
  have pk: "p_parent (procs t ! k) = p_parent (procs s ! k)"
    "(p_state (procs t ! k) = ZOMBIE) = (p_state (procs s ! k) = ZOMBIE)"
    using assms by (auto simp: passed_on_def Let_def)
  from reparent_body_run [OF k] obtain u where u: "reparent_body c k t = Ok () u"
    "initproc u = initproc t" "held u = held t" "cur u = cur t"
    "procs u = (let qs = (if p_parent (procs t ! k) = Some c then (procs t)[k := (procs t ! k)\<lparr>p_parent := initproc t\<rparr>] else procs t) in
       if p_parent (procs t ! k) = Some c \<and> p_state (procs t ! k) = ZOMBIE
       then wake_all (map_option ChanProc (initproc t)) qs else qs)" by (auto simp: Let_def)
  have "passed_on s c (Suc k) u"
    unfolding passed_on_def Let_def
  proof (intro conjI allI impI)
    show "length (procs u) = length (procs s)" "initproc u = initproc s" "held u = held s" "cur u = cur s"
      using assms u by (auto simp: passed_on_def Let_def)
    fix j assume j: "j < length (procs s)"
    have pj: "p_parent (procs t ! j) = (if p_parent (procs s ! j) = Some c \<and> j < k then initproc s else p_parent (procs s ! j))"
      "p_state (procs t ! j) = p_state (procs s ! j) \<or> p_state (procs s ! j) = SLEEPING \<and>
         p_chan (procs s ! j) = map_option ChanProc (initproc s) \<and> p_state (procs t ! j) = RUNNABLE"
      "p_chan (procs t ! j) = p_chan (procs s ! j)" "p_pid (procs t ! j) = p_pid (procs s ! j)"
      "p_killed (procs t ! j) = p_killed (procs s ! j)"
      "(\<exists>i < k. p_parent (procs s ! i) = Some c \<and> p_state (procs s ! i) = ZOMBIE) \<Longrightarrow>
         \<not> (p_state (procs t ! j) = SLEEPING \<and> p_chan (procs t ! j) = map_option ChanProc (initproc s))"
      and len: "length (procs t) = length (procs s)" and ini: "initproc t = initproc s"
      using assms(1) j by (auto simp: passed_on_def Let_def)
    define q0 where "q0 = (if j = k \<and> p_parent (procs t ! k) = Some c then (procs t ! k)\<lparr>p_parent := initproc t\<rparr> else procs t ! j)"
    define wk where "wk \<longleftrightarrow> p_parent (procs t ! k) = Some c \<and> p_state (procs t ! k) = ZOMBIE"
    have q: "procs u ! j = (if wk \<and> p_state q0 = SLEEPING \<and> p_chan q0 = map_option ChanProc (initproc s)
        then q0\<lparr>p_state := RUNNABLE\<rparr> else q0)"
      using u(5) j len k ini by (simp add: Let_def wake_all_nth nth_list_update q0_def wk_def)
    have fields: "p_state q0 = p_state (procs t ! j)" "p_chan q0 = p_chan (procs s ! j)"
      "p_pid q0 = p_pid (procs s ! j)" "p_killed q0 = p_killed (procs s ! j)"
      "p_parent q0 = (if p_parent (procs s ! j) = Some c \<and> j < Suc k then initproc s else p_parent (procs s ! j))"
      using pj(1,3,4,5) pk(1) ini by (auto simp: less_Suc_eq q0_def)
    show "p_parent (procs u ! j) = (if p_parent (procs s ! j) = Some c \<and> j < Suc k then initproc s else p_parent (procs s ! j))"
      "p_chan (procs u ! j) = p_chan (procs s ! j)" "p_pid (procs u ! j) = p_pid (procs s ! j)"
      "p_killed (procs u ! j) = p_killed (procs s ! j)"
      unfolding q by (simp_all add: fields)
    show "p_state (procs u ! j) = p_state (procs s ! j) \<or> p_state (procs s ! j) = SLEEPING \<and>
        p_chan (procs s ! j) = map_option ChanProc (initproc s) \<and> p_state (procs u ! j) = RUNNABLE"
      unfolding q using pj(2) by (auto simp: fields(1,2))
    assume "\<exists>i < Suc k. p_parent (procs s ! i) = Some c \<and> p_state (procs s ! i) = ZOMBIE"
    then have "(\<exists>i < k. p_parent (procs s ! i) = Some c \<and> p_state (procs s ! i) = ZOMBIE) \<or> wk"
      using pk by (auto simp: less_Suc_eq wk_def)
    then show "\<not> (p_state (procs u ! j) = SLEEPING \<and> p_chan (procs u ! j) = map_option ChanProc (initproc s))"
      unfolding q using pj(3,6) by (auto simp: fields(1,2))
  qed
  with u(1) show ?thesis by blast
qed

lemma reparent_run: "\<exists>t. reparent c s = Ok () t \<and> passed_on s c (length (procs s)) t"
proof -
  let ?n = "length (procs s)"
  have r: "reparent c s = kfor [0..<?n] (reparent_body c) s"
    by (simp add: reparent_def reparent_body_def [abs_def])
  have "\<exists>t. kfor [0..<?n] (reparent_body c) s = Ok () t \<and> passed_on s c (length [0..<?n]) t"
  proof (rule kfor_total [where I = "\<lambda>done t. passed_on s c (length done) t"])
    show "passed_on s c (length []) s" by (simp add: passed_on_def Let_def)
    fix "done" i rest t
    assume split: "[0..<?n] = done @ i # rest" and inv: "passed_on s c (length done) t"
    have "i = length done" "i < ?n"
      using arg_cong [OF split, of "\<lambda>xs. xs ! length done"] arg_cong [OF split, of length] by (auto simp: nth_append)
    with passed_on_step [OF inv] show "\<exists>u. reparent_body c i t = Ok () u \<and> passed_on s c (length (done @ [i])) u" by auto
  qed
  with r show ?thesis by simp
qed

section \<open>Properties\<close>

text \<open>The scheduler takes the first runnable process from its place in the table on: it becomes
  the running one, on its own page table and kernel stack, nothing else in the table changes and
  \<open>ptable.lock\<close> stays held; at the end of the table the lock is released.\<close>

theorem scheduler_picks:
  assumes "PtableLock \<in> set (held s)" "\<And>j. j < length (procs s) \<Longrightarrow> p_state (procs s ! j) = RUNNABLE \<Longrightarrow> p_pgdir (procs s ! j) \<noteq> 0"
  shows "case find (\<lambda>j. p_state (procs s ! j) = RUNNABLE) [i..<length (procs s)] of
      None \<Rightarrow> scheduler_pick i s = Ok None (s\<lparr>held := remove1 PtableLock (held s)\<rparr>)
    | Some j \<Rightarrow> i \<le> j \<and> j < length (procs s) \<and> p_state (procs s ! j) = RUNNABLE \<and>
        (\<forall>k. i \<le> k \<and> k < j \<longrightarrow> p_state (procs s ! k) \<noteq> RUNNABLE) \<and>
        (\<exists>t. scheduler_pick i s = Ok (Some j) t \<and> cur t = Some j \<and> held t = held s \<and>
          procs t = (procs s)[j := (procs s ! j)\<lparr>p_state := RUNNING\<rparr>] \<and>
          cr3 t = v2p (word_of_nat (p_pgdir (procs s ! j))) \<and> tss_esp0 t = p_kstack (procs s ! j) + KSTACKSIZE)"
proof (cases "find (\<lambda>j. p_state (procs s ! j) = RUNNABLE) [i..<length (procs s)]")
  case None
  then show ?thesis using assms(1) by (simp add: scheduler_pick_def kbind_Ok ret_def)
next
  case (Some j)
  then obtain m where m: "m < length [i..<length (procs s)]" "j = [i..<length (procs s)] ! m"
    "p_state (procs s ! j) = RUNNABLE" "\<forall>k < m. p_state (procs s ! ([i..<length (procs s)] ! k)) \<noteq> RUNNABLE"
    by (auto simp: find_Some_iff)
  then have j: "i \<le> j" "j < length (procs s)" "j = i + m" by auto
  have "p_state (procs s ! k) \<noteq> RUNNABLE" if "i \<le> k" "k < j" for k
    using m(4) [rule_format, of "k - i"] that j by simp
  moreover have "\<exists>t. scheduler_pick i s = Ok (Some j) t \<and> cur t = Some j \<and> held t = held s \<and>
          procs t = (procs s)[j := (procs s ! j)\<lparr>p_state := RUNNING\<rparr>] \<and>
          cr3 t = v2p (word_of_nat (p_pgdir (procs s ! j))) \<and> tss_esp0 t = p_kstack (procs s ! j) + KSTACKSIZE"
    using Some assms(2) [OF j(2) m(3)]
    by (simp add: scheduler_pick_def switchuvm_def the_proc_cur ret_def upd_proc_def)
  ultimately show ?thesis using Some j m(3) by simp
qed



lemma keeps_comp: "keeps v m \<Longrightarrow> keeps (\<lambda>s. f (v s)) m"
  by (simp add: keeps_def)

lemma keeps_killed_upd [keeps_intros]:
  assumes "\<And>q. p_killed (f q) = p_killed q"
  shows "keeps (\<lambda>s. p_killed (procs s ! i)) (kmod (upd_proc p f))"
proof (rule keeps_kmod)
  show "p_killed (procs (upd_proc p f s) ! i) = p_killed (procs s ! i)" for s
    using assms by (cases "p < length (procs s)") (simp_all add: nth_list_update list_update_beyond)
qed

lemma allocproc_keeps_killed: "keeps (\<lambda>s. p_killed (procs s ! i)) allocproc"
  unfolding allocproc_def Let_def
  by (intro keeps_intros keeps_comp [OF keeps_kalloc, of "\<lambda>ps. p_killed (ps ! i)"]) simp_all

lemma allocproc_slot:
  assumes "allocproc s = Ok (Some r) t"
  shows "slot (\<lambda>p. p_state p = UNUSED) (procs s) = Some r"
  using assms
  by (auto simp: allocproc_def kbind_eq_Ok acquire_def Let_def split: option.splits if_splits)

text \<open>C26: \<open>kill(0)\<close> succeeds although no process has process id 0: it matches a free slot of the table,
  marks it killed, and the process that is next created in that slot starts out killed.\<close>

theorem kill_zero_dooms:
  assumes "PtableLock \<notin> set (held s)" "slot (\<lambda>p. p_state p = UNUSED) (procs s) = Some i"
    "slot (\<lambda>p. p_pid p = 0) (procs s) = Some i"
  shows "\<exists>t. kill 0 s = Ok 0 t \<and> (\<forall>r u. allocproc t = Ok (Some r) u \<longrightarrow> r = i \<and> p_killed (procs u ! i))"
proof -
  have i: "i < length (procs s)" "p_state (procs s ! i) = UNUSED" using slot_SomeD [OF assms(2)] by auto
  let ?ps = "(procs s)[i := (procs s ! i)\<lparr>p_killed := True\<rparr>]"
  have k: "kill 0 s = Ok 0 (s\<lparr>procs := ?ps\<rparr>)"
    using assms(1,3) i by (simp add: kill_def kbind_Ok upd_proc_def ret_def)
  have "slot (\<lambda>p. p_state p = UNUSED) ?ps = slot (\<lambda>p. p_state p = UNUSED) (procs s)"
  proof -
    have "(\<lambda>j. p_state (?ps ! j) = UNUSED) = (\<lambda>j. p_state (procs s ! j) = UNUSED)"
      using i by (auto simp: fun_eq_iff nth_list_update)
    then show ?thesis by (simp add: slot_def)
  qed
  then have "r = i \<and> p_killed (procs u ! i)" if "allocproc (s\<lparr>procs := ?ps\<rparr>) = Ok (Some r) u" for r u
    using allocproc_slot [OF that] keepsD [OF allocproc_keeps_killed that, of i] assms(2) i(1) by simp
  with k show ?thesis by blast
qed

text \<open>A table with a process 0 that has a runnable child 1 and a free slot 2; \<open>init\<close> is process 0.\<close>

definition demo_procs :: proc_state where
  "demo_procs = \<lparr>held = [], cur = Some 0, mem = (\<lambda>_. 0), freelist = 0, use_lock = True, kend = 0,
     sym_data = 0, kpgdir = 0, cr3 = 0, tss_esp0 = 0,
     procs = [unused_proc\<lparr>p_state := RUNNING, p_pid := 1\<rparr>, unused_proc\<lparr>p_state := RUNNABLE, p_pid := 2, p_pgdir := KBASE, p_parent := Some 0\<rparr>,
       unused_proc], nextpid = 3, initproc = Some 0, sym_forkret = 0, sym_trapret = 0\<rparr>"

lemma demo_procs_fields:
  "held demo_procs = []" "cur demo_procs = Some 0" "initproc demo_procs = Some 0" "length (procs demo_procs) = 3"
  "p_state (procs demo_procs ! 0) = RUNNING" "p_pid (procs demo_procs ! 0) = 1" "p_killed (procs demo_procs ! 0) = False"
  "p_state (procs demo_procs ! Suc 0) = RUNNABLE" "p_pid (procs demo_procs ! Suc 0) = 2"
  "p_pgdir (procs demo_procs ! Suc 0) = KBASE" "p_parent (procs demo_procs ! Suc 0) = Some 0"
  "p_state (procs demo_procs ! 2) = UNUSED" "p_pid (procs demo_procs ! 2) = 0"
  by (simp_all add: demo_procs_def unused_proc_def)

lemma upt_3: "[0..<3] = [0, 1, 2]"
  by (simp add: upt_rec)

lemma less_3: "j < 3 \<Longrightarrow> j = 0 \<or> j = Suc 0 \<or> j = (2 :: nat)"
  by auto

theorem kill_zero_dooms_witness: "\<exists>t. kill 0 demo_procs = Ok 0 t"
proof -
  have "slot (\<lambda>p. p_state p = UNUSED) (procs demo_procs) = Some 2" "slot (\<lambda>p. p_pid p = 0) (procs demo_procs) = Some 2"
    by (simp_all add: slot_def demo_procs_fields upt_3)
  then show ?thesis using kill_zero_dooms [of demo_procs 2] demo_procs_fields(1) by auto
qed

theorem scheduler_picks_witness:
  "\<exists>t. scheduler_pick 0 (demo_procs\<lparr>held := [PtableLock]\<rparr>) = Ok (Some 1) t \<and> cr3 t = 0"
proof -
  let ?s = "demo_procs\<lparr>held := [PtableLock]\<rparr>"
  have f: "find (\<lambda>j. p_state (procs ?s ! j) = RUNNABLE) [0..<length (procs ?s)] = Some 1"
    by (simp add: demo_procs_fields upt_3)
  have p: "p_pgdir (procs ?s ! j) \<noteq> 0" if "j < length (procs ?s)" "p_state (procs ?s ! j) = RUNNABLE" for j
    using that less_3 [of j] by (auto simp: demo_procs_fields)
  have "v2p (word_of_nat KBASE) = 0" by (simp add: v2p_def KERNBASE_def)
  then show ?thesis
    using scheduler_picks [of ?s 0, OF _ p] unfolding f by (auto simp: demo_procs_fields)
qed



end
