(* ===== verification/Spinlock.thy ===== *)
theory Spinlock
  imports Main
begin

text \<open>
  \<open>spinlock.c\<close> on several CPUs.  A CPU executes \<open>acquire\<close> and \<open>release\<close> in the atomic steps the
  hardware gives: \<open>pushcli\<close> and \<open>popcli\<close> touch only the CPU's own registers and counters, each
  \<open>xchg\<close> and each assignment to \<open>lk->cpu\<close> is one step, and the steps of different CPUs interleave
  in any order.  \<open>holding\<close> is one step although it reads two words: only this CPU ever stores
  its own name in \<open>lk->cpu\<close>.  Between calls a CPU is at \<open>Run\<close>; a panic leaves it at \<open>Panicked\<close>.
\<close>

section \<open>Interrupt nesting\<close>

record cli_state =
  iflag :: bool
  ncli :: int
  intena :: bool

definition pushcli :: "cli_state \<Rightarrow> cli_state" where
  "pushcli k = k\<lparr>iflag := False, ncli := ncli k + 1,
     intena := (if ncli k = 0 then iflag k else intena k)\<rparr>"

definition popcli :: "cli_state \<Rightarrow> string + cli_state" where
  "popcli k =
     (if iflag k then Inl ''popcli - interruptible''
      else if ncli k - 1 < 0 then Inl ''popcli''
      else Inr (k\<lparr>ncli := ncli k - 1, iflag := (ncli k - 1 = 0 \<and> intena k)\<rparr>))"

section \<open>The lock and the CPUs\<close>

record spinlock =
  lk_locked :: bool
  lk_cpu :: "nat option"

definition initlock :: spinlock where
  "initlock = \<lparr>lk_locked = False, lk_cpu = None\<rparr>"

datatype spc = Run | Spin nat | Stamp nat | Unstamp nat | Unlock nat | Pop | Panicked string

record spin_state =
  locks :: "nat \<Rightarrow> spinlock"
  cli :: "nat \<Rightarrow> cli_state"
  pc :: "nat \<Rightarrow> spc"

definition holding :: "spin_state \<Rightarrow> nat \<Rightarrow> nat \<Rightarrow> bool" where
  "holding s c l \<longleftrightarrow> lk_locked (locks s l) \<and> lk_cpu (locks s l) = Some c"

definition at :: "nat \<Rightarrow> spc \<Rightarrow> spin_state \<Rightarrow> spin_state" where
  "at c p s = s\<lparr>pc := (pc s)(c := p)\<rparr>"

definition set_cli :: "nat \<Rightarrow> cli_state \<Rightarrow> spin_state \<Rightarrow> spin_state" where
  "set_cli c k s = s\<lparr>cli := (cli s)(c := k)\<rparr>"

definition set_lock :: "nat \<Rightarrow> (spinlock \<Rightarrow> spinlock) \<Rightarrow> spin_state \<Rightarrow> spin_state" where
  "set_lock l f s = s\<lparr>locks := (locks s)(l := f (locks s l))\<rparr>"

text \<open>What a CPU does next: \<open>Acquire\<close> and \<open>Release\<close> start a call, \<open>Go\<close> continues one, \<open>Sti\<close> and
  \<open>Cli\<close> are other code of the kernel turning interrupts on, which it does only with no
  \<open>pushcli\<close> pending, and off.\<close>

datatype spin_act = Acquire nat | Release nat | Go | Sti | Cli

definition acquire_call :: "nat \<Rightarrow> nat \<Rightarrow> spin_state \<Rightarrow> spin_state" where
  "acquire_call c l s =
     (let s = set_cli c (pushcli (cli s c)) s in
      if holding s c l then at c (Panicked ''acquire'') s else at c (Spin l) s)"

definition release_call :: "nat \<Rightarrow> nat \<Rightarrow> spin_state \<Rightarrow> spin_state" where
  "release_call c l s =
     (if \<not> holding s c l then at c (Panicked ''release'') s else at c (Unstamp l) s)"

definition go :: "nat \<Rightarrow> spin_state \<Rightarrow> spin_state" where
  "go c s = (case pc s c of
     Spin l \<Rightarrow>
       (let old = lk_locked (locks s l); s = set_lock l (\<lambda>k. k\<lparr>lk_locked := True\<rparr>) s in
        if old then s else at c (Stamp l) s)
   | Stamp l \<Rightarrow> at c Run (set_lock l (\<lambda>k. k\<lparr>lk_cpu := Some c\<rparr>) s)
   | Unstamp l \<Rightarrow> at c (Unlock l) (set_lock l (\<lambda>k. k\<lparr>lk_cpu := None\<rparr>) s)
   | Unlock l \<Rightarrow> at c Pop (set_lock l (\<lambda>k. k\<lparr>lk_locked := False\<rparr>) s)
   | Pop \<Rightarrow> (case popcli (cli s c) of
       Inl e \<Rightarrow> at c (Panicked e) s | Inr k \<Rightarrow> at c Run (set_cli c k s))
   | _ \<Rightarrow> s)"

inductive spin_step :: "spin_state \<Rightarrow> nat \<Rightarrow> spin_act \<Rightarrow> spin_state \<Rightarrow> bool" where
  acquire: "pc s c = Run \<Longrightarrow> spin_step s c (Acquire l) (acquire_call c l s)"
| release: "pc s c = Run \<Longrightarrow> spin_step s c (Release l) (release_call c l s)"
| go: "spin_step s c Go (go c s)"
| sti: "pc s c = Run \<Longrightarrow> ncli (cli s c) = 0 \<Longrightarrow> spin_step s c Sti (set_cli c ((cli s c)\<lparr>iflag := True\<rparr>) s)"
| cli: "pc s c = Run \<Longrightarrow> spin_step s c Cli (set_cli c ((cli s c)\<lparr>iflag := False\<rparr>) s)"

definition spin_init :: spin_state where
  "spin_init = \<lparr>locks = (\<lambda>l. initlock), cli = (\<lambda>c. \<lparr>iflag = False, ncli = 0, intena = False\<rparr>), pc = (\<lambda>c. Run)\<rparr>"

inductive spin_reach :: "spin_state \<Rightarrow> bool" where
  init: "spin_reach spin_init"
| step: "spin_reach s \<Longrightarrow> spin_step s c a t \<Longrightarrow> spin_reach t"

text \<open>A CPU owns a lock from the \<open>xchg\<close> that took it to the one that gives it back.\<close>

definition owns :: "spin_state \<Rightarrow> nat \<Rightarrow> nat \<Rightarrow> bool" where
  "owns s c l \<longleftrightarrow> pc s c = Stamp l \<or> pc s c = Unlock l \<or> lk_cpu (locks s l) = Some c"

definition owner :: "spin_state \<Rightarrow> nat \<Rightarrow> nat option \<Rightarrow> bool" where
  "owner s l w \<longleftrightarrow> lk_locked (locks s l) = (w \<noteq> None) \<and> (\<forall>c. owns s c l \<longleftrightarrow> w = Some c) \<and>
     (\<forall>c. pc s c = Stamp l \<or> pc s c = Unlock l \<longrightarrow> lk_cpu (locks s l) = None) \<and>
     (\<forall>c. pc s c = Unstamp l \<longrightarrow> lk_cpu (locks s l) = Some c)"

lemma at_fields [simp]:
  "pc (at c p s) = (pc s)(c := p)" "locks (at c p s) = locks s" "cli (at c p s) = cli s"
  "pc (set_cli c k s) = pc s" "locks (set_cli c k s) = locks s" "cli (set_cli c k s) = (cli s)(c := k)"
  "pc (set_lock l f s) = pc s" "locks (set_lock l f s) = (locks s)(l := f (locks s l))" "cli (set_lock l f s) = cli s"
  by (simp_all add: at_def set_cli_def set_lock_def)

lemma ownerD:
  assumes "owner s l w"
  shows "lk_locked (locks s l) = (w \<noteq> None)" "owns s c l = (w = Some c)"
    "pc s c = Stamp l \<Longrightarrow> lk_cpu (locks s l) = None" "pc s c = Unlock l \<Longrightarrow> lk_cpu (locks s l) = None"
    "pc s c = Unstamp l \<Longrightarrow> lk_cpu (locks s l) = Some c"
  using assms unfolding owner_def by blast+

definition spin_inv :: "spin_state \<Rightarrow> bool" where
  "spin_inv s \<longleftrightarrow> (\<forall>l. \<exists>w. owner s l w)"

lemma owner_same:
  assumes "owner s l w" "locks t l = locks s l"
    and "\<And>c q. q \<in> {Stamp l, Unlock l, Unstamp l} \<Longrightarrow> (pc t c = q) = (pc s c = q)"
  shows "owner t l w"
  using assms by (simp add: owner_def owns_def)

lemma spin_inv_step:
  assumes "spin_inv s" "spin_step s c a t"
  shows "spin_inv t"
  unfolding spin_inv_def
proof
  fix l
  from assms(1) obtain w where w: "owner s l w" by (auto simp: spin_inv_def)
  from assms(2) show "\<exists>w. owner t l w"
  proof cases
    case (acquire l')
    with w show ?thesis
      by (intro exI [of _ w] owner_same [OF w]) (auto simp: acquire_call_def Let_def)
  next
    case (release l')
    show ?thesis
    proof (cases "l' = l \<and> holding s c l")
      case True
      with w release show ?thesis
        by (intro exI [of _ w]) (auto simp: owner_def owns_def release_call_def holding_def)
    next
      case False
      with w release show ?thesis
        by (intro exI [of _ w] owner_same [OF w]) (auto simp: release_call_def)
    qed
  next
    case go
    show ?thesis
    proof (cases "pc s c")
      case (Spin l')
      show ?thesis
      proof (cases "l' = l \<and> \<not> lk_locked (locks s l)")
        case True
        with w have "lk_cpu (locks s l) = None"
          by (cases "lk_cpu (locks s l)") (auto simp: owner_def owns_def)
        with w go Spin True show ?thesis
          by (intro exI [of _ "Some c"]) (auto simp: owner_def owns_def go_def Let_def)
      next
        case False
        with w go Spin show ?thesis
          by (intro exI [of _ w] owner_same [OF w]) (auto simp: go_def Let_def)
      qed
    next
      case (Stamp l')
      show ?thesis
      proof (cases "l' = l")
        case True
        have "owns s c l" using Stamp True by (simp add: owns_def)
        then have "w = Some c" using w by (simp add: owner_def)
        then have n: "lk_cpu (locks s l) = None" "lk_locked (locks s l)" "\<And>d. pc s d \<noteq> Unstamp l"
          "\<And>d. pc s d = Stamp l \<or> pc s d = Unlock l \<Longrightarrow> d = c"
          using w Stamp True by (auto simp: owner_def owns_def)
        with go Stamp True show ?thesis
          by (intro exI [of _ "Some c"]) (auto simp: owner_def owns_def go_def dest: n(4))
      next
        case False
        with w go Stamp show ?thesis
          by (intro exI [of _ w] owner_same [OF w]) (auto simp: go_def)
      qed
    next
      case (Unstamp l')
      show ?thesis
      proof (cases "l' = l")
        case True
        have c: "lk_cpu (locks s l) = Some c" using ownerD(5) [OF w] Unstamp True by simp
        then have "owns s c l" by (simp add: owns_def)
        then have "w = Some c" using ownerD(2) [OF w] by simp
        then have n: "lk_locked (locks s l)" using ownerD(1) [OF w] by simp
        have n2: "pc s d \<noteq> Stamp l" "pc s d \<noteq> Unlock l" for d
          using ownerD(3) [OF w, of d] ownerD(4) [OF w, of d] c by auto
        have n4: "d = c" if "pc s d = Unstamp l" for d
          using ownerD(5) [OF w that] c by simp
        have t: "t = at c (Unlock l) (set_lock l (\<lambda>k. k\<lparr>lk_cpu := None\<rparr>) s)"
          using go Unstamp True by (simp add: go_def)
        show ?thesis unfolding t
          by (intro exI [of _ "Some c"]) (auto simp: owner_def owns_def n n2 dest: n4)
      next
        case False
        with w go Unstamp show ?thesis
          by (intro exI [of _ w] owner_same [OF w]) (auto simp: go_def)
      qed
    next
      case (Unlock l')
      show ?thesis
      proof (cases "l' = l")
        case True
        have "owns s c l" using Unlock True by (simp add: owns_def)
        then have "w = Some c" using w by (simp add: owner_def)
        then have n: "lk_cpu (locks s l) = None" "\<And>d. pc s d \<noteq> Unstamp l"
          "\<And>d. pc s d = Stamp l \<or> pc s d = Unlock l \<Longrightarrow> d = c"
          using w Unlock True by (auto simp: owner_def owns_def)
        with go Unlock True show ?thesis
          by (intro exI [of _ None]) (auto simp: owner_def owns_def go_def dest: n(3))
      next
        case False
        with w go Unlock show ?thesis
          by (intro exI [of _ w] owner_same [OF w]) (auto simp: go_def)
      qed
    next
      case Pop
      with w go show ?thesis
        by (intro exI [of _ w] owner_same [OF w]) (auto simp: go_def split: sum.splits)
    qed (use w go in \<open>auto simp: go_def\<close>)
  next
    case sti
    with w show ?thesis by (intro exI [of _ w] owner_same [OF w]) auto
  next
    case cli
    with w show ?thesis by (intro exI [of _ w] owner_same [OF w]) auto
  qed
qed

section \<open>Interrupts\<close>

definition own_set :: "spin_state \<Rightarrow> nat \<Rightarrow> nat set" where
  "own_set s c = {l. owns s c l}"

text \<open>The \<open>pushcli\<close> of the call in progress that no lock accounts for yet, or no longer.\<close>

definition pending :: "spc \<Rightarrow> int" where
  "pending p = (case p of Spin l \<Rightarrow> 1 | Pop \<Rightarrow> 1 | _ \<Rightarrow> 0)"

definition cli_ok :: "spin_state \<Rightarrow> nat \<Rightarrow> bool" where
  "cli_ok s c \<longleftrightarrow> finite (own_set s c) \<and> (0 < ncli (cli s c) \<longrightarrow> \<not> iflag (cli s c)) \<and>
     ((\<forall>e. pc s c \<noteq> Panicked e) \<longrightarrow> ncli (cli s c) = int (card (own_set s c)) + pending (pc s c)) \<and>
     int (card (own_set s c)) \<le> ncli (cli s c) \<and> (\<forall>e. pc s c = Panicked e \<longrightarrow> e = ''acquire'' \<or> e = ''release'')"

lemma go_own_set:
  assumes "spin_inv s"
  shows "own_set (go c s) d =
    (if d \<noteq> c then own_set s d else case pc s c of
       Spin l \<Rightarrow> if lk_locked (locks s l) then own_set s c else insert l (own_set s c)
     | Unlock l \<Rightarrow> own_set s c - {l} | _ \<Rightarrow> own_set s c)"
proof -
  have o: "\<exists>w. owner s l w" for l using assms by (simp add: spin_inv_def)
  show ?thesis
  proof (cases "pc s c")
    case (Spin l)
    then show ?thesis by (auto simp: own_set_def owns_def go_def Let_def split: if_splits)
  next
    case (Stamp l)
    with o [of l] have "lk_cpu (locks s l) = None" by (auto simp: owner_def)
    with Stamp show ?thesis by (auto simp: own_set_def owns_def go_def split: if_splits)
  next
    case (Unstamp l)
    with o [of l] have "lk_cpu (locks s l) = Some c" by (auto simp: owner_def)
    with Unstamp show ?thesis by (auto simp: own_set_def owns_def go_def split: if_splits)
  next
    case (Unlock l)
    with o [of l] have "lk_cpu (locks s l) = None" by (auto simp: owner_def)
    with Unlock show ?thesis by (auto simp: own_set_def owns_def go_def split: if_splits)
  next
    case Pop
    then show ?thesis by (auto simp: own_set_def owns_def go_def split: sum.splits if_splits)
  qed (auto simp: own_set_def owns_def go_def)
qed

lemma own_set_same:
  assumes "locks t = locks s" "\<And>l q. q \<in> {Stamp l, Unlock l} \<Longrightarrow> (pc t d = q) = (pc s d = q)"
  shows "own_set t d = own_set s d"
  using assms by (simp add: own_set_def owns_def)

lemma go_other: "d \<noteq> c \<Longrightarrow> cli (go c s) d = cli s d \<and> pc (go c s) d = pc s d"
  by (auto simp: go_def Let_def split: spc.splits sum.splits)

lemma cli_ok_go:
  assumes inv: "spin_inv s" and ok: "cli_ok s d"
  shows "cli_ok (go c s) d"
proof (cases "d = c")
  case False
  with ok show ?thesis by (simp add: cli_ok_def go_own_set [OF inv] go_other)
next
  case True
  note os = go_own_set [OF inv, of c c]
  have o: "\<exists>w. owner s l w" for l using inv by (simp add: spin_inv_def)
  show ?thesis
  proof (cases "pc s c")
    case (Spin l)
    show ?thesis
    proof (cases "lk_locked (locks s l)")
      case False
      with o [of l] have "l \<notin> own_set s c" by (auto simp: owner_def own_set_def)
      with False Spin True ok os show ?thesis
        by (auto simp: cli_ok_def go_def Let_def pending_def)
    next
      case locked: True
      with Spin True ok os show ?thesis by (auto simp: cli_ok_def go_def Let_def pending_def)
    qed
  next
    case (Unlock l)
    then have l: "l \<in> own_set s c" by (simp add: own_set_def owns_def)
    with ok True have "0 < card (own_set s c)" by (auto simp: cli_ok_def card_gt_0_iff)
    with l Unlock True ok os show ?thesis
      by (auto simp: cli_ok_def go_def pending_def card_Diff_singleton)
  next
    case Pop
    with True ok os show ?thesis
      by (auto simp: cli_ok_def go_def pending_def popcli_def)
  qed (use True ok os in \<open>auto simp: cli_ok_def go_def pending_def\<close>)
qed

lemma cli_ok_step:
  assumes inv: "spin_inv s" and ok: "cli_ok s d" and step: "spin_step s c a t"
  shows "cli_ok t d"
  using step
proof cases
  case (acquire l)
  have "own_set t d = own_set s d" using acquire by (intro own_set_same) (auto simp: acquire_call_def Let_def)
  with acquire ok show ?thesis
    by (cases "d = c") (auto simp: cli_ok_def acquire_call_def Let_def pushcli_def pending_def)
next
  case (release l)
  have "own_set t d = own_set s d" using release by (intro own_set_same) (auto simp: release_call_def)
  with release ok show ?thesis
    by (cases "d = c") (auto simp: cli_ok_def release_call_def pending_def)
next
  case go
  with inv ok show ?thesis by (simp add: cli_ok_go)
next
  case sti
  have "own_set t d = own_set s d" using sti by (intro own_set_same) auto
  with sti ok show ?thesis by (cases "d = c") (auto simp: cli_ok_def)
next
  case cli
  have "own_set t d = own_set s d" using cli by (intro own_set_same) auto
  with cli ok show ?thesis by (cases "d = c") (auto simp: cli_ok_def)
qed

lemma spin_reach_inv: "spin_reach s \<Longrightarrow> spin_inv s \<and> (\<forall>c. cli_ok s c)"
proof (induction rule: spin_reach.induct)
  case init
  have "own_set spin_init c = {}" for c
    by (simp add: own_set_def owns_def spin_init_def initlock_def)
  then show ?case
    by (auto simp: spin_inv_def owner_def owns_def cli_ok_def pending_def spin_init_def initlock_def intro!: exI [of _ None])
next
  case (step s c a t)
  then show ?case using spin_inv_step cli_ok_step by blast
qed

section \<open>Properties\<close>

text \<open>C16: Mutual exclusion.  Whatever the interleaving of any number of CPUs, at most one owns a
  lock, the lock word says whether one does, and a CPU that is not inside a call to \<open>acquire\<close> or
  \<open>release\<close> gets from \<open>holding\<close> exactly whether it is the owner.\<close>

theorem spin_mutex:
  assumes "spin_reach s"
  shows "(owns s c l \<and> owns s d l \<longrightarrow> c = d) \<and> lk_locked (locks s l) = (\<exists>c. owns s c l) \<and>
    (pc s c = Run \<longrightarrow> holding s c l = owns s c l)"
proof (intro conjI impI)
  from spin_reach_inv [OF assms] obtain w where w: "owner s l w" by (auto simp: spin_inv_def)
  then show "owns s c l \<and> owns s d l \<Longrightarrow> c = d" "lk_locked (locks s l) = (\<exists>c. owns s c l)"
    by (auto simp: owner_def)
  assume "pc s c = Run"
  then show "holding s c l = owns s c l"
    using w by (auto simp: owner_def owns_def holding_def)
qed

text \<open>C17: \<open>cpu->ncli\<close> counts the locks a CPU owns, plus one inside a call; interrupts are off
  on a CPU that owns a lock; the two panics of \<open>popcli\<close> never happen.\<close>

theorem spin_interrupts:
  assumes "spin_reach s"
  shows "(pc s c = Run \<longrightarrow> ncli (cli s c) = int (card {l. owns s c l})) \<and>
    (owns s c l \<longrightarrow> \<not> iflag (cli s c)) \<and> pc s c \<noteq> Panicked ''popcli'' \<and>
    pc s c \<noteq> Panicked ''popcli - interruptible''"
proof -
  have ok: "cli_ok s c" using assms spin_reach_inv by blast
  have "0 < ncli (cli s c)" if "owns s c l"
  proof -
    from that have "l \<in> own_set s c" by (simp add: own_set_def)
    with ok have "0 < card (own_set s c)" by (auto simp: cli_ok_def card_gt_0_iff)
    with ok show ?thesis by (simp add: cli_ok_def)
  qed
  with ok show ?thesis by (auto simp: cli_ok_def own_set_def pending_def)
qed

text \<open>CPU 0 takes lock 7 while CPU 1 is spinning for it.\<close>

definition demo_spin :: spin_state where
  "demo_spin = go 1 (go 0 (go 0 (acquire_call 1 7 (acquire_call 0 7 spin_init))))"

lemma demo_spin_reach: "spin_reach demo_spin"
proof -
  have 1: "spin_reach (acquire_call 0 7 spin_init)"
    by (rule spin_reach.step [OF spin_reach.init spin_step.acquire]) (simp add: spin_init_def)
  have "pc (acquire_call 0 7 spin_init) 1 = Run"
    by (simp add: acquire_call_def Let_def spin_init_def holding_def initlock_def)
  then have 2: "spin_reach (acquire_call 1 7 (acquire_call 0 7 spin_init))"
    by (rule spin_reach.step [OF 1 spin_step.acquire])
  show ?thesis unfolding demo_spin_def
    by (rule spin_reach.step [OF spin_reach.step [OF spin_reach.step [OF 2 spin_step.go] spin_step.go] spin_step.go])
qed

lemma demo_spin_owner: "owns demo_spin 0 7" "pc demo_spin 0 = Run" "pc demo_spin 1 = Spin 7"
  by (simp_all add: demo_spin_def go_def acquire_call_def Let_def holding_def spin_init_def initlock_def owns_def)

theorem spin_mutex_witness: "holding demo_spin 0 7 \<and> \<not> owns demo_spin 1 7"
  using spin_mutex [OF demo_spin_reach, of 0 7 1] demo_spin_owner by auto

theorem spin_interrupts_witness: "\<not> iflag (cli demo_spin 0)"
  using spin_interrupts [OF demo_spin_reach, of 0 7] demo_spin_owner by simp

end
