(* ===== verification/Grep.thy ===== *)
theory Grep
  imports Prelude
begin

text \<open>
  The user program \<open>grep.c\<close>: the matcher for \<open>^ . * $\<close> and the loop over the input.  A C string is
  the list of its bytes before the NUL.  The declarative meaning of a pattern is \<open>matches\<close>; the
  lemmas show that \<open>match\<close> decides whether the pattern occurs in the text, and the last lemma that
  the input loop takes bytes of an earlier read for part of the input.
\<close>

section \<open>The matcher\<close>

text \<open>42 is \<open>*\<close>, 36 \<open>$\<close>, 46 \<open>.\<close> and 94 \<open>^\<close>.\<close>

fun matchhere :: "byte list \<Rightarrow> byte list \<Rightarrow> bool"
and matchstar :: "byte \<Rightarrow> byte list \<Rightarrow> byte list \<Rightarrow> bool" where
  "matchhere [] text = True"
| "matchhere (c # re) text =
     (if re \<noteq> [] \<and> hd re = 42 then matchstar c (tl re) text
      else if c = 36 \<and> re = [] then text = []
      else case text of [] \<Rightarrow> False | x # xs \<Rightarrow> (c = 46 \<or> c = x) \<and> matchhere re xs)"
| "matchstar c re text =
     (if matchhere re text then True
      else case text of [] \<Rightarrow> False | x # xs \<Rightarrow> (x = c \<or> c = 46) \<and> matchstar c re xs)"

declare matchhere.simps(2) [simp del] matchstar.simps [simp del]

text \<open>The \<open>do\<close> loop of \<open>match\<close>, over the suffixes of the text, the empty one included.\<close>

fun match_suffixes :: "byte list \<Rightarrow> byte list \<Rightarrow> bool" where
  "match_suffixes re text =
     (if matchhere re text then True else case text of [] \<Rightarrow> False | x # xs \<Rightarrow> match_suffixes re xs)"

declare match_suffixes.simps [simp del]

definition match :: "byte list \<Rightarrow> byte list \<Rightarrow> bool" where
  "match re text = (if re \<noteq> [] \<and> hd re = 94 then matchhere (tl re) text else match_suffixes re text)"

section \<open>What a pattern means\<close>

datatype atom = One byte | Many byte | AtEnd

fun atoms :: "byte list \<Rightarrow> atom list" where
  "atoms [] = []"
| "atoms (c # re) =
     (if re \<noteq> [] \<and> hd re = 42 then Many c # atoms (tl re)
      else if c = 36 \<and> re = [] then [AtEnd] else One c # atoms re)"

declare atoms.simps(2) [simp del]

definition fits :: "byte \<Rightarrow> byte \<Rightarrow> bool" where
  "fits c x \<longleftrightarrow> c = 46 \<or> c = x"

text \<open>\<open>matches ats xs rest\<close>: the atoms match exactly \<open>xs\<close> when \<open>rest\<close> follows it.\<close>

inductive matches :: "atom list \<Rightarrow> byte list \<Rightarrow> byte list \<Rightarrow> bool" where
  Done: "matches [] [] rest"
| One: "fits c x \<Longrightarrow> matches ats xs rest \<Longrightarrow> matches (One c # ats) (x # xs) rest"
| Many: "\<forall>x \<in> set ys. fits c x \<Longrightarrow> matches ats xs rest \<Longrightarrow> matches (Many c # ats) (ys @ xs) rest"
| AtEnd: "matches ats [] [] \<Longrightarrow> matches (AtEnd # ats) [] []"

inductive_cases matches_ManyE: "matches (Many c # ats) xs rest"

definition prefix_match :: "atom list \<Rightarrow> byte list \<Rightarrow> bool" where
  "prefix_match ats text \<longleftrightarrow> (\<exists>xs rest. text = xs @ rest \<and> matches ats xs rest)"

lemma prefix_match_Nil: "prefix_match [] text"
  unfolding prefix_match_def by (rule exI [of _ "[]"]) (simp add: matches.Done)

lemma prefix_match_AtEnd: "prefix_match [AtEnd] text = (text = [])"
proof
  assume "prefix_match [AtEnd] text"
  then obtain xs rest where x: "text = xs @ rest" and m: "matches [AtEnd] xs rest" by (auto simp: prefix_match_def)
  from m have "xs = [] \<and> rest = []" by cases simp
  with x show "text = []" by (metis append_Nil)
next
  assume "text = []"
  then show "prefix_match [AtEnd] text"
    unfolding prefix_match_def by (intro exI [of _ "[]"] conjI matches.AtEnd matches.Done) simp
qed

lemma prefix_match_One:
  "prefix_match (One c # ats) text = (case text of [] \<Rightarrow> False | x # xs \<Rightarrow> fits c x \<and> prefix_match ats xs)"
proof (cases "text")
  case Nil
  then show ?thesis by (auto simp: prefix_match_def elim: matches.cases)
next
  case (Cons x xs)
  show ?thesis
  proof
    assume "prefix_match (One c # ats) text"
    then obtain ys rest where t: "text = ys @ rest" and m: "matches (One c # ats) ys rest"
      by (auto simp: prefix_match_def)
    from m obtain zs where "ys = x # zs" "fits c x" "matches ats zs rest"
      using t Cons by cases auto
    with t Cons show "case text of [] \<Rightarrow> False | x # xs \<Rightarrow> fits c x \<and> prefix_match ats xs"
      unfolding prefix_match_def by (simp, intro exI [of _ zs] exI [of _ rest]) simp
  next
    assume "case text of [] \<Rightarrow> False | x # xs \<Rightarrow> fits c x \<and> prefix_match ats xs"
    then obtain ys rest where "fits c x" "xs = ys @ rest" "matches ats ys rest"
      using Cons by (auto simp: prefix_match_def)
    then show "prefix_match (One c # ats) text"
      unfolding prefix_match_def using Cons
      by (intro exI [of _ "x # ys"] exI [of _ rest] conjI matches.One) simp_all
  qed
qed

lemma prefix_match_Many:
  "prefix_match (Many c # ats) text =
     (prefix_match ats text \<or> (case text of [] \<Rightarrow> False | x # xs \<Rightarrow> fits c x \<and> prefix_match (Many c # ats) xs))"
proof
  assume "prefix_match (Many c # ats) text"
  then obtain ys xs rest where t: "text = (ys @ xs) @ rest" "\<forall>x \<in> set ys. fits c x" "matches ats xs rest"
    by (auto simp: prefix_match_def elim!: matches_ManyE)
  show "prefix_match ats text \<or> (case text of [] \<Rightarrow> False | x # xs \<Rightarrow> fits c x \<and> prefix_match (Many c # ats) xs)"
  proof (cases ys)
    case Nil
    with t show ?thesis by (auto simp: prefix_match_def)
  next
    case (Cons y ys')
    with t have "matches (Many c # ats) (ys' @ xs) rest" by (auto intro: matches.Many)
    with t Cons show ?thesis by (auto simp: prefix_match_def)
  qed
next
  assume a: "prefix_match ats text \<or> (case text of [] \<Rightarrow> False | x # xs \<Rightarrow> fits c x \<and> prefix_match (Many c # ats) xs)"
  then show "prefix_match (Many c # ats) text"
  proof
    assume "prefix_match ats text"
    then obtain xs rest where "text = xs @ rest" "matches ats xs rest" by (auto simp: prefix_match_def)
    then show ?thesis using matches.Many [of "[]" c ats xs rest] by (auto simp: prefix_match_def)
  next
    assume "case text of [] \<Rightarrow> False | x # xs \<Rightarrow> fits c x \<and> prefix_match (Many c # ats) xs"
    then obtain x xs where x: "text = x # xs" "fits c x" "prefix_match (Many c # ats) xs" by (auto split: list.splits)
    then obtain ys zs rest where "xs = (ys @ zs) @ rest" "\<forall>x \<in> set ys. fits c x" "matches ats zs rest"
      by (auto simp: prefix_match_def elim!: matches_ManyE)
    then show ?thesis using x matches.Many [of "x # ys" c ats zs rest]
      unfolding prefix_match_def by (intro exI [of _ "x # ys @ zs"] exI [of _ rest]) simp
  qed
qed

lemma matchhere_iff:
  "matchhere re text = prefix_match (atoms re) text"
  "matchstar c re text = prefix_match (Many c # atoms re) text"
proof (induction re "text" and c re "text" rule: matchhere_matchstar.induct)
  case (1 "text")
  then show ?case by (simp add: prefix_match_Nil)
next
  case (2 c re "text")
  then show ?case
    by (auto simp: matchhere.simps(2) atoms.simps(2) prefix_match_AtEnd prefix_match_One fits_def split: list.splits)
next
  case (3 c re "text")
  then show ?case
    by (subst matchstar.simps, subst prefix_match_Many) (auto simp: fits_def split: list.splits)
qed

lemma match_suffixes_iff: "match_suffixes re text = (\<exists>q bs. text = q @ bs \<and> matchhere re bs)"
proof (induction "text")
  case Nil
  then show ?case by (simp add: match_suffixes.simps)
next
  case (Cons x xs)
  have "(\<exists>q bs. x # xs = q @ bs \<and> matchhere re bs) = (matchhere re (x # xs) \<or> (\<exists>q bs. xs = q @ bs \<and> matchhere re bs))"
    by (auto simp: Cons_eq_append_conv)
  with Cons show ?case by (subst match_suffixes.simps) simp
qed

text \<open>C27: \<open>match\<close> decides occurrence: a pattern that starts with \<open>^\<close> is compared with the beginning of
  the text only, any other pattern is accepted exactly when its atoms (a byte, any byte, a starred
  one, the end) match some stretch of the text.\<close>

theorem match_occurs:
  "match re text =
     (if re \<noteq> [] \<and> hd re = 94 then prefix_match (atoms (tl re)) text
      else \<exists>q bs. text = q @ bs \<and> prefix_match (atoms re) bs)"
  by (simp add: match_def matchhere_iff match_suffixes_iff)

section \<open>The input loop\<close>

text \<open>The memory around the buffer is a list of bytes and \<open>buf\<close> the place of the buffer in it;
  \<open>None\<close> is an access outside of it.  \<open>strchr\<close> of \<open>ulib.c\<close>, from place \<open>i\<close> on: the place found, or none
  before the first NUL.\<close>

fun strchr :: "byte list \<Rightarrow> byte \<Rightarrow> nat \<Rightarrow> nat option option" where
  "strchr [] c i = None"
| "strchr (x # xs) c i =
     (if x = 0 then Some None else if x = c then Some (Some i) else strchr xs c (i + 1))"

lemma strchr_range: "strchr xs c i = Some (Some q) \<Longrightarrow> i \<le> q \<and> q < i + length xs"
  by (induction xs c i rule: strchr.induct) (auto split: if_splits)

lemma strchr_found:
  "0 \<notin> set l \<Longrightarrow> c \<notin> set l \<Longrightarrow> c \<noteq> 0 \<Longrightarrow> strchr (l @ c # s) c i = Some (Some (i + length l))"
  by (induction l arbitrary: i) auto

lemma strchr_none: "0 \<notin> set l \<Longrightarrow> c \<notin> set l \<Longrightarrow> strchr (l @ 0 # s) c i = Some None"
  by (induction l arbitrary: i) auto

text \<open>The lines that are complete, from \<open>p\<close> on, with the bytes printed so far.\<close>

function grep_lines :: "byte list \<Rightarrow> byte list \<Rightarrow> nat \<Rightarrow> byte list \<Rightarrow> (byte list \<times> nat \<times> byte list) option" where
  "grep_lines pattern mem p out =
     (case strchr (drop p mem) 10 p of
        None \<Rightarrow> None
      | Some None \<Rightarrow> Some (mem, p, out)
      | Some (Some q) \<Rightarrow>
          (let cut = mem[q := 0] in
           if match pattern (takeWhile (\<lambda>x. x \<noteq> 0) (drop p cut))
           then grep_lines pattern (cut[q := 10]) (q + 1) (out @ take (q + 1 - p) (drop p (cut[q := 10])))
           else grep_lines pattern cut (q + 1) out))"
  by pat_completeness auto
termination
  by (relation "measure (\<lambda>(pattern, mem, p, out). length mem - p)") (auto dest!: strchr_range)

declare grep_lines.simps [simp del]

text \<open>What \<open>read\<close> delivers of the input that has arrived, in pieces.\<close>

fun read_in :: "nat \<Rightarrow> byte list list \<Rightarrow> byte list \<times> byte list list" where
  "read_in room [] = ([], [])"
| "read_in room (c # cs) = (take room c, if length c \<le> room then cs else drop room c # cs)"

definition put :: "byte list \<Rightarrow> nat \<Rightarrow> byte list \<Rightarrow> byte list" where
  "put mem a bs = take a mem @ bs @ drop (a + length bs) mem"

lemma read_in_less:
  "read_in room inp = (bs, inp') \<Longrightarrow> bs \<noteq> [] \<Longrightarrow> sum_list (map length inp') < sum_list (map length inp)"
  by (cases inp) (auto split: if_splits)

text \<open>The \<open>while\<close> loop; \<open>m\<close> is an \<open>int\<close> of C, and \<open>memmove\<close> copies nothing when it is negative.  The result
  is what has been printed, the last \<open>m\<close> and the memory.\<close>

function grep :: "byte list \<Rightarrow> nat \<Rightarrow> byte list \<Rightarrow> int \<Rightarrow> byte list list \<Rightarrow> byte list \<Rightarrow> (byte list \<times> int \<times> byte list) option" where
  "grep pattern buf mem m inp out =
     (let (bs, inp') = read_in (nat (1024 - m)) inp; a = int buf + m in
      if bs = [] then Some (out, m, mem)
      else if a < 0 \<or> int (length mem) < a + int (length bs) then None
      else
        (let m1 = m + int (length bs) in
         case grep_lines pattern (put mem (nat a) bs) buf out of
           None \<Rightarrow> None
         | Some (mem1, p, out1) \<Rightarrow>
             (let m2 = (if p = buf then 0 else m1) in
              if 0 < m2
              then (let m3 = m2 - int (p - buf) in
                    if int (length mem) < int p + m3 then None
                    else grep pattern buf (put mem1 buf (take (nat m3) (drop p mem1))) m3 inp' out1)
              else grep pattern buf mem1 m2 inp' out1)))"
  by pat_completeness auto
termination
  by (relation "measure (\<lambda>(pattern, buf, mem, m, inp, out). sum_list (map length inp))")
    (auto intro: read_in_less [OF sym])

declare grep.simps [simp del]

text \<open>The files named on the command line: \<open>opn\<close> gives what the reads of a file deliver, or \<open>None\<close> where it
  cannot be opened.  The buffer is the same for all of them.\<close>

fun grep_files :: "(byte list \<Rightarrow> byte list list option) \<Rightarrow> byte list \<Rightarrow> nat \<Rightarrow> byte list \<Rightarrow> byte list list \<Rightarrow> byte list \<Rightarrow> byte list option" where
  "grep_files opn pattern buf mem [] out = Some out"
| "grep_files opn pattern buf mem (f # fs) out =
     (case opn f of
        None \<Rightarrow> Some (out @ map of_char ''grep: cannot open '' @ f @ [10])
      | Some inp \<Rightarrow> (case grep pattern buf mem 0 inp out of
            None \<Rightarrow> None
          | Some (out, _, mem) \<Rightarrow> grep_files opn pattern buf mem fs out))"

text \<open>\<open>argv\<close> are the arguments behind the program's name; the usage message goes to descriptor 2.\<close>

fun grep_main :: "(byte list \<Rightarrow> byte list list option) \<Rightarrow> byte list list \<Rightarrow> nat \<Rightarrow> byte list \<Rightarrow> byte list list \<Rightarrow> byte list option" where
  "grep_main opn inp buf mem [] = Some []"
| "grep_main opn inp buf mem [pattern] = map_option fst (grep pattern buf mem 0 inp [])"
| "grep_main opn inp buf mem (pattern # files) = grep_files opn pattern buf mem files []"

section \<open>What one read prints\<close>

definition joined :: "byte list list \<Rightarrow> byte list" where
  "joined ls = concat (map (\<lambda>l. l @ [10]) ls)"

lemma joined_simps [simp]: "joined [] = []" "joined (l # ls) = l @ 10 # joined ls"
  by (simp_all add: joined_def)

text \<open>A line of text: no NUL and no newline.\<close>

definition plain :: "byte list \<Rightarrow> bool" where
  "plain l \<longleftrightarrow> 0 \<notin> set l \<and> 10 \<notin> set l"

lemma takeWhile_plain: "plain l \<Longrightarrow> takeWhile (\<lambda>x. x \<noteq> 0) (l @ 0 # s) = l"
  by (induction l) (auto simp: plain_def)

lemma grep_lines_plain:
  assumes "list_all plain ls" "plain r" "mem = pre @ joined ls @ r @ 0 # post"
  shows "\<exists>mem'. grep_lines pattern mem (length pre) out =
           Some (mem', length pre + length (joined ls), out @ joined (filter (match pattern) ls))
         \<and> length mem' = length mem \<and> drop (length pre + length (joined ls)) mem' = r @ 0 # post
         \<and> (list_all (match pattern) ls \<longrightarrow> mem' = mem)"
  using assms
proof (induction ls arbitrary: mem pre out)
  case Nil
  then have "strchr (drop (length pre) mem) 10 (length pre) = Some None"
    by (simp add: strchr_none plain_def)
  with Nil show ?case by (subst grep_lines.simps) simp
next
  case (Cons l ls)
  define rest where "rest = joined ls @ r @ 0 # post"
  from Cons have l: "plain l" and mem: "mem = pre @ l @ 10 # rest" by (auto simp: rest_def)
  define q where "q = length pre + length l"
  have q: "strchr (drop (length pre) mem) 10 (length pre) = Some (Some q)"
    using l by (simp add: mem strchr_found plain_def q_def)
  have cut: "mem[q := 0] = pre @ l @ 0 # rest" "(mem[q := 0])[q := 10] = pre @ l @ 10 # rest"
    by (simp_all add: mem q_def list_update_append)
  have cut2: "(pre @ l @ 0 # rest)[q := 10] = pre @ l @ 10 # rest"
    by (simp add: q_def list_update_append)
  define mem2 where "mem2 = (if match pattern l then pre @ l @ 10 # rest else pre @ l @ 0 # rest)"
  define out2 where "out2 = (if match pattern l then out @ l @ [10] else out)"
  have step: "grep_lines pattern mem (length pre) out = grep_lines pattern mem2 (q + 1) out2"
    by (subst grep_lines.simps, simp only: q option.case Let_def cut cut2)
      (simp add: takeWhile_plain [OF l] mem2_def out2_def, simp add: q_def)
  have pre2: "q + 1 = length (take (q + 1) mem2)" by (simp add: mem2_def q_def)
  have m2: "mem2 = take (q + 1) mem2 @ joined ls @ r @ 0 # post" by (simp add: mem2_def q_def rest_def)
  from Cons.prems have "list_all plain ls" "plain r" by simp_all
  from Cons.IH [OF this m2, of out2, folded pre2]
  show ?case
    unfolding step by (cases "match pattern l") (auto simp add: out2_def q_def mem2_def mem algebra_simps)
qed

text \<open>Input that arrives in one read, lines of text with or without an unfinished last one, is
  filtered correctly when the buffer is still zero behind it: exactly the complete lines that match are
  printed, in order.\<close>

theorem grep_one_read:
  assumes "list_all plain ls" "plain r" "length (joined ls @ r) < 1024" "joined ls @ r \<noteq> []" "length pre = buf"
  shows "map_option fst (grep pattern buf (pre @ replicate 1024 0 @ post) 0 [joined ls @ r] [])
       = Some (joined (filter (match pattern) ls))"
proof -
  define bs where "bs = joined ls @ r"
  define k where "k = 1024 - length bs"
  define mem where "mem = pre @ joined ls @ r @ replicate k 0 @ post"
  obtain j where j: "k = Suc j" using assms(3) by (cases k) (auto simp: k_def bs_def)
  have put: "put (pre @ replicate 1024 0 @ post) buf bs = mem"
    using assms(3, 5) by (simp add: put_def mem_def bs_def k_def)
  have len: "length mem = buf + 1024 + length post"
    using assms(3, 5) by (simp add: mem_def k_def bs_def)
  have rd: "read_in 1024 [bs] = (bs, [])" using assms(3) by (simp add: bs_def)
  have mem: "mem = pre @ joined ls @ r @ 0 # (replicate j 0 @ post)" by (simp add: mem_def j)
  from grep_lines_plain [OF assms(1, 2) mem, of pattern "[]"] assms(5)
  obtain mem' where gl: "grep_lines pattern mem buf [] =
      Some (mem', buf + length (joined ls), joined (filter (match pattern) ls))"
    and len': "length mem' = length mem" by auto
  have last: "\<exists>a b. grep pattern buf m' m [] out = Some (out, a, b)" for m' m out
    by (subst grep.simps) simp
  have bs: "bs \<noteq> []" "length bs < 1024" "length (joined ls) \<le> length bs" using assms(3, 4) by (simp_all add: bs_def)
  show ?thesis
    unfolding bs_def [symmetric]
    by (subst grep.simps) (use bs in \<open>simp add: rd put gl last len [unfolded assms(5)] len' assms(5) Let_def\<close>)
qed

text \<open>The model reads three lines and one byte more, then one byte.\<close>

theorem grep_one_read_witness:
  "map_option fst (grep [98] 0 (replicate 1024 0) 0 [[97, 98, 10, 99, 10, 98]] []) = Some [97, 98, 10]"
  using grep_one_read [of "[[97, 98], [99]]" "[98]" "[]" 0 "[98]" "[]"]
  by (simp add: plain_def match_def match_suffixes.simps matchhere.simps)

text \<open>Input that comes in two reads is not filtered correctly: after the pieces \<open>a b c\<close> (with two
  newlines) and \<open>d\<close>, the loop has printed a line \<open>cdb\<close> that is not in the input, because it looks for
  newlines behind the \<open>m\<close> bytes that are valid, and \<open>m\<close> is then negative, so that the next read stores
  below the buffer.\<close>

theorem grep_stale_bytes:
  "map_option (\<lambda>(out, m, _). (out, m)) (grep [] (length pre) (pre @ replicate 1024 0) 0 [[97, 10, 98, 10, 99], [100]] [])
     = Some ([97, 10, 98, 10, 99, 100, 98, 10], -2)"
proof -
  define post where "post = (replicate 1018 0 :: byte list)"
  have r: "replicate 1024 0 = [0, 0, 0, 0, 0, 0] @ post"
    by (simp add: post_def replicate_append_same flip: replicate_Suc)
  have l: "length post = 1018" by (simp add: post_def)
  have every [simp]: "match [] l" for l by (simp add: match_def match_suffixes.simps)
  define mem1 where "mem1 = pre @ [97, 10, 98, 10, 99, 0] @ post"
  define mem2 where "mem2 = pre @ [99, 100, 98, 10, 99, 0] @ post"
  have g1: "grep_lines [] mem1 (length pre) [] = Some (mem1, length pre + 4, [97, 10, 98, 10])"
    using grep_lines_plain [of "[[97], [98]]" "[99]" mem1 pre post "[]" "[]"]
    by (simp add: mem1_def plain_def)
  have g2: "grep_lines [] mem2 (length pre) out = Some (mem2, length pre + 4, out @ [99, 100, 98, 10])" for out
    using grep_lines_plain [of "[[99, 100, 98]]" "[99]" mem2 pre post "[]" out]
    by (simp add: mem2_def plain_def)
  have p1: "put (pre @ replicate 1024 0) (length pre) [97, 10, 98, 10, 99] = mem1"
    by (simp add: put_def r mem1_def)
  have p2: "put (put mem1 (length pre) [99]) (Suc (length pre)) [100] = mem2"
    by (simp add: put_def mem1_def mem2_def)
  have len: "length mem1 = length pre + 1024" "length mem2 = length pre + 1024"
    by (simp_all add: mem1_def mem2_def l)
  have t: "take (Suc 0) (drop (length pre + 4) mem1) = [99]" by (simp add: mem1_def)
  have 3: "grep [] (length pre) mem2 (-2) [] out = Some (out, -2, mem2)" for out by (subst grep.simps) simp
  have 2: "grep [] (length pre) (put mem1 (length pre) [99]) 1 [[100]] out =
      Some (out @ [99, 100, 98, 10], -2, mem2)" for out
  proof -
    have "length (put mem1 (length pre) [99]) = length pre + 1024" by (simp add: put_def mem1_def l)
    moreover have z: "put mem2 (length pre) [] = mem2" by (simp add: put_def)
    ultimately show ?thesis
      by (subst grep.simps) (simp add: nat_add_distrib p2 g2 len Let_def 3 z)
  qed
  show ?thesis
    by (subst grep.simps) (simp add: p1 g1 len Let_def t 2)
qed

end
