(* ===== verification/Sh.thy ===== *)
theory Sh
  imports Prelude
begin

text \<open>
  The command parser of the shell, \<open>sh.c\<close>.  The line is the list of its bytes before the NUL and a
  \<open>char *\<close> into it is a position; \<open>es\<close> is its length.  A \<open>struct cmd\<close> is a value of \<open>cmd\<close> that keeps,
  like the source, positions for the strings; \<open>nulterminate\<close> then stores NULs into the line.  The
  \<open>panic\<close> of the parser prints and exits, so it is the result \<open>Panic\<close>.  \<open>malloc\<close> is taken to succeed;
  the constructors of the source are those of the datatype.
\<close>

section \<open>Commands and results\<close>

type_synonym str = "nat \<times> nat"

datatype cmd =
    EXEC "str list"
  | REDIR cmd str int int
  | PIPE cmd cmd
  | LIST cmd cmd
  | BACK cmd

text \<open>The constructor functions.\<close>

abbreviation execcmd :: cmd where "execcmd \<equiv> EXEC []"

abbreviation redircmd :: "cmd \<Rightarrow> str \<Rightarrow> int \<Rightarrow> int \<Rightarrow> cmd" where
  "redircmd subcmd file mode fd \<equiv> REDIR subcmd file mode fd"

abbreviation pipecmd :: "cmd \<Rightarrow> cmd \<Rightarrow> cmd" where "pipecmd l r \<equiv> PIPE l r"

abbreviation listcmd :: "cmd \<Rightarrow> cmd \<Rightarrow> cmd" where "listcmd l r \<equiv> LIST l r"

abbreviation backcmd :: "cmd \<Rightarrow> cmd" where "backcmd subcmd \<equiv> BACK subcmd"

datatype 'a presult = Good 'a | Panic string | NoFuel

definition pbind :: "'a presult \<Rightarrow> ('a \<Rightarrow> 'b presult) \<Rightarrow> 'b presult" where
  "pbind r f = (case r of Good x \<Rightarrow> f x | Panic m \<Rightarrow> Panic m | NoFuel \<Rightarrow> NoFuel)"

lemma pbind_simps [simp]:
  "pbind (Good x) f = f x" "pbind (Panic m) f = Panic m" "pbind NoFuel f = NoFuel"
  by (simp_all add: pbind_def)

lemma pbind_Good: "pbind r f = Good y \<longleftrightarrow> (\<exists>x. r = Good x \<and> f x = Good y)"
  by (cases r) simp_all

lemma pbind_NoFuel: "pbind r f = NoFuel \<longleftrightarrow> r = NoFuel \<or> (\<exists>x. r = Good x \<and> f x = NoFuel)"
  by (cases r) simp_all

definition MAXARGS :: nat where "MAXARGS = 10"
definition O_RDONLY :: int where "O_RDONLY = 0"
definition O_WRONLY_CREATE :: int where "O_WRONLY_CREATE = 513"

section \<open>Tokens\<close>

definition chr_at :: "byte list \<Rightarrow> nat \<Rightarrow> byte" where
  "chr_at buf i = (if i < length buf then buf ! i else 0)"

text \<open>Space, tab, carriage return, newline, vertical tab; \<open>< | > & ; ( )\<close>.\<close>

definition is_white :: "byte \<Rightarrow> bool" where
  "is_white c \<longleftrightarrow> c \<in> set [32, 9, 13, 10, 11]"

definition is_symbol :: "byte \<Rightarrow> bool" where
  "is_symbol c \<longleftrightarrow> c \<in> set [60, 124, 62, 38, 59, 40, 41]"

function skip_white :: "byte list \<Rightarrow> nat \<Rightarrow> nat" where
  "skip_white buf s = (if s < length buf \<and> is_white (chr_at buf s) then skip_white buf (s + 1) else s)"
  by pat_completeness auto
termination by (relation "measure (\<lambda>(buf, s). length buf - s)") auto

function skip_word :: "byte list \<Rightarrow> nat \<Rightarrow> nat" where
  "skip_word buf s =
     (if s < length buf \<and> \<not> is_white (chr_at buf s) \<and> \<not> is_symbol (chr_at buf s) then skip_word buf (s + 1) else s)"
  by pat_completeness auto
termination by (relation "measure (\<lambda>(buf, s). length buf - s)") auto

declare skip_white.simps [simp del] skip_word.simps [simp del]

text \<open>The code of the token, where it begins and ends, and the position after it; 97 stands for a
  word, 43 for \<open>>>\<close>, 0 for the end.\<close>

definition gettoken :: "byte list \<Rightarrow> nat \<Rightarrow> byte \<times> nat \<times> nat \<times> nat" where
  "gettoken buf s =
     (let q = skip_white buf s; c = chr_at buf q;
          (t, e) = (if c = 0 then (0, q)
                    else if c \<in> set [124, 40, 41, 59, 38, 60] then (c, q + 1)
                    else if c = 62 then (if chr_at buf (q + 1) = 62 then (43, q + 2) else (62, q + 1))
                    else (97, skip_word buf q))
      in (t, q, e, skip_white buf e))"

definition peek :: "byte list \<Rightarrow> byte list \<Rightarrow> nat \<Rightarrow> bool \<times> nat" where
  "peek buf toks s =
     (let s = skip_white buf s in (chr_at buf s \<noteq> 0 \<and> chr_at buf s \<in> set toks, s))"

section \<open>What scanning does\<close>

lemma skip_white_le: "s \<le> skip_white buf s"
  by (induction buf s rule: skip_white.induct) (subst skip_white.simps, auto)

lemma skip_white_bound: "s \<le> length buf \<Longrightarrow> skip_white buf s \<le> length buf"
  by (induction buf s rule: skip_white.induct) (subst skip_white.simps, auto)

lemma skip_white_stop: "\<not> (skip_white buf s < length buf \<and> is_white (chr_at buf (skip_white buf s)))"
  by (induction buf s rule: skip_white.induct) (subst (1 2) skip_white.simps, auto)

lemma skip_white_idem [simp]: "skip_white buf (skip_white buf s) = skip_white buf s"
  using skip_white_stop [of buf s] by (subst skip_white.simps) auto

lemma skip_word_le: "s \<le> skip_word buf s"
  by (induction buf s rule: skip_word.induct) (subst skip_word.simps, auto)

lemma skip_word_bound: "s \<le> length buf \<Longrightarrow> skip_word buf s \<le> length buf"
  by (induction buf s rule: skip_word.induct) (subst skip_word.simps, auto)

definition word_char :: "byte \<Rightarrow> bool" where
  "word_char c \<longleftrightarrow> c \<noteq> 0 \<and> \<not> is_white c \<and> \<not> is_symbol c"

lemma skip_word_chars:
  "0 \<notin> set buf \<Longrightarrow> s \<le> i \<Longrightarrow> i < skip_word buf s \<Longrightarrow> word_char (chr_at buf i)"
proof (induction buf s rule: skip_word.induct)
  case (1 buf s)
  show ?case
  proof (cases "s < length buf \<and> \<not> is_white (chr_at buf s) \<and> \<not> is_symbol (chr_at buf s)")
    case True
    with 1 have "i < skip_word buf (s + 1)" by (subst (asm) (2) skip_word.simps) simp
    moreover from True 1(2) have "word_char (chr_at buf s)"
      by (auto simp: word_char_def chr_at_def dest: nth_mem)
    ultimately show ?thesis using 1 True by (cases "i = s") auto
  next
    case False
    with 1 show ?thesis by (subst (asm) (2) skip_word.simps) (simp split: if_splits)
  qed
qed

lemma skip_word_stop: "\<not> word_char (chr_at buf (skip_word buf s))"
  by (induction buf s rule: skip_word.induct)
    (subst skip_word.simps, auto simp: word_char_def chr_at_def)

text \<open>A word of the line: nothing but word characters, and it ends where they end.\<close>

definition word_at :: "byte list \<Rightarrow> str \<Rightarrow> bool" where
  "word_at buf w \<longleftrightarrow> fst w < snd w \<and> snd w \<le> length buf
     \<and> (\<forall>i \<in> {fst w..<snd w}. word_char (chr_at buf i)) \<and> \<not> word_char (chr_at buf (snd w))"

lemma gettoken_progress:
  assumes "gettoken buf s = (t, q, e, s')" "t \<noteq> 0"
  shows "s < s'"
proof -
  define p where "p = skip_white buf s"
  have p: "s \<le> p" by (simp add: p_def skip_white_le)
  have e: "p < e"
  proof (cases "chr_at buf p \<in> set [0, 124, 40, 41, 59, 38, 60, 62]")
    case True
    with assms show ?thesis by (auto simp: gettoken_def Let_def p_def [symmetric] split: if_splits)
  next
    case False
    then have "p < length buf" "\<not> is_symbol (chr_at buf p)" by (auto simp: chr_at_def is_symbol_def split: if_splits)
    with skip_white_stop [of buf s] have "skip_word buf p = skip_word buf (p + 1)"
      by (subst skip_word.simps) (auto simp: p_def)
    with skip_word_le [of "p + 1" buf] False assms show ?thesis
      by (auto simp: gettoken_def Let_def p_def [symmetric] split: if_splits)
  qed
  have "s' = skip_white buf e" using assms(1) by (simp add: gettoken_def Let_def split: prod.splits)
  with p e skip_white_le [of e buf] show ?thesis by linarith
qed

lemma gettoken_mono: "gettoken buf s = (t, q, e, s') \<Longrightarrow> s \<le> s'"
proof (cases "t = 0")
  case True
  assume g: "gettoken buf s = (t, q, e, s')"
  with True show ?thesis
    using skip_white_le [of s buf]
    by (auto simp: gettoken_def Let_def split: if_splits)
next
  case False
  assume "gettoken buf s = (t, q, e, s')"
  with False show ?thesis using gettoken_progress by fastforce
qed

lemma gettoken_word:
  assumes "gettoken buf s = (97, q, e, s')" "0 \<notin> set buf"
  shows "word_at buf (q, e)"
proof -
  have q: "q = skip_white buf s" and e: "e = skip_word buf q" and c: "chr_at buf q \<notin> set [0, 124, 40, 41, 59, 38, 60, 62]"
    using assms(1) by (auto simp: gettoken_def Let_def split: if_splits)
  from c have l: "q < length buf" "\<not> is_symbol (chr_at buf q)" by (auto simp: chr_at_def is_symbol_def split: if_splits)
  with skip_white_stop [of buf s] have "e = skip_word buf (q + 1)"
    unfolding e by (subst skip_word.simps) (auto simp: q)
  with skip_word_le [of "q + 1" buf] have "q < e" by simp
  moreover have "e \<le> length buf" using l by (simp add: e skip_word_bound)
  ultimately show ?thesis
    using skip_word_chars [OF assms(2), of q] skip_word_stop [of buf q] by (auto simp: word_at_def e)
qed

lemma chr_at_nonzero: "chr_at buf i \<noteq> 0 \<Longrightarrow> i < length buf"
  by (auto simp: chr_at_def split: if_splits)

lemma gettoken_bound:
  assumes "gettoken buf s = (t, q, e, s')" "s \<le> length buf"
  shows "s' \<le> length buf"
proof -
  define p where "p = skip_white buf s"
  have p: "p \<le> length buf" using assms(2) by (simp add: p_def skip_white_bound)
  have "e \<le> length buf"
    using assms(1) p chr_at_nonzero [of buf p] chr_at_nonzero [of buf "p + 1"]
    by (auto simp: gettoken_def Let_def p_def [symmetric] skip_word_bound split: if_splits)
  moreover have "s' = skip_white buf e" using assms(1) by (simp add: gettoken_def Let_def split: prod.splits)
  ultimately show ?thesis by (simp add: skip_white_bound)
qed

lemma peek_simp:
  "peek buf toks s = (b, s') \<longleftrightarrow> s' = skip_white buf s \<and> b = (chr_at buf s' \<noteq> 0 \<and> chr_at buf s' \<in> set toks)"
  by (auto simp: peek_def Let_def)

lemma peek_token: "peek buf toks s = (True, s') \<Longrightarrow> gettoken buf s' = (t, q, e, s'') \<Longrightarrow> t \<noteq> 0"
  by (auto simp: peek_simp gettoken_def Let_def split: if_splits)

lemma peek_mono: "peek buf toks s = (b, s') \<Longrightarrow> s \<le> s'"
  by (auto simp: peek_simp skip_white_le)

lemma peek_inside: "peek buf toks s = (True, s') \<Longrightarrow> s \<le> s' \<and> s' < length buf"
  by (auto simp: peek_simp skip_white_le chr_at_nonzero)

lemma redir_progress:
  assumes "peek buf toks s = (True, s1)" "gettoken buf s1 = (tok, q1, e1, s2)" "gettoken buf s2 = (t, q, e, s3)"
  shows "s < s3" and "length buf - s3 < length buf - s"
proof -
  have "s \<le> s1" "s1 < length buf" using peek_inside [OF assms(1)] by simp_all
  moreover have "s1 < s2" using gettoken_progress [OF assms(2)] peek_token [OF assms(1, 2)] by simp
  moreover have "s2 \<le> s3" using gettoken_mono [OF assms(3)] .
  ultimately show "s < s3" "length buf - s3 < length buf - s" by linarith+
qed

section \<open>The parser\<close>

text \<open>\<open>parseredirs\<close>; its first statement, that there is a redirection, is the test of the loop.\<close>

function parseredirs :: "cmd \<Rightarrow> byte list \<Rightarrow> nat \<Rightarrow> (cmd \<times> nat) presult" where
  "parseredirs c buf s =
     (case peek buf [60, 62] s of (more, s1) \<Rightarrow>
      if \<not> more then Good (c, s1)
      else (case gettoken buf s1 of (tok, _, _, s2) \<Rightarrow>
            case gettoken buf s2 of (t, q, e, s3) \<Rightarrow>
            if t \<noteq> 97 then Panic ''missing file for redirection''
            else parseredirs
              (if tok = 60 then redircmd c (q, e) O_RDONLY 0
               else if tok = 62 then redircmd c (q, e) O_WRONLY_CREATE 1
               else if tok = 43 then redircmd c (q, e) O_WRONLY_CREATE 1
               else c) buf s3))"
  by pat_completeness auto
termination
  by (relation "measure (\<lambda>(c, buf, s). length buf - s)") (simp, auto intro: redir_progress(2) [OF sym sym sym])

declare parseredirs.simps [simp del]

lemma parseredirs_mono: "parseredirs c buf s = Good (c', s') \<Longrightarrow> s \<le> s'"
proof (induction c buf s rule: parseredirs.induct)
  case (1 c buf s)
  obtain more s1 where p: "peek buf [60, 62] s = (more, s1)" by fastforce
  obtain tok q1 e1 s2 where t1: "gettoken buf s1 = (tok, q1, e1, s2)" by (metis prod_cases4)
  obtain t q e s3 where t2: "gettoken buf s2 = (t, q, e, s3)" by (metis prod_cases4)
  show ?case
  proof (cases more)
    case True
    with 1(2) p t1 t2 have "t = 97" by (simp add: parseredirs.simps [of c] split: if_splits)
    with 1 True p t1 t2 have "s3 \<le> s'" by (simp add: parseredirs.simps [of c])
    with redir_progress(1) [of buf _ s s1, OF p [unfolded True [THEN eqTrueI]] t1 t2] True show ?thesis by linarith
  next
    case False
    with 1(2) p peek_mono [OF p] show ?thesis by (simp add: parseredirs.simps [of c])
  qed
qed

lemma gettoken_inside: "gettoken buf s = (t, q, e, s') \<Longrightarrow> t \<noteq> 0 \<Longrightarrow> s < length buf"
  using skip_white_le [of s buf] chr_at_nonzero [of buf "skip_white buf s"]
  by (auto simp: gettoken_def Let_def split: if_splits)

lemma args_progress:
  assumes "peek buf toks s = (b, s1)" "gettoken buf s1 = (t, q, e, s2)" "t \<noteq> 0" "s2 \<le> s3"
  shows "s < s3" and "length buf - s3 < length buf - s"
  using peek_mono [OF assms(1)] gettoken_progress [OF assms(2, 3)] gettoken_inside [OF assms(2, 3)] assms(4)
  by linarith+

text \<open>The words of a simple command go into the \<open>execcmd\<close> that the redirections read so far are
  wrapped around; \<open>set_args\<close> stores them there.\<close>

fun set_args :: "str list \<Rightarrow> cmd \<Rightarrow> cmd" where
  "set_args ws (REDIR c f mode fd) = REDIR (set_args ws c) f mode fd"
| "set_args ws (EXEC _) = EXEC ws"
| "set_args ws c = c"

function parseargs :: "cmd \<Rightarrow> str list \<Rightarrow> byte list \<Rightarrow> nat \<Rightarrow> (cmd \<times> nat) presult" where
  "parseargs r ws buf s =
     (case peek buf [124, 41, 38, 59] s of (stop, s1) \<Rightarrow>
      if stop then Good (set_args ws r, s1)
      else (case gettoken buf s1 of (tok, q, e, s2) \<Rightarrow>
        if tok = 0 then Good (set_args ws r, s2)
        else if tok \<noteq> 97 then Panic ''syntax''
        else if length (ws @ [(q, e)]) \<ge> MAXARGS then Panic ''too many args''
        else (case parseredirs r buf s2 of
            Good (r', s3) \<Rightarrow> parseargs r' (ws @ [(q, e)]) buf s3
          | Panic m \<Rightarrow> Panic m
          | NoFuel \<Rightarrow> NoFuel)))"
  by pat_completeness auto
termination
  by (relation "measure (\<lambda>(r, ws, buf, s). length buf - s)")
    (simp, auto intro!: args_progress(2) [OF sym sym _ parseredirs_mono])

declare parseargs.simps [simp del]

function parse_back :: "cmd \<Rightarrow> byte list \<Rightarrow> nat \<Rightarrow> cmd \<times> nat" where
  "parse_back c buf s =
     (case peek buf [38] s of (more, s1) \<Rightarrow>
      if more then (case gettoken buf s1 of (_, _, _, s2) \<Rightarrow> parse_back (backcmd c) buf s2) else (c, s1))"
  by pat_completeness auto
termination
  by (relation "measure (\<lambda>(c, buf, s). length buf - s)")
    (simp, auto intro!: args_progress(2) [OF sym sym _ order_refl] dest: peek_token [OF sym sym])

declare parse_back.simps [simp del]

lemma parse_back_mono: "parse_back c buf s = (c', s') \<Longrightarrow> s \<le> s'"
proof (induction c buf s rule: parse_back.induct)
  case (1 c buf s)
  obtain more s1 where p: "peek buf [38] s = (more, s1)" by fastforce
  obtain t q e s2 where t: "gettoken buf s1 = (t, q, e, s2)" by (metis prod_cases4)
  show ?case
  proof (cases more)
    case True
    with 1 p t have "s2 \<le> s'" by (simp add: parse_back.simps [of c])
    with peek_mono [OF p] gettoken_mono [OF t] show ?thesis by linarith
  next
    case False
    with 1(2) p peek_mono [OF p] show ?thesis by (simp add: parse_back.simps [of c])
  qed
qed

text \<open>The four parsers call each other; the first argument bounds the depth of the calls.\<close>

fun parseline :: "nat \<Rightarrow> byte list \<Rightarrow> nat \<Rightarrow> (cmd \<times> nat) presult"
and parsepipe :: "nat \<Rightarrow> byte list \<Rightarrow> nat \<Rightarrow> (cmd \<times> nat) presult"
and parseblock :: "nat \<Rightarrow> byte list \<Rightarrow> nat \<Rightarrow> (cmd \<times> nat) presult"
and parseexec :: "nat \<Rightarrow> byte list \<Rightarrow> nat \<Rightarrow> (cmd \<times> nat) presult" where
  "parseline 0 buf s = NoFuel"
| "parseline (Suc n) buf s =
     pbind (parsepipe n buf s) (\<lambda>(c, s).
     case parse_back c buf s of (c, s) \<Rightarrow>
     case peek buf [59] s of (more, s) \<Rightarrow>
     if more then
       (case gettoken buf s of (_, _, _, s) \<Rightarrow>
        pbind (parseline n buf s) (\<lambda>(r, s). Good (listcmd c r, s)))
     else Good (c, s))"
| "parsepipe 0 buf s = NoFuel"
| "parsepipe (Suc n) buf s =
     pbind (parseexec n buf s) (\<lambda>(c, s).
     case peek buf [124] s of (more, s) \<Rightarrow>
     if more then
       (case gettoken buf s of (_, _, _, s) \<Rightarrow>
        pbind (parsepipe n buf s) (\<lambda>(r, s). Good (pipecmd c r, s)))
     else Good (c, s))"
| "parseblock 0 buf s = NoFuel"
| "parseblock (Suc n) buf s =
     (case peek buf [40] s of (b, s) \<Rightarrow>
      if \<not> b then Panic ''parseblock''
      else case gettoken buf s of (_, _, _, s) \<Rightarrow>
      pbind (parseline n buf s) (\<lambda>(c, s).
      case peek buf [41] s of (b, s) \<Rightarrow>
      if \<not> b then Panic ''syntax - missing )''
      else case gettoken buf s of (_, _, _, s) \<Rightarrow>
      parseredirs c buf s))"
| "parseexec 0 buf s = NoFuel"
| "parseexec (Suc n) buf s =
     (case peek buf [40] s of (b, s) \<Rightarrow>
      if b then parseblock n buf s
      else pbind (parseredirs execcmd buf s) (\<lambda>(r, s). parseargs r [] buf s))"

definition parsecmd :: "byte list \<Rightarrow> cmd presult" where
  "parsecmd buf =
     pbind (parseline (4 * length buf + 4) buf 0) (\<lambda>(c, s).
     case peek buf [] s of (_, s) \<Rightarrow>
     if s \<noteq> length buf then Panic ''syntax'' else Good c)"

fun nulterminate :: "cmd \<Rightarrow> byte list \<Rightarrow> byte list" where
  "nulterminate (EXEC ws) mem = fold (\<lambda>(q, e) m. m[e := 0]) ws mem"
| "nulterminate (REDIR c f mode fd) mem = (nulterminate c mem)[snd f := 0]"
| "nulterminate (PIPE l r) mem = nulterminate r (nulterminate l mem)"
| "nulterminate (LIST l r) mem = nulterminate r (nulterminate l mem)"
| "nulterminate (BACK c) mem = nulterminate c mem"

section \<open>Enough fuel\<close>

lemma parseargs_mono: "parseargs r ws buf s = Good (c, s') \<Longrightarrow> s \<le> s'"
proof (induction r ws buf s rule: parseargs.induct)
  case (1 r ws buf s)
  obtain stop s1 where p: "peek buf [124, 41, 38, 59] s = (stop, s1)" by fastforce
  obtain t q e s2 where t: "gettoken buf s1 = (t, q, e, s2)" by (metis prod_cases4)
  note le = peek_mono [OF p] gettoken_mono [OF t]
  show ?case
  proof (cases "stop \<or> t = 0")
    case True
    with 1(2) p t le show ?thesis by (auto simp: parseargs.simps [of r] split: if_splits)
  next
    case False
    with 1(2) p t obtain r' s3 where r: "parseredirs r buf s2 = Good (r', s3)"
      and w: "parseargs r' (ws @ [(q, e)]) buf s3 = Good (c, s')" and 97: "t = 97" "length (ws @ [(q, e)]) < MAXARGS"
      by (auto simp: parseargs.simps [of r] split: if_splits presult.splits)
    from 1(1) [OF p [symmetric] _ t [symmetric]] False w r 97 have "s3 \<le> s'" by auto
    with le parseredirs_mono [OF r] show ?thesis by linarith
  qed
qed

lemma parseline_Good:
  "parseline (Suc n) buf s = Good (c, s') \<longleftrightarrow>
     (\<exists>c1 s1 c2 s2 more s3. parsepipe n buf s = Good (c1, s1) \<and> parse_back c1 buf s1 = (c2, s2)
        \<and> peek buf [59] s2 = (more, s3)
        \<and> (if more then \<exists>t q e s4 r. gettoken buf s3 = (t, q, e, s4) \<and> parseline n buf s4 = Good (r, s') \<and> c = LIST c2 r
           else c = c2 \<and> s' = s3))"
  by (simp add: pbind_Good split_beta) (auto simp: prod_eq_iff)

lemma parsepipe_Good:
  "parsepipe (Suc n) buf s = Good (c, s') \<longleftrightarrow>
     (\<exists>c1 s1 more s2. parseexec n buf s = Good (c1, s1) \<and> peek buf [124] s1 = (more, s2)
        \<and> (if more then \<exists>t q e s3 r. gettoken buf s2 = (t, q, e, s3) \<and> parsepipe n buf s3 = Good (r, s') \<and> c = PIPE c1 r
           else c = c1 \<and> s' = s2))"
  by (simp add: pbind_Good split_beta) (auto simp: prod_eq_iff)

lemma parseblock_Good:
  "parseblock (Suc n) buf s = Good (c, s') \<longleftrightarrow>
     (\<exists>s1 t q e s2 c1 s3 s4 t' q' e' s5. peek buf [40] s = (True, s1) \<and> gettoken buf s1 = (t, q, e, s2)
        \<and> parseline n buf s2 = Good (c1, s3) \<and> peek buf [41] s3 = (True, s4)
        \<and> gettoken buf s4 = (t', q', e', s5) \<and> parseredirs c1 buf s5 = Good (c, s'))"
  by (simp add: pbind_Good split_beta) (auto simp: prod_eq_iff)

lemma parseexec_Good:
  "parseexec (Suc n) buf s = Good (c, s') \<longleftrightarrow>
     (\<exists>b s1. peek buf [40] s = (b, s1)
        \<and> (if b then parseblock n buf s1 = Good (c, s')
           else \<exists>r s2. parseredirs (EXEC []) buf s1 = Good (r, s2) \<and> parseargs r [] buf s2 = Good (c, s')))"
  by (simp add: pbind_Good split_beta) (auto simp: prod_eq_iff)

lemmas parse_Good = parseline_Good parsepipe_Good parseblock_Good parseexec_Good

lemma parse_mono:
  "(\<forall>s c s'. parseline n buf s = Good (c, s') \<longrightarrow> s \<le> s') \<and>
   (\<forall>s c s'. parsepipe n buf s = Good (c, s') \<longrightarrow> s \<le> s') \<and>
   (\<forall>s c s'. parseblock n buf s = Good (c, s') \<longrightarrow> s \<le> s') \<and>
   (\<forall>s c s'. parseexec n buf s = Good (c, s') \<longrightarrow> s \<le> s')"
proof (induction n)
  case 0
  then show ?case by simp
next
  case (Suc n)
  note ih = Suc [THEN conjunct1, rule_format] Suc [THEN conjunct2, THEN conjunct1, rule_format]
    Suc [THEN conjunct2, THEN conjunct2, THEN conjunct1, rule_format]
    Suc [THEN conjunct2, THEN conjunct2, THEN conjunct2, rule_format]
  note le = parse_back_mono peek_mono gettoken_mono parseredirs_mono parseargs_mono
  have "s \<le> s'" if "parseline (Suc n) buf s = Good (c, s')" for s c s'
    using that
    by (auto simp only: parse_Good split: if_split_asm dest!: le ih)
  moreover have "s \<le> s'" if "parsepipe (Suc n) buf s = Good (c, s')" for s c s'
    using that
    by (auto simp only: parse_Good split: if_split_asm dest!: le ih)
  moreover have "s \<le> s'" if "parseblock (Suc n) buf s = Good (c, s')" for s c s'
    using that
    by (auto simp only: parse_Good split: if_split_asm dest!: le ih)
  moreover have "s \<le> s'" if "parseexec (Suc n) buf s = Good (c, s')" for s c s'
    using that
    by (auto simp only: parse_Good split: if_split_asm dest!: le ih)
  ultimately show ?case by blast
qed

lemma parseredirs_fuel: "parseredirs c buf s \<noteq> NoFuel"
proof (induction c buf s rule: parseredirs.induct)
  case (1 c buf s)
  obtain more s1 where p: "peek buf [60, 62] s = (more, s1)" by fastforce
  obtain tok q1 e1 s2 where t1: "gettoken buf s1 = (tok, q1, e1, s2)" by (metis prod_cases4)
  obtain t q e s3 where t2: "gettoken buf s2 = (t, q, e, s3)" by (metis prod_cases4)
  from 1 p t1 t2 show ?case by (simp add: parseredirs.simps [of c])
qed

lemma parseargs_fuel: "parseargs r ws buf s \<noteq> NoFuel"
proof (induction r ws buf s rule: parseargs.induct)
  case (1 r ws buf s)
  obtain stop s1 where p: "peek buf [124, 41, 38, 59] s = (stop, s1)" by fastforce
  obtain t q e s2 where t: "gettoken buf s1 = (t, q, e, s2)" by (metis prod_cases4)
  from 1 p t show ?case
    using parseredirs_fuel [of r buf s2] by (auto simp: parseargs.simps [of r] split: presult.splits)
qed

lemma token_progress:
  assumes "peek buf toks s = (True, s1)" "gettoken buf s1 = (t, q, e, s2)"
  shows "length buf - s2 < length buf - s"
  using args_progress(2) [OF assms peek_token [OF assms] order_refl] .

lemma parseline_NoFuel:
  "parseline (Suc n) buf s = NoFuel \<longleftrightarrow> parsepipe n buf s = NoFuel \<or>
     (\<exists>c1 s1 c2 s2 s3 t q e s4. parsepipe n buf s = Good (c1, s1) \<and> parse_back c1 buf s1 = (c2, s2)
        \<and> peek buf [59] s2 = (True, s3) \<and> gettoken buf s3 = (t, q, e, s4) \<and> parseline n buf s4 = NoFuel)"
  by (simp add: pbind_NoFuel split_beta) (auto simp: prod_eq_iff)

lemma parsepipe_NoFuel:
  "parsepipe (Suc n) buf s = NoFuel \<longleftrightarrow> parseexec n buf s = NoFuel \<or>
     (\<exists>c1 s1 s2 t q e s3. parseexec n buf s = Good (c1, s1) \<and> peek buf [124] s1 = (True, s2)
        \<and> gettoken buf s2 = (t, q, e, s3) \<and> parsepipe n buf s3 = NoFuel)"
  by (simp add: pbind_NoFuel split_beta) (auto simp: prod_eq_iff)

lemma parseblock_NoFuel:
  "parseblock (Suc n) buf s = NoFuel \<longleftrightarrow>
     (\<exists>s1 t q e s2. peek buf [40] s = (True, s1) \<and> gettoken buf s1 = (t, q, e, s2) \<and> parseline n buf s2 = NoFuel)"
  by (simp add: pbind_NoFuel split_beta parseredirs_fuel) (auto simp: prod_eq_iff)

lemma parseexec_NoFuel:
  "parseexec (Suc n) buf s = NoFuel \<longleftrightarrow> (\<exists>s1. peek buf [40] s = (True, s1) \<and> parseblock n buf s1 = NoFuel)"
  by (simp add: pbind_NoFuel split_beta parseredirs_fuel parseargs_fuel) (auto simp: prod_eq_iff)

lemmas parse_NoFuel = parseline_NoFuel parsepipe_NoFuel parseblock_NoFuel parseexec_NoFuel

lemma parse_fuel:
  "(\<forall>s. 4 * (length buf - s) + 4 \<le> n \<longrightarrow> parseline n buf s \<noteq> NoFuel) \<and>
   (\<forall>s. 4 * (length buf - s) + 3 \<le> n \<longrightarrow> parsepipe n buf s \<noteq> NoFuel) \<and>
   (\<forall>s. 4 * (length buf - s) + 1 \<le> n \<longrightarrow> parseblock n buf s \<noteq> NoFuel) \<and>
   (\<forall>s. 4 * (length buf - s) + 2 \<le> n \<longrightarrow> parseexec n buf s \<noteq> NoFuel)"
proof (induction n)
  case 0
  then show ?case by simp
next
  case (Suc n)
  note le = parse_back_mono peek_mono parse_mono [THEN conjunct1, rule_format]
    parse_mono [THEN conjunct2, THEN conjunct1, rule_format]
    parse_mono [THEN conjunct2, THEN conjunct2, THEN conjunct2, rule_format]
  have 1: "parseline (Suc n) buf s \<noteq> NoFuel" if f: "4 * (length buf - s) + 4 \<le> Suc n" for s
  proof
    assume "parseline (Suc n) buf s = NoFuel"
    then consider "parsepipe n buf s = NoFuel"
      | c1 s1 c2 s2 s3 t q e s4 where "parsepipe n buf s = Good (c1, s1)" "parse_back c1 buf s1 = (c2, s2)"
        "peek buf [59] s2 = (True, s3)" "gettoken buf s3 = (t, q, e, s4)" "parseline n buf s4 = NoFuel"
      by (auto simp only: parse_NoFuel)
    then show False
    proof cases
      case 1
      with Suc f show False by simp
    next
      case 2
      have "length buf - s4 < length buf - s"
        using token_progress [OF 2(3, 4)] le(4) [OF 2(1)] le(1) [OF 2(2)] by linarith
      with f have "4 * (length buf - s4) + 4 \<le> n" by linarith
      with Suc 2 show False by blast
    qed
  qed
  have 2: "parsepipe (Suc n) buf s \<noteq> NoFuel" if f: "4 * (length buf - s) + 3 \<le> Suc n" for s
  proof
    assume "parsepipe (Suc n) buf s = NoFuel"
    then consider "parseexec n buf s = NoFuel"
      | c1 s1 s2 t q e s3 where "parseexec n buf s = Good (c1, s1)" "peek buf [124] s1 = (True, s2)"
        "gettoken buf s2 = (t, q, e, s3)" "parsepipe n buf s3 = NoFuel"
      by (auto simp only: parse_NoFuel)
    then show False
    proof cases
      case 1
      with Suc f show False by simp
    next
      case 2
      have "length buf - s3 < length buf - s" using token_progress [OF 2(2, 3)] le(5) [OF 2(1)] by linarith
      with f have "4 * (length buf - s3) + 3 \<le> n" by linarith
      with Suc 2 show False by blast
    qed
  qed
  have 3: "parseblock (Suc n) buf s \<noteq> NoFuel" if f: "4 * (length buf - s) + 1 \<le> Suc n" for s
  proof
    assume "parseblock (Suc n) buf s = NoFuel"
    then obtain s1 t q e s2 where 2: "peek buf [40] s = (True, s1)" "gettoken buf s1 = (t, q, e, s2)"
      "parseline n buf s2 = NoFuel" by (auto simp only: parse_NoFuel)
    have "length buf - s2 < length buf - s" using token_progress [OF 2(1, 2)] .
    with f have "4 * (length buf - s2) + 4 \<le> n" by linarith
    with Suc 2 show False by blast
  qed
  have 4: "parseexec (Suc n) buf s \<noteq> NoFuel" if f: "4 * (length buf - s) + 2 \<le> Suc n" for s
  proof
    assume "parseexec (Suc n) buf s = NoFuel"
    then obtain s1 where 2: "peek buf [40] s = (True, s1)" "parseblock n buf s1 = NoFuel"
      by (auto simp only: parse_NoFuel)
    from f peek_mono [OF 2(1)] have "4 * (length buf - s1) + 1 \<le> n" by linarith
    with Suc 2 show False by blast
  qed
  from 1 2 3 4 show ?case by blast
qed

lemma parseline_returns: "parseline (4 * length buf + 4) buf 0 \<noteq> NoFuel"
  using parse_fuel [of buf "4 * length buf + 4"] by simp

text \<open>C28: the shell's parser comes back for every line, well formed or not, with a command or a
  syntax error; the depth of its calls is at most four for each byte of the line.\<close>

theorem parsecmd_returns: "parsecmd buf \<noteq> NoFuel"
  using parseline_returns by (auto simp: parsecmd_def pbind_NoFuel split_beta split: if_splits)


section \<open>The strings of a parsed command\<close>

fun words :: "cmd \<Rightarrow> str list" where
  "words (EXEC ws) = ws"
| "words (REDIR c f mode fd) = words c @ [f]"
| "words (PIPE l r) = words l @ words r"
| "words (LIST l r) = words l @ words r"
| "words (BACK c) = words c"

definition words_ok :: "byte list \<Rightarrow> cmd \<Rightarrow> bool" where
  "words_ok buf c \<longleftrightarrow> list_all (word_at buf) (words c)"

lemma words_ok_simps [simp]:
  "words_ok buf (EXEC ws) = list_all (word_at buf) ws"
  "words_ok buf (REDIR c f mode fd) = (words_ok buf c \<and> word_at buf f)"
  "words_ok buf (PIPE l r) = (words_ok buf l \<and> words_ok buf r)"
  "words_ok buf (LIST l r) = (words_ok buf l \<and> words_ok buf r)"
  "words_ok buf (BACK c) = words_ok buf c"
  by (auto simp: words_ok_def)

lemma words_ok_set_args: "words_ok buf r \<Longrightarrow> list_all (word_at buf) ws \<Longrightarrow> words_ok buf (set_args ws r)"
  by (induction ws r rule: set_args.induct) auto

lemma parseredirs_ok:
  "0 \<notin> set buf \<Longrightarrow> words_ok buf c \<Longrightarrow> parseredirs c buf s = Good (c', s') \<Longrightarrow> words_ok buf c'"
proof (induction c buf s rule: parseredirs.induct)
  case (1 c buf s)
  obtain more s1 where p: "peek buf [60, 62] s = (more, s1)" by fastforce
  obtain tok q1 e1 s2 where t1: "gettoken buf s1 = (tok, q1, e1, s2)" by (metis prod_cases4)
  obtain t q e s3 where t2: "gettoken buf s2 = (t, q, e, s3)" by (metis prod_cases4)
  show ?case
  proof (cases more)
    case True
    with 1(4) p t1 t2 have "t = 97" by (simp add: parseredirs.simps [of c] split: if_splits)
    with gettoken_word t2 1(2) have "word_at buf (q, e)" by blast
    with 1 True p t1 t2 \<open>t = 97\<close> show ?thesis by (simp add: parseredirs.simps [of c] split: if_splits)
  next
    case False
    with 1 p show ?thesis by (simp add: parseredirs.simps [of c])
  qed
qed

lemma parseargs_ok:
  "0 \<notin> set buf \<Longrightarrow> words_ok buf r \<Longrightarrow> list_all (word_at buf) ws \<Longrightarrow> parseargs r ws buf s = Good (c, s')
     \<Longrightarrow> words_ok buf c"
proof (induction r ws buf s rule: parseargs.induct)
  case (1 r ws buf s)
  obtain stop s1 where p: "peek buf [124, 41, 38, 59] s = (stop, s1)" by fastforce
  obtain t q e s2 where t: "gettoken buf s1 = (t, q, e, s2)" by (metis prod_cases4)
  show ?case
  proof (cases "stop \<or> t = 0")
    case True
    with 1 p t show ?thesis by (auto simp: parseargs.simps [of r] words_ok_set_args split: if_splits)
  next
    case False
    with 1(5) p t obtain r' s3 where r: "parseredirs r buf s2 = Good (r', s3)"
      and w: "parseargs r' (ws @ [(q, e)]) buf s3 = Good (c, s')" and 97: "t = 97" "length (ws @ [(q, e)]) < MAXARGS"
      by (auto simp: parseargs.simps [of r] split: if_splits presult.splits)
    have "words_ok buf r'" using parseredirs_ok [OF 1(2, 3) r] .
    moreover have "word_at buf (q, e)" using gettoken_word t 97 1(2) by blast
    ultimately show ?thesis using 1(1) [OF p [symmetric] _ t [symmetric]] 1(2, 4) False w r 97 by auto
  qed
qed

lemma parse_back_ok: "words_ok buf c \<Longrightarrow> parse_back c buf s = (c', s') \<Longrightarrow> words_ok buf c'"
proof (induction c buf s rule: parse_back.induct)
  case (1 c buf s)
  obtain more s1 where p: "peek buf [38] s = (more, s1)" by fastforce
  obtain t q e s2 where t: "gettoken buf s1 = (t, q, e, s2)" by (metis prod_cases4)
  from 1 p t show ?case by (simp add: parse_back.simps [of c] split: if_splits)
qed

lemma parse_ok:
  assumes "0 \<notin> set buf"
  shows "(\<forall>s c s'. parseline n buf s = Good (c, s') \<longrightarrow> words_ok buf c) \<and>
   (\<forall>s c s'. parsepipe n buf s = Good (c, s') \<longrightarrow> words_ok buf c) \<and>
   (\<forall>s c s'. parseblock n buf s = Good (c, s') \<longrightarrow> words_ok buf c) \<and>
   (\<forall>s c s'. parseexec n buf s = Good (c, s') \<longrightarrow> words_ok buf c)"
proof (induction n)
  case 0
  then show ?case by simp
next
  case (Suc n)
  note ih = Suc [THEN conjunct1, rule_format] Suc [THEN conjunct2, THEN conjunct1, rule_format]
    Suc [THEN conjunct2, THEN conjunct2, THEN conjunct1, rule_format]
    Suc [THEN conjunct2, THEN conjunct2, THEN conjunct2, rule_format]
  note ok = parse_back_ok parseredirs_ok [OF assms] parseargs_ok [OF assms]
  have "words_ok buf c" if "parseline (Suc n) buf s = Good (c, s')" for s c s'
    using that by (auto simp only: parse_Good words_ok_simps split: if_split_asm dest!: ih dest: ok(1))
  moreover have "words_ok buf c" if "parsepipe (Suc n) buf s = Good (c, s')" for s c s'
    using that by (auto simp only: parse_Good words_ok_simps split: if_split_asm dest!: ih dest: ok(1))
  moreover have "words_ok buf c" if "parseblock (Suc n) buf s = Good (c, s')" for s c s'
    using that by (auto simp only: parse_Good dest!: ih dest: ok(2))
  moreover have "words_ok buf c" if p: "parseexec (Suc n) buf s = Good (c, s')" for s c s'
  proof -
    from p obtain b s1 where e: "if b then parseblock n buf s1 = Good (c, s')
        else \<exists>r s2. parseredirs (EXEC []) buf s1 = Good (r, s2) \<and> parseargs r [] buf s2 = Good (c, s')"
      unfolding parse_Good by blast
    then show ?thesis
    proof (cases b)
      case False
      with e obtain r s2 where r: "parseredirs (EXEC []) buf s1 = Good (r, s2)" and a: "parseargs r [] buf s2 = Good (c, s')"
        by auto
      from ok(2) [OF _ r] have "words_ok buf r" by simp
      from ok(3) [OF this _ a] show ?thesis by simp
    qed (simp add: ih(3))
  qed
  ultimately show ?case by blast
qed

lemma nulterminate_length [simp]: "length (nulterminate c mem) = length mem"
proof -
  have "length (fold (\<lambda>(q, e) m. m[e := 0]) ws m) = length m" for ws and m :: "byte list"
    by (induction ws arbitrary: m) (auto split: prod.splits)
  then show ?thesis by (induction c mem rule: nulterminate.induct) auto
qed

lemma nulterminate_nth:
  "i < length mem \<Longrightarrow> nulterminate c mem ! i = (if i \<in> snd ` set (words c) then 0 else mem ! i)"
proof (induction c arbitrary: mem)
  case (EXEC ws)
  have "i < length m \<Longrightarrow> fold (\<lambda>(q, e) m. m[e := 0]) ws m ! i = (if i \<in> snd ` set ws then 0 else m ! i)" for m
    by (induction ws arbitrary: m) (auto simp: nth_list_update split: prod.splits)
  from this [OF EXEC] show ?case by (simp only: nulterminate.simps words.simps)
next
  case (REDIR c f mode fd)
  then have "nulterminate c mem ! i = (if i \<in> snd ` set (words c) then 0 else mem ! i)" by blast
  with REDIR(2) show ?case by (cases "i = snd f") simp_all
qed (auto)

lemma parsecmd_Good:
  "parsecmd buf = Good c \<longleftrightarrow>
     (\<exists>s. parseline (4 * length buf + 4) buf 0 = Good (c, s) \<and> skip_white buf s = length buf)"
  by (simp add: parsecmd_def pbind_Good split_beta) (auto simp: peek_def Let_def)

text \<open>The C string at a position.\<close>

definition cstr :: "byte list \<Rightarrow> nat \<Rightarrow> byte list" where
  "cstr mem q = takeWhile (\<lambda>c. c \<noteq> 0) (drop q mem)"

lemma cstr_word:
  assumes "words_ok buf c" "(q, e) \<in> set (words c)"
  shows "cstr (nulterminate c (buf @ [0])) q = subrange q (e - q) buf"
proof -
  define mem where "mem = nulterminate c (buf @ [0])"
  have w: "word_at buf (q, e)" and other: "\<And>w. w \<in> set (words c) \<Longrightarrow> \<not> word_char (chr_at buf (snd w))"
    using assms by (auto simp: words_ok_def list_all_iff word_at_def)
  have e: "q < e" "e \<le> length buf" using w by (auto simp: word_at_def)
  have inside: "mem ! i = buf ! i \<and> mem ! i \<noteq> 0" if i: "q \<le> i" "i < e" for i
  proof -
    have "word_char (chr_at buf i)" using w i by (auto simp: word_at_def)
    moreover from this have "i \<notin> snd ` set (words c)" using other by auto
    ultimately show ?thesis using i e by (auto simp: mem_def nulterminate_nth nth_append chr_at_def word_char_def)
  qed
  have "mem ! e = 0" using assms(2) e by (force simp: mem_def nulterminate_nth)
  then have "drop q mem = subrange q (e - q) mem @ 0 # drop (e + 1) mem"
    using e id_take_nth_drop [of "e - q" "drop q mem"] by (simp add: subrange_def mem_def)
  moreover have "subrange q (e - q) mem = subrange q (e - q) buf"
    using e inside by (auto simp: subrange_def mem_def list_eq_iff_nth_eq)
  moreover have "\<forall>x \<in> set (subrange q (e - q) buf). x \<noteq> 0"
  proof
    fix x assume "x \<in> set (subrange q (e - q) buf)"
    then obtain i where "i < e - q" "x = buf ! (q + i)" using e by (auto simp: subrange_def in_set_conv_nth)
    with inside [of "q + i"] show "x \<noteq> 0" by (auto simp: less_diff_conv add.commute)
  qed
  ultimately show ?thesis by (simp add: cstr_def mem_def takeWhile_append2)
qed

lemma parsecmd_words:
  assumes "parsecmd buf = Good c" "0 \<notin> set buf" "(q, e) \<in> set (words c)"
  shows "cstr (nulterminate c (buf @ [0])) q = subrange q (e - q) buf \<and> word_at buf (q, e)"
proof -
  from assms(1) obtain s where "parseline (4 * length buf + 4) buf 0 = Good (c, s)"
    by (auto simp: parsecmd_Good)
  with parse_ok [OF assms(2)] have ok: "words_ok buf c" by blast
  with assms(3) show ?thesis using cstr_word by (auto simp: words_ok_def list_all_iff)
qed

text \<open>C29: after \<open>nulterminate\<close> every string the parsed command points to reads, up to its NUL, exactly
  the bytes of its token, which are all word characters: the NULs stored for one token never cut
  another one.\<close>

theorem parsecmd_strings:
  assumes "parsecmd buf = Good c" "0 \<notin> set buf" "(q, e) \<in> set (words c)"
  shows "cstr (nulterminate c (buf @ [0])) q = subrange q (e - q) buf \<and> word_at buf (q, e)"
  using assms by (rule parsecmd_words)

end
