(* ===== verification/ShPrint.thy ===== *)
theory ShPrint
  imports Sh
begin

text \<open>
  The shell's parser read backwards: commands with their strings, a printer for them, and that
  parsing what was printed gives the command again.
\<close>

section \<open>Printing a command\<close>

text \<open>A command with its strings, and the line that says it: every compound command in parentheses.\<close>

datatype scmd =
    SExec "byte list list"
  | SRedir scmd "byte list" int int
  | SPipe scmd scmd
  | SList scmd scmd
  | SBack scmd

fun spell :: "(str \<Rightarrow> byte list) \<Rightarrow> cmd \<Rightarrow> scmd" where
  "spell rd (EXEC ws) = SExec (map rd ws)"
| "spell rd (REDIR c f mode fd) = SRedir (spell rd c) (rd f) mode fd"
| "spell rd (PIPE l r) = SPipe (spell rd l) (spell rd r)"
| "spell rd (LIST l r) = SList (spell rd l) (spell rd r)"
| "spell rd (BACK c) = SBack (spell rd c)"

fun show_cmd :: "scmd \<Rightarrow> byte list" where
  "show_cmd (SExec ws) = concat (map (\<lambda>w. w @ [32]) ws)"
| "show_cmd (SRedir c f mode fd) = 40 # show_cmd c @ 41 # (if fd = 0 then 60 else 62) # f"
| "show_cmd (SPipe l r) = 40 # show_cmd l @ 41 # 124 # 40 # show_cmd r @ [41]"
| "show_cmd (SList l r) = 40 # show_cmd l @ 41 # 59 # 40 # show_cmd r @ [41]"
| "show_cmd (SBack c) = 40 # show_cmd c @ [41, 38]"

definition good_word :: "byte list \<Rightarrow> bool" where
  "good_word w \<longleftrightarrow> w \<noteq> [] \<and> list_all word_char w"

text \<open>What the shell can express: fewer than ten words, redirections of 0 for reading and of 1 for
  writing.\<close>

fun scmd_ok :: "scmd \<Rightarrow> bool" where
  "scmd_ok (SExec ws) = (length ws < MAXARGS \<and> list_all good_word ws)"
| "scmd_ok (SRedir c f mode fd) =
     (scmd_ok c \<and> good_word f \<and> ((mode, fd) = (O_RDONLY, 0) \<or> (mode, fd) = (O_WRONLY_CREATE, 1)))"
| "scmd_ok (SPipe l r) = (scmd_ok l \<and> scmd_ok r)"
| "scmd_ok (SList l r) = (scmd_ok l \<and> scmd_ok r)"
| "scmd_ok (SBack c) = scmd_ok c"

section \<open>Scanning a line that is known from a position on\<close>

definition view :: "byte list \<Rightarrow> nat \<Rightarrow> byte list \<Rightarrow> bool" where
  "view buf s xs \<longleftrightarrow> (\<exists>pre. buf = pre @ xs \<and> length pre = s)"

definition calm :: "byte list \<Rightarrow> bool" where
  "calm xs \<longleftrightarrow> xs = [] \<or> \<not> is_white (hd xs)"

lemma view_append: "view buf s (xs @ ys) \<Longrightarrow> view buf (s + length xs) ys"
  unfolding view_def by (metis append.assoc length_append)

lemma view_Cons: "view buf s (x # xs) \<Longrightarrow> view buf (s + 1) xs"
  using view_append [of buf s "[x]" xs] by simp

lemma view_chr: "view buf s xs \<Longrightarrow> chr_at buf s = (if xs = [] then 0 else hd xs)"
  by (cases xs) (auto simp: view_def chr_at_def)

lemma view_less: "view buf s (x # xs) \<Longrightarrow> s < length buf"
  by (auto simp: view_def)

lemma view_subrange: "view buf s (w @ xs) \<Longrightarrow> subrange s (length w) buf = w"
  by (auto simp: view_def subrange_def)

lemma skip_white_view: "view buf s xs \<Longrightarrow> calm xs \<Longrightarrow> skip_white buf s = s"
  by (subst skip_white.simps, cases xs) (auto simp: view_chr calm_def view_def)

lemma skip_white_space: "view buf s (32 # xs) \<Longrightarrow> calm xs \<Longrightarrow> skip_white buf s = s + 1"
  using view_less [of buf s 32 xs] skip_white_view [OF view_Cons, of buf s 32 xs]
  by (subst skip_white.simps) (simp add: view_chr is_white_def)

lemma skip_word_view:
  "view buf s (w @ xs) \<Longrightarrow> list_all word_char w \<Longrightarrow> xs = [] \<or> is_white (hd xs) \<or> is_symbol (hd xs)
     \<Longrightarrow> skip_word buf s = s + length w"
proof (induction w arbitrary: s)
  case Nil
  then show ?case by (subst skip_word.simps, cases xs) (auto simp: view_chr view_def)
next
  case (Cons x w)
  from Cons(2) have "view buf (s + 1) (w @ xs)" using view_Cons by simp
  from Cons(1) [OF this] Cons(3, 4) have "skip_word buf (s + 1) = s + 1 + length w" by simp
  with Cons(2, 3) view_less [of buf s x "w @ xs"] show ?case
    by (subst skip_word.simps) (simp add: view_chr word_char_def)
qed

lemma peek_view:
  "view buf s xs \<Longrightarrow> calm xs \<Longrightarrow> peek buf toks s = (xs \<noteq> [] \<and> hd xs \<noteq> 0 \<and> hd xs \<in> set toks, s)"
  by (auto simp: peek_def Let_def skip_white_view view_chr)

lemma symbols_calm: "c \<in> set [60, 124, 62, 38, 59, 40, 41] \<Longrightarrow> calm (c # xs)"
  by (auto simp: calm_def is_white_def)

lemma word_calm: "good_word w \<Longrightarrow> calm (w @ xs)"
  by (cases w) (auto simp: calm_def good_word_def word_char_def)

lemma gettoken_symbol:
  assumes "view buf s (c # xs)" "c \<in> set [124, 40, 41, 59, 38, 60]" "calm xs"
  shows "gettoken buf s = (c, s, s + 1, s + 1)"
proof -
  have "skip_white buf s = s" using assms by (intro skip_white_view [OF assms(1)] symbols_calm) auto
  moreover have "skip_white buf (s + 1) = s + 1" using skip_white_view [OF view_Cons [OF assms(1)] assms(3)] .
  ultimately show ?thesis using assms(2) view_chr [OF assms(1)] by (auto simp: gettoken_def Let_def)
qed

lemma gettoken_greater:
  assumes "view buf s (62 # xs)" "xs \<noteq> []" "hd xs \<noteq> 62" "calm xs"
  shows "gettoken buf s = (62, s, s + 1, s + 1)"
proof -
  have "skip_white buf s = s" by (intro skip_white_view [OF assms(1)] symbols_calm) auto
  moreover have "skip_white buf (s + 1) = s + 1" using skip_white_view [OF view_Cons [OF assms(1)] assms(4)] .
  ultimately show ?thesis using assms(2, 3) view_chr [OF assms(1)] view_chr [OF view_Cons [OF assms(1)]]
    by (auto simp: gettoken_def Let_def)
qed

lemma gettoken_good_word:
  assumes "view buf s (w @ xs)" "good_word w" "xs = [] \<or> is_white (hd xs) \<or> is_symbol (hd xs)"
  shows "gettoken buf s = (97, s, s + length w, skip_white buf (s + length w))"
proof -
  have "skip_white buf s = s" using assms by (intro skip_white_view [OF assms(1)] word_calm)
  moreover have "skip_word buf s = s + length w" using assms by (intro skip_word_view) (auto simp: good_word_def)
  moreover obtain c ws where w: "w = c # ws" "word_char c" using assms(2) by (cases w) (auto simp: good_word_def)
  ultimately show ?thesis using view_chr [OF assms(1)]
    by (auto simp: gettoken_def Let_def word_char_def is_symbol_def)
qed


section \<open>Parsing what was printed\<close>

definition token_text :: "byte list \<Rightarrow> str \<Rightarrow> byte list" where
  "token_text buf w = subrange (fst w) (snd w - fst w) buf"

definition yields :: "byte list \<Rightarrow> (cmd \<times> nat) presult \<Rightarrow> scmd \<Rightarrow> nat \<Rightarrow> bool" where
  "yields buf p c s' \<longleftrightarrow> p = NoFuel \<or> (\<exists>d. p = Good (d, s') \<and> spell (token_text buf) d = c)"

text \<open>What may follow a command: nothing or a closing parenthesis.\<close>

definition closed_by :: "byte list \<Rightarrow> bool" where
  "closed_by post \<longleftrightarrow> post = [] \<or> hd post = 41"

lemma closed_calm: "closed_by post \<Longrightarrow> calm post"
  by (auto simp: closed_by_def calm_def is_white_def)

lemma redirs_none:
  "view buf s xs \<Longrightarrow> calm xs \<Longrightarrow> xs = [] \<or> hd xs \<notin> set [60, 62] \<Longrightarrow> parseredirs c buf s = Good (c, s)"
  by (subst parseredirs.simps) (auto simp: peek_view)

lemma redirs_one:
  assumes v: "view buf s (r # f @ post)" and r: "r \<in> set [60, 62]" and f: "good_word f" and post: "closed_by post"
  shows "parseredirs c buf s = Good (REDIR c (s + 1, s + 1 + length f)
     (if r = 60 then O_RDONLY else O_WRONLY_CREATE) (if r = 60 then 0 else 1), s + 1 + length f)"
proof -
  have vf: "view buf (s + 1) (f @ post)" using view_Cons [OF v] .
  have vp: "view buf (s + 1 + length f) post" using view_append [OF vf] .
  have calm_f: "calm (f @ post)" using word_calm [OF f] .
  have p: "peek buf [60, 62] s = (True, s)"
    using peek_view [OF v symbols_calm, of "[60, 62]"] r by auto
  have "gettoken buf s = (r, s, s + 1, s + 1)"
  proof (cases "r = 60")
    case True
    with gettoken_symbol [OF v] calm_f show ?thesis by simp
  next
    case False
    with r v have "view buf s (62 # f @ post)" by simp
    moreover have "f @ post \<noteq> []" "hd (f @ post) \<noteq> 62"
      using f by (cases f; auto simp: good_word_def word_char_def is_symbol_def)+
    ultimately show ?thesis using gettoken_greater calm_f False r by auto
  qed
  moreover have "gettoken buf (s + 1) = (97, s + 1, s + 1 + length f, s + 1 + length f)"
    using gettoken_good_word [OF vf f] skip_white_view [OF vp closed_calm [OF post]] post
    by (auto simp: closed_by_def is_symbol_def)
  moreover have "parseredirs d buf (s + 1 + length f) = Good (d, s + 1 + length f)" for d
    using redirs_none [OF vp closed_calm [OF post]] post by (auto simp: closed_by_def)
  ultimately show ?thesis using r by (subst parseredirs.simps) (auto simp: p)
qed

lemma back_none: "view buf s xs \<Longrightarrow> calm xs \<Longrightarrow> xs = [] \<or> hd xs \<noteq> 38 \<Longrightarrow> parse_back c buf s = (c, s)"
  by (subst parse_back.simps) (auto simp: peek_view)

lemma back_one:
  assumes v: "view buf s (38 # post)" and post: "closed_by post"
  shows "parse_back c buf s = (BACK c, s + 1)"
proof -
  have "parse_back (BACK c) buf (s + 1) = (BACK c, s + 1)"
    using back_none [OF view_Cons [OF v] closed_calm [OF post]] post by (auto simp: closed_by_def)
  then show ?thesis
    using gettoken_symbol [OF v _ closed_calm [OF post]] peek_view [OF v symbols_calm, of "[38]"]
    by (subst parse_back.simps) simp
qed

lemma words_then: "good_word w \<Longrightarrow> w @ xs \<noteq> [] \<and> hd (w @ xs) \<notin> set [0, 60, 124, 62, 38, 59, 40, 41]"
  by (cases w) (auto simp: good_word_def word_char_def is_symbol_def)

lemma byte_97: "(97 :: byte) \<noteq> 0"
  by simp

lemma args_good:
  "view buf s (concat (map (\<lambda>w. w @ [32]) ws) @ post) \<Longrightarrow> list_all good_word ws \<Longrightarrow> closed_by post \<Longrightarrow>
   length pos + length ws < MAXARGS \<Longrightarrow>
   \<exists>ds. parseargs r pos buf s = Good (set_args (pos @ ds) r, s + length (concat (map (\<lambda>w. w @ [32]) ws)))
     \<and> map (token_text buf) ds = ws"
proof (induction ws arbitrary: s pos)
  case Nil
  then have v: "view buf s post" and post: "closed_by post" by simp_all
  have "parseargs r pos buf s = Good (set_args pos r, s)"
  proof (cases post)
    case Nil
    with v have "gettoken buf s = (0, s, s, s)"
      using skip_white_view [OF v closed_calm [OF post]] view_chr [OF v] by (simp add: gettoken_def Let_def)
    with Nil v show ?thesis by (subst parseargs.simps) (simp add: peek_view calm_def)
  next
    case (Cons x xs)
    with post v show ?thesis
      by (subst parseargs.simps) (simp add: peek_view closed_calm closed_by_def)
  qed
  then show ?case by simp
next
  case (Cons w ws)
  define rest where "rest = concat (map (\<lambda>w. w @ [32]) ws) @ post"
  from Cons have w: "good_word w" and ws: "list_all good_word ws" and v: "view buf s (w @ 32 # rest)"
    by (simp_all add: rest_def)
  have calm_rest: "calm rest"
    using ws closed_calm [OF Cons(4)] word_calm by (cases ws) (simp_all add: rest_def)
  have rest: "rest = [] \<or> hd rest \<notin> set [60, 62]"
  proof (cases ws)
    case Nil
    with Cons(4) show ?thesis by (auto simp: rest_def closed_by_def)
  next
    case (Cons u us)
    with ws words_then [of u "32 # concat (map (\<lambda>w. w @ [32]) us) @ post"] show ?thesis by (simp add: rest_def)
  qed
  have v2: "view buf (s + length w) (32 # rest)" using view_append [OF v] .
  have v3: "view buf (s + length w + 1) rest" using view_Cons [OF v2] .
  have "peek buf [124, 41, 38, 59] s = (False, s)"
    using peek_view [OF v word_calm [OF w], of "[124, 41, 38, 59]"] words_then [OF w, of "32 # rest"] by auto
  moreover have "gettoken buf s = (97, s, s + length w, s + length w + 1)"
    using gettoken_good_word [OF v w] skip_white_space [OF v2 calm_rest] by (simp add: is_white_def)
  moreover have "parseredirs r buf (s + length w + 1) = Good (r, s + length w + 1)"
    using redirs_none [OF v3 calm_rest rest] .
  moreover have "token_text buf (s, s + length w) = w" using view_subrange [OF v] by (simp add: token_text_def)
  moreover have "length (pos @ [(s, s + length w)]) < MAXARGS" using Cons(5) by simp
  moreover from Cons(1) [OF v3 [unfolded rest_def] ws Cons(4), of "pos @ [(s, s + length w)]"] Cons(5)
  obtain ds where "parseargs r (pos @ [(s, s + length w)]) buf (s + length w + 1) =
      Good (set_args ((pos @ [(s, s + length w)]) @ ds) r,
            s + length w + 1 + length (concat (map (\<lambda>w. w @ [32]) ws)))" "map (token_text buf) ds = ws"
    by auto
  ultimately show ?case
    by (intro exI [of _ "(s, s + length w) # ds"], subst parseargs.simps) (simp add: byte_97)
qed

lemma show_calm: "closed_by post \<Longrightarrow> scmd_ok c \<Longrightarrow> calm (show_cmd c @ post)"
proof (cases c)
  case (SExec ws)
  assume "closed_by post" "scmd_ok c"
  with SExec show ?thesis using word_calm by (cases ws) (auto simp: closed_calm)
qed (auto simp: calm_def is_white_def)

definition reads_back :: "byte list \<Rightarrow> scmd \<Rightarrow> bool" where
  "reads_back buf c \<longleftrightarrow> (\<forall>n s post. view buf s (show_cmd c @ post) \<longrightarrow> closed_by post \<longrightarrow>
     yields buf (parseline n buf s) c (s + length (show_cmd c)))"

lemma reads_backD:
  "reads_back buf c \<Longrightarrow> view buf s (show_cmd c @ post) \<Longrightarrow> closed_by post \<Longrightarrow>
     yields buf (parseline n buf s) c (s + length (show_cmd c))"
  by (simp add: reads_back_def)

lemma block_good:
  assumes ih: "reads_back buf c" and ok: "scmd_ok c" and v: "view buf s (40 # show_cmd c @ 41 # rest)" and rest: "calm rest"
  shows "parseexec n buf s = NoFuel \<or>
    (\<exists>d. spell (token_text buf) d = c \<and> parseexec n buf s = parseredirs d buf (s + length (show_cmd c) + 2))"
proof (cases n)
  case (Suc n1)
  have p: "peek buf [40] s = (True, s)" using peek_view [OF v symbols_calm, of "[40]"] by simp
  have calm1: "calm (show_cmd c @ 41 # rest)" using show_calm [OF _ ok] by (simp add: closed_by_def)
  have g: "gettoken buf s = (40, s, s + 1, s + 1)" using gettoken_symbol [OF v _ calm1] by simp
  have v1: "view buf (s + 1) (show_cmd c @ 41 # rest)" using view_Cons [OF v] .
  have v2: "view buf (s + 1 + length (show_cmd c)) (41 # rest)" using view_append [OF v1] .
  have p2: "peek buf [41] (s + 1 + length (show_cmd c)) = (True, s + 1 + length (show_cmd c))"
    using peek_view [OF v2 symbols_calm, of "[41]"] by simp
  have g2: "gettoken buf (s + 1 + length (show_cmd c)) =
      (41, s + 1 + length (show_cmd c), s + length (show_cmd c) + 2, s + length (show_cmd c) + 2)"
    using gettoken_symbol [OF v2 _ rest] by simp
  show ?thesis
  proof (cases n1)
    case (Suc n2)
    have "yields buf (parseline n2 buf (s + 1)) c (s + 1 + length (show_cmd c))"
      using reads_backD [OF ih v1] by (simp add: closed_by_def)
    then show ?thesis
      using p g p2 g2 by (auto simp: yields_def \<open>n = Suc n1\<close> \<open>n1 = Suc n2\<close>)
  qed (simp add: Suc p)
qed simp

lemma pipe_good:
  assumes ih: "reads_back buf c" and ok: "scmd_ok c" and v: "view buf s (40 # show_cmd c @ 41 # rest)" and rest: "calm rest"
    and nx: "rest = [] \<or> hd rest \<notin> set [60, 62, 124]"
  shows "yields buf (parsepipe n buf s) c (s + length (show_cmd c) + 2)"
proof (cases n)
  case (Suc n1)
  have v2: "view buf (s + length (show_cmd c) + 2) rest"
    using view_append [of buf s "40 # show_cmd c @ [41]" rest] v by simp
  have r: "parseredirs d buf (s + length (show_cmd c) + 2) = Good (d, s + length (show_cmd c) + 2)" for d
    using redirs_none [OF v2 rest] nx by auto
  have "peek buf [124] (s + length (show_cmd c) + 2) = (False, s + length (show_cmd c) + 2)"
    using peek_view [OF v2 rest, of "[124]"] nx by auto
  then show ?thesis
    using block_good [where n = n1, OF ih ok v rest] by (auto simp: yields_def Suc r [simplified])
qed (simp add: yields_def)

text \<open>At the end of a line of the printed command nothing is left for the list and background
  operators.\<close>

lemma line_of_pipe:
  assumes y: "\<And>n. yields buf (parsepipe n buf s) c s'" and v: "view buf s' post" and post: "closed_by post"
  shows "yields buf (parseline n buf s) c s'"
proof (cases n)
  case (Suc n1)
  have "parse_back d buf s' = (d, s')" for d
    using back_none [OF v closed_calm [OF post]] post by (auto simp: closed_by_def)
  moreover have "peek buf [59] s' = (False, s')"
    using peek_view [OF v closed_calm [OF post], of "[59]"] post by (auto simp: closed_by_def)
  ultimately show ?thesis using y [of n1] by (auto simp: yields_def Suc)
qed (simp add: yields_def)

lemma spell_cong: "(\<And>w. w \<in> set (words d) \<Longrightarrow> f w = g w) \<Longrightarrow> spell f d = spell g d"
  by (induction d) auto

lemma show_cmd_no_nul: "scmd_ok c \<Longrightarrow> 0 \<notin> set (show_cmd c)"
  by (induction c) (auto simp: list_all_iff good_word_def word_char_def)

lemma reads_back_all: "scmd_ok c \<Longrightarrow> reads_back buf c"
proof (induction c)
  case (SExec ws)
  have "yields buf (parseline n buf s) (SExec ws) (s + length (show_cmd (SExec ws)))"
    if v: "view buf s (show_cmd (SExec ws) @ post)" and post: "closed_by post" for n s post
  proof (rule line_of_pipe [OF _ _ post])
    show "view buf (s + length (show_cmd (SExec ws))) post" using view_append [OF v] .
    then have pk: "peek buf [124] (s + length (show_cmd (SExec ws))) = (False, s + length (show_cmd (SExec ws)))"
      using peek_view [OF _ closed_calm [OF post], of buf _ "[124]"] post by (auto simp: closed_by_def)
    have calm: "calm (show_cmd (SExec ws) @ post)" using show_calm [OF post SExec] .
    have hd: "show_cmd (SExec ws) @ post = [] \<or> hd (show_cmd (SExec ws) @ post) \<notin> set [40, 60, 62]"
    proof (cases ws)
      case Nil
      with post show ?thesis by (auto simp: closed_by_def)
    next
      case (Cons u us)
      with SExec words_then [of u "32 # concat (map (\<lambda>w. w @ [32]) us) @ post"] show ?thesis by simp
    qed
    have e: "peek buf [40] s = (False, s)" using peek_view [OF v calm, of "[40]"] hd by auto
    have r: "parseredirs (EXEC []) buf s = Good (EXEC [], s)" using redirs_none [OF v calm] hd by auto
    obtain ds where a: "parseargs (EXEC []) [] buf s =
        Good (EXEC ds, s + length (show_cmd (SExec ws)))" "map (token_text buf) ds = ws"
      using args_good [of buf s ws post "[]" "EXEC []"] v post SExec by auto
    fix n
    show "yields buf (parsepipe n buf s) (SExec ws) (s + length (show_cmd (SExec ws)))"
    proof (cases n)
      case (Suc n1)
      then show ?thesis
        using e r a pk by (cases n1) (auto simp: yields_def)
    qed (simp add: yields_def)
  qed
  then show ?case by (simp add: reads_back_def)
next
  case (SRedir c f mode fd)
  let ?b = "if fd = 0 then 60 else 62 :: byte"
  have "yields buf (parseline n buf s) (SRedir c f mode fd) (s + length (show_cmd (SRedir c f mode fd)))"
    if v: "view buf s (show_cmd (SRedir c f mode fd) @ post)" and post: "closed_by post" for n s post
  proof (rule line_of_pipe [OF _ _ post])
    show vp: "view buf (s + length (show_cmd (SRedir c f mode fd))) post" using view_append [OF v] .
    have ih: "reads_back buf c" and ok: "scmd_ok c" and f: "good_word f" using SRedir by simp_all
    have v1: "view buf s (40 # show_cmd c @ 41 # ?b # f @ post)" using v by simp
    have v2: "view buf (s + length (show_cmd c) + 2) (?b # f @ post)"
      using view_append [of buf s "40 # show_cmd c @ [41]" "?b # f @ post"] v1 by simp
    have r: "parseredirs d buf (s + length (show_cmd c) + 2) =
        Good (REDIR d (s + length (show_cmd c) + 3, s + length (show_cmd c) + 3 + length f) mode fd,
          s + length (show_cmd (SRedir c f mode fd)))" for d
      using redirs_one [OF v2 _ f post, of d] SRedir(2) by (auto simp: algebra_simps)
    have t: "token_text buf (s + length (show_cmd c) + 3, s + length (show_cmd c) + 3 + length f) = f"
      using view_subrange [OF view_Cons [OF v2]] by (simp add: token_text_def numeral_3_eq_3)
    have pk: "peek buf [124] (s + length (show_cmd (SRedir c f mode fd))) =
        (False, s + length (show_cmd (SRedir c f mode fd)))"
      using peek_view [OF vp closed_calm [OF post], of "[124]"] post by (auto simp: closed_by_def)
    fix n
    show "yields buf (parsepipe n buf s) (SRedir c f mode fd) (s + length (show_cmd (SRedir c f mode fd)))"
    proof (cases n)
      case (Suc n1)
      have "calm (?b # f @ post)" by (intro symbols_calm) simp
      from block_good [OF ih ok v1 this, of n1] show ?thesis
        using pk t by (auto simp: yields_def Suc r [simplified])
    qed (simp add: yields_def)
  qed
  then show ?case by (simp add: reads_back_def)
next
  case (SPipe l r)
  have "yields buf (parseline n buf s) (SPipe l r) (s + length (show_cmd (SPipe l r)))"
    if v: "view buf s (show_cmd (SPipe l r) @ post)" and post: "closed_by post" for n s post
  proof (rule line_of_pipe [OF _ _ post])
    show "view buf (s + length (show_cmd (SPipe l r))) post" using view_append [OF v] .
    define e where "e = s + length (show_cmd l) + 2"
    have v1: "view buf s (40 # show_cmd l @ 41 # 124 # 40 # show_cmd r @ 41 # post)" using v by simp
    have v2: "view buf e (124 # 40 # show_cmd r @ 41 # post)"
      using view_append [of buf s "40 # show_cmd l @ [41]"] v1 by (simp add: e_def)
    have calm: "calm (124 # xs)" "calm (40 # xs)" for xs by (intro symbols_calm, simp)+
    have p: "peek buf [124] e = (True, e)" using peek_view [OF v2 calm(1), of "[124]"] by simp
    have g: "gettoken buf e = (124, e, e + 1, e + 1)" using gettoken_symbol [OF v2 _ calm(2)] by simp
    have r: "yields buf (parsepipe n buf (e + 1)) r (s + length (show_cmd (SPipe l r)))" for n
      using pipe_good [OF _ _ view_Cons [OF v2] closed_calm [OF post], of n] SPipe post
      by (auto simp: closed_by_def e_def add.assoc)
    have none: "parseredirs d buf e = Good (d, e)" for d using redirs_none [OF v2 calm(1)] by simp
    fix n
    show "yields buf (parsepipe n buf s) (SPipe l r) (s + length (show_cmd (SPipe l r)))"
    proof (cases n)
      case (Suc n1)
      from SPipe have "reads_back buf l" "scmd_ok l" by simp_all
      from block_good [OF this v1 calm(1), of n1, folded e_def] show ?thesis
        using r [of n1] p g none by (auto simp: yields_def Suc simp del: show_cmd.simps)
    qed (simp add: yields_def)
  qed
  then show ?case by (simp add: reads_back_def)
next
  case (SList l r)
  have "yields buf (parseline n buf s) (SList l r) (s + length (show_cmd (SList l r)))"
    if v: "view buf s (show_cmd (SList l r) @ post)" and post: "closed_by post" for n s post
  proof (cases n)
    case (Suc n1)
    define e where "e = s + length (show_cmd l) + 2"
    have v1: "view buf s (40 # show_cmd l @ 41 # 59 # 40 # show_cmd r @ 41 # post)" using v by simp
    have v2: "view buf e (59 # 40 # show_cmd r @ 41 # post)"
      using view_append [of buf s "40 # show_cmd l @ [41]"] v1 by (simp add: e_def)
    have calm: "calm (59 # xs)" "calm (40 # xs)" for xs by (intro symbols_calm, simp)+
    have p: "peek buf [59] e = (True, e)" using peek_view [OF v2 calm(1), of "[59]"] by simp
    have g: "gettoken buf e = (59, e, e + 1, e + 1)" using gettoken_symbol [OF v2 _ calm(2)] by simp
    have v3: "view buf (s + length (show_cmd (SList l r))) post" using view_append [OF v] .
    have r: "yields buf (parseline n buf (e + 1)) r (s + length (show_cmd (SList l r)))" for n
    proof (rule line_of_pipe [OF _ v3 post])
      show "yields buf (parsepipe n buf (e + 1)) r (s + length (show_cmd (SList l r)))" for n
        using pipe_good [OF _ _ view_Cons [OF v2] closed_calm [OF post], of n] SList post
        by (auto simp: closed_by_def e_def add.assoc)
    qed
    have none: "parse_back d buf e = (d, e)" for d using back_none [OF v2 calm(1)] by simp
    from SList have "reads_back buf l" "scmd_ok l" by simp_all
    from pipe_good [OF this v1 calm(1), of n1, folded e_def] show ?thesis
      using r [of n1] p g none by (auto simp: yields_def Suc simp del: show_cmd.simps)
  qed (simp add: yields_def)
  then show ?case by (simp add: reads_back_def)
next
  case (SBack c)
  have "yields buf (parseline n buf s) (SBack c) (s + length (show_cmd (SBack c)))"
    if v: "view buf s (show_cmd (SBack c) @ post)" and post: "closed_by post" for n s post
  proof (cases n)
    case (Suc n1)
    define e where "e = s + length (show_cmd c) + 2"
    have v1: "view buf s (40 # show_cmd c @ 41 # 38 # post)" using v by simp
    have v2: "view buf e (38 # post)"
      using view_append [of buf s "40 # show_cmd c @ [41]"] v1 by (simp add: e_def)
    have calm: "calm (38 # xs)" for xs by (intro symbols_calm) simp
    have b: "parse_back d buf e = (BACK d, e + 1)" for d using back_one [OF v2 post] .
    have p: "peek buf [59] (e + 1) = (False, e + 1)"
      using peek_view [OF view_Cons [OF v2] closed_calm [OF post], of "[59]"] post by (auto simp: closed_by_def)
    have len: "s + length (show_cmd (SBack c)) = e + 1" by (simp add: e_def)
    from SBack have "reads_back buf c" "scmd_ok c" by simp_all
    from pipe_good [OF this v1 calm, of n1, folded e_def] show ?thesis
      unfolding len using p b by (auto simp: yields_def Suc simp del: show_cmd.simps)
  qed (simp add: yields_def)
  then show ?case by (simp add: reads_back_def)
qed

lemma parsecmd_reads_back:
  assumes "scmd_ok c"
  shows "\<exists>d. parsecmd (show_cmd c) = Good d
    \<and> spell (\<lambda>w. cstr (nulterminate d (show_cmd c @ [0])) (fst w)) d = c"
proof -
  let ?b = "show_cmd c"
  have v: "view ?b 0 (?b @ [])" by (simp add: view_def)
  have "yields ?b (parseline (4 * length ?b + 4) ?b 0) c (length ?b)"
    using reads_backD [OF reads_back_all [OF assms] v] by (simp add: closed_by_def)
  moreover have "parseline (4 * length ?b + 4) ?b 0 \<noteq> NoFuel"
    by (rule parseline_returns)
  ultimately obtain d where "parseline (4 * length ?b + 4) ?b 0 = Good (d, length ?b)"
    and d: "spell (token_text ?b) d = c" by (auto simp: yields_def)
  moreover have "skip_white ?b (length ?b) = length ?b" by (subst skip_white.simps) simp
  ultimately have g: "parsecmd ?b = Good d" by (auto simp: parsecmd_Good)
  have "0 \<notin> set ?b" using show_cmd_no_nul [OF assms] .
  with g have "cstr (nulterminate d (?b @ [0])) (fst w) = token_text ?b w" if "w \<in> set (words d)" for w
    using parsecmd_words [OF g _ , of "fst w" "snd w"] that by (simp add: token_text_def)
  then have "spell (\<lambda>w. cstr (nulterminate d (?b @ [0])) (fst w)) d = spell (token_text ?b) d"
    by (intro spell_cong) simp
  with g d show ?thesis by auto
qed

text \<open>C30: what is printed is read back: for every command the shell can express, parsing its line
  succeeds and, after \<open>nulterminate\<close>, the strings of the parsed command in memory spell the command
  again, with the same structure, arguments and redirections.\<close>

theorem parsecmd_round_trip:
  assumes "scmd_ok c"
  shows "\<exists>d. parsecmd (show_cmd c) = Good d
    \<and> spell (\<lambda>w. cstr (nulterminate d (show_cmd c @ [0])) (fst w)) d = c"
  using assms by (rule parsecmd_reads_back)

end
