(* ===== verification/ShRun.thy ===== *)
theory ShRun
  imports ShPrint
begin

text \<open>
  \<open>runcmd\<close> of \<open>sh.c\<close> and what \<open>main\<close> does with a line, as trees of system calls, and an
  execution of them over descriptor tables that shows how pipelines are wired.
\<close>

section \<open>Running a command\<close>

text \<open>What \<open>runcmd\<close> does, as the tree of its system calls: \<open>Fork\<close> goes on with the value \<open>fork\<close>
  returns, so both processes are in the tree; \<open>Exec\<close> goes on only when it fails.  \<open>Print\<close> is
  \<open>printf(2, ...)\<close>.\<close>

datatype prog =
    Halt
  | Close int prog
  | Open "byte list" int "int \<Rightarrow> prog"
  | Dup int prog
  | Pipe "int \<times> int \<times> int \<Rightarrow> prog"
  | Exec "byte list list" prog
  | Fork "int \<Rightarrow> prog"
  | Wait prog
  | Print string prog
  | Chdir "byte list" "int \<Rightarrow> prog"

definition sh_panic :: "string \<Rightarrow> prog" where
  "sh_panic m = Print m Halt"

definition fork1 :: "(int \<Rightarrow> prog) \<Rightarrow> prog" where
  "fork1 f = Fork (\<lambda>pid. if pid = - 1 then sh_panic ''fork'' else f pid)"

fun runcmd :: "scmd \<Rightarrow> prog" where
  "runcmd (SExec []) = Halt"
| "runcmd (SExec (w # ws)) = Exec (w # ws) (Print ''exec failed'' Halt)"
| "runcmd (SRedir c f mode fd) =
     Close fd (Open f mode (\<lambda>r. if r < 0 then Print ''open failed'' Halt else runcmd c))"
| "runcmd (SList l r) = fork1 (\<lambda>pid. if pid = 0 then runcmd l else Wait (runcmd r))"
| "runcmd (SPipe l r) = Pipe (\<lambda>(ret, p0, p1).
     if ret < 0 then sh_panic ''pipe''
     else fork1 (\<lambda>pid. if pid = 0 then Close 1 (Dup p1 (Close p0 (Close p1 (runcmd l))))
     else fork1 (\<lambda>pid. if pid = 0 then Close 0 (Dup p0 (Close p0 (Close p1 (runcmd r))))
     else Close p0 (Close p1 (Wait (Wait Halt))))))"
| "runcmd (SBack c) = fork1 (\<lambda>pid. if pid = 0 then runcmd c else Halt)"

text \<open>What \<open>main\<close> does with a line: \<open>cd\<close> is done by the shell itself, on the line without its last
  byte; every other line is parsed and run by a child.  Where the shell goes on with the next line
  the tree ends.\<close>

definition sh_line :: "byte list \<Rightarrow> prog" where
  "sh_line buf =
     (if take 3 buf = [99, 100, 32]
      then Chdir (drop 3 (butlast buf)) (\<lambda>r. if r < 0 then Print ''cannot cd'' Halt else Halt)
      else fork1 (\<lambda>pid. if pid = 0
        then (case parsecmd buf of
            Good c \<Rightarrow> runcmd (spell (\<lambda>w. cstr (nulterminate c (buf @ [0])) (fst w)) c)
          | Panic m \<Rightarrow> sh_panic m
          | NoFuel \<Rightarrow> Halt)
        else Wait Halt))"

section \<open>What is executed, and with which files\<close>

text \<open>An execution in which every call succeeds.  A process has its table of sixteen descriptors;
  \<open>open\<close>, \<open>dup\<close> and \<open>pipe\<close> use the lowest free ones, and \<open>fork\<close> copies the table.  The result is
  the list of the programs executed with their descriptors, and the next pipe's number.\<close>

datatype obj = Given nat | FileAt "byte list" int | ReadEnd nat | WriteEnd nat

type_synonym fds = "int \<Rightarrow> obj option"

definition lowest :: "fds \<Rightarrow> int option" where
  "lowest t = find (\<lambda>d. t d = None) (map int [0..<16])"

primrec execs :: "prog \<Rightarrow> fds \<Rightarrow> nat \<Rightarrow> (byte list list \<times> fds) list \<times> nat" where
  "execs Halt t k = ([], k)"
| "execs (Close d p) t k = execs p (t(d := None)) k"
| "execs (Open f mode p) t k =
     (case lowest t of None \<Rightarrow> execs (p (- 1)) t k | Some d \<Rightarrow> execs (p d) (t(d := Some (FileAt f mode))) k)"
| "execs (Dup d p) t k =
     (case lowest t of None \<Rightarrow> execs p t k | Some e \<Rightarrow> execs p (if t d = None then t else t(e := t d)) k)"
| "execs (Pipe p) t k =
     (case lowest t of None \<Rightarrow> execs (p (- 1, 0, 0)) t k
      | Some a \<Rightarrow> (case lowest (t(a := Some (ReadEnd k))) of None \<Rightarrow> execs (p (- 1, 0, 0)) t k
        | Some b \<Rightarrow> execs (p (0, a, b)) (t(a := Some (ReadEnd k), b := Some (WriteEnd k))) (k + 1)))"
| "execs (Exec ws p) t k = ([(ws, t)], k)"
| "execs (Fork p) t k =
     (case execs (p 0) t k of (xs, k1) \<Rightarrow> case execs (p 1) t k1 of (ys, k2) \<Rightarrow> (xs @ ys, k2))"
| "execs (Wait p) t k = execs p t k"
| "execs (Print m p) t k = execs p t k"
| "execs (Chdir f p) t k = execs (p 0) t k"

text \<open>A table with only the three standard descriptors.\<close>

definition std_fds :: "fds \<Rightarrow> bool" where
  "std_fds t \<longleftrightarrow> (\<forall>d. t d = None \<longleftrightarrow> d \<notin> {0, 1, 2})"

lemma upt_16: "[0..<16] = [0, 1, 2, 3, 4, 5, 6, 7, 8, 9, 10, 11, 12, 13, 14, 15]"
  by (simp add: upt_rec)

lemma lowest_std:
  assumes "std_fds t"
  shows "lowest t = Some 3" "lowest (t(3 := Some x)) = Some 4"
    "lowest (t(3 := Some x, 4 := Some y, 0 := None)) = Some 0"
    "lowest (t(3 := Some x, 4 := Some y, 1 := None)) = Some 1"
    "lowest (t(0 := None)) = Some 0" "lowest (t(1 := None)) = Some 1"
proof -
  have "t 0 \<noteq> None" "t 1 \<noteq> None" "t 2 \<noteq> None" "t 3 = None" "t 4 = None"
    using assms by (simp_all add: std_fds_def)
  then show "lowest t = Some 3" "lowest (t(3 := Some x)) = Some 4"
    "lowest (t(3 := Some x, 4 := Some y, 0 := None)) = Some 0"
    "lowest (t(3 := Some x, 4 := Some y, 1 := None)) = Some 1"
    "lowest (t(0 := None)) = Some 0" "lowest (t(1 := None)) = Some 1"
    by (simp_all add: lowest_def upt_16)
qed

lemma std_fds_upd: "std_fds t \<Longrightarrow> d \<in> {0, 1, 2} \<Longrightarrow> std_fds (t(d := Some x))"
  by (auto simp: std_fds_def)

text \<open>The redirections of a command and its pipeline.\<close>

fun pipeline :: "scmd list \<Rightarrow> scmd" where
  "pipeline [] = SExec []"
| "pipeline [c] = c"
| "pipeline (c # cs) = SPipe c (pipeline cs)"

fun plumbed :: "byte list list list \<Rightarrow> fds \<Rightarrow> nat \<Rightarrow> (byte list list \<times> fds) list" where
  "plumbed [] t k = []"
| "plumbed [ws] t k = [(ws, t)]"
| "plumbed (ws # wss) t k = (ws, t(1 := Some (WriteEnd k))) # plumbed wss (t(0 := Some (ReadEnd k))) (k + 1)"

lemma pipe_execs:
  assumes "std_fds t"
  shows "execs (runcmd (SPipe l r)) t k =
    (case execs (runcmd l) (t(1 := Some (WriteEnd k))) (k + 1) of (xs, k1) \<Rightarrow>
     case execs (runcmd r) (t(0 := Some (ReadEnd k))) k1 of (ys, k2) \<Rightarrow> (xs @ ys, k2))"
proof -
  have std: "t 3 = None" "t 4 = None" "t 0 \<noteq> None" "t 1 \<noteq> None" using assms by (simp_all add: std_fds_def)
  have a: "t(3 := Some x, 4 := Some y, 1 := None, 1 := Some y, 3 := None, 4 := None) = t(1 := Some y)" for x y
    using std by (simp add: fun_eq_iff)
  have b: "t(3 := Some x, 4 := Some y, 0 := None, 0 := Some x, 3 := None, 4 := None) = t(0 := Some x)" for x y
    using std by (simp add: fun_eq_iff)
  show ?thesis using a b
    by (simp add: fork1_def lowest_std [OF assms] split: prod.splits)
qed

lemma runcmd_pipeline:
  assumes "std_fds t" "[] \<notin> set wss"
  shows "execs (runcmd (pipeline (map SExec wss))) t k = (plumbed wss t k, k + (length wss - 1))"
  using assms
proof (induction wss t k rule: plumbed.induct)
  case (2 ws t k)
  then show ?case by (cases ws) auto
next
  case (3 ws ws' wss t k)
  obtain w vs where ws: "ws = w # vs" using 3(3) by (cases ws) auto
  have "std_fds (t(0 := Some (ReadEnd k)))" using std_fds_upd [OF 3(2)] by simp
  with 3 have "execs (runcmd (pipeline (map SExec (ws' # wss)))) (t(0 := Some (ReadEnd k))) (k + 1) =
      (plumbed (ws' # wss) (t(0 := Some (ReadEnd k))) (k + 1), k + 1 + length wss)" by (simp add: fun_upd_def)
  with ws pipe_execs [OF 3(2)] show ?case by simp
qed simp


lemma show_no_cd: "scmd_ok c \<Longrightarrow> (\<forall>ws. c \<noteq> SExec ws) \<Longrightarrow> take 3 (show_cmd c) \<noteq> [99, 100, 32]"
  by (cases c) auto

lemma sh_line_show:
  assumes "scmd_ok c" "\<forall>ws. c \<noteq> SExec ws"
  shows "execs (sh_line (show_cmd c)) t k = execs (runcmd c) t k"
proof -
  from parsecmd_reads_back [OF assms(1)] obtain d where "parsecmd (show_cmd c) = Good d"
    "spell (\<lambda>w. cstr (nulterminate d (show_cmd c @ [0])) (fst w)) d = c" by auto
  with show_no_cd [OF assms] show ?thesis by (simp add: sh_line_def fork1_def split: prod.splits)
qed

text \<open>The shell runs a pipeline that is typed, parsing included: its programs run in order with
  their words as arguments, each with its output on the write end of a pipe of its own and its input
  on the read end of the one before, the first and the last keeping the shell's input and output, and
  no other end of any pipe is left open, so that a reader sees end of file when its writer exits.\<close>

theorem shell_runs_pipeline:
  assumes "std_fds t" "2 \<le> length wss" "\<forall>ws \<in> set wss. ws \<noteq> [] \<and> length ws < MAXARGS \<and> list_all good_word ws"
  shows "execs (sh_line (show_cmd (pipeline (map SExec wss)))) t k = (plumbed wss t k, k + (length wss - 1))"
proof -
  have ok: "list_all scmd_ok cs \<Longrightarrow> scmd_ok (pipeline cs)" for cs
    by (induction cs rule: pipeline.induct) (simp_all add: MAXARGS_def)
  have "scmd_ok (pipeline (map SExec wss))"
    using assms(3) by (intro ok) (auto simp: list_all_iff)
  moreover have "\<forall>ws. pipeline (map SExec wss) \<noteq> SExec ws"
    using assms(2) by (cases wss rule: remdups_adj.cases) auto
  moreover have "[] \<notin> set wss" using assms(3) by auto
  ultimately show ?thesis using sh_line_show runcmd_pipeline assms(1) by simp
qed

definition demo_fds :: fds where
  "demo_fds d = (if d \<in> {0, 1, 2} then Some (Given (nat d)) else None)"

text \<open>\<open>cat a | grep b | wc\<close> in the notation of the printer.\<close>

definition demo_pipeline :: "byte list list list" where
  "demo_pipeline = [[[99, 97, 116], [97]], [[103, 114, 101, 112], [98]], [[119, 99]]]"

theorem shell_runs_pipeline_witness:
  "execs (sh_line (show_cmd (pipeline (map SExec demo_pipeline)))) demo_fds 0 =
    ([([[99, 97, 116], [97]], demo_fds(1 := Some (WriteEnd 0))),
      ([[103, 114, 101, 112], [98]], demo_fds(0 := Some (ReadEnd 0), 1 := Some (WriteEnd 1))),
      ([[119, 99]], demo_fds(0 := Some (ReadEnd 1)))], 2)"
  using shell_runs_pipeline [of demo_fds demo_pipeline 0]
  by (simp add: demo_fds_def [abs_def] std_fds_def demo_pipeline_def MAXARGS_def good_word_def word_char_def
      is_white_def is_symbol_def)

theorem parsecmd_round_trip_witness:
  "\<exists>d. parsecmd (show_cmd (SBack (SPipe (SExec [[97]]) (SRedir (SExec [[98]]) [99] O_WRONLY_CREATE 1)))) = Good d
    \<and> spell (\<lambda>w. cstr (nulterminate d
        (show_cmd (SBack (SPipe (SExec [[97]]) (SRedir (SExec [[98]]) [99] O_WRONLY_CREATE 1))) @ [0])) (fst w)) d
      = SBack (SPipe (SExec [[97]]) (SRedir (SExec [[98]]) [99] O_WRONLY_CREATE 1))"
  by (rule parsecmd_round_trip) (simp add: good_word_def word_char_def is_white_def is_symbol_def MAXARGS_def)

text \<open>\<open>ls>f\<close>: the NUL of the first word replaces the redirection sign.\<close>

lemma demo_line: "parsecmd [108, 115, 62, 102] = Good (REDIR (EXEC [(0, 2)]) (3, 4) O_WRONLY_CREATE 1)"
  by code_simp

theorem parsecmd_strings_witness:
  "cstr (nulterminate (REDIR (EXEC [(0, 2)]) (3, 4) O_WRONLY_CREATE 1) ([108, 115, 62, 102] @ [0])) 0
     = [108, 115] \<and> word_at [108, 115, 62, 102] (0, 2)"
  using parsecmd_strings [OF demo_line, of 0 2] by (simp add: subrange_def)

end
