(* ===== verification/Ulib.thy ===== *)
theory Ulib
  imports Cstring
begin

text \<open>
  The user library: \<open>ulib.c\<close> and \<open>printf.c\<close>.  Routines that only read take the bytes that follow
  their pointer as a function of the offset, routines that write take and return the memory of the
  process; a loop whose only bound is the NUL of a string is a partial function.  What is written to
  a descriptor is the list of its bytes, what is read from it the list of the bytes still to come.
  \<open>stat\<close>, which makes three system calls, is in \<open>Umain\<close>; \<open>strchr\<close> is in \<open>Grep\<close>.
\<close>

section \<open>ulib.c\<close>

partial_function (option) strcpy :: "memory \<Rightarrow> nat \<Rightarrow> nat \<Rightarrow> memory option" where
  "strcpy m s t = (if m t \<noteq> 0 then strcpy (m(s := m t)) (s + 1) (t + 1) else Some (m(s := m t)))"

partial_function (option) strcmp :: "(nat \<Rightarrow> byte) \<Rightarrow> (nat \<Rightarrow> byte) \<Rightarrow> nat \<Rightarrow> int option" where
  "strcmp p q i =
     (if p i \<noteq> 0 \<and> p i = q i then strcmp p q (i + 1) else Some (int (unat (p i)) - int (unat (q i))))"

partial_function (option) ustrlen_loop :: "(nat \<Rightarrow> byte) \<Rightarrow> nat \<Rightarrow> nat option" where
  "ustrlen_loop s n = (if s n \<noteq> 0 then ustrlen_loop s (n + 1) else Some n)"

definition ustrlen :: "(nat \<Rightarrow> byte) \<Rightarrow> nat option" where
  "ustrlen s = ustrlen_loop s 0"

definition umemset :: "memory \<Rightarrow> nat \<Rightarrow> 32 word \<Rightarrow> nat \<Rightarrow> memory" where
  "umemset m dst c n = stosb m dst (ucast c) n"

definition umemmove :: "memory \<Rightarrow> nat \<Rightarrow> nat \<Rightarrow> int \<Rightarrow> memory" where
  "umemmove m dst src n = copy_up m dst src (nat n)"

text \<open>\<open>gets\<close>: the bytes it stores before the NUL, at most \<open>room\<close> of them, and the input that is left.\<close>

fun gets_loop :: "nat \<Rightarrow> byte list \<Rightarrow> byte list \<times> byte list" where
  "gets_loop 0 inp = ([], inp)"
| "gets_loop (Suc room) [] = ([], [])"
| "gets_loop (Suc room) (c # inp) =
     (if c = 10 \<or> c = 13 then ([c], inp) else (case gets_loop room inp of (bs, r) \<Rightarrow> (c # bs, r)))"

definition gets :: "memory \<Rightarrow> nat \<Rightarrow> int \<Rightarrow> byte list \<Rightarrow> memory \<times> byte list" where
  "gets m buf limit inp = (case gets_loop (nat (limit - 1)) inp of (bs, r) \<Rightarrow> (store m buf (bs @ [0]), r))"

text \<open>Overflow of an \<open>int\<close> is undefined, hence \<open>None\<close>; the sum is taken before the subtraction.\<close>

fun atoi_loop :: "int \<Rightarrow> byte list \<Rightarrow> int option" where
  "atoi_loop n [] = Some n"
| "atoi_loop n (c # cs) =
     (if 48 \<le> c \<and> c \<le> 57
      then (if n * 10 + uint c < 2 ^ 31 then atoi_loop (n * 10 + uint c - 48) cs else None)
      else Some n)"

definition atoi :: "byte list \<Rightarrow> int option" where
  "atoi s = atoi_loop 0 s"

section \<open>printf.c\<close>

text \<open>The table \<open>digits\<close>: 0 to 9 and the capital letters A to F.\<close>

definition digits :: "byte list" where
  "digits = [48, 49, 50, 51, 52, 53, 54, 55, 56, 57, 65, 66, 67, 68, 69, 70]"

text \<open>The digits as the loop stores them in \<open>buf\<close>, the lowest first.\<close>

function digits_low :: "nat \<Rightarrow> nat \<Rightarrow> byte list" where
  "digits_low base x =
     digits ! (x mod base) # (if x div base \<noteq> 0 \<and> 1 < base then digits_low base (x div base) else [])"
  by pat_completeness auto
termination
proof (relation "measure (\<lambda>(base, x). x)")
  fix base x :: nat
  assume a: "x div base \<noteq> 0 \<and> 1 < base"
  then have "0 < x" by (cases x) auto
  with a show "((base, x div base), base, x) \<in> measure (\<lambda>(base, x). x)" by simp
qed auto

declare digits_low.simps [simp del]

definition uprintint :: "32 word \<Rightarrow> nat \<Rightarrow> bool \<Rightarrow> byte list" where
  "uprintint xx base sg =
     (let neg = (sg \<and> sint xx < 0); x = (if neg then - xx else xx) in
      rev (digits_low base (unat x) @ (if neg then [45] else [])))"

definition null_text :: "byte list" where
  "null_text = [40, 110, 117, 108, 108, 41]"

text \<open>What \<open>printf\<close> writes for a format (the bytes before its NUL) and the words that follow it on the
  stack; \<open>None\<close> when it reads more words than there are, or a string that has no end.\<close>

fun uprintf :: "memory \<Rightarrow> byte list \<Rightarrow> 32 word list \<Rightarrow> byte list option" where
  "uprintf m [] ap = Some []"
| "uprintf m [c] ap = (if c = 37 then Some [] else Some [c])"
| "uprintf m (c # d # cs) ap =
     (if c \<noteq> 37 then map_option ((#) c) (uprintf m (d # cs) ap)
      else if d = 100 then
        (case ap of [] \<Rightarrow> None | w # ws \<Rightarrow> map_option ((@) (uprintint w 10 True)) (uprintf m cs ws))
      else if d = 120 \<or> d = 112 then
        (case ap of [] \<Rightarrow> None | w # ws \<Rightarrow> map_option ((@) (uprintint w 16 False)) (uprintf m cs ws))
      else if d = 115 then
        (case ap of [] \<Rightarrow> None | w # ws \<Rightarrow>
           (case (if w = 0 then Some null_text
                  else map_option (load m (unat w)) (ustrlen (ptr m (unat w)))) of
              None \<Rightarrow> None
            | Some s \<Rightarrow> map_option ((@) s) (uprintf m cs ws)))
      else if d = 99 then
        (case ap of [] \<Rightarrow> None | w # ws \<Rightarrow> map_option ((#) (ucast w)) (uprintf m cs ws))
      else if d = 37 then map_option ((#) 37) (uprintf m cs ap)
      else map_option (\<lambda>r. 37 # d # r) (uprintf m cs ap))"

section \<open>Strings\<close>

lemma ustrlen_loop_eq: "cstr (\<lambda>i. s (n + i)) xs \<Longrightarrow> ustrlen_loop s n = Some (n + length xs)"
proof (induction xs arbitrary: n)
  case Nil
  then show ?case by (simp add: cstr_def ustrlen_loop.simps)
next
  case (Cons x xs)
  then have "s n \<noteq> 0" "cstr (\<lambda>i. s (Suc n + i)) xs" by (auto simp: cstr_Cons)
  with Cons.IH [of "Suc n"] show ?case by (simp add: ustrlen_loop.simps [of s n])
qed

lemma ustrlen_cstr: "cstr s xs \<Longrightarrow> ustrlen s = Some (length xs)"
  using ustrlen_loop_eq [of s 0 xs] by (simp add: ustrlen_def)

lemma load_cstr: "cstr (ptr m p) xs \<Longrightarrow> load m p (length xs) = xs"
  by (rule nth_equalityI) (auto simp: load_def cstr_def)

section \<open>Numbers\<close>

lemma sint_nonneg: "0 \<le> sint w \<Longrightarrow> sint w = int (unat w)" for w :: "32 word"
proof -
  assume a: "0 \<le> sint w"
  have "sint w < 2 ^ 31" using sint_lt [of w] by simp
  with a have "uint w = sint w" unfolding uint_sint by (simp add: take_bit_eq_mod)
  then show ?thesis by simp
qed

lemma digit_byte: "d < 10 \<Longrightarrow> uint (digits ! d) = 48 + int d \<and> 48 \<le> digits ! d \<and> digits ! d \<le> 57"
proof -
  assume "d < 10"
  then have "d \<in> set [0, 1, 2, 3, 4, 5, 6, 7, 8, 9]" by auto
  then show ?thesis by (auto simp: digits_def)
qed

lemma atoi_digits:
  "base = 10 \<Longrightarrow> 0 \<le> a \<Longrightarrow> a * 10 ^ length (digits_low base n) + int n + 48 < 2 ^ 31 \<Longrightarrow>
   atoi_loop a (rev (digits_low base n) @ rest) = atoi_loop (a * 10 ^ length (digits_low base n) + int n) rest"
proof (induction base n arbitrary: rest rule: digits_low.induct)
  case (1 base n)
  have d: "n mod 10 < 10" by simp
  note db = digit_byte [OF d]
  show ?case
  proof (cases "n div 10 = 0")
    case True
    with 1 have "digits_low base n = [digits ! (n mod 10)]" "n mod 10 = n"
      by (simp_all add: digits_low.simps [of 10 n] div_eq_0_iff)
    with 1 db show ?thesis by simp
  next
    case False
    define k where "k = length (digits_low 10 (n div 10))"
    have low: "digits_low base n = digits ! (n mod 10) # digits_low 10 (n div 10)"
      using False 1(2) by (simp add: digits_low.simps [of 10 n])
    define v where "v = a * 10 ^ k + int (n div 10)"
    have v: "0 \<le> v" using 1(3) by (simp add: v_def)
    have sum: "a * 10 ^ Suc k + int n = v * 10 + int (n mod 10)"
    proof -
      have "int n = int (n div 10) * 10 + int (n mod 10)" by (simp add: zdiv_int zmod_int)
      then show ?thesis by (simp add: v_def algebra_simps)
    qed
    have big: "v * 10 + int (n mod 10) + 48 < 2 ^ 31"
      using 1(4) sum by (simp only: low k_def length_Cons)
    then have "v + 48 < 2 ^ 31" using v by linarith
    then have "a * 10 ^ k + int (n div 10) + 48 < 2 ^ 31" by (simp only: v_def)
    then have "atoi_loop a (rev (digits_low 10 (n div 10)) @ digits ! (n mod 10) # rest) =
        atoi_loop v (digits ! (n mod 10) # rest)"
      using 1(1) [of "digits ! (n mod 10) # rest"] False 1(2, 3) by (simp add: k_def v_def)
    also have "\<dots> = atoi_loop (v * 10 + int (n mod 10)) rest" using db big by simp
    also have "v * 10 + int (n mod 10) = a * 10 ^ length (digits_low base n) + int n"
      using sum by (simp only: low k_def length_Cons)
    finally show ?thesis by (simp add: low)
  qed
qed

text \<open>At most ten digits: with the sign they fit in the sixteen bytes of \<open>buf\<close>.\<close>

lemma digits_low_length: "0 < n \<Longrightarrow> n < base ^ k \<Longrightarrow> 1 < base \<Longrightarrow> length (digits_low base n) \<le> k"
proof (induction base n arbitrary: k rule: digits_low.induct)
  case (1 base n)
  then obtain j where k: "k = Suc j" by (cases k) auto
  show ?case
  proof (cases "n div base = 0")
    case True
    with k show ?thesis by (simp add: digits_low.simps [of base n])
  next
    case False
    have "n div base < base ^ j" using 1(3) k by (simp add: less_mult_imp_div_less mult.commute)
    with 1 False k show ?thesis by (simp add: digits_low.simps [of base n])
  qed
qed

text \<open>C32: what \<open>printf\<close> prints for \<open>%d\<close> is read back by \<open>atoi\<close>, for every number from 0 to 48 below the
  largest, whatever follows it that is not a digit; a negative number is printed as a minus sign and
  its absolute value, and neither needs more than eleven of the sixteen bytes of \<open>printint\<close>'s buffer.\<close>

theorem print_atoi_round_trip:
  assumes "rest = [] \<or> hd rest < 48 \<or> 57 < hd rest"
  shows "(0 \<le> sint w \<and> sint w + 48 < 2 ^ 31 \<longrightarrow> atoi (uprintint w 10 True @ rest) = Some (sint w))
    \<and> (sint w < 0 \<longrightarrow> uprintint w 10 True = 45 # uprintint (- w) 10 False)
    \<and> length (uprintint w 10 True) \<le> 11"
proof -
  have stop: "atoi_loop n rest = Some n" for n
    using assms by (cases rest) auto
  have "atoi (uprintint w 10 True @ rest) = Some (sint w)" if w: "0 \<le> sint w" "sint w + 48 < 2 ^ 31"
  proof -
    have u: "sint w = int (unat w)" using w(1) by (rule sint_nonneg)
    then show ?thesis using w atoi_digits [of 10 0 "unat w" rest] stop
      by (simp add: atoi_def uprintint_def)
  qed
  moreover have "length (uprintint w 10 True) \<le> 11"
  proof -
    have "length (digits_low 10 n) \<le> 10" if "n < 2 ^ 32" for n
      using digits_low_length [of n 10 10] that by (cases n) (simp_all add: digits_low.simps)
    from this [of "unat w"] this [of "unat (- w)"] show ?thesis
      using unsigned_less [of w, where 'a = nat] unsigned_less [of "- w", where 'a = nat] by (simp add: uprintint_def Let_def)
  qed
  ultimately show ?thesis by (simp add: uprintint_def Let_def)
qed

theorem print_atoi_round_trip_witness:
  "atoi (uprintint 1234 10 True @ [10]) = Some 1234 \<and> uprintint (- 7) 10 True = [45, 55]"
  using print_atoi_round_trip [of "[10]" 1234]
  by (simp add: uprintint_def digits_low.simps digits_def)

text \<open>Without overlap, or moving down, \<open>memmove\<close> agrees with the kernel's; moving up into its own
  source it repeats bytes it has already overwritten.\<close>

lemma umemmove_memmove:
  "dst \<le> src \<or> src + nat n \<le> dst \<Longrightarrow> umemmove m dst src n = memmove m dst src (nat n)"
  by (auto simp: umemmove_def memmove_def)

lemma umemmove_smears: "umemmove m 1 0 2 2 = m 0"
  by (simp add: umemmove_def numeral_2_eq_2)

end
