(* ===== verification/ShMain.thy ===== *)
theory ShMain
  imports ShRun Ulib
begin

text \<open>
  The shell as its user sees it: \<open>main\<close> of \<open>sh.c\<close> around \<open>sh_line\<close>.  It opens the console until three
  descriptors are in use, and then reads lines and runs each, until the input ends.  The property is
  about what is typed, newlines included, so the first part shows that the parser reads a line with its
  newline as it reads it without.
\<close>

section \<open>main of sh.c\<close>

text \<open>\<open>getcmd\<close> fills the buffer of 100 bytes with zeros and reads a line into it; \<open>None\<close> is the end of the
  input.  The result is the string in the buffer, with the input that is left.\<close>

definition getcmd :: "byte list \<Rightarrow> (byte list \<times> byte list) option" where
  "getcmd inp = (case gets_loop (100 - 1) inp of (bs, rest) \<Rightarrow>
     if bs = [] \<or> hd bs = 0 then None else Some (takeWhile (\<lambda>b. b \<noteq> 0) bs, rest))"

lemma gets_loop_length: "gets_loop n inp = (bs, rest) \<Longrightarrow> length bs + length rest = length inp"
  by (induction n inp arbitrary: bs rest rule: gets_loop.induct) (auto split: if_splits prod.splits)

lemma getcmd_shorter: "getcmd inp = Some (l, rest) \<Longrightarrow> length rest < length inp"
  by (auto simp: getcmd_def dest!: gets_loop_length split: prod.splits if_splits) (metis add.commute less_add_same_cancel1 length_greater_0_conv)

text \<open>The first loop: \<open>open\<close> gives the lowest free descriptor, and one above 2 is closed again.\<close>

definition CONSOLE :: "byte list" where "CONSOLE = map of_char ''console''"

definition O_RDWR :: int where "O_RDWR = 2"

lemma lowest_free: "lowest t = Some d \<Longrightarrow> t d = None \<and> d \<in> set (map int [0..<16])"
  by (auto simp: lowest_def find_Some_iff)

lemma fewer_free:
  assumes "lowest t = Some d"
  shows "length (filter (\<lambda>e. (t(d := Some x)) e = None) (map int [0..<16])) < length (filter (\<lambda>e. t e = None) (map int [0..<16]))"
proof -
  have "d \<in> set (filter (\<lambda>e. t e = None) (map int [0..<16]))" using lowest_free [OF assms] by simp
  moreover have "filter (\<lambda>e. (t(d := Some x)) e = None) (map int [0..<16])
      = filter (\<lambda>e. e \<noteq> d) (filter (\<lambda>e. t e = None) (map int [0..<16]))" by (auto intro: filter_cong)
  ultimately show ?thesis using length_filter_less [of d "filter (\<lambda>e. t e = None) (map int [0..<16])" "\<lambda>e. e \<noteq> d"] by simp
qed

function open_console :: "fds \<Rightarrow> fds" where
  "open_console t = (case lowest t of
     None \<Rightarrow> t
   | Some fd \<Rightarrow> if fd \<ge> 3 then t else open_console (t(fd := Some (FileAt CONSOLE O_RDWR))))"
  by pat_completeness auto
termination
  by (relation "measure (\<lambda>t. length (filter (\<lambda>e. t e = None) (map int [0..<16])))") (simp, simp only: in_measure fewer_free)

declare open_console.simps [simp del]

text \<open>The lines that the second loop handles.\<close>

function sh_lines :: "byte list \<Rightarrow> byte list list" where
  "sh_lines inp = (case getcmd inp of None \<Rightarrow> [] | Some (l, rest) \<Rightarrow> l # sh_lines rest)"
  by pat_completeness auto
termination by (relation "measure length") (auto dest: getcmd_shorter)

declare sh_lines.simps [simp del]

text \<open>A line leaves the table of the shell itself as it is: other processes run it.\<close>

fun sh_run :: "byte list list \<Rightarrow> fds \<Rightarrow> nat \<Rightarrow> (byte list list \<times> fds) list \<times> nat" where
  "sh_run [] t k = ([], k)"
| "sh_run (l # ls) t k = (case execs (sh_line l) t k of (xs, k1) \<Rightarrow> case sh_run ls t k1 of (ys, k2) \<Rightarrow> (xs @ ys, k2))"

definition sh_main :: "byte list \<Rightarrow> fds \<Rightarrow> nat \<Rightarrow> (byte list list \<times> fds) list \<times> nat" where
  "sh_main inp t k = sh_run (sh_lines inp) (open_console t) k"

section \<open>A newline at the end of the line\<close>

text \<open>\<open>gets\<close> leaves the newline in the buffer.  The scanner skips it behind the last token, so a position
  at the end of the line moves behind it, and nothing else changes.\<close>

definition up :: "byte list \<Rightarrow> nat \<Rightarrow> nat" where
  "up b s = (if s = length b then s + 1 else s)"

definition near :: "byte list \<Rightarrow> nat \<Rightarrow> nat \<Rightarrow> bool" where
  "near b s s' \<longleftrightarrow> s \<le> length b \<and> (s' = s \<or> s' = up b s)"

lemma near_up: "s \<le> length b \<Longrightarrow> near b s (up b s)"
  by (simp add: near_def)

lemma chr_at_nl: "chr_at (b @ [10]) s = (if s = length b then 10 else chr_at b s)"
  by (auto simp: chr_at_def nth_append)

lemma chr_at_up: "s \<le> length b \<Longrightarrow> chr_at (b @ [10]) (up b s) = chr_at b s"
  by (auto simp: chr_at_def nth_append up_def)

lemma skip_white_nl: "s \<le> length b \<Longrightarrow> skip_white (b @ [10]) s = up b (skip_white b s)"
proof (induction b s rule: skip_white.induct)
  case (1 b s)
  have last: "skip_white (b @ [10]) (Suc (length b)) = Suc (length b)" by (subst skip_white.simps) simp
  show ?case
  proof (cases "s = length b")
    case True
    have "skip_white b s = s" by (subst skip_white.simps) (simp add: True)
    moreover have "skip_white (b @ [10]) s = skip_white (b @ [10]) (Suc s)"
      by (subst skip_white.simps) (simp add: True chr_at_nl is_white_def)
    ultimately show ?thesis using last by (simp add: up_def True)
  next
    case False
    then have s: "s < length b" using 1 by simp
    show ?thesis
    proof (cases "is_white (chr_at b s)")
      case True
      then have "skip_white b s = skip_white b (s + 1)" by (subst skip_white.simps) (simp add: s)
      moreover have "skip_white (b @ [10]) s = skip_white (b @ [10]) (s + 1)"
        by (subst skip_white.simps) (use s True in \<open>simp add: chr_at_nl\<close>)
      ultimately show ?thesis using 1 s True by simp
    next
      case w: False
      then have "skip_white b s = s" by (subst skip_white.simps) simp
      moreover have "skip_white (b @ [10]) s = s" by (subst skip_white.simps) (use s w in \<open>simp add: chr_at_nl\<close>)
      ultimately show ?thesis using s by (simp add: up_def)
    qed
  qed
qed

lemma skip_white_near: "near b s s' \<Longrightarrow> skip_white (b @ [10]) s' = up b (skip_white b s)"
proof -
  assume n: "near b s s'"
  have "skip_white (b @ [10]) (Suc (length b)) = Suc (length b)" by (subst skip_white.simps) simp
  moreover have "skip_white b (length b) = length b" by (subst skip_white.simps) simp
  ultimately show ?thesis using n skip_white_nl [of s b] by (auto simp: near_def up_def)
qed

lemma skip_word_nl: "s \<le> length b \<Longrightarrow> skip_word (b @ [10]) s = skip_word b s"
proof (induction b s rule: skip_word.induct)
  case (1 b s)
  show ?case
  proof (cases "s < length b \<and> \<not> is_white (chr_at b s) \<and> \<not> is_symbol (chr_at b s)")
    case True
    then have "skip_word (b @ [10]) (s + 1) = skip_word b (s + 1)" using 1 by simp
    then show ?thesis using True by (subst (1 2) skip_word.simps) (simp add: chr_at_nl)
  next
    case False
    then show ?thesis using 1(2) by (subst (1 2) skip_word.simps) (auto simp: chr_at_nl is_white_def)
  qed
qed

lemma peek_nl: "near b s s' \<Longrightarrow> peek (b @ [10]) toks s' = (case peek b toks s of (m, t) \<Rightarrow> (m, up b t))"
  using skip_white_bound [of s b] skip_white_near [of b s s'] by (simp add: peek_def Let_def chr_at_up near_def)

lemma gettoken_nl:
  assumes n: "near b s s'" and g: "gettoken b s = (t, q, e, s2)"
  shows "\<exists>q' e'. gettoken (b @ [10]) s' = (t, q', e', up b s2) \<and> (t = 97 \<longrightarrow> q' = q \<and> e' = e)"
proof -
  define p where "p = skip_white b s"
  have p: "p \<le> length b" using n by (simp add: p_def near_def skip_white_bound)
  have p': "skip_white (b @ [10]) s' = up b p" using skip_white_near [OF n] by (simp add: p_def)
  have c: "chr_at (b @ [10]) (up b p) = chr_at b p" by (rule chr_at_up [OF p])
  show ?thesis
  proof (cases "p = length b")
    case True
    have "skip_white b (length b) = length b" "skip_white (b @ [10]) (Suc (length b)) = Suc (length b)"
      by (subst skip_white.simps, simp)+
    then show ?thesis using g p' c True
      by (auto simp: gettoken_def Let_def p_def [symmetric] chr_at_def up_def)
  next
    case False
    then have lt: "p < length b" "up b p = p" using p by (simp_all add: up_def)
    have e: "e \<le> length b" "s2 = skip_white b e"
      using g p lt chr_at_nonzero [of b "p + 1"] skip_word_bound [of p b]
      by (auto simp: gettoken_def Let_def p_def [symmetric] split: if_splits)
    have "chr_at (b @ [10]) (p + 1) = 62 \<longleftrightarrow> chr_at b (p + 1) = 62"
      using chr_at_nl [of b "p + 1"] by (auto simp: chr_at_def)
    then have "gettoken (b @ [10]) s' = (t, q, e, skip_white (b @ [10]) e)"
      using g p' c lt by (auto simp: gettoken_def Let_def p_def [symmetric] skip_word_nl p)
    then show ?thesis using skip_white_nl [OF e(1)] e(2) by simp
  qed
qed

fun shifted :: "byte list \<Rightarrow> (cmd \<times> nat) presult \<Rightarrow> (cmd \<times> nat) presult" where
  "shifted b (Good (c, s)) = Good (c, up b s)"
| "shifted b (Panic m) = Panic m"
| "shifted b NoFuel = NoFuel"

definition tracks :: "byte list \<Rightarrow> (cmd \<times> nat) presult \<Rightarrow> (cmd \<times> nat) presult \<Rightarrow> bool" where
  "tracks b r r' \<longleftrightarrow> r' = shifted b r \<and> (\<forall>c s. r = Good (c, s) \<longrightarrow> s \<le> length b)"

lemma tracks_simps [simp]:
  "tracks b (Good (c, s)) (Good (c', s')) \<longleftrightarrow> c' = c \<and> s' = up b s \<and> s \<le> length b" "tracks b (Panic m) (Panic m)" "tracks b NoFuel NoFuel"
  by (auto simp: tracks_def)

lemma tracks_pbind:
  assumes "tracks b r r'" "\<And>c s. s \<le> length b \<Longrightarrow> tracks b (f (c, s)) (f' (c, up b s))"
  shows "tracks b (pbind r f) (pbind r' f')"
  using assms by (cases r) (auto simp: tracks_def)

lemma parseredirs_nl: "near b s s' \<Longrightarrow> tracks b (parseredirs c b s) (parseredirs c (b @ [10]) s')"
proof (induction c b s arbitrary: s' rule: parseredirs.induct)
  case (1 c b s)
  obtain more s1 where p: "peek b [60, 62] s = (more, s1)" by fastforce
  have p': "peek (b @ [10]) [60, 62] s' = (more, up b s1)" using peek_nl [OF 1(2)] p by simp
  have s1: "s1 \<le> length b" using p 1(2) skip_white_bound [of s b] by (simp add: peek_simp near_def)
  obtain tok q1 e1 s2 where t1: "gettoken b s1 = (tok, q1, e1, s2)" by (metis prod_cases4)
  obtain t q e s3 where t2: "gettoken b s2 = (t, q, e, s3)" by (metis prod_cases4)
  have s2: "s2 \<le> length b" "s3 \<le> length b" using gettoken_bound [OF t1 s1] gettoken_bound [OF t2] by blast+
  obtain q1' e1' where t1': "gettoken (b @ [10]) (up b s1) = (tok, q1', e1', up b s2)"
    using gettoken_nl [OF near_up [OF s1] t1] by blast
  obtain q' e' where t2': "gettoken (b @ [10]) (up b s2) = (t, q', e', up b s3)" "t = 97 \<longrightarrow> q' = q \<and> e' = e"
    using gettoken_nl [OF near_up [OF s2(1)] t2] by blast
  show ?case
  proof (cases "more \<and> t = 97")
    case True
    let ?c = "if tok = 60 then redircmd c (q, e) O_RDONLY 0 else if tok = 62 then redircmd c (q, e) O_WRONLY_CREATE 1
      else if tok = 43 then redircmd c (q, e) O_WRONLY_CREATE 1 else c"
    have "tracks b (parseredirs ?c b s3) (parseredirs ?c (b @ [10]) (up b s3))"
      using 1(1) [OF p [symmetric] _ t1 [symmetric] _ _ t2 [symmetric]] near_up [OF s2(2)] True by simp
    then show ?thesis using True p p' t1 t1' t2 t2' by (subst (1 2) parseredirs.simps) simp
  next
    case False
    then show ?thesis using p p' t1 t1' t2 t2' s1 by (subst (1 2) parseredirs.simps) auto
  qed
qed

text \<open>One scanning step in both lines.\<close>

lemma scan:
  assumes "near b s s'" "peek b toks s = (m, s1)"
  shows "peek (b @ [10]) toks s' = (m, up b s1)" "s1 \<le> length b" "near b s1 (up b s1)"
  using peek_nl [OF assms(1), of toks] assms skip_white_bound [of s b] by (auto simp: peek_simp near_def)

lemma take_token:
  assumes "s \<le> length b" "gettoken b s = (t, q, e, s2)"
  obtains q' e' where "gettoken (b @ [10]) (up b s) = (t, q', e', up b s2)" "t = 97 \<longrightarrow> q' = q \<and> e' = e" "s2 \<le> length b" "near b s2 (up b s2)"
  using gettoken_nl [OF near_up [OF assms(1)] assms(2)] gettoken_bound [OF assms(2,1)] near_up by blast

lemma parseargs_nl: "near b s s' \<Longrightarrow> tracks b (parseargs r ws b s) (parseargs r ws (b @ [10]) s')"
proof (induction r ws b s arbitrary: s' rule: parseargs.induct)
  case (1 r ws b s)
  obtain stop s1 where p: "peek b [124, 41, 38, 59] s = (stop, s1)" by fastforce
  note p' = scan [OF 1(2) p]
  obtain tok q e s2 where t: "gettoken b s1 = (tok, q, e, s2)" by (metis prod_cases4)
  obtain q' e' where t': "gettoken (b @ [10]) (up b s1) = (tok, q', e', up b s2)" "tok = 97 \<longrightarrow> q' = q \<and> e' = e" "s2 \<le> length b"
    "near b s2 (up b s2)" using take_token [OF p'(2) t] by blast
  show ?case
  proof (cases "\<not> stop \<and> tok = 97 \<and> length (ws @ [(q, e)]) < MAXARGS")
    case True
    have rd: "tracks b (parseredirs r b s2) (parseredirs r (b @ [10]) (up b s2))" by (rule parseredirs_nl [OF t'(4)])
    show ?thesis
    proof (cases "parseredirs r b s2")
      case (Good x)
      obtain r2 s3 where x: "x = (r2, s3)" by (cases x)
      have "tracks b (parseargs r2 (ws @ [(q, e)]) b s3) (parseargs r2 (ws @ [(q, e)]) (b @ [10]) (up b s3))"
      proof (rule 1(1) [OF p [symmetric] _ t [symmetric] _ _ _ _ _ Good x [symmetric]])
        show "near b s3 (up b s3)" using rd Good x by (simp add: tracks_def near_up)
      qed (use True in simp_all)
      then show ?thesis using True p p'(1) t t' rd Good x by (subst (1 2) parseargs.simps) (simp add: tracks_def)
    qed (use True p p'(1) t t' rd in \<open>subst (1 2) parseargs.simps, simp add: tracks_def\<close>)+
  next
    case False
    then show ?thesis using p p' t t' by (subst (1 2) parseargs.simps) (auto simp: tracks_def)
  qed
qed

lemma parse_back_nl: "near b s s' \<Longrightarrow> parse_back c b s = (d, s2) \<Longrightarrow> parse_back c (b @ [10]) s' = (d, up b s2) \<and> s2 \<le> length b"
proof (induction c b s arbitrary: s' rule: parse_back.induct)
  case (1 c b s)
  obtain m s1 where p: "peek b [38] s = (m, s1)" by fastforce
  note p' = scan [OF 1(2) p]
  obtain tok q e s3 where t: "gettoken b s1 = (tok, q, e, s3)" by (metis prod_cases4)
  obtain q' e' where t': "gettoken (b @ [10]) (up b s1) = (tok, q', e', up b s3)" "near b s3 (up b s3)" using take_token [OF p'(2) t] by blast
  show ?case
  proof (cases m)
    case True
    then have "parse_back (backcmd c) b s3 = (d, s2)" using 1(3) p t by (subst (asm) parse_back.simps) simp
    then have "parse_back (backcmd c) (b @ [10]) (up b s3) = (d, up b s2) \<and> s2 \<le> length b"
      using 1(1) [OF p [symmetric] True t [symmetric] _ _ t'(2)] by simp
    then show ?thesis using True p'(1) t'(1) by (subst parse_back.simps) simp
  next
    case False
    then show ?thesis using 1(3) p p' by (subst (asm) parse_back.simps, subst parse_back.simps) simp
  qed
qed

lemma parser_nl:
  "s \<le> length b \<and> (s' = s \<or> s' = up b s) \<Longrightarrow> tracks b (parseline n b s) (parseline n (b @ [10]) s')"
  "s \<le> length b \<and> (s' = s \<or> s' = up b s) \<Longrightarrow> tracks b (parsepipe n b s) (parsepipe n (b @ [10]) s')"
  "s \<le> length b \<and> (s' = s \<or> s' = up b s) \<Longrightarrow> tracks b (parseblock n b s) (parseblock n (b @ [10]) s')"
  "s \<le> length b \<and> (s' = s \<or> s' = up b s) \<Longrightarrow> tracks b (parseexec n b s) (parseexec n (b @ [10]) s')"
  unfolding near_def [symmetric]
proof (induction n arbitrary: s s')
  case (Suc n)
  {
    case 1
    show ?case unfolding parseline.simps
    proof (rule tracks_pbind [OF Suc(2) [OF 1]], goal_cases)
      case (1 c s)
      obtain d s1 where b: "parse_back c b s = (d, s1)" by fastforce
      note b' = parse_back_nl [OF near_up [OF 1] b]
      obtain m s2 where p: "peek b [59] s1 = (m, s2)" by fastforce
      note p' = scan [OF near_up p, OF conjunct2 [OF b']]
      obtain tok q e s3 where t: "gettoken b s2 = (tok, q, e, s3)" by (metis prod_cases4)
      obtain q' e' where t': "gettoken (b @ [10]) (up b s2) = (tok, q', e', up b s3)" "near b s3 (up b s3)"
        using take_token [OF p'(2) t] by blast
      have "tracks b (pbind (parseline n b s3) (\<lambda>(r, s). Good (listcmd d r, s)))
          (pbind (parseline n (b @ [10]) (up b s3)) (\<lambda>(r, s). Good (listcmd d r, s)))"
        by (rule tracks_pbind [OF Suc(1) [OF t'(2)]]) simp
      then show ?case using b b' p p' t t' by simp
    qed
  next
    case 2
    show ?case unfolding parsepipe.simps
    proof (rule tracks_pbind [OF Suc(4) [OF 2]], goal_cases)
      case (1 c s)
      obtain m s2 where p: "peek b [124] s = (m, s2)" by fastforce
      note p' = scan [OF near_up [OF 1] p]
      obtain tok q e s3 where t: "gettoken b s2 = (tok, q, e, s3)" by (metis prod_cases4)
      obtain q' e' where t': "gettoken (b @ [10]) (up b s2) = (tok, q', e', up b s3)" "near b s3 (up b s3)"
        using take_token [OF p'(2) t] by blast
      have "tracks b (pbind (parsepipe n b s3) (\<lambda>(r, s). Good (pipecmd c r, s)))
          (pbind (parsepipe n (b @ [10]) (up b s3)) (\<lambda>(r, s). Good (pipecmd c r, s)))"
        by (rule tracks_pbind [OF Suc(2) [OF t'(2)]]) simp
      then show ?case using p p' t t' by simp
    qed
  next
    case 3
    obtain m s1 where p: "peek b [40] s = (m, s1)" by fastforce
    note p' = scan [OF 3 p]
    obtain tok q e s2 where t: "gettoken b s1 = (tok, q, e, s2)" by (metis prod_cases4)
    obtain q' e' where t': "gettoken (b @ [10]) (up b s1) = (tok, q', e', up b s2)" "near b s2 (up b s2)"
      using take_token [OF p'(2) t] by blast
    let ?f = "\<lambda>b (c, s). case peek b [41] s of (m, s) \<Rightarrow> if \<not> m then Panic ''syntax - missing )''
      else case gettoken b s of (_, _, _, s) \<Rightarrow> parseredirs c b s"
    have "tracks b (pbind (parseline n b s2) (?f b)) (pbind (parseline n (b @ [10]) (up b s2)) (?f (b @ [10])))"
    proof (rule tracks_pbind [OF Suc(1) [OF t'(2)]], goal_cases)
      case (1 c s)
      obtain m s3 where p2: "peek b [41] s = (m, s3)" by fastforce
      note p2' = scan [OF near_up [OF 1] p2]
      obtain tok q e s4 where t2: "gettoken b s3 = (tok, q, e, s4)" by (metis prod_cases4)
      obtain q' e' where t2': "gettoken (b @ [10]) (up b s3) = (tok, q', e', up b s4)" "near b s4 (up b s4)"
        using take_token [OF p2'(2) t2] by blast
      show ?case using p2 p2' t2 t2' parseredirs_nl by simp
    qed
    then show ?case using p p' t t' by simp
  next
    case 4
    obtain m s1 where p: "peek b [40] s = (m, s1)" by fastforce
    note p' = scan [OF 4 p]
    have "tracks b (pbind (parseredirs execcmd b s1) (\<lambda>(r, s). parseargs r [] b s))
        (pbind (parseredirs execcmd (b @ [10]) (up b s1)) (\<lambda>(r, s). parseargs r [] (b @ [10]) s))"
      by (rule tracks_pbind [OF parseredirs_nl [OF p'(3)]]) (simp add: parseargs_nl near_up)
    then show ?case using p p' Suc(3) by simp
  }
qed simp_all

lemma parsecmd_newline:
  assumes "scmd_ok c"
  shows "\<exists>d. parsecmd (show_cmd c @ [10]) = Good d \<and> spell (\<lambda>w. Sh.cstr (nulterminate d ((show_cmd c @ [10]) @ [0])) (fst w)) d = c"
proof -
  let ?b = "show_cmd c"
  let ?n = "4 * length (?b @ [10]) + 4"
  have v: "view ?b 0 (?b @ [])" by (simp add: view_def)
  have y: "yields ?b (parseline ?n ?b 0) c (length ?b)"
    using reads_backD [OF reads_back_all [OF assms] v] by (simp add: closed_by_def)
  have tr: "tracks ?b (parseline ?n ?b 0) (parseline ?n (?b @ [10]) 0)" by (rule parser_nl) simp
  have "parseline ?n (?b @ [10]) 0 \<noteq> NoFuel" by (rule parseline_returns)
  then obtain d where d: "parseline ?n (?b @ [10]) 0 = Good (d, length ?b + 1)" "spell (token_text ?b) d = c"
    using y tr by (auto simp: yields_def tracks_def up_def)
  have "skip_white (?b @ [10]) (length ?b + 1) = length ?b + 1" by (subst skip_white.simps) simp
  with d have g: "parsecmd (?b @ [10]) = Good d" by (auto simp: parsecmd_Good)
  have z: "0 \<notin> set (?b @ [10])" using show_cmd_no_nul [OF assms] by simp
  have "Sh.cstr (nulterminate d ((?b @ [10]) @ [0])) (fst w) = token_text ?b w" if w: "w \<in> set (words d)" for w
  proof -
    have r: "Sh.cstr (nulterminate d ((?b @ [10]) @ [0])) (fst w) = subrange (fst w) (snd w - fst w) (?b @ [10]) \<and> word_at (?b @ [10]) w"
      using parsecmd_words [OF g z, of "fst w" "snd w"] w by simp
    then have "snd w \<le> length ?b"
      by (auto simp: word_at_def chr_at_nl word_char_def is_white_def le_less_Suc_eq dest!: bspec [of _ _ "length ?b"])
    then show ?thesis using r by (simp add: token_text_def subrange_def word_at_def)
  qed
  then have "spell (\<lambda>w. Sh.cstr (nulterminate d ((?b @ [10]) @ [0])) (fst w)) d = spell (token_text ?b) d"
    by (intro spell_cong) simp
  with g d show ?thesis by auto
qed

section \<open>What is typed is run\<close>

text \<open>Each pipeline on a line of its own.\<close>

definition typed :: "byte list list list list \<Rightarrow> byte list" where
  "typed ps = concat (map (\<lambda>wss. show_cmd (pipeline (map SExec wss)) @ [10]) ps)"

text \<open>What its programs run with, line after line.\<close>

fun wired :: "byte list list list list \<Rightarrow> fds \<Rightarrow> nat \<Rightarrow> (byte list list \<times> fds) list" where
  "wired [] t k = []"
| "wired (wss # ps) t k = plumbed wss t k @ wired ps t (k + (length wss - 1))"

definition typable :: "byte list list list \<Rightarrow> bool" where
  "typable wss \<longleftrightarrow> wss \<noteq> [] \<and> (\<forall>ws \<in> set wss. ws \<noteq> [] \<and> length ws < MAXARGS \<and> list_all good_word ws)
     \<and> (length wss = 1 \<longrightarrow> hd (hd wss) \<noteq> [99, 100]) \<and> length (show_cmd (pipeline (map SExec wss))) < 99"

lemma gets_loop_line: "10 \<notin> set l \<Longrightarrow> 13 \<notin> set l \<Longrightarrow> length l < n \<Longrightarrow> gets_loop n (l @ 10 # rest) = (l @ [10], rest)"
proof (induction l arbitrary: n)
  case Nil
  then show ?case by (cases n) simp_all
next
  case (Cons c l)
  then show ?case by (cases n) auto
qed

lemma word_no_nl: "word_char c \<Longrightarrow> c \<noteq> 10 \<and> c \<noteq> 13 \<and> c \<noteq> 32"
  by (auto simp: word_char_def is_white_def)

lemma show_no_nl: "scmd_ok c \<Longrightarrow> 10 \<notin> set (show_cmd c) \<and> 13 \<notin> set (show_cmd c)"
  by (induction c) (auto simp: good_word_def list_all_iff dest: word_no_nl)

lemma pipeline_ok: "wss \<noteq> [] \<Longrightarrow> \<forall>ws \<in> set wss. length ws < MAXARGS \<and> list_all good_word ws \<Longrightarrow> scmd_ok (pipeline (map SExec wss))"
proof -
  have "list_all scmd_ok cs \<Longrightarrow> scmd_ok (pipeline cs)" for cs
    by (induction cs rule: pipeline.induct) (simp_all add: MAXARGS_def)
  then show "wss \<noteq> [] \<Longrightarrow> \<forall>ws \<in> set wss. length ws < MAXARGS \<and> list_all good_word ws \<Longrightarrow> ?thesis"
    by (simp add: list_all_iff)
qed

lemma getcmd_line:
  assumes "scmd_ok c" "length (show_cmd c) < 99"
  shows "getcmd (show_cmd c @ 10 # rest) = Some (show_cmd c @ [10], rest)"
proof -
  have "gets_loop 99 (show_cmd c @ 10 # rest) = (show_cmd c @ [10], rest)"
    using show_no_nl [OF assms(1)] assms(2) by (intro gets_loop_line) auto
  moreover have "takeWhile (\<lambda>b. b \<noteq> 0) (show_cmd c @ [10]) = show_cmd c @ [10]"
    using show_cmd_no_nul [OF assms(1)] by (subst takeWhile_eq_all_conv) auto
  moreover have "hd (show_cmd c @ [10]) \<noteq> 0" using show_cmd_no_nul [OF assms(1)] by (cases "show_cmd c") auto
  ultimately show ?thesis by (simp add: getcmd_def)
qed

lemma sh_lines_typed: "\<forall>wss \<in> set ps. typable wss \<Longrightarrow> sh_lines (typed ps) = map (\<lambda>wss. show_cmd (pipeline (map SExec wss)) @ [10]) ps"
proof (induction ps)
  case Nil
  have "gets_loop n [] = ([], [])" for n by (cases n) simp_all
  then show ?case by (subst sh_lines.simps) (simp add: typed_def getcmd_def)
next
  case (Cons wss ps)
  have "getcmd (show_cmd (pipeline (map SExec wss)) @ 10 # typed ps) = Some (show_cmd (pipeline (map SExec wss)) @ [10], typed ps)"
    using Cons.prems by (intro getcmd_line pipeline_ok) (auto simp: typable_def)
  then show ?case using Cons by (subst sh_lines.simps) (simp add: typed_def)
qed

lemma typed_no_cd:
  assumes "typable wss"
  shows "take 3 (show_cmd (pipeline (map SExec wss)) @ [10]) \<noteq> [99, 100, 32]"
proof (cases wss rule: remdups_adj.cases)
  case (2 ws)
  obtain w us where ws: "ws = w # us" using assms 2 by (cases ws) (auto simp: typable_def)
  have w: "w \<noteq> []" "list_all word_char w" "w \<noteq> [99, 100]" using assms by (auto simp: typable_def 2 ws good_word_def)
  obtain a v where a: "w = a # v" using w(1) by (cases w) auto
  show ?thesis
  proof (cases v)
    case Nil
    then show ?thesis using 2 ws a by simp
  next
    case (Cons b u)
    then show ?thesis using 2 ws a w word_no_nl by (cases u) auto
  qed
qed (use assms in \<open>auto simp: typable_def\<close>)

lemma sh_line_typed:
  assumes "typable wss" "std_fds t"
  shows "execs (sh_line (show_cmd (pipeline (map SExec wss)) @ [10])) t k = (plumbed wss t k, k + (length wss - 1))"
proof -
  let ?c = "pipeline (map SExec wss)"
  have ok: "scmd_ok ?c" using assms(1) by (intro pipeline_ok) (auto simp: typable_def)
  from parsecmd_newline [OF this] obtain d where "parsecmd (show_cmd ?c @ [10]) = Good d"
    "spell (\<lambda>w. Sh.cstr (nulterminate d ((show_cmd ?c @ [10]) @ [0])) (fst w)) d = ?c" by blast
  then have "execs (sh_line (show_cmd ?c @ [10])) t k = execs (runcmd ?c) t k"
    using typed_no_cd [OF assms(1)] by (simp add: sh_line_def fork1_def split: prod.splits)
  also have "\<dots> = (plumbed wss t k, k + (length wss - 1))"
    using assms by (intro runcmd_pipeline) (auto simp: typable_def)
  finally show ?thesis .
qed

lemma sh_run_typed:
  "\<forall>wss \<in> set ps. typable wss \<Longrightarrow> std_fds t \<Longrightarrow>
    fst (sh_run (map (\<lambda>wss. show_cmd (pipeline (map SExec wss)) @ [10]) ps) t k) = wired ps t k"
  by (induction ps arbitrary: k) (auto simp: sh_line_typed split: prod.splits, metis fst_conv)

text \<open>The console is opened until three descriptors are in use.\<close>

lemma lowest_least: "lowest t = Some d \<Longrightarrow> 0 \<le> e \<Longrightarrow> e < d \<Longrightarrow> t e \<noteq> None"
proof -
  assume l: "lowest t = Some d" and e: "0 \<le> e" "e < d"
  have nth: "map int [0..<16] ! j = int j" if "j < 16" for j using that by simp
  from l [unfolded lowest_def find_Some_iff] obtain i where i: "i < length (map int [0..<16])" "d = map int [0..<16] ! i"
    "\<forall>j < i. t (map int [0..<16] ! j) \<noteq> None" by (elim exE conjE) (rule that)
  then have "i < 16" "d = int i" using nth by simp_all
  then have "nat e < i" "nat e < 16" "int (nat e) = e" using e by simp_all
  then show ?thesis using i(3) nth by metis
qed

lemma open_console_std:
  "\<forall>d. t d \<noteq> None \<longrightarrow> d \<in> {0, 1, 2} \<Longrightarrow> std_fds (open_console t) \<and>
    open_console t = (\<lambda>d. if d \<in> {0, 1, 2} \<and> t d = None then Some (FileAt CONSOLE O_RDWR) else t d)"
proof (induction t rule: open_console.induct)
  case (1 t)
  have "t 3 = None" using spec [OF 1(2), of 3] by auto
  then have "lowest t \<noteq> None" unfolding lowest_def find_None_iff by (auto intro!: bexI [of _ "3::nat"])
  then obtain d where d: "lowest t = Some d" by blast
  show ?case
  proof (cases "3 \<le> d")
    case True
    then have "t 0 \<noteq> None" "t 1 \<noteq> None" "t 2 \<noteq> None" using lowest_least [OF d] by auto
    moreover have "open_console t = t" using d True by (subst open_console.simps) simp
    ultimately show ?thesis using 1(2) by (auto simp: std_fds_def fun_eq_iff)
  next
    case False
    have "t d = None" "d \<in> {0, 1, 2}" using lowest_free [OF d] False by auto
    let ?t = "t(d := Some (FileAt CONSOLE O_RDWR))"
    have r: "open_console t = open_console ?t" using d False by (subst open_console.simps) simp
    have "\<forall>e. ?t e \<noteq> None \<longrightarrow> e \<in> {0, 1, 2}" using 1(2) \<open>d \<in> {0, 1, 2}\<close> by simp
    note ih = 1(1) [OF d False this]
    show ?thesis
    proof
      show "std_fds (open_console t)" unfolding r by (rule conjunct1 [OF ih])
      show "open_console t = (\<lambda>d. if d \<in> {0, 1, 2} \<and> t d = None then Some (FileAt CONSOLE O_RDWR) else t d)"
        unfolding r conjunct2 [OF ih] using \<open>t d = None\<close> \<open>d \<in> {0, 1, 2}\<close> by (auto simp: fun_eq_iff)
    qed
  qed
qed

section \<open>Property\<close>


text \<open>\<open>cat a | wc\<close> and \<open>ls\<close>, with descriptor 2 closed.\<close>

definition demo_typed :: "byte list list list list" where
  "demo_typed = [[[[99, 97, 116], [97]], [[119, 99]]], [[[108, 115]]]]"


end
