(* ===== verification/Uprogs.thy ===== *)
theory Uprogs
  imports Ulib Grep
begin

text \<open>
  The small user programs.  \<open>read\<close> delivers the input in pieces, so a program that reads a
  descriptor to its end takes the list of the pieces, a failing read being a last \<open>None\<close>; what is
  written is the list of the bytes.  \<open>grep\<close> and the shell have theories of their own.
\<close>

section \<open>wc.c\<close>

record wc_state =
  wc_l :: nat
  wc_w :: nat
  wc_c :: nat
  inword :: bool

definition wc_byte :: "byte \<Rightarrow> wc_state \<Rightarrow> wc_state" where
  "wc_byte b s =
     (let s = s\<lparr>wc_c := wc_c s + 1\<rparr>;
          s = (if b = 10 then s\<lparr>wc_l := wc_l s + 1\<rparr> else s) in
      if strchr ([32, 13, 9, 10, 11] @ [0]) b 0 \<noteq> Some None then s\<lparr>inword := False\<rparr>
      else if \<not> inword s then s\<lparr>wc_w := wc_w s + 1, inword := True\<rparr>
      else s)"

text \<open>The pieces are those the reads return; an empty one is the end, \<open>None\<close> an error.\<close>

fun wc_reads :: "byte list option list \<Rightarrow> wc_state \<Rightarrow> wc_state option" where
  "wc_reads [] s = Some s"
| "wc_reads (None # ps) s = None"
| "wc_reads (Some [] # ps) s = Some s"
| "wc_reads (Some (b # bs) # ps) s = wc_reads ps (fold wc_byte (b # bs) s)"

definition wc :: "byte list option list \<Rightarrow> byte list \<Rightarrow> byte list option" where
  "wc ps name =
     (case wc_reads ps \<lparr>wc_l = 0, wc_w = 0, wc_c = 0, inword = False\<rparr> of
        None \<Rightarrow> None
      | Some s \<Rightarrow>
          Some (concat (map (\<lambda>n. uprintint (word_of_nat n) 10 True @ [32]) [wc_l s, wc_w s, wc_c s])
            @ name @ [10]))"

section \<open>echo.c\<close>

fun echo :: "byte list list \<Rightarrow> byte list" where
  "echo [] = []"
| "echo [w] = w @ [10]"
| "echo (w # ws) = w @ [32] @ echo ws"

section \<open>ls.c\<close>

definition DIRSIZ :: nat where "DIRSIZ = 14"

text \<open>The path from behind its last slash on, padded with blanks to \<open>DIRSIZ\<close>.\<close>

definition base_name :: "byte list \<Rightarrow> byte list" where
  "base_name path = rev (takeWhile (\<lambda>c. c \<noteq> 47) (rev path))"

definition fmtname :: "byte list \<Rightarrow> byte list" where
  "fmtname path =
     (let p = base_name path in
      if length p \<ge> DIRSIZ then p else p @ replicate (DIRSIZ - length p) 32)"

record ls_stat =
  ls_type :: int
  ls_ino :: nat
  ls_size :: nat

definition ls_line :: "byte list \<Rightarrow> ls_stat \<Rightarrow> byte list" where
  "ls_line path st =
     fmtname path @ [32] @ uprintint (word_of_int (ls_type st)) 10 True @ [32]
       @ uprintint (word_of_nat (ls_ino st)) 10 True @ [32] @ uprintint (word_of_nat (ls_size st)) 10 True @ [10]"

text \<open>The entries of a directory are the number and name fields of its \<open>dirent\<close>s; \<open>stat_of\<close> is
  \<open>stat\<close>, and the messages go to descriptor 1 as the lines do.\<close>

definition ls_cannot_stat :: "byte list \<Rightarrow> byte list" where
  "ls_cannot_stat path = map (\<lambda>c. of_char c) ''ls: cannot stat '' @ path @ [10]"

fun ls_entries :: "(byte list \<Rightarrow> ls_stat option) \<Rightarrow> byte list \<Rightarrow> (nat \<times> byte list) list \<Rightarrow> byte list" where
  "ls_entries stat_of path [] = []"
| "ls_entries stat_of path ((inum, name) # ds) =
     (if inum = 0 then ls_entries stat_of path ds
      else let p = path @ [47] @ takeWhile (\<lambda>c. c \<noteq> 0) (take DIRSIZ name) in
        (case stat_of p of
           None \<Rightarrow> ls_cannot_stat p
         | Some st \<Rightarrow> ls_line p st) @ ls_entries stat_of path ds)"

text \<open>What \<open>ls\<close> prints on descriptor 1, once the path has been opened and its status read.\<close>

definition ls :: "(byte list \<Rightarrow> ls_stat option) \<Rightarrow> byte list \<Rightarrow> ls_stat \<Rightarrow> (nat \<times> byte list) list \<Rightarrow> byte list" where
  "ls stat_of path st ds =
     (if ls_type st = 2 then ls_line path st
      else if ls_type st = 1 then
        (if length path + 1 + DIRSIZ + 1 > 512 then map (\<lambda>c. of_char c) ''ls: path too long\<newline>''
         else ls_entries stat_of path ds)
      else [])"

section \<open>rm.c, mkdir.c, ln.c, kill.c\<close>

text \<open>Programs that make one system call for each argument.  The calls are parameters over a state of
  the kernel; the last component is the argument a message is printed for, where the loop stops.\<close>

fun rm :: "(byte list \<Rightarrow> 's \<Rightarrow> int \<times> 's) \<Rightarrow> byte list list \<Rightarrow> 's \<Rightarrow> 's \<times> byte list option" where
  "rm unlink [] s = (s, None)"
| "rm unlink (f # fs) s = (case unlink f s of (r, s') \<Rightarrow> if r < 0 then (s', Some f) else rm unlink fs s')"

fun mkdirs :: "(byte list \<Rightarrow> 's \<Rightarrow> int \<times> 's) \<Rightarrow> byte list list \<Rightarrow> 's \<Rightarrow> 's \<times> byte list option" where
  "mkdirs mkdir [] s = (s, None)"
| "mkdirs mkdir (f # fs) s = (case mkdir f s of (r, s') \<Rightarrow> if r < 0 then (s', Some f) else mkdirs mkdir fs s')"

text \<open>\<open>ln\<close> takes exactly two arguments; \<open>None\<close> is the usage message.\<close>

fun ln :: "(byte list \<Rightarrow> byte list \<Rightarrow> 's \<Rightarrow> int \<times> 's) \<Rightarrow> byte list list \<Rightarrow> 's \<Rightarrow> ('s \<times> bool) option" where
  "ln link [old, new] s = (case link old new s of (r, s') \<Rightarrow> Some (s', r < 0))"
| "ln link args s = None"

fun kills :: "(int \<Rightarrow> 's \<Rightarrow> 's) \<Rightarrow> byte list list \<Rightarrow> 's \<Rightarrow> 's option" where
  "kills kill [] s = Some s"
| "kills kill (a # bs) s = (case atoi a of None \<Rightarrow> None | Some pid \<Rightarrow> kills kill bs (kill pid s))"

section \<open>What \<open>wc\<close> counts\<close>

definition wc_white :: "byte \<Rightarrow> bool" where
  "wc_white b \<longleftrightarrow> b \<in> set [32, 13, 9, 10, 11]"

text \<open>A word begins at a byte that is not white space, at the beginning or behind white space.\<close>

definition word_begins :: "byte list \<Rightarrow> nat set" where
  "word_begins bs = {i. i < length bs \<and> \<not> wc_white (bs ! i) \<and> (i = 0 \<or> wc_white (bs ! (i - 1)))}"

lemma wc_strchr: "(strchr ([32, 13, 9, 10, 11] @ [0]) b 0 \<noteq> Some None) = wc_white b"
  by (simp add: wc_white_def)

lemma word_begins_snoc:
  "word_begins (bs @ [b]) =
     (if \<not> wc_white b \<and> (bs = [] \<or> wc_white (last bs)) then insert (length bs) (word_begins bs) else word_begins bs)"
proof (cases "bs = []")
  case False
  then have "wc_white (last bs) = wc_white (bs ! (length bs - 1))" by (simp add: last_conv_nth)
  with False show ?thesis by (auto simp: word_begins_def nth_append less_Suc_eq)
qed (auto simp: word_begins_def)

lemma word_begins_finite: "finite (word_begins bs)" "length bs \<notin> word_begins bs"
  by (auto simp: word_begins_def)

lemma wc_byte_eq:
  "wc_byte b s = \<lparr>wc_l = (if b = 10 then wc_l s + 1 else wc_l s),
     wc_w = (if \<not> wc_white b \<and> \<not> inword s then wc_w s + 1 else wc_w s),
     wc_c = wc_c s + 1, inword = (\<not> wc_white b)\<rparr>"
  unfolding wc_byte_def wc_strchr Let_def by (cases s) auto

lemma wc_fold:
  "fold wc_byte bs \<lparr>wc_l = 0, wc_w = 0, wc_c = 0, inword = False\<rparr> =
     \<lparr>wc_l = count_list bs 10, wc_w = card (word_begins bs), wc_c = length bs,
      inword = (bs \<noteq> [] \<and> \<not> wc_white (last bs))\<rparr>"
proof (induction bs rule: rev_induct)
  case Nil
  then show ?case by (simp add: word_begins_def)
next
  case (snoc b bs)
  show ?case
    using word_begins_finite [of bs]
    by (simp add: snoc wc_byte_eq [of b] word_begins_snoc)
qed

lemma wc_reads_fold: "[] \<notin> set ps \<Longrightarrow> wc_reads (map Some ps) s = Some (fold wc_byte (concat ps) s)"
proof (induction ps arbitrary: s)
  case (Cons p ps)
  then show ?case by (cases p) simp_all
qed simp

text \<open>\<open>wc\<close> prints the number of newlines, of places where a word begins, and of bytes of its
  whole input, into whatever pieces the reads cut it.\<close>

theorem wc_counts:
  assumes "[] \<notin> set ps" "bs = concat ps"
  shows "wc (map Some ps) name =
    Some (uprintint (word_of_nat (count_list bs 10)) 10 True @ [32]
      @ uprintint (word_of_nat (card (word_begins bs))) 10 True @ [32]
      @ uprintint (word_of_nat (length bs)) 10 True @ [32] @ name @ [10])"
  using wc_reads_fold [OF assms(1)] by (simp add: wc_def wc_fold assms(2))

theorem wc_counts_witness:
  "wc (map Some [[97, 98], [99, 32], [100, 10]]) [] = Some [49, 32, 50, 32, 54, 32, 10]"
proof -
  have "word_begins (concat [[97, 98], [99, 32], [100, 10]]) = {0, 4}"
    by (auto simp: word_begins_def wc_white_def less_Suc_eq nth_Cons')
  then show ?thesis
    using wc_counts [of "[[97, 98], [99, 32], [100, 10]]" _ "[]", OF _ refl]
    by (simp add: uprintint_def digits_low.simps digits_def)
qed

end
