(* ===== verification/Umain.thy ===== *)
theory Umain
  imports Uprogs
begin

text \<open>
  The user programs around what \<open>Uprogs\<close> models: the files named on the command line, and \<open>init\<close>.  A file
  system is a parameter \<open>opn\<close>: for a name it gives what the reads of that file deliver, or \<open>None\<close> if it cannot be
  opened; \<open>inp\<close> is what the reads of descriptor 0 deliver.  The result is what is written to descriptor 1.
\<close>

section \<open>cat.c, wc.c\<close>

definition say :: "string \<Rightarrow> byte list" where
  "say = map of_char"

fun cat_out :: "byte list option list \<Rightarrow> byte list \<times> bool" where
  "cat_out [] = ([], True)"
| "cat_out (None # ps) = (say ''cat: read error\<newline>'', False)"
| "cat_out (Some [] # ps) = ([], True)"
| "cat_out (Some (b # bs) # ps) = (case cat_out ps of (out, ok) \<Rightarrow> ((b # bs) @ out, ok))"

text \<open>The loop of \<open>main\<close>.  A read error ends the program inside \<open>cat\<close>.\<close>

fun cat_files :: "(byte list \<Rightarrow> byte list option list option) \<Rightarrow> byte list list \<Rightarrow> byte list" where
  "cat_files opn [] = []"
| "cat_files opn (f # fs) = (case opn f of
     None \<Rightarrow> say ''cat: cannot open '' @ f @ [10]
   | Some ps \<Rightarrow> (case cat_out ps of (out, ok) \<Rightarrow> if ok then out @ cat_files opn fs else out))"

definition cat_main :: "(byte list \<Rightarrow> byte list option list option) \<Rightarrow> byte list option list \<Rightarrow> byte list list \<Rightarrow> byte list" where
  "cat_main opn inp args = (if args = [] then fst (cat_out inp) else cat_files opn args)"

fun wc_files :: "(byte list \<Rightarrow> byte list option list option) \<Rightarrow> byte list list \<Rightarrow> byte list" where
  "wc_files opn [] = []"
| "wc_files opn (f # fs) = (case opn f of
     None \<Rightarrow> say ''wc: cannot open '' @ f @ [10]
   | Some ps \<Rightarrow> (case wc ps f of None \<Rightarrow> say ''wc: read error\<newline>'' | Some out \<Rightarrow> out @ wc_files opn fs))"

definition wc_main :: "(byte list \<Rightarrow> byte list option list option) \<Rightarrow> byte list option list \<Rightarrow> byte list list \<Rightarrow> byte list" where
  "wc_main opn inp args =
     (if args = [] then (case wc inp [] of None \<Rightarrow> say ''wc: read error\<newline>'' | Some out \<Rightarrow> out) else wc_files opn args)"

section \<open>ls.c\<close>

text \<open>\<open>look\<close> gives the status of what a path opens and the entries read from it; \<open>None\<close> is a path that
  cannot be opened or has no status, which is reported on descriptor 2.\<close>

definition ls_path :: "(byte list \<Rightarrow> (ls_stat \<times> (nat \<times> byte list) list) option) \<Rightarrow> (byte list \<Rightarrow> ls_stat option) \<Rightarrow> byte list \<Rightarrow> byte list" where
  "ls_path look stat_of path = (case look path of None \<Rightarrow> [] | Some (st, ds) \<Rightarrow> ls stat_of path st ds)"

definition ls_main :: "(byte list \<Rightarrow> (ls_stat \<times> (nat \<times> byte list) list) option) \<Rightarrow> (byte list \<Rightarrow> ls_stat option) \<Rightarrow> byte list list \<Rightarrow> byte list" where
  "ls_main look stat_of args =
     (if args = [] then ls_path look stat_of [46] else concat (map (ls_path look stat_of) args))"

section \<open>stat of ulib.c\<close>

text \<open>The system calls are parameters over a state of the kernel.\<close>

definition ustat :: "(byte list \<Rightarrow> 's \<Rightarrow> int \<times> 's) \<Rightarrow> (int \<Rightarrow> 's \<Rightarrow> (int \<times> 'st option) \<times> 's) \<Rightarrow> (int \<Rightarrow> 's \<Rightarrow> 's) \<Rightarrow>
    byte list \<Rightarrow> 's \<Rightarrow> (int \<times> 'st option) \<times> 's" where
  "ustat opn fstat close n s =
     (case opn n s of (fd, s1) \<Rightarrow>
      if fd < 0 then ((- 1, None), s1)
      else (case fstat fd s1 of (r, s2) \<Rightarrow> (r, close fd s2)))"

section \<open>init.c\<close>

text \<open>What \<open>init\<close> does is a walk through the places of its code, with the system calls it makes and their
  results as the labels; \<open>printf\<close> is the label \<open>Say\<close>.  \<open>Forked p\<close> is the code after \<open>fork\<close> has returned \<open>p\<close>, and
  for a positive \<open>p\<close> the test of the inner loop; \<open>Waiting p\<close> is its body.\<close>

datatype init_place = Opening | Making | Reopening | Dup1 | Dup2 | Starting | Forking | Forked int | Waiting int
  | NoFork | NoExec | Leaving | Exited

datatype init_call = OpenConsole int | MknodConsole | Dup0 | ForkSh int | ExecSh | WaitChild int | Say string | ExitInit

inductive init_step :: "init_place \<Rightarrow> init_call \<Rightarrow> init_place \<Rightarrow> bool" where
  "r < 0 \<Longrightarrow> init_step Opening (OpenConsole r) Making"
| "0 \<le> r \<Longrightarrow> init_step Opening (OpenConsole r) Dup1"
| "init_step Making MknodConsole Reopening"
| "init_step Reopening (OpenConsole r) Dup1"
| "init_step Dup1 Dup0 Dup2"
| "init_step Dup2 Dup0 Starting"
| "init_step Starting (Say ''init: starting sh\<newline>'') Forking"
| "p < 0 \<Longrightarrow> init_step Forking (ForkSh p) NoFork"
| "0 \<le> p \<Longrightarrow> init_step Forking (ForkSh p) (Forked p)"
| "init_step NoFork (Say ''init: fork failed\<newline>'') Leaving"
| "init_step (Forked 0) ExecSh NoExec"
| "init_step NoExec (Say ''init: exec sh failed\<newline>'') Leaving"
| "init_step Leaving ExitInit Exited"
| "0 < p \<Longrightarrow> w < 0 \<or> w = p \<Longrightarrow> init_step (Forked p) (WaitChild w) Starting"
| "0 < p \<Longrightarrow> 0 \<le> w \<Longrightarrow> w \<noteq> p \<Longrightarrow> init_step (Forked p) (WaitChild w) (Waiting p)"
| "init_step (Waiting p) (Say ''zombie!\<newline>'') (Forked p)"

inductive_cases from_forked: "init_step (Forked p) c q"
inductive_cases from_waiting: "init_step (Waiting p) c q"
inductive_cases to_forking: "init_step q (ForkSh p) q'"
inductive_cases from_place: "init_step q c q'"

inductive init_run :: "init_place \<Rightarrow> init_call list \<Rightarrow> init_place \<Rightarrow> bool" where
  init_stop: "init_run q [] q"
| init_more: "init_step q c q' \<Longrightarrow> init_run q' cs q'' \<Longrightarrow> init_run q (c # cs) q''"

inductive_cases run_nil: "init_run q [] q'"
inductive_cases run_cons: "init_run q (c # cs) q'"

section \<open>Facts\<close>

text \<open>What \<open>cat\<close> prints of readable files is their contents in the order of the command line.\<close>

lemma cat_out_reads: "\<forall>b \<in> set bs. b \<noteq> [] \<Longrightarrow> cat_out (map Some bs @ Some [] # ps) = (concat bs, True)"
  by (induction bs) (auto simp: neq_Nil_conv)

lemma cat_files_concat:
  "\<forall>f \<in> set fs. \<exists>bs ps. opn f = Some (map Some bs @ Some [] # ps) \<and> (\<forall>b \<in> set bs. b \<noteq> []) \<and> concat bs = body f \<Longrightarrow>
    cat_files opn fs = concat (map body fs)"
  by (induction fs) (auto simp: cat_out_reads)

text \<open>While its shell runs, \<open>init\<close> starts no other: from \<open>Forked p\<close> it stays in the inner loop until \<open>wait\<close>
  gives \<open>p\<close> or fails.\<close>

lemma init_waits: "init_run q cs q' \<Longrightarrow> q = Forked p \<or> q = Waiting p \<Longrightarrow> 0 < p \<Longrightarrow>
    \<forall>w. WaitChild w \<in> set cs \<longrightarrow> 0 \<le> w \<and> w \<noteq> p \<Longrightarrow> (q' = Forked p \<or> q' = Waiting p) \<and> (\<forall>r. ForkSh r \<notin> set cs)"
proof (induction rule: init_run.induct)
  case (init_more q c q' cs q'')
  have "(q' = Forked p \<or> q' = Waiting p) \<and> (\<forall>r. c \<noteq> ForkSh r)"
    using init_more.hyps(1) init_more.prems by (auto elim!: from_forked from_waiting)
  then show ?case using init_more by auto
qed simp

lemma init_run_app: "init_run q (xs @ ys) q' \<Longrightarrow> \<exists>r. init_run q xs r \<and> init_run r ys q'"
proof (induction xs arbitrary: q)
  case (Cons c cs)
  then obtain a where "init_step q c a" "init_run a (cs @ ys) q'" by (auto elim: run_cons)
  then show ?case using Cons.IH [of a] init_more by blast
qed (auto intro: init_stop)

lemma init_one_shell:
  assumes r: "init_run Opening (xs @ ForkSh p # ys @ ForkSh p' # zs) q" and p: "0 < p"
  shows "\<exists>w. WaitChild w \<in> set ys \<and> (w < 0 \<or> w = p)"
proof (rule ccontr)
  assume n: "\<not> ?thesis"
  obtain a b where "init_step a (ForkSh p) b" "init_run b (ys @ ForkSh p' # zs) q"
    using init_run_app [OF r] by (auto elim: run_cons)
  then have "init_run (Forked p) (ys @ ForkSh p' # zs) q" using p by (auto elim!: to_forking)
  then obtain c where c: "init_run (Forked p) ys c" "init_run c (ForkSh p' # zs) q" using init_run_app by blast
  have "c = Forked p \<or> c = Waiting p" using init_waits [OF c(1) _ p] n by (meson linorder_not_less)
  then show False using c(2) by (auto elim!: run_cons to_forking)
qed

text \<open>\<open>init\<close> itself goes on for ever unless a \<open>fork\<close> fails: only the child (\<open>fork\<close> gave it 0) and a
  failed \<open>fork\<close> reach the code that exits.\<close>

lemma init_exits: "init_run q cs q' \<Longrightarrow> q' = Exited \<Longrightarrow> q \<notin> {NoFork, NoExec, Leaving, Exited, Forked 0, Waiting 0} \<Longrightarrow> \<exists>p \<le> 0. ForkSh p \<in> set cs"
proof (induction rule: init_run.induct)
  case (init_more q c q' cs q'')
  show ?case
  proof (cases "\<exists>p \<le> 0. c = ForkSh p")
    case False
    then have "q' \<notin> {NoFork, NoExec, Leaving, Exited, Forked 0, Waiting 0}"
      using init_more.hyps(1) init_more.prems(2) by (cases rule: from_place) force+
    then show ?thesis using init_more.IH init_more.prems(1) by auto
  qed auto
qed simp

end
