(* ===== verification/Ide.thy ===== *)
theory Ide
  imports Bio
begin

text \<open>
  The IDE disk driver, \<open>ide.c\<close>, the disk of the default build (\<open>memide.c\<close>, in \<open>Bio\<close>, takes its place
  in the in-memory build).  The queue is the linked list of the source: \<open>idequeue\<close> is its head and
  \<open>qnext\<close> the link of a buffer.  Port output is recorded in \<open>ide_out\<close>; \<open>ide_status\<close> are the values
  the status port will read, \<open>ide_in\<close> the blocks the data port will.  A driver waiting for a disk that
  never gets ready is \<open>Undef\<close>.
\<close>

unbundle bit_operations_syntax

datatype ide_op = Outb nat nat | Outsl block

record ide_state = bio_state +
  idequeue :: "nat option"
  qnext :: "nat \<Rightarrow> nat option"
  havedisk1 :: bool
  ide_out :: "ide_op list"
  ide_status :: "byte list"
  ide_in :: "block list"

definition IDE_BSY :: byte where "IDE_BSY = 0x80"
definition IDE_DRDY :: byte where "IDE_DRDY = 0x40"
definition IDE_DF :: byte where "IDE_DF = 0x20"
definition IDE_ERR :: byte where "IDE_ERR = 0x01"
definition IDE_CMD_READ :: nat where "IDE_CMD_READ = 0x20"
definition IDE_CMD_WRITE :: nat where "IDE_CMD_WRITE = 0x30"

definition ide_outb :: "nat \<Rightarrow> nat \<Rightarrow> ('z ide_state_scheme, unit) kmon" where
  "ide_outb port v = kmod (\<lambda>s. s\<lparr>ide_out := ide_out s @ [Outb port v]\<rparr>)"

fun wait_ready :: "byte list \<Rightarrow> (byte \<times> byte list) option" where
  "wait_ready [] = None"
| "wait_ready (r # rs) = (if r AND (IDE_BSY OR IDE_DRDY) \<noteq> IDE_DRDY then wait_ready rs else Some (r, rs))"

definition idewait :: "bool \<Rightarrow> ('z ide_state_scheme, int) kmon" where
  "idewait checkerr = kbind (kget (\<lambda>s. wait_ready (ide_status s))) (\<lambda>w. case w of
     None \<Rightarrow> kundef ''idewait''
   | Some (r, rs) \<Rightarrow> kbind (kmod (\<lambda>s. s\<lparr>ide_status := rs\<rparr>)) (\<lambda>_.
       ret (if checkerr \<and> r AND (IDE_DF OR IDE_ERR) \<noteq> 0 then - 1 else 0)))"

text \<open>\<open>probe\<close> are the values the status port reads with disk 1 selected; the interrupt controllers are
  in \<open>Devices\<close>.\<close>

definition ideinit :: "byte list \<Rightarrow> ('z ide_state_scheme, unit) kmon" where
  "ideinit probe =
     kbind (idewait False) (\<lambda>_.
     kbind (ide_outb 0x1f6 (0xe0 + 16)) (\<lambda>_.
     kbind (kwhen (\<exists>r \<in> set (take 1000 probe). r \<noteq> 0) (kmod (\<lambda>s. s\<lparr>havedisk1 := True\<rparr>))) (\<lambda>_.
     ide_outb 0x1f6 0xe0)))"

definition idestart :: "nat option \<Rightarrow> ('z ide_state_scheme, unit) kmon" where
  "idestart bo = (case bo of None \<Rightarrow> kpanic ''idestart'' | Some i \<Rightarrow>
     kbind (kget (\<lambda>s. getbuf s i)) (\<lambda>b.
     kbind (idewait False) (\<lambda>_.
     kbind (ide_outb 0x3f6 0) (\<lambda>_.
     kbind (ide_outb 0x1f2 1) (\<lambda>_.
     kbind (ide_outb 0x1f3 (b_sector b mod 256)) (\<lambda>_.
     kbind (ide_outb 0x1f4 (b_sector b div 2 ^ 8 mod 256)) (\<lambda>_.
     kbind (ide_outb 0x1f5 (b_sector b div 2 ^ 16 mod 256)) (\<lambda>_.
     kbind (ide_outb 0x1f6 (0xe0 + b_dev b mod 2 * 16 + b_sector b div 2 ^ 24 mod 16)) (\<lambda>_.
     if b_dirty b then
       kbind (ide_outb 0x1f7 IDE_CMD_WRITE) (\<lambda>_.
       kmod (\<lambda>s. s\<lparr>ide_out := ide_out s @ [Outsl (b_data b)]\<rparr>))
     else ide_outb 0x1f7 IDE_CMD_READ)))))))))"

definition ide_insl :: "nat \<Rightarrow> ('z ide_state_scheme, unit) kmon" where
  "ide_insl i = kbind (kget ide_in) (\<lambda>ds. case ds of
     [] \<Rightarrow> kundef ''insl''
   | d # ds \<Rightarrow> kmod (\<lambda>s. upd_buf i (\<lambda>b. b\<lparr>b_data := d\<rparr>) (s\<lparr>ide_in := ds\<rparr>)))"

definition ideintr :: "('z ide_state_scheme, unit) kmon" where
  "ideintr =
     kbind (acquire IdeLock) (\<lambda>_.
     kbind (kget idequeue) (\<lambda>q. case q of
       None \<Rightarrow> release IdeLock
     | Some i \<Rightarrow>
         kbind (kmod (\<lambda>s. s\<lparr>idequeue := qnext s i\<rparr>)) (\<lambda>_.
         kbind (kget (\<lambda>s. b_dirty (getbuf s i))) (\<lambda>dirty.
         kbind (if dirty then ret () else kbind (idewait True) (\<lambda>r. kwhen (r \<ge> 0) (ide_insl i))) (\<lambda>_.
         kbind (kmod (upd_buf i (\<lambda>b. b\<lparr>b_valid := True\<rparr>))) (\<lambda>_.
         kbind (kmod (upd_buf i (\<lambda>b. b\<lparr>b_dirty := False\<rparr>))) (\<lambda>_.
         kbind (wakeup (ChanBuf i)) (\<lambda>_.
         kbind (kget idequeue) (\<lambda>q.
         kbind (kwhen (q \<noteq> None) (idestart q)) (\<lambda>_.
         release IdeLock))))))))))"

text \<open>The last buffer of the list that begins at a buffer.\<close>

partial_function (option) queue_end :: "(nat \<Rightarrow> nat option) \<Rightarrow> nat \<Rightarrow> nat option" where
  "queue_end nx i = (case nx i of None \<Rightarrow> Some i | Some j \<Rightarrow> queue_end nx j)"

definition queue_append :: "nat \<Rightarrow> ('z ide_state_scheme, unit) kmon" where
  "queue_append i =
     kbind (kmod (\<lambda>s. s\<lparr>qnext := (qnext s)(i := None)\<rparr>)) (\<lambda>_.
     kbind (kget (\<lambda>s. (idequeue s, qnext s))) (\<lambda>(q, nx). case q of
       None \<Rightarrow> kmod (\<lambda>s. s\<lparr>idequeue := Some i\<rparr>)
     | Some h \<Rightarrow> (case queue_end nx h of
         None \<Rightarrow> kundef ''idequeue''
       | Some l \<Rightarrow> kmod (\<lambda>s. s\<lparr>qnext := (qnext s)(l := Some i)\<rparr>))))"

text \<open>The loop of \<open>iderw\<close>, where a process that was woken continues with the lock held.\<close>

definition ide_wait_done :: "nat \<Rightarrow> ('z ide_state_scheme, unit) kmon" where
  "ide_wait_done i = kbind (kget (\<lambda>s. getbuf s i)) (\<lambda>b.
     if \<not> (b_valid b \<and> \<not> b_dirty b) then sleep (ChanBuf i) IdeLock else release IdeLock)"

definition ide_rw :: "nat \<Rightarrow> ('z ide_state_scheme, unit) kmon" where
  "ide_rw i = kbind (kget (\<lambda>s. getbuf s i)) (\<lambda>b.
     if \<not> b_busy b then kpanic ''iderw: buf not busy''
     else if b_valid b \<and> \<not> b_dirty b then kpanic ''iderw: nothing to do''
     else kbind (kget havedisk1) (\<lambda>d1.
     if b_dev b \<noteq> 0 \<and> \<not> d1 then kpanic ''iderw: ide disk 1 not present''
     else
       kbind (acquire IdeLock) (\<lambda>_.
       kbind (queue_append i) (\<lambda>_.
       kbind (kget idequeue) (\<lambda>q.
       kbind (kwhen (q = Some i) (idestart (Some i))) (\<lambda>_.
       ide_wait_done i))))))"

section \<open>The queue as a list\<close>

fun linked :: "(nat \<Rightarrow> nat option) \<Rightarrow> nat option \<Rightarrow> nat list \<Rightarrow> bool" where
  "linked nx q [] = (q = None)"
| "linked nx q (x # xs) = (q = Some x \<and> linked nx (nx x) xs)"

definition ide_queue :: "('z ide_state_scheme) \<Rightarrow> nat list \<Rightarrow> bool" where
  "ide_queue s xs \<longleftrightarrow> linked (qnext s) (idequeue s) xs \<and> distinct xs"

lemma linked_cong: "(\<And>x. x \<in> set xs \<Longrightarrow> nx x = nx' x) \<Longrightarrow> linked nx q xs = linked nx' q xs"
  by (induction xs arbitrary: q) auto

lemma queue_end_linked: "linked nx (Some x) (x # xs) \<Longrightarrow> queue_end nx x = Some (last (x # xs))"
proof (induction xs arbitrary: x)
  case Nil
  then show ?case by (simp add: queue_end.simps)
next
  case (Cons y ys)
  then show ?case by (subst queue_end.simps) simp
qed

lemma linked_snoc:
  "linked nx q (x # xs) \<Longrightarrow> distinct (x # xs) \<Longrightarrow> y \<notin> set (x # xs) \<Longrightarrow> nx y = None \<Longrightarrow>
   linked (nx(last (x # xs) := Some y)) q (x # xs @ [y])"
proof (induction xs arbitrary: q x)
  case Nil
  then show ?case by auto
next
  case (Cons z zs)
  define l where "l = last (z # zs)"
  have "linked (nx(l := Some y)) (nx x) (z # zs @ [y])"
    unfolding l_def using Cons by (intro Cons.IH) auto
  moreover have "l \<noteq> x" using Cons(3) last_in_set [of "z # zs"] by (auto simp: l_def)
  moreover have "last (x # z # zs) = l" by (simp add: l_def)
  ultimately show ?case using Cons(2) by (simp add: fun_upd_def del: last.simps)
qed

lemma queue_append_list:
  assumes "ide_queue s xs" "i \<notin> set xs"
  shows "\<exists>t. queue_append i s = Ok () t \<and> ide_queue t (xs @ [i]) \<and>
    (\<exists>q nx. t = s\<lparr>idequeue := q, qnext := nx\<rparr>)"
proof -
  let ?nx = "(qnext s)(i := None)"
  have "linked (qnext s) (idequeue s) xs = linked ?nx (idequeue s) xs"
    using assms(2) by (intro linked_cong) auto
  with assms(1) have c: "linked ?nx (idequeue s) xs" "distinct xs" by (simp_all add: ide_queue_def)
  show ?thesis
  proof (cases xs)
    case Nil
    let ?t = "s\<lparr>idequeue := Some i, qnext := ?nx\<rparr>"
    have "idequeue s = None" using Nil c by simp
    then have "queue_append i s = Ok () ?t" by (simp add: queue_append_def kbind_def kmod_def kget_def)
    moreover have "ide_queue ?t (xs @ [i])" using Nil by (simp add: ide_queue_def)
    ultimately show ?thesis by blast
  next
    case (Cons x ys)
    with c have q: "idequeue s = Some x" and e: "queue_end ?nx x = Some (last (x # ys))"
      using queue_end_linked [of ?nx x ys] by auto
    let ?t = "s\<lparr>qnext := ?nx(last (x # ys) := Some i)\<rparr>"
    have "queue_append i s = Ok () ?t"
      using q e by (simp add: queue_append_def kbind_def kmod_def kget_def)
    moreover have "ide_queue ?t (xs @ [i])"
      using linked_snoc [of ?nx "idequeue s" x ys i] c Cons assms(2) by (auto simp: ide_queue_def)
    moreover have "?t = s\<lparr>idequeue := idequeue s, qnext := ?nx(last (x # ys) := Some i)\<rparr>" by simp
    ultimately show ?thesis by blast
  qed
qed

section \<open>Requests\<close>

text \<open>What is sent to the disk for a buffer.\<close>

definition request :: "buf \<Rightarrow> ide_op list" where
  "request b =
     [Outb 0x3f6 0, Outb 0x1f2 1, Outb 0x1f3 (b_sector b mod 256), Outb 0x1f4 (b_sector b div 2 ^ 8 mod 256),
      Outb 0x1f5 (b_sector b div 2 ^ 16 mod 256),
      Outb 0x1f6 (0xe0 + b_dev b mod 2 * 16 + b_sector b div 2 ^ 24 mod 16)]
     @ (if b_dirty b then [Outb 0x1f7 IDE_CMD_WRITE, Outsl (b_data b)] else [Outb 0x1f7 IDE_CMD_READ])"

lemma idestart_run:
  "wait_ready (ide_status s) = Some (r, rs) \<Longrightarrow>
   idestart (Some i) s = Ok () (s\<lparr>ide_status := rs, ide_out := ide_out s @ request (getbuf s i)\<rparr>)"
  by (simp add: idestart_def idewait_def ide_outb_def request_def kbind_def kget_def kmod_def ret_def)

text \<open>The sector in the four address registers, of which the last one holds only four bits.\<close>

lemma request_sector:
  assumes "b_sector b < 2 ^ 28"
  shows "b_sector b = b_sector b mod 256 + 2 ^ 8 * (b_sector b div 2 ^ 8 mod 256)
    + 2 ^ 16 * (b_sector b div 2 ^ 16 mod 256) + 2 ^ 24 * (b_sector b div 2 ^ 24 mod 16)"
proof -
  define n where "n = b_sector b"
  have a: "n div 2 ^ 16 = n div 2 ^ 8 div 2 ^ 8" "n div 2 ^ 24 = n div 2 ^ 16 div 2 ^ 8"
    by (simp_all flip: div_mult2_eq)
  have "n div 2 ^ 24 < 16" using assms by (simp add: n_def less_mult_imp_div_less)
  then have m: "n div 2 ^ 24 mod 16 = n div 2 ^ 24" by (rule mod_less)
  have p: "(2::nat) ^ 8 = 256" "(2::nat) ^ 16 = 65536" "(2::nat) ^ 24 = 16777216" by simp_all
  have "n = n mod 256 + 256 * (n div 2 ^ 8)" by simp
  moreover have "n div 2 ^ 8 = n div 2 ^ 8 mod 256 + 256 * (n div 2 ^ 16)" unfolding a by simp
  moreover have "n div 2 ^ 16 = n div 2 ^ 16 mod 256 + 256 * (n div 2 ^ 24)" unfolding a by simp
  ultimately have "n = n mod 256 + 2 ^ 8 * (n div 2 ^ 8 mod 256) + 2 ^ 16 * (n div 2 ^ 16 mod 256)
      + 2 ^ 24 * (n div 2 ^ 24 mod 16)" unfolding m unfolding p by linarith
  then show ?thesis by (simp only: n_def)
qed

text \<open>C34: \<open>iderw\<close> appends its buffer to the queue and sends a request to the disk exactly when the queue was
  empty, so that there is never more than one request under way; then it sleeps until the buffer is
  done.\<close>

theorem iderw_queues:
  assumes "ide_queue s xs" "i \<notin> set xs" "b_busy (getbuf s i)" "\<not> (b_valid (getbuf s i) \<and> \<not> b_dirty (getbuf s i))"
    and "b_dev (getbuf s i) = 0 \<or> havedisk1 s" "held s = []" "cur s = Some p" "p < length (procs s)"
    and "wait_ready (ide_status s) = Some (r, rs)"
  shows "\<exists>t. ide_rw i s = Block (ChanBuf i) t \<and> ide_queue t (xs @ [i]) \<and> bufs t = bufs s
    \<and> ide_out t = ide_out s @ (if xs = [] then request (getbuf s i) else [])
    \<and> procs t = (procs s)[p := (procs s ! p)\<lparr>p_chan := Some (ChanBuf i), p_state := SLEEPING\<rparr>]"
proof -
  define s1 where "s1 = s\<lparr>held := [IdeLock]\<rparr>"
  have "ide_queue s1 xs" using assms(1) by (simp add: s1_def ide_queue_def)
  from queue_append_list [OF this assms(2)] obtain t q nx where
    app: "queue_append i s1 = Ok () t" and tq: "ide_queue t (xs @ [i])" and t: "t = s1\<lparr>idequeue := q, qnext := nx\<rparr>"
    by blast
  have first: "(idequeue t = Some i) = (xs = [])"
    using tq assms(2) by (cases xs) (auto simp: ide_queue_def)
  define u where "u = (if xs = [] then t\<lparr>ide_status := rs, ide_out := ide_out t @ request (getbuf t i)\<rparr> else t)"
  have start: "kwhen (idequeue t = Some i) (idestart (Some i)) t = Ok () u"
  proof (cases "xs = []")
    case True
    have "wait_ready (ide_status t) = Some (r, rs)" using assms(9) by (simp add: t s1_def)
    from idestart_run [OF this, of i] have "idestart (Some i) t = Ok () u" unfolding u_def if_P [OF True] .
    moreover have "(idequeue t = Some i) = True" by (simp only: first True simp_thms)
    ultimately show ?thesis by (simp only: kwhen_simps)
  next
    case False
    then show ?thesis by (simp only: first u_def if_False kwhen_simps ret_def)
  qed
  have u: "held u = [IdeLock]" "cur u = Some p" "procs u = procs s" "bufs u = bufs s"
    "ide_out u = ide_out s @ (if xs = [] then request (getbuf s i) else [])"
    by (simp_all add: u_def t s1_def assms(7))
  have uq: "ide_queue u (xs @ [i])"
    using tq by (cases "xs = []") (simp_all add: u_def ide_queue_def)
  define v where "v = u\<lparr>held := [], cur := None,
    procs := (procs s)[p := (procs s ! p)\<lparr>p_chan := Some (ChanBuf i), p_state := SLEEPING\<rparr>]\<rparr>"
  have wait: "ide_wait_done i u = Block (ChanBuf i) v"
  proof -
    have b: "\<not> (b_valid (getbuf u i) \<and> \<not> b_dirty (getbuf u i))" using u(4) assms(4) by simp
    show ?thesis
      using u b assms(8) by (simp add: ide_wait_done_def sleep_def sched_def kbind_def kget_def kmod_def kseq_def
        acquire_def release_def upd_proc_def v_def)
  qed
  have "ide_rw i s = ide_wait_done i u"
    using assms(3, 4, 5, 6) app start
    by (auto simp: ide_rw_def kbind_def kget_def s1_def kpanic_def)
  moreover have "ide_queue v (xs @ [i])" using uq by (simp add: v_def ide_queue_def)
  ultimately show ?thesis using wait u by (auto simp: v_def)
qed

text \<open>C33: the disk's interrupt completes the buffer at the head of the queue: a read takes the data the
  disk delivers, the buffer becomes valid and clean and its process is woken; then the next buffer's
  request is sent.  When the disk reports an error for a read, no data is taken, and the buffer is
  marked valid all the same.\<close>

theorem ideintr_completes:
  assumes "ide_queue s (i # xs)" "held s = []" "i < length (bufs s)" "wait_ready (ide_status s) = Some (r, rs)"
    and "wait_ready rs = Some (r', rs')" "ide_in s \<noteq> []"
  shows "\<exists>t. ideintr s = Ok () t \<and> ide_queue t xs \<and> held t = []
    \<and> bufs t = (bufs s)[i := (getbuf s i)\<lparr>b_valid := True, b_dirty := False,
        b_data := if \<not> b_dirty (getbuf s i) \<and> r AND (IDE_DF OR IDE_ERR) = 0 then hd (ide_in s)
                  else b_data (getbuf s i)\<rparr>]
    \<and> procs t = map (wake (ChanBuf i)) (procs s)
    \<and> ide_out t = ide_out s @ (if xs = [] then [] else request (getbuf s (hd xs)))"
proof -
  let ?b = "getbuf s i"
  define data where "data = (if \<not> b_dirty ?b \<and> r AND (IDE_DF OR IDE_ERR) = 0 then hd (ide_in s) else b_data ?b)"
  define inp where "inp = (if \<not> b_dirty ?b \<and> r AND (IDE_DF OR IDE_ERR) = 0 then tl (ide_in s) else ide_in s)"
  define st where "st = (if b_dirty ?b then ide_status s else rs)"
  define u where "u = s\<lparr>held := [IdeLock], idequeue := qnext s i, ide_status := st, ide_in := inp,
    bufs := (bufs s)[i := ?b\<lparr>b_valid := True, b_dirty := False, b_data := data\<rparr>],
    procs := map (wake (ChanBuf i)) (procs s)\<rparr>"
  have q: "idequeue s = Some i" "linked (qnext s) (qnext s i) xs" "i \<notin> set xs" "distinct xs"
    using assms(1) by (auto simp: ide_queue_def)
  have uq: "ide_queue u xs" using q by (simp add: ide_queue_def u_def)
  have step: "ideintr s = kbind (kget idequeue) (\<lambda>q. kbind (kwhen (q \<noteq> None) (idestart q)) (\<lambda>_. release IdeLock)) u"
  proof -
    have a: "acquire IdeLock s = Ok () (s\<lparr>held := [IdeLock]\<rparr>)" using assms(2) by (simp add: acquire_def)
    obtain d ds where ds: "ide_in s = d # ds" using assms(6) by (cases "ide_in s") auto
    consider (dirty) "b_dirty ?b" | (ok) "\<not> b_dirty ?b" "r AND (IDE_DF OR IDE_ERR) = 0"
      | (err) "\<not> b_dirty ?b" "r AND (IDE_DF OR IDE_ERR) \<noteq> 0" by blast
    then show ?thesis
    proof cases
      case dirty
      then show ?thesis using q(1) assms(3)
        by (simp add: ideintr_def kbind_def a kget_def kmod_def ret_def upd_buf_def u_def st_def inp_def data_def)
    next
      case ok
      have e: "?b\<lparr>b_data := d, b_valid := True, b_dirty := False\<rparr> = ?b\<lparr>b_valid := True, b_dirty := False, b_data := d\<rparr>"
        by simp
      from ok show ?thesis using q(1) assms(3, 4) ds
        by (simp add: ideintr_def kbind_def a kget_def kmod_def ret_def upd_buf_def idewait_def ide_insl_def
          u_def st_def inp_def data_def e)
    next
      case err
      then show ?thesis using q(1) assms(3, 4)
        by (simp add: ideintr_def kbind_def a kget_def kmod_def ret_def upd_buf_def idewait_def ide_insl_def
          u_def st_def inp_def data_def)
    qed
  qed
  show ?thesis
  proof (cases xs)
    case Nil
    then have "idequeue u = None" using q by (simp add: u_def)
    then have "ideintr s = Ok () (u\<lparr>held := []\<rparr>)"
      unfolding step by (simp add: kbind_def kget_def ret_def release_def u_def)
    moreover have "ide_queue (u\<lparr>held := []\<rparr>) xs" using uq by (simp add: ide_queue_def)
    ultimately show ?thesis using Nil by (auto simp: u_def data_def)
  next
    case (Cons j ys)
    then have j: "idequeue u = Some j" "j \<noteq> i" using q uq by (auto simp: ide_queue_def)
    have "\<exists>r2 rs2. wait_ready (ide_status u) = Some (r2, rs2)"
      using assms(4, 5) by (simp add: u_def st_def)
    then obtain r2 rs2 where w: "wait_ready (ide_status u) = Some (r2, rs2)" by blast
    let ?v = "u\<lparr>ide_status := rs2, ide_out := ide_out u @ request (getbuf u j)\<rparr>"
    have "ideintr s = Ok () (?v\<lparr>held := []\<rparr>)"
      unfolding step using j idestart_run [OF w, of j] by (simp add: kbind_def kget_def release_def u_def)
    moreover have "ide_queue (?v\<lparr>held := []\<rparr>) xs" using uq by (simp add: ide_queue_def)
    moreover have "getbuf u j = getbuf s j" using j by (simp add: u_def)
    ultimately show ?thesis using Cons by (auto simp: u_def data_def)
  qed
qed

text \<open>One buffer queued behind another one, on a disk with nothing else to do.\<close>

definition demo_ide :: "nat option \<Rightarrow> byte list \<Rightarrow> ide_state" where
  "demo_ide q st = \<lparr>held = [], cur = Some 0, mem = (\<lambda>_. 0), freelist = 0, use_lock = True, kend = 0, sym_data = 0,
     kpgdir = 0, cr3 = 0, tss_esp0 = 0, procs = [unused_proc\<lparr>p_state := RUNNING\<rparr>], nextpid = 1, initproc = None,
     sym_forkret = 0, sym_trapret = 0, memdisk = (\<lambda>_. replicate BSIZE 0), disksize = 20, disk_writes = [],
     bufs = replicate NBUF (empty_buf\<lparr>b_busy := True\<rparr>), lru = [0..<NBUF], idequeue = q, qnext = Map.empty,
     havedisk1 = False, ide_out = [], ide_status = st, ide_in = [replicate BSIZE 7]\<rparr>"

theorem iderw_queues_witness:
  "\<exists>t. ide_rw 3 (demo_ide (Some 2) [0x40]) = Block (ChanBuf 3) t \<and> ide_queue t [2, 3] \<and> ide_out t = []"
  using iderw_queues [of "demo_ide (Some 2) [0x40]" "[2]" 3 0 "0x40" "[]"]
  by (auto simp: demo_ide_def ide_queue_def empty_buf_def NBUF_def IDE_BSY_def IDE_DRDY_def)

theorem ideintr_completes_witness:
  "\<exists>t. ideintr (demo_ide (Some 2) [0x80, 0x41, 0x40]) = Ok () t \<and> ide_queue t [] \<and> b_valid (bufs t ! 2)
     \<and> b_data (bufs t ! 2) = b_data (empty_buf)"
  using ideintr_completes [of "demo_ide (Some 2) [0x80, 0x41, 0x40]" 2 "[]" "0x41" "[0x40]" "0x40" "[]"]
  by (auto simp: demo_ide_def ide_queue_def empty_buf_def NBUF_def IDE_BSY_def IDE_DRDY_def IDE_DF_def IDE_ERR_def)

end
