(* ===== verification/Devices.thy ===== *)
theory Devices
  imports Cstring
begin

text \<open>
  Setting up the interrupt hardware: \<open>picirq.c\<close>, \<open>ioapic.c\<close>, \<open>timer.c\<close> and \<open>uartinit\<close> of
  \<open>uart.c\<close>.  What a routine does is the
  sequence of values it stores into ports and device registers; what it reads from a device is an
  argument.  Waiting for a device to be ready only reads, and is left out.
\<close>

unbundle bit_operations_syntax

datatype io = Outb nat byte | Lapic nat "32 word" | Ioapic nat "32 word"

record hw =
  trace :: "io list"
  irqmask :: "16 word"
  ismp :: bool
  has_lapic :: bool
  ioapicid :: nat
  uart :: bool

definition outb :: "nat \<Rightarrow> byte \<Rightarrow> hw \<Rightarrow> hw" where
  "outb port v h = h\<lparr>trace := trace h @ [Outb port v]\<rparr>"

section \<open>picirq.c\<close>

definition IO_PIC1 :: nat where "IO_PIC1 = 0x20"
definition IO_PIC2 :: nat where "IO_PIC2 = 0xA0"
definition IRQ_SLAVE :: nat where "IRQ_SLAVE = 2"
definition T_IRQ0 :: nat where "T_IRQ0 = 32"

definition irqmask0 :: "16 word" where
  "irqmask0 = 0xFFFF AND NOT (push_bit IRQ_SLAVE 1)"

definition picsetmask :: "16 word \<Rightarrow> hw \<Rightarrow> hw" where
  "picsetmask msk h =
     outb (IO_PIC2 + 1) (ucast (drop_bit 8 msk)) (outb (IO_PIC1 + 1) (ucast msk) (h\<lparr>irqmask := msk\<rparr>))"

definition picenable :: "nat \<Rightarrow> hw \<Rightarrow> hw" where
  "picenable irq h = picsetmask (irqmask h AND NOT (push_bit irq 1)) h"

definition outs :: "(nat \<times> byte) list \<Rightarrow> hw \<Rightarrow> hw" where
  "outs ps h = fold (\<lambda>(p, v). outb p v) ps h"

definition picinit :: "hw \<Rightarrow> hw" where
  "picinit h =
     (let h = outs
        [(IO_PIC1 + 1, 0xFF), (IO_PIC2 + 1, 0xFF),
         (IO_PIC1, 0x11), (IO_PIC1 + 1, word_of_nat T_IRQ0), (IO_PIC1 + 1, push_bit IRQ_SLAVE 1), (IO_PIC1 + 1, 3),
         (IO_PIC2, 0x11), (IO_PIC2 + 1, word_of_nat (T_IRQ0 + 8)), (IO_PIC2 + 1, word_of_nat IRQ_SLAVE),
         (IO_PIC2 + 1, 3),
         (IO_PIC1, 0x68), (IO_PIC1, 0x0a), (IO_PIC2, 0x68), (IO_PIC2, 0x0a)] h in
      if irqmask h \<noteq> 0xFFFF then picsetmask (irqmask h) h else h)"

section \<open>ioapic.c\<close>

definition REG_TABLE :: nat where "REG_TABLE = 0x10"
definition INT_DISABLED :: "32 word" where "INT_DISABLED = 0x10000"

text \<open>Selecting a register and storing into it.\<close>

definition ioapicwrite :: "nat \<Rightarrow> 32 word \<Rightarrow> hw \<Rightarrow> hw" where
  "ioapicwrite reg v h = h\<lparr>trace := trace h @ [Ioapic reg v]\<rparr>"

text \<open>\<open>ver\<close> is what the version register reads; the message about a wrong identifier is left out.\<close>

definition ioapicinit :: "32 word \<Rightarrow> hw \<Rightarrow> hw" where
  "ioapicinit ver h =
     (if \<not> ismp h then h
      else fold (\<lambda>i h. ioapicwrite (REG_TABLE + 2 * i + 1) 0
                  (ioapicwrite (REG_TABLE + 2 * i) (INT_DISABLED OR word_of_nat (T_IRQ0 + i)) h))
        [0..<unat (drop_bit 16 ver AND 0xFF) + 1] h)"

definition ioapicenable :: "nat \<Rightarrow> nat \<Rightarrow> hw \<Rightarrow> hw" where
  "ioapicenable irq cpunum h =
     (if \<not> ismp h then h
      else ioapicwrite (REG_TABLE + 2 * irq + 1) (push_bit 24 (word_of_nat cpunum))
             (ioapicwrite (REG_TABLE + 2 * irq) (word_of_nat (T_IRQ0 + irq)) h))"

section \<open>timer.c, uart.c\<close>

definition IO_TIMER1 :: nat where "IO_TIMER1 = 0x40"
definition TIMER_DIV :: "nat \<Rightarrow> nat" where "TIMER_DIV x = (1193182 + x div 2) div x"

definition timerinit :: "hw \<Rightarrow> hw" where
  "timerinit h =
     picenable 0 (outs [(IO_TIMER1 + 3, 0x34), (IO_TIMER1, word_of_nat (TIMER_DIV 100 mod 256)),
       (IO_TIMER1, word_of_nat (TIMER_DIV 100 div 256))] h)"

definition COM1 :: nat where "COM1 = 0x3f8"

text \<open>\<open>status\<close> is what the line status register reads; the greeting is printed by \<open>uartputc\<close>.\<close>

definition uartinit :: "byte \<Rightarrow> hw \<Rightarrow> hw" where
  "uartinit status h =
     (let h = outs [(COM1 + 2, 0), (COM1 + 3, 0x80), (COM1, word_of_nat (115200 div 9600)), (COM1 + 1, 0),
        (COM1 + 3, 3), (COM1 + 4, 0), (COM1 + 1, 1)] h in
      if status = 0xFF then h
      else ioapicenable 4 0 (picenable 4 (h\<lparr>uart := True\<rparr>)))"

section \<open>Which interrupts the controllers let through\<close>

text \<open>The mask register of a controller holds what was last stored into its data port.\<close>

fun last_out :: "nat \<Rightarrow> io list \<Rightarrow> byte option" where
  "last_out p [] = None"
| "last_out p (Outb q v # xs) = (case last_out p xs of None \<Rightarrow> (if q = p then Some v else None) | Some w \<Rightarrow> Some w)"
| "last_out p (_ # xs) = last_out p xs"

definition pic_enabled :: "hw \<Rightarrow> nat \<Rightarrow> bool" where
  "pic_enabled h irq \<longleftrightarrow>
     (if irq < 8 then \<exists>v. last_out (IO_PIC1 + 1) (trace h) = Some v \<and> \<not> bit v irq
      else \<exists>v. last_out (IO_PIC2 + 1) (trace h) = Some v \<and> \<not> bit v (irq - 8))"

lemma last_out_snoc: "last_out p (xs @ [Outb q v]) = (if q = p then Some v else last_out p xs)"
  by (induction p xs rule: last_out.induct) (auto split: option.splits)

lemma last_out_snoc2:
  "last_out p (xs @ [Outb q v, Outb r w]) = (if r = p then Some w else if q = p then Some v else last_out p xs)"
  using last_out_snoc [of p "xs @ [Outb q v]" r w] by (simp add: last_out_snoc)

lemma picsetmask_enabled: "irq < 16 \<Longrightarrow> pic_enabled (picsetmask msk h) irq = (\<not> bit msk irq)"
  by (auto simp: pic_enabled_def picsetmask_def outb_def last_out_snoc2 IO_PIC1_def IO_PIC2_def bit_simps)

lemma picsetmask_mask [simp]: "irqmask (picsetmask msk h) = msk"
  by (simp add: picsetmask_def outb_def)

lemma outs_mask [simp]: "irqmask (outs ps h) = irqmask h"
  by (induction ps arbitrary: h) (auto simp: outs_def outb_def)

lemma picinit_mask [simp]: "irqmask (picinit h) = irqmask h"
  by (auto simp: picinit_def Let_def)

lemma irqmask0_bit: "irq < 16 \<Longrightarrow> bit irqmask0 irq = (irq \<noteq> 2)"
proof -
  assume "irq < 16"
  moreover have "[0..<16] = [0, 1, 2, 3, 4, 5, 6, 7, 8, 9, 10, 11, 12, 13, 14, 15]" by (simp add: upt_rec)
  ultimately have "irq \<in> set [0, 1, 2, 3, 4, 5, 6, 7, 8, 9, 10, 11, 12, 13, 14, 15]" by (metis atLeastLessThan_upt atLeast0LessThan lessThan_iff)
  then have "irq \<in> {0, 1, 2, 3, 4, 5, 6, 7, 8, 9, 10, 11, 12, 13, 14, 15}" by simp
  then show ?thesis by (elim insertE) (simp_all add: irqmask0_def IRQ_SLAVE_def)
qed

lemma picinit_enabled: "irqmask h = irqmask0 \<Longrightarrow> irq < 16 \<Longrightarrow> pic_enabled (picinit h) irq = (irq = 2)"
proof -
  assume h: "irqmask h = irqmask0" and irq: "irq < 16"
  have "irqmask0 \<noteq> 0xFFFF" by (simp add: irqmask0_def IRQ_SLAVE_def)
  with h have "\<exists>g. picinit h = picsetmask irqmask0 g" by (auto simp: picinit_def Let_def)
  with irq show ?thesis by (auto simp: picsetmask_enabled irqmask0_bit)
qed

text \<open>C1: after \<open>picinit\<close> and any calls of \<open>picenable\<close> the two controllers let through exactly the
  interrupts that were enabled and the one the second controller is connected to.\<close>

theorem pic_lets_through:
  assumes "irqmask h = irqmask0" "irq < 16" "\<forall>i \<in> set irqs. i < 16"
  shows "pic_enabled (fold picenable irqs (picinit h)) irq = (irq = 2 \<or> irq \<in> set irqs)"
proof -
  have "irq < 16 \<Longrightarrow> bit (irqmask (fold picenable irqs (picinit h))) irq = (\<not> (irq = 2 \<or> irq \<in> set irqs)) \<and>
      pic_enabled (fold picenable irqs (picinit h)) irq = (irq = 2 \<or> irq \<in> set irqs)" for irq
  proof (induction irqs rule: rev_induct)
    case Nil
    with assms(1) show ?case by (simp add: picinit_enabled irqmask0_bit)
  next
    case (snoc i irqs)
    then show ?case by (auto simp: picenable_def picsetmask_enabled bit_simps)
  qed
  with assms(2) show ?thesis by blast
qed

definition hw0 :: hw where
  "hw0 = \<lparr>trace = [], irqmask = irqmask0, ismp = False, has_lapic = False, ioapicid = 0, uart = False\<rparr>"

theorem pic_lets_through_witness:
  "pic_enabled (picenable 14 (picenable 1 (picinit hw0))) 14 \<and> \<not> pic_enabled (picenable 14 (picenable 1 (picinit hw0))) 0"
  using pic_lets_through [of hw0 14 "[1, 14]"] pic_lets_through [of hw0 0 "[1, 14]"] by (simp add: hw0_def)

end
