(* ===== verification/Mp.thy ===== *)
theory Mp
  imports Devices
begin

text \<open>
  The multiprocessor tables: \<open>mp.c\<close> with the structures of \<open>mp.h\<close>, whose fields are read at their
  offsets in memory.  The loop over the entries of the table is a partial function.
\<close>

section \<open>Finding the tables\<close>

definition KERNBASE :: nat where "KERNBASE = 0x80000000"

definition to_virt :: "nat \<Rightarrow> nat" where "to_virt a = (a + KERNBASE) mod 2 ^ 32"

definition sum_bytes :: "memory \<Rightarrow> nat \<Rightarrow> nat \<Rightarrow> byte" where
  "sum_bytes m addr len = fold (\<lambda>i s. s + m (addr + i)) [0..<len] 0"

definition le16 :: "memory \<Rightarrow> nat \<Rightarrow> nat" where "le16 m a = dec_le (load m a 2)"

text \<open>\<open>_MP_\<close> and \<open>PCMP\<close>.\<close>

definition mpsearch1 :: "memory \<Rightarrow> nat \<Rightarrow> nat \<Rightarrow> nat option" where
  "mpsearch1 m a len =
     find (\<lambda>p. load m p 4 = [95, 77, 80, 95] \<and> sum_bytes m p 16 = 0)
       (map (\<lambda>i. to_virt a + 16 * i) [0..<(len + 15) div 16])"

definition mpsearch :: "memory \<Rightarrow> nat option" where
  "mpsearch m =
     (let bda = KERNBASE + 0x400; p = (256 * unat (m (bda + 15)) + unat (m (bda + 14))) * 16;
          r = (if p \<noteq> 0 then mpsearch1 m p 1024
               else mpsearch1 m (u32 (int (le16 m (bda + 0x13)) * 1024 - 1024)) 1024) in
      case r of Some mp \<Rightarrow> Some mp | None \<Rightarrow> mpsearch1 m 0xF0000 0x10000)"

text \<open>The pointer structure and the table.\<close>

definition mpconfig :: "memory \<Rightarrow> (nat \<times> nat) option" where
  "mpconfig m =
     (case mpsearch m of None \<Rightarrow> None | Some mp \<Rightarrow>
      if load32 m (mp + 4) = 0 then None
      else let conf = to_virt (load32 m (mp + 4)) in
        if load m conf 4 \<noteq> [80, 67, 77, 80] then None
        else if m (conf + 6) \<noteq> 1 \<and> m (conf + 6) \<noteq> 4 then None
        else if sum_bytes m conf (le16 m (conf + 4)) \<noteq> 0 then None
        else Some (mp, conf))"

section \<open>Reading the entries\<close>

text \<open>\<open>mp_cpus\<close> are the identifiers stored into \<open>cpus\<close>; the array has \<open>NCPU\<close> elements, and
  \<open>mp_overrun\<close> says that one behind it was stored to.\<close>

definition NCPU :: nat where "NCPU = 8"

record mp_state =
  mp_ismp :: bool
  mp_lapic :: nat
  mp_bcpu :: nat
  mp_ncpu :: nat
  mp_cpus :: "nat list"
  mp_ioapicid :: nat
  mp_overrun :: bool

definition mp_proc_entry :: "memory \<Rightarrow> nat \<Rightarrow> mp_state \<Rightarrow> mp_state" where
  "mp_proc_entry m p st =
     (let n = mp_ncpu st;
          st = (if n \<noteq> unat (m (p + 1)) then st\<lparr>mp_ismp := False\<rparr> else st);
          st = (if bit (m (p + 3)) 1 then st\<lparr>mp_bcpu := n\<rparr> else st) in
      st\<lparr>mp_cpus := mp_cpus st @ [n], mp_ncpu := n + 1, mp_overrun := mp_overrun st \<or> NCPU \<le> n\<rparr>)"

partial_function (option) mp_entries :: "memory \<Rightarrow> nat \<Rightarrow> nat \<Rightarrow> mp_state \<Rightarrow> mp_state option" where
  "mp_entries m e p st =
     (if \<not> p < e then Some st
      else if m p = 0 then mp_entries m e (p + 20) (mp_proc_entry m p st)
      else if m p = 2 then mp_entries m e (p + 8) (st\<lparr>mp_ioapicid := unat (m (p + 1))\<rparr>)
      else if m p = 1 \<or> m p = 3 \<or> m p = 4 then mp_entries m e (p + 8) st
      else mp_entries m e p (st\<lparr>mp_ismp := False\<rparr>))"

definition mp_state0 :: mp_state where
  "mp_state0 = \<lparr>mp_ismp = False, mp_lapic = 0, mp_bcpu = 0, mp_ncpu = 0, mp_cpus = [], mp_ioapicid = 0, mp_overrun = False\<rparr>"

text \<open>The last component are the stores to the IMCR ports, with
  \<open>imcr\<close> the value read from port 0x23.\<close>

definition mpinit :: "memory \<Rightarrow> byte \<Rightarrow> (mp_state \<times> (nat \<times> byte) list) option" where
  "mpinit m imcr =
     (case mpconfig m of
        None \<Rightarrow> Some (mp_state0, [])
      | Some (mp, conf) \<Rightarrow>
          (case mp_entries m (conf + le16 m (conf + 4)) (conf + 44)
             (mp_state0\<lparr>mp_ismp := True, mp_lapic := load32 m (conf + 36)\<rparr>) of
             None \<Rightarrow> None
           | Some st \<Rightarrow>
               if \<not> mp_ismp st then Some (st\<lparr>mp_ncpu := 1, mp_lapic := 0, mp_ioapicid := 0\<rparr>, [])
               else Some (st, if m (mp + 12) \<noteq> 0 then [(0x22, 0x70), (0x23, or imcr 1)] else [])))"

definition mpbcpu :: "mp_state \<Rightarrow> nat" where
  "mpbcpu st = mp_bcpu st"

section \<open>Tables in memory\<close>

datatype mp_entry = CpuEntry nat bool | IoapicEntry nat | OtherEntry nat

fun mp_table :: "memory \<Rightarrow> nat \<Rightarrow> mp_entry list \<Rightarrow> nat \<Rightarrow> bool" where
  "mp_table m p [] e = (p = e)"
| "mp_table m p (CpuEntry i boot # es) e =
     (m p = 0 \<and> unat (m (p + 1)) = i \<and> bit (m (p + 3)) 1 = boot \<and> p < e \<and> mp_table m (p + 20) es e)"
| "mp_table m p (IoapicEntry i # es) e =
     (m p = 2 \<and> unat (m (p + 1)) = i \<and> p < e \<and> mp_table m (p + 8) es e)"
| "mp_table m p (OtherEntry t # es) e =
     (t \<in> {1, 3, 4} \<and> m p = word_of_nat t \<and> p < e \<and> mp_table m (p + 8) es e)"

text \<open>An entry of a type the loop does not know: it does not move on, and the loop never ends.\<close>

lemma mp_entries_unknown: "p < e \<Longrightarrow> 4 < m p \<Longrightarrow> mp_entries m e p st = None"
proof (rule ccontr)
  assume "p < e" "4 < m p" "mp_entries m e p st \<noteq> None"
  then obtain y where "mp_entries m e p st = Some y" by blast
  have "\<not> (p < e \<and> 4 < m p)"
  proof (rule mp_entries.raw_induct [where P = "\<lambda>m e p st y. \<not> (p < e \<and> 4 < m p)"])
    show "mp_entries m e p st = Some y" by fact
  next
    fix f :: "memory \<Rightarrow> nat \<Rightarrow> nat \<Rightarrow> mp_state \<Rightarrow> mp_state option" and m e p st y
    assume ih: "\<And>m e p st y. f m e p st = Some y \<Longrightarrow> \<not> (p < e \<and> 4 < m p)"
      and step: "(if \<not> p < e then Some st
        else if m p = 0 then f m e (p + 20) (mp_proc_entry m p st)
        else if m p = 2 then f m e (p + 8) (st\<lparr>mp_ioapicid := unat (m (p + 1))\<rparr>)
        else if m p = 1 \<or> m p = 3 \<or> m p = 4 then f m e (p + 8) st
        else f m e p (st\<lparr>mp_ismp := False\<rparr>)) = Some y"
    show "\<not> (p < e \<and> 4 < m p)"
    proof
      assume a: "p < e \<and> 4 < m p"
      then have "m p \<noteq> 0" "m p \<noteq> 2" "m p \<noteq> 1" "m p \<noteq> 3" "m p \<noteq> 4" by auto
      with a step have "f m e p (st\<lparr>mp_ismp := False\<rparr>) = Some y" by simp
      from ih [OF this] a show False by blast
    qed
  qed
  with \<open>p < e\<close> \<open>4 < m p\<close> show False by blast
qed

text \<open>What a table of known entries contributes.\<close>

fun cpu_entries :: "mp_entry list \<Rightarrow> nat list" where
  "cpu_entries [] = []"
| "cpu_entries (CpuEntry i boot # es) = i # cpu_entries es"
| "cpu_entries (_ # es) = cpu_entries es"

lemma mp_entries_known:
  "mp_table m p es q \<Longrightarrow> q \<le> e \<Longrightarrow>
   \<exists>st'. mp_entries m e p st = mp_entries m e q st' \<and> mp_ncpu st' = mp_ncpu st + length (cpu_entries es)
     \<and> (mp_ismp st' \<longleftrightarrow> mp_ismp st \<and> cpu_entries es = [mp_ncpu st..<mp_ncpu st + length (cpu_entries es)])
     \<and> (mp_overrun st' \<longleftrightarrow> mp_overrun st \<or> cpu_entries es \<noteq> [] \<and> NCPU < mp_ncpu st + length (cpu_entries es))"
proof (induction es arbitrary: p st)
  case Nil
  then show ?case by auto
next
  case (Cons x es)
  show ?case
  proof (cases x)
    case (CpuEntry i boot)
    let ?st = "mp_proc_entry m p st"
    have n: "mp_ncpu ?st = mp_ncpu st + 1" "mp_ismp ?st = (mp_ismp st \<and> i = mp_ncpu st)"
      "mp_overrun ?st = (mp_overrun st \<or> NCPU \<le> mp_ncpu st)"
      using Cons(2) CpuEntry by (auto simp: mp_proc_entry_def Let_def)
    have "mp_entries m e p st = mp_entries m e (p + 20) ?st"
      using Cons(2, 3) CpuEntry by (subst mp_entries.simps) auto
    moreover have "mp_table m (p + 20) es q" using Cons(2) CpuEntry by simp
    from Cons(1) [OF this Cons(3), of ?st] obtain st' where
      "mp_entries m e (p + 20) ?st = mp_entries m e q st'" "mp_ncpu st' = mp_ncpu ?st + length (cpu_entries es)"
      "mp_ismp st' \<longleftrightarrow> mp_ismp ?st \<and> cpu_entries es = [mp_ncpu ?st..<mp_ncpu ?st + length (cpu_entries es)]"
      "mp_overrun st' \<longleftrightarrow> mp_overrun ?st \<or> cpu_entries es \<noteq> [] \<and> NCPU < mp_ncpu ?st + length (cpu_entries es)"
      by blast
    ultimately show ?thesis
      using CpuEntry by (intro exI [of _ st']) (auto simp: n upt_rec)
  next
    case (IoapicEntry i)
    with Cons(2, 3) have "mp_entries m e p st = mp_entries m e (p + 8) (st\<lparr>mp_ioapicid := unat (m (p + 1))\<rparr>)"
      by (subst mp_entries.simps) auto
    with Cons IoapicEntry show ?thesis by fastforce
  next
    case (OtherEntry t)
    with Cons(2, 3) have "mp_entries m e p st = mp_entries m e (p + 8) st"
      by (subst mp_entries.simps) auto
    with Cons OtherEntry show ?thesis by fastforce
  qed
qed

text \<open>C35: once the configuration table is found, \<open>mpinit\<close> comes back exactly when it knows the type of
  every entry: then the number of processors is that of the processor entries if these are numbered
  from 0 on, and 1 with no local APIC otherwise, and \<open>cpus\<close> is overrun when there are more than \<open>NCPU\<close>
  of them.  At an entry of a type it does not know it loops forever.\<close>

theorem mpinit_table:
  assumes "mpconfig m = Some (mp, conf)" "mp_table m (conf + 44) es q" "e = conf + le16 m (conf + 4)" "q \<le> e"
  shows "(q = e \<longrightarrow> (\<exists>st out. mpinit m i = Some (st, out)
           \<and> (mp_ismp st \<longleftrightarrow> cpu_entries es = [0..<length (cpu_entries es)])
           \<and> mp_ncpu st = (if mp_ismp st then length (cpu_entries es) else 1)
           \<and> (\<not> mp_ismp st \<longrightarrow> mp_lapic st = 0)
           \<and> (mp_overrun st \<longleftrightarrow> NCPU < length (cpu_entries es))))
       \<and> (q < e \<and> 4 < m q \<longrightarrow> mpinit m i = None)"
proof -
  define st0 where "st0 = mp_state0\<lparr>mp_ismp := True, mp_lapic := load32 m (conf + 36)\<rparr>"
  have st0: "mp_ncpu st0 = 0" "mp_ismp st0" "\<not> mp_overrun st0" by (simp_all add: st0_def mp_state0_def)
  from mp_entries_known [OF assms(2, 4), of st0] obtain st where
    run: "mp_entries m e (conf + 44) st0 = mp_entries m e q st"
    and n: "mp_ncpu st = length (cpu_entries es)"
    and mp: "mp_ismp st \<longleftrightarrow> cpu_entries es = [0..<length (cpu_entries es)]"
    and over: "mp_overrun st \<longleftrightarrow> cpu_entries es \<noteq> [] \<and> NCPU < length (cpu_entries es)"
    using st0 by auto
  have "\<exists>st out. mpinit m i = Some (st, out)
      \<and> (mp_ismp st \<longleftrightarrow> cpu_entries es = [0..<length (cpu_entries es)])
      \<and> mp_ncpu st = (if mp_ismp st then length (cpu_entries es) else 1)
      \<and> (\<not> mp_ismp st \<longrightarrow> mp_lapic st = 0) \<and> (mp_overrun st \<longleftrightarrow> NCPU < length (cpu_entries es))" if "q = e"
  proof -
    have r: "mp_entries m e (conf + 44) st0 = Some st" using run that by (simp add: mp_entries.simps)
    show ?thesis
    proof (cases "mp_ismp st")
      case True
      with r n mp over show ?thesis by (auto simp: mpinit_def assms(1, 3) st0_def)
    next
      case False
      with r n mp over show ?thesis by (auto simp: mpinit_def assms(1, 3) st0_def)
    qed
  qed
  moreover have "mpinit m i = None" if "q < e" "4 < m q"
    using run mp_entries_unknown [of q e m, OF that] by (simp add: mpinit_def assms(1, 3) st0_def)
  ultimately show ?thesis by blast
qed

text \<open>A machine with one processor and an I/O APIC numbered 7.\<close>

lemma sum_bytes_load: "sum_bytes m a n = sum_list (load m a n)"
proof -
  have "fold (\<lambda>i s. s + m (a + i)) xs s = s + sum_list (map (ptr m a) xs)" for xs s
    by (induction xs arbitrary: s) (simp_all add: ptr_def add.assoc)
  then show ?thesis by (simp add: sum_bytes_def load_def)
qed

definition demo_conf :: "byte list" where
  "demo_conf = [80, 67, 77, 80, 72, 0, 4, 180] @ replicate 26 0 @ [2, 0, 0, 0, 0xE0, 0xFE, 0, 0, 0, 0]
     @ [0, 0, 20, 3] @ replicate 16 0 @ [2, 7, 17, 1, 0, 0, 0xC0, 0xFE]"

definition demo_ptr :: "byte list" where
  "demo_ptr = [95, 77, 80, 95, 0, 0xFD, 9, 0, 1, 4, 154, 0, 0, 0, 0, 0]"

definition demo_mp :: memory where
  "demo_mp = store (store (store (\<lambda>_. 0) 0x8000040E [0xC0, 0x9F]) 0x8009FC00 demo_ptr) 0x8009FD00 demo_conf"

lemma demo_lengths: "length demo_conf = 72" "length demo_ptr = 16"
  by (simp_all add: demo_conf_def demo_ptr_def)

lemma demo_loads:
  "load demo_mp 0x8009FD00 72 = demo_conf" "load demo_mp 0x8009FC00 16 = demo_ptr"
  "load demo_mp 0x8000040E 2 = [0xC0, 0x9F]"
  by (simp_all add: demo_mp_def mem_simps demo_lengths)

lemma load_prefix: "load m a n = xs \<Longrightarrow> i < n \<Longrightarrow> m (a + i) = xs ! i"
  by (auto simp: load_def ptr_def)

lemma load_part: "load m a n = xs \<Longrightarrow> i + k \<le> n \<Longrightarrow> load m (a + i) k = take k (drop i xs)"
  by (rule nth_equalityI) (auto simp: load_def ptr_def add.assoc)

lemma demo_search: "mpsearch demo_mp = Some 0x8009FC00"
proof -
  have "demo_mp 0x8000040F = 0x9F" "demo_mp 0x8000040E = 0xC0"
    using load_prefix [OF demo_loads(3), of 1] load_prefix [OF demo_loads(3), of 0] by simp_all
  moreover have "mpsearch1 demo_mp 0x9FC00 1024 = Some 0x8009FC00"
    using load_part [OF demo_loads(2), of 0 4]
    by (simp add: mpsearch1_def to_virt_def KERNBASE_def upt_conv_Cons [of 0 64] sum_bytes_load demo_loads)
      (simp add: demo_ptr_def)
  ultimately show ?thesis by (simp add: mpsearch_def KERNBASE_def Let_def)
qed

lemma demo_config: "mpconfig demo_mp = Some (0x8009FC00, 0x8009FD00) \<and> le16 demo_mp 0x8009FD04 = 72"
proof -
  have "load32 demo_mp 0x8009FC04 = 0x9FD00"
    using load_part [OF demo_loads(2), of 4 4] by (simp add: load32_def demo_ptr_def)
  moreover have len: "le16 demo_mp 0x8009FD04 = 72"
    using load_part [OF demo_loads(1), of 4 2] by (simp add: le16_def demo_conf_def)
  moreover have "load demo_mp 0x8009FD00 4 = [80, 67, 77, 80]"
    using load_part [OF demo_loads(1), of 0 4] by (simp add: demo_conf_def)
  moreover have "demo_mp 0x8009FD06 = 4"
    using load_prefix [OF demo_loads(1), of 6] by (simp add: demo_conf_def)
  moreover have "sum_bytes demo_mp 0x8009FD00 72 = 0"
    by (simp add: sum_bytes_load demo_loads) (simp add: demo_conf_def sum_list_replicate)
  ultimately show ?thesis
    by (simp add: mpconfig_def demo_search to_virt_def KERNBASE_def Let_def)
qed

lemma demo_entries: "mp_table demo_mp (0x8009FD00 + 44) [CpuEntry 0 True, IoapicEntry 7] 0x8009FD48"
proof -
  note at = load_prefix [OF demo_loads(1)]
  have "demo_mp 0x8009FD2C = 0" "demo_mp 0x8009FD2D = 0" "demo_mp 0x8009FD2F = 3"
    "demo_mp 0x8009FD40 = 2" "demo_mp 0x8009FD41 = 7"
    using at [of 44] at [of 45] at [of 47] at [of 64] at [of 65] by (simp_all add: demo_conf_def nth_append)
  then show ?thesis by simp
qed

theorem mpinit_table_witness:
  "\<exists>st out. mpinit demo_mp 0 = Some (st, out) \<and> mp_ismp st \<and> mp_ncpu st = 1 \<and> \<not> mp_overrun st"
  using mpinit_table [OF conjunct1 [OF demo_config] demo_entries refl, of 0]
  by (auto simp: demo_config [THEN conjunct2, simplified] NCPU_def)

end
