(* ===== verification/Lapic.thy ===== *)
theory Lapic
  imports Devices
begin

text \<open>
  The local interrupt controller and the clock: \<open>lapic.c\<close>.  Registers are written as indices, as in the
  code.  The clock is a device whose registers are read one after the other, each reading at a later
  time, while it may be changing; \<open>cmostime\<close> is shown to return a date that the clock had.
\<close>

unbundle bit_operations_syntax

section \<open>Registers\<close>

definition ID :: nat where "ID = 0x0020 div 4"
definition VER :: nat where "VER = 0x0030 div 4"
definition TPR :: nat where "TPR = 0x0080 div 4"
definition EOI :: nat where "EOI = 0x00B0 div 4"
definition SVR :: nat where "SVR = 0x00F0 div 4"
definition ENABLE :: "32 word" where "ENABLE = 0x00000100"
definition ESR :: nat where "ESR = 0x0280 div 4"
definition ICRLO :: nat where "ICRLO = 0x0300 div 4"
definition INIT :: "32 word" where "INIT = 0x00000500"
definition STARTUP :: "32 word" where "STARTUP = 0x00000600"
definition ASSERT :: "32 word" where "ASSERT = 0x00004000"
definition LEVEL :: "32 word" where "LEVEL = 0x00008000"
definition BCAST :: "32 word" where "BCAST = 0x00080000"
definition ICRHI :: nat where "ICRHI = 0x0310 div 4"
definition TIMER :: nat where "TIMER = 0x0320 div 4"
definition X1 :: "32 word" where "X1 = 0x0000000B"
definition PERIODIC :: "32 word" where "PERIODIC = 0x00020000"
definition PCINT :: nat where "PCINT = 0x0340 div 4"
definition LINT0 :: nat where "LINT0 = 0x0350 div 4"
definition LINT1 :: nat where "LINT1 = 0x0360 div 4"
definition ERROR :: nat where "ERROR = 0x0370 div 4"
definition MASKED :: "32 word" where "MASKED = 0x00010000"
definition TICR :: nat where "TICR = 0x0380 div 4"
definition TDCR :: nat where "TDCR = 0x03E0 div 4"

definition IRQ_TIMER :: nat where "IRQ_TIMER = 0"
definition IRQ_ERROR :: nat where "IRQ_ERROR = 19"
definition IRQ_SPURIOUS :: nat where "IRQ_SPURIOUS = 31"

section \<open>The interrupt controller\<close>

definition lapicw :: "nat \<Rightarrow> 32 word \<Rightarrow> hw \<Rightarrow> hw" where
  "lapicw index v h = h\<lparr>trace := trace h @ [Lapic index v]\<rparr>"

definition lapicws :: "(nat \<times> 32 word) list \<Rightarrow> hw \<Rightarrow> hw" where
  "lapicws ws h = fold (\<lambda>(r, v). lapicw r v) ws h"

text \<open>\<open>regs\<close> is what a register reads.  The wait for the delivery of the last command is left out.\<close>

definition lapicinit :: "(nat \<Rightarrow> 32 word) \<Rightarrow> hw \<Rightarrow> hw" where
  "lapicinit regs h =
     (if \<not> has_lapic h then h
      else
        (let h = lapicws [(SVR, ENABLE OR word_of_nat (T_IRQ0 + IRQ_SPURIOUS)), (TDCR, X1),
                          (TIMER, PERIODIC OR word_of_nat (T_IRQ0 + IRQ_TIMER)), (TICR, 10000000),
                          (LINT0, MASKED), (LINT1, MASKED)] h;
             h = (if drop_bit 16 (regs VER) AND 0xFF \<ge> 4 then lapicw PCINT MASKED h else h) in
         lapicws [(ERROR, word_of_nat (T_IRQ0 + IRQ_ERROR)), (ESR, 0), (ESR, 0), (EOI, 0),
                  (ICRHI, 0), (ICRLO, (BCAST OR INIT) OR LEVEL), (TPR, 0)] h))"

text \<open>The warning of \<open>cpunum\<close> when interrupts are on is left out.\<close>

definition cpunum :: "(nat \<Rightarrow> 32 word) \<Rightarrow> hw \<Rightarrow> nat" where
  "cpunum regs h = (if has_lapic h then unat (drop_bit 24 (regs ID)) else 0)"

definition lapiceoi :: "hw \<Rightarrow> hw" where
  "lapiceoi h = (if has_lapic h then lapicw EOI 0 h else h)"

definition CMOS_PORT :: nat where "CMOS_PORT = 0x70"

text \<open>Starting another processor at a physical address: the shutdown code in CMOS, the reset vector
  in memory (the address \<open>P2V (0x40 << 4 | 0x67)\<close>), and the interrupts.\<close>

definition WARM_RESET :: nat where "WARM_RESET = 0x80000000 + 0x467"

definition lapicstartap :: "byte \<Rightarrow> 32 word \<Rightarrow> hw \<times> memory \<Rightarrow> hw \<times> memory" where
  "lapicstartap apicid addr s =
     (case s of (h, m) \<Rightarrow>
      let hi = push_bit 24 (ucast apicid); start = STARTUP OR drop_bit 12 addr in
      (lapicws [(ICRHI, hi), (ICRLO, (INIT OR LEVEL) OR ASSERT), (ICRLO, INIT OR LEVEL),
                (ICRHI, hi), (ICRLO, start), (ICRHI, hi), (ICRLO, start)]
         (outs [(CMOS_PORT, 0xF), (CMOS_PORT + 1, 0x0A)] h),
       store m WARM_RESET (enc_le 2 0 @ enc_le 2 (unat (drop_bit 4 addr) mod 2 ^ 16))))"

section \<open>The clock\<close>

definition CMOS_STATA :: nat where "CMOS_STATA = 0x0a"
definition CMOS_STATB :: nat where "CMOS_STATB = 0x0b"
definition CMOS_UIP :: nat where "CMOS_UIP = push_bit 7 1"
definition SECS :: nat where "SECS = 0x00"
definition MINS :: nat where "MINS = 0x02"
definition HOURS :: nat where "HOURS = 0x04"
definition DAY :: nat where "DAY = 0x07"
definition MONTH :: nat where "MONTH = 0x08"
definition YEAR :: nat where "YEAR = 0x09"

record rtcdate =
  second :: nat
  minute :: nat
  hour :: nat
  day :: nat
  month :: nat
  year :: nat

text \<open>The clock device: \<open>dev n reg\<close> is what the \<open>n\<close>-th reading gives when it is of register \<open>reg\<close>.\<close>

type_synonym rtc = "nat \<Rightarrow> nat \<Rightarrow> byte"

definition cmos_read :: "rtc \<Rightarrow> nat \<Rightarrow> nat \<times> hw \<Rightarrow> nat \<times> nat \<times> hw" where
  "cmos_read dev reg = (\<lambda>(n, h). (unat (dev n reg), Suc n, outb CMOS_PORT (word_of_nat reg) h))"

definition fill_rtcdate :: "rtc \<Rightarrow> nat \<times> hw \<Rightarrow> rtcdate \<times> nat \<times> hw" where
  "fill_rtcdate dev s =
     (let (secs, s) = cmos_read dev SECS s;
          (mins, s) = cmos_read dev MINS s;
          (hrs, s) = cmos_read dev HOURS s;
          (dy, s) = cmos_read dev DAY s;
          (mon, s) = cmos_read dev MONTH s;
          (yr, s) = cmos_read dev YEAR s in
      (\<lparr>second = secs, minute = mins, hour = hrs, day = dy, month = mon, year = yr\<rparr>, s))"

text \<open>One round of the loop of \<open>cmostime\<close>; \<open>None\<close> is another round.\<close>

definition cmos_round :: "rtc \<Rightarrow> nat \<times> hw \<Rightarrow> rtcdate option \<times> nat \<times> hw" where
  "cmos_round dev s =
     (let (t1, s) = fill_rtcdate dev s;
          (a, s) = cmos_read dev CMOS_STATA s in
      if a AND CMOS_UIP \<noteq> 0 then (None, s)
      else (let (t2, s) = fill_rtcdate dev s in (if t1 = t2 then Some t1 else None, s)))"

partial_function (option) cmos_loop :: "rtc \<Rightarrow> nat \<times> hw \<Rightarrow> (rtcdate \<times> nat \<times> hw) option" where
  "cmos_loop dev s =
     (case fst (cmos_round dev s) of
        Some t \<Rightarrow> Some (t, snd (cmos_round dev s))
      | None \<Rightarrow> cmos_loop dev (snd (cmos_round dev s)))"

definition CONV :: "nat \<Rightarrow> nat" where
  "CONV x = (x div 16) * 10 + x mod 16"

definition cmostime :: "rtc \<Rightarrow> nat \<times> hw \<Rightarrow> (rtcdate \<times> nat \<times> hw) option" where
  "cmostime dev s =
     (let (sb, s) = cmos_read dev CMOS_STATB s in
      map_option (\<lambda>(t, s).
        let t = (if bit sb 2 then t
                 else \<lparr>second = CONV (second t), minute = CONV (minute t), hour = CONV (hour t),
                       day = CONV (day t), month = CONV (month t), year = CONV (year t)\<rparr>) in
        (t\<lparr>year := year t + 2000\<rparr>, s)) (cmos_loop dev s))"

section \<open>What the clock shows\<close>

text \<open>A field in binary or as two decimal digits, and a date of six fields of two digits.\<close>

definition rtc_field :: "bool \<Rightarrow> nat \<Rightarrow> nat" where
  "rtc_field bin x = (if bin then x else x div 10 * 16 + x mod 10)"

definition rtc_date :: "bool \<Rightarrow> rtcdate \<Rightarrow> rtcdate" where
  "rtc_date bin d = \<lparr>second = rtc_field bin (second d), minute = rtc_field bin (minute d), hour = rtc_field bin (hour d),
     day = rtc_field bin (day d), month = rtc_field bin (month d), year = rtc_field bin (year d)\<rparr>"

definition two_digits :: "rtcdate \<Rightarrow> bool" where
  "two_digits d \<longleftrightarrow> second d < 100 \<and> minute d < 100 \<and> hour d < 100 \<and> day d < 100 \<and> month d < 100 \<and> year d < 100"

definition rtc_shows :: "rtc \<Rightarrow> bool \<Rightarrow> nat \<Rightarrow> rtcdate \<Rightarrow> bool" where
  "rtc_shows dev bin n d \<longleftrightarrow>
     dev n SECS = word_of_nat (rtc_field bin (second d)) \<and> dev n MINS = word_of_nat (rtc_field bin (minute d)) \<and>
     dev n HOURS = word_of_nat (rtc_field bin (hour d)) \<and> dev n DAY = word_of_nat (rtc_field bin (day d)) \<and>
     dev n MONTH = word_of_nat (rtc_field bin (month d)) \<and> dev n YEAR = word_of_nat (rtc_field bin (year d))"

text \<open>What the data sheet of the clock promises: when no update is in progress the registers keep the date
  for a while, which is long enough for six readings.  Nothing is known of what is read during an update.\<close>

definition rtc_ok :: "rtc \<Rightarrow> bool \<Rightarrow> (nat \<Rightarrow> rtcdate) \<Rightarrow> bool" where
  "rtc_ok dev bin date \<longleftrightarrow>
     (\<forall>n. bit (dev n CMOS_STATB) 2 = bin \<and> two_digits (date n) \<and>
        (\<not> bit (dev n CMOS_STATA) 7 \<longrightarrow> (\<forall>i. n < i \<and> i \<le> n + 6 \<longrightarrow> rtc_shows dev bin i (date n))))"

lemma rtc_field_less: "x < 100 \<Longrightarrow> rtc_field bin x < 256"
  by (auto simp: rtc_field_def)

lemma rtc_field_conv: "x < 100 \<Longrightarrow> (if bin then rtc_field bin x else CONV (rtc_field bin x)) = x"
  by (auto simp: rtc_field_def CONV_def)

lemma unat_rtc_field: "x < 100 \<Longrightarrow> unat (word_of_nat (rtc_field bin x) :: byte) = rtc_field bin x"
  using rtc_field_less [of x bin] by (simp add: unat_of_nat)

lemma uip_bit: "(unat (w :: byte) AND CMOS_UIP \<noteq> 0) = bit w 7"
  using and_exp_eq_0_iff_not_bit [of "unat w" 7] by (simp add: CMOS_UIP_def push_bit_eq_mult bit_simps)

lemma fill_steps: "\<exists>d h'. fill_rtcdate dev (n, h) = (d, n + 6, h')"
  by (simp add: fill_rtcdate_def cmos_read_def)

lemma fill_shows:
  assumes "\<And>i. n \<le> i \<Longrightarrow> i < n + 6 \<Longrightarrow> rtc_shows dev bin i d" "two_digits d"
  shows "fst (fill_rtcdate dev (n, h)) = rtc_date bin d"
  using assms(2) assms(1) [of "n"] assms(1) [of "Suc (n)"] assms(1) [of "Suc (Suc (n))"] assms(1) [of "Suc (Suc (Suc (n)))"] assms(1) [of "Suc (Suc (Suc (Suc (n))))"] assms(1) [of "Suc (Suc (Suc (Suc (Suc (n)))))"]
  by (simp add: fill_rtcdate_def cmos_read_def rtc_shows_def rtc_date_def two_digits_def unat_rtc_field)

lemma round_date:
  assumes "rtc_ok dev bin date" "cmos_round dev (n, h) = (r, n', h')"
  shows "n < n' \<and> n' \<le> n + 13 \<and> (\<forall>t. r = Some t \<longrightarrow> (\<exists>k. n \<le> k \<and> k < n' \<and> t = rtc_date bin (date k)))"
proof -
  obtain t1 h1 where f: "fill_rtcdate dev (n, h) = (t1, n + 6, h1)" using fill_steps by blast
  obtain t2 h2 where g: "fill_rtcdate dev (Suc (n + 6), outb CMOS_PORT (word_of_nat CMOS_STATA) h1) = (t2, Suc (n + 6) + 6, h2)"
    using fill_steps by blast
  note r = assms(2) [unfolded cmos_round_def f Let_def prod.case cmos_read_def g uip_bit]
  show ?thesis
  proof (cases "bit (dev (n + 6) CMOS_STATA) 7")
    case True
    with r show ?thesis by auto
  next
    case False
    have "rtc_shows dev bin i (date (n + 6))" if "Suc (n + 6) \<le> i" "i < Suc (n + 6) + 6" for i
      using assms(1) False that unfolding rtc_ok_def by simp
    then have "t2 = rtc_date bin (date (n + 6))"
      using fill_shows [of "Suc (n + 6)" dev bin "date (n + 6)" "outb CMOS_PORT (word_of_nat CMOS_STATA) h1"] g assms(1)
      by (simp add: rtc_ok_def)
    with r False show ?thesis by (auto split: if_splits intro: exI [of _ "n + 6"])
  qed
qed

text \<open>A round in a quiet time of the clock returns.\<close>

lemma round_quiet:
  assumes ok: "rtc_ok dev bin date" and "T < n" "n \<le> T + 13"
    and quiet: "\<forall>i < 26. \<not> bit (dev (T + i) CMOS_STATA) 7 \<and> date (T + i) = date T"
  shows "fst (cmos_round dev (n, h)) \<noteq> None"
proof -
  have shows_T: "rtc_shows dev bin i (date T)" if "T < i" "i \<le> T + 26" for i
  proof -
    have "\<not> bit (dev (i - 1) CMOS_STATA) 7 \<and> date (i - 1) = date T"
      using quiet [rule_format, of "i - 1 - T"] that by simp
    moreover have "i - 1 < i \<and> i \<le> i - 1 + 6" using that by simp
    ultimately show ?thesis using ok unfolding rtc_ok_def by metis
  qed
  have d: "two_digits (date T)" using ok by (simp add: rtc_ok_def)
  have q: "\<not> bit (dev (n + 6) CMOS_STATA) 7" using quiet [rule_format, of "n + 6 - T"] assms(2,3) by simp
  obtain t1 h1 where f: "fill_rtcdate dev (n, h) = (t1, n + 6, h1)" using fill_steps by blast
  obtain t2 h2 where g: "fill_rtcdate dev (Suc (n + 6), outb CMOS_PORT (word_of_nat CMOS_STATA) h1) = (t2, Suc (n + 6) + 6, h2)"
    using fill_steps by blast
  have "t1 = rtc_date bin (date T)" using fill_shows [OF shows_T d, of n h] f assms(2,3) by simp
  moreover have "t2 = rtc_date bin (date T)"
    using fill_shows [OF shows_T d, of "Suc (n + 6)" "outb CMOS_PORT (word_of_nat CMOS_STATA) h1"] g assms(2,3) by simp
  ultimately show ?thesis unfolding cmos_round_def f Let_def prod.case cmos_read_def g uip_bit using q by simp
qed

lemma cmos_loop_date:
  assumes ok: "rtc_ok dev bin date"
    and quiet: "\<forall>i < 26. \<not> bit (dev (T + i) CMOS_STATA) 7 \<and> date (T + i) = date T"
  shows "n \<le> T + 13 \<Longrightarrow> \<exists>k n' h'. cmos_loop dev (n, h) = Some (rtc_date bin (date k), n', h') \<and> n \<le> k \<and> k < n' \<and> n' \<le> T + 26"
proof (induction "T + 14 - n" arbitrary: n h rule: less_induct)
  case less
  obtain r n' h' where c: "cmos_round dev (n, h) = (r, n', h')" using prod_cases3 by blast
  note d = round_date [OF ok c]
  show ?case
  proof (cases r)
    case None
    then have "n \<le> T" using round_quiet [OF ok _ less.prems quiet, of h] c by (cases "T < n") auto
    moreover from this have "n' \<le> T + 13" "T + 14 - n' < T + 14 - n" using d by auto
    ultimately obtain k n'' h'' where "cmos_loop dev (n', h') = Some (rtc_date bin (date k), n'', h'')" "n' \<le> k" "k < n''" "n'' \<le> T + 26"
      using less.hyps [of n' h'] by blast
    then show ?thesis using c None d by (subst cmos_loop.simps) (auto intro!: exI [of _ k])
  next
    case (Some t)
    then show ?thesis using c d less.prems by (subst cmos_loop.simps) auto
  qed
qed

lemma conv_date:
  assumes "two_digits d"
  shows "(let t = rtc_date bin d in if bin then t
     else \<lparr>second = CONV (second t), minute = CONV (minute t), hour = CONV (hour t),
           day = CONV (day t), month = CONV (month t), year = CONV (year t)\<rparr>) = d"
  using assms rtc_field_conv [of _ bin] by (cases d) (auto simp: two_digits_def rtc_date_def Let_def)

text \<open>C38: \<open>cmostime\<close> returns a date that the clock had while it was being read, whatever the readings give
  while the clock is updated: it ends as soon as the clock is quiet for 26 readings, and the date is
  right for a clock in binary and in decimal digits.\<close>

theorem cmostime_date:
  assumes "rtc_ok dev bin date" "\<forall>i < 26. \<not> bit (dev (T + i) CMOS_STATA) 7 \<and> date (T + i) = date T" "n \<le> T"
  shows "\<exists>k n' h'. cmostime dev (n, h) = Some ((date k)\<lparr>year := year (date k) + 2000\<rparr>, n', h') \<and> n < k \<and> k < n' \<and> n' \<le> T + 26"
proof -
  obtain k n' h' where r: "cmos_loop dev (Suc n, outb CMOS_PORT (word_of_nat CMOS_STATB) h) = Some (rtc_date bin (date k), n', h')"
    "Suc n \<le> k" "k < n'" "n' \<le> T + 26" 
    using cmos_loop_date [OF assms(1,2), of "Suc n" "outb CMOS_PORT (word_of_nat CMOS_STATB) h"] assms(3) by auto
  have b: "bit (dev n CMOS_STATB) 2 = bin" "two_digits (date k)" using assms(1) by (simp_all add: rtc_ok_def)
  have "cmostime dev (n, h) = Some ((date k)\<lparr>year := year (date k) + 2000\<rparr>, n', h')"
    using conv_date [OF b(2), of bin] b(1) by (simp add: cmostime_def cmos_read_def r(1) bit_simps Let_def)
  with r(2-4) show ?thesis by auto
qed

text \<open>A clock in decimal digits that is updated during the first ten readings.\<close>

definition demo_rtc :: rtc where
  "demo_rtc n reg =
     (if reg = CMOS_STATB then 2 else if reg = CMOS_STATA then (if n < 10 then 0x80 else 0x26)
      else if n \<le> 10 then 0xFF
      else if reg = SECS then 0x59 else if reg = MINS then 0x07 else if reg = HOURS then 0x23 else if reg = DAY then 0x31
      else if reg = MONTH then 0x12 else 0x16)"

definition demo_date :: rtcdate where
  "demo_date = \<lparr>second = 59, minute = 7, hour = 23, day = 31, month = 12, year = 16\<rparr>"

theorem cmostime_date_witness:
  "\<exists>n' h'. cmostime demo_rtc (0, hw0) = Some (\<lparr>second = 59, minute = 7, hour = 23, day = 31, month = 12, year = 2016\<rparr>, n', h')"
proof -
  note regs = CMOS_STATA_def CMOS_STATB_def SECS_def MINS_def HOURS_def DAY_def MONTH_def YEAR_def
  have "rtc_ok demo_rtc False (\<lambda>n. demo_date)"
    by (simp add: rtc_ok_def demo_rtc_def demo_date_def two_digits_def rtc_shows_def rtc_field_def regs)
  moreover have "\<forall>i < 26. \<not> bit (demo_rtc (10 + i) CMOS_STATA) 7 \<and> demo_date = demo_date"
    by (simp add: demo_rtc_def regs)
  ultimately show ?thesis using cmostime_date [of demo_rtc False "\<lambda>n. demo_date" 10 0 hw0] by (auto simp: demo_date_def)
qed

end
