(* ===== verification/Kmain.thy ===== *)
theory Kmain
  imports Trap ConsoleProps Gates Mp Lapic
begin

text \<open>
  \<open>main.c\<close>: what the first processor does from \<open>main\<close> to the scheduler, and how it starts the others.
  The parts are those of the other theories, over one state; what the linker and the hardware supply is
  in \<open>boot_env\<close>, \<open>comes_up\<close> saying which processors set their \<open>started\<close> flag.  Messages are left out, and
  so are \<open>pinit\<close>, \<open>fileinit\<close> and \<open>iinit\<close>, which only initialise a lock, and \<open>idtinit\<close>, which loads a register.
  \<open>launched\<close> records, for each processor that is started, the words \<open>entryother.S\<close> finds below its code:
  the stack, the routine to call and the page directory.
\<close>

unbundle bit_operations_syntax

record boot_env =
  b_end :: nat
  b_entryother :: "byte list"
  b_mpenter :: nat
  b_entrypgdir :: nat
  b_initcode :: "byte list"
  b_fs_img :: "byte list"
  b_vectors :: "nat \<Rightarrow> nat"
  b_cpunum :: nat
  b_cpu_base :: nat
  b_imcr :: byte
  b_lapic :: "nat \<Rightarrow> 32 word"
  b_ioapic_ver :: "32 word"
  b_uart_status :: byte
  comes_up :: "nat \<Rightarrow> bool"

record start_state = sys_state +
  dev :: hw
  mp :: mp_state
  gdt :: "segdesc list"
  idt :: "gatedesc list"
  launched :: "(nat \<times> nat \<times> nat \<times> nat) list"

definition hw_do :: "(hw \<Rightarrow> hw) \<Rightarrow> ('z start_state_scheme, unit) kmon" where
  "hw_do f = kmod (\<lambda>s. s\<lparr>dev := f (dev s)\<rparr>)"

section \<open>The boot page table\<close>

definition PTE_PS :: uint where "PTE_PS = 0x80"

definition entrypgdir :: "nat \<Rightarrow> uint" where
  "entrypgdir = (\<lambda>_. 0)(0 := 0 OR PTE_P OR PTE_W OR PTE_PS, unat (drop_bit 22 Mmu.KERNBASE) := 0 OR PTE_P OR PTE_W OR PTE_PS)"

section \<open>Starting the other processors\<close>

definition ENTRY_CODE :: nat where "ENTRY_CODE = KBASE + 0x7000"

definition start_cpu :: "boot_env \<Rightarrow> nat \<Rightarrow> ('z start_state_scheme, unit) kmon" where
  "start_cpu e c =
     kbind kalloc (\<lambda>stack.
     kbind (kmod (\<lambda>s. s\<lparr>mem := store32 (mem s) (ENTRY_CODE - 4) (stack + KSTACKSIZE)\<rparr>)) (\<lambda>_.
     kbind (kmod (\<lambda>s. s\<lparr>mem := store32 (mem s) (ENTRY_CODE - 8) (b_mpenter e)\<rparr>)) (\<lambda>_.
     kbind (kmod (\<lambda>s. s\<lparr>mem := store32 (mem s) (ENTRY_CODE - 12) (unat (v2p (word_of_nat (b_entrypgdir e))))\<rparr>)) (\<lambda>_.
     kbind (kmod (\<lambda>s. case lapicstartap (word_of_nat c) (v2p (word_of_nat ENTRY_CODE)) (dev s, mem s) of
         (h, m) \<Rightarrow> s\<lparr>dev := h, mem := m\<rparr>)) (\<lambda>_.
     kbind (kmod (\<lambda>s. s\<lparr>launched := launched s @
         [(c, load32 (mem s) (ENTRY_CODE - 4), load32 (mem s) (ENTRY_CODE - 8), load32 (mem s) (ENTRY_CODE - 12))]\<rparr>)) (\<lambda>_.
     if comes_up e c then ret () else kundef ''startothers: processor does not start''))))))"

definition startothers :: "boot_env \<Rightarrow> nat \<Rightarrow> ('z start_state_scheme, unit) kmon" where
  "startothers e ncpu =
     kbind (kmod (\<lambda>s. s\<lparr>mem := store (mem s) ENTRY_CODE (b_entryother e)\<rparr>)) (\<lambda>_.
     kfor [0..<ncpu] (\<lambda>c. if c = b_cpunum e then ret () else start_cpu e c))"

section \<open>main\<close>

text \<open>\<open>ideinit\<close> of \<open>memide.c\<close>.\<close>

definition ideinit :: "byte list \<Rightarrow> ('z bio_state_scheme, unit) kmon" where
  "ideinit fs_img = kmod (\<lambda>s. s\<lparr>memdisk := (\<lambda>n. subrange (n * 512) 512 fs_img), disksize := length fs_img div 512\<rparr>)"

definition run_mpinit :: "boot_env \<Rightarrow> ('z start_state_scheme, unit) kmon" where
  "run_mpinit e = kbind (kget (\<lambda>s. mpinit (mem s) (b_imcr e))) (\<lambda>r. case r of
     None \<Rightarrow> kundef ''mpinit''
   | Some (st, ps) \<Rightarrow> kmod (\<lambda>s. s\<lparr>mp := st,
       dev := (outs ps (dev s))\<lparr>ismp := mp_ismp st, has_lapic := mp_lapic st \<noteq> 0, ioapicid := mp_ioapicid st\<rparr>\<rparr>))"

definition mpmain :: "('z start_state_scheme, nat option) kmon" where
  "mpmain = scheduler_start"

definition mpenter :: "boot_env \<Rightarrow> ('z start_state_scheme, nat option) kmon" where
  "mpenter e =
     kbind switchkvm (\<lambda>_.
     kbind (kmod (\<lambda>s. s\<lparr>gdt := seginit (b_cpu_base e) (gdt s)\<rparr>)) (\<lambda>_.
     kbind (hw_do (lapicinit (b_lapic e))) (\<lambda>_. mpmain)))"

definition kmain :: "boot_env \<Rightarrow> ('z start_state_scheme) devsw \<Rightarrow> ('z start_state_scheme, nat option) kmon" where
  "kmain e dsw =
     kbind (kinit1 (b_end e) (KBASE + 4 * 1024 * 1024)) (\<lambda>_.
     kbind kvmalloc (\<lambda>_.
     kbind (run_mpinit e) (\<lambda>_.
     kbind (hw_do (lapicinit (b_lapic e))) (\<lambda>_.
     kbind (kmod (\<lambda>s. s\<lparr>gdt := seginit (b_cpu_base e) (gdt s)\<rparr>)) (\<lambda>_.
     kbind (hw_do picinit) (\<lambda>_.
     kbind (hw_do (ioapicinit (b_ioapic_ver e))) (\<lambda>_.
     kbind (kmod (\<lambda>s. s\<lparr>cons_locking := True\<rparr>)) (\<lambda>_.
     kbind (hw_do (\<lambda>h. ioapicenable 1 0 (picenable 1 h))) (\<lambda>_.
     kbind (hw_do (uartinit (b_uart_status e))) (\<lambda>_.
     kbind (kmod (\<lambda>s. s\<lparr>uart_present := uart (dev s)\<rparr>)) (\<lambda>_.
     kbind (kmod (\<lambda>s. s\<lparr>idt := tvinit (b_vectors e)\<rparr>)) (\<lambda>_.
     kbind binit (\<lambda>_.
     kbind (ideinit (b_fs_img e)) (\<lambda>_.
     kbind (kget (\<lambda>s. ismp (dev s))) (\<lambda>multi.
     kbind (kwhen (\<not> multi) (hw_do timerinit)) (\<lambda>_.
     kbind (kget (\<lambda>s. mp_ncpu (mp s))) (\<lambda>ncpu.
     kbind (startothers e ncpu) (\<lambda>_.
     kbind (kinit2 (KBASE + 4 * 1024 * 1024) (KBASE + PHYS_TOP)) (\<lambda>_.
     kbind (userinit (b_initcode e) (consoleinit dsw)) (\<lambda>_.
     mpmain))))))))))))))))))))"

section \<open>Facts\<close>

text \<open>Address translation by a page directory of 4 Mbyte pages.\<close>

definition big_page :: "(nat \<Rightarrow> uint) \<Rightarrow> nat \<Rightarrow> nat option" where
  "big_page pd va =
     (let e = pd (va div 2 ^ 22) in
      if e AND PTE_P \<noteq> 0 \<and> e AND PTE_PS \<noteq> 0 then Some (unat e div 2 ^ 22 * 2 ^ 22 + va mod 2 ^ 22) else None)"

lemma entrypgdir_maps:
  assumes "a < 4 * 1024 * 1024"
  shows "big_page entrypgdir a = Some a" "big_page entrypgdir (KBASE + a) = Some a"
proof -
  have "(KBASE + a) mod 2 ^ 22 = (a + 512 * 2 ^ 22) mod 2 ^ 22" by (simp add: add.commute)
  also have "\<dots> = a" unfolding mod_mult_self1 using assms by simp
  finally have d: "a div 2 ^ 22 = 0" "(KBASE + a) div 2 ^ 22 = 512" "(KBASE + a) mod 2 ^ 22 = a" "a mod 2 ^ 22 = a" using assms by simp_all
  have i: "unat (drop_bit 22 Mmu.KERNBASE) = 512" by (simp add: Mmu.KERNBASE_def)
  have e: "entrypgdir 0 = 0x83" "entrypgdir 512 = 0x83"
    unfolding entrypgdir_def i by (simp_all add: PTE_P_def PTE_W_def PTE_PS_def)
  have p: "(0x83 :: uint) AND PTE_P = 1" "(0x83 :: uint) AND PTE_PS = 0x80" by (simp_all add: PTE_P_def PTE_PS_def)
  show "big_page entrypgdir a = Some a" "big_page entrypgdir (KBASE + a) = Some a"
    unfolding big_page_def d e Let_def p by simp_all
qed

lemma kmem_ready_below:
  assumes k: "kmem_ready s xs" and m: "\<And>a. kend s \<le> a \<Longrightarrow> m a = mem s a"
  shows "kmem_ready (s\<lparr>mem := m\<rparr>) xs"
proof -
  have "load32 m x = load32 (mem s) x" if "x \<in> set xs" for x
  proof -
    have "kend s \<le> x" using k that by (simp add: kmem_ready_def free_pages_def page_ok_def)
    then show ?thesis unfolding load32_def by (intro arg_cong [where f = dec_le] load_cong m) simp
  qed
  then have "chain m (freelist s) xs" using chain_cong [of xs m "mem s"] k by (simp add: kmem_ready_def free_pages_def)
  then show ?thesis using k by (simp add: kmem_ready_def free_pages_def page_ok_def)
qed

lemma kmem_ready_cong:
  fixes s :: "'z start_state_scheme"
  shows "kmem_ready (s\<lparr>dev := h\<rparr>) xs = kmem_ready s xs" "kmem_ready (s\<lparr>launched := l\<rparr>) xs = kmem_ready s xs"
  by (simp_all add: kmem_ready_def free_pages_def page_ok_def)

lemma store_below: "a + length bs \<le> k \<Longrightarrow> k \<le> x \<Longrightarrow> store m a bs x = m x"
  by (simp add: store_def)

lemma kalloc_fields:
  assumes "kalloc s = Ok v t"
  shows "t = s\<lparr>freelist := freelist t\<rparr>"
  using assms by (auto simp: kalloc_def kwhen_def acquire_def release_def kbind_eq_Ok split: if_splits)

lemma start_cpu_runs:
  fixes s :: "'z start_state_scheme"
  assumes k: "kmem_ready s (x # xs)" and e: "ENTRY_CODE \<le> kend s" "comes_up e c" "b_mpenter e < 2 ^ 32" "KBASE \<le> b_entrypgdir e" "b_entrypgdir e < 2 ^ 32"
  shows "\<exists>t. start_cpu e c s = Ok () t \<and> kmem_ready t xs \<and> kend t = kend s \<and>
    launched t = launched s @ [(c, x + KSTACKSIZE, b_mpenter e, b_entrypgdir e - KBASE)]"
proof -
  obtain a where a: "kalloc s = Ok x a" "kmem_ready a xs" using kmem.alloc_page [OF k] by blast
  note A = kalloc_fields [OF a(1)]
  have ke: "kend a = kend s" "launched a = launched s" by (subst A, simp)+
  have x: "x + KSTACKSIZE < 2 ^ 32" using k by (simp add: kmem_ready_def free_pages_def page_ok_def KSTACKSIZE_def)
  have pg: "unat (v2p (word_of_nat (b_entrypgdir e))) = b_entrypgdir e - KBASE"
  proof -
    have "unat (word_of_nat (b_entrypgdir e) :: uint) = b_entrypgdir e" using e(5) by (simp add: unat_of_nat)
    then show ?thesis using e(4) by (simp add: v2p_def unat_sub word_le_nat_alt Mmu.KERNBASE_def)
  qed
  let ?m = "store32 (store32 (store32 (mem a) (ENTRY_CODE - 4) (x + KSTACKSIZE)) (ENTRY_CODE - 8) (b_mpenter e))
    (ENTRY_CODE - 12) (b_entrypgdir e - KBASE)"
  obtain h m where hm: "lapicstartap (word_of_nat c) (v2p (word_of_nat ENTRY_CODE)) (dev a, ?m) = (h, m)" by (cases "lapicstartap (word_of_nat c) (v2p (word_of_nat ENTRY_CODE)) (dev a, ?m)")
  then obtain bs where m: "m = store ?m WARM_RESET bs" "length bs = 4" by (auto simp: lapicstartap_def Let_def)
  have l: "load32 m (ENTRY_CODE - 4) = x + KSTACKSIZE" "load32 m (ENTRY_CODE - 8) = b_mpenter e"
    "load32 m (ENTRY_CODE - 12) = b_entrypgdir e - KBASE"
    using x e(3,5) m(2) unfolding m(1) load32_def store32_def
    by (simp_all add: ENTRY_CODE_def WARM_RESET_def load_store_other load_store_same dec_enc_le)
  have mb: "m y = mem a y" if "kend a \<le> y" for y
    using that e(1) ke(1) m by (simp add: store32_def store_def ENTRY_CODE_def WARM_RESET_def)
  let ?t = "((a\<lparr>mem := m\<rparr>)\<lparr>dev := h\<rparr>)\<lparr>launched := launched s @ [(c, x + KSTACKSIZE, b_mpenter e, b_entrypgdir e - KBASE)]\<rparr>"
  have "start_cpu e c s = Ok () ?t"
    using a(1) hm e(2) l ke by (simp add: start_cpu_def kbind_Ok pg ret_def)
  moreover have "kmem_ready ?t xs" unfolding kmem_ready_cong by (rule kmem_ready_below [OF a(2) mb])
  ultimately show ?thesis using ke by (intro exI [of _ ?t]) simp
qed

lemma startothers_loop:
  fixes s :: "'z start_state_scheme"
  assumes e: "b_mpenter e < 2 ^ 32" "KBASE \<le> b_entrypgdir e" "b_entrypgdir e < 2 ^ 32"
  shows "kmem_ready s xs \<Longrightarrow> ENTRY_CODE \<le> kend s \<Longrightarrow> \<forall>c \<in> set cs. c \<noteq> b_cpunum e \<longrightarrow> comes_up e c \<Longrightarrow>
    length (filter (\<lambda>c. c \<noteq> b_cpunum e) cs) \<le> length xs \<Longrightarrow>
    \<exists>t. kfor cs (\<lambda>c. if c = b_cpunum e then ret () else start_cpu e c) s = Ok () t \<and>
      kmem_ready t (drop (length (filter (\<lambda>c. c \<noteq> b_cpunum e) cs)) xs) \<and>
      launched t = launched s @ map (\<lambda>(c, x). (c, x + KSTACKSIZE, b_mpenter e, b_entrypgdir e - KBASE))
        (zip (filter (\<lambda>c. c \<noteq> b_cpunum e) cs) xs)"
proof (induction cs arbitrary: s xs)
  case Nil
  then show ?case by (simp add: ret_def)
next
  case (Cons c cs)
  show ?case
  proof (cases "c = b_cpunum e")
    case True
    then show ?thesis using Cons.IH [OF Cons.prems(1,2)] Cons.prems(3,4) by (simp add: kseq_def kbind_def ret_def)
  next
    case False
    then obtain x ys where xs: "xs = x # ys" using Cons.prems(4) by (cases xs) auto
    obtain a where a: "start_cpu e c s = Ok () a" "kmem_ready a ys" "kend a = kend s"
        "launched a = launched s @ [(c, x + KSTACKSIZE, b_mpenter e, b_entrypgdir e - KBASE)]"
      using start_cpu_runs [OF Cons.prems(1) [unfolded xs] Cons.prems(2) _ e, of c] Cons.prems(3) False by auto
    obtain t where "kfor cs (\<lambda>c. if c = b_cpunum e then ret () else start_cpu e c) a = Ok () t"
        "kmem_ready t (drop (length (filter (\<lambda>c. c \<noteq> b_cpunum e) cs)) ys)"
        "launched t = launched a @ map (\<lambda>(c, x). (c, x + KSTACKSIZE, b_mpenter e, b_entrypgdir e - KBASE))
          (zip (filter (\<lambda>c. c \<noteq> b_cpunum e) cs) ys)"
      using Cons.IH [OF a(2)] a(3) Cons.prems(2,3,4) False xs by auto
    then show ?thesis using False a(1,4) by (intro exI [of _ t]) (simp add: kseq_Ok xs)
  qed
qed

lemma startothers_run:
  fixes s :: "'z start_state_scheme"
  assumes k: "kmem_ready s xs" and e: "ENTRY_CODE + length (b_entryother e) \<le> kend s" "b_mpenter e < 2 ^ 32" "KBASE \<le> b_entrypgdir e"
      "b_entrypgdir e < 2 ^ 32"
    and u: "\<forall>c < ncpu. c \<noteq> b_cpunum e \<longrightarrow> comes_up e c" and n: "length (filter (\<lambda>c. c \<noteq> b_cpunum e) [0..<ncpu]) \<le> length xs"
  shows "\<exists>t. startothers e ncpu s = Ok () t \<and> kmem_ready t (drop (length (filter (\<lambda>c. c \<noteq> b_cpunum e) [0..<ncpu])) xs) \<and>
    launched t = launched s @ map (\<lambda>(c, x). (c, x + KSTACKSIZE, b_mpenter e, b_entrypgdir e - KBASE))
      (zip (filter (\<lambda>c. c \<noteq> b_cpunum e) [0..<ncpu]) xs)"
proof -
  let ?s = "s\<lparr>mem := store (mem s) ENTRY_CODE (b_entryother e)\<rparr>"
  have "kmem_ready ?s xs" by (rule kmem_ready_below [OF k]) (rule store_below [OF e(1)])
  from startothers_loop [OF e(2-4) this, of "[0..<ncpu]"] show ?thesis
    using e(1) u n by (auto simp: startothers_def)
qed

section \<open>Property\<close>

text \<open>C40: \<open>startothers\<close> starts every other processor with a stack of its own.  While the allocator has only
  pages of the first four megabytes, as \<open>kinit1\<close> leaves it and before \<open>kinit2\<close> adds the others, and enough
  of them, and the processors come up: it returns, the processors have been started in order, each
  finding the top of a free page as its stack, \<open>mpenter\<close> and the physical address of the boot page
  table; the stacks are distinct and no longer free; and the boot page table, with which these processors
  run, maps each byte of a stack.\<close>

theorem startothers_stacks:
  fixes s :: "'z start_state_scheme"
  assumes "kmem_ready s xs" "\<forall>x \<in> set xs. x + PAGE \<le> KBASE + 4 * 1024 * 1024"
    and "ENTRY_CODE + length (b_entryother e) \<le> kend s" "b_mpenter e < 2 ^ 32" "KBASE \<le> b_entrypgdir e" "b_entrypgdir e < 2 ^ 32"
    and "\<forall>c < ncpu. c \<noteq> b_cpunum e \<longrightarrow> comes_up e c" "others = filter (\<lambda>c. c \<noteq> b_cpunum e) [0..<ncpu]" "length others \<le> length xs"
  shows "\<exists>t. startothers e ncpu s = Ok () t \<and> kmem_ready t (drop (length others) xs) \<and>
    launched t = launched s @ map (\<lambda>(c, x). (c, x + KSTACKSIZE, b_mpenter e, b_entrypgdir e - KBASE)) (zip others xs) \<and>
    distinct (take (length others) xs @ drop (length others) xs) \<and>
    (\<forall>x \<in> set (take (length others) xs). \<forall>a. x \<le> a \<and> a < x + KSTACKSIZE \<longrightarrow> big_page entrypgdir a = Some (a - KBASE))"
proof -
  obtain t where t: "startothers e ncpu s = Ok () t" "kmem_ready t (drop (length others) xs)"
    "launched t = launched s @ map (\<lambda>(c, x). (c, x + KSTACKSIZE, b_mpenter e, b_entrypgdir e - KBASE)) (zip others xs)"
    using startothers_run [OF assms(1,3-7)] assms(8,9) by blast
  have "distinct xs" and p: "\<And>x. x \<in> set xs \<Longrightarrow> KBASE \<le> x"
    using assms(1) by (auto simp: kmem_ready_def free_pages_def page_ok_def)
  moreover have "big_page entrypgdir a = Some (a - KBASE)"
    if x: "x \<in> set (take (length others) xs)" and a: "x \<le> a" "a < x + KSTACKSIZE" for x a
  proof -
    have "x \<in> set xs" using x by (rule in_set_takeD)
    with assms(2) have b: "x + PAGE \<le> KBASE + 4 * 1024 * 1024" "KBASE \<le> x" using p by blast+
    then have "a - KBASE < 4 * 1024 * 1024" "KBASE + (a - KBASE) = a" using a by (simp_all add: KSTACKSIZE_def)
    then show ?thesis using entrypgdir_maps(2) [of "a - KBASE"] by (simp only:)
  qed
  ultimately show ?thesis using t by (intro exI [of _ t]) simp
qed

definition demo_start :: start_state where
  "demo_start = sys_state.extend (demo_console\<lparr>held := [], mem := (\<lambda>_. 0), freelist := KBASE + 0x300000, kend := KBASE + 0x200000\<rparr>)
     (start_state.fields hw0 mp_state0 [] [] [])"

definition demo_env :: boot_env where
  "demo_env = \<lparr>b_end = KBASE + 0x200000, b_entryother = replicate 100 0, b_mpenter = KBASE + 0x100500, b_entrypgdir = KBASE + 0x109000,
     b_initcode = [], b_fs_img = [], b_vectors = (\<lambda>_. 0), b_cpunum = 0, b_cpu_base = 0, b_imcr = 0, b_lapic = (\<lambda>_. 0),
     b_ioapic_ver = 0, b_uart_status = 0, comes_up = (\<lambda>_. True)\<rparr>"

theorem startothers_stacks_witness:
  "\<exists>t. startothers demo_env 2 demo_start = Ok () t \<and> launched t = [(1, KBASE + 0x301000, KBASE + 0x100500, 0x109000)] \<and>
     big_page entrypgdir (KBASE + 0x300ffc) = Some 0x300ffc"
proof -
  have f: "mem demo_start = (\<lambda>_. 0)" "freelist demo_start = KBASE + 0x300000" "kend demo_start = KBASE + 0x200000"
    "held demo_start = []" "launched demo_start = []"
    by (simp_all add: demo_start_def sys_state.defs start_state.defs)
  have "load32 (\<lambda>_. 0) a = 0" for a by (simp add: load32_def load_def ptr_def upt_rec)
  then have k: "kmem_ready demo_start [KBASE + 0x300000]"
    by (simp add: kmem_ready_def free_pages_def page_ok_def f)
  have e: "ENTRY_CODE + length (b_entryother demo_env) \<le> kend demo_start" "b_mpenter demo_env < 2 ^ 32" "KBASE \<le> b_entrypgdir demo_env"
    "b_entrypgdir demo_env < 2 ^ 32" "b_cpunum demo_env = 0" "\<forall>c < 2. c \<noteq> b_cpunum demo_env \<longrightarrow> comes_up demo_env c"
    by (simp_all add: demo_env_def f ENTRY_CODE_def)
  have o': "[1] = filter (\<lambda>c. c \<noteq> b_cpunum demo_env) [0..<2]" unfolding e(5) by (simp add: upt_rec)
  show ?thesis using startothers_stacks [OF k _ e(1-4) e(6) o'] e(5)
    by (force simp: f KSTACKSIZE_def demo_env_def)
qed

end
