(* ===== verification/Mkfs.thy ===== *)
theory Mkfs
  imports Fs
begin

text \<open>
  \<open>mkfs.c\<close>, the program of the build host that makes the first file system.  Its state is the image
  file, a list of sectors, and the three counters.  An \<open>exit(1)\<close> or a failed assertion is \<open>Panic\<close>; a
  read beyond the end of the image fails and a write there extends it.  The arguments are the names
  of the files with the chunks \<open>read\<close> delivers, or \<open>None\<close> for a file that cannot be opened.  The host
  is little-endian, so \<open>xshort\<close> and \<open>xint\<close> give back their argument (\<open>xint_id\<close>).

  The layout is that of \<open>fs.h\<close>, and the functions that read an image here are those of the kernel
  model (\<open>Fs\<close>), so the theorems state what the kernel will find on the disk.
\<close>

section \<open>The program\<close>

definition nlog :: nat where "nlog = LOGSIZE"
definition nblocks :: nat where "nblocks = 995 - LOGSIZE"
definition ninodes :: nat where "ninodes = 200"
definition fs_size :: nat where "fs_size = 1024"

definition xshort :: "nat \<Rightarrow> nat" where
  "xshort x = dec_le [word_of_nat x, word_of_nat (x div 2 ^ 8)]"

definition xint :: "nat \<Rightarrow> nat" where
  "xint x = dec_le [word_of_nat x, word_of_nat (x div 2 ^ 8), word_of_nat (x div 2 ^ 16), word_of_nat (x div 2 ^ 24)]"

record mk_state =
  img :: "block list"
  freeblock :: nat
  usedblocks :: nat
  freeinode :: nat

abbreviation zeroes :: block where "zeroes \<equiv> replicate BSIZE 0"

definition rsect :: "nat \<Rightarrow> (mk_state, block) kmon" where
  "rsect sec = kbind (kget img) (\<lambda>d. if sec < length d then ret (d ! sec) else kpanic ''read'')"

definition wsect :: "nat \<Rightarrow> block \<Rightarrow> (mk_state, unit) kmon" where
  "wsect sec b = kmod (\<lambda>s. s\<lparr>img := (let d = img s in
     if sec < length d then d[sec := b] else d @ replicate (sec - length d) zeroes @ [b])\<rparr>)"

definition i2b :: "nat \<Rightarrow> nat" where "i2b inum = inum div IPB + 2"

definition winode :: "nat \<Rightarrow> inode \<Rightarrow> (mk_state, unit) kmon" where
  "winode inum ip = kbind (rsect (i2b inum)) (\<lambda>buf. wsect (i2b inum) (put_dinode inum ip buf))"

text \<open>A \<open>struct dinode\<close> is an \<open>inode\<close> of which the fields that are only in memory are fixed.\<close>

definition dinode0 :: inode where
  "dinode0 = \<lparr>i_dev = 0, i_inum = 0, i_ref = 0, i_busy = False, i_valid = False, i_type = 0, i_major = 0,
     i_minor = 0, i_nlink = 0, i_size = 0, i_addrs = replicate (NDIRECT + 1) 0\<rparr>"

definition rinode :: "nat \<Rightarrow> (mk_state, inode) kmon" where
  "rinode inum = kbind (rsect (i2b inum)) (\<lambda>buf. ret (load_dinode inum buf dinode0))"

definition mk_ialloc :: "int \<Rightarrow> (mk_state, nat) kmon" where
  "mk_ialloc type =
     kbind (kget freeinode) (\<lambda>inum.
     kbind (kmod (\<lambda>s. s\<lparr>freeinode := inum + 1\<rparr>)) (\<lambda>_.
     kbind (winode inum (dinode0\<lparr>i_type := type, i_nlink := 1, i_size := xint 0\<rparr>)) (\<lambda>_.
     ret inum)))"

definition mk_balloc :: "nat \<Rightarrow> (mk_state, unit) kmon" where
  "mk_balloc used =
     (if \<not> used < 512 * 8 then kpanic ''balloc''
      else wsect (ninodes div IPB + 3) (fold bm_set [0..<used] zeroes))"

text \<open>\<open>freeblock++\<close> and \<open>usedblocks++\<close>.\<close>

definition next_block :: "(mk_state, nat) kmon" where
  "next_block =
     kbind (kget freeblock) (\<lambda>b.
     kbind (kmod (\<lambda>s. s\<lparr>freeblock := freeblock s + 1, usedblocks := usedblocks s + 1\<rparr>)) (\<lambda>_.
     ret b))"

text \<open>The block \<open>fbn\<close> of a file, allocated where there is none.\<close>

definition set_addr :: "nat \<Rightarrow> nat \<Rightarrow> inode \<Rightarrow> inode" where
  "set_addr k b din = din\<lparr>i_addrs := (i_addrs din)[k := xint b]\<rparr>"

definition file_block :: "inode \<Rightarrow> nat \<Rightarrow> (mk_state, inode \<times> nat) kmon" where
  "file_block din fbn =
     (if fbn < NDIRECT then
        kbind (if xint (i_addrs din ! fbn) = 0
               then kbind next_block (\<lambda>b. ret (set_addr fbn b din)) else ret din) (\<lambda>din.
        ret (din, xint (i_addrs din ! fbn)))
      else
        kbind (if xint (i_addrs din ! NDIRECT) = 0
               then kbind next_block (\<lambda>b. ret (set_addr NDIRECT b din)) else ret din) (\<lambda>din.
        kbind (rsect (xint (i_addrs din ! NDIRECT))) (\<lambda>indirect.
        kbind (if get_le 4 (4 * (fbn - NDIRECT)) indirect = 0
               then kbind next_block (\<lambda>b.
                    let indirect = put_le 4 (4 * (fbn - NDIRECT)) (xint b) indirect in
                    kbind (wsect (xint (i_addrs din ! NDIRECT)) indirect) (\<lambda>_. ret indirect))
               else ret indirect) (\<lambda>indirect.
        ret (din, xint (get_le 4 (4 * (fbn - NDIRECT)) indirect))))))"

function append_loop :: "inode \<Rightarrow> nat \<Rightarrow> byte list \<Rightarrow> (mk_state, inode \<times> nat) kmon" where
  "append_loop din off p =
     (if p = [] then ret (din, off)
      else let fbn = off div 512; n1 = min (length p) ((fbn + 1) * 512 - off) in
        if \<not> fbn < MAXFILE then kpanic ''iappend''
        else
          kbind (file_block din fbn) (\<lambda>(din, x).
          kbind (rsect x) (\<lambda>buf.
          kbind (wsect x (overlay (off - fbn * 512) (take n1 p) buf)) (\<lambda>_.
          append_loop din (off + n1) (drop n1 p)))))"
  by auto
termination
proof (relation "measure (\<lambda>(din, off, p). length p)", goal_cases)
  case (2 din off p fbn n1)
  have "off < (off div 512 + 1) * 512" by simp
  with 2 have "0 < n1" by (cases p) auto
  with 2(1) show ?case by (simp add: 2(3) Let_def)
qed simp

declare append_loop.simps [simp del]

definition iappend :: "nat \<Rightarrow> byte list \<Rightarrow> (mk_state, unit) kmon" where
  "iappend inum p =
     kbind (rinode inum) (\<lambda>din.
     kbind (append_loop din (xint (i_size din)) p) (\<lambda>(din, off).
     winode inum (din\<lparr>i_size := xint off\<rparr>)))"

type_synonym mk_file = "byte list \<times> byte list list option"

fun append_all :: "nat \<Rightarrow> byte list list \<Rightarrow> (mk_state, unit) kmon" where
  "append_all inum [] = ret ()"
| "append_all inum (c # cs) = kbind (iappend inum c) (\<lambda>_. append_all inum cs)"

definition underscore :: byte where "underscore = 95"

definition strip :: "byte list \<Rightarrow> byte list" where
  "strip nm = (if nm \<noteq> [] \<and> hd nm = underscore then tl nm else nm)"

fun mk_files :: "nat \<Rightarrow> mk_file list \<Rightarrow> (mk_state, unit) kmon" where
  "mk_files rootino [] = ret ()"
| "mk_files rootino ((nm, content) # fs) =
     (if slash \<in> set nm then kpanic ''index''
      else case content of None \<Rightarrow> kpanic ''open''
      | Some chunks \<Rightarrow>
          kbind (mk_ialloc T_FILE) (\<lambda>inum.
          kbind (iappend rootino (mk_dirent (strip nm) (xshort inum))) (\<lambda>_.
          kbind (append_all inum chunks) (\<lambda>_.
          mk_files rootino fs))))"

definition sb_block :: block where
  "sb_block = overlay 0 (concat (map (enc_le 4) [xint fs_size, xint nblocks, xint ninodes, xint nlog])) zeroes"

text \<open>\<open>main\<close>.\<close>

definition mkfs :: "mk_file list \<Rightarrow> (mk_state, unit) kmon" where
  "mkfs fs =
     (let bitblocks = fs_size div (512 * 8) + 1; used = ninodes div IPB + 3 + bitblocks in
      kbind (kmod (\<lambda>s. s\<lparr>freeblock := used, usedblocks := used\<rparr>)) (\<lambda>_.
      if nblocks + used + nlog \<noteq> fs_size then kpanic ''nblocks'' else
      kbind (kfor [0..<nblocks + used + nlog] (\<lambda>i. wsect i zeroes)) (\<lambda>_.
      kbind (wsect 1 sb_block) (\<lambda>_.
      kbind (mk_ialloc T_DIR) (\<lambda>rootino.
      if rootino \<noteq> ROOTINO then kpanic ''rootino'' else
      kbind (iappend rootino (mk_dirent [46] (xshort rootino))) (\<lambda>_.
      kbind (iappend rootino (mk_dirent [46, 46] (xshort rootino))) (\<lambda>_.
      kbind (mk_files rootino fs) (\<lambda>_.
      kbind (rinode rootino) (\<lambda>din.
      kbind (winode rootino (din\<lparr>i_size := xint ((xint (i_size din) div BSIZE + 1) * BSIZE)\<rparr>)) (\<lambda>_.
      kbind (kget usedblocks) (\<lambda>u.
      mk_balloc u)))))))))))"

definition mk_start :: mk_state where
  "mk_start = \<lparr>img = [], freeblock = 0, usedblocks = 0, freeinode = 1\<rparr>"

end
