(* ===== verification/MkfsBlocks.thy ===== *)
theory MkfsBlocks
  imports Mkfs
begin

text \<open>
  The blocks of the files \<open>mkfs\<close> writes: a file's blocks and its indirect block as \<open>slot\<close>s, the layouts in
  which no block is used twice, what \<open>file_block\<close> does to them, and the effect of the loop of \<open>iappend\<close>
  on the bytes of every file (\<open>append_loop_ok\<close>).
\<close>

section \<open>Facts: integers and sectors\<close>

lemma xint_id [simp]: "x < 2 ^ 32 \<Longrightarrow> xint x = x"
proof -
  have n: "(4::nat) = Suc (Suc (Suc (Suc 0)))" by simp
  have "enc_le 4 x = [word_of_nat x, word_of_nat (x div 256), word_of_nat (x div 256 div 256),
      word_of_nat (x div 256 div 256 div 256)]" by (simp only: n enc_le.simps)
  moreover have "x div 2 ^ 8 = x div 256" "x div 2 ^ 16 = x div 256 div 256" "x div 2 ^ 24 = x div 256 div 256 div 256"
    by (simp_all flip: div_mult2_eq)
  ultimately have "xint x = dec_le (enc_le 4 x)" by (simp only: xint_def)
  then show "x < 2 ^ 32 \<Longrightarrow> xint x = x" by (simp add: dec_enc_le)
qed

lemma xshort_id [simp]: "x < 2 ^ 16 \<Longrightarrow> xshort x = x"
proof -
  have n: "(2::nat) = Suc (Suc 0)" by simp
  have "enc_le 2 x = [word_of_nat x, word_of_nat (x div 256)]" by (simp only: n enc_le.simps)
  moreover have "x div 2 ^ 8 = x div 256" by simp
  ultimately have "xshort x = dec_le (enc_le 2 x)" by (simp only: xshort_def)
  then show "x < 2 ^ 16 \<Longrightarrow> xshort x = x" by (simp add: dec_enc_le)
qed

text \<open>The image as the kernel's disk.\<close>

definition disk :: "mk_state \<Rightarrow> nat \<Rightarrow> block" where
  "disk s b = (if b < length (img s) then img s ! b else zeroes)"

definition upd_disk :: "nat \<Rightarrow> block \<Rightarrow> mk_state \<Rightarrow> mk_state" where
  "upd_disk b d s = s\<lparr>img := (img s)[b := d]\<rparr>"

lemma upd_disk_simps [simp]:
  "length (img (upd_disk b d s)) = length (img s)" "freeblock (upd_disk b d s) = freeblock s"
  "usedblocks (upd_disk b d s) = usedblocks s" "freeinode (upd_disk b d s) = freeinode s"
  "b < length (img s) \<Longrightarrow> disk (upd_disk b d s) = (disk s)(b := d)"
  by (auto simp: upd_disk_def disk_def fun_eq_iff)

lemma rsect_eq: "rsect n s = (if n < length (img s) then Ok (disk s n) s else Panic ''read'')"
  by (simp add: rsect_def ret_def kpanic_def disk_def)

lemma wsect_eq: "n < length (img s) \<Longrightarrow> wsect n d s = Ok () (upd_disk n d s)"
  by (simp add: wsect_def kmod_def upd_disk_def Let_def)

section \<open>Facts: the blocks of the files\<close>

text \<open>Where the blocks of a file are: \<open>MAXFILE\<close> stands for its indirect block.  A layout has no block
  twice, in one file or in two, and its blocks lie between the bitmap and the next free block, from
  which on the image is empty.\<close>

definition data_start :: nat where "data_start = 29"

definition slot :: "(nat \<Rightarrow> block) \<Rightarrow> inode \<Rightarrow> nat \<Rightarrow> nat" where
  "slot V x bn = (if bn < MAXFILE then blkaddr V x bn else i_addrs x ! NDIRECT)"

definition layout :: "(nat \<Rightarrow> block) \<Rightarrow> (nat \<Rightarrow> inode) \<Rightarrow> nat set \<Rightarrow> nat \<Rightarrow> bool" where
  "layout V D I F \<longleftrightarrow> V 0 = zeroes \<and> (\<forall>b. length (V b) = BSIZE) \<and> (\<forall>b \<ge> F. V b = zeroes) \<and> data_start \<le> F \<and>
     (\<forall>i \<in> I. length (i_addrs (D i)) = NDIRECT + 1 \<and>
        (\<forall>bn \<le> MAXFILE. slot V (D i) bn \<noteq> 0 \<longrightarrow> data_start \<le> slot V (D i) bn \<and> slot V (D i) bn < F)) \<and>
     (\<forall>i \<in> I. \<forall>j \<in> I. \<forall>bn \<le> MAXFILE. \<forall>bm \<le> MAXFILE.
        slot V (D i) bn \<noteq> 0 \<and> slot V (D i) bn = slot V (D j) bm \<longrightarrow> i = j \<and> bn = bm)"

lemma layoutD:
  assumes "layout V D I F"
  shows "V 0 = zeroes" "length (V b) = BSIZE" "F \<le> b \<Longrightarrow> V b = zeroes" "data_start \<le> F"
    "i \<in> I \<Longrightarrow> length (i_addrs (D i)) = NDIRECT + 1"
    "i \<in> I \<Longrightarrow> bn \<le> MAXFILE \<Longrightarrow> slot V (D i) bn \<noteq> 0 \<Longrightarrow> data_start \<le> slot V (D i) bn \<and> slot V (D i) bn < F"
    "i \<in> I \<Longrightarrow> j \<in> I \<Longrightarrow> bn \<le> MAXFILE \<Longrightarrow> bm \<le> MAXFILE \<Longrightarrow> slot V (D i) bn \<noteq> 0 \<Longrightarrow>
     slot V (D i) bn = slot V (D j) bm \<Longrightarrow> i = j \<and> bn = bm"
  using assms unfolding layout_def by blast+

definition same_bytes :: "(nat \<Rightarrow> block) \<Rightarrow> (nat \<Rightarrow> inode) \<Rightarrow> (nat \<Rightarrow> block) \<Rightarrow> (nat \<Rightarrow> inode) \<Rightarrow> nat set \<Rightarrow> bool" where
  "same_bytes V D V' D' I \<longleftrightarrow> (\<forall>i \<in> I. \<forall>k < MAXFILE * BSIZE. fbyte V' (D' i) k = fbyte V (D i) k)"

lemma fbyte_slot: "k < MAXFILE * BSIZE \<Longrightarrow> fbyte V x k = V (slot V x (k div BSIZE)) ! (k mod BSIZE)"
  by (simp add: fbyte_def slot_def less_mult_imp_div_less)

text \<open>Giving a file the next free block, be it for its contents or as its indirect block.\<close>

lemma claim_slot:
  assumes L: "layout V D I F" and i: "i \<in> I" "bn \<le> MAXFILE" "slot V (D i) bn = 0"
    and S: "\<And>j bm. j \<in> I \<Longrightarrow> bm \<le> MAXFILE \<Longrightarrow> slot V' (D' j) bm = (if j = i \<and> bm = bn then F else slot V (D j) bm)"
    and A: "\<And>j. j \<in> I \<Longrightarrow> length (i_addrs (D' j)) = NDIRECT + 1"
    and V': "\<And>b. V' b \<noteq> V b \<Longrightarrow> b \<noteq> 0 \<and> b = slot V (D i) MAXFILE \<and> length (V' b) = BSIZE"
  shows "layout V' D' I (F + 1)" "same_bytes V D V' D' I"
proof -
  note l = layoutD [OF L]
  have low: "V' b = V b" if "b = 0 \<or> F \<le> b" for b
    using V' [of b] that l(6) [OF i(1), of MAXFILE] by force
  have F0: "F \<noteq> 0" using l(4) by (simp add: data_start_def)
  have "length (V' b) = BSIZE" for b using V' [of b] l(2) by metis
  moreover have "data_start \<le> slot V' (D' j) bm \<and> slot V' (D' j) bm < F + 1"
    if "j \<in> I" "bm \<le> MAXFILE" "slot V' (D' j) bm \<noteq> 0" for j bm
    using S [OF that(1,2)] l(6) [OF that(1,2)] l(4) that(3) by (auto split: if_splits)
  moreover have "j = k \<and> bm = bk" if jk: "j \<in> I" "k \<in> I" "bm \<le> MAXFILE" "bk \<le> MAXFILE" "slot V' (D' j) bm \<noteq> 0"
    and eq: "slot V' (D' j) bm = slot V' (D' k) bk" for j k bm bk
  proof (cases "j = i \<and> bm = bn"; cases "k = i \<and> bk = bn")
    assume "j = i \<and> bm = bn" "\<not> (k = i \<and> bk = bn)"
    with eq S [OF jk(1,3)] S [OF jk(2,4)] have "slot V (D k) bk = F" by simp
    with l(6) [OF jk(2,4)] F0 show ?thesis by simp
  next
    assume "\<not> (j = i \<and> bm = bn)" "k = i \<and> bk = bn"
    with eq S [OF jk(1,3)] S [OF jk(2,4)] have "slot V (D j) bm = F" by simp
    with l(6) [OF jk(1,3)] F0 show ?thesis by simp
  next
    assume "\<not> (j = i \<and> bm = bn)" "\<not> (k = i \<and> bk = bn)"
    with eq S [OF jk(1,3)] S [OF jk(2,4)] jk(5) l(7) [OF jk(1-4)] show ?thesis by simp
  qed simp
  ultimately show "layout V' D' I (F + 1)"
    unfolding layout_def using low l(1,3,4) A by simp
  have "fbyte V' (D' j) k = fbyte V (D j) k" if j: "j \<in> I" and k: "k < MAXFILE * BSIZE" for j k
  proof -
    have b: "k div BSIZE < MAXFILE" using k by (rule less_mult_imp_div_less)
    show ?thesis
    proof (cases "j = i \<and> k div BSIZE = bn")
      case True
      then show ?thesis using S [of i bn] i b low [of F] l(1) l(3) [of F] by (simp add: fbyte_slot [OF k])
    next
      case False
      have "slot V (D j) (k div BSIZE) \<noteq> slot V (D i) MAXFILE \<or> slot V (D j) (k div BSIZE) = 0"
        using l(7) [OF j i(1), of "k div BSIZE" MAXFILE] b by auto
      then have "V' (slot V (D j) (k div BSIZE)) = V (slot V (D j) (k div BSIZE))" using V' by blast
      then show ?thesis using S [OF j, of "k div BSIZE"] False b by (simp add: fbyte_slot [OF k])
    qed
  qed
  then show "same_bytes V D V' D' I" by (simp add: same_bytes_def)
qed

text \<open>The three stores by which a block is given to a file.\<close>

lemma slot_direct:
  assumes "fbn < NDIRECT" "length (i_addrs x) = NDIRECT + 1" "b < 2 ^ 32" "bm \<le> MAXFILE"
  shows "slot V (set_addr fbn b x) bm = (if bm = fbn then b else slot V x bm)"
  using assms by (auto simp: slot_def blkaddr_def set_addr_def MAXFILE_def NINDIRECT_def nth_list_update)

lemma slot_indirect:
  assumes "i_addrs x ! NDIRECT = 0" "length (i_addrs x) = NDIRECT + 1" "b < 2 ^ 32" "bm \<le> MAXFILE" "V b = zeroes" "V 0 = zeroes"
  shows "slot V (set_addr NDIRECT b x) bm = (if bm = MAXFILE then b else slot V x bm)"
proof -
  have "get_le 4 (4 * (bm - NDIRECT)) zeroes = 0" if "bm < MAXFILE"
    using that by (intro get_le_zeroes) (simp add: BSIZE_def MAXFILE_def NDIRECT_def NINDIRECT_def)
  with assms show ?thesis
    by (auto simp: slot_def blkaddr_def set_addr_def nth_list_update MAXFILE_def NINDIRECT_def)
qed

lemma slot_entry:
  assumes "NDIRECT \<le> fbn" "fbn < MAXFILE" "b < 2 ^ 32" "bm \<le> MAXFILE" "length (V ind) = BSIZE"
  shows "i_addrs x ! NDIRECT = ind \<Longrightarrow> slot (V(ind := put_le 4 (4 * (fbn - NDIRECT)) b (V ind))) x bm
      = (if bm = fbn then b else slot V x bm)"
    and "i_addrs x ! NDIRECT \<noteq> ind \<Longrightarrow> slot (V(ind := d)) x bm = slot V x bm"
proof -
  have r: "4 * (fbn - NDIRECT) + 4 \<le> length (V ind)"
    using assms(1,2,5) by (simp add: BSIZE_def MAXFILE_def NDIRECT_def NINDIRECT_def)
  assume a: "i_addrs x ! NDIRECT = ind"
  show "slot (V(ind := put_le 4 (4 * (fbn - NDIRECT)) b (V ind))) x bm = (if bm = fbn then b else slot V x bm)"
  proof (cases "bm < MAXFILE \<and> NDIRECT \<le> bm")
    case True
    then have "4 * (bm - NDIRECT) + 4 \<le> length (V ind)"
      using assms(5) by (auto simp: BSIZE_def MAXFILE_def NDIRECT_def NINDIRECT_def)
    moreover have "bm = fbn \<or> 4 * (bm - NDIRECT) + 4 \<le> 4 * (fbn - NDIRECT) \<or> 4 * (fbn - NDIRECT) + 4 \<le> 4 * (bm - NDIRECT)"
      using True assms(1) by linarith
    ultimately show ?thesis
      using True a assms(3) r by (auto simp: slot_def blkaddr_def get_put_same get_put_other)
  next
    case False
    then show ?thesis using assms(1,2,4) a by (auto simp: slot_def blkaddr_def)
  qed
next
  assume "i_addrs x ! NDIRECT \<noteq> ind"
  then show "slot (V(ind := d)) x bm = slot V x bm" by (simp add: slot_def blkaddr_def)
qed

definition grows :: "mk_state \<Rightarrow> mk_state \<Rightarrow> bool" where
  "grows s t \<longleftrightarrow> length (img t) = length (img s) \<and> freeinode t = freeinode s \<and>
     usedblocks t + freeblock s = usedblocks s + freeblock t \<and> (\<forall>b < data_start. disk t b = disk s b)"

lemma grows_refl [simp]: "grows s s" by (simp add: grows_def)

lemma grows_trans: "grows s t \<Longrightarrow> grows t u \<Longrightarrow> grows s u" by (simp add: grows_def)

lemma next_block_eq: "next_block s = Ok (freeblock s) (s\<lparr>freeblock := freeblock s + 1, usedblocks := usedblocks s + 1\<rparr>)"
  by (simp add: next_block_def ret_def)

lemma disk_counters [simp]: "disk (s\<lparr>freeblock := f, usedblocks := u\<rparr>) = disk s"
  by (simp add: disk_def fun_eq_iff)

text \<open>What \<open>file_block\<close> has done when block \<open>fbn\<close> of file \<open>i\<close> is block \<open>x\<close> of the disk.\<close>

definition gives_block :: "mk_state \<Rightarrow> (nat \<Rightarrow> inode) \<Rightarrow> nat set \<Rightarrow> nat \<Rightarrow> nat \<Rightarrow> mk_state \<Rightarrow> inode \<Rightarrow> nat \<Rightarrow> bool" where
  "gives_block s D I i fbn t din' x \<longleftrightarrow>
     layout (disk t) (D(i := din')) I (freeblock t) \<and> same_bytes (disk s) D (disk t) (D(i := din')) I \<and> grows s t \<and>
     x \<noteq> 0 \<and> (freeblock t = freeblock s \<or> freeblock t = x + 1) \<and> din' = (D i)\<lparr>i_addrs := i_addrs din'\<rparr> \<and>
     (\<forall>j \<in> I. \<forall>bm < MAXFILE. slot (disk t) ((D(i := din')) j) bm = (if j = i \<and> bm = fbn then x else slot (disk s) (D j) bm))"

lemma same_bytes_refl [simp]: "same_bytes V D V D I" by (simp add: same_bytes_def)

lemma same_bytes_trans: "same_bytes V D V' D' I \<Longrightarrow> same_bytes V' D' V'' D'' I \<Longrightarrow> same_bytes V D V'' D'' I"
  by (simp add: same_bytes_def)

lemma file_block_direct:
  assumes L: "layout (disk s) D I (freeblock s)" and i: "i \<in> I" and f: "fbn < NDIRECT" "freeblock s < 2 ^ 31"
    and run: "file_block (D i) fbn s = Ok (din', x) t"
  shows "gives_block s D I i fbn t din' x"
proof -
  note l = layoutD [OF L]
  have m: "fbn < MAXFILE" using f(1) by (simp add: MAXFILE_def)
  let ?a = "i_addrs (D i) ! fbn"
  have sl: "slot (disk s) (D i) fbn = ?a" using f(1) m by (simp add: slot_def blkaddr_def)
  have a: "?a < 2 ^ 32" using l(6) [OF i, of fbn] m f(2) sl by (cases "?a = 0") auto
  show ?thesis
  proof (cases "?a = 0")
    case True
    let ?F = "freeblock s"
    let ?t = "s\<lparr>freeblock := ?F + 1, usedblocks := usedblocks s + 1\<rparr>" and ?d = "set_addr fbn ?F (D i)"
    have nth: "i_addrs ?d ! fbn = ?F" using l(5) [OF i] f by (simp add: set_addr_def)
    have t: "t = ?t" "din' = ?d" "x = ?F"
      using run True f a nth by (auto simp: file_block_def kbind_def next_block_eq ret_def)
    have S: "slot (disk s) ((D(i := ?d)) j) bm = (if j = i \<and> bm = fbn then ?F else slot (disk s) (D j) bm)"
      if "j \<in> I" "bm \<le> MAXFILE" for j bm
      using slot_direct [OF f(1) l(5) [OF i], of ?F bm] f(2) that by auto
    have A: "length (i_addrs ((D(i := ?d)) j)) = NDIRECT + 1" if "j \<in> I" for j
      using l(5) that i by (simp add: set_addr_def)
    have cl: "layout (disk s) (D(i := ?d)) I (?F + 1)" "same_bytes (disk s) D (disk s) (D(i := ?d)) I"
      using claim_slot [OF L i, of fbn "disk s" "D(i := ?d)"] S A m sl True by auto
    moreover have "?F \<noteq> 0" using l(4) by (simp add: data_start_def)
    moreover have "?d = (D i)\<lparr>i_addrs := i_addrs ?d\<rparr>" by (simp add: set_addr_def)
    moreover have "grows s ?t" by (simp add: grows_def)
    ultimately show ?thesis unfolding gives_block_def t using S by simp
  next
    case False
    with run f a have "t = s" "din' = D i" "x = ?a"
      by (simp_all add: file_block_def)
    then show ?thesis using L False sl by (auto simp: gives_block_def)
  qed
qed

lemma no_indirect:
  assumes "V 0 = zeroes" "i_addrs x ! NDIRECT = 0" "NDIRECT \<le> bn" "bn < MAXFILE"
  shows "slot V x bn = 0"
proof -
  have "get_le 4 (4 * (bn - NDIRECT)) zeroes = 0"
    using assms(3,4) by (intro get_le_zeroes) (auto simp: BSIZE_def MAXFILE_def NDIRECT_def NINDIRECT_def)
  with assms show ?thesis by (simp add: slot_def blkaddr_def)
qed

lemma indirect_block:
  assumes L: "layout (disk s) D I (freeblock s)" and i: "i \<in> I" and f: "freeblock s < 2 ^ 31"
    and run: "(if xint (i_addrs (D i) ! NDIRECT) = 0 then kbind next_block (\<lambda>b. ret (set_addr NDIRECT b (D i))) else ret (D i)) s
      = Ok d u"
  shows "layout (disk s) (D(i := d)) I (freeblock u) \<and> same_bytes (disk s) D (disk s) (D(i := d)) I \<and> grows s u
    \<and> disk u = disk s \<and> i_addrs d ! NDIRECT \<noteq> 0 \<and> d = (D i)\<lparr>i_addrs := i_addrs d\<rparr>
    \<and> (\<forall>bm < MAXFILE. slot (disk s) d bm = slot (disk s) (D i) bm)
    \<and> freeblock u = freeblock s + (if i_addrs (D i) ! NDIRECT = 0 then 1 else 0)"
proof -
  note l = layoutD [OF L]
  let ?a = "i_addrs (D i) ! NDIRECT"
  have sl: "slot (disk s) (D i) MAXFILE = ?a" by (simp add: slot_def)
  have a: "?a < 2 ^ 32" using l(6) [OF i, of MAXFILE] f sl by (cases "?a = 0") auto
  show ?thesis
  proof (cases "?a = 0")
    case True
    let ?F = "freeblock s"
    let ?t = "s\<lparr>freeblock := ?F + 1, usedblocks := usedblocks s + 1\<rparr>" and ?d = "set_addr NDIRECT ?F (D i)"
    have t: "u = ?t" "d = ?d"
      using run True a by (auto simp: kbind_def next_block_eq ret_def)
    have S: "slot (disk s) ((D(i := ?d)) j) bm = (if j = i \<and> bm = MAXFILE then ?F else slot (disk s) (D j) bm)"
      if "j \<in> I" "bm \<le> MAXFILE" for j bm
      using slot_indirect [OF True l(5) [OF i], of ?F bm "disk s"] f l(1) l(3) [of ?F] that by auto
    have A: "length (i_addrs ((D(i := ?d)) j)) = NDIRECT + 1" if "j \<in> I" for j
      using l(5) that i by (simp add: set_addr_def)
    have "layout (disk s) (D(i := ?d)) I (?F + 1)" "same_bytes (disk s) D (disk s) (D(i := ?d)) I"
      using claim_slot [OF L i, of MAXFILE "disk s" "D(i := ?d)"] S A sl True by auto
    moreover have "i_addrs ?d ! NDIRECT \<noteq> 0" using l(4) l(5) [OF i] f by (simp add: data_start_def set_addr_def)
    moreover have "?d = (D i)\<lparr>i_addrs := i_addrs ?d\<rparr>" by (simp add: set_addr_def)
    moreover have "grows s ?t" by (simp add: grows_def)
    moreover have "\<forall>bm < MAXFILE. slot (disk s) ?d bm = slot (disk s) (D i) bm"
      using S [OF i] by auto
    ultimately show ?thesis unfolding t using True by simp
  next
    case False
    with run a have "u = s" "d = D i" by auto
    then show ?thesis using L False by auto
  qed
qed

lemma file_block_indirect:
  assumes L: "layout (disk s) D I (freeblock s)" and i: "i \<in> I" and f: "NDIRECT \<le> fbn" "fbn < MAXFILE" "freeblock s < 2 ^ 31"
    and N: "length (img s) < 2 ^ 31"
    and run: "file_block (D i) fbn s = Ok (din', x) t"
  shows "gives_block s D I i fbn t din' x"
proof -
  let ?o = "4 * (fbn - NDIRECT)"
  obtain d u where A: "(if xint (i_addrs (D i) ! NDIRECT) = 0 then kbind next_block (\<lambda>b. ret (set_addr NDIRECT b (D i)))
      else ret (D i)) s = Ok d u"
    and B: "kbind (rsect (xint (i_addrs d ! NDIRECT))) (\<lambda>indirect.
        kbind (if get_le 4 ?o indirect = 0
               then kbind next_block (\<lambda>b. let indirect = put_le 4 ?o (xint b) indirect in
                    kbind (wsect (xint (i_addrs d ! NDIRECT)) indirect) (\<lambda>_. ret indirect))
               else ret indirect) (\<lambda>indirect. ret (d, xint (get_le 4 ?o indirect)))) u = Ok (din', x) t"
    using run f(1) by (auto simp: file_block_def kbind_eq_Ok)
  define ind where "ind = i_addrs d ! NDIRECT"
  let ?D = "D(i := d)"
  note ib = indirect_block [OF L i f(3) A]
  have g: "grows s u" "disk u = disk s" using ib by blast+
  have L1: "layout (disk u) ?D I (freeblock u)" and sb: "same_bytes (disk s) D (disk u) ?D I" and i0: "ind \<noteq> 0"
    and d: "d = (D i)\<lparr>i_addrs := i_addrs d\<rparr>" and sd: "\<forall>bm < MAXFILE. slot (disk u) d bm = slot (disk s) (D i) bm"
    and fu: "freeblock u = freeblock s + (if i_addrs (D i) ! NDIRECT = 0 then 1 else 0)"
    using ib unfolding ind_def g(2) by blast+
  note l = layoutD [OF L1]
  have si: "slot (disk u) (?D i) MAXFILE = ind" by (simp add: slot_def ind_def)
  have "ind < freeblock u" using l(6) [OF i, of MAXFILE] i0 si by simp
  then have x: "xint ind = ind" using f(3) fu by (intro xint_id) (simp split: if_splits)
  have il: "ind < length (img u)"
    using B unfolding ind_def [symmetric] x by (auto simp: kbind_eq_Ok rsect_eq split: if_splits)
  have sf: "slot (disk u) d fbn = get_le 4 ?o (disk u ind)"
    using f(1,2) by (simp add: slot_def blkaddr_def ind_def)
  have Dslot: "slot (disk u) (?D j) bm = slot (disk s) (D j) bm" if "bm < MAXFILE" for j bm
    using sd g(2) that by simp
  show ?thesis
  proof (cases "get_le 4 ?o (disk u ind) = 0")
    case False
    have "get_le 4 ?o (disk u ind) < 2 ^ 32" using get_le_less [of 4 ?o "disk u ind"] by simp
    with B False il have t: "t = u" "din' = d" "x = slot (disk u) d fbn"
      unfolding ind_def [symmetric] x sf by (auto simp: kbind_def rsect_eq ret_def)
    have "i_addrs (D i) ! NDIRECT \<noteq> 0"
      using no_indirect [of "disk s" "D i" fbn] sd f(1,2) False sf layoutD(1) [OF L] by auto
    then have "freeblock u = freeblock s" using fu by simp
    moreover have "slot (disk s) (D i) fbn = slot (disk u) d fbn" using sd f(2) g(2) by simp
    ultimately show ?thesis unfolding gives_block_def t using L1 sb g d False sf Dslot by auto
  next
    case True
    let ?F = "freeblock u" and ?V = "(disk u)(ind := put_le 4 ?o (freeblock u) (disk u ind))"
    have F: "?F < 2 ^ 32" using f(3) fu by (simp split: if_splits)
    have r: "?o + 4 \<le> length (disk u ind)"
      using f(1,2) l(2) [of ind] by (auto simp: BSIZE_def MAXFILE_def NDIRECT_def NINDIRECT_def)
    let ?t = "upd_disk ind (put_le 4 ?o ?F (disk u ind)) (u\<lparr>freeblock := ?F + 1, usedblocks := usedblocks u + 1\<rparr>)"
    have il': "ind < length (img (u\<lparr>freeblock := ?F + 1, usedblocks := usedblocks u + 1\<rparr>))" using il by simp
    have t: "t = ?t" "din' = d" "x = ?F"
      using B True il F r unfolding ind_def [symmetric] x
      by (auto simp: kbind_def rsect_eq ret_def next_block_eq wsect_eq [OF il', simplified] Let_def get_put_same)
    have dt: "disk ?t = ?V" using il by simp
    have S: "slot ?V (?D j) bm = (if j = i \<and> bm = fbn then ?F else slot (disk u) (?D j) bm)"
      if j: "j \<in> I" and bm: "bm \<le> MAXFILE" for j bm
    proof (cases "j = i")
      case True
      then show ?thesis using slot_entry(1) [where V = "disk u", OF f(1,2) F bm l(2), of "?D i" ind] by (simp add: ind_def)
    next
      case False
      have "i_addrs (?D j) ! NDIRECT \<noteq> ind"
        using l(7) [OF i j, of MAXFILE MAXFILE] i0 False si by (auto simp: slot_def)
      then show ?thesis using slot_entry(2) [where V = "disk u", OF f(1,2) F bm l(2)] False by simp
    qed
    have A': "length (i_addrs (?D j)) = NDIRECT + 1" if "j \<in> I" for j using l(5) that by blast
    have z: "slot (disk u) (?D i) fbn = 0" using True sf by simp
    have V: "b \<noteq> 0 \<and> b = slot (disk u) (?D i) MAXFILE \<and> length (?V b) = BSIZE" if "?V b \<noteq> disk u b" for b
      using that i0 si r l(2) [of ind] by (auto split: if_splits)
    have "layout ?V ?D I (?F + 1)" "same_bytes (disk u) ?D ?V ?D I"
      using claim_slot [where D = ?D and V' = ?V and D' = ?D, OF L1 i _ z] f(2) S A' V by auto
    moreover have "grows s ?t"
    proof -
      have "data_start \<le> ind" using l(6) [OF i, of MAXFILE] i0 si by simp
      then have "grows u ?t" using il by (auto simp: grows_def)
      with g(1) show ?thesis by (rule grows_trans)
    qed
    moreover have "?F \<noteq> 0" using l(4) by (simp add: data_start_def)
    ultimately show ?thesis
      unfolding gives_block_def t dt using same_bytes_trans [OF sb] d Dslot S by simp
  qed
qed

lemma file_block_ok:
  assumes "layout (disk s) D I (freeblock s)" "i \<in> I" "fbn < MAXFILE" "freeblock s < 2 ^ 31" "length (img s) < 2 ^ 31"
    and "file_block (D i) fbn s = Ok (din', x) t"
  shows "gives_block s D I i fbn t din' x"
  using file_block_direct [OF assms(1,2) _ assms(4,6)] file_block_indirect [OF assms(1,2) _ assms(3-6)]
  by (cases "fbn < NDIRECT") auto

text \<open>Storing into a block of a file's contents.\<close>

lemma write_block:
  assumes L: "layout V D I F" and i: "i \<in> I" and bn: "bn < MAXFILE" and x: "slot V (D i) bn = x" "x \<noteq> 0" and d: "length d = BSIZE"
  shows "layout (V(x := d)) D I F"
    and "j \<in> I \<Longrightarrow> bm \<le> MAXFILE \<Longrightarrow> slot (V(x := d)) (D j) bm = slot V (D j) bm"
    and "j \<in> I \<Longrightarrow> k < MAXFILE * BSIZE \<Longrightarrow>
      fbyte (V(x := d)) (D j) k = (if j = i \<and> k div BSIZE = bn then d ! (k mod BSIZE) else fbyte V (D j) k)"
proof -
  note l = layoutD [OF L]
  have S: "slot (V(x := d)) (D j) bm = slot V (D j) bm" if "j \<in> I" "bm \<le> MAXFILE" for j bm
  proof -
    have "slot V (D j) MAXFILE \<noteq> x" using l(7) [OF i that(1), of bn MAXFILE] bn x by auto
    then have "i_addrs (D j) ! NDIRECT \<noteq> x" by (simp add: slot_def)
    then show ?thesis by (simp add: slot_def blkaddr_def)
  qed
  then show "j \<in> I \<Longrightarrow> bm \<le> MAXFILE \<Longrightarrow> slot (V(x := d)) (D j) bm = slot V (D j) bm" .
  have "x < F" using l(6) [OF i, of bn] bn x by simp
  then show "layout (V(x := d)) D I F"
    unfolding layout_def using l d x(2) S by simp
  assume j: "j \<in> I" and k: "k < MAXFILE * BSIZE"
  have b: "k div BSIZE < MAXFILE" using k by (rule less_mult_imp_div_less)
  show "fbyte (V(x := d)) (D j) k = (if j = i \<and> k div BSIZE = bn then d ! (k mod BSIZE) else fbyte V (D j) k)"
  proof (cases "j = i \<and> k div BSIZE = bn")
    case True
    then show ?thesis using S [OF j, of "k div BSIZE"] b x by (simp add: fbyte_slot [OF k])
  next
    case False
    then have "slot V (D j) (k div BSIZE) \<noteq> x" using l(7) [OF i j, of bn "k div BSIZE"] bn b x by auto
    then show ?thesis unfolding if_not_P [OF False] using S [OF j, of "k div BSIZE"] b by (simp add: fbyte_slot [OF k])
  qed
qed

definition appended :: "mk_state \<Rightarrow> (nat \<Rightarrow> inode) \<Rightarrow> nat set \<Rightarrow> nat \<Rightarrow> nat \<Rightarrow> byte list \<Rightarrow> mk_state \<Rightarrow> inode \<Rightarrow> bool" where
  "appended s D I i off p t din' \<longleftrightarrow>
     layout (disk t) (D(i := din')) I (freeblock t) \<and> grows s t \<and> freeblock t \<le> length (img t) \<and>
     din' = (D i)\<lparr>i_addrs := i_addrs din'\<rparr> \<and> off + length p \<le> MAXFILE * BSIZE \<and>
     (\<forall>j \<in> I. \<forall>k < MAXFILE * BSIZE. fbyte (disk t) ((D(i := din')) j) k =
        (if j = i \<and> off \<le> k \<and> k < off + length p then p ! (k - off) else fbyte (disk s) (D j) k)) \<and>
     (\<forall>j \<in> I. \<forall>bm < MAXFILE. (slot (disk t) ((D(i := din')) j) bm \<noteq> 0) =
        (if j = i then bm * BSIZE < off + length p else slot (disk s) (D j) bm \<noteq> 0))"

lemma append_loop_ok:
  assumes "layout (disk s) D I (freeblock s)" "i \<in> I" "freeblock s \<le> length (img s)" "length (img s) < 2 ^ 30"
    and "off \<le> MAXFILE * BSIZE" "\<forall>bm < MAXFILE. (slot (disk s) (D i) bm \<noteq> 0) = (bm * BSIZE < off)"
    and "append_loop (D i) off p s = Ok (din', off') t"
  shows "off' = off + length p \<and> appended s D I i off p t din'"
  using assms
proof (induction "length p" arbitrary: D off p s rule: less_induct)
  case less
  note L = less.prems(1) and i = less.prems(2) and F = less.prems(3,4) and off = less.prems(5) and Z = less.prems(6)
    and run = less.prems(7)
  show ?case
  proof (cases "p = []")
    case True
    with run have "t = s" "din' = D i" "off' = off" by (auto simp: append_loop.simps [of _ _ "[]"])
    then show ?thesis using L F off Z True by (auto simp: appended_def)
  next
    case False
    define fbn where "fbn = off div 512"
    define n1 where "n1 = min (length p) ((fbn + 1) * 512 - off)"
    have o': "off < (fbn + 1) * 512" "fbn * 512 \<le> off" by (simp_all add: fbn_def)
    then have n1: "0 < n1" "n1 \<le> length p" "off + n1 \<le> (fbn + 1) * 512" using False by (auto simp: n1_def)
    have m: "fbn < MAXFILE" using run False by (auto simp: append_loop.simps [of _ _ p] Let_def fbn_def split: if_splits)
    obtain d x u where A: "file_block (D i) fbn s = Ok (d, x) u"
      and x: "x < length (img u)"
      and B: "append_loop d (off + n1) (drop n1 p)
        (upd_disk x (overlay (off - fbn * 512) (take n1 p) (disk u x)) u) = Ok (din', off') t"
      using run False m unfolding append_loop.simps [of _ _ p] Let_def fbn_def [symmetric] n1_def [symmetric]
      by (auto simp: kbind_eq_Ok rsect_eq wsect_eq split: if_splits prod.splits)
    let ?v = "upd_disk x (overlay (off - fbn * 512) (take n1 p) (disk u x)) u" and ?D = "D(i := d)"
    have "gives_block s D I i fbn u d x"
      using file_block_ok [OF L i m _ _ A] F by simp
    then have g: "layout (disk u) ?D I (freeblock u)" "same_bytes (disk s) D (disk u) ?D I" "grows s u" "x \<noteq> 0"
      "freeblock u = freeblock s \<or> freeblock u = x + 1" "d = (D i)\<lparr>i_addrs := i_addrs d\<rparr>"
      and gs: "\<And>j bm. j \<in> I \<Longrightarrow> bm < MAXFILE \<Longrightarrow> slot (disk u) (?D j) bm = (if j = i \<and> bm = fbn then x else slot (disk s) (D j) bm)"
      by (auto simp: gives_block_def)
    define b where "b = overlay (off - fbn * 512) (take n1 p) (disk u x)"
    have r: "off - fbn * 512 + length (take n1 p) \<le> length (disk u x)"
      using n1 o' layoutD(2) [OF g(1)] by (simp add: BSIZE_def)
    have lb: "length b = BSIZE" using r layoutD(2) [OF g(1)] by (simp add: b_def)
    have dv: "disk ?v = (disk u)(x := b)" using x by (simp add: b_def)
    have sx: "slot (disk u) (?D i) fbn = x" using gs [OF i m] by simp
    note W = write_block [OF g(1) i m sx g(4) lb]
    have Lv: "layout (disk ?v) ?D I (freeblock ?v)" using W(1) by (simp only: dv upd_disk_simps)
    have len: "length (img ?v) = length (img s)" using g(3) by (simp add: grows_def)
    have offv: "off + n1 \<le> MAXFILE * BSIZE" using n1(3) m by (auto simp: BSIZE_def)
    have Sv: "slot (disk ?v) (?D j) bm = (if j = i \<and> bm = fbn then x else slot (disk s) (D j) bm)"
      if "j \<in> I" "bm < MAXFILE" for j bm
      using W(2) [OF that(1), of bm] gs [OF that] that(2) unfolding dv by simp
    have Zv: "\<forall>bm < MAXFILE. (slot (disk ?v) (?D i) bm \<noteq> 0) = (bm * BSIZE < off + n1)"
    proof (intro allI impI)
      fix bm assume bm: "bm < MAXFILE"
      have "(bm * BSIZE < off + n1) = (bm = fbn \<or> bm * BSIZE < off)"
        using n1 o' by (auto simp: BSIZE_def)
      then show "(slot (disk ?v) (?D i) bm \<noteq> 0) = (bm * BSIZE < off + n1)"
        using Sv [OF i bm] Z bm g(4) by auto
    qed
    have grv: "grows s ?v"
    proof -
      have "data_start \<le> x" using layoutD(6) [OF g(1) i, of fbn] m sx g(4) by simp
      then have "grows u ?v" using x by (auto simp: grows_def)
      with g(3) show ?thesis by (rule grows_trans)
    qed
    have "length (drop n1 p) < length p" "append_loop (?D i) (off + n1) (drop n1 p) ?v = Ok (din', off') t"
      "freeblock ?v \<le> length (img ?v)" "length (img ?v) < 2 ^ 30"
      using n1 B g(5) x F len by auto
    from less.hyps [where D = ?D, OF this(1) Lv i this(3,4) offv Zv this(2)] n1(2)
    have IH: "off' = off + length p" "appended ?v ?D I i (off + n1) (drop n1 p) t din'" by auto
    have Dq: "?D(i := din') = D(i := din')" by simp
    have fb: "fbyte (disk ?v) (?D j) k = (if j = i \<and> off \<le> k \<and> k < off + n1 then p ! (k - off) else fbyte (disk s) (D j) k)"
      if j: "j \<in> I" and k: "k < MAXFILE * BSIZE" for j k
    proof -
      have e: "fbyte (disk u) (?D j) k = fbyte (disk s) (D j) k" using g(2) j k by (simp add: same_bytes_def)
      show ?thesis
      proof (cases "j = i \<and> k div BSIZE = fbn")
        case True
        then have kk: "fbn * 512 \<le> k" "k < (fbn + 1) * 512" and km: "k mod BSIZE = k - fbn * 512"
          by (auto simp: BSIZE_def minus_mod_eq_div_mult [symmetric])
        have "fbyte (disk u) (?D j) k = disk u x ! (k mod BSIZE)"
          using True sx by (simp add: fbyte_slot [OF k])
        moreover have "b ! (k mod BSIZE) = (if off \<le> k \<and> k < off + n1 then p ! (k - off) else disk u x ! (k mod BSIZE))"
          unfolding b_def km using nth_overlay [OF r, of "k - fbn * 512"] kk o' n1 layoutD(2) [OF g(1)]
          by (auto simp: BSIZE_def)
        ultimately show ?thesis using W(3) [OF j k] True e unfolding dv by simp
      next
        case False
        have "\<not> (j = i \<and> off \<le> k \<and> k < off + n1)"
        proof
          assume a: "j = i \<and> off \<le> k \<and> k < off + n1"
          then have "k div 512 = fbn" using o' n1(3) by (intro div_nat_eqI) auto
          with False a show False by (simp add: BSIZE_def)
        qed
        then show ?thesis using W(3) [OF j k] False e unfolding dv by auto
      qed
    qed
    have fin: "fbyte (disk t) ((D(i := din')) j) k =
        (if j = i \<and> off \<le> k \<and> k < off + length p then p ! (k - off) else fbyte (disk s) (D j) k)"
      if "j \<in> I" "k < MAXFILE * BSIZE" for j k
      using IH(2) fb [OF that] that n1 unfolding appended_def Dq by (auto simp: algebra_simps)
    have sl: "(slot (disk t) ((D(i := din')) j) bm \<noteq> 0) =
        (if j = i then bm * BSIZE < off + length p else slot (disk s) (D j) bm \<noteq> 0)"
      if "j \<in> I" "bm < MAXFILE" for j bm
      using IH(2) Sv [OF that] that n1 unfolding appended_def Dq by auto
    have "din' = (D i)\<lparr>i_addrs := i_addrs din'\<rparr>"
    proof -
      have "din' = d\<lparr>i_addrs := i_addrs din'\<rparr>" using IH(2) by (simp add: appended_def)
      then show ?thesis using g(6) by (metis inode.surjective inode.update_convs(11))
    qed
    then show ?thesis using IH grv fin sl n1(2) unfolding appended_def Dq by (auto intro: grows_trans)
  qed
qed

end
