(* ===== verification/MkfsImage.thy ===== *)
theory MkfsImage
  imports MkfsBlocks
begin

text \<open>
  The image \<open>mkfs\<close> makes: the invariant \<open>mk_inv\<close> between the steps of \<open>main\<close>, what each step adds to it, how
  many blocks it takes (\<open>budget\<close>), and the finished image as the kernel reads it.
\<close>

section \<open>Facts: inodes on the image\<close>

definition ondisk :: "(nat \<Rightarrow> block) \<Rightarrow> nat \<Rightarrow> inode" where
  "ondisk V i = load_dinode i (V (i2b i)) dinode0"

definition content :: "(nat \<Rightarrow> block) \<Rightarrow> inode \<Rightarrow> byte list" where
  "content V x = map (fbyte V x) [0..<i_size x]"

lemma length_content [simp]: "length (content V x) = i_size x"
  by (simp add: content_def)

lemma s16_range: "- (2 ^ 15) \<le> s16 n \<and> s16 n < 2 ^ 15"
  by (auto simp: s16_def)

lemma ondisk_fits: "inode_fits (ondisk V i)"
  using s16_range get_le_less [of 4]
  by (auto simp: inode_fits_def ondisk_def load_dinode_def Let_def NDIRECT_def)

lemma ondisk_put:
  assumes "length d = BSIZE" "inode_fits x" "x = dinode0\<lparr>i_type := i_type x, i_major := i_major x,
    i_minor := i_minor x, i_nlink := i_nlink x, i_size := i_size x, i_addrs := i_addrs x\<rparr>"
  shows "ondisk (V(i2b i := put_dinode i x d)) i = x"
  using load_put_dinode [OF assms(1,2), of i dinode0] assms(3) by (simp add: ondisk_def)

lemma ondisk_put_other:
  assumes "length (V (i2b i)) = BSIZE" "length (i_addrs x) = NDIRECT + 1" "j \<noteq> i"
  shows "ondisk (V(i2b i := put_dinode i x (V (i2b i)))) j = ondisk V j"
proof (cases "i2b j = i2b i")
  case True
  then have "i mod IPB \<noteq> j mod IPB" using assms(3) by (auto simp: i2b_def) (metis div_mult_mod_eq)
  with True show ?thesis using load_put_dinode_other [OF assms(1,2)] by (simp add: ondisk_def)
qed (simp add: ondisk_def)

lemma ondisk_shape: "ondisk V i = dinode0\<lparr>i_type := i_type (ondisk V i), i_major := i_major (ondisk V i),
    i_minor := i_minor (ondisk V i), i_nlink := i_nlink (ondisk V i), i_size := i_size (ondisk V i), i_addrs := i_addrs (ondisk V i)\<rparr>"
  by (simp add: ondisk_def load_dinode_def Let_def)

text \<open>A layout does not depend on the sectors before the data, save the empty first one.\<close>

lemma layout_frame:
  assumes L: "layout V D I F" and V: "\<And>b. b = 0 \<or> data_start \<le> b \<Longrightarrow> V' b = V b" and l: "\<And>b. length (V' b) = BSIZE"
    and D: "\<And>j. j \<in> I \<Longrightarrow> i_addrs (D' j) = i_addrs (D j)"
  shows "layout V' D' I F"
    and "j \<in> I \<Longrightarrow> bm \<le> MAXFILE \<Longrightarrow> slot V' (D' j) bm = slot V (D j) bm"
    and "j \<in> I \<Longrightarrow> k < MAXFILE * BSIZE \<Longrightarrow> fbyte V' (D' j) k = fbyte V (D j) k"
proof -
  have S: "slot V' (D' j) bm = slot V (D j) bm" if "j \<in> I" for j bm
  proof -
    have "i_addrs (D j) ! NDIRECT = 0 \<or> data_start \<le> i_addrs (D j) ! NDIRECT"
      using layoutD(6) [OF L that, of MAXFILE] by (auto simp: slot_def)
    then show ?thesis using V D [OF that] by (simp add: slot_def blkaddr_def)
  qed
  then show "j \<in> I \<Longrightarrow> bm \<le> MAXFILE \<Longrightarrow> slot V' (D' j) bm = slot V (D j) bm" by blast
  have "\<forall>b \<ge> F. V' b = zeroes" using layoutD(3,4) [OF L] V by (metis le_trans)
  then show "layout V' D' I F"
    using L V [of 0] l D S unfolding layout_def by simp
  assume j: "j \<in> I" and k: "k < MAXFILE * BSIZE"
  then have "k div BSIZE \<le> MAXFILE" using less_mult_imp_div_less [OF k] by simp
  then have "V' (slot V (D j) (k div BSIZE)) = V (slot V (D j) (k div BSIZE))"
    using layoutD(6) [OF L j] V by blast
  then show "fbyte V' (D' j) k = fbyte V (D j) k"
    using S [OF j] by (simp add: fbyte_slot [OF k])
qed

text \<open>The image between two calls of \<open>main\<close>: the inodes made so far describe disjoint files, each with
  exactly the blocks its size calls for and nothing behind its end.\<close>

definition mk_inv :: "mk_state \<Rightarrow> bool" where
  "mk_inv s \<longleftrightarrow> length (img s) = fs_size \<and> 1 \<le> freeinode s \<and> freeinode s \<le> ninodes \<and>
     freeblock s \<le> fs_size \<and> usedblocks s = freeblock s \<and> disk s 1 = sb_block \<and>
     layout (disk s) (ondisk (disk s)) {1..<freeinode s} (freeblock s) \<and>
     (\<forall>i \<in> {1..<freeinode s}. let x = ondisk (disk s) i in i_size x \<le> MAXFILE * BSIZE \<and>
        (\<forall>bm < MAXFILE. (slot (disk s) x bm \<noteq> 0) = (bm * BSIZE < i_size x)) \<and>
        (\<forall>k < MAXFILE * BSIZE. i_size x \<le> k \<longrightarrow> fbyte (disk s) x k = 0))"

lemma i2b_low: "i < ninodes \<Longrightarrow> 2 \<le> i2b i \<and> i2b i < data_start"
  by (auto simp: i2b_def ninodes_def IPB_def BSIZE_def DINODE_SIZE_def data_start_def)

text \<open>Writing an inode whose blocks fit the layout.\<close>

lemma winode_ok:
  assumes L: "layout (disk t) D {1..<n} F" and i: "i \<in> {1..<n}" "n \<le> ninodes" and N: "length (img t) = fs_size"
    and D: "\<forall>j \<in> {1..<n}. j \<noteq> i \<longrightarrow> ondisk (disk t) j = D j"
    and x: "i_addrs (D i) = i_addrs x" "inode_fits x" "x = dinode0\<lparr>i_type := i_type x, i_major := i_major x,
      i_minor := i_minor x, i_nlink := i_nlink x, i_size := i_size x, i_addrs := i_addrs x\<rparr>"
    and run: "winode i x t = Ok u v"
  shows "v = upd_disk (i2b i) (put_dinode i x (disk t (i2b i))) t"
    and "j \<in> {1..<n} \<Longrightarrow> ondisk (disk v) j = (if j = i then x else D j)"
    and "layout (disk v) (ondisk (disk v)) {1..<n} F"
    and "j \<in> {1..<n} \<Longrightarrow> bm \<le> MAXFILE \<Longrightarrow> slot (disk v) (ondisk (disk v) j) bm = slot (disk t) (D j) bm"
    and "j \<in> {1..<n} \<Longrightarrow> k < MAXFILE * BSIZE \<Longrightarrow> fbyte (disk v) (ondisk (disk v) j) k = fbyte (disk t) (D j) k"
    and "disk v 1 = disk t 1"
proof -
  have b: "2 \<le> i2b i \<and> i2b i < data_start" using i2b_low [of i] i by simp
  have bl: "i2b i < length (img t)" using b N by (simp add: data_start_def fs_size_def)
  show v: "v = upd_disk (i2b i) (put_dinode i x (disk t (i2b i))) t"
    using run bl by (auto simp: winode_def kbind_eq_Ok rsect_eq wsect_eq)
  have dv: "disk v = (disk t)(i2b i := put_dinode i x (disk t (i2b i)))" using bl by (simp add: v)
  note len = layoutD(2) [OF L]
  have la: "length (i_addrs x) = NDIRECT + 1" using x(2) by (simp add: inode_fits_def)
  have O: "ondisk (disk v) j = (if j = i then x else D j)" if "j \<in> {1..<n}" for j
    using ondisk_put [where V = "disk t" and i = i and d = "disk t (i2b i)", OF len x(2,3)]
      ondisk_put_other [where V = "disk t", OF len la, of j i] D that by (auto simp: dv)
  then show "j \<in> {1..<n} \<Longrightarrow> ondisk (disk v) j = (if j = i then x else D j)" by blast
  have V: "disk v b = disk t b" if "b = 0 \<or> data_start \<le> b" for b using that b by (auto simp: dv)
  have l: "length (disk v b) = BSIZE" for b using len la by (simp add: dv)
  have A: "i_addrs (ondisk (disk v) j) = i_addrs (D j)" if "j \<in> {1..<n}" for j using O [OF that] x(1) by simp
  note fr = layout_frame [OF L V l A]
  show "layout (disk v) (ondisk (disk v)) {1..<n} F"
    "j \<in> {1..<n} \<Longrightarrow> bm \<le> MAXFILE \<Longrightarrow> slot (disk v) (ondisk (disk v) j) bm = slot (disk t) (D j) bm"
    "j \<in> {1..<n} \<Longrightarrow> k < MAXFILE * BSIZE \<Longrightarrow> fbyte (disk v) (ondisk (disk v) j) k = fbyte (disk t) (D j) k"
    by (rule fr; assumption)+
  show "disk v 1 = disk t 1" using b by (simp add: dv)
qed

lemma mk_invD:
  assumes "mk_inv s"
  shows "length (img s) = fs_size" "freeinode s \<le> ninodes" "freeblock s \<le> fs_size" "disk s 1 = sb_block"
    "layout (disk s) (ondisk (disk s)) {1..<freeinode s} (freeblock s)" "1 \<le> freeinode s" "usedblocks s = freeblock s"
    "i \<in> {1..<freeinode s} \<Longrightarrow> i_size (ondisk (disk s) i) \<le> MAXFILE * BSIZE"
    "i \<in> {1..<freeinode s} \<Longrightarrow> bm < MAXFILE \<Longrightarrow>
       (slot (disk s) (ondisk (disk s) i) bm \<noteq> 0) = (bm * BSIZE < i_size (ondisk (disk s) i))"
    "i \<in> {1..<freeinode s} \<Longrightarrow> k < MAXFILE * BSIZE \<Longrightarrow> i_size (ondisk (disk s) i) \<le> k \<Longrightarrow>
       fbyte (disk s) (ondisk (disk s) i) k = 0"
  using assms unfolding mk_inv_def Let_def by blast+

definition same_kind :: "inode \<Rightarrow> inode \<Rightarrow> bool" where
  "same_kind x y \<longleftrightarrow> i_type y = i_type x \<and> i_nlink y = i_nlink x"

text \<open>One call appends to one file, and every other file keeps its contents.\<close>

definition appends :: "mk_state \<Rightarrow> mk_state \<Rightarrow> (nat \<Rightarrow> byte list) \<Rightarrow> bool" where
  "appends s t new \<longleftrightarrow> mk_inv t \<and> freeinode t = freeinode s \<and> (\<forall>j \<in> {1..<freeinode s}.
     same_kind (ondisk (disk s) j) (ondisk (disk t) j) \<and>
     content (disk t) (ondisk (disk t) j) = content (disk s) (ondisk (disk s) j) @ new j)"

lemma iappend_ok:
  assumes inv: "mk_inv s" and i: "i \<in> {1..<freeinode s}" and run: "iappend i p s = Ok u v"
  shows "appends s v (\<lambda>j. if j = i then p else [])"
    and "j \<in> {1..<freeinode s} \<Longrightarrow> j \<noteq> i \<Longrightarrow> ondisk (disk v) j = ondisk (disk s) j"
    and "\<exists>d off t. append_loop (ondisk (disk s) i) (i_size (ondisk (disk s) i)) p s = Ok (d, off) t \<and>
      i_addrs (ondisk (disk v) i) = i_addrs d \<and> freeblock v = freeblock t"
proof -
  note m = mk_invD [OF inv]
  let ?I = "{1..<freeinode s}" and ?D = "ondisk (disk s)" and ?n = "i_size (ondisk (disk s) i)"
  have sz: "MAXFILE * BSIZE < 2 ^ 32" by (simp add: MAXFILE_def NDIRECT_def NINDIRECT_def BSIZE_def)
  have xs: "xint ?n = ?n" using m(8) [OF i] sz by simp
  obtain d off t where A: "append_loop (?D i) ?n p s = Ok (d, off) t"
    and B: "winode i (d\<lparr>i_size := xint off\<rparr>) t = Ok u v"
    using run by (auto simp: iappend_def rinode_def kbind_eq_Ok rsect_eq xs simp flip: ondisk_def split: if_splits)
  have Z: "\<forall>bm < MAXFILE. (slot (disk s) (?D i) bm \<noteq> 0) = (bm * BSIZE < ?n)" using m(9) [OF i] by blast
  have N: "freeblock s \<le> length (img s)" "length (img s) < 2 ^ 30" using m(1,3) by (simp_all add: fs_size_def)
  from append_loop_ok [OF m(5) i N m(8) [OF i] Z A] have off: "off = ?n + length p"
    and ap: "layout (disk t) (?D(i := d)) ?I (freeblock t)" "grows s t" "freeblock t \<le> length (img t)"
      "d = (?D i)\<lparr>i_addrs := i_addrs d\<rparr>" "off \<le> MAXFILE * BSIZE"
    and fb: "\<And>j k. j \<in> ?I \<Longrightarrow> k < MAXFILE * BSIZE \<Longrightarrow> fbyte (disk t) ((?D(i := d)) j) k =
      (if j = i \<and> ?n \<le> k \<and> k < off then p ! (k - ?n) else fbyte (disk s) (?D j) k)"
    and sl: "\<And>j bm. j \<in> ?I \<Longrightarrow> bm < MAXFILE \<Longrightarrow> (slot (disk t) ((?D(i := d)) j) bm \<noteq> 0) =
      (if j = i then bm * BSIZE < off else slot (disk s) (?D j) bm \<noteq> 0)"
    by (auto simp: appended_def)
  have xo: "xint off = off" using ap(5) sz by simp
  define x where "x = d\<lparr>i_size := off\<rparr>"
  have la: "length (i_addrs d) = NDIRECT + 1" using layoutD(5) [OF ap(1) i] by simp
  have addr: "a < 2 ^ 32" if "a \<in> set (i_addrs d)" for a
  proof -
    obtain k where k: "k \<le> NDIRECT" "a = i_addrs d ! k"
      using \<open>a \<in> set _\<close> la by (metis Suc_eq_plus1 in_set_conv_nth less_Suc_eq_le)
    let ?k = "if k < NDIRECT then k else MAXFILE"
    have "slot (disk t) ((?D(i := d)) i) ?k = a" using k by (auto simp: slot_def blkaddr_def MAXFILE_def)
    moreover have "?k \<le> MAXFILE" by (simp add: MAXFILE_def)
    ultimately have "a < freeblock t \<or> a = 0" using layoutD(6) [OF ap(1) i, of ?k] by auto
    then show ?thesis using ap(2,3) m(1) by (auto simp: grows_def fs_size_def)
  qed
  have flds: "i_dev d = i_dev (?D i)" "i_inum d = i_inum (?D i)" "i_ref d = i_ref (?D i)" "i_busy d = i_busy (?D i)"
    "i_valid d = i_valid (?D i)" "i_type d = i_type (?D i)" "i_major d = i_major (?D i)" "i_minor d = i_minor (?D i)"
    "i_nlink d = i_nlink (?D i)"
    by (subst ap(4), simp)+
  have fits: "inode_fits x"
    using ondisk_fits [of "disk s" i] flds ap(5) sz la addr by (simp add: x_def inode_fits_def)
  have shape: "x = dinode0\<lparr>i_type := i_type x, i_major := i_major x, i_minor := i_minor x, i_nlink := i_nlink x,
      i_size := i_size x, i_addrs := i_addrs x\<rparr>"
    using flds ondisk_shape [of "disk s" i] by (intro inode.equality) (simp_all add: x_def ondisk_def load_dinode_def Let_def)
  define E where "E = ?D(i := x)"
  have aE: "i_addrs (E j) = i_addrs ((?D(i := d)) j)" for j by (simp add: E_def x_def)
  have Lt: "layout (disk t) E ?I (freeblock t)" by (rule layout_frame(1) [OF ap(1) refl layoutD(2) [OF ap(1)] aE])
  have sE: "slot (disk t) (E j) bm = slot (disk t) ((?D(i := d)) j) bm"
    and fE: "fbyte (disk t) (E j) k = fbyte (disk t) ((?D(i := d)) j) k" for j bm k
    using aE [of j] by (simp_all add: slot_def blkaddr_def fbyte_def)
  have Nt: "length (img t) = fs_size" "freeinode t = freeinode s" using ap(2) m(1) by (auto simp: grows_def)
  have On: "\<forall>j \<in> ?I. j \<noteq> i \<longrightarrow> ondisk (disk t) j = E j"
  proof (intro ballI impI)
    fix j assume j: "j \<in> ?I" "j \<noteq> i"
    have "disk t (i2b j) = disk s (i2b j)" using ap(2) i2b_low [of j] j m(2) by (simp add: grows_def)
    then show "ondisk (disk t) j = E j" using j by (simp add: ondisk_def E_def)
  qed
  have Ei: "E i = x" and aEi: "i_addrs (E i) = i_addrs x" by (simp_all add: E_def)
  note W = winode_ok [where D = E, OF Lt i m(2) Nt(1) On aEi fits shape B [unfolded xo, folded x_def]]
  have frame: "freeblock v = freeblock t" "usedblocks v = usedblocks t" "freeinode v = freeinode s" "length (img v) = fs_size"
    using W(1) Nt by simp_all
  have d1: "disk v 1 = sb_block" using W(6) ap(2) m(4) by (simp add: grows_def data_start_def)
  have Ov: "ondisk (disk v) j = E j" if "j \<in> ?I" for j using W(2) that by (auto simp: E_def)
  have szE: "i_size (E j) = (if j = i then off else i_size (?D j))" for j by (simp add: E_def x_def)
  have Fv: "fbyte (disk v) (E j) k = (if j = i \<and> ?n \<le> k \<and> k < off then p ! (k - ?n) else fbyte (disk s) (?D j) k)"
    if "j \<in> ?I" "k < MAXFILE * BSIZE" for j k
    using W(5) that fE fb Ov by simp
  have Sv: "(slot (disk v) (E j) bm \<noteq> 0) = (if j = i then bm * BSIZE < off else slot (disk s) (?D j) bm \<noteq> 0)"
    if "j \<in> ?I" "bm < MAXFILE" for j bm
    using W(4) that sE sl Ov by simp
  have "mk_inv v"
    unfolding mk_inv_def frame Let_def
  proof (intro conjI ballI)
    show "layout (disk v) (ondisk (disk v)) ?I (freeblock t)" using W(3) by simp
  next
    fix j assume j: "j \<in> ?I"
    show "i_size (ondisk (disk v) j) \<le> MAXFILE * BSIZE" using Ov [OF j] szE m(8) [OF j] ap(5) by simp
    show "\<forall>bm < MAXFILE. (slot (disk v) (ondisk (disk v) j) bm \<noteq> 0) = (bm * BSIZE < i_size (ondisk (disk v) j))"
      using Ov [OF j] Sv [OF j] szE m(9) [OF j] by simp
    show "\<forall>k < MAXFILE * BSIZE. i_size (ondisk (disk v) j) \<le> k \<longrightarrow> fbyte (disk v) (ondisk (disk v) j) k = 0"
      using Ov [OF j] Fv [OF j] szE m(10) [OF j] off by auto
  qed (use m ap d1 Nt in \<open>auto simp: grows_def\<close>)
  moreover have "content (disk v) (ondisk (disk v) j) = content (disk s) (?D j) @ (if j = i then p else [])"
    and "same_kind (?D j) (ondisk (disk v) j)" if j: "j \<in> ?I" for j
  proof -
    have l: "k < MAXFILE * BSIZE" if "k < i_size (E j)" for k
      using that szE m(8) [OF j] ap(5) by (auto split: if_splits)
    show "content (disk v) (ondisk (disk v) j) = content (disk s) (?D j) @ (if j = i then p else [])"
    proof (rule nth_equalityI)
      show "length (content (disk v) (ondisk (disk v) j)) = length (content (disk s) (?D j) @ (if j = i then p else []))"
        using Ov [OF j] szE off by simp
      fix k assume "k < length (content (disk v) (ondisk (disk v) j))"
      then have k: "k < i_size (E j)" using Ov [OF j] by simp
      then show "content (disk v) (ondisk (disk v) j) ! k = (content (disk s) (?D j) @ (if j = i then p else [])) ! k"
        using Ov [OF j] Fv [OF j l [OF k]] szE off by (auto simp: content_def nth_append split: if_splits)
    qed
    show "same_kind (?D j) (ondisk (disk v) j)"
      using Ov [OF j] flds by (simp add: same_kind_def E_def x_def)
  qed
  ultimately show "appends s v (\<lambda>j. if j = i then p else [])" using frame by (auto simp: appends_def)
  show "j \<in> ?I \<Longrightarrow> j \<noteq> i \<Longrightarrow> ondisk (disk v) j = ondisk (disk s) j" using Ov [of j] by (simp add: E_def)
  show "\<exists>d off t. append_loop (?D i) ?n p s = Ok (d, off) t \<and>
      i_addrs (ondisk (disk v) i) = i_addrs d \<and> freeblock v = freeblock t"
    using A Ov [OF i] frame(1) by (auto simp: E_def x_def)
qed

section \<open>Facts: the steps of main\<close>

text \<open>An inode without blocks can join a layout.\<close>

lemma layout_new:
  assumes L: "layout V D {1..<n} F" and x: "i_addrs x = replicate (NDIRECT + 1) 0" and n: "1 \<le> n"
  shows "layout V (D(n := x)) {1..<n + 1} F" "bm \<le> MAXFILE \<Longrightarrow> slot V x bm = 0"
proof -
  have z: "slot V x bm = 0" if "bm \<le> MAXFILE" for bm
  proof (cases "NDIRECT \<le> bm \<and> bm < MAXFILE")
    case True
    then show ?thesis using no_indirect [where V = V, OF layoutD(1) [OF L], of x bm] x by (simp del: replicate_Suc replicate.simps)
  next
    case False
    then have "bm < NDIRECT \<or> bm = MAXFILE" using that by auto
    then show ?thesis using x by (auto simp: slot_def blkaddr_def simp del: replicate_Suc replicate.simps)
  qed
  then show "bm \<le> MAXFILE \<Longrightarrow> slot V x bm = 0" .
  have I: "j \<in> {1..<n + 1} \<longleftrightarrow> j = n \<or> j \<in> {1..<n}" for j using n by auto
  have "(D(n := x)) j = D j" if "j \<in> {1..<n}" for j using that by simp
  then show "layout V (D(n := x)) {1..<n + 1} F"
    using L z x unfolding layout_def Ball_def I by (auto simp del: atLeastLessThan_iff)
qed

lemma mk_ialloc_ok:
  assumes inv: "mk_inv s" and n: "freeinode s < ninodes" and ty: "- (2 ^ 15) \<le> ty" "ty < 2 ^ 15"
    and run: "mk_ialloc ty s = Ok i t"
  shows "i = freeinode s \<and> mk_inv t \<and> freeinode t = freeinode s + 1
    \<and> (\<forall>j \<in> {1..<freeinode s}. same_kind (ondisk (disk s) j) (ondisk (disk t) j) \<and>
         content (disk t) (ondisk (disk t) j) = content (disk s) (ondisk (disk s) j))
    \<and> i_type (ondisk (disk t) i) = ty \<and> i_nlink (ondisk (disk t) i) = 1 \<and> content (disk t) (ondisk (disk t) i) = []"
    and "freeblock t = freeblock s" "i_addrs (ondisk (disk t) i) ! NDIRECT = 0"
    and "j \<in> {1..<freeinode s} \<Longrightarrow> ondisk (disk t) j = ondisk (disk s) j"
proof -
  note m = mk_invD [OF inv]
  let ?n = "freeinode s" and ?D = "ondisk (disk s)"
  define x where "x = dinode0\<lparr>i_type := ty, i_nlink := 1, i_size := 0\<rparr>"
  let ?s = "s\<lparr>freeinode := ?n + 1\<rparr>"
  have ds: "disk (s\<lparr>freeinode := k\<rparr>) = disk s" for k by (simp add: disk_def fun_eq_iff)
  have i: "i = ?n" and W0: "winode ?n x ?s = Ok () t"
    using run by (auto simp: mk_ialloc_def kbind_eq_Ok x_def)
  have x0: "i_addrs x = replicate (NDIRECT + 1) 0" by (simp add: x_def dinode0_def)
  note LN = layout_new [OF m(5) x0 m(6)]
  have fits: "inode_fits x" using ty by (simp add: x_def inode_fits_def dinode0_def)
  have shape: "x = dinode0\<lparr>i_type := i_type x, i_major := i_major x, i_minor := i_minor x, i_nlink := i_nlink x,
      i_size := i_size x, i_addrs := i_addrs x\<rparr>"
    by (simp add: x_def dinode0_def)
  define E where "E = ?D(?n := x)"
  have Ei: "E ?n = x" by (simp add: E_def)
  have L: "layout (disk ?s) E {1..<?n + 1} (freeblock s)" using LN(1) by (simp add: ds E_def)
  have nn: "?n \<in> {1..<?n + 1}" "?n + 1 \<le> ninodes" and Ns: "length (img ?s) = fs_size" using m(1,6) n by auto
  have On: "\<forall>j \<in> {1..<?n + 1}. j \<noteq> ?n \<longrightarrow> ondisk (disk ?s) j = E j" by (simp add: ds E_def)
  have aEi: "i_addrs (E ?n) = i_addrs x" by (simp add: E_def)
  note W = winode_ok [where D = E, OF L nn Ns On aEi fits shape W0]
  have frame: "freeblock t = freeblock s" "usedblocks t = usedblocks s" "freeinode t = ?n + 1" "length (img t) = fs_size"
    "disk t 1 = sb_block"
    using W(1,6) m(1,4) by (simp_all add: ds)
  have O: "ondisk (disk t) j = E j" if "j \<in> {1..<?n + 1}" for j using W(2) that by (auto simp: E_def)
  have old: "j \<in> {1..<?n} \<Longrightarrow> ondisk (disk t) j = ?D j" for j using O [of j] by (simp add: E_def)
  have S: "slot (disk t) (E j) bm = slot (disk s) (E j) bm" if "j \<in> {1..<?n + 1}" "bm \<le> MAXFILE" for j bm
    using W(4) [OF that] O [OF that(1)] ds by simp
  have Fb: "fbyte (disk t) (E j) k = fbyte (disk s) (E j) k" if "j \<in> {1..<?n + 1}" "k < MAXFILE * BSIZE" for j k
    using W(5) [OF that] O [OF that(1)] ds by simp
  have new: "ondisk (disk t) ?n = x" using O [of ?n] m(6) by (simp add: E_def)
  have zero: "fbyte (disk t) x k = 0" if "k < MAXFILE * BSIZE" for k
  proof -
    have "k div BSIZE \<le> MAXFILE" using less_mult_imp_div_less [OF that] by simp
    then have "slot (disk t) x (k div BSIZE) = 0" using S [of ?n "k div BSIZE"] LN(2) m(6) by (simp add: E_def)
    then show ?thesis using layoutD(1) [OF W(3)] by (simp add: fbyte_slot [OF that] BSIZE_def)
  qed
  have "mk_inv t"
    unfolding mk_inv_def frame Let_def
  proof (intro conjI ballI)
    show "layout (disk t) (ondisk (disk t)) {1..<?n + 1} (freeblock s)" using W(3) by simp
  next
    fix j assume j: "j \<in> {1..<?n + 1}"
    then consider "j = ?n" | "j \<in> {1..<?n}" by fastforce
    then have "i_size (ondisk (disk t) j) \<le> MAXFILE * BSIZE \<and>
        (\<forall>bm < MAXFILE. (slot (disk t) (ondisk (disk t) j) bm \<noteq> 0) = (bm * BSIZE < i_size (ondisk (disk t) j))) \<and>
        (\<forall>k < MAXFILE * BSIZE. i_size (ondisk (disk t) j) \<le> k \<longrightarrow> fbyte (disk t) (ondisk (disk t) j) k = 0)"
    proof cases
      case 1
      then show ?thesis using new S [OF j] LN(2) zero by (simp add: E_def) (simp add: x_def)
    next
      case 2
      then have "E j = ?D j" by (simp add: E_def)
      then show ?thesis using old [OF 2] S [OF j] Fb [OF j] m(8-10) [OF 2] by simp
    qed
    then show "i_size (ondisk (disk t) j) \<le> MAXFILE * BSIZE"
      "\<forall>bm < MAXFILE. (slot (disk t) (ondisk (disk t) j) bm \<noteq> 0) = (bm * BSIZE < i_size (ondisk (disk t) j))"
      "\<forall>k < MAXFILE * BSIZE. i_size (ondisk (disk t) j) \<le> k \<longrightarrow> fbyte (disk t) (ondisk (disk t) j) k = 0"
      by blast+
  qed (use m n in auto)
  moreover have "same_kind (?D j) (ondisk (disk t) j) \<and> content (disk t) (ondisk (disk t) j) = content (disk s) (?D j)"
    if j: "j \<in> {1..<?n}" for j
  proof -
    have "k < MAXFILE * BSIZE" if "k < i_size (?D j)" for k using that m(8) [OF j] by simp
    then show ?thesis
      using old [OF j] Fb [of j] j by (auto simp: same_kind_def content_def E_def intro!: map_cong)
  qed
  ultimately show "i = ?n \<and> mk_inv t \<and> freeinode t = ?n + 1
    \<and> (\<forall>j \<in> {1..<?n}. same_kind (?D j) (ondisk (disk t) j) \<and> content (disk t) (ondisk (disk t) j) = content (disk s) (?D j))
    \<and> i_type (ondisk (disk t) i) = ty \<and> i_nlink (ondisk (disk t) i) = 1 \<and> content (disk t) (ondisk (disk t) i) = []"
    using frame new i by (simp add: x_def content_def)
  show "freeblock t = freeblock s" "i_addrs (ondisk (disk t) i) ! NDIRECT = 0"
    using frame(1) new i x0 by (simp_all del: replicate_Suc replicate.simps)
  show "j \<in> {1..<?n} \<Longrightarrow> ondisk (disk t) j = ?D j" by (rule old)
qed

lemma same_kind_trans: "same_kind x y \<Longrightarrow> same_kind y z \<Longrightarrow> same_kind x z"
  by (simp add: same_kind_def)

lemma appends_trans:
  "appends s t f \<Longrightarrow> appends t u g \<Longrightarrow> appends s u (\<lambda>j. f j @ g j)"
  by (auto simp: appends_def intro: same_kind_trans)

lemma append_all_ok:
  "mk_inv s \<Longrightarrow> i \<in> {1..<freeinode s} \<Longrightarrow> append_all i cs s = Ok u t \<Longrightarrow>
   appends s t (\<lambda>j. if j = i then concat cs else [])"
proof (induction cs arbitrary: s)
  case Nil
  then show ?case by (simp add: appends_def same_kind_def)
next
  case (Cons c cs)
  then obtain v where v: "iappend i c s = Ok () v" "append_all i cs v = Ok u t" by (auto simp: kbind_eq_Ok)
  have a: "appends s v (\<lambda>j. if j = i then c else [])" by (rule iappend_ok(1) [OF Cons.prems(1,2) v(1)])
  then have "appends v t (\<lambda>j. if j = i then concat cs else [])"
    using Cons.IH [OF _ _ v(2)] Cons.prems(2) by (simp add: appends_def)
  from appends_trans [OF a this] show ?case by (simp add: if_distrib cong: if_cong)
qed

text \<open>The directory entries of a list of files whose first inode is given.\<close>

fun entries :: "nat \<Rightarrow> mk_file list \<Rightarrow> byte list list" where
  "entries n [] = []"
| "entries n ((nm, _) # fs) = mk_dirent (strip nm) n # entries (n + 1) fs"

lemma length_entries [simp]: "length (entries n fs) = length fs"
  by (induction n fs rule: entries.induct) auto

definition made :: "mk_state \<Rightarrow> mk_state \<Rightarrow> mk_file list \<Rightarrow> bool" where
  "made s t fs \<longleftrightarrow> mk_inv t \<and> freeinode t = freeinode s + length fs \<and>
     (\<forall>j \<in> {1..<freeinode s}. same_kind (ondisk (disk s) j) (ondisk (disk t) j) \<and>
        content (disk t) (ondisk (disk t) j) =
          content (disk s) (ondisk (disk s) j) @ (if j = ROOTINO then concat (entries (freeinode s) fs) else [])) \<and>
     (\<forall>k < length fs. let x = ondisk (disk t) (freeinode s + k) in i_type x = T_FILE \<and> i_nlink x = 1 \<and>
        Some (content (disk t) x) = map_option concat (snd (fs ! k)))"

lemma mk_files_ok:
  "mk_inv s \<Longrightarrow> ROOTINO < freeinode s \<Longrightarrow> freeinode s + length fs \<le> ninodes \<Longrightarrow> mk_files ROOTINO fs s = Ok u t \<Longrightarrow>
   made s t fs"
proof (induction fs arbitrary: s)
  case Nil
  then show ?case by (simp add: made_def same_kind_def)
next
  case (Cons f fs)
  obtain nm ch where f: "f = (nm, ch)" by (cases f)
  let ?n = "freeinode s"
  obtain chunks i s1 s2 s3 where ch: "ch = Some chunks" and a: "mk_ialloc T_FILE s = Ok i s1"
    and b: "iappend ROOTINO (mk_dirent (strip nm) (xshort i)) s1 = Ok () s2"
    and c: "append_all i chunks s2 = Ok () s3" and d: "mk_files ROOTINO fs s3 = Ok u t"
    using Cons.prems(4) unfolding f by (auto simp: kbind_eq_Ok split: if_splits option.splits)
  have n: "?n < ninodes" and ty: "- (2 ^ 15) \<le> T_FILE" "T_FILE < 2 ^ 15" using Cons.prems(3) by (auto simp: T_FILE_def)
  from mk_ialloc_ok(1) [OF Cons.prems(1) n ty a] have i: "i = ?n" and s1: "mk_inv s1" "freeinode s1 = ?n + 1"
    and o1: "\<And>j. j \<in> {1..<?n} \<Longrightarrow> same_kind (ondisk (disk s) j) (ondisk (disk s1) j) \<and>
         content (disk s1) (ondisk (disk s1) j) = content (disk s) (ondisk (disk s) j)"
    and n1: "i_type (ondisk (disk s1) ?n) = T_FILE" "i_nlink (ondisk (disk s1) ?n) = 1" "content (disk s1) (ondisk (disk s1) ?n) = []"
    by auto
  have xi: "xshort i = ?n" using n by (simp add: i ninodes_def)
  have r1: "ROOTINO \<in> {1..<freeinode s1}" "?n \<in> {1..<freeinode s1}" using Cons.prems(2) s1(2) by (auto simp: ROOTINO_def)
  have A2: "appends s1 s2 (\<lambda>j. if j = ROOTINO then mk_dirent (strip nm) ?n else [])"
    using iappend_ok(1) [OF s1(1) r1(1) b] by (simp only: xi)
  then have s2: "mk_inv s2" "freeinode s2 = ?n + 1" using s1(2) by (auto simp: appends_def)
  have A3: "appends s2 s3 (\<lambda>j. if j = ?n then concat chunks else [])"
    using append_all_ok [OF s2(1) _ c] r1(2) s1(2) s2(2) i by simp
  note A = appends_trans [OF A2 A3]
  then have s3: "mk_inv s3" "freeinode s3 = ?n + 1" using s1(2) by (auto simp: appends_def)
  have M: "made s3 t fs" using Cons.IH [OF s3(1) _ _ d] Cons.prems(2,3) s3(2) by simp
  have ne: "ROOTINO \<noteq> ?n" using Cons.prems(2) by simp
  have old: "same_kind (ondisk (disk s) j) (ondisk (disk t) j) \<and> content (disk t) (ondisk (disk t) j) =
      content (disk s) (ondisk (disk s) j) @ (if j = ROOTINO then concat (entries ?n ((nm, ch) # fs)) else [])"
    if j: "j \<in> {1..<?n}" for j
  proof -
    have jj: "j \<in> {1..<freeinode s1}" "j \<in> {1..<freeinode s3}" "j \<noteq> ?n" using j s1(2) s3(2) by auto
    note o1 [OF j] conjunct2 [OF conjunct2 [OF A [unfolded appends_def]], rule_format, OF jj(1)]
      conjunct1 [OF conjunct2 [OF conjunct2 [OF M [unfolded made_def]]], rule_format, OF jj(2)]
    then show ?thesis using jj(3) s3(2) by (simp add: same_kind_def)
  qed
  have new: "let x = ondisk (disk t) (?n + k) in i_type x = T_FILE \<and> i_nlink x = 1 \<and>
        Some (content (disk t) x) = map_option concat (snd (((nm, ch) # fs) ! k))" if k: "k < length (f # fs)" for k
  proof (cases k)
    case 0
    have "?n \<in> {1..<freeinode s1}" "?n \<in> {1..<freeinode s3}" using r1(2) s1(2) s3(2) by auto
    then show ?thesis using 0 n1 A M ne ch by (auto simp: appends_def made_def same_kind_def)
  next
    case (Suc k')
    with k M s3(2) show ?thesis by (auto simp: made_def Let_def)
  qed
  show ?case unfolding made_def using M s3(2) old new by (simp add: f made_def)
qed

text \<open>The empty image.\<close>

lemma wsect_zeroes: "kfor [0..<n] (\<lambda>i. wsect i zeroes) (s\<lparr>img := []\<rparr>) = Ok () (s\<lparr>img := replicate n zeroes\<rparr>)"
proof (induction n)
  case (Suc n)
  have "wsect n zeroes (s\<lparr>img := replicate n zeroes\<rparr>) = Ok () (s\<lparr>img := replicate (Suc n) zeroes\<rparr>)"
    by (simp add: wsect_def Let_def kmod_def replicate_append_same)
  with Suc show ?case by (simp add: kfor_append kseq_def kbind_def ret_def del: replicate_Suc)
qed (simp add: ret_def)

lemma length_sb_block [simp]: "length sb_block = BSIZE"
  by (simp add: sb_block_def BSIZE_def)

lemma dec_sb_block:
  "dec_superblock sb_block = \<lparr>sb_size = fs_size, sb_nblocks = nblocks, sb_ninodes = ninodes, sb_nlog = nlog\<rparr>"
proof -
  have v: "fs_size < 2 ^ 32" "nblocks < 2 ^ 32" "ninodes < 2 ^ 32" "nlog < 2 ^ 32"
    by (simp_all add: fs_size_def nblocks_def ninodes_def nlog_def LOGSIZE_def MAXOPBLOCKS_def)
  define L where "L = [fs_size, nblocks, ninodes, nlog]"
  have sb: "sb_block = overlay 0 (concat (map (enc_le 4) L)) zeroes" and len: "length L = 4"
    using v by (simp_all add: sb_block_def L_def)
  have "get_le 4 (4 * i) sb_block = L ! i" if "i < length L" for i
  proof -
    have "\<forall>x \<in> set L. x < 2 ^ 32" using v by (simp add: L_def)
    with that have "L ! i < 2 ^ 32" by (meson nth_mem)
    then show ?thesis using get_addrs [of 0 L zeroes i] that len by (simp add: sb BSIZE_def)
  qed
  from this [of 0] this [of 1] this [of 2] this [of 3] show ?thesis
    unfolding len by (simp add: dec_superblock_def L_def)
qed

lemma bitmap_test:
  "u \<le> BPB \<Longrightarrow> b < BPB \<Longrightarrow> bm_test (fold bm_set [0..<u] zeroes) b = (b < u) \<and> length (fold bm_set [0..<u] zeroes) = BSIZE"
proof (induction u)
  case 0
  then show ?case by (simp add: bm_test_def BPB_def)
next
  case (Suc u)
  then have "b div 8 < BSIZE" "u div 8 < BSIZE" by (auto simp: BPB_def BSIZE_def)
  with Suc show ?case using bm_set_test [of b "fold bm_set [0..<u] zeroes" u] by auto
qed

section \<open>Facts: the finished image\<close>

lemma slot_mapped: "V 0 = zeroes \<Longrightarrow> bn < MAXFILE \<Longrightarrow> mapped V x bn = (slot V x bn \<noteq> 0)"
  using no_indirect [of V x bn] by (auto simp: mapped_def slot_def intro!: gr0I)

lemma dirent_content:
  assumes "off + DIRENT_SIZE \<le> length (content V x)"
  shows "dirent_at V x off = subrange off DIRENT_SIZE (content V x)"
  using assms by (intro nth_equalityI) (auto simp: dirent_at_def content_def subrange_def)

lemma subrange_concat:
  "(\<And>x. x \<in> set xs \<Longrightarrow> length x = m) \<Longrightarrow> k < length xs \<Longrightarrow> subrange (m * k) m (concat xs) = xs ! k"
proof (induction xs arbitrary: k)
  case (Cons x xs)
  show ?case
  proof (cases k)
    case (Suc j)
    have "subrange (m * k) m (concat (x # xs)) = subrange (m * j) m (concat xs)"
      using Cons.prems(1) Suc by (simp add: subrange_def)
    with Cons Suc show ?thesis by simp
  qed (use Cons in \<open>simp add: subrange_def\<close>)
qed simp

lemma length_concat_eq: "(\<And>x. x \<in> set xs \<Longrightarrow> length x = m) \<Longrightarrow> length (concat xs) = m * length xs"
  by (induction xs) auto

lemma entries_size: "x \<in> set (entries n fs) \<Longrightarrow> length x = DIRENT_SIZE"
  by (induction n fs rule: entries.induct) (auto simp: mk_dirent_fields)

text \<open>All entries of the root directory.\<close>

definition root_entries :: "mk_file list \<Rightarrow> byte list list" where
  "root_entries fs = mk_dirent [46] ROOTINO # mk_dirent [46, 46] ROOTINO # entries 2 fs"

lemma root_entries_size: "x \<in> set (root_entries fs) \<Longrightarrow> length x = DIRENT_SIZE"
  by (auto simp: root_entries_def mk_dirent_fields dest: entries_size)

lemma root_entries_length [simp]: "length (root_entries fs) = length fs + 2"
  by (simp add: root_entries_def)

text \<open>The image after the files are in, before the root's size is rounded and the bitmap written.\<close>

definition filled :: "mk_file list \<Rightarrow> mk_state \<Rightarrow> bool" where
  "filled fs t \<longleftrightarrow> mk_inv t \<and> freeinode t = length fs + 2 \<and>
     i_type (ondisk (disk t) ROOTINO) = T_DIR \<and> i_nlink (ondisk (disk t) ROOTINO) = 1 \<and>
     content (disk t) (ondisk (disk t) ROOTINO) = concat (root_entries fs) \<and>
     (\<forall>k < length fs. let x = ondisk (disk t) (k + 2) in i_type x = T_FILE \<and> i_nlink x = 1 \<and>
        Some (content (disk t) x) = map_option concat (snd (fs ! k)))"

text \<open>The last steps of \<open>main\<close>.\<close>

definition mkfs_end :: "(mk_state, unit) kmon" where
  "mkfs_end =
     kbind (rinode ROOTINO) (\<lambda>din.
     kbind (winode ROOTINO (din\<lparr>i_size := xint ((xint (i_size din) div BSIZE + 1) * BSIZE)\<rparr>)) (\<lambda>_.
     kbind (kget usedblocks) (\<lambda>u. mk_balloc u)))"

definition used0 :: nat where "used0 = 29"

definition empty_image :: mk_state where
  "empty_image = \<lparr>img = (replicate 1024 zeroes)[1 := sb_block], freeblock = used0, usedblocks = used0, freeinode = 1\<rparr>"

lemma mkfs_begin:
  "mkfs fs mk_start = kbind (mk_ialloc T_DIR) (\<lambda>rootino.
      if rootino \<noteq> ROOTINO then kpanic ''rootino'' else
      kbind (iappend rootino (mk_dirent [46] (xshort rootino))) (\<lambda>_.
      kbind (iappend rootino (mk_dirent [46, 46] (xshort rootino))) (\<lambda>_.
      kbind (mk_files rootino fs) (\<lambda>_.
      kbind (rinode rootino) (\<lambda>din.
      kbind (winode rootino (din\<lparr>i_size := xint ((xint (i_size din) div BSIZE + 1) * BSIZE)\<rparr>)) (\<lambda>_.
      kbind (kget usedblocks) (\<lambda>u. mk_balloc u))))))) empty_image"
proof -
  let ?s = "\<lparr>img = [], freeblock = used0, usedblocks = used0, freeinode = 1\<rparr>"
  have u: "ninodes div IPB + 3 + (fs_size div (512 * 8) + 1) = used0" "nblocks + used0 + nlog = 1024" "fs_size = 1024"
    by (simp_all add: ninodes_def IPB_def BSIZE_def DINODE_SIZE_def fs_size_def used0_def nblocks_def nlog_def
      LOGSIZE_def MAXOPBLOCKS_def)
  have z: "kfor [0..<1024] (\<lambda>i. wsect i zeroes) ?s = Ok () (?s\<lparr>img := replicate 1024 zeroes\<rparr>)"
    using wsect_zeroes [of 1024 ?s] by simp
  have "wsect 1 sb_block (?s\<lparr>img := replicate 1024 zeroes\<rparr>) = Ok () empty_image"
    by (simp add: wsect_eq upd_disk_def empty_image_def del: replicate.simps)
  with z show ?thesis
    unfolding mkfs_def Let_def mk_start_def unfolding u(1) unfolding u(2,3)
    by (simp add: kbind_def [of "kfor _ _"] kbind_def [of "wsect _ _"] del: replicate.simps upt_Suc)
qed

lemma empty_image_inv: "mk_inv empty_image"
proof -
  have d: "disk empty_image b = (if b = 1 then sb_block else zeroes)" for b
    by (simp add: disk_def empty_image_def nth_list_update del: replicate.simps)
  have "layout (disk empty_image) D {1..<1} used0" for D
    by (simp add: layout_def d used0_def data_start_def)
  then show ?thesis
    unfolding mk_inv_def by (simp add: d fs_size_def ninodes_def) (simp add: empty_image_def used0_def)
qed

lemma mkfs_filled:
  assumes run: "mkfs fs mk_start = Ok u t" and n: "length fs + 2 \<le> ninodes"
  obtains s where "filled fs s" "mkfs_end s = Ok u t"
proof -
  obtain r s1 s2 s3 s where a: "mk_ialloc T_DIR empty_image = Ok r s1" and r: "r = ROOTINO"
    and b: "iappend r (mk_dirent [46] (xshort r)) s1 = Ok () s2"
    and c: "iappend r (mk_dirent [46, 46] (xshort r)) s2 = Ok () s3"
    and d: "mk_files r fs s3 = Ok () s" and e: "mkfs_end s = Ok u t"
    using run unfolding mkfs_begin mkfs_end_def by (auto simp: kbind_eq_Ok split: if_splits)
  have f1: "freeinode empty_image = 1" by (simp add: empty_image_def)
  have ty: "- (2 ^ 15) \<le> T_DIR" "T_DIR < 2 ^ 15" "freeinode empty_image < ninodes"
    using f1 n by (auto simp: T_DIR_def)
  from mk_ialloc_ok(1) [OF empty_image_inv ty(3,1,2) a] f1 have s1: "mk_inv s1" "freeinode s1 = 2"
    "i_type (ondisk (disk s1) 1) = T_DIR" "i_nlink (ondisk (disk s1) 1) = 1" "content (disk s1) (ondisk (disk s1) 1) = []"
    by auto
  have R: "ROOTINO = 1" and x: "xshort r = ROOTINO" using r by (simp_all add: ROOTINO_def)
  have A2: "appends s1 s2 (\<lambda>j. if j = r then mk_dirent [46] ROOTINO else [])"
    using iappend_ok(1) [OF s1(1) _ b] s1(2) r R unfolding x by simp
  then have s2: "mk_inv s2" "freeinode s2 = 2" using s1(2) by (auto simp: appends_def)
  have A3: "appends s2 s3 (\<lambda>j. if j = r then mk_dirent [46, 46] ROOTINO else [])"
    using iappend_ok(1) [OF s2(1) _ c] s2(2) r R unfolding x by simp
  then have s3: "mk_inv s3" "freeinode s3 = 2" using s2(2) by (auto simp: appends_def)
  have M: "made s3 s fs" using mk_files_ok [OF s3(1), of fs u] n d s3(2) r by (simp add: ROOTINO_def)
  have A: "same_kind (ondisk (disk s1) 1) (ondisk (disk s3) 1) \<and>
    content (disk s3) (ondisk (disk s3) 1) = mk_dirent [46] ROOTINO @ mk_dirent [46, 46] ROOTINO"
    using appends_trans [OF A2 A3] s1 r R by (simp add: appends_def)
  have "filled fs s"
    using M A s1(3,4) s3(2) R by (auto simp: filled_def made_def same_kind_def root_entries_def add.commute)
  then show thesis using e by (rule that)
qed

text \<open>Rounding the size of the root and writing the bitmap.\<close>

lemma mkfs_end_ok:
  assumes f: "filled fs s" and run: "mkfs_end s = Ok u t" and n: "length fs + 2 \<le> ninodes"
  defines "x \<equiv> ondisk (disk s) ROOTINO"
  shows "length (img t) = fs_size \<and> disk t 1 = sb_block \<and> freeblock t = freeblock s
      \<and> disk t 28 = fold bm_set [0..<freeblock s] zeroes
      \<and> layout (disk t) (ondisk (disk t)) {1..<length fs + 2} (freeblock t)"
    and "i \<in> {1..<length fs + 2} \<Longrightarrow> ondisk (disk t) i =
      (if i = ROOTINO then x\<lparr>i_size := (i_size x div BSIZE + 1) * BSIZE\<rparr> else ondisk (disk s) i)"
    and "i \<in> {1..<length fs + 2} \<Longrightarrow> bm < MAXFILE \<Longrightarrow>
      slot (disk t) (ondisk (disk t) i) bm = slot (disk s) (ondisk (disk s) i) bm"
    and "i \<in> {1..<length fs + 2} \<Longrightarrow> k < MAXFILE * BSIZE \<Longrightarrow>
      fbyte (disk t) (ondisk (disk t) i) k = fbyte (disk s) (ondisk (disk s) i) k"
proof -
  have inv: "mk_inv s" and fi: "freeinode s = length fs + 2" using f by (auto simp: filled_def)
  note m = mk_invD [OF inv, unfolded fi]
  let ?I = "{1..<length fs + 2}" and ?D = "ondisk (disk s)"
  define off where "off = (i_size x div BSIZE + 1) * BSIZE"
  define y where "y = x\<lparr>i_size := off\<rparr>"
  have R: "ROOTINO \<in> ?I" by (simp add: ROOTINO_def)
  have sz: "MAXFILE * BSIZE + BSIZE < 2 ^ 32" by (simp add: MAXFILE_def NDIRECT_def NINDIRECT_def BSIZE_def)
  have "i_size x \<le> MAXFILE * BSIZE" using m(8) [OF R] by (simp add: x_def)
  moreover have "i_size x div BSIZE * BSIZE \<le> i_size x" by simp
  moreover have "off = i_size x div BSIZE * BSIZE + BSIZE" by (simp add: off_def)
  ultimately have "i_size x < 2 ^ 32" "off < 2 ^ 32" using sz by linarith+
  then have xi: "xint (i_size x) = i_size x" "xint (BSIZE + i_size x div BSIZE * BSIZE) = off"
    by (simp_all add: off_def)
  obtain v where W0: "winode ROOTINO y s = Ok () v" and B: "mk_balloc (usedblocks v) v = Ok u t"
    using run by (auto simp: mkfs_end_def rinode_def kbind_eq_Ok rsect_eq xi y_def simp flip: ondisk_def x_def split: if_splits)
  have fits: "inode_fits y" using ondisk_fits [of "disk s" ROOTINO] \<open>off < 2 ^ 32\<close> by (simp add: y_def x_def inode_fits_def)
  have shape: "y = dinode0\<lparr>i_type := i_type y, i_major := i_major y, i_minor := i_minor y, i_nlink := i_nlink y,
      i_size := i_size y, i_addrs := i_addrs y\<rparr>"
    using ondisk_shape [of "disk s" ROOTINO] by (simp add: y_def x_def ondisk_def load_dinode_def Let_def)
  have On: "\<forall>j \<in> ?I. j \<noteq> ROOTINO \<longrightarrow> ?D j = ?D j" and aE: "i_addrs (?D ROOTINO) = i_addrs y"
    by (simp_all add: y_def x_def)
  note W = winode_ok [where D = ?D, OF m(5) R n m(1) On aE fits shape W0]
  have v: "freeblock v = freeblock s" "usedblocks v = freeblock s" "length (img v) = fs_size" "disk v 1 = sb_block"
    using W(1,6) m(1,4,7) by simp_all
  have ub: "freeblock s < 512 * 8" and s28: "ninodes div IPB + 3 = 28" "28 < length (img v)"
    using m(3) v(3) by (auto simp: fs_size_def ninodes_def IPB_def BSIZE_def DINODE_SIZE_def)
  let ?bm = "fold bm_set [0..<freeblock s] zeroes"
  have t: "t = upd_disk 28 ?bm v"
    using B ub s28 unfolding mk_balloc_def s28(1) v(2) by (simp add: wsect_eq)
  have dt: "disk t = (disk v)(28 := ?bm)" using s28 by (simp add: t)
  have lb: "length ?bm = BSIZE" using bitmap_test [of "freeblock s" 0] ub by (simp add: BPB_def BSIZE_def)
  have V: "disk t b = disk v b" if "b = 0 \<or> data_start \<le> b" for b using that by (auto simp: dt data_start_def)
  have l: "length (disk t b) = BSIZE" for b using layoutD(2) [OF W(3)] lb by (simp add: dt)
  have O: "ondisk (disk t) j = ondisk (disk v) j" if "j \<in> ?I" for j
  proof -
    have "j < 200" using that n by (simp add: ninodes_def)
    then have "i2b j \<noteq> 28" by (simp add: i2b_def IPB_def BSIZE_def DINODE_SIZE_def)
    then show ?thesis by (simp add: ondisk_def dt)
  qed
  have A: "i_addrs (ondisk (disk t) j) = i_addrs (ondisk (disk v) j)" if "j \<in> ?I" for j using O [OF that] by simp
  note fr = layout_frame [where D' = "ondisk (disk t)", OF W(3) V l A]
  have "layout (disk t) (ondisk (disk t)) ?I (freeblock s)" by (rule fr(1); assumption)
  then show "length (img t) = fs_size \<and> disk t 1 = sb_block \<and> freeblock t = freeblock s \<and> disk t 28 = ?bm
      \<and> layout (disk t) (ondisk (disk t)) ?I (freeblock t)"
    using v s28 by (simp add: t)
  show "ondisk (disk t) i = (if i = ROOTINO then x\<lparr>i_size := (i_size x div BSIZE + 1) * BSIZE\<rparr> else ?D i)" if "i \<in> ?I"
    using O [OF that] W(2) [OF that] by (simp add: y_def off_def)
  show "slot (disk t) (ondisk (disk t) i) bm = slot (disk s) (?D i) bm" if i: "i \<in> ?I" "bm < MAXFILE"
  proof -
    have "slot (disk t) (ondisk (disk t) i) bm = slot (disk v) (ondisk (disk v) i) bm"
      using i by (intro fr(2)) auto
    then show ?thesis using W(4) i by simp
  qed
  show "fbyte (disk t) (ondisk (disk t) i) k = fbyte (disk s) (?D i) k" if i: "i \<in> ?I" "k < MAXFILE * BSIZE"
  proof -
    have "fbyte (disk t) (ondisk (disk t) i) k = fbyte (disk v) (ondisk (disk v) i) k"
      using i by (intro fr(3)) auto
    then show ?thesis using W(5) i by simp
  qed
qed

text \<open>What \<open>mkfs\<close> leaves of a list of files.\<close>

definition image_of :: "mk_file list \<Rightarrow> mk_state \<Rightarrow> bool" where
  "image_of fs t \<longleftrightarrow>
     (\<forall>k < length fs. let x = ondisk (disk t) (k + 2) in i_type x = T_FILE \<and> i_nlink x = 1 \<and>
        Some (content (disk t) x) = map_option concat (snd (fs ! k)) \<and> (\<forall>i < i_size x. mapped (disk t) x (i div BSIZE)))"

definition root_of :: "mk_file list \<Rightarrow> mk_state \<Rightarrow> bool" where
  "root_of fs t \<longleftrightarrow> (let x = ondisk (disk t) ROOTINO in i_type x = T_DIR \<and> i_nlink x = 1 \<and>
     (\<forall>k < length fs + 2. dirent_at (disk t) x (16 * k) = root_entries fs ! k) \<and>
     (\<forall>k. length fs + 2 \<le> k \<and> 16 * k < i_size x \<longrightarrow> de_inum (dirent_at (disk t) x (16 * k)) = 0) \<and>
     i_size x = (16 * (length fs + 2) div BSIZE + 1) * BSIZE \<and>
     (\<forall>i < i_size x. mapped (disk t) x (i div BSIZE)) = ((length fs + 2) mod 32 \<noteq> 0))"

lemma mapped_end:
  assumes f: "filled fs s" and e: "mkfs_end s = Ok u t" and n: "length fs + 2 \<le> ninodes" and i: "i \<in> {1..<length fs + 2}"
  shows "bm < MAXFILE \<Longrightarrow> mapped (disk t) (ondisk (disk t) i) bm = (bm * BSIZE < i_size (ondisk (disk s) i))"
proof -
  have inv: "mk_inv s" and fi: "freeinode s = length fs + 2" using f by (auto simp: filled_def)
  note m = mk_invD(9) [OF inv, unfolded fi, OF i] and E = mkfs_end_ok [OF f e n]
  have L: "disk t 0 = zeroes" using layoutD(1) E(1) by blast
  show "bm < MAXFILE \<Longrightarrow> mapped (disk t) (ondisk (disk t) i) bm = (bm * BSIZE < i_size (ondisk (disk s) i))"
    using slot_mapped [where V = "disk t", OF L] E(3) [OF i] m by simp
qed

lemma image_of_end:
  assumes f: "filled fs s" and e: "mkfs_end s = Ok u t" and n: "length fs + 2 \<le> ninodes"
  shows "image_of fs t"
proof -
  have inv: "mk_inv s" and fi: "freeinode s = length fs + 2" using f by (auto simp: filled_def)
  note m = mk_invD(8) [OF inv, unfolded fi] and E = mkfs_end_ok [OF f e n]
  have "let x = ondisk (disk t) (k + 2) in i_type x = T_FILE \<and> i_nlink x = 1 \<and>
        Some (content (disk t) x) = map_option concat (snd (fs ! k)) \<and> (\<forall>i < i_size x. mapped (disk t) x (i div BSIZE))"
    if k: "k < length fs" for k
  proof -
    let ?x = "ondisk (disk s) (k + 2)"
    have i: "k + 2 \<in> {1..<length fs + 2}" "k + 2 \<noteq> ROOTINO" using k by (auto simp: ROOTINO_def)
    have x: "ondisk (disk t) (k + 2) = ?x" using E(2) [OF i(1)] i(2) by (simp only: if_False simp_thms)
    have b: "j < MAXFILE * BSIZE" "j div BSIZE < MAXFILE" if "j < i_size ?x" for j
    proof -
      show "j < MAXFILE * BSIZE" using that m [OF i(1)] by simp
      then show "j div BSIZE < MAXFILE" by (rule less_mult_imp_div_less)
    qed
    have "content (disk t) ?x = content (disk s) ?x"
      unfolding content_def using E(4) [OF i(1)] b(1) unfolding x by (intro map_cong) auto
    moreover have "mapped (disk t) ?x (j div BSIZE)" if j: "j < i_size ?x" for j
    proof -
      have "j div BSIZE * BSIZE \<le> j" by simp
      then have "j div BSIZE * BSIZE < i_size ?x" using j by linarith
      then show ?thesis using mapped_end [OF f e n i(1) b(2) [OF j]] unfolding x by simp
    qed
    ultimately show ?thesis using f k unfolding filled_def x Let_def by simp
  qed
  then show ?thesis by (simp add: image_of_def)
qed

lemma whole_entry: "16 * k < m * 512 \<Longrightarrow> 16 * k + 16 \<le> m * (512::nat)"
proof -
  assume "16 * k < m * 512"
  then have "16 * k < 16 * (m * 32)" by simp
  then have "k + 1 \<le> m * 32" by simp
  then show ?thesis by linarith
qed

lemma round_up: "n < (n div 512 + 1) * (512::nat)"
  by simp

lemma root_of_end:
  assumes f: "filled fs s" and e: "mkfs_end s = Ok u t" and n: "length fs + 2 \<le> ninodes"
  shows "root_of fs t"
proof -
  have inv: "mk_inv s" and fi: "freeinode s = length fs + 2" using f by (auto simp: filled_def)
  note E = mkfs_end_ok [OF f e n]
  let ?x = "ondisk (disk s) ROOTINO" and ?n = "length fs + 2"
  have i: "ROOTINO \<in> {1..<?n}" by (simp add: ROOTINO_def)
  define x where "x = ondisk (disk t) ROOTINO"
  have x: "x = ?x\<lparr>i_size := (i_size ?x div BSIZE + 1) * BSIZE\<rparr>" using E(2) [OF i] by (simp add: x_def)
  have c: "content (disk s) ?x = concat (root_entries fs)" using f by (simp add: filled_def)
  then have sz: "i_size ?x = 16 * ?n"
    using length_concat_eq [of "root_entries fs" DIRENT_SIZE] root_entries_size length_content [of "disk s" ?x]
    by (simp add: DIRENT_SIZE_def)
  have ix: "i_size x = (16 * ?n div 512 + 1) * 512" unfolding x by (simp add: sz BSIZE_def)
  have q: "16 * ?n div 512 \<le> 6" using n by (simp add: ninodes_def)
  have fb: "fbyte (disk t) x k = fbyte (disk s) ?x k" if "k < MAXFILE * BSIZE" for k
    using E(4) [OF i that] by (simp add: x_def)
  have big: "k < MAXFILE * BSIZE" if "k < i_size x" for k
    using that q unfolding x by (simp add: sz MAXFILE_def NDIRECT_def NINDIRECT_def BSIZE_def)
  have de: "dirent_at (disk t) x (16 * k) = dirent_at (disk s) ?x (16 * k)" if "16 * k < i_size x" for k
  proof -
    have "16 * k + 16 \<le> i_size x" using that unfolding ix by (rule whole_entry)
    then show ?thesis unfolding dirent_at_def using fb big by (intro map_cong) (auto simp: DIRENT_SIZE_def)
  qed
  have lt: "i_size ?x < i_size x" unfolding ix sz by (rule round_up)
  have "dirent_at (disk t) x (16 * k) = root_entries fs ! k" if k: "k < ?n" for k
  proof -
    have "16 * k + DIRENT_SIZE \<le> length (content (disk s) ?x)" using k sz by (simp add: DIRENT_SIZE_def)
    then have "dirent_at (disk s) ?x (16 * k) = root_entries fs ! k"
      using dirent_content [of "16 * k" "disk s" ?x] subrange_concat [of "root_entries fs" DIRENT_SIZE k] root_entries_size k
      by (simp add: c DIRENT_SIZE_def)
    then show ?thesis using de [of k] lt k sz by simp
  qed
  moreover have "de_inum (dirent_at (disk t) x (16 * k)) = 0" if k: "?n \<le> k" "16 * k < i_size x" for k
  proof -
    have "fbyte (disk s) ?x j = 0" if "j \<in> set [16 * k..<16 * k + 16]" for j
    proof -
      have "j < i_size x" using that whole_entry [OF k(2) [unfolded ix]] unfolding ix by simp
      then show ?thesis using mk_invD(10) [OF inv, unfolded fi, OF i big] that k(1) sz by simp
    qed
    then have "dirent_at (disk s) ?x (16 * k) = replicate 16 0"
      unfolding dirent_at_def DIRENT_SIZE_def by (intro nth_equalityI) auto
    then show ?thesis using de [OF k(2)] by (simp add: de_inum_def get_le_zeroes)
  qed
  moreover have "(\<forall>j < i_size x. mapped (disk t) x (j div BSIZE)) = (?n mod 32 \<noteq> 0)"
  proof -
    have mp: "mapped (disk t) x (j div BSIZE) = (j div BSIZE * BSIZE < 16 * ?n)" if "j < i_size x" for j
      using mapped_end [OF f e n i less_mult_imp_div_less [OF big [OF that]]] by (simp add: x_def sz)
    have md: "(16 * ?n) mod 512 = 16 * (?n mod 32)" using mult_mod_right [of 16 ?n 32] by simp
    show ?thesis
    proof
      assume a: "\<forall>j < i_size x. mapped (disk t) x (j div BSIZE)"
      define j where "j = 16 * ?n div 512 * 512"
      have jl: "j < i_size x" by (simp add: j_def ix)
      with a have "mapped (disk t) x (j div BSIZE)" by blast
      then have "j div BSIZE * BSIZE < 16 * ?n" using mp [OF jl] by blast
      moreover have "j div BSIZE * BSIZE = j" by (simp add: j_def BSIZE_def)
      ultimately have "j < 16 * ?n" by (simp only:)
      then have "(16 * ?n) mod 512 \<noteq> 0" by (simp add: j_def minus_mod_eq_div_mult [symmetric])
      then show "?n mod 32 \<noteq> 0" unfolding md by simp
    next
      assume "?n mod 32 \<noteq> 0"
      then have z: "(16 * ?n) mod 512 \<noteq> 0" unfolding md by simp
      show "\<forall>j < i_size x. mapped (disk t) x (j div BSIZE)"
      proof (intro allI impI)
        fix j assume j: "j < i_size x"
        then have "j div 512 < 16 * ?n div 512 + 1" unfolding ix by (rule less_mult_imp_div_less)
        then have "j div 512 * 512 \<le> 16 * ?n div 512 * 512" by simp
        moreover have "16 * ?n div 512 * 512 + (16 * ?n) mod 512 = 16 * ?n" by (rule div_mult_mod_eq)
        ultimately have "j div 512 * 512 < 16 * ?n" using z by linarith
        then show "mapped (disk t) x (j div BSIZE)" using mp [OF j] by (simp add: BSIZE_def)
      qed
    qed
  qed
  moreover have "i_type x = T_DIR" "i_nlink x = 1" using f unfolding x by (simp_all add: filled_def)
  moreover have "i_size x = (16 * ?n div BSIZE + 1) * BSIZE" using ix by (simp add: BSIZE_def)
  ultimately show ?thesis unfolding root_of_def x_def [symmetric] Let_def by blast
qed

lemma mkfs_image_aux:
  assumes run: "mkfs fs mk_start = Ok u t" and n: "length fs + 2 \<le> ninodes"
  shows "dec_superblock (disk t 1) = \<lparr>sb_size = 1024, sb_nblocks = 965, sb_ninodes = 200, sb_nlog = 30\<rparr>"
    and "\<forall>b < 1024. in_use (disk t) b = (b < freeblock t)"
    and "layout (disk t) (ondisk (disk t)) {1..<length fs + 2} (freeblock t)"
    and "image_of fs t" "root_of fs t"
proof -
  obtain s where f: "filled fs s" and e: "mkfs_end s = Ok u t" using mkfs_filled [OF run n] .
  have inv: "mk_inv s" and fi: "freeinode s = length fs + 2" using f by (auto simp: filled_def)
  note m = mk_invD(3) [OF inv] and E = mkfs_end_ok(1) [OF f e n]
  have ed: "disk t 1 = sb_block" "freeblock t = freeblock s" "disk t 28 = fold bm_set [0..<freeblock s] zeroes"
    and L: "layout (disk t) (ondisk (disk t)) {1..<length fs + 2} (freeblock t)"
    using E by blast+
  show "dec_superblock (disk t 1) = \<lparr>sb_size = 1024, sb_nblocks = 965, sb_ninodes = 200, sb_nlog = 30\<rparr>"
    unfolding ed dec_sb_block by (simp add: fs_size_def nblocks_def ninodes_def nlog_def LOGSIZE_def MAXOPBLOCKS_def)
  have ni: "sb_ninodes (dec_superblock sb_block) = ninodes" by (simp add: dec_sb_block)
  have B: "BBLOCK b ninodes = 28" if "b < 1024" for b
    using that by (simp add: BBLOCK_def BPB_def ninodes_def IPB_def BSIZE_def DINODE_SIZE_def)
  show "\<forall>b < 1024. in_use (disk t) b = (b < freeblock t)"
  proof (intro allI impI)
    fix b :: nat assume b: "b < 1024"
    have "freeblock s \<le> BPB" "b < BPB" using m b by (simp_all add: fs_size_def BPB_def BSIZE_def)
    moreover from this have "b mod BPB = b" by simp
    ultimately show "in_use (disk t) b = (b < freeblock t)"
      using bitmap_test [of "freeblock s" b] unfolding in_use_def ed ni B [OF b] by simp
  qed
  show "layout (disk t) (ondisk (disk t)) {1..<length fs + 2} (freeblock t)" by (rule L)
  show "image_of fs t" by (rule image_of_end [OF f e n])
  show "root_of fs t" by (rule root_of_end [OF f e n])
qed

section \<open>Facts: when there is room\<close>

text \<open>A file pays one block for every block of its contents, and one for its indirect block when it is
  first needed.\<close>

definition unpaid :: "inode \<Rightarrow> nat" where
  "unpaid x = (if i_addrs x ! NDIRECT = 0 then 1 else 0)"

definition nblk :: "nat \<Rightarrow> nat" where
  "nblk n = (n + 511) div 512"

lemma file_block_total:
  assumes L: "layout (disk s) D I (freeblock s)" and i: "i \<in> I" and m: "fbn < MAXFILE" and N: "length (img s) < 2 ^ 31"
    and room: "freeblock s + unpaid (D i) + (if slot (disk s) (D i) fbn = 0 then 1 else 0) \<le> length (img s)"
  shows "\<exists>d x t. file_block (D i) fbn s = Ok (d, x) t \<and>
    freeblock t + unpaid d = freeblock s + unpaid (D i) + (if slot (disk s) (D i) fbn = 0 then 1 else 0)"
proof -
  note l = layoutD [OF L]
  have la: "length (i_addrs (D i)) = 13" using l(5) [OF i] by (simp add: NDIRECT_def)
  have F: "freeblock s < 2 ^ 31" using room N by simp
  have ai: "i_addrs (D i) ! NDIRECT < 2 ^ 31"
    using l(6) [OF i, of MAXFILE] F by (cases "i_addrs (D i) ! NDIRECT = 0") (auto simp: slot_def)
  show ?thesis
  proof (cases "fbn < NDIRECT")
    case True
    then have sl: "slot (disk s) (D i) fbn = i_addrs (D i) ! fbn" using m by (simp add: slot_def blkaddr_def)
    have a: "i_addrs (D i) ! fbn < 2 ^ 32" using l(6) [OF i, of fbn] m F sl by (cases "i_addrs (D i) ! fbn = 0") auto
    show ?thesis
    proof (cases "i_addrs (D i) ! fbn = 0")
      case True
      then show ?thesis using \<open>fbn < NDIRECT\<close> sl F la
        by (simp add: file_block_def kbind_def next_block_eq ret_def unpaid_def set_addr_def nth_list_update NDIRECT_def)
    next
      case False
      then show ?thesis using \<open>fbn < NDIRECT\<close> sl a by (simp add: file_block_def)
    qed
  next
    case False
    then have nd: "NDIRECT \<le> fbn" by simp
    let ?o = "4 * (fbn - NDIRECT)" and ?a = "i_addrs (D i) ! NDIRECT"
    have A: "\<exists>d u. (if xint ?a = 0 then kbind next_block (\<lambda>b. ret (set_addr NDIRECT b (D i))) else ret (D i)) s = Ok d u \<and>
        freeblock u + unpaid d = freeblock s + unpaid (D i) \<and> length (img u) = length (img s) \<and> disk u = disk s"
      using ai la F l(4)
      by (cases "?a = 0") (simp_all add: kbind_def next_block_eq ret_def unpaid_def set_addr_def NDIRECT_def data_start_def)
    then obtain d u where A: "(if xint ?a = 0 then kbind next_block (\<lambda>b. ret (set_addr NDIRECT b (D i))) else ret (D i)) s = Ok d u"
      and u: "freeblock u + unpaid d = freeblock s + unpaid (D i)" "length (img u) = length (img s)" "disk u = disk s" by blast
    from indirect_block [OF L i F A] have L1: "layout (disk u) (D(i := d)) I (freeblock u)" and i0: "i_addrs d ! NDIRECT \<noteq> 0"
      and sd: "slot (disk u) d fbn = slot (disk s) (D i) fbn"
      using m unfolding u(3) by blast+
    define ind where "ind = i_addrs d ! NDIRECT"
    have ud: "unpaid d = 0" using i0 by (simp add: unpaid_def)
    have "slot (disk u) ((D(i := d)) i) MAXFILE = ind" by (simp add: slot_def ind_def)
    then have "ind < freeblock u" using layoutD(6) [OF L1 i, of MAXFILE] i0 by (simp add: ind_def)
    then have il: "ind < length (img u)" and x: "xint ind = ind" using u ud room N by (auto intro: xint_id)
    have sf: "slot (disk u) d fbn = get_le 4 ?o (disk u ind)" using nd m by (simp add: slot_def blkaddr_def ind_def)
    have "file_block (D i) fbn s = kbind (rsect (xint ind)) (\<lambda>indirect.
        kbind (if get_le 4 ?o indirect = 0
               then kbind next_block (\<lambda>b. let indirect = put_le 4 ?o (xint b) indirect in
                    kbind (wsect (xint ind) indirect) (\<lambda>_. ret indirect))
               else ret indirect) (\<lambda>indirect. ret (d, xint (get_le 4 ?o indirect)))) u"
      using False A unfolding ind_def by (simp add: file_block_def kbind_def)
    note B = this [unfolded x]
    show ?thesis
    proof (cases "get_le 4 ?o (disk u ind) = 0")
      case True
      let ?b = "put_le 4 ?o (xint (freeblock u)) (disk u ind)"
      have "file_block (D i) fbn s = Ok (d, xint (get_le 4 ?o ?b))
          (upd_disk ind ?b (u\<lparr>freeblock := freeblock u + 1, usedblocks := usedblocks u + 1\<rparr>))"
        unfolding B using True il by (simp add: kbind_def rsect_eq ret_def next_block_eq wsect_eq Let_def)
      then show ?thesis using True u(1) ud sf sd by simp
    next
      case False
      then show ?thesis unfolding B using il u sf sd by (simp add: kbind_def rsect_eq ret_def)
    qed
  qed
qed

lemma append_loop_split:
  assumes "p \<noteq> []" "n1 = min (length p) ((off div 512 + 1) * 512 - off)" "append_loop x off (take n1 p) s = Ok (d, off1) v"
  shows "append_loop x off p s = append_loop d off1 (drop n1 p) v"
proof -
  have "off < (off div 512 + 1) * 512" by simp
  with assms(1,2) have n1: "0 < n1" "n1 \<le> length p" by (cases p; auto)+
  then have ne: "take n1 p \<noteq> []" and m: "min (length (take n1 p)) ((off div 512 + 1) * 512 - off) = n1"
    using assms(1,2) by auto
  have "append_loop x off (take n1 p) s = Ok (d, off1) v" by (rule assms(3))
  then show ?thesis
    unfolding append_loop.simps [of x off "take n1 p"] append_loop.simps [of x off p] Let_def m
      assms(2) [symmetric]
    using ne assms(1) n1
    by (auto simp: kbind_eq_Ok append_loop.simps [of _ _ "[]"] split: if_splits prod.splits res.splits) (auto simp: kbind_def)
qed

lemma append_chunk_total:
  assumes L: "layout (disk s) D I (freeblock s)" and i: "i \<in> I" and N: "length (img s) < 2 ^ 30"
    and Z: "\<forall>bm < MAXFILE. (slot (disk s) (D i) bm \<noteq> 0) = (bm * BSIZE < off)"
    and p: "p \<noteq> []" "off + length p \<le> (off div 512 + 1) * 512" "off div 512 < MAXFILE"
    and room: "freeblock s + unpaid (D i) + (nblk (off + length p) - nblk off) \<le> length (img s)"
  shows "\<exists>d t. append_loop (D i) off p s = Ok (d, off + length p) t \<and>
    freeblock t + unpaid d = freeblock s + unpaid (D i) + (nblk (off + length p) - nblk off)"
proof -
  let ?f = "off div 512"
  have "nblk (off + length p) = ?f + 1"
    unfolding nblk_def using p(2) by (intro div_nat_eqI) (cases p; use p(1) in auto)+
  moreover have "nblk off = (if ?f * BSIZE < off then ?f + 1 else ?f)"
    unfolding nblk_def BSIZE_def by (auto intro!: div_nat_eqI)
  ultimately have c: "nblk (off + length p) - nblk off = (if slot (disk s) (D i) ?f = 0 then 1 else 0)"
    using Z p(3) by auto
  obtain d x u where A: "file_block (D i) ?f s = Ok (d, x) u"
    and u: "freeblock u + unpaid d = freeblock s + unpaid (D i) + (nblk (off + length p) - nblk off)"
    using file_block_total [OF L i p(3)] N room unfolding c by auto
  have F: "freeblock s < 2 ^ 31" using room N by simp
  have g: "gives_block s D I i ?f u d x" using file_block_ok [OF L i p(3) F _ A] N by simp
  have "x < freeblock u"
  proof -
    have "slot (disk u) ((D(i := d)) i) ?f = x" "x \<noteq> 0" "layout (disk u) (D(i := d)) I (freeblock u)"
      using g i p(3) by (auto simp: gives_block_def)
    then show ?thesis using layoutD(6) [OF _ i, of "disk u" "D(i := d)" "freeblock u" ?f] p(3) by auto
  qed
  then have xl: "x < length (img u)" using u room g by (simp add: gives_block_def grows_def)
  have mn: "min (length p) ((?f + 1) * 512 - off) = length p" using p(2) by simp
  have "append_loop (D i) off p s = Ok (d, off + length p) (upd_disk x (overlay (off - ?f * 512) p (disk u x)) u)"
    unfolding append_loop.simps [of _ off p] Let_def mn using p(1,3) A xl
    by (simp add: kbind_def rsect_eq wsect_eq append_loop.simps [of _ _ "[]"] ret_def)
  then show ?thesis using u by simp
qed

lemma append_loop_total:
  assumes "layout (disk s) D I (freeblock s)" "i \<in> I" "length (img s) < 2 ^ 30"
    and "\<forall>bm < MAXFILE. (slot (disk s) (D i) bm \<noteq> 0) = (bm * BSIZE < off)" "off + length p \<le> MAXFILE * BSIZE"
    and "freeblock s + unpaid (D i) + (nblk (off + length p) - nblk off) \<le> length (img s)"
  shows "\<exists>d t. append_loop (D i) off p s = Ok (d, off + length p) t \<and>
    freeblock t + unpaid d = freeblock s + unpaid (D i) + (nblk (off + length p) - nblk off)"
  using assms
proof (induction "length p" arbitrary: D off p s rule: less_induct)
  case less
  note L = less.prems(1) and i = less.prems(2) and N = less.prems(3) and Z = less.prems(4) and len = less.prems(5)
    and room = less.prems(6)
  show ?case
  proof (cases "p = []")
    case True
    then show ?thesis by (simp add: append_loop.simps [of _ _ "[]"])
  next
    case False
    let ?f = "off div 512"
    define n1 where "n1 = min (length p) ((?f + 1) * 512 - off)"
    have "off < (?f + 1) * 512" by simp
    then have n1: "0 < n1" "n1 \<le> length p" "off + n1 \<le> (?f + 1) * 512" using False by (auto simp: n1_def)
    have m: "?f < MAXFILE" using len False by (intro less_mult_imp_div_less) (cases p; auto simp: BSIZE_def)
    have mono: "nblk off \<le> nblk (off + n1)" "nblk (off + n1) \<le> nblk (off + length p)"
      using n1(2) by (auto simp: nblk_def intro!: div_le_mono)
    have lt: "length (take n1 p) = n1" "take n1 p \<noteq> []" using n1 False by auto
    have room1: "freeblock s + unpaid (D i) + (nblk (off + length (take n1 p)) - nblk off) \<le> length (img s)"
      using room mono unfolding lt by linarith
    obtain d v where A: "append_loop (D i) off (take n1 p) s = Ok (d, off + n1) v"
      and v: "freeblock v + unpaid d = freeblock s + unpaid (D i) + (nblk (off + n1) - nblk off)"
      using append_chunk_total [OF L i N Z lt(2) _ m room1] n1(3) unfolding lt(1) by blast
    have fl: "freeblock s \<le> length (img s)" "off \<le> MAXFILE * BSIZE" using room len by auto
    have ap: "appended s D I i off (take n1 p) v d" using append_loop_ok [OF L i fl(1) N fl(2) Z A] by blast
    let ?D = "D(i := d)"
    have Lv: "layout (disk v) ?D I (freeblock v)" and Nv: "length (img v) = length (img s)"
      and Zv: "\<forall>bm < MAXFILE. (slot (disk v) (?D i) bm \<noteq> 0) = (bm * BSIZE < off + n1)"
      using ap i lt(1) by (auto simp: appended_def grows_def)
    have k: "length (drop n1 p) < length p" "length (img v) < 2 ^ 30" "off + n1 + length (drop n1 p) = off + length p"
      using n1 N Nv by auto
    have rv: "freeblock v + unpaid (?D i) + (nblk (off + n1 + length (drop n1 p)) - nblk (off + n1)) \<le> length (img v)"
      using room v mono unfolding k(3) Nv by simp
    have lv: "off + n1 + length (drop n1 p) \<le> MAXFILE * BSIZE" using len unfolding k(3) .
    from less.hyps [where D = ?D, OF k(1) Lv i k(2) Zv lv rv]
    obtain e t where B: "append_loop (?D i) (off + n1) (drop n1 p) v = Ok (e, off + length p) t"
      and t: "freeblock t + unpaid e = freeblock v + unpaid (?D i) + (nblk (off + length p) - nblk (off + n1))"
      unfolding k(3) by blast
    have "append_loop (D i) off p s = Ok (e, off + length p) t"
      using append_loop_split [OF False n1_def A] B by simp
    then show ?thesis using t v mono by auto
  qed
qed

definition budget :: "mk_state \<Rightarrow> nat" where
  "budget s = freeblock s + (\<Sum>j \<in> {1..<freeinode s}. unpaid (ondisk (disk s) j))"

lemma budget_ge: "i \<in> {1..<freeinode s} \<Longrightarrow> freeblock s + unpaid (ondisk (disk s) i) \<le> budget s"
  unfolding budget_def by (intro add_left_mono member_le_sum) auto

lemma budget_update:
  assumes "i \<in> {1..<freeinode s}" "freeinode t = freeinode s"
    and "\<And>j. j \<in> {1..<freeinode s} \<Longrightarrow> j \<noteq> i \<Longrightarrow> ondisk (disk t) j = ondisk (disk s) j"
    and "freeblock t + unpaid (ondisk (disk t) i) = freeblock s + unpaid (ondisk (disk s) i) + k"
  shows "budget t = budget s + k"
proof -
  let ?I = "{1..<freeinode s}"
  have "(\<Sum>j \<in> ?I. unpaid (ondisk (disk u) j)) = unpaid (ondisk (disk u) i) + (\<Sum>j \<in> ?I - {i}. unpaid (ondisk (disk u) j))" for u
    using assms(1) by (intro sum.remove) auto
  moreover have "(\<Sum>j \<in> ?I - {i}. unpaid (ondisk (disk t) j)) = (\<Sum>j \<in> ?I - {i}. unpaid (ondisk (disk s) j))"
    using assms(3) by (intro sum.cong) auto
  ultimately show ?thesis using assms(2,4) by (simp add: budget_def)
qed

lemma nblk_mono: "m \<le> n \<Longrightarrow> nblk m \<le> nblk n"
  by (auto simp: nblk_def intro!: div_le_mono)

lemma iappend_total:
  assumes inv: "mk_inv s" and i: "i \<in> {1..<freeinode s}" and len: "i_size (ondisk (disk s) i) + length p \<le> MAXFILE * BSIZE"
    and room: "budget s + (nblk (i_size (ondisk (disk s) i) + length p) - nblk (i_size (ondisk (disk s) i))) \<le> fs_size"
  shows "\<exists>v. iappend i p s = Ok () v \<and>
    budget v = budget s + (nblk (i_size (ondisk (disk s) i) + length p) - nblk (i_size (ondisk (disk s) i)))"
proof -
  note m = mk_invD [OF inv]
  let ?D = "ondisk (disk s)" and ?n = "i_size (ondisk (disk s) i)"
  have N: "length (img s) < 2 ^ 30" using m(1) by (simp add: fs_size_def)
  have Z: "\<forall>bm < MAXFILE. (slot (disk s) (?D i) bm \<noteq> 0) = (bm * BSIZE < ?n)" using m(9) [OF i] by blast
  have r: "freeblock s + unpaid (?D i) + (nblk (?n + length p) - nblk ?n) \<le> length (img s)"
    using budget_ge [OF i] room m(1) by linarith
  obtain d t where A: "append_loop (?D i) ?n p s = Ok (d, ?n + length p) t"
    and t: "freeblock t + unpaid d = freeblock s + unpaid (?D i) + (nblk (?n + length p) - nblk ?n)"
    using append_loop_total [OF m(5) i N Z len r] by blast
  have fl: "freeblock s \<le> length (img s)" using r by simp
  have "appended s ?D {1..<freeinode s} i ?n p t d" using append_loop_ok [OF m(5) i fl N m(8) [OF i] Z A] by blast
  then have lt: "length (img t) = fs_size" using m(1) by (simp add: appended_def grows_def)
  have "i < ninodes" using i m(2) by simp
  from i2b_low [OF this] have ib: "i2b i < fs_size" by (simp add: data_start_def fs_size_def)
  have xs: "xint ?n = ?n" using m(8) [OF i] by (simp add: MAXFILE_def NDIRECT_def NINDIRECT_def BSIZE_def)
  have "\<exists>v. iappend i p s = Ok () v"
    using ib lt m(1) A xs by (simp add: iappend_def rinode_def winode_def kbind_def rsect_eq wsect_eq ret_def flip: ondisk_def)
  then obtain v where v: "iappend i p s = Ok () v" ..
  note O = iappend_ok [OF inv i v]
  obtain d' off t' where A': "append_loop (?D i) ?n p s = Ok (d', off) t'" "i_addrs (?D i) = i_addrs (?D i)"
    "i_addrs (ondisk (disk v) i) = i_addrs d'" "freeblock v = freeblock t'" using O(3) by blast
  with A have "i_addrs (ondisk (disk v) i) = i_addrs d" "freeblock v = freeblock t" by auto
  then have "freeblock v + unpaid (ondisk (disk v) i) = freeblock s + unpaid (?D i) + (nblk (?n + length p) - nblk ?n)"
    using t by (simp add: unpaid_def)
  moreover have "freeinode v = freeinode s" using O(1) by (simp add: appends_def)
  ultimately have "budget v = budget s + (nblk (?n + length p) - nblk ?n)"
    using budget_update [OF i _ O(2)] by blast
  then show ?thesis using v by blast
qed

lemma mk_ialloc_total:
  assumes inv: "mk_inv s" and n: "freeinode s < ninodes" and ty: "- (2 ^ 15) \<le> ty" "ty < 2 ^ 15"
  shows "\<exists>t. mk_ialloc ty s = Ok (freeinode s) t \<and> budget t = budget s + 1"
proof -
  note m = mk_invD [OF inv]
  from i2b_low [OF n] have ib: "i2b (freeinode s) < length (img s)" using m(1) by (simp add: data_start_def fs_size_def)
  have "\<exists>t. mk_ialloc ty s = Ok (freeinode s) t"
    using ib by (simp add: mk_ialloc_def winode_def kbind_def kget_def kmod_def rsect_eq wsect_eq ret_def)
  then obtain t where t: "mk_ialloc ty s = Ok (freeinode s) t" ..
  note O = mk_ialloc_ok [OF inv n ty t]
  have f: "freeinode t = freeinode s + 1" using O(1) by blast
  have "(\<Sum>j \<in> {1..<freeinode t}. unpaid (ondisk (disk t) j)) =
      (\<Sum>j \<in> {1..<freeinode s}. unpaid (ondisk (disk t) j)) + unpaid (ondisk (disk t) (freeinode s))"
    using m(6) by (simp add: f)
  moreover have "(\<Sum>j \<in> {1..<freeinode s}. unpaid (ondisk (disk t) j)) = (\<Sum>j \<in> {1..<freeinode s}. unpaid (ondisk (disk s) j))"
    using O(4) by (intro sum.cong) auto
  ultimately have "budget t = budget s + 1" using O(2,3) by (simp add: budget_def unpaid_def)
  then show ?thesis using t by blast
qed

lemma append_all_total:
  "mk_inv s \<Longrightarrow> i \<in> {1..<freeinode s} \<Longrightarrow> i_size (ondisk (disk s) i) + length (concat cs) \<le> MAXFILE * BSIZE \<Longrightarrow>
   budget s + (nblk (i_size (ondisk (disk s) i) + length (concat cs)) - nblk (i_size (ondisk (disk s) i))) \<le> fs_size \<Longrightarrow>
   \<exists>t. append_all i cs s = Ok () t \<and>
     budget t = budget s + (nblk (i_size (ondisk (disk s) i) + length (concat cs)) - nblk (i_size (ondisk (disk s) i)))"
proof (induction cs arbitrary: s)
  case Nil
  then show ?case by simp
next
  case (Cons c cs)
  let ?n = "i_size (ondisk (disk s) i)" and ?L = "length (concat (c # cs))"
  have mono: "nblk ?n \<le> nblk (?n + length c)" "nblk (?n + length c) \<le> nblk (?n + ?L)" by (auto intro: nblk_mono)
  have "?n + length c \<le> MAXFILE * BSIZE" "budget s + (nblk (?n + length c) - nblk ?n) \<le> fs_size"
    using Cons.prems(3,4) mono by auto
  from iappend_total [OF Cons.prems(1,2) this] obtain v where v: "iappend i c s = Ok () v"
    and b: "budget v = budget s + (nblk (?n + length c) - nblk ?n)" by blast
  have a: "appends s v (\<lambda>j. if j = i then c else [])" by (rule iappend_ok(1) [OF Cons.prems(1,2) v])
  then have vi: "mk_inv v" "i \<in> {1..<freeinode v}" using Cons.prems(2) by (auto simp: appends_def)
  have "content (disk v) (ondisk (disk v) i) = content (disk s) (ondisk (disk s) i) @ c"
    using a Cons.prems(2) by (simp add: appends_def)
  from arg_cong [OF this, of length] have sz: "i_size (ondisk (disk v) i) = ?n + length c" by simp
  have L: "?n + length c + length (concat cs) = ?n + ?L" by simp
  have p3: "i_size (ondisk (disk v) i) + length (concat cs) \<le> MAXFILE * BSIZE"
    and p4: "budget v + (nblk (i_size (ondisk (disk v) i) + length (concat cs)) - nblk (i_size (ondisk (disk v) i))) \<le> fs_size"
    using Cons.prems(3,4) b mono unfolding sz L by linarith+
  from Cons.IH [OF vi p3 p4] obtain t where t: "append_all i cs v = Ok () t"
    "budget t = budget v + (nblk (?n + ?L) - nblk (?n + length c))" unfolding sz L by blast
  then have "append_all i (c # cs) s = Ok () t" using v by (simp add: kbind_def)
  moreover have "budget t = budget s + (nblk (?n + ?L) - nblk ?n)" using t(2) b mono by linarith
  ultimately show ?case by blast
qed

text \<open>What a file may take: an indirect block, and the blocks of its contents.\<close>

definition good_file :: "mk_file \<Rightarrow> bool" where
  "good_file f \<longleftrightarrow> slash \<notin> set (fst f) \<and> (\<exists>cs. snd f = Some cs \<and> length (concat cs) \<le> MAXFILE * BSIZE)"

definition file_cost :: "mk_file \<Rightarrow> nat" where
  "file_cost f = 1 + nblk (case snd f of None \<Rightarrow> 0 | Some cs \<Rightarrow> length (concat cs))"

lemma mk_files_total:
  "mk_inv s \<Longrightarrow> ROOTINO < freeinode s \<Longrightarrow> freeinode s + length fs \<le> ninodes \<Longrightarrow> \<forall>f \<in> set fs. good_file f \<Longrightarrow>
   i_size (ondisk (disk s) ROOTINO) = r \<Longrightarrow> r + 16 * length fs \<le> MAXFILE * BSIZE \<Longrightarrow>
   budget s + sum_list (map file_cost fs) + (nblk (r + 16 * length fs) - nblk r) \<le> B \<Longrightarrow> B \<le> fs_size \<Longrightarrow>
   \<exists>t. mk_files ROOTINO fs s = Ok () t \<and> budget t \<le> B"
proof (induction fs arbitrary: s r)
  case Nil
  then show ?case by (simp add: ret_def)
next
  case (Cons f fs)
  obtain nm ch where f: "f = (nm, ch)" by (cases f)
  let ?n = "freeinode s"
  have "good_file f" using Cons.prems(4) by simp
  then obtain cs where ch: "ch = Some cs" and sl: "slash \<notin> set nm" and len: "length (concat cs) \<le> MAXFILE * BSIZE"
    by (auto simp: good_file_def f)
  have cost: "file_cost f = 1 + nblk (length (concat cs))" by (simp add: file_cost_def f ch)
  let ?R = "r + 16 * length (f # fs)"
  have mono: "nblk r \<le> nblk (r + 16)" "nblk (r + 16) \<le> nblk ?R" by (auto intro: nblk_mono)
  have tot: "budget s + 1 + nblk (length (concat cs)) + sum_list (map file_cost fs) + (nblk ?R - nblk r) \<le> B" "B \<le> fs_size"
    using Cons.prems(7,8) cost by simp_all
  have n: "?n < ninodes" and ty: "- (2 ^ 15) \<le> T_FILE" "T_FILE < 2 ^ 15" using Cons.prems(3) by (auto simp: T_FILE_def)
  obtain s1 where a: "mk_ialloc T_FILE s = Ok ?n s1" and b1: "budget s1 = budget s + 1"
    using mk_ialloc_total [OF Cons.prems(1) n ty] by blast
  note O1 = mk_ialloc_ok [OF Cons.prems(1) n ty a]
  have s1: "mk_inv s1" "freeinode s1 = ?n + 1" "content (disk s1) (ondisk (disk s1) ?n) = []" using O1(1) by blast+
  have rI: "ROOTINO \<in> {1..<?n}" using Cons.prems(2) by (simp add: ROOTINO_def)
  have i1: "ROOTINO \<in> {1..<freeinode s1}" "?n \<in> {1..<freeinode s1}" using rI s1(2) by auto
  have r1: "i_size (ondisk (disk s1) ROOTINO) = r" using O1(4) [OF rI] Cons.prems(5) by simp
  let ?de = "mk_dirent (strip nm) ?n"
  have ld: "length ?de = 16" by (simp add: mk_dirent_fields DIRENT_SIZE_def)
  have q: "i_size (ondisk (disk s1) ROOTINO) + length ?de \<le> MAXFILE * BSIZE"
    "budget s1 + (nblk (i_size (ondisk (disk s1) ROOTINO) + length ?de) - nblk (i_size (ondisk (disk s1) ROOTINO))) \<le> fs_size"
    using Cons.prems(6) tot mono b1 unfolding r1 ld by auto
  obtain s2 where b: "iappend ROOTINO ?de s1 = Ok () s2" and b2: "budget s2 = budget s1 + (nblk (r + 16) - nblk r)"
    using iappend_total [OF s1(1) i1(1) q] unfolding r1 ld by blast
  have A2: "appends s1 s2 (\<lambda>j. if j = ROOTINO then ?de else [])" by (rule iappend_ok(1) [OF s1(1) i1(1) b])
  then have s2: "mk_inv s2" "freeinode s2 = ?n + 1" "?n \<in> {1..<freeinode s2}" "ROOTINO \<in> {1..<freeinode s2}"
    using s1(2) i1 by (auto simp: appends_def)
  have ne: "ROOTINO \<noteq> ?n" using rI by simp
  have "content (disk s2) (ondisk (disk s2) ?n) = []"
    using A2 i1(2) ne s1(3) by (auto simp: appends_def)
  from arg_cong [OF this, of length] have z2: "i_size (ondisk (disk s2) ?n) = 0" by simp
  have "content (disk s2) (ondisk (disk s2) ROOTINO) = content (disk s1) (ondisk (disk s1) ROOTINO) @ ?de"
    using A2 i1(1) by (simp add: appends_def)
  from arg_cong [OF this, of length] have r2: "i_size (ondisk (disk s2) ROOTINO) = r + 16" using r1 ld by simp
  have n0: "nblk 0 = 0" by (simp add: nblk_def)
  have q2: "i_size (ondisk (disk s2) ?n) + length (concat cs) \<le> MAXFILE * BSIZE"
    "budget s2 + (nblk (i_size (ondisk (disk s2) ?n) + length (concat cs)) - nblk (i_size (ondisk (disk s2) ?n))) \<le> fs_size"
    using len tot mono b1 b2 unfolding z2 n0 by auto
  obtain s3 where c: "append_all ?n cs s2 = Ok () s3" and b3: "budget s3 = budget s2 + nblk (length (concat cs))"
    using append_all_total [OF s2(1,3) q2] unfolding z2 n0 by auto
  have A3: "appends s2 s3 (\<lambda>j. if j = ?n then concat cs else [])" by (rule append_all_ok [OF s2(1,3) c])
  then have s3: "mk_inv s3" "freeinode s3 = ?n + 1" using s2(2) by (auto simp: appends_def)
  have "content (disk s3) (ondisk (disk s3) ROOTINO) = content (disk s2) (ondisk (disk s2) ROOTINO)"
    using A3 s2(4) ne by (auto simp: appends_def)
  from arg_cong [OF this, of length] have r3: "i_size (ondisk (disk s3) ROOTINO) = r + 16" using r2 by simp
  have R: "r + 16 + 16 * length fs = ?R" by simp
  have p: "ROOTINO < freeinode s3" "freeinode s3 + length fs \<le> ninodes" "\<forall>f \<in> set fs. good_file f"
    "r + 16 + 16 * length fs \<le> MAXFILE * BSIZE"
    "budget s3 + sum_list (map file_cost fs) + (nblk (r + 16 + 16 * length fs) - nblk (r + 16)) \<le> B"
    using Cons.prems(2,3,4,6) tot mono b1 b2 b3 s3(2) unfolding R by auto
  from Cons.IH [OF s3(1) p(1-3) r3 p(4,5) tot(2)] obtain t where t: "mk_files ROOTINO fs s3 = Ok () t" "budget t \<le> B" by blast
  have xs: "xshort ?n = ?n" using n by (simp add: ninodes_def)
  have "mk_files ROOTINO (f # fs) s = Ok () t"
    using sl a b c t(1) by (simp add: f ch kbind_def xs)
  with t(2) show ?case by blast
qed

lemma mkfs_total:
  assumes "length fs + 2 \<le> ninodes" "\<forall>f \<in> set fs. good_file f"
    and "30 + sum_list (map file_cost fs) + nblk (16 * (length fs + 2)) \<le> B" "B \<le> 1024"
  shows "\<exists>t. mkfs fs mk_start = Ok () t \<and> freeblock t \<le> B"
proof -
  have f1: "freeinode empty_image = 1" "budget empty_image = 29" by (simp_all add: empty_image_def budget_def used0_def)
  have sz: "32 + 16 * length fs \<le> MAXFILE * BSIZE"
    using assms(1) by (simp add: ninodes_def MAXFILE_def NDIRECT_def NINDIRECT_def BSIZE_def)
  have ty: "- (2 ^ 15) \<le> T_DIR" "T_DIR < 2 ^ 15" "freeinode empty_image < ninodes"
    using f1 assms(1) by (auto simp: T_DIR_def)
  obtain s1 where a: "mk_ialloc T_DIR empty_image = Ok ROOTINO s1" and b1: "budget s1 = 30"
    using mk_ialloc_total [OF empty_image_inv ty(3,1,2)] f1 by (auto simp: ROOTINO_def)
  note O1 = mk_ialloc_ok(1) [OF empty_image_inv ty(3,1,2) a]
  have s1: "mk_inv s1" "freeinode s1 = 2" "content (disk s1) (ondisk (disk s1) ROOTINO) = []" using O1 f1 by auto
  have R1: "ROOTINO \<in> {1..<freeinode s1}" using s1(2) by (simp add: ROOTINO_def)
  from arg_cong [OF s1(3), of length] have z1: "i_size (ondisk (disk s1) ROOTINO) = 0" by simp
  have ld: "length (mk_dirent nm n) = 16" for nm n by (simp add: mk_dirent_fields DIRENT_SIZE_def)
  have nb: "nblk 0 = 0" "nblk 16 = 1" "nblk 32 = 1" by (simp_all add: nblk_def)
  let ?d1 = "mk_dirent [46] ROOTINO" and ?d2 = "mk_dirent [46, 46] ROOTINO"
  have q1: "i_size (ondisk (disk s1) ROOTINO) + length ?d1 \<le> MAXFILE * BSIZE"
    "budget s1 + (nblk (i_size (ondisk (disk s1) ROOTINO) + length ?d1) - nblk (i_size (ondisk (disk s1) ROOTINO))) \<le> fs_size"
    using sz b1 unfolding z1 ld by (simp_all add: nb fs_size_def)
  obtain s2 where b: "iappend ROOTINO ?d1 s1 = Ok () s2" and b2: "budget s2 = 31"
    using iappend_total [OF s1(1) R1 q1] b1 unfolding z1 ld by (auto simp: nb)
  have A2: "appends s1 s2 (\<lambda>j. if j = ROOTINO then ?d1 else [])" by (rule iappend_ok(1) [OF s1(1) R1 b])
  then have s2: "mk_inv s2" "freeinode s2 = 2" "ROOTINO \<in> {1..<freeinode s2}"
    "content (disk s2) (ondisk (disk s2) ROOTINO) = ?d1"
    using s1 R1 by (auto simp: appends_def)
  from arg_cong [OF s2(4), of length] have z2: "i_size (ondisk (disk s2) ROOTINO) = 16" using ld by simp
  have q2: "i_size (ondisk (disk s2) ROOTINO) + length ?d2 \<le> MAXFILE * BSIZE"
    "budget s2 + (nblk (i_size (ondisk (disk s2) ROOTINO) + length ?d2) - nblk (i_size (ondisk (disk s2) ROOTINO))) \<le> fs_size"
    using sz b2 unfolding z2 ld by (simp_all add: nb fs_size_def)
  obtain s3 where c: "iappend ROOTINO ?d2 s2 = Ok () s3" and b3: "budget s3 = 31"
    using iappend_total [OF s2(1,3) q2] b2 unfolding z2 ld by (auto simp: nb)
  have A3: "appends s2 s3 (\<lambda>j. if j = ROOTINO then ?d2 else [])" by (rule iappend_ok(1) [OF s2(1,3) c])
  then have s3: "mk_inv s3" "freeinode s3 = 2" "content (disk s3) (ondisk (disk s3) ROOTINO) = ?d1 @ ?d2"
    using s2 by (auto simp: appends_def)
  from arg_cong [OF s3(3), of length] have z3: "i_size (ondisk (disk s3) ROOTINO) = 32" using ld by simp
  have e32: "16 * (length fs + 2) = 32 + 16 * length fs" by simp
  have m32: "1 \<le> nblk (32 + 16 * length fs)" using nblk_mono [of 32 "32 + 16 * length fs"] nb(3) by simp
  have q3: "ROOTINO < freeinode s3" "freeinode s3 + length fs \<le> ninodes"
    "budget s3 + sum_list (map file_cost fs) + (nblk (32 + 16 * length fs) - nblk 32) \<le> B" "B \<le> fs_size"
    using assms(1,3,4) s3(2) b3 m32 nb(3) unfolding e32 by (auto simp: ROOTINO_def fs_size_def)
  obtain s where d: "mk_files ROOTINO fs s3 = Ok () s" and bs: "budget s \<le> B"
    using mk_files_total [OF s3(1) q3(1,2) assms(2) z3 sz q3(3,4)] by blast
  have R: "xshort ROOTINO = ROOTINO" by (simp add: ROOTINO_def)
  have M: "made s3 s fs" by (rule mk_files_ok [OF s3(1) q3(1,2) d])
  then have inv: "mk_inv s" by (simp add: made_def)
  note m = mk_invD [OF inv]
  have "ROOTINO < ninodes" by (simp add: ROOTINO_def ninodes_def)
  from i2b_low [OF this] have ib: "i2b ROOTINO < length (img s)" using m(1) by (simp add: data_start_def fs_size_def)
  have ub: "usedblocks s < 512 * 8" and s28: "ninodes div IPB + 3 = 28" "28 < length (img s)"
    using m(1,3,7) by (auto simp: fs_size_def ninodes_def IPB_def BSIZE_def DINODE_SIZE_def)
  have "\<exists>t. mkfs_end s = Ok () t"
    using ib ub s28(2) unfolding mkfs_end_def mk_balloc_def s28(1)
    by (simp add: rinode_def winode_def kbind_def kget_def rsect_eq wsect_eq ret_def)
  then obtain t where e: "mkfs_end s = Ok () t" ..
  have "mkfs fs mk_start = Ok () t"
    unfolding mkfs_begin using a b c d e by (simp add: kbind_def [of "mk_ialloc _"] kbind_def [of "iappend _ _"]
      kbind_def [of "mk_files _ _"] R mkfs_end_def)
  moreover have "freeblock t = freeblock s"
    using e ib ub s28(2) unfolding mkfs_end_def mk_balloc_def s28(1)
    by (auto simp: rinode_def winode_def kbind_def kget_def rsect_eq wsect_eq ret_def)
  moreover have "freeblock s \<le> budget s" by (simp add: budget_def)
  ultimately show ?thesis using bs by (intro exI [of _ t]) simp
qed

section \<open>Properties\<close>

text \<open>C36: \<open>mkfs\<close> returns whenever the files have names without a slash, are no longer than \<open>MAXFILE\<close> blocks
  and fit together with the root directory behind the bitmap, counting an indirect block for each; and
  then the image is a file system for the kernel: the superblock has the sizes, the bitmap marks
  exactly the blocks before the next free one, no block is in two places, every file has an inode
  with its contents and all its blocks, and the root directory has the entries \<open>.\<close>, \<open>..\<close>, one for each
  file, and nothing behind them.  The root's size is rounded up beyond its entries; where these fill
  their blocks exactly, the last block that the size counts does not exist.\<close>

theorem mkfs_image:
  assumes "length fs + 2 \<le> ninodes" "\<forall>f \<in> set fs. good_file f"
    and "30 + sum_list (map file_cost fs) + nblk (16 * (length fs + 2)) \<le> 1024"
  shows "\<exists>t. mkfs fs mk_start = Ok () t
    \<and> dec_superblock (disk t 1) = \<lparr>sb_size = 1024, sb_nblocks = 965, sb_ninodes = 200, sb_nlog = 30\<rparr>
    \<and> (\<forall>b < 1024. in_use (disk t) b = (b < freeblock t))
    \<and> layout (disk t) (ondisk (disk t)) {1..<length fs + 2} (freeblock t)
    \<and> image_of fs t \<and> root_of fs t"
  using mkfs_total [OF assms order.refl] mkfs_image_aux [OF _ assms(1)] by blast

theorem mkfs_image_witness:
  "\<exists>t. mkfs [([95, 108, 115], Some [[1, 2], [3]])] mk_start = Ok () t \<and> in_use (disk t) 28 \<and>
     content (disk t) (ondisk (disk t) 2) = [1, 2, 3] \<and>
     dirent_at (disk t) (ondisk (disk t) ROOTINO) 32 = mk_dirent [108, 115] 2"
proof -
  let ?fs = "[([95, 108, 115], Some [[1, 2], [3]])] :: mk_file list"
  have "length ?fs + 2 \<le> ninodes" "\<forall>f \<in> set ?fs. good_file f"
    "30 + sum_list (map file_cost ?fs) + nblk (16 * (length ?fs + 2)) \<le> 1024"
    by (simp_all add: ninodes_def good_file_def slash_def file_cost_def nblk_def MAXFILE_def NDIRECT_def NINDIRECT_def BSIZE_def)
  from mkfs_image [OF this] obtain t where t: "mkfs ?fs mk_start = Ok () t" "\<forall>b < 1024. in_use (disk t) b = (b < freeblock t)"
    "layout (disk t) (ondisk (disk t)) {1..<length ?fs + 2} (freeblock t)" "image_of ?fs t" "root_of ?fs t" by blast
  have "in_use (disk t) 28" using t(2) layoutD(4) [OF t(3)] by (simp add: data_start_def)
  moreover have "content (disk t) (ondisk (disk t) 2) = [1, 2, 3]"
    using t(4) by (auto simp: image_of_def Let_def numeral_2_eq_2)
  moreover have D: "\<forall>k < 3. dirent_at (disk t) (ondisk (disk t) ROOTINO) (16 * k) = root_entries ?fs ! k"
    using t(5) unfolding root_of_def Let_def by simp
  have "dirent_at (disk t) (ondisk (disk t) ROOTINO) 32 = mk_dirent [108, 115] 2"
    using D [rule_format, of 2] by (simp add: root_entries_def strip_def underscore_def)
  ultimately show ?thesis using t(1) by blast
qed

end
