(* ===== verification/FsWalk.thy ===== *)
theory FsWalk
  imports FsProps
begin

text \<open>
  From a booted disk to an open file: \<open>initlog\<close> with an empty log, and \<open>ilock\<close>, \<open>iunlockput\<close> and \<open>namei\<close> as runs
  that return.  Between two steps the state is \<open>steady\<close>: no buffer is locked and the sectors read as \<open>V\<close>.
\<close>

section \<open>Starting with an empty log\<close>

text \<open>A boot with an empty log: nothing is copied, and the header is written back with its count zero.\<close>

lemma recover_empty:
  assumes b: "boot_ok s" and d: "ldev s = ROOTDEV" "lstart s + lsize s \<le> disksize s" "0 < lsize s"
    and h: "get_le 4 0 (memdisk s (lstart s)) = 0"
  shows "\<exists>t. recover_from_log s = Ok () t \<and> log_wf t \<and> lh_n t = 0 \<and> locked t = Map.empty \<and> pinned t = {} \<and>
    view t = (memdisk s)(lstart s := put_le 4 0 0 (memdisk s (lstart s))) \<and> lsize t = lsize s \<and>
    disksize t = disksize s \<and> held t = held s \<and> outstanding t = outstanding s \<and> committing t = committing s \<and>
    log_state.more t = log_state.more s"
proof -
  let ?L = "lstart s"
  have ok: "bcache_ok s" "calm s" and lp: "locked s = Map.empty" "pinned s = {}" using b by (auto simp: boot_ok_def)
  have vs: "view s = memdisk s" using clean_view [OF ok(1)] lp by (auto simp: fun_eq_iff)
  have z: "s32 0 = 0" by (simp add: s32_def)
  have hs: "head_sectors ?L (memdisk s) = []" by (simp add: head_sectors_def h z)
  have ho: "head_ok ?L (lsize s) (memdisk s)" using d(3) by (simp add: head_ok_def hs h z)
  have Lb: "?L < disksize s" using d(2,3) by linarith
  obtain t sec where t: "read_head s = Ok () t" "length sec = LOGSIZE"
      "bio_to (s\<lparr>lh_n := 0, lh_sector := sec\<rparr>) t (memdisk s) Map.empty {} []"
    using read_head_run [OF b d(1) Lb, of "lsize s"] ho vs hs by auto
  note T = bio_toD [OF t(3)] and FT = log_frame [OF bio_toD(7) [OF t(3)]]
  let ?w = "t\<lparr>lh_n := 0\<rparr>"
  have tw: "?w = t" using FT(6) by simp
  have wt: "log_wf t" unfolding log_wf_def using T FT t(2) d by (simp add: logged_def)
  have qt: "quiet t" using T ok(2) by (auto simp: quiet_def NBUF_def calm_def)
  obtain x where x: "write_head t = Ok () x" "bio_to t x ((view t)(lstart t := head_of t)) (locked t) (pinned t) [(lstart t, head_of t)]"
    using write_head_run [OF wt qt] T by auto
  note X = bio_toD [OF x(2)] and FX = log_frame [OF bio_toD(7) [OF x(2)]]
  have hd: "head_of t = put_le 4 0 0 (memdisk s ?L)" using T FT by (simp add: head_of_def enc_head_def logged_def)
  have it: "install_trans t = Ok () t" using FT(6) by (simp add: install_trans_def ret_def)
  have "recover_from_log s = Ok () x" using t(1) it x(1) tw by (simp add: recover_from_log_def kmon_simps)
  moreover have "log_wf x" by (rule log_wf_frame [OF wt x(2)])
  ultimately show ?thesis using X FX FT T hd by auto
qed

lemma initlog_empty:
  assumes b: "boot_ok s" and one: "1 < disksize s" and sb: "sb = dec_superblock (memdisk s 1)"
    and sz: "sb_nlog sb \<le> sb_size sb" "sb_size sb \<le> disksize s" "0 < sb_nlog sb"
    and h: "get_le 4 0 (memdisk s (sb_size sb - sb_nlog sb)) = 0"
  shows "\<exists>t. initlog s = Ok () t \<and> log_wf t \<and> lh_n t = 0 \<and> locked t = Map.empty \<and> pinned t = {} \<and>
    view t = (memdisk s)(sb_size sb - sb_nlog sb := put_le 4 0 0 (memdisk s (sb_size sb - sb_nlog sb))) \<and>
    lsize t = sb_nlog sb \<and> disksize t = disksize s \<and> held t = held s \<and> outstanding t = outstanding s \<and>
    committing t = committing s \<and> log_state.more t = log_state.more s"
proof -
  have ok: "bcache_ok s" "calm s" and lp: "locked s = Map.empty" "pinned s = {}" and len: "length (lh_sector s) = LOGSIZE"
    using b by (auto simp: boot_ok_def)
  have vs: "view s = memdisk s" using clean_view [OF ok(1)] lp by (auto simp: fun_eq_iff)
  obtain bp u where u: "bread ROOTDEV 1 s = Ok bp u" "bio_to s u (view s) [bp \<mapsto> 1] {} []" "memdisk s 1 = view s 1"
    using bread_step [OF ok one] lp by (auto simp: NBUF_def)
  note U = bio_toD [OF u(2)]
  obtain v where v: "brelse bp u = Ok () v" "bio_to u v (view u) Map.empty {} []"
    using brelse_step [OF U(1), of bp 1] U u(3) ok(2) calm_bio_to [OF u(2)] by auto
  have B: "bio_to s v (view s) Map.empty {} []" using bio_to_trans [OF u(2) v(2)] U(2) by simp
  note V = bio_toD [OF B] and F = log_frame [OF bio_toD(7) [OF B]]
  have rs: "readsb ROOTDEV s = Ok sb v"
    using u(1) v(1) U(2) vs sb by (simp add: readsb_def kbind_Ok get_bdata_locked [OF U(1), of bp 1] U(3) ret_def)
  let ?L = "sb_size sb - sb_nlog sb"
  have "sb_size sb < 2 ^ 32" using get_le_less [of 4] by (simp add: sb dec_superblock_def)
  then have "?L < 2 ^ 32" by simp
  then have L: "u32 (int (sb_size sb) - int (sb_nlog sb)) = ?L" using sz(1) by (metis of_nat_diff u32_of_nat)
  let ?v = "v\<lparr>lstart := ?L, lsize := sb_nlog sb, ldev := ROOTDEV\<rparr>"
  note C = bio_views_cong [of ?v v]
  have bo: "boot_ok ?v" using V F(7) C ok(2) len by (simp add: boot_ok_def calm_def)
  have md: "memdisk v = memdisk s" using V(5) by simp
  have i: "initlog s = recover_from_log ?v"
    using rs L by (simp add: initlog_def LOGSIZE_def MAXOPBLOCKS_def BSIZE_def kbind_Ok)
  show ?thesis unfolding i
    using recover_empty [OF bo] sz h V(8,9) F(3,4,9) by (simp add: md)
qed

section \<open>Changing the inode cache\<close>

lemma fs_cong_inodes [simp]:
  "view (s\<lparr>inodes := x\<rparr>) = view s" "locked (s\<lparr>inodes := x\<rparr>) = locked s" "pinned (s\<lparr>inodes := x\<rparr>) = pinned s"
  "log_inv (s\<lparr>inodes := x\<rparr>) = log_inv s" "calm (s\<lparr>inodes := x\<rparr>) = calm s" "roomy j (s\<lparr>inodes := x\<rparr>) = roomy j s"
  "saved (s\<lparr>inodes := x\<rparr>) n = saved s n"
proof -
  note C = bio_views_cong [of "s\<lparr>inodes := x\<rparr>" s]
  show v: "view (s\<lparr>inodes := x\<rparr>) = view s" "locked (s\<lparr>inodes := x\<rparr>) = locked s" "pinned (s\<lparr>inodes := x\<rparr>) = pinned s"
    using C by simp_all
  have b: "bcache_ok (s\<lparr>inodes := x\<rparr>) = bcache_ok s" using C(4) by simp
  show l: "log_inv (s\<lparr>inodes := x\<rparr>) = log_inv s"
    unfolding log_inv_def log_wf_def b v by (simp add: logged_def)
  show c: "calm (s\<lparr>inodes := x\<rparr>) = calm s" by (simp add: calm_def)
  show "roomy j (s\<lparr>inodes := x\<rparr>) = roomy j s" unfolding roomy_def l c v by simp
  show "saved (s\<lparr>inodes := x\<rparr>) n = saved s n" unfolding saved_def v by simp
qed

lemma fs_cong_procs [simp]:
  "view (s\<lparr>procs := x\<rparr>) = view s" "locked (s\<lparr>procs := x\<rparr>) = locked s" "roomy j (s\<lparr>procs := x\<rparr>) = roomy j s"
proof -
  note C = bio_views_cong [of "s\<lparr>procs := x\<rparr>" s]
  show v: "view (s\<lparr>procs := x\<rparr>) = view s" "locked (s\<lparr>procs := x\<rparr>) = locked s"
    using C by simp_all
  have b: "bcache_ok (s\<lparr>procs := x\<rparr>) = bcache_ok s" "pinned (s\<lparr>procs := x\<rparr>) = pinned s" using C by simp_all
  show "roomy j (s\<lparr>procs := x\<rparr>) = roomy j s"
    unfolding roomy_def log_inv_def log_wf_def b v by (simp add: logged_def calm_def)
qed

lemma fs_to_inodes:
  assumes "fs_to s t V L" shows "fs_to (s\<lparr>inodes := x\<rparr>) (t\<lparr>inodes := x\<rparr>) V L"
proof -
  have "log_frame_to (s\<lparr>inodes := x\<rparr>) (t\<lparr>inodes := x\<rparr>)"
    using arg_cong [OF assms [THEN fs_toD(5), unfolded log_frame_to_def], of "\<lambda>t. t\<lparr>inodes := x\<rparr>"]
    by (simp add: log_frame_to_def)
  then show ?thesis using assms by (simp add: fs_to_def)
qed

text \<open>Between two calls of a system call that reads: no buffer locked, the sectors those of \<open>V\<close>.\<close>

definition steady :: "(nat \<Rightarrow> block) \<Rightarrow> nat \<Rightarrow> 'z fs_state_scheme \<Rightarrow> bool" where
  "steady V N s \<longleftrightarrow> roomy 0 s \<and> view s = V \<and> locked s = Map.empty \<and> disksize s = N \<and>
     IcacheLock \<notin> set (held s) \<and> length (inodes s) = NINODE"

lemma steadyD:
  assumes "steady V N s"
  shows "roomy 0 s" "view s = V" "locked s = Map.empty" "disksize s = N" "IcacheLock \<notin> set (held s)"
    "length (inodes s) = NINODE" "PtableLock \<notin> set (held s)"
  using assms by (auto simp: steady_def roomy_def calm_def)

lemma steady_inodes: "steady V N s \<Longrightarrow> length x = NINODE \<Longrightarrow> steady V N (s\<lparr>inodes := x\<rparr>)"
  by (simp add: steady_def)

lemma steady_procs: "steady V N s \<Longrightarrow> steady V N (s\<lparr>procs := x\<rparr>)"
  by (simp add: steady_def)

lemma steady_read_to:
  assumes s: "steady V N s" and t: "read_to s t"
  shows "steady V N t" "inodes t = inodes s"
proof -
  note T = read_toD [OF t]
  show i: "inodes t = inodes s" by (rule fs_frame(1) [OF T(6)])
  show "steady V N t" using s T i roomy_read_to [OF _ t, of 0] by (simp add: steady_def)
qed

lemma upd_inode_steady:
  "steady V N s \<Longrightarrow> steady V N (upd_inode i f s)"
  by (simp add: upd_inode_def steady_inodes steadyD(6))

text \<open>\<open>ilock\<close> of an entry that has not been read yet.\<close>

lemma ilock_total:
  fixes s :: "'z fs_state_scheme"
  assumes s: "steady V N s" and ip: "ip < NINODE" and x: "x = inodes s ! ip" "0 < i_ref x" "\<not> i_busy x" "\<not> i_valid x" "i_dev x = ROOTDEV"
    and b: "IBLOCK (i_inum x) < N"
    and y: "y = (load_dinode (i_inum x) (V (IBLOCK (i_inum x))) (x\<lparr>i_busy := True\<rparr>))\<lparr>i_valid := True\<rparr>" "i_type y \<noteq> 0"
  shows "\<exists>t. ilock (Some ip) s = Ok () t \<and> steady V N t \<and> inodes t = (inodes s)[ip := y]"
proof -
  note S = steadyD [OF s]
  let ?n = "IBLOCK (i_inum x)" and ?x = "x\<lparr>i_busy := True\<rparr>"
  let ?a = "upd_inode ip (\<lambda>x. x\<lparr>i_busy := True\<rparr>) s"
  have len: "ip < length (inodes s)" using S(6) ip by simp
  have a: "steady V N ?a" "inodes ?a = (inodes s)[ip := ?x]"
    using upd_inode_steady [OF s] by (simp_all add: upd_inode_def x(1))
  note A = steadyD [OF a(1)]
  obtain bp u where u: "bread ROOTDEV ?n ?a = Ok bp u" "fs_to ?a u V [bp \<mapsto> ?n]" "locked u bp = Some ?n" "saved u ?n"
      "pinned u = pinned ?a" "lh_n u = lh_n ?a"
    using bread_total_fs [OF A(1), of ?n] A(2-4) b by auto
  note U = fs_toD [OF u(2)]
  have iu: "inodes u = (inodes s)[ip := ?x]" using fs_frame(1) [OF U(5)] a(2) by simp
  let ?l = "(inodes s)[ip := load_dinode (i_inum x) (V ?n) ?x]"
  let ?v = "u\<lparr>inodes := ?l\<rparr>"
  have cu: "calm ?v" using A(1) log_frame_fields(4) [OF U(5)] by (simp add: roomy_def calm_def)
  obtain w where w: "brelse bp ?v = Ok () w" "fs_to ?v w V Map.empty" "pinned w = pinned u" "lh_n w = lh_n u"
    using release_total [of ?v bp ?n, unfolded fs_cong_inodes, OF U(1) cu [unfolded fs_cong_inodes] u(3,4)]
    unfolding U(2,3) by (auto simp: fun_upd_upd)
  note W = fs_toD [OF w(2)]
  have "fs_to (?a\<lparr>inodes := ?l\<rparr>) w V Map.empty" by (rule fs_to_trans [OF fs_to_inodes [OF u(2)] w(2)])
  then have rt: "read_to (?a\<lparr>inodes := ?l\<rparr>) w" using A(2,3) w(3,4) u(5,6) by (simp add: read_to_def)
  have sa: "steady V N (?a\<lparr>inodes := ?l\<rparr>)" using steady_inodes [OF a(1)] S(6) by simp
  note ww = steady_read_to [OF sa rt]
  let ?t = "upd_inode ip (\<lambda>x. x\<lparr>i_valid := True\<rparr>) w"
  have it: "inodes ?t = (inodes s)[ip := y]" using ww(2) len by (simp add: upd_inode_def y(1))
  have st: "steady V N ?t" by (rule upd_inode_steady [OF ww(1)])
  have gd: "kbind (get_bdata bp) k u = k (V ?n) u" for k :: "block \<Rightarrow> ('z fs_state_scheme, unit) kmon"
    using get_bdata_fs [OF U(1) u(3), of k] U(2) by simp
  have "ilock (Some ip) s = Ok () ?t"
    using S(5) x len u(1) w(1) iu it y(2)
    by (simp add: ilock_def ip_get_def ip_set_def kbind_Ok gd) (simp add: upd_inode_def kbind_Ok gd ip_set_def ip_get_def ret_def kmod_def)
  then show ?thesis using st it by blast
qed

text \<open>Unlocking an entry and dropping the reference, while the inode has a link or the entry another
  reference.\<close>

lemma iunlockput_total:
  assumes s: "steady V N s" and x: "x = inodes s ! ip" "i_busy x" "0 < i_ref x" "i_nlink x \<noteq> 0" and ip: "ip < NINODE"
  shows "\<exists>t. iunlockput ip s = Ok () t \<and> steady V N t \<and> inodes t = (inodes s)[ip := x\<lparr>i_busy := False, i_ref := i_ref x - 1\<rparr>]"
proof -
  note S = steadyD [OF s]
  have len: "ip < length (inodes s)" using S(6) ip by simp
  let ?l = "(inodes s)[ip := x\<lparr>i_busy := False, i_ref := i_ref x - 1\<rparr>]"
  let ?t = "(s\<lparr>procs := map (wake (ChanInode ip)) (procs s)\<rparr>)\<lparr>inodes := ?l\<rparr>"
  have "iunlockput ip s = Ok () ?t"
    using S(5,7) x len
    by (simp add: iunlockput_def iunlock_def iput_def ip_get_def ip_set_def upd_inode_def kbind_Ok kmod_def)
  moreover have "steady V N ?t" using steady_inodes [OF steady_procs [OF s]] S(6) by simp
  ultimately show ?thesis by (intro exI [of _ ?t]) simp
qed

text \<open>The entry of inode \<open>n\<close> as \<open>iget\<close> and \<open>ilock\<close> fill it for its first user.\<close>

definition loaded :: "(nat \<Rightarrow> block) \<Rightarrow> nat \<Rightarrow> inode" where
  "loaded V n = load_dinode n (V (IBLOCK n)) \<lparr>i_dev = ROOTDEV, i_inum = n, i_ref = 1, i_busy = True, i_valid = True,
     i_type = 0, i_major = 0, i_minor = 0, i_nlink = 0, i_size = 0, i_addrs = []\<rparr>"

definition fresh_entry :: "nat \<Rightarrow> inode \<Rightarrow> inode" where
  "fresh_entry n x = x\<lparr>i_dev := ROOTDEV, i_inum := n, i_ref := 1, i_busy := False, i_valid := False\<rparr>"

lemma loaded_fresh:
  "(load_dinode n (V (IBLOCK n)) ((fresh_entry n x)\<lparr>i_busy := True\<rparr>))\<lparr>i_valid := True\<rparr> = loaded V n"
  by (simp add: loaded_def fresh_entry_def load_dinode_def Let_def)

lemma loaded_fields: "i_dev (loaded V n) = ROOTDEV" "i_inum (loaded V n) = n" "i_ref (loaded V n) = 1" "i_busy (loaded V n)"
  by (simp_all add: loaded_def load_dinode_def Let_def)

lemma iget_new:
  assumes s: "steady V N s" and fr: "\<exists>i < NINODE. i_ref (inodes s ! i) = 0"
    and no: "\<And>i. i < NINODE \<Longrightarrow> 0 < i_ref (inodes s ! i) \<Longrightarrow> i_inum (inodes s ! i) \<noteq> n"
  obtains ip where "ip < NINODE" "i_ref (inodes s ! ip) = 0"
    "iget ROOTDEV n s = Ok ip (s\<lparr>inodes := (inodes s)[ip := fresh_entry n (inodes s ! ip)]\<rparr>)"
proof -
  note S = steadyD [OF s]
  obtain ip t where r: "iget ROOTDEV n s = Ok ip t" using iget_total [OF S(5) fr] by blast
  note G = iget_Ok [OF S(6) r]
  have "ip < NINODE" "i_ref (inodes s ! ip) = 0" "t = s\<lparr>inodes := (inodes s)[ip := fresh_entry n (inodes s ! ip)]\<rparr>"
    using G(1,3) no unfolding fresh_entry_def by blast+
  with r show thesis by (intro that) simp_all
qed

lemma ilock_fresh:
  assumes s: "steady V N s" and ip: "ip < NINODE" "inodes s ! ip = fresh_entry n x" and b: "IBLOCK n < N" "i_type (loaded V n) \<noteq> 0"
  shows "\<exists>t. ilock (Some ip) s = Ok () t \<and> steady V N t \<and> inodes t = (inodes s)[ip := loaded V n]"
  by (rule ilock_total [OF s ip(1) refl]) (use ip(2) b loaded_fresh [of n V x] in \<open>simp_all add: fresh_entry_def\<close>)


text \<open>\<open>namei\<close> of a path with one element below the root, for the first time: the root's entry is
  read, searched and dropped, and the entry for the name's inode is left with one reference.\<close>

lemma skipelem_root:
  assumes "nm \<noteq> []" "slash \<notin> set nm"
  shows "skipelem (slash # nm) = Some ([], take DIRSIZ nm)" "skipelem [] = None"
proof -
  obtain c cs where c: "nm = c # cs" "c \<noteq> slash" using assms by (cases nm) auto
  have tk: "takeWhile (\<lambda>c. c \<noteq> slash) nm = nm" "dropWhile (\<lambda>c. c \<noteq> slash) nm = []"
    using assms(2) by (auto simp: takeWhile_eq_all_conv dropWhile_eq_Nil_conv)
  have "dropWhile (\<lambda>c. c = slash) (slash # nm) = nm" using c by simp
  then show "skipelem (slash # nm) = Some ([], take DIRSIZ nm)" using assms(1) unfolding skipelem_def Let_def by (simp only: tk) simp
  show "skipelem [] = None" by (simp add: skipelem_def)
qed

definition root_ok :: "(nat \<Rightarrow> block) \<Rightarrow> nat \<Rightarrow> bool" where
  "root_ok V N \<longleftrightarrow> IBLOCK ROOTINO < N \<and> i_type (loaded V ROOTINO) = T_DIR \<and> i_nlink (loaded V ROOTINO) \<noteq> 0 \<and>
     all_mapped V (loaded V ROOTINO) \<and> DIRENT_SIZE dvd i_size (loaded V ROOTINO) \<and>
     sectors_ok N Map.empty V (loaded V ROOTINO)"

lemma namei_root:
  fixes s :: "'z fs_state_scheme"
  assumes s: "steady V N s" and fr: "\<And>i. i < NINODE \<Longrightarrow> i_ref (inodes s ! i) = 0" and R: "root_ok V N"
    and nm: "nm \<noteq> []" "slash \<notin> set nm"
    and f: "find (dir_match V (loaded V ROOTINO) (take DIRSIZ nm)) (dir_offsets (i_size (loaded V ROOTINO))) = Some off"
    and n: "de_inum (dirent_at V (loaded V ROOTINO) off) = n" "n \<noteq> ROOTINO"
  shows "\<exists>ip x t. namei dsw (slash # nm) s = Ok (Some ip) t \<and> steady V N t \<and> ip < NINODE \<and> inodes t ! ip = fresh_entry n x"
proof -
  let ?D = "loaded V ROOTINO"
  have D: "IBLOCK ROOTINO < N" "i_type ?D = T_DIR" "i_nlink ?D \<noteq> 0" "all_mapped V ?D" "DIRENT_SIZE dvd i_size ?D"
    "sectors_ok N Map.empty V ?D" "i_type ?D \<noteq> 0"
    using R by (simp_all add: root_ok_def T_DIR_def)
  have N0: "\<exists>i < NINODE. i_ref (inodes s ! i) = 0" using fr [of 0] by (intro exI [of _ 0]) (simp add: NINODE_def)
  obtain dp where dp: "dp < NINODE" "iget ROOTDEV ROOTINO s = Ok dp (s\<lparr>inodes := (inodes s)[dp := fresh_entry ROOTINO (inodes s ! dp)]\<rparr>)"
  proof (rule iget_new [OF s N0, of ROOTINO])
    show "i_inum (inodes s ! i) \<noteq> ROOTINO" if "i < NINODE" "0 < i_ref (inodes s ! i)" for i
      using fr [OF that(1)] that(2) by simp
  qed
  let ?a = "s\<lparr>inodes := (inodes s)[dp := fresh_entry ROOTINO (inodes s ! dp)]\<rparr>"
  have len: "length (inodes s) = NINODE" by (rule steadyD(6) [OF s])
  have a: "steady V N ?a" "inodes ?a ! dp = fresh_entry ROOTINO (inodes s ! dp)"
    using steady_inodes [OF s] len dp(1) by simp_all
  obtain b where b: "ilock (Some dp) ?a = Ok () b" "steady V N b" "inodes b = (inodes ?a)[dp := ?D]"
    using ilock_fresh [OF a(1) dp(1) a(2) D(1,7)] by blast
  have ib: "inodes b = (inodes s)[dp := ?D]" "inodes b ! dp = ?D" using b(3) len dp(1) by simp_all
  note B = steadyD [OF b(2)]
  let ?o = "if dp = 0 then 1 else 0 :: nat"
  have o1: "?o < NINODE" "i_ref (inodes b ! ?o) = 0" using fr ib(1) dp(1) len by (auto simp: NINODE_def)
  have ex: "\<exists>i < NINODE. i_ref (inodes b ! i) = 0" using o1 by blast
  obtain q c where q: "dirlookup dsw dp (take DIRSIZ nm) b = Ok q c"
      and qc: "case q of None \<Rightarrow> read_to b c
        | Some (ip, off) \<Rightarrow> \<exists>u. read_to b u \<and> iget ROOTDEV (de_inum (dirent_at (view b) ?D off)) u = Ok ip c"
    using dirlookup_total [OF B(1) ib(2) [symmetric] D(2) _ D(5) _ B(5) ex, unfolded B(2-4), OF D(4,6)] unfolding B(2) by blast
  have lb: "log_inv b" using B(1) by (simp add: roomy_def)
  note L = dirlookup_fs(2) [OF lb ib(2) [symmetric], unfolded B(2), OF D(4,5) q]
  obtain ip where qs: "q = Some (ip, off)" using L unfolding f by auto
  obtain u where u: "read_to b u" "iget ROOTDEV n u = Ok ip c" using qc unfolding qs B(2) by (auto simp: n(1))
  note U = steady_read_to [OF b(2) u(1)]
  have iu: "inodes u ! dp = ?D" "i < NINODE \<Longrightarrow> i \<noteq> dp \<Longrightarrow> i_ref (inodes u ! i) = 0" for i
    using U(2) ib fr by simp_all
  obtain jp where jp: "jp < NINODE" "i_ref (inodes u ! jp) = 0"
      "iget ROOTDEV n u = Ok jp (u\<lparr>inodes := (inodes u)[jp := fresh_entry n (inodes u ! jp)]\<rparr>)"
  proof (rule iget_new [OF U(1), of n])
    show "\<exists>i < NINODE. i_ref (inodes u ! i) = 0" using ex U(2) by simp
    show "i_inum (inodes u ! i) \<noteq> n" if "i < NINODE" "0 < i_ref (inodes u ! i)" for i
      using iu that n(2) loaded_fields(2) [of V ROOTINO] by (cases "i = dp") auto
  qed
  have c: "ip = jp" "c = u\<lparr>inodes := (inodes u)[jp := fresh_entry n (inodes u ! jp)]\<rparr>" using jp(3) u(2) by simp_all
  have ne: "jp \<noteq> dp" using jp(2) iu(1) loaded_fields(3) [of V ROOTINO] by auto
  have lu: "length (inodes u) = NINODE" by (rule steadyD(6) [OF U(1)])
  have cs: "steady V N c" "inodes c ! dp = ?D" "inodes c ! jp = fresh_entry n (inodes u ! jp)"
    using steady_inodes [OF U(1)] lu ne iu(1) jp(1) unfolding c by simp_all
  obtain t where t: "iunlockput dp c = Ok () t" "steady V N t" "inodes t = (inodes c)[dp := ?D\<lparr>i_busy := False, i_ref := i_ref ?D - 1\<rparr>]"
    using iunlockput_total [OF cs(1) cs(2) [symmetric] _ _ D(3) dp(1)] loaded_fields [of V ROOTINO] by auto
  have it: "inodes t ! jp = fresh_entry n (inodes u ! jp)" using t(3) cs(3) ne by simp
  have td: "ip_get dp i_type b = Ok T_DIR b" using ib(2) D(2) by (simp add: ip_get_def kget_def)
  have "namex_loop dsw False dp (slash # nm) [] ?a = Ok (Some (jp, take DIRSIZ nm)) t"
    using b(1) td q t(1) unfolding qs c(1)
    by (subst namex_loop.simps, subst namex_loop.simps) (simp add: skipelem_root [OF nm] kbind_Ok ret_def)
  then have "namei dsw (slash # nm) s = Ok (Some jp) t"
    using dp(2) by (simp add: namei_def namex_def kbind_Ok ret_def)
  then show ?thesis using t(2) jp(1) it by blast
qed

end
