(* ===== verification/MkfsBoot.thy ===== *)
theory MkfsBoot
  imports MkfsImage FsWalk
begin

text \<open>
  \<open>mkfs\<close> and the kernel together: the kernel's first steps on an image \<open>mkfs\<close> made, down to the bytes \<open>readi\<close>
  returns for a path.  The two sides share only the layout of the disk.
\<close>

section \<open>A kernel started on an image\<close>

text \<open>The kernel's data segment before any initialisation, with a disk of \<open>N\<close> sectors.\<close>

definition boot_state :: "(nat \<Rightarrow> block) \<Rightarrow> nat \<Rightarrow> fs_state" where
  "boot_state V N = \<lparr>held = [], cur = Some 0, mem = (\<lambda>_. 0), freelist = 0, use_lock = True, kend = 0, sym_data = 0,
     kpgdir = 0, cr3 = 0, tss_esp0 = 0, procs = [unused_proc\<lparr>p_state := RUNNING\<rparr>], nextpid = 1, initproc = None,
     sym_forkret = 0, sym_trapret = 0, memdisk = V, disksize = N, disk_writes = [], bufs = replicate NBUF empty_buf,
     lru = [], lstart = 0, lsize = 0, outstanding = 0, committing = False, ldev = 0, lh_n = 0,
     lh_sector = replicate LOGSIZE 0, inodes = replicate NINODE dinode0\<rparr>"

text \<open>What the first process does to read a file by its name: the cache and the log are initialised, and in
  a transaction the name is looked up, the inode locked and its first \<open>n\<close> bytes read.\<close>

definition read_named :: "fs_state devsw \<Rightarrow> byte list \<Rightarrow> nat \<Rightarrow> (fs_state, (int \<times> byte list) option) kmon" where
  "read_named dsw path n =
     kbind begin_op (\<lambda>_. kbind (namei dsw path) (\<lambda>r. case r of None \<Rightarrow> ret None
       | Some ip \<Rightarrow> kbind (ilock (Some ip)) (\<lambda>_. kbind (readi dsw ip 0 n) (\<lambda>q. ret (Some q)))))"

definition boot_read :: "fs_state devsw \<Rightarrow> byte list \<Rightarrow> nat \<Rightarrow> (fs_state, (int \<times> byte list) option) kmon" where
  "boot_read dsw path n = kbind binit (\<lambda>_. kbind initlog (\<lambda>_. read_named dsw path n))"

section \<open>Facts: the file system comes up\<close>

lemma boot_steady:
  assumes "\<And>n. length (V n) = BSIZE" "sb = dec_superblock (V 1)" "1 < N" "sb_nlog sb \<le> sb_size sb" "sb_size sb \<le> N" "1 < sb_nlog sb"
    and z: "V (sb_size sb - sb_nlog sb) = zeroes"
  shows "\<exists>t. kbind binit (\<lambda>_. kbind initlog (\<lambda>_. begin_op)) (boot_state V N) = Ok () t \<and> steady V N t \<and>
    inodes t = replicate NINODE dinode0"
proof -
  let ?s = "boot_state V N"
  have f: "bufs ?s = replicate NBUF empty_buf" "memdisk ?s = V" "disksize ?s = N" "held ?s = []" "outstanding ?s = 0"
    "committing ?s = False" "inodes ?s = replicate NINODE dinode0" "length (lh_sector ?s) = LOGSIZE"
    by (simp_all add: boot_state_def)
  obtain b where b: "binit ?s = Ok () b" "bcache_ok b" "locked b = Map.empty" "pinned b = {}" "bio_frame ?s b" "memdisk b = V"
    using binit_ok [of ?s] f(1-3) assms(1) by auto
  have fb: "disksize b = N" "held b = []" "outstanding b = 0" "committing b = False" "inodes b = replicate NINODE dinode0"
    "length (lh_sector b) = LOGSIZE"
    using f by (subst b(5) [unfolded bio_frame_def], simp)+
  have bo: "boot_ok b" using b fb by (simp add: boot_ok_def calm_def)
  have z0: "get_le 4 0 zeroes = 0" by code_simp
  have z1: "put_le 4 0 0 zeroes = zeroes" by code_simp
  have e: "V(sb_size sb - sb_nlog sb := put_le 4 0 0 (V (sb_size sb - sb_nlog sb))) = V" by (simp only: z z1) (simp add: z [symmetric])
  obtain l where l: "initlog b = Ok () l" "log_wf l" "lh_n l = 0" "locked l = Map.empty" "pinned l = {}" "view l = V" "lsize l = sb_nlog sb"
      "disksize l = N" "held l = []" "outstanding l = 0" "\<not> committing l" "log_state.more l = log_state.more b"
    using initlog_empty [OF bo, of sb, unfolded b(6) fb, OF assms(3,2,4,5)] assms(6) z0 unfolding e by (auto simp: z)
  have il: "inodes l = replicate NINODE dinode0" using l(12) fb(5) by (cases l, cases b) simp
  let ?t = "l\<lparr>outstanding := 1\<rparr>"
  have "begin_op l = Ok () ?t" using l(3,9-11)
    by (simp add: begin_op_def MAXOPBLOCKS_def LOGSIZE_def kbind_Ok)
  then have "kbind binit (\<lambda>_. kbind initlog (\<lambda>_. begin_op)) ?s = Ok () ?t" using b(1) l(1) by (simp add: kbind_Ok)
  moreover have "roomy 0 ?t" using l assms(6) unfolding roomy_def log_inv_def log_wf_def logged_def calm_def by (simp add: NBUF_def LOGSIZE_def MAXOPBLOCKS_def)
  ultimately show ?thesis using l il by (intro exI [of _ ?t]) (simp add: steady_def)
qed

section \<open>Facts: the inodes of an image as the kernel loads them\<close>

lemma loaded_ondisk:
  "i_type (loaded V n) = i_type (ondisk V n)" "i_nlink (loaded V n) = i_nlink (ondisk V n)"
  "i_size (loaded V n) = i_size (ondisk V n)" "i_addrs (loaded V n) = i_addrs (ondisk V n)"
  by (simp_all add: loaded_def ondisk_def load_dinode_def Let_def i2b_def IBLOCK_def)

lemma loaded_blocks:
  "blkaddr V (loaded V n) = blkaddr V (ondisk V n)" "mapped V (loaded V n) = mapped V (ondisk V n)"
  "fbyte V (loaded V n) = fbyte V (ondisk V n)" "dirent_at V (loaded V n) = dirent_at V (ondisk V n)"
  by (simp_all add: fun_eq_iff blkaddr_def mapped_def fbyte_def dirent_at_def loaded_ondisk)

lemma loaded_sectors:
  assumes L: "layout V (ondisk V) I F" and n: "n \<in> I" and F: "F \<le> N"
  shows "sectors_ok N Map.empty V (loaded V n)"
proof -
  have "blkaddr V (ondisk V n) bn < N" if "mapped V (ondisk V n) bn" for bn
  proof -
    have b: "bn < MAXFILE" "slot V (ondisk V n) bn \<noteq> 0" using that by (auto simp: mapped_def slot_def)
    then have "slot V (ondisk V n) bn < F" using layoutD(6) [OF L n, of bn] by simp
    then show ?thesis using F b(1) by (simp add: slot_def)
  qed
  moreover have "i_addrs (ondisk V n) ! NDIRECT < N" if "i_addrs (ondisk V n) ! NDIRECT \<noteq> 0"
    using layoutD(6) [OF L n, of MAXFILE] that F by (simp add: slot_def)
  ultimately show ?thesis by (simp add: sectors_ok_def loaded_blocks loaded_ondisk)
qed

lemma mapped_size:
  assumes "\<forall>i < n. mapped V x (i div BSIZE)"
  shows "n < 2 ^ 31"
proof (cases n)
  case (Suc m)
  then have "m div BSIZE < MAXFILE" using assms by (simp add: mapped_def)
  then have "m < MAXFILE * BSIZE" by (simp add: div_less_iff_less_mult BSIZE_def)
  with Suc show ?thesis by (simp add: MAXFILE_def NDIRECT_def NINDIRECT_def BSIZE_def)
qed simp

lemma loaded_mapped:
  assumes "\<forall>i < i_size (ondisk V n). mapped V (ondisk V n) (i div BSIZE)"
  shows "all_mapped V (loaded V n)"
  using assms mapped_size [OF assms] by (simp add: all_mapped_def loaded_blocks loaded_ondisk loaded_fields)

section \<open>Facts: finding a file of the image\<close>

text \<open>Names as the kernel compares them.  They are C strings, not empty, and no two files are put under
  the same one.\<close>

definition file_name :: "mk_file \<Rightarrow> byte list" where
  "file_name f = take DIRSIZ (strip (fst f))"

definition proper_names :: "mk_file list \<Rightarrow> bool" where
  "proper_names fs \<longleftrightarrow> distinct ([46] # [46, 46] # map file_name fs) \<and> (\<forall>f \<in> set fs. strip (fst f) \<noteq> [] \<and> 0 \<notin> set (fst f))"

lemma set_strip: "set (strip nm) \<subseteq> set nm"
  by (cases nm) (auto simp: strip_def)

lemma take_no_nul: "0 \<notin> set xs \<Longrightarrow> takeWhile (\<lambda>c. c \<noteq> 0) (take k xs) = take k (xs :: byte list)"
  by (auto simp: takeWhile_eq_all_conv dest: in_set_takeD)

lemma takeWhile_padded: "0 \<notin> set xs \<Longrightarrow> takeWhile (\<lambda>c. c \<noteq> 0) (xs @ replicate m (0 :: byte)) = xs"
proof (induction xs)
  case Nil
  then show ?case by (cases m) simp_all
qed simp

lemma name_of_dirent:
  assumes "0 \<notin> set nm" "0 \<notin> set nn"
  shows "namecmp (take DIRSIZ nm) (de_name (mk_dirent nn i)) = 0 \<longleftrightarrow> take DIRSIZ nm = take DIRSIZ nn"
proof -
  have "de_name (mk_dirent nn i) = take DIRSIZ (nn @ replicate DIRSIZ 0)"
    by (simp add: mk_dirent_def de_name_def subrange_def)
  moreover have "takeWhile (\<lambda>c. c \<noteq> 0) (take DIRSIZ nn @ replicate m 0) = take DIRSIZ nn" for m
    by (rule takeWhile_padded) (use assms(2) in \<open>auto dest: in_set_takeD\<close>)
  ultimately show ?thesis using assms by (simp add: namecmp_eq_0 take_no_nul)
qed

lemma find_map_first:
  assumes "k < m" "P (f k)" "\<And>j. j < k \<Longrightarrow> \<not> P (f j)"
  shows "find P (map f [0..<m]) = Some (f k)"
  unfolding find_Some_iff using assms by (intro exI [of _ k]) simp

lemma entries_nth: "k < length fs \<Longrightarrow> entries n fs ! k = mk_dirent (strip (fst (fs ! k))) (n + k)"
proof (induction n fs arbitrary: k rule: entries.induct)
  case (2 n nm c fs)
  then show ?case by (cases k) simp_all
qed simp

lemma root_entry:
  assumes "proper_names fs" "j < k + 2" "k < length fs"
  shows "\<exists>nn i. root_entries fs ! j = mk_dirent nn i \<and> 0 \<notin> set nn \<and> take DIRSIZ nn \<noteq> file_name (fs ! k)"
    "root_entries fs ! (k + 2) = mk_dirent (strip (fst (fs ! k))) (k + 2)"
proof -
  show "root_entries fs ! (k + 2) = mk_dirent (strip (fst (fs ! k))) (k + 2)"
    using entries_nth [OF assms(3), of 2] by (simp add: root_entries_def add.commute)
  have D: "distinct (map file_name fs)" "[46] \<notin> set (map file_name fs)" "[46, 46] \<notin> set (map file_name fs)"
    and Z: "\<And>f. f \<in> set fs \<Longrightarrow> 0 \<notin> set (fst f)" using assms(1) by (auto simp: proper_names_def)
  have ne: "[46] \<noteq> file_name (fs ! k)" "[46, 46] \<noteq> file_name (fs ! k)" using D(2,3) nth_mem [OF assms(3)] by (metis image_eqI set_map)+
  have t: "take DIRSIZ [46] = [46 :: byte]" "take DIRSIZ [46, 46] = [46, 46 :: byte]" by (simp_all add: DIRSIZ_def)
  consider "j = 0" | "j = 1" | i where "j = i + 2" "i < k" using assms(2) by (metis One_nat_def add_2_eq_Suc' add_less_cancel_right not0_implies_Suc)
  then show "\<exists>nn i. root_entries fs ! j = mk_dirent nn i \<and> 0 \<notin> set nn \<and> take DIRSIZ nn \<noteq> file_name (fs ! k)"
  proof cases
    case 1
    then show ?thesis using ne(1) t by (intro exI [of _ "[46]"] exI [of _ ROOTINO]) (simp add: root_entries_def)
  next
    case 2
    then show ?thesis using ne(2) t by (intro exI [of _ "[46, 46]"] exI [of _ ROOTINO]) (simp add: root_entries_def)
  next
    case 3
    have i: "i < length fs" "i \<noteq> k" using 3(2) assms(3) by simp_all
    have "file_name (fs ! i) \<noteq> file_name (fs ! k)" using nth_eq_iff_index_eq [OF D(1), of i k] i assms(3) by simp
    moreover have "root_entries fs ! j = mk_dirent (strip (fst (fs ! i))) (2 + i)"
      using entries_nth [OF i(1), of 2] 3(1) by (simp add: root_entries_def)
    moreover have "0 \<notin> set (strip (fst (fs ! i)))" using set_strip [of "fst (fs ! i)"] Z [OF nth_mem [OF i(1)]] by blast
    ultimately show ?thesis unfolding file_name_def by blast
  qed
qed

lemma image_finds:
  assumes R: "root_of fs t" and p: "proper_names fs" and k: "k < length fs" "length fs + 2 \<le> ninodes"
    and nm: "nm = strip (fst (fs ! k))"
  shows "find (dir_match (disk t) (loaded (disk t) ROOTINO) (take DIRSIZ nm)) (dir_offsets (i_size (loaded (disk t) ROOTINO))) =
      Some ((k + 2) * DIRENT_SIZE)"
    "de_inum (dirent_at (disk t) (loaded (disk t) ROOTINO) ((k + 2) * DIRENT_SIZE)) = k + 2"
proof -
  let ?V = "disk t" and ?x = "ondisk (disk t) ROOTINO" and ?n = "length fs + 2"
  have E: "dirent_at ?V ?x (16 * j) = root_entries fs ! j" if "j < ?n" for j using R that by (simp add: root_of_def Let_def)
  have sz: "i_size ?x = (16 * ?n div BSIZE + 1) * BSIZE" using R by (simp add: root_of_def Let_def)
  have z: "0 \<notin> set nm" using p set_strip [of "fst (fs ! k)"] nth_mem [OF k(1)] unfolding nm proper_names_def by blast
  note RE = root_entry [OF p _ k(1)]
  have kn: "(k + 2) mod 2 ^ 16 = k + 2" using k by (simp add: ninodes_def)
  show di: "de_inum (dirent_at ?V (loaded ?V ROOTINO) ((k + 2) * DIRENT_SIZE)) = k + 2"
    using E [of "k + 2"] k(1) RE(2) [of 0] kn by (simp add: loaded_blocks DIRENT_SIZE_def mult.commute mk_dirent_fields(2))
  let ?P = "dir_match ?V (loaded ?V ROOTINO) (take DIRSIZ nm)"
  have "?P ((k + 2) * DIRENT_SIZE)"
    using di E [of "k + 2"] k(1) RE(2) [of 0] name_of_dirent [OF z z, of "k + 2"]
    by (simp add: dir_match_def loaded_blocks DIRENT_SIZE_def mult.commute nm)
  moreover have "\<not> ?P (j * DIRENT_SIZE)" if j: "j < k + 2" for j
  proof -
    obtain nn i where "root_entries fs ! j = mk_dirent nn i" "0 \<notin> set nn" "take DIRSIZ nn \<noteq> take DIRSIZ nm"
      using RE(1) [OF j] unfolding file_name_def nm by blast
    then show ?thesis using E [of j] j k(1) name_of_dirent [OF z, of nn i]
      by (simp add: dir_match_def loaded_blocks DIRENT_SIZE_def mult.commute)
  qed
  moreover have "k + 2 < (i_size ?x + DIRENT_SIZE - 1) div DIRENT_SIZE"
  proof -
    have "16 * ?n < i_size ?x" unfolding sz BSIZE_def by (rule round_up)
    then have "16 * ?n div 16 \<le> (i_size ?x + 15) div 16" by (intro div_le_mono) simp
    then show ?thesis using k(1) by (simp add: DIRENT_SIZE_def)
  qed
  ultimately show "find ?P (dir_offsets (i_size (loaded ?V ROOTINO))) = Some ((k + 2) * DIRENT_SIZE)"
    unfolding dir_offsets_def loaded_ondisk by (intro find_map_first) auto
qed

lemma image_root_ok:
  assumes R: "root_of fs t" and L: "layout (disk t) (ondisk (disk t)) {1..<length fs + 2} F" "F \<le> N" and m: "(length fs + 2) mod 32 \<noteq> 0"
  shows "root_ok (disk t) N"
proof -
  let ?x = "ondisk (disk t) ROOTINO"
  have x: "i_type ?x = T_DIR" "i_nlink ?x = 1" "i_size ?x = (16 * (length fs + 2) div BSIZE + 1) * BSIZE"
    "\<forall>i < i_size ?x. mapped (disk t) ?x (i div BSIZE)"
    using R m by (simp_all add: root_of_def Let_def)
  have "DIRENT_SIZE dvd BSIZE" by (simp add: DIRENT_SIZE_def BSIZE_def)
  then have "DIRENT_SIZE dvd i_size ?x" unfolding x(3) by (rule dvd_mult)
  moreover have "ROOTINO \<in> {1..<length fs + 2}" by (simp add: ROOTINO_def)
  from loaded_sectors [OF L(1) this L(2)] have "sectors_ok N Map.empty (disk t) (loaded (disk t) ROOTINO)" .
  moreover have "IBLOCK ROOTINO < N" using layoutD(4) [OF L(1)] L(2) by (simp add: IBLOCK_def ROOTINO_def IPB_def BSIZE_def DINODE_SIZE_def data_start_def)
  ultimately show ?thesis using x loaded_mapped [OF x(4)] by (simp add: root_ok_def loaded_ondisk)
qed

text \<open>Reading a file of a disk whose root directory leads to it.\<close>

lemma read_named_run:
  assumes s: "begin_op r = Ok () s" "steady V N s" and fr: "\<And>i. i < NINODE \<Longrightarrow> i_ref (inodes s ! i) = 0" and R: "root_ok V N"
    and nm: "nm \<noteq> []" "slash \<notin> set nm"
    and f: "find (dir_match V (loaded V ROOTINO) (take DIRSIZ nm)) (dir_offsets (i_size (loaded V ROOTINO))) = Some off"
    and i: "de_inum (dirent_at V (loaded V ROOTINO) off) = i" "i \<noteq> ROOTINO" "IBLOCK i < N"
    and x: "i_type (loaded V i) = T_FILE" "all_mapped V (loaded V i)" "sectors_ok N Map.empty V (loaded V i)" and n: "n < 2 ^ 32"
  shows "\<exists>u. read_named dsw (slash # nm) n r =
    Ok (Some (let m = min n (i_size (loaded V i)) in (int m, map (fbyte V (loaded V i)) [0..<m]))) u"
proof -
  obtain ip y a where a: "namei dsw (slash # nm) s = Ok (Some ip) a" "steady V N a" "ip < NINODE" "inodes a ! ip = fresh_entry i y"
    using namei_root [OF s(2) fr R nm f i(1,2)] by blast
  have ty: "i_type (loaded V i) \<noteq> 0" "i_type (loaded V i) \<noteq> T_DEV" using x(1) by (simp_all add: T_FILE_def T_DEV_def)
  obtain b where b: "ilock (Some ip) a = Ok () b" "steady V N b" "inodes b = (inodes a)[ip := loaded V i]"
    using ilock_fresh [OF a(2,3,4) i(3) ty(1)] by blast
  note B = steadyD [OF b(2)]
  have ib: "loaded V i = inodes b ! ip" using b(3) a(3) steadyD(6) [OF a(2)] by simp
  obtain u where u: "readi dsw ip 0 n b = Ok (let m = min n (i_size (loaded V i)) in (int m, map (fbyte V (loaded V i)) [0..<m])) u"
    using readi_total [OF B(1) ib ty(2), unfolded B(2-4), OF x(2,3), of 0 n dsw] n by auto
  show ?thesis using s(1) a(1) b(1) u by (simp add: read_named_def kbind_Ok ret_def)
qed

lemma mkfs_boots_aux:
  assumes "length fs + 2 \<le> ninodes" "\<forall>f \<in> set fs. good_file f"
    and "30 + sum_list (map file_cost fs) + nblk (16 * (length fs + 2)) \<le> 994" "(length fs + 2) mod 32 \<noteq> 0"
    and "proper_names fs" "k < length fs" "snd (fs ! k) = Some cs" "n < 2 ^ 32"
  shows "\<exists>t u. mkfs fs mk_start = Ok () t \<and>
    boot_read dsw (slash # strip (fst (fs ! k))) n (boot_state (disk t) 1024) =
      Ok (Some (int (min n (length (concat cs))), take n (concat cs))) u"
proof -
  obtain t where t: "mkfs fs mk_start = Ok () t" "freeblock t \<le> 994" using mkfs_total [OF assms(1-3)] by auto
  note I = mkfs_image_aux [OF t(1) assms(1)]
  let ?V = "disk t" and ?i = "k + 2" and ?nm = "strip (fst (fs ! k))"
  have fk: "fs ! k \<in> set fs" using assms(6) by simp
  have nm: "?nm \<noteq> []" "slash \<notin> set ?nm"
    using assms(2,5) fk set_strip [of "fst (fs ! k)"] by (auto simp: proper_names_def good_file_def)
  have ii: "?i \<in> {1..<length fs + 2}" "?i \<noteq> ROOTINO" "IBLOCK ?i < 1024"
    using assms(1,6) by (auto simp: ROOTINO_def IBLOCK_def ninodes_def IPB_def BSIZE_def DINODE_SIZE_def)
  have F: "freeblock t \<le> 1024" using t(2) by simp
  have x: "i_type (ondisk ?V ?i) = T_FILE" "content ?V (ondisk ?V ?i) = concat cs"
    "\<forall>j < i_size (ondisk ?V ?i). mapped ?V (ondisk ?V ?i) (j div BSIZE)"
    using I(4) assms(6,7) by (auto simp: image_of_def Let_def)
  have len: "i_size (loaded ?V ?i) = length (concat cs)" using x(2) by (metis length_content loaded_ondisk(3))
  have V: "length (?V b) = BSIZE" for b by (rule layoutD(2) [OF I(3)])
  have z: "?V 994 = zeroes" by (rule layoutD(3) [OF I(3) t(2)])
  obtain s where s: "kbind binit (\<lambda>_. kbind initlog (\<lambda>_. begin_op)) (boot_state ?V 1024) = Ok () s" "steady ?V 1024 s"
      "inodes s = replicate NINODE dinode0"
    using boot_steady [of ?V "dec_superblock (?V 1)" 1024, OF V refl] z unfolding I(1) by auto
  obtain q r where q: "binit (boot_state ?V 1024) = Ok () q" "initlog q = Ok () r" "begin_op r = Ok () s"
    using s(1) by (auto simp: kbind_eq_Ok)
  have fr: "i_ref (inodes s ! j) = 0" if "j < NINODE" for j using that by (simp add: s(3) dinode0_def)
  note fd = image_finds [OF I(5) assms(5,6,1) refl]
  obtain u where u: "read_named dsw (slash # ?nm) n r =
      Ok (Some (let m = min n (i_size (loaded ?V ?i)) in (int m, map (fbyte ?V (loaded ?V ?i)) [0..<m]))) u"
    using read_named_run [OF q(3) s(2) fr image_root_ok [OF I(5,3) F assms(4)] nm fd(1) fd(2) ii(2,3) _ loaded_mapped [OF x(3)]
      loaded_sectors [OF I(3) ii(1) F] assms(8)] x(1) by (auto simp: loaded_ondisk)
  have "take n [0..<length (concat cs)] = [0..<min n (length (concat cs))]"
    by (cases "n \<le> length (concat cs)") (simp_all add: take_upt)
  then have "map (fbyte ?V (loaded ?V ?i)) [0..<min n (length (concat cs))] = take n (content ?V (ondisk ?V ?i))"
    using len by (simp add: content_def take_map loaded_blocks loaded_ondisk)
  then have "boot_read dsw (slash # ?nm) n (boot_state ?V 1024) = Ok (Some (int (min n (length (concat cs))), take n (concat cs))) u"
    using q(1,2) u len x(2) by (simp add: boot_read_def kbind_Ok Let_def)
  with t(1) show ?thesis by blast
qed

section \<open>Property\<close>

text \<open>C3: what the build host puts on the disk is what the kernel reads.  For files that fit in front of the
  log, with different names, and a root directory that does not fill its last block: \<open>mkfs\<close> makes an image,
  and a kernel that starts on it, with nothing cached, initialises its buffer cache, recovers the log,
  begins a transaction, finds every file by its path and reads from it the bytes the file had on the
  host, without a panic, a wait or a wrong byte.\<close>

theorem mkfs_boots:
  assumes "length fs + 2 \<le> ninodes" "\<forall>f \<in> set fs. good_file f"
    and "30 + sum_list (map file_cost fs) + nblk (16 * (length fs + 2)) \<le> 994" "(length fs + 2) mod 32 \<noteq> 0"
    and "proper_names fs" "k < length fs" "snd (fs ! k) = Some cs" "n < 2 ^ 32"
  shows "\<exists>t u. mkfs fs mk_start = Ok () t \<and>
    boot_read dsw (slash # strip (fst (fs ! k))) n (boot_state (disk t) 1024) =
      Ok (Some (int (min n (length (concat cs))), take n (concat cs))) u"
  by (rule mkfs_boots_aux [OF assms])

theorem mkfs_boots_witness:
  "\<exists>t u. mkfs [([95, 108, 115], Some [[1, 2], [3]]), ([99, 97, 116], Some [[4]])] mk_start = Ok () t \<and>
     boot_read no_devsw [47, 108, 115] 100 (boot_state (disk t) 1024) = Ok (Some (3, [1, 2, 3])) u"
proof -
  let ?fs = "[([95, 108, 115], Some [[1, 2], [3]]), ([99, 97, 116], Some [[4]])] :: mk_file list"
  have a: "length ?fs + 2 \<le> ninodes" "\<forall>f \<in> set ?fs. good_file f" "(length ?fs + 2) mod 32 \<noteq> 0"
    "30 + sum_list (map file_cost ?fs) + nblk (16 * (length ?fs + 2)) \<le> 994" "snd (?fs ! 0) = Some [[1, 2], [3]]"
    by (simp_all add: ninodes_def good_file_def slash_def file_cost_def nblk_def MAXFILE_def NDIRECT_def NINDIRECT_def BSIZE_def)
  have p: "proper_names ?fs" by code_simp
  have st: "strip [95, 108, 115] = [108, 115]" by code_simp
  show ?thesis using mkfs_boots [OF a(1,2,4,3) p _ a(5), of 100 no_devsw] by (simp add: st slash_def)
qed

end
