(* ===== verification/Umalloc.thy ===== *)
theory Umalloc
  imports Prelude
begin

text \<open>
  \<open>umalloc.c\<close>, the allocator of the user programs.  A header is a pointer and a size at a byte address; the
  memory is seen through the two fields, \<open>hptr\<close> and \<open>hsize\<close>, as no header overlaps another one
  (\<open>heap_ok\<close>).  A header is eight bytes, which is the unit of sizes and of pointer arithmetic; both wrap
  at 32 bits.  \<open>base\<close> is the address of the static header; \<open>grant n b\<close> says whether the kernel gives
  \<open>sbrk(n)\<close> to a process whose size is \<open>b\<close> (\<open>allocuvm\<close> refuses from \<open>KERNBASE\<close> on).  A loop that does not end is \<open>None\<close>.
\<close>

section \<open>The program\<close>

record um_state =
  hptr :: "nat \<Rightarrow> nat"
  hsize :: "nat \<Rightarrow> nat"
  freep :: nat
  brk :: nat

definition advance :: "nat \<Rightarrow> nat \<Rightarrow> nat" where
  "advance p n = (p + 8 * n) mod 2 ^ 32"

partial_function (option) free_place :: "(nat \<Rightarrow> nat) \<Rightarrow> nat \<Rightarrow> nat \<Rightarrow> nat option" where
  "free_place nx bp p =
     (if bp > p \<and> bp < nx p then Some p
      else if p \<ge> nx p \<and> (bp > p \<or> bp < nx p) then Some p
      else free_place nx bp (nx p))"

definition set_ptr :: "nat \<Rightarrow> nat \<Rightarrow> um_state \<Rightarrow> um_state" where
  "set_ptr p q st = st\<lparr>hptr := (hptr st)(p := q)\<rparr>"

definition set_size :: "nat \<Rightarrow> nat \<Rightarrow> um_state \<Rightarrow> um_state" where
  "set_size p n st = st\<lparr>hsize := (hsize st)(p := n mod 2 ^ 32)\<rparr>"

definition ufree :: "nat \<Rightarrow> um_state \<Rightarrow> um_state option" where
  "ufree ap st =
     (let bp = ap - 8 in
      case free_place (hptr st) bp (freep st) of None \<Rightarrow> None
      | Some p \<Rightarrow>
          let st = (if advance bp (hsize st bp) = hptr st p
                    then (let st = set_size bp (hsize st bp + hsize st (hptr st p)) st in
                          set_ptr bp (hptr st (hptr st p)) st)
                    else set_ptr bp (hptr st p) st);
              st = (if advance p (hsize st p) = bp
                    then (let st = set_size p (hsize st p + hsize st bp) st in set_ptr p (hptr st bp) st)
                    else set_ptr p bp st) in
          Some (st\<lparr>freep := p\<rparr>))"

definition sbrk :: "(int \<Rightarrow> nat \<Rightarrow> bool) \<Rightarrow> nat \<Rightarrow> um_state \<Rightarrow> (nat \<times> um_state) option" where
  "sbrk grant n st =
     (if grant (s32 n) (brk st) then Some (brk st, st\<lparr>brk := u32 (int (brk st) + s32 n)\<rparr>) else None)"

definition morecore :: "(int \<Rightarrow> nat \<Rightarrow> bool) \<Rightarrow> nat \<Rightarrow> um_state \<Rightarrow> (nat option \<times> um_state) option" where
  "morecore grant nu st =
     (let nu = (if nu < 4096 then 4096 else nu) in
      case sbrk grant (nu * 8 mod 2 ^ 32) st of None \<Rightarrow> Some (None, st)
      | Some (p, st) \<Rightarrow>
          (case ufree (p + 8) (set_size p nu st) of None \<Rightarrow> None
           | Some st \<Rightarrow> Some (Some (freep st), st)))"

text \<open>Taking \<open>nunits\<close> units from the block at \<open>p\<close>, from its end if it is larger.\<close>

definition take_block :: "nat \<Rightarrow> nat \<Rightarrow> nat \<Rightarrow> um_state \<Rightarrow> nat \<times> um_state" where
  "take_block prevp p nunits st =
     (if hsize st p = nunits then (advance p 1, (set_ptr prevp (hptr st p) st)\<lparr>freep := prevp\<rparr>)
      else (let st = set_size p (hsize st p - nunits) st; q = advance p (hsize st p) in
            (advance q 1, (set_size q nunits st)\<lparr>freep := prevp\<rparr>)))"

partial_function (option) malloc_loop ::
  "(int \<Rightarrow> nat \<Rightarrow> bool) \<Rightarrow> nat \<Rightarrow> nat \<Rightarrow> nat \<Rightarrow> um_state \<Rightarrow> (nat option \<times> um_state) option" where
  "malloc_loop grant nunits prevp p st =
     (if hsize st p \<ge> nunits then Some (apfst Some (take_block prevp p nunits st))
      else if p = freep st then
        (case morecore grant nunits st of None \<Rightarrow> None
         | Some (r, st') \<Rightarrow> (case r of None \<Rightarrow> Some (None, st')
             | Some q \<Rightarrow> malloc_loop grant nunits q (hptr st' q) st'))
      else malloc_loop grant nunits p (hptr st p) st)"

definition units :: "nat \<Rightarrow> nat" where
  "units nbytes = (nbytes + 8 - 1) mod 2 ^ 32 div 8 + 1"

definition umalloc :: "nat \<Rightarrow> (int \<Rightarrow> nat \<Rightarrow> bool) \<Rightarrow> nat \<Rightarrow> um_state \<Rightarrow> (nat option \<times> um_state) option" where
  "umalloc base grant nbytes st =
     (let st = (if freep st = 0 then set_size base 0 (set_ptr base base (st\<lparr>freep := base\<rparr>)) else st) in
      malloc_loop grant (units nbytes) (freep st) (hptr st (freep st)) st)"

end
