(* ===== verification/UmallocProps.thy ===== *)
theory UmallocProps
  imports Umalloc
begin

text \<open>
  The allocator of the user programs keeps its heap in order: the free blocks are a circular list in the
  order of their addresses with gaps between them, and the blocks handed out are apart from them and
  from each other (\<open>heap_ok\<close>).  \<open>free\<close> and \<open>malloc\<close> return and keep this (\<open>ufree_ok\<close>, \<open>umalloc_ok\<close>), and no memory
  is lost.
\<close>

section \<open>The list of free blocks\<close>

text \<open>The path from an address through blocks, each an address with a size, to another address.\<close>

fun path :: "um_state \<Rightarrow> nat \<Rightarrow> (nat \<times> nat) list \<Rightarrow> nat \<Rightarrow> bool" where
  "path st a [] z = (a = z)"
| "path st a ((b, n) # bs) z = (a = b \<and> hsize st b = n \<and> path st (hptr st b) bs z)"

lemma path_append: "path st a (xs @ ys) z = (\<exists>c. path st a xs c \<and> path st c ys z)"
  by (induction st a xs z rule: path.induct) auto

lemma path_cong:
  "\<forall>x \<in> set xs. hptr t (fst x) = hptr s (fst x) \<and> hsize t (fst x) = hsize s (fst x) \<Longrightarrow>
   path t a xs z = path s a xs z"
  by (induction s a xs z rule: path.induct) auto

lemma path_hd: "path st a (x # xs) z \<Longrightarrow> a = fst x"
  by (cases x) auto

abbreviation before :: "nat \<times> nat \<Rightarrow> nat \<times> nat \<Rightarrow> bool" where
  "before x y \<equiv> fst x + 8 * snd x < fst y"

definition apart :: "nat \<times> nat \<Rightarrow> nat \<times> nat \<Rightarrow> bool" where
  "apart x y \<longleftrightarrow> fst x + 8 * snd x \<le> fst y \<or> fst y + 8 * snd y \<le> fst x"

text \<open>The free blocks \<open>bs\<close> are linked in the order of their addresses, from \<open>base\<close> back to \<open>base\<close>, and
  between two of them there is a gap; the blocks \<open>out\<close> that have been handed out keep their size and
  overlap neither each other nor a free block.\<close>

definition heap_ok :: "nat \<Rightarrow> um_state \<Rightarrow> (nat \<times> nat) list \<Rightarrow> (nat \<times> nat) list \<Rightarrow> bool" where
  "heap_ok base st bs out \<longleftrightarrow>
     path st base ((base, 0) # bs) base \<and> sorted_wrt before ((base, 0) # bs) \<and>
     freep st \<in> fst ` set ((base, 0) # bs) \<and> base \<noteq> 0 \<and> brk st < 2 ^ 31 \<and> base + 8 \<le> brk st \<and>
     (\<forall>x \<in> set bs \<union> set out. 1 \<le> snd x \<and> base + 8 \<le> fst x \<and> fst x + 8 * snd x \<le> brk st) \<and>
     (\<forall>x \<in> set out. hsize st (fst x) = snd x \<and> (\<forall>y \<in> set bs. apart x y)) \<and> sorted_wrt apart out"

section \<open>free\<close>

lemma free_place_up:
  "path st a (A @ (p, m) # R) base \<Longrightarrow> \<forall>x \<in> set (A @ [(p, m)]). fst x < b \<and> base \<le> fst x \<Longrightarrow> \<forall>x \<in> set R. b < fst x \<Longrightarrow>
   sorted_wrt before (A @ (p, m) # R) \<Longrightarrow> free_place (hptr st) b a = Some p"
proof (induction A arbitrary: a)
  case Nil
  then have a: "a = p" "p < b" "base \<le> p" and pt: "path st (hptr st p) R base" by auto
  show ?case
  proof (cases R)
    case Nil
    then have "hptr st p = base" using pt by simp
    then show ?thesis using a by (subst free_place.simps) auto
  next
    case (Cons y ys)
    then have "hptr st p = fst y" "b < fst y" using pt path_hd Nil.prems(3) by auto
    then show ?thesis using a by (subst free_place.simps) auto
  qed
next
  case (Cons x A)
  obtain c k where x: "x = (c, k)" by (cases x)
  let ?rest = "A @ (p, m) # R"
  have pt: "path st (hptr st c) ?rest base" and a: "a = c" using Cons.prems(1) x by auto
  obtain y ys where y: "?rest = y # ys" "y \<in> set (A @ [(p, m)])" by (cases A) auto
  have n: "hptr st c = fst y" using pt path_hd unfolding y(1) by blast
  have "fst y < b" using Cons.prems(2) y(2) by auto
  moreover have "c < fst y" using Cons.prems(4) y x by auto
  ultimately have "free_place (hptr st) b a = free_place (hptr st) b (hptr st c)"
    using a n by (subst free_place.simps) auto
  also have "\<dots> = Some p" using Cons.IH [OF pt] Cons.prems(2-4) by auto
  finally show ?case .
qed

lemma free_place_wrap:
  "path st a R base \<Longrightarrow> \<forall>x \<in> set R. b < fst x \<and> base < fst x \<Longrightarrow> base < b \<Longrightarrow> sorted_wrt before R \<Longrightarrow>
   free_place (hptr st) b a = free_place (hptr st) b base"
proof (induction R arbitrary: a)
  case (Cons x R)
  obtain c k where x: "x = (c, k)" by (cases x)
  have pt: "path st (hptr st c) R base" and a: "a = c" and c: "b < c" using Cons.prems(1,2) x by auto
  have "hptr st c = base \<or> c < hptr st c"
  proof (cases R)
    case (Cons y ys)
    then show ?thesis using pt path_hd Cons.prems(4) x by auto
  qed (use pt in simp)
  then have "free_place (hptr st) b a = free_place (hptr st) b (hptr st c)"
    using a c Cons.prems(3) by (subst free_place.simps) auto
  also have "\<dots> = free_place (hptr st) b base" using Cons.IH [OF pt] Cons.prems(2-4) by auto
  finally show ?case .
qed simp

text \<open>The place found is the last block before the one that is freed, wherever the search begins.\<close>

lemma free_place_found:
  assumes p: "path st base (L @ (p, m) # R) base" and s: "sorted_wrt before (L @ (p, m) # R)"
    and lo: "\<forall>x \<in> set (L @ [(p, m)]). fst x < b \<and> base \<le> fst x" and hi: "\<forall>x \<in> set R. b < fst x" and b: "base < b"
    and f: "f \<in> fst ` set (L @ (p, m) # R)"
  shows "free_place (hptr st) b f = Some p"
proof -
  have from_base: "free_place (hptr st) b base = Some p" by (rule free_place_up [OF p lo hi s])
  obtain k where "(f, k) \<in> set (L @ (p, m) # R)" using f by (metis imageE prod.collapse)
  then consider "(f, k) \<in> set L" | "f = p" "k = m" | "(f, k) \<in> set R" by auto
  then show ?thesis
  proof cases
    case 1
    then obtain L1 L2 where L: "L = L1 @ (f, k) # L2" by (meson split_list)
    have "path st f (((f, k) # L2) @ (p, m) # R) base" using p unfolding L by (auto simp: path_append)
    then show ?thesis by (rule free_place_up) (use lo hi s L in \<open>auto simp: sorted_wrt_append\<close>)
  next
    case 2
    have "path st f ([] @ (p, m) # R) base" using p 2 by (auto simp: path_append)
    then show ?thesis by (rule free_place_up) (use lo hi s in \<open>auto simp: sorted_wrt_append\<close>)
  next
    case 3
    then obtain R1 R2 where R: "R = R1 @ (f, k) # R2" by (meson split_list)
    have "path st f ((f, k) # R2) base" using p unfolding R by (auto simp: path_append)
    then have "free_place (hptr st) b f = free_place (hptr st) b base"
      by (rule free_place_wrap) (use hi b s R in \<open>auto simp: sorted_wrt_append\<close>)
    then show ?thesis using from_base by simp
  qed
qed

lemma path_update:
  "bp \<notin> fst ` set xs \<Longrightarrow> path (set_ptr bp q st) a xs z = path st a xs z"
  "bp \<notin> fst ` set xs \<Longrightarrow> path (set_size bp n st) a xs z = path st a xs z"
  "path (st\<lparr>freep := f\<rparr>) a xs z = path st a xs z"
  by (rule path_cong, force simp: set_ptr_def set_size_def)+

lemma set_fields [simp]:
  "hptr (set_ptr p q st) = (hptr st)(p := q)" "hsize (set_ptr p q st) = hsize st"
  "hptr (set_size p n st) = hptr st" "hsize (set_size p n st) = (hsize st)(p := n mod 2 ^ 32)"
  "brk (set_ptr p q st) = brk st" "brk (set_size p n st) = brk st"
  "freep (set_ptr p q st) = freep st" "freep (set_size p n st) = freep st"
  by (simp_all add: set_ptr_def set_size_def)

lemma before_distinct: "sorted_wrt before xs \<Longrightarrow> distinct (map fst xs)"
  by (induction xs) force+

text \<open>The blocks after a block \<open>(b, n)\<close> has been put between \<open>(p, m)\<close> and \<open>R\<close>, joined with its neighbours
  where it touches them.\<close>

definition put_block :: "(nat \<times> nat) list \<Rightarrow> nat \<Rightarrow> nat \<Rightarrow> nat \<Rightarrow> nat \<Rightarrow> (nat \<times> nat) list \<Rightarrow> (nat \<times> nat) list" where
  "put_block L p m b n R =
     (let (n', R') = (case R of (c, k) # R' \<Rightarrow> if b + 8 * n = c then (n + k, R') else (n, R) | [] \<Rightarrow> (n, R)) in
      if p + 8 * m = b then L @ (p, m + n') # R' else L @ (p, m) # (b, n') # R')"

lemma ufree_path:
  assumes p: "path st base (L @ (p, m) # R) base" and s: "sorted_wrt before (L @ (p, m) # R)"
    and pl: "free_place (hptr st) b (freep st) = Some p" and n: "hsize st b = n" "b \<notin> fst ` set (L @ (p, m) # R)"
    and lim: "b + 8 * n < 2 ^ 31" "\<forall>x \<in> set (L @ (p, m) # R). fst x + 8 * snd x < 2 ^ 31" "base < b"
  shows "\<exists>t. ufree (b + 8) st = Some t \<and> path t base (put_block L p m b n R) base \<and> freep t = p \<and> brk t = brk st \<and>
    (\<forall>a. a \<noteq> b \<and> a \<noteq> p \<longrightarrow> hsize t a = hsize st a)"
proof -
  obtain pL: "path st base L p" and pm: "hsize st p = m" and pR: "path st (hptr st p) R base"
    using p by (auto simp: path_append)
  have d: "p \<notin> fst ` set L" "p \<notin> fst ` set R" "b \<noteq> p" "b \<notin> fst ` set L" "b \<notin> fst ` set R"
    using before_distinct [OF s] n(2) by auto
  have adv: "advance b n = b + 8 * n" "advance p m = p + 8 * m" using lim by (auto simp: advance_def)
  have m32: "m < 2 ^ 32" "n < 2 ^ 32" using lim(1,2) by auto
  define up where "up = (b + 8 * n = hptr st p)"
  show ?thesis
  proof (cases up)
    case False
    have pb: "put_block L p m b n R = (if p + 8 * m = b then L @ (p, m + n) # R else L @ (p, m) # (b, n) # R)"
      using False pR by (cases R) (auto simp: put_block_def up_def)
    let ?s1 = "set_ptr b (hptr st p) st"
    let ?t = "(if p + 8 * m = b then set_ptr p (hptr st p) (set_size p (m + n) ?s1) else set_ptr p b ?s1)\<lparr>freep := p\<rparr>"
    have t: "ufree (b + 8) st = Some ?t"
      using False pl n(1) pm adv d by (simp add: ufree_def up_def Let_def)
    have mn: "p + 8 * m = b \<Longrightarrow> (m + n) mod 2 ^ 32 = m + n" using lim(1) by simp
    have "path ?t base (put_block L p m b n R) base"
      unfolding pb using pL pR pm n(1) d mn by (simp add: path_append path_update)
    then show ?thesis using t by (intro exI [of _ ?t]) auto
  next
    case True
    then obtain c k R' where R: "R = (c, k) # R'" using pR lim(3) by (cases R) (auto simp: up_def)
    have c: "hptr st p = c" "hsize st c = k" "path st (hptr st c) R' base" using pR R by auto
    have pb: "put_block L p m b n R = (if p + 8 * m = b then L @ (p, m + (n + k)) # R' else L @ (p, m) # (b, n + k) # R')"
      using True c R by (simp add: put_block_def up_def)
    have dc: "c \<noteq> b" "c \<noteq> p" "p \<notin> fst ` set R'" "b \<notin> fst ` set R'" using d R by auto
    have ck: "c + 8 * k < 2 ^ 31" using lim(2) R by auto
    have nk: "(n + k) mod 2 ^ 32 = n + k" using True c(1) ck by (simp add: up_def)
    let ?s1 = "set_ptr b (hptr st c) (set_size b (n + k) st)"
    let ?t = "(if p + 8 * m = b then set_ptr p (hptr st c) (set_size p (m + (n + k)) ?s1) else set_ptr p b ?s1)\<lparr>freep := p\<rparr>"
    have t: "ufree (b + 8) st = Some ?t"
      using True pl n(1) pm adv d c dc nk by (simp add: ufree_def up_def Let_def)
    have mn: "p + 8 * m = b \<Longrightarrow> (m + (n + k)) mod 2 ^ 32 = m + (n + k)" using True c(1) ck by (simp add: up_def)
    have "path ?t base (put_block L p m b n R) base"
      unfolding pb using pL pm n(1) d dc c mn nk by (simp add: path_append path_update)
    then show ?thesis using t by (intro exI [of _ ?t]) auto
  qed
qed

lemma put_block_sorted:
  assumes "sorted_wrt before (L @ (p, m) # R)" "p + 8 * m \<le> b" "\<forall>x \<in> set R. b + 8 * n \<le> fst x"
  shows "sorted_wrt before (put_block L p m b n R)"
proof (cases R)
  case Nil
  then show ?thesis using assms by (auto simp: put_block_def sorted_wrt_append)
next
  case (Cons x R')
  obtain c k where x: "x = (c, k)" by (cases x)
  then have "b + 8 * n \<le> c" "\<forall>y \<in> set R'. c + 8 * k < fst y"
    using assms Cons by (auto simp: sorted_wrt_append)
  then show ?thesis using assms x Cons by (auto simp: put_block_def sorted_wrt_append)
qed

lemma put_block_all:
  assumes "y \<in> set (put_block L p m b n R)" "\<forall>x \<in> set R. Q x" "Q (b, n)" "p + 8 * m = b \<Longrightarrow> Q (p, m)"
    and join: "\<And>a i j. Q (a, i) \<Longrightarrow> Q (a + 8 * i, j) \<Longrightarrow> Q (a, i + j)"
  shows "y \<in> set L \<or> y = (p, m) \<or> Q y"
proof (cases "\<exists>c k R'. R = (c, k) # R' \<and> b + 8 * n = c")
  case True
  then obtain k R' where R: "R = (b + 8 * n, k) # R'" by auto
  have "Q (b, n + k)" using join assms(2,3) R by simp
  moreover from this have "p + 8 * m = b \<Longrightarrow> Q (p, m + (n + k))" using join [of p m "n + k"] assms(4) by simp
  ultimately show ?thesis using assms(1,2) R by (auto simp: put_block_def split: if_splits)
next
  case False
  then have "put_block L p m b n R = (if p + 8 * m = b then L @ (p, m + n) # R else L @ (p, m) # (b, n) # R)"
    by (auto simp: put_block_def split: list.splits)
  moreover have "p + 8 * m = b \<Longrightarrow> Q (p, m + n)" using join [of p m n] assms(3,4) by simp
  ultimately show ?thesis using assms(1-3) by (auto split: if_splits)
qed

lemma put_block_mem: "p \<in> fst ` set (put_block L p m b n R)"
proof (cases "\<exists>c k R'. R = (c, k) # R' \<and> b + 8 * n = c")
  case True
  then obtain k R' where "R = (b + 8 * n, k) # R'" by blast
  then have "put_block L p m b n R = (if p + 8 * m = b then L @ (p, m + (n + k)) # R' else L @ (p, m) # (b, n + k) # R')"
    by (simp add: put_block_def)
  then show ?thesis by auto
next
  case False
  then have "put_block L p m b n R = (if p + 8 * m = b then L @ (p, m + n) # R else L @ (p, m) # (b, n) # R)"
    by (auto simp: put_block_def split: list.splits)
  then show ?thesis by auto
qed

lemma apart_join: "apart x (a, i) \<Longrightarrow> apart x (a + 8 * i, j) \<Longrightarrow> 1 \<le> snd x \<Longrightarrow> apart x (a, i + j)"
  by (auto simp: apart_def)

lemma apart_sym: "apart x y = apart y x"
  by (auto simp: apart_def)

text \<open>The addresses of the blocks.\<close>

definition span :: "(nat \<times> nat) list \<Rightarrow> nat set" where
  "span xs = (\<Union>x \<in> set xs. {fst x..<fst x + 8 * snd x})"

lemma span_simps [simp]: "span [] = {}" "span (x # xs) = {fst x..<fst x + 8 * snd x} \<union> span xs" "span (xs @ ys) = span xs \<union> span ys"
  by (auto simp: span_def)

lemma span_put_block: "span (put_block L p m b n R) = span (L @ (p, m) # R) \<union> {b..<b + 8 * n}"
  by (auto simp: put_block_def split: list.splits)

text \<open>Where a block that overlaps no free block goes.\<close>

lemma split_at:
  assumes "sorted_wrt before (x # xs)" "fst x < b" "b \<notin> fst ` set xs"
  obtains L p m R where "x # xs = L @ (p, m) # R" "\<forall>y \<in> set (L @ [(p, m)]). fst y < b" "\<forall>y \<in> set R. b < fst y"
proof -
  have "\<exists>L p m R. x # xs = L @ (p, m) # R \<and> (\<forall>y \<in> set (L @ [(p, m)]). fst y < b) \<and> (\<forall>y \<in> set R. b < fst y)"
    using assms
  proof (induction xs arbitrary: x)
    case Nil
    then show ?case by (intro exI [of _ "[]"] exI [of _ "fst x"] exI [of _ "snd x"]) simp
  next
    case (Cons y ys)
    show ?case
    proof (cases "fst y < b")
      case True
      from Cons.IH [OF _ True] Cons.prems obtain L p m R where "y # ys = L @ (p, m) # R"
        "\<forall>y \<in> set (L @ [(p, m)]). fst y < b" "\<forall>y \<in> set R. b < fst y" by auto
      then show ?thesis using Cons.prems(2) by (intro exI [of _ "x # L"] exI [of _ p] exI [of _ m] exI [of _ R]) auto
    next
      case False
      then have "b < fst y" using Cons.prems(3) by auto
      then have "\<forall>z \<in> set (y # ys). b < fst z" using Cons.prems(1) by fastforce
      then show ?thesis using Cons.prems(2) by (intro exI [of _ "[]"] exI [of _ "fst x"] exI [of _ "snd x"] exI [of _ "y # ys"]) auto
    qed
  qed
  then show thesis using that by blast
qed

lemma heap_okD:
  assumes "heap_ok base st bs out"
  shows "path st base ((base, 0) # bs) base" "sorted_wrt before ((base, 0) # bs)" "freep st \<in> fst ` set ((base, 0) # bs)"
    "base \<noteq> 0" "brk st < 2 ^ 31" "base + 8 \<le> brk st"
    "x \<in> set bs \<or> x \<in> set out \<Longrightarrow> 1 \<le> snd x \<and> base + 8 \<le> fst x \<and> fst x + 8 * snd x \<le> brk st"
    "x \<in> set out \<Longrightarrow> hsize st (fst x) = snd x" "x \<in> set out \<Longrightarrow> y \<in> set bs \<Longrightarrow> apart x y" "sorted_wrt apart out"
  using assms unfolding heap_ok_def by blast+

text \<open>\<open>free\<close> of a block that is out returns, puts exactly its addresses among the free ones, and leaves the
  heap in order.\<close>

lemma ufree_ok:
  assumes H: "heap_ok base st bs (o1 @ (b, n) # o2)"
  shows "\<exists>t bs'. ufree (b + 8) st = Some t \<and> heap_ok base t bs' (o1 @ o2) \<and> brk t = brk st \<and> span bs' = span bs \<union> {b..<b + 8 * n}"
proof -
  note h = heap_okD [OF H]
  have bn: "1 \<le> n" "base + 8 \<le> b" "b + 8 * n \<le> brk st" "hsize st b = n" using h(7) [of "(b, n)"] h(8) [of "(b, n)"] by auto
  have ap: "apart (b, n) y" if "y \<in> set bs" for y using h(9) [OF _ that, of "(b, n)"] by simp
  have apo: "apart x (b, n)" if "x \<in> set (o1 @ o2)" for x using h(10) that by (auto simp: sorted_wrt_append apart_sym)
  have nb: "b \<notin> fst ` set bs" using ap h(7) bn(1) by (fastforce simp: apart_def)
  have bb: "fst (base, 0 :: nat) < b" using bn(2) by simp
  obtain L p m R where X: "(base, 0) # bs = L @ (p, m) # R"
    and lo: "\<forall>y \<in> set (L @ [(p, m)]). fst y < b" and hi: "\<forall>y \<in> set R. b < fst y"
    by (rule split_at [OF h(2) bb nb])
  note P = h(1) [unfolded X] and S = h(2) [unfolded X]
  have in_bs: "y = (base, 0) \<or> y \<in> set bs" if "y \<in> set (L @ (p, m) # R)" for y
    using arg_cong [OF X, of set] that by auto
  have pm: "p + 8 * m \<le> b"
    using in_bs [of "(p, m)"] ap [of "(p, m)"] lo bn(1,2) by (auto simp: apart_def)
  have Rb: "\<forall>y \<in> set R. b + 8 * n \<le> fst y"
  proof
    fix y assume y: "y \<in> set R"
    then have "y \<in> set bs" using in_bs [of y] hi bn(2) by auto
    then show "b + 8 * n \<le> fst y" using ap [of y] h(7) [of y] hi y by (auto simp: apart_def)
  qed
  have base_le: "base \<le> fst y" if "y \<in> set (L @ (p, m) # R)" for y
    using in_bs [OF that] h(7) [of y] by auto
  have lob: "\<forall>y \<in> set (L @ [(p, m)]). fst y < b \<and> base \<le> fst y" using lo base_le base_le [of "(p, m)"] by simp
  have f: "freep st \<in> fst ` set (L @ (p, m) # R)" using h(3) unfolding X .
  have pl: "free_place (hptr st) b (freep st) = Some p"
    using free_place_found [OF P S lob hi _ f] bn(2) by simp
  have nb': "b \<notin> fst ` set (L @ (p, m) # R)"
  proof
    assume "b \<in> fst ` set (L @ (p, m) # R)"
    then obtain y where y: "y \<in> set (L @ (p, m) # R)" "b = fst y" by blast
    from in_bs [OF y(1)] show False using nb bn(2) y(2) by auto
  qed
  have lim: "\<forall>x \<in> set (L @ (p, m) # R). fst x + 8 * snd x < 2 ^ 31"
  proof
    fix x assume "x \<in> set (L @ (p, m) # R)"
    then show "fst x + 8 * snd x < 2 ^ 31" using in_bs [of x] h(5,6) h(7) [of x] by auto
  qed
  have lim2: "b + 8 * n < 2 ^ 31" "base < b" using bn h(5) by auto
  from ufree_path [OF P S pl bn(4) nb' lim2(1) lim lim2(2)] obtain t where
    t: "ufree (b + 8) st = Some t" and pt: "path t base (put_block L p m b n R) base" and fr: "freep t = p" "brk t = brk st"
    and sz: "\<And>a. a \<noteq> b \<Longrightarrow> a \<noteq> p \<Longrightarrow> hsize t a = hsize st a" by blast
  define bs' where "bs' = tl (put_block L p m b n R)"
  have pbase: "p = base \<Longrightarrow> p + 8 * m \<noteq> b \<and> L = [] \<and> m = 0"
  proof -
    assume pb: "p = base"
    have "L = []"
    proof (cases L)
      case (Cons l L')
      then have "fst l = base" using X by auto
      then show ?thesis using S Cons pb by auto
    qed
    then show ?thesis using X pb bn(2) by auto
  qed
  have hd: "put_block L p m b n R = (base, 0) # bs'"
  proof (cases L)
    case Nil
    then have "p = base" "m = 0" using X by auto
    then show ?thesis using pbase Nil by (auto simp: bs'_def put_block_def split: list.splits)
  next
    case (Cons l L')
    then show ?thesis using X by (auto simp: bs'_def put_block_def split: list.splits)
  qed
  have S': "sorted_wrt before ((base, 0) # bs')" using put_block_sorted [OF S pm Rb] unfolding hd .
  define Q where "Q y \<longleftrightarrow> 1 \<le> snd y \<and> base + 8 \<le> fst y \<and> fst y + 8 * snd y \<le> brk st \<and> (\<forall>x \<in> set (o1 @ o2). apart x y)" for y
  have Qbs: "Q y" if "y \<in> set bs" for y using h(7) [of y] h(9) [OF _ that] that by (auto simp: Q_def)
  have Qb: "Q (b, n)" using bn apo by (simp add: Q_def)
  have out1: "1 \<le> snd x" if "x \<in> set (o1 @ o2)" for x using h(7) [of x] that by auto
  have QR: "\<forall>x \<in> set R. Q x"
  proof
    fix y assume y: "y \<in> set R"
    then have "y \<noteq> (base, 0)" using hi bn(2) by auto
    then show "Q y" using in_bs [of y] Qbs y by auto
  qed
  have Qp: "p + 8 * m = b \<Longrightarrow> Q (p, m)" using in_bs [of "(p, m)"] Qbs pbase by auto
  have Qj: "Q (a, i + j)" if "Q (a, i)" "Q (a + 8 * i, j)" for a i j
    using that apart_join out1 by (auto simp: Q_def)
  have Q': "Q y" if y: "y \<in> set bs'" for y
  proof -
    have "y \<in> set (put_block L p m b n R)" using y hd by simp
    from put_block_all [of y, OF this QR Qb Qp Qj] have "y \<in> set (L @ (p, m) # R) \<or> Q y" by auto
    moreover have "y \<noteq> (base, 0)" using S' y by auto
    ultimately show ?thesis using in_bs Qbs by blast
  qed
  have fp: "p \<in> fst ` set ((base, 0) # bs')"
    unfolding hd [symmetric] by (rule put_block_mem)
  have so: "hsize t (fst x) = snd x" if x: "x \<in> set (o1 @ o2)" for x
  proof -
    have "fst x \<noteq> b" using apo [OF x] out1 [OF x] bn(1) by (auto simp: apart_def)
    moreover have "fst x \<noteq> p"
    proof
      assume e: "fst x = p"
      have "base + 8 \<le> fst x" using h(7) [of x] x by auto
      then have "(p, m) \<in> set bs" using in_bs [of "(p, m)"] e by auto
      then have "apart x (p, m)" "1 \<le> m" using h(9) [of x "(p, m)"] h(7) [of "(p, m)"] x by auto
      then show False using e out1 [OF x] by (auto simp: apart_def)
    qed
    ultimately show ?thesis using sz h(8) [of x] x by auto
  qed
  have so': "sorted_wrt apart (o1 @ o2)" using h(10) by (auto simp: sorted_wrt_append)
  have out: "1 \<le> snd x \<and> base + 8 \<le> fst x \<and> fst x + 8 * snd x \<le> brk st" if "x \<in> set (o1 @ o2)" for x
    using h(7) [of x] that by auto
  have "heap_ok base t bs' (o1 @ o2)"
    unfolding heap_ok_def fr
  proof (intro conjI)
    show "path t base ((base, 0) # bs') base" using pt unfolding hd .
    show "\<forall>x \<in> set bs' \<union> set (o1 @ o2). 1 \<le> snd x \<and> base + 8 \<le> fst x \<and> fst x + 8 * snd x \<le> brk st"
      using Q' out unfolding Q_def by blast
    show "\<forall>x \<in> set (o1 @ o2). hsize t (fst x) = snd x \<and> (\<forall>y \<in> set bs'. apart x y)"
      using so Q' unfolding Q_def by blast
  qed (use S' fp so' h(4-6) in auto)
  moreover have "span bs' = span bs \<union> {b..<b + 8 * n}"
    using span_put_block [of L p m b n R] unfolding hd X [symmetric] by simp
  ultimately show ?thesis using t fr(2) by blast
qed

section \<open>malloc\<close>

lemma s32_id: "n < 2 ^ 31 \<Longrightarrow> s32 n = int n"
  by simp

text \<open>What the kernel may grant: the process stays below 2 GB.\<close>

definition sane :: "(int \<Rightarrow> nat \<Rightarrow> bool) \<Rightarrow> bool" where
  "sane grant \<longleftrightarrow> (\<forall>n b. grant (int n) b \<longrightarrow> b + n < 2 ^ 31)"

lemma morecore_ok:
  assumes H: "heap_ok base st bs out" and g: "sane grant" and nu: "nu * 8 < 2 ^ 31"
  shows "morecore grant nu st = Some (None, st) \<and> \<not> grant (int ((if nu < 4096 then 4096 else nu) * 8)) (brk st) \<or>
    (\<exists>t bs' k. morecore grant nu st = Some (Some (freep t), t) \<and> heap_ok base t bs' out \<and> nu \<le> k \<and>
      brk t = brk st + 8 * k \<and> span bs' = span bs \<union> {brk st..<brk st + 8 * k})"
proof -
  define k where "k = (if nu < 4096 then 4096 else nu)"
  have k: "k * 8 < 2 ^ 31" "1 \<le> k" "nu \<le> k" using nu by (auto simp: k_def)
  then have sk: "s32 (k * 8 mod 2 ^ 32) = int (k * 8)" "k mod 2 ^ 32 = k" by simp_all
  show ?thesis
  proof (cases "grant (int (k * 8)) (brk st)")
    case False
    then show ?thesis using sk unfolding morecore_def k_def [symmetric] sbrk_def Let_def by simp
  next
    case True
    note h = heap_okD [OF H]
    let ?b = "brk st"
    have lim: "?b + k * 8 < 2 ^ 31" using g True by (auto simp: sane_def)
    let ?s = "set_size ?b k (st\<lparr>brk := ?b + k * 8\<rparr>)"
    have u: "u32 (int ?b + int (k * 8)) = ?b + k * 8"
      using lim u32_of_nat [of "?b + k * 8"] by (simp only: of_nat_add) simp
    have nb: "fst x \<noteq> ?b" if "x \<in> set ((base, 0) # bs) \<union> set out" for x
      using h(6) h(7) [of x] that by auto
    have ap: "apart x (?b, k)" if "x \<in> set bs \<union> set out" for x using h(7) [of x] that by (auto simp: apart_def)
    have pt: "path ?s base ((base, 0) # bs) base"
    proof (rule iffD2 [OF path_cong h(1)], intro ballI)
      fix x assume "x \<in> set ((base, 0) # bs)"
      then have "fst x \<noteq> ?b" by (intro nb) auto
      then show "hptr ?s (fst x) = hptr st (fst x) \<and> hsize ?s (fst x) = hsize st (fst x)" by (simp add: set_size_def)
    qed
    have "heap_ok base ?s bs ([] @ (?b, k) # out)"
      unfolding heap_ok_def
    proof (intro conjI)
      show "path ?s base ((base, 0) # bs) base" by (rule pt)
      show "\<forall>x \<in> set bs \<union> set ([] @ (?b, k) # out). 1 \<le> snd x \<and> base + 8 \<le> fst x \<and> fst x + 8 * snd x \<le> brk ?s"
        using h(6) h(7) k(2) by fastforce
      show "\<forall>x \<in> set ([] @ (?b, k) # out). hsize ?s (fst x) = snd x \<and> (\<forall>y \<in> set bs. apart x y)"
      proof
        fix x assume x: "x \<in> set ([] @ (?b, k) # out)"
        show "hsize ?s (fst x) = snd x \<and> (\<forall>y \<in> set bs. apart x y)"
        proof (cases "x = (?b, k)")
          case True
          then show ?thesis using sk(2) ap by (auto simp: set_size_def apart_sym)
        next
          case False
          then have o': "x \<in> set out" using x by simp
          then show ?thesis using nb [of x] h(8) [OF o'] h(9) [OF o'] by (auto simp: set_size_def)
        qed
      qed
      show "sorted_wrt apart ([] @ (?b, k) # out)" using h(10) ap by (auto simp: apart_sym)
    qed (use h(2-4) h(6) lim in \<open>auto simp: set_size_def\<close>)
    from ufree_ok [OF this] obtain t bs' where t: "ufree (?b + 8) ?s = Some t" "heap_ok base t bs' out" "brk t = brk ?s"
      "span bs' = span bs \<union> {?b..<?b + 8 * k}" by auto
    have "morecore grant nu st = Some (Some (freep t), t)"
      using True sk u t(1) unfolding morecore_def k_def [symmetric] Let_def sbrk_def by simp
    then show ?thesis using t(2,3,4) k(3) by (auto simp: set_size_def mult.commute)
  qed
qed

text \<open>The search of \<open>malloc\<close> along a path: it stops at the first block that is large enough.\<close>

lemma malloc_find:
  "path st p (A @ (q, m) # B) z \<Longrightarrow> \<forall>x \<in> set A. snd x < nu \<and> fst x \<noteq> freep st \<Longrightarrow> nu \<le> m \<Longrightarrow>
   malloc_loop grant nu prevp p st = Some (apfst Some (take_block (if A = [] then prevp else fst (last A)) q nu st))"
proof (induction A arbitrary: p prevp)
  case Nil
  then show ?case by (subst malloc_loop.simps) simp
next
  case (Cons x A)
  obtain c k where x: "x = (c, k)" by (cases x)
  have pt: "path st (hptr st c) (A @ (q, m) # B) z" and c: "p = c" "hsize st c = k" using Cons.prems(1) x by auto
  have "malloc_loop grant nu prevp p st = malloc_loop grant nu c (hptr st c) st"
    using Cons.prems(2) c x by (subst malloc_loop.simps) auto
  also have "\<dots> = Some (apfst Some (take_block (if A = [] then c else fst (last A)) q nu st))"
    using Cons.IH [OF pt] Cons.prems(2,3) by simp
  finally show ?case using x by simp
qed

lemma malloc_none:
  "path st p (A @ [(f, m)]) z \<Longrightarrow> \<forall>x \<in> set A. snd x < nu \<and> fst x \<noteq> freep st \<Longrightarrow> m < nu \<Longrightarrow> f = freep st \<Longrightarrow>
   malloc_loop grant nu prevp p st = (case morecore grant nu st of None \<Rightarrow> None
         | Some (r, st') \<Rightarrow> (case r of None \<Rightarrow> Some (None, st')
             | Some q \<Rightarrow> malloc_loop grant nu q (hptr st' q) st'))"
proof (induction A arbitrary: p prevp)
  case Nil
  then show ?case by (subst malloc_loop.simps) simp
next
  case (Cons x A)
  obtain c k where x: "x = (c, k)" by (cases x)
  have pt: "path st (hptr st c) (A @ [(f, m)]) z" and c: "p = c" "hsize st c = k" using Cons.prems(1) x by auto
  have "malloc_loop grant nu prevp p st = malloc_loop grant nu c (hptr st c) st"
    using Cons.prems(2) c x by (subst malloc_loop.simps) auto
  then show ?case using Cons.IH [OF pt] Cons.prems(2-4) by simp
qed

text \<open>The path seen from the block behind \<open>freep\<close>.\<close>

lemma rotate_path:
  assumes "path st base (P @ (f, k) # S) base"
  shows "path st (hptr st f) (S @ P @ [(f, k)]) (hptr st f)"
  using assms by (auto simp: path_append)

lemma first_big:
  assumes "\<exists>x \<in> set xs. nu \<le> snd x"
  obtains A q m B where "xs = A @ (q, m) # B" "\<forall>x \<in> set A. snd x < nu" "nu \<le> (m :: nat)"
proof -
  from split_list_first_prop [OF assms] obtain A y B where "xs = A @ y # B" "nu \<le> snd y" "\<forall>x \<in> set A. \<not> nu \<le> snd x"
    by blast
  then show thesis using that [of A "fst y" "snd y" B] by (auto simp: not_le)
qed

lemma malloc_search:
  assumes H: "heap_ok base st bs out" and nu: "1 \<le> nu"
  shows "(\<exists>x \<in> set bs. nu \<le> snd x) \<Longrightarrow> \<exists>L q m R. (base, 0) # bs = L @ (q, m) # R \<and> L \<noteq> [] \<and> nu \<le> m \<and>
      malloc_loop grant nu (freep st) (hptr st (freep st)) st = Some (apfst Some (take_block (fst (last L)) q nu st))"
    and "\<not> (\<exists>x \<in> set bs. nu \<le> snd x) \<Longrightarrow> malloc_loop grant nu (freep st) (hptr st (freep st)) st =
      (case morecore grant nu st of None \<Rightarrow> None
         | Some (r, st') \<Rightarrow> (case r of None \<Rightarrow> Some (None, st')
             | Some q \<Rightarrow> malloc_loop grant nu q (hptr st' q) st'))"
proof -
  note h = heap_okD [OF H]
  let ?f = "freep st"
  obtain k where "(?f, k) \<in> set ((base, 0) # bs)" using h(3) by (metis imageE prod.collapse)
  then obtain P S where X: "(base, 0) # bs = P @ (?f, k) # S" by (meson split_list)
  have d: "distinct (map fst (P @ (?f, k) # S))" using before_distinct [OF h(2)] unfolding X .
  have rot: "path st (hptr st ?f) (S @ P @ [(?f, k)]) (hptr st ?f)"
    using rotate_path [of st base P ?f k S] h(1) unfolding X by blast
  have nf: "\<forall>x \<in> set (S @ P). fst x \<noteq> ?f"
  proof
    fix x assume "x \<in> set (S @ P)"
    then have "fst x \<in> fst ` set (S @ P)" by (rule imageI)
    moreover have "?f \<notin> fst ` set (S @ P)" using d by auto
    ultimately show "fst x \<noteq> ?f" by metis
  qed
  have big: "(\<exists>x \<in> set (S @ P @ [(?f, k)]). nu \<le> snd x) = (\<exists>x \<in> set bs. nu \<le> snd x)"
  proof -
    have "set (S @ P @ [(?f, k)]) = insert (base, 0) (set bs)" using arg_cong [OF X, of set] by auto
    then show ?thesis using nu by auto
  qed
  have hdP: "P = [] \<or> hd P = (base, 0)" using X by (cases P) auto
  show "\<exists>L q m R. (base, 0) # bs = L @ (q, m) # R \<and> L \<noteq> [] \<and> nu \<le> m \<and>
      malloc_loop grant nu ?f (hptr st ?f) st = Some (apfst Some (take_block (fst (last L)) q nu st))"
    if "\<exists>x \<in> set bs. nu \<le> snd x"
  proof -
    from that big have "\<exists>x \<in> set (S @ P @ [(?f, k)]). nu \<le> snd x" by blast
    from first_big [OF this] obtain A q m B where R: "S @ P @ [(?f, k)] = A @ (q, m) # B"
      and A: "\<forall>x \<in> set A. snd x < nu" and m: "nu \<le> m" by blast
    have Af: "\<forall>x \<in> set A. fst x \<noteq> ?f"
    proof -
      have "A = take (length A) (S @ P)"
      proof -
        have "length A \<le> length (S @ P)" using arg_cong [OF R, of length] by simp
        then have "take (length A) (S @ P @ [(?f, k)]) = take (length A) (S @ P)" by simp
        then show ?thesis unfolding R by simp
      qed
      then have "set A \<subseteq> set (S @ P)" by (metis set_take_subset)
      then show ?thesis using nf by blast
    qed
    have run: "malloc_loop grant nu ?f (hptr st ?f) st =
        Some (apfst Some (take_block (if A = [] then ?f else fst (last A)) q nu st))"
      using malloc_find [OF rot [unfolded R]] A Af m by blast
    consider B' where "S = A @ (q, m) # B'" | A2 B' where "A = S @ A2" "P = A2 @ (q, m) # B'"
      | "A = S @ P" "q = ?f" "m = k"
      using R by (auto simp: append_eq_append_conv2 append_eq_Cons_conv Cons_eq_append_conv)
    then show ?thesis
    proof cases
      case 1
      then show ?thesis using X run m
        by (intro exI [of _ "P @ (?f, k) # A"] exI [of _ q] exI [of _ m] exI [of _ B']) auto
    next
      case 2
      have "A2 \<noteq> []" using 2 hdP m nu by auto
      then show ?thesis using X run m 2
        by (intro exI [of _ A2] exI [of _ q] exI [of _ m] exI [of _ "B' @ (?f, k) # S"]) auto
    next
      case 3
      have "P \<noteq> []" using 3 X m nu by auto
      then show ?thesis using X run m 3 by (intro exI [of _ P] exI [of _ q] exI [of _ m] exI [of _ S]) auto
    qed
  qed
  show "malloc_loop grant nu ?f (hptr st ?f) st = (case morecore grant nu st of None \<Rightarrow> None
         | Some (r, st') \<Rightarrow> (case r of None \<Rightarrow> Some (None, st')
             | Some q \<Rightarrow> malloc_loop grant nu q (hptr st' q) st'))"
    if "\<not> (\<exists>x \<in> set bs. nu \<le> snd x)"
  proof -
    have a: "\<forall>x \<in> set (S @ P @ [(?f, k)]). snd x < nu" using that big by (meson not_le)
    have "\<forall>x \<in> set (S @ P). snd x < nu \<and> fst x \<noteq> ?f" using a nf by simp
    moreover have "k < nu" and pt: "path st (hptr st ?f) ((S @ P) @ [(?f, k)]) (hptr st ?f)" using a rot by simp_all
    ultimately show ?thesis by (intro malloc_none [OF pt]) simp_all
  qed
qed

text \<open>Taking a block out of the list.\<close>

lemma take_block_ok:
  assumes H: "heap_ok base st bs out" and X: "(base, 0) # bs = L @ (q, m) # R" "L \<noteq> []" and nu: "1 \<le> nu" "nu \<le> m"
  shows "\<exists>a t bs'. take_block (fst (last L)) q nu st = (a + 8, t) \<and> heap_ok base t bs' ((a, nu) # out) \<and> brk t = brk st \<and>
    span bs' \<union> {a..<a + 8 * nu} = span bs \<and> span bs' \<inter> {a..<a + 8 * nu} = {}"
proof -
  note h = heap_okD [OF H]
  obtain L' where L: "L = (base, 0) # L'" and bs: "bs = L' @ (q, m) # R" using X by (cases L) auto
  define pv where "pv = fst (last L)"
  obtain k where last: "last L = (pv, k)" by (metis pv_def prod.collapse)
  then obtain L0 where L0: "L = L0 @ [(pv, k)]" using X(2) by (metis append_butlast_last_id)
  note S = h(2) [unfolded X(1)]
  have d: "distinct (map fst (L @ (q, m) # R))" by (rule before_distinct [OF S])
  have dq: "q \<notin> fst ` set L" "q \<notin> fst ` set R" "pv \<notin> fst ` set L0" "pv \<noteq> q" "pv \<notin> fst ` set R"
    using d L0 by auto
  have p: "path st base L q" "hsize st q = m" "path st (hptr st q) R base" using h(1) unfolding X(1) by (auto simp: path_append)
  then have pL: "path st base L0 pv" "hsize st pv = k" "hptr st pv = q" unfolding L0 by (auto simp: path_append)
  have qb: "base + 8 \<le> q" "q + 8 * m \<le> brk st" "brk st < 2 ^ 31" using h(5) h(7) [of "(q, m)"] bs by auto
  have adv: "advance q j = q + 8 * j" if "j \<le> m" for j using that qb by (simp add: advance_def)
  have fp: "pv \<in> fst ` set L" using X(2) last by (metis fst_conv image_eqI last_in_set)
  have bnd: "1 \<le> snd x \<and> base + 8 \<le> fst x \<and> fst x + 8 * snd x \<le> brk st" if "x \<in> set L' \<union> set R \<union> set out" for x
    using h(7) [of x] that bs by auto
  have apq: "apart x (q, m)" if "x \<in> set out" for x using h(9) [OF that] bs by simp
  have fq: "\<forall>x \<in> set L' \<union> set R. apart x (q, m)"
    using S L by (auto simp: sorted_wrt_append apart_def)
  have spanb: "span bs = span L' \<union> {q..<q + 8 * m} \<union> span R" by (auto simp: bs)
  have dis: "{fst x..<fst x + 8 * snd x} \<inter> {q..<q + 8 * m} = {}" if "x \<in> set L' \<union> set R" for x
    using bspec [OF fq that] by (auto simp: apart_def)
  have spd: "(span L' \<union> span R) \<inter> {q..<q + 8 * m} = {}" using dis unfolding span_def by blast
  show ?thesis
  proof (cases "m = nu")
    case True
    let ?t = "(set_ptr pv (hptr st q) st)\<lparr>freep := pv\<rparr>"
    have t: "take_block pv q nu st = (q + 8, ?t)" using p(2) True adv [of 1] nu by (simp add: take_block_def)
    have pt: "path ?t base ((base, 0) # (L' @ R)) base"
    proof -
      have "path ?t base (L0 @ (pv, k) # R) base"
        using pL p(3) dq by (simp add: path_append path_update)
      moreover have "L0 @ (pv, k) # R = (base, 0) # (L' @ R)" using L L0 by simp
      ultimately show ?thesis by simp
    qed
    have S': "sorted_wrt before ((base, 0) # (L' @ R))" using S unfolding L by (auto simp: sorted_wrt_append)
    have "heap_ok base ?t (L' @ R) ((q, nu) # out)"
      unfolding heap_ok_def
    proof (intro conjI)
      show "path ?t base ((base, 0) # (L' @ R)) base" by (rule pt)
      show "sorted_wrt before ((base, 0) # (L' @ R))" by (rule S')
      show "\<forall>x \<in> set ((q, nu) # out). hsize ?t (fst x) = snd x \<and> (\<forall>y \<in> set (L' @ R). apart x y)"
        using p(2) True fq apart_sym h(8,9) bs by auto
      show "sorted_wrt apart ((q, nu) # out)" using h(10) apq True apart_sym by auto
      show "freep ?t \<in> fst ` set ((base, 0) # (L' @ R))" using fp L by auto
      show "\<forall>x \<in> set (L' @ R) \<union> set ((q, nu) # out). 1 \<le> snd x \<and> base + 8 \<le> fst x \<and> fst x + 8 * snd x \<le> brk ?t"
        using bnd qb nu True by auto
    qed (use h(4-6) in auto)
    then show ?thesis using t spd True unfolding pv_def [symmetric] spanb
      by (intro exI [of _ q] exI [of _ ?t] exI [of _ "L' @ R"]) auto
  next
    case False
    define r where "r = m - nu"
    have r: "1 \<le> r" "r + nu = m" using False nu by (auto simp: r_def)
    let ?a = "q + 8 * r"
    let ?t = "(set_size ?a nu (set_size q r st))\<lparr>freep := pv\<rparr>"
    have m32: "r mod 2 ^ 32 = r" "nu mod 2 ^ 32 = nu" using qb r by auto
    have adv2: "advance ?a 1 = ?a + 8" using qb r nu by (simp add: advance_def)
    have t: "take_block pv q nu st = (?a + 8, ?t)"
      unfolding take_block_def p(2) if_not_P [OF False] r_def [symmetric] Let_def using adv [of r] adv2 r m32 by simp
    have na: "?a \<notin> fst ` set (L @ R)" "?a \<noteq> q"
    proof -
      show "?a \<noteq> q" using r by simp
      show "?a \<notin> fst ` set (L @ R)"
      proof
        assume "?a \<in> fst ` set (L @ R)"
        then obtain x where x: "x \<in> set (L @ R)" "?a = fst x" by blast
        then consider "x = (base, 0)" | "x \<in> set L' \<union> set R" using L by auto
        then show False
        proof cases
          case 1
          then show ?thesis using x(2) qb(1) by simp
        next
          case 2
          then have "apart x (q, m)" "1 \<le> snd x" using fq bnd [of x] by auto
          then show ?thesis using x(2) r nu by (auto simp: apart_def)
        qed
      qed
    qed
    have naL: "?a \<notin> fst ` set L" "?a \<notin> fst ` set R" using na by auto
    have pt: "path ?t base ((base, 0) # (L' @ (q, r) # R)) base"
    proof -
      have "path ?t base L q" "path ?t (hptr st q) R base"
        using p(1,3) dq naL by (simp_all add: path_update)
      then have "path ?t base (L @ (q, r) # R) base" using m32 na(2) by (auto simp: path_append)
      then show ?thesis by (simp add: L)
    qed
    have S': "sorted_wrt before ((base, 0) # (L' @ (q, r) # R))" using S r unfolding L by (auto simp: sorted_wrt_append)
    have ao: "apart x (?a, nu)" "apart x (q, r)" if "apart x (q, m)" for x using that r by (auto simp: apart_def)
    have neq: "fst x \<noteq> ?a \<and> fst x \<noteq> q" if "x \<in> set out" for x
      using apq [OF that] bnd [of x] that r nu by (auto simp: apart_def)
    have "heap_ok base ?t (L' @ (q, r) # R) ((?a, nu) # out)"
      unfolding heap_ok_def
    proof (intro conjI)
      show "path ?t base ((base, 0) # (L' @ (q, r) # R)) base" by (rule pt)
      show "sorted_wrt before ((base, 0) # (L' @ (q, r) # R))" by (rule S')
      show "\<forall>x \<in> set ((?a, nu) # out). hsize ?t (fst x) = snd x \<and> (\<forall>y \<in> set (L' @ (q, r) # R). apart x y)"
      proof
        fix x assume "x \<in> set ((?a, nu) # out)"
        then consider "x = (?a, nu)" | "x \<in> set out" by auto
        then show "hsize ?t (fst x) = snd x \<and> (\<forall>y \<in> set (L' @ (q, r) # R). apart x y)"
        proof cases
          case 1
          have ay: "apart y (?a, nu)" if "y \<in> set (L' @ (q, r) # R)" for y
          proof (cases "y = (q, r)")
            case False
            then have "apart y (q, m)" using that fq by auto
            then show ?thesis by (rule ao(1))
          qed (simp add: apart_def)
          show ?thesis using 1 m32 ay apart_sym by auto
        next
          case 2
          then show ?thesis using neq [OF 2] h(8) [OF 2] h(9) [OF 2] ao(2) apq bs by auto
        qed
      qed
      show "sorted_wrt apart ((?a, nu) # out)" using h(10) apq ao(1) apart_sym by auto
      show "freep ?t \<in> fst ` set ((base, 0) # (L' @ (q, r) # R))" using fp L by auto
      show "\<forall>x \<in> set (L' @ (q, r) # R) \<union> set ((?a, nu) # out). 1 \<le> snd x \<and> base + 8 \<le> fst x \<and> fst x + 8 * snd x \<le> brk ?t"
        using bnd qb nu r by auto
    qed (use h(4-6) in auto)
    moreover have "span (L' @ (q, r) # R) \<union> {?a..<?a + 8 * nu} = span bs"
      "span (L' @ (q, r) # R) \<inter> {?a..<?a + 8 * nu} = {}"
      unfolding spanb using r spd by auto
    ultimately show ?thesis using t unfolding pv_def [symmetric]
      by (intro exI [of _ ?a] exI [of _ ?t] exI [of _ "L' @ (q, r) # R"]) auto
  qed
qed

lemma span_block:
  assumes "sorted_wrt before xs" "{lo..<hi} \<subseteq> span xs" "lo < hi"
  shows "\<exists>x \<in> set xs. fst x \<le> lo \<and> hi \<le> fst x + 8 * snd x"
proof -
  have "lo \<in> span xs" using assms(2,3) by auto
  then obtain x where x: "x \<in> set xs" "fst x \<le> lo" "lo < fst x + 8 * snd x" by (auto simp: span_def)
  have "hi \<le> fst x + 8 * snd x"
  proof (rule ccontr)
    define e where "e = fst x + 8 * snd x"
    assume "\<not> hi \<le> fst x + 8 * snd x"
    then have "e \<in> span xs" using assms(2) x by (auto simp: e_def)
    then obtain y where y: "y \<in> set xs" "fst y \<le> e" "e < fst y + 8 * snd y" by (auto simp: span_def)
    have "x \<noteq> y" using y(3) by (auto simp: e_def)
    then have "before x y \<or> before y x" using assms(1) x(1) y(1) by (induction xs) auto
    then show False using y x by (auto simp: e_def)
  qed
  then show ?thesis using x by blast
qed

lemma heap_freep: "heap_ok base st bs out \<Longrightarrow> freep st \<noteq> 0"
  using heap_okD(3,4,7) by fastforce

text \<open>\<open>malloc\<close> returns: a block of the size asked for, taken from the free blocks or from what the kernel gave,
  or null when no free block is large enough and the kernel refuses.\<close>

lemma umalloc_ok:
  assumes H: "heap_ok base st bs out" and g: "sane grant" and n: "nbytes \<le> 2 ^ 30"
  shows "(\<exists>a t bs'. umalloc base grant nbytes st = Some (Some (a + 8), t) \<and> heap_ok base t bs' ((a, units nbytes) # out) \<and>
      brk st \<le> brk t \<and> span bs' \<union> {a..<a + 8 * units nbytes} = span bs \<union> {brk st..<brk t}) \<or>
    umalloc base grant nbytes st = Some (None, st) \<and> \<not> (\<exists>x \<in> set bs. units nbytes \<le> snd x) \<and>
      \<not> grant (int ((if units nbytes < 4096 then 4096 else units nbytes) * 8)) (brk st)"
proof -
  let ?u = "units nbytes"
  have u: "1 \<le> ?u" "?u * 8 < 2 ^ 31" using n by (auto simp: units_def)
  have m: "umalloc base grant nbytes st = malloc_loop grant ?u (freep st) (hptr st (freep st)) st"
    using heap_freep [OF H] by (simp add: umalloc_def Let_def)
  have found: "\<exists>a t bs'. malloc_loop grant ?u (freep v) (hptr v (freep v)) v = Some (Some (a + 8), t) \<and>
      heap_ok base t bs' ((a, ?u) # out) \<and> brk t = brk v \<and> span bs' \<union> {a..<a + 8 * ?u} = span cs"
    if Hv: "heap_ok base v cs out" and big: "\<exists>x \<in> set cs. ?u \<le> snd x" for v cs
  proof -
    obtain L q k R where X: "(base, 0) # cs = L @ (q, k) # R" "L \<noteq> []" "?u \<le> k"
      and run: "malloc_loop grant ?u (freep v) (hptr v (freep v)) v = Some (apfst Some (take_block (fst (last L)) q ?u v))"
      using malloc_search(1) [OF Hv u(1) big] by blast
    from take_block_ok [OF Hv X(1,2) u(1) X(3)] obtain a t bs' where t: "take_block (fst (last L)) q ?u v = (a + 8, t)"
      "heap_ok base t bs' ((a, ?u) # out)" "brk t = brk v" "span bs' \<union> {a..<a + 8 * ?u} = span cs" by blast
    have "malloc_loop grant ?u (freep v) (hptr v (freep v)) v = Some (Some (a + 8), t)" using run t(1) by simp
    then show ?thesis using t(2-4) by blast
  qed
  show ?thesis
  proof (cases "\<exists>x \<in> set bs. ?u \<le> snd x")
    case True
    from found [OF H True] obtain a t bs' where "malloc_loop grant ?u (freep st) (hptr st (freep st)) st = Some (Some (a + 8), t)"
      "heap_ok base t bs' ((a, ?u) # out)" "brk t = brk st" "span bs' \<union> {a..<a + 8 * ?u} = span bs" by blast
    then show ?thesis unfolding m by auto
  next
    case False
    note run = malloc_search(2) [OF H u(1) False, of grant]
    from morecore_ok [OF H g u(2)] consider
      "morecore grant ?u st = Some (None, st)" "\<not> grant (int ((if ?u < 4096 then 4096 else ?u) * 8)) (brk st)"
      | t bs' k where "morecore grant ?u st = Some (Some (freep t), t)" "heap_ok base t bs' out" "?u \<le> k"
        "brk t = brk st + 8 * k" "span bs' = span bs \<union> {brk st..<brk st + 8 * k}" by blast
    then show ?thesis
    proof cases
      case 1
      then show ?thesis using run False unfolding m by simp
    next
      case 2
      have "sorted_wrt before bs'" using heap_okD(2) [OF 2(2)] by simp
      moreover have "{brk st..<brk st + 8 * k} \<subseteq> span bs'" using 2(5) by simp
      moreover have lt: "brk st < brk st + 8 * k" using u(1) 2(3) by simp
      ultimately obtain x where x: "x \<in> set bs'" "fst x \<le> brk st" "brk st + 8 * k \<le> fst x + 8 * snd x"
        using span_block u(1) 2(3) lt by blast
      then have "?u \<le> snd x" using 2(3) by linarith
      then have big: "\<exists>x \<in> set bs'. ?u \<le> snd x" using x(1) by blast
      from found [OF 2(2) big] obtain a w cs where w: "malloc_loop grant ?u (freep t) (hptr t (freep t)) t = Some (Some (a + 8), w)"
        "heap_ok base w cs ((a, ?u) # out)" "brk w = brk t" "span cs \<union> {a..<a + 8 * ?u} = span bs'" by blast
      have "umalloc base grant nbytes st = Some (Some (a + 8), w)" unfolding m run 2(1) using w(1) by simp
      then show ?thesis using w 2(4,5) by auto
    qed
  qed
qed

section \<open>Programs\<close>

text \<open>A program is a sequence of calls: \<open>Free i\<close> frees the block that is at place \<open>i\<close> of the blocks it has.\<close>

datatype um_op = Malloc nat | Free nat

fun um_run :: "nat \<Rightarrow> (int \<Rightarrow> nat \<Rightarrow> bool) \<Rightarrow> um_op list \<Rightarrow> (nat \<times> nat) list \<Rightarrow> um_state \<Rightarrow> ((nat \<times> nat) list \<times> um_state) option" where
  "um_run base grant [] live st = Some (live, st)"
| "um_run base grant (Malloc n # ops) live st =
     (case umalloc base grant n st of None \<Rightarrow> None
      | Some (None, st) \<Rightarrow> um_run base grant ops live st
      | Some (Some p, st) \<Rightarrow> um_run base grant ops ((p, n) # live) st)"
| "um_run base grant (Free i # ops) live st =
     (if i < length live then
        (case ufree (fst (live ! i)) st of None \<Rightarrow> None
         | Some st \<Rightarrow> um_run base grant ops (take i live @ drop (i + 1) live) st)
      else um_run base grant ops live st)"

definition blocks :: "(nat \<times> nat) list \<Rightarrow> (nat \<times> nat) list" where
  "blocks live = map (\<lambda>(p, n). (p - 8, units n)) live"

definition holds :: "nat \<Rightarrow> nat \<Rightarrow> (nat \<times> nat) list \<Rightarrow> um_state \<Rightarrow> bool" where
  "holds base start live st \<longleftrightarrow> (\<exists>bs. heap_ok base st bs (blocks live) \<and> span bs \<union> span (blocks live) = {start..<brk st}) \<and>
     start \<le> brk st \<and> (\<forall>x \<in> set live. 8 \<le> fst x \<and> snd x \<le> 2 ^ 30)"

lemma um_run_holds:
  "holds base start live st \<Longrightarrow> sane grant \<Longrightarrow> \<forall>n. Malloc n \<in> set ops \<longrightarrow> n \<le> 2 ^ 30 \<Longrightarrow>
   \<exists>live' t. um_run base grant ops live st = Some (live', t) \<and> holds base start live' t"
proof (induction ops arbitrary: live st)
  case Nil
  then show ?case by simp
next
  case (Cons op ops)
  obtain bs where H: "heap_ok base st bs (blocks live)" and sp: "span bs \<union> span (blocks live) = {start..<brk st}"
    and lv: "start \<le> brk st" "\<forall>x \<in> set live. 8 \<le> fst x \<and> snd x \<le> 2 ^ 30"
    using Cons.prems(1) by (auto simp: holds_def)
  have rest: "\<forall>n. Malloc n \<in> set ops \<longrightarrow> n \<le> 2 ^ 30" using Cons.prems(3) by simp
  show ?case
  proof (cases op)
    case (Malloc n)
    then have n: "n \<le> 2 ^ 30" using Cons.prems(3) by simp
    from umalloc_ok [OF H Cons.prems(2) n] consider
      a t bs' where "umalloc base grant n st = Some (Some (a + 8), t)" "heap_ok base t bs' ((a, units n) # blocks live)"
        "brk st \<le> brk t" "span bs' \<union> {a..<a + 8 * units n} = span bs \<union> {brk st..<brk t}"
      | "umalloc base grant n st = Some (None, st)" by blast
    then show ?thesis
    proof cases
      case 1
      have b: "blocks ((a + 8, n) # live) = (a, units n) # blocks live" by (simp add: blocks_def)
      have "span bs' \<union> span (blocks ((a + 8, n) # live)) = (span bs' \<union> {a..<a + 8 * units n}) \<union> span (blocks live)"
        unfolding b by auto
      also have "\<dots> = {start..<brk st} \<union> {brk st..<brk t}" unfolding 1(4) sp [symmetric] by auto
      also have "\<dots> = {start..<brk t}" using lv(1) 1(3) by auto
      finally have "holds base start ((a + 8, n) # live) t"
        using 1(2,3) lv n unfolding holds_def b by auto
      from Cons.IH [OF this Cons.prems(2) rest] show ?thesis using 1(1) Malloc by simp
    next
      case 2
      from Cons.IH [OF Cons.prems(1,2) rest] show ?thesis using 2 Malloc by simp
    qed
  next
    case (Free i)
    show ?thesis
    proof (cases "i < length live")
      case False
      from Cons.IH [OF Cons.prems(1,2) rest] show ?thesis using False Free by simp
    next
      case True
      obtain p n where pn: "live ! i = (p, n)" by (cases "live ! i")
      let ?l = "take i live @ drop (i + 1) live"
      have L: "live = take i live @ (p, n) # drop (i + 1) live" using id_take_nth_drop [OF True] pn by simp
      have p8: "8 \<le> p" using lv(2) nth_mem [OF True] pn by auto
      have b: "blocks live = blocks (take i live) @ (p - 8, units n) # blocks (drop (i + 1) live)"
        "blocks ?l = blocks (take i live) @ blocks (drop (i + 1) live)"
        by (subst L, simp add: blocks_def) (simp add: blocks_def)
      from ufree_ok [OF H [unfolded b(1)]] p8 obtain t bs' where t: "ufree p st = Some t" "heap_ok base t bs' (blocks ?l)"
        "brk t = brk st" "span bs' = span bs \<union> {p - 8..<p - 8 + 8 * units n}" unfolding b(2) by auto
      have "span bs' \<union> span (blocks ?l) = {start..<brk t}"
        using sp unfolding t(3,4) b by auto
      moreover have "\<forall>x \<in> set ?l. 8 \<le> fst x \<and> snd x \<le> 2 ^ 30" using lv(2) by (auto dest: in_set_takeD in_set_dropD)
      ultimately have "holds base start ?l t" using t lv(1) by (auto simp: holds_def)
      from Cons.IH [OF this Cons.prems(2) rest] show ?thesis using t(1) True Free pn by simp
    qed
  qed
qed

text \<open>The first call sets up the list.\<close>

definition um_init :: "nat \<Rightarrow> um_state \<Rightarrow> um_state" where
  "um_init base st = set_size base 0 (set_ptr base base (st\<lparr>freep := base\<rparr>))"

lemma um_init_ok:
  assumes "base \<noteq> 0" "base + 8 \<le> brk st" "brk st < 2 ^ 31"
  shows "heap_ok base (um_init base st) [] []" "brk (um_init base st) = brk st"
  using assms by (simp_all add: heap_ok_def um_init_def)

lemma umalloc_init:
  "base \<noteq> 0 \<Longrightarrow> freep st = 0 \<Longrightarrow> umalloc base grant n st = umalloc base grant n (um_init base st)"
  by (simp add: umalloc_def um_init_def Let_def)

lemma units_room: "n \<le> 2 ^ 30 \<Longrightarrow> n + 8 \<le> 8 * units n \<and> 8 * units n < n + 16"
  by (simp add: units_def) presburger

text \<open>A request within eight bytes of \<open>2 ^ 32\<close> wraps and is granted a block without any room.\<close>

lemma units_wrap: "2 ^ 32 - 8 < n \<Longrightarrow> n < 2 ^ 32 \<Longrightarrow> units n = 1"
  by (simp add: units_def mod_if)

text \<open>C37: every sequence of calls of \<open>malloc\<close> and \<open>free\<close> returns; the blocks the program then has overlap
  neither each other nor a free block, headers included, and have the room that was asked for; and
  every byte the kernel gave is in one of its blocks or in a free one.\<close>

theorem umalloc_safe:
  assumes "sane grant" "base \<noteq> 0" "base + 8 \<le> brk st" "brk st < 2 ^ 31" "freep st = 0"
    and "\<forall>k. Malloc k \<in> set (Malloc n # ops) \<longrightarrow> k \<le> 2 ^ 30"
  shows "\<exists>live t bs. um_run base grant (Malloc n # ops) [] st = Some (live, t) \<and> heap_ok base t bs (blocks live)
    \<and> (\<forall>x \<in> set live. snd x + 8 \<le> 8 * units (snd x)) \<and> span bs \<union> span (blocks live) = {brk st..<brk t}"
proof -
  note I = um_init_ok [OF assms(2-4)]
  have "holds base (brk st) [] (um_init base st)" using I by (auto simp: holds_def blocks_def)
  from um_run_holds [OF this assms(1,6)] obtain live t where
    r: "um_run base grant (Malloc n # ops) [] (um_init base st) = Some (live, t)" and h: "holds base (brk st) live t" by blast
  have "um_run base grant (Malloc n # ops) [] st = Some (live, t)"
    using r umalloc_init [OF assms(2,5), of grant n] by simp
  moreover have "\<forall>x \<in> set live. snd x + 8 \<le> 8 * units (snd x)" using h units_room by (auto simp: holds_def)
  ultimately show ?thesis using h by (auto simp: holds_def)
qed

text \<open>A kernel that gives memory up to 1 MB.\<close>

theorem umalloc_safe_witness:
  "let st = \<lparr>hptr = \<lambda>_. 0, hsize = \<lambda>_. 0, freep = 0, brk = 4096\<rparr>;
       grant = (\<lambda>n b. b + nat n \<le> 2 ^ 20)
   in \<exists>live t. um_run 2048 grant [Malloc 100, Malloc 5000, Free 1, Malloc 16] [] st = Some (live, t) \<and> sorted_wrt apart (blocks live)"
proof -
  let ?st = "\<lparr>hptr = \<lambda>_. 0, hsize = \<lambda>_. 0, freep = 0, brk = 4096\<rparr> :: um_state"
  let ?g = "\<lambda>n b. b + nat n \<le> 2 ^ 20"
  have "sane ?g" by (auto simp: sane_def)
  moreover have "\<forall>k. Malloc k \<in> set (Malloc 100 # [Malloc 5000, Free 1, Malloc 16]) \<longrightarrow> k \<le> 2 ^ 30" by auto
  ultimately have "\<exists>live t bs. um_run 2048 ?g (Malloc 100 # [Malloc 5000, Free 1, Malloc 16]) [] ?st = Some (live, t) \<and>
      heap_ok 2048 t bs (blocks live)"
    using umalloc_safe [of ?g 2048 ?st 100 "[Malloc 5000, Free 1, Malloc 16]"] by auto
  then show ?thesis unfolding Let_def using heap_okD(10) by blast
qed

end
