(* ===== verification/Bootmain.thy ===== *)
theory Bootmain
  imports Prelude
begin

text \<open>
  The boot loader, \<open>bootmain.c\<close>: it reads the kernel's ELF image from the disk behind the boot sector
  into physical memory and jumps to its entry.  Addresses are 32-bit words, so pointer arithmetic wraps
  around.  The disk controller is a parameter: \<open>dev\<close> gives the sector it delivers for the contents of its
  registers, and \<open>st i\<close> is what the status port reads the \<open>i\<close>th time; \<open>ata_disk\<close> states what the loader
  relies on.  The loops that wait or whose bound can wrap around are partial functions: \<open>None\<close> is a
  loop that never ends.
\<close>

unbundle bit_operations_syntax

section \<open>Memory\<close>

type_synonym uint = "32 word"

definition put_bytes :: "uint \<Rightarrow> byte list \<Rightarrow> (uint \<Rightarrow> byte) \<Rightarrow> uint \<Rightarrow> byte" where
  "put_bytes a bs m x = (if unat (x - a) < length bs then bs ! unat (x - a) else m x)"

definition ld32 :: "(uint \<Rightarrow> byte) \<Rightarrow> uint \<Rightarrow> uint" where
  "ld32 m a = word_of_nat (dec_le [m a, m (a + 1), m (a + 2), m (a + 3)])"

definition ld16 :: "(uint \<Rightarrow> byte) \<Rightarrow> uint \<Rightarrow> nat" where
  "ld16 m a = dec_le [m a, m (a + 1)]"

text \<open>\<open>count\<close> is the number of bytes, as \<open>rep stosb\<close> takes it.\<close>

definition stosb :: "uint \<Rightarrow> byte \<Rightarrow> uint \<Rightarrow> (uint \<Rightarrow> byte) \<Rightarrow> uint \<Rightarrow> byte" where
  "stosb a c count m x = (if unat (x - a) < unat count then c else m x)"

section \<open>ELF\<close>

definition ELF_MAGIC :: uint where "ELF_MAGIC = 0x464C457F"

record proghdr =
  p_off :: uint
  p_paddr :: uint
  p_filesz :: uint
  p_memsz :: uint

definition ph_at :: "(uint \<Rightarrow> byte) \<Rightarrow> uint \<Rightarrow> proghdr" where
  "ph_at m a = \<lparr>p_off = ld32 m (a + 4), p_paddr = ld32 m (a + 12), p_filesz = ld32 m (a + 16), p_memsz = ld32 m (a + 20)\<rparr>"

section \<open>The disk\<close>

definition SECTSIZE :: uint where "SECTSIZE = 512"

record loader =
  lmem :: "uint \<Rightarrow> byte"
  regs :: "nat \<Rightarrow> byte"
  polls :: nat

definition boot_outb :: "nat \<Rightarrow> byte \<Rightarrow> loader \<Rightarrow> loader" where
  "boot_outb port v s = s\<lparr>regs := (regs s)(port := v)\<rparr>"

partial_function (option) wait_from :: "(nat \<Rightarrow> byte) \<Rightarrow> nat \<Rightarrow> nat option" where
  "wait_from st i = (if st i AND 0xC0 \<noteq> 0x40 then wait_from st (i + 1) else Some (i + 1))"

definition waitdisk :: "(nat \<Rightarrow> byte) \<Rightarrow> loader \<Rightarrow> loader option" where
  "waitdisk st s = map_option (\<lambda>i. s\<lparr>polls := i\<rparr>) (wait_from st (polls s))"

definition readsect :: "((nat \<Rightarrow> byte) \<Rightarrow> block) \<Rightarrow> (nat \<Rightarrow> byte) \<Rightarrow> uint \<Rightarrow> uint \<Rightarrow> loader \<Rightarrow> loader option" where
  "readsect dev st dst offset s =
     Option.bind (waitdisk st s) (\<lambda>s.
     Option.bind (waitdisk st
       (boot_outb 0x1F7 0x20
       (boot_outb 0x1F6 (ucast (drop_bit 24 offset OR 0xE0))
       (boot_outb 0x1F5 (ucast (drop_bit 16 offset))
       (boot_outb 0x1F4 (ucast (drop_bit 8 offset))
       (boot_outb 0x1F3 (ucast offset)
       (boot_outb 0x1F2 1 s))))))) (\<lambda>s.
     Some (s\<lparr>lmem := put_bytes dst (dev (regs s)) (lmem s)\<rparr>)))"

partial_function (option) readseg_loop ::
    "((nat \<Rightarrow> byte) \<Rightarrow> block) \<Rightarrow> (nat \<Rightarrow> byte) \<Rightarrow> uint \<Rightarrow> uint \<Rightarrow> uint \<Rightarrow> loader \<Rightarrow> loader option" where
  "readseg_loop dev st pa epa offset s =
     (if pa < epa then Option.bind (readsect dev st pa offset s) (readseg_loop dev st (pa + SECTSIZE) epa (offset + 1))
      else Some s)"

definition readseg :: "((nat \<Rightarrow> byte) \<Rightarrow> block) \<Rightarrow> (nat \<Rightarrow> byte) \<Rightarrow> uint \<Rightarrow> uint \<Rightarrow> uint \<Rightarrow> loader \<Rightarrow> loader option" where
  "readseg dev st pa count offset s =
     readseg_loop dev st (pa - offset mod SECTSIZE) (pa + count) (offset div SECTSIZE + 1) s"

section \<open>bootmain\<close>

text \<open>One turn of the loop over the program headers.  The header is in memory and is read again after
  the segment has been loaded.\<close>

definition load_segment :: "((nat \<Rightarrow> byte) \<Rightarrow> block) \<Rightarrow> (nat \<Rightarrow> byte) \<Rightarrow> uint \<Rightarrow> loader \<Rightarrow> loader option" where
  "load_segment dev st ph s =
     (let p = ph_at (lmem s) ph; pa = p_paddr p in
      Option.bind (readseg dev st pa (p_filesz p) (p_off p) s) (\<lambda>s.
      let q = ph_at (lmem s) ph in
      Some (if p_memsz q > p_filesz q then s\<lparr>lmem := stosb (pa + p_filesz q) 0 (p_memsz q - p_filesz q) (lmem s)\<rparr>
            else s)))"

partial_function (option) load_segments ::
    "((nat \<Rightarrow> byte) \<Rightarrow> block) \<Rightarrow> (nat \<Rightarrow> byte) \<Rightarrow> uint \<Rightarrow> uint \<Rightarrow> loader \<Rightarrow> loader option" where
  "load_segments dev st ph eph s =
     (if ph < eph then Option.bind (load_segment dev st ph s) (load_segments dev st (ph + 32) eph) else Some s)"

text \<open>The result is the address that is called, or \<open>None\<close> where the loader returns to \<open>bootasm.S\<close>.\<close>

definition bootmain :: "((nat \<Rightarrow> byte) \<Rightarrow> block) \<Rightarrow> (nat \<Rightarrow> byte) \<Rightarrow> loader \<Rightarrow> (uint option \<times> loader) option" where
  "bootmain dev st s =
     Option.bind (readseg dev st 0x10000 4096 0 s) (\<lambda>s.
     if ld32 (lmem s) 0x10000 \<noteq> ELF_MAGIC then Some (None, s)
     else
       (let ph = 0x10000 + ld32 (lmem s) (0x10000 + 28); eph = ph + 32 * word_of_nat (ld16 (lmem s) (0x10000 + 44)) in
        Option.bind (load_segments dev st ph eph s) (\<lambda>s. Some (Some (ld32 (lmem s) (0x10000 + 24)), s))))"

section \<open>Facts: the disk\<close>

text \<open>An ATA disk in LBA mode with the single-sector read command, and a status that is ready again and
  again.\<close>

definition ata_disk :: "((nat \<Rightarrow> byte) \<Rightarrow> block) \<Rightarrow> (nat \<Rightarrow> block) \<Rightarrow> bool" where
  "ata_disk dev drive \<longleftrightarrow> (\<forall>r. r 0x1F2 = 1 \<and> r 0x1F6 AND 0xF0 = 0xE0 \<and> r 0x1F7 = 0x20 \<longrightarrow>
     dev r = drive (unat (r 0x1F3) + 2 ^ 8 * unat (r 0x1F4) + 2 ^ 16 * unat (r 0x1F5) + 2 ^ 24 * unat (r 0x1F6 AND 0x0F)))"

definition gets_ready :: "(nat \<Rightarrow> byte) \<Rightarrow> bool" where
  "gets_ready st \<longleftrightarrow> (\<forall>i. \<exists>j \<ge> i. st j AND 0xC0 = 0x40)"

lemma wait_from_ready: "i \<le> j \<Longrightarrow> st j AND 0xC0 = 0x40 \<Longrightarrow> \<exists>k. wait_from st i = Some k"
proof (induction "j - i" arbitrary: i)
  case 0
  then show ?case by (subst wait_from.simps) simp
next
  case (Suc d)
  show ?case
  proof (cases "st i AND 0xC0 = 0x40")
    case True
    then show ?thesis by (subst wait_from.simps) simp
  next
    case False
    have "d = j - (i + 1)" "i + 1 \<le> j" using Suc.hyps(2) by simp_all
    then show ?thesis using Suc.hyps(1) [of "i + 1"] Suc.prems(2) False by (subst wait_from.simps) simp
  qed
qed

lemma waitdisk_ready:
  assumes "gets_ready st" shows "\<exists>k. waitdisk st s = Some (s\<lparr>polls := k\<rparr>)"
proof -
  obtain j where "polls s \<le> j" "st j AND 0xC0 = 0x40" using assms by (auto simp: gets_ready_def)
  then obtain k where "wait_from st (polls s) = Some k" using wait_from_ready [of "polls s" j st] by blast
  then show ?thesis by (intro exI [of _ k]) (simp add: waitdisk_def)
qed

lemma lba_number:
  fixes n :: uint
  assumes "unat n < 2 ^ 28"
  shows "unat (ucast n :: byte) + 2 ^ 8 * unat (ucast (drop_bit 8 n) :: byte) + 2 ^ 16 * unat (ucast (drop_bit 16 n) :: byte)
      + 2 ^ 24 * unat ((ucast (drop_bit 24 n OR 0xE0) :: byte) AND 0x0F) = unat n"
    "(ucast (drop_bit 24 n OR 0xE0) :: byte) AND 0xF0 = 0xE0"
proof -
  have D: "unat (drop_bit k n) = unat n div 2 ^ k" for k unfolding unat_drop_bit_eq by (rule drop_bit_eq_div)
  have U: "unat (ucast w :: byte) = unat w mod 2 ^ 8" for w :: uint by (simp add: unsigned_ucast_eq take_bit_eq_mod)
  let ?a = "ucast (drop_bit 24 n) :: byte"
  have h16: "unat n div 2 ^ 24 < 16" using assms by (simp add: less_mult_imp_div_less)
  then have a: "unat ?a = unat n div 2 ^ 24" "unat ?a < 16" unfolding U D by simp_all
  then have "take_bit 4 ?a = ?a" by (intro word_unat_eq_iff [THEN iffD2]) (simp add: unsigned_take_bit_eq take_bit_eq_mod unat_mod)
  then have a15: "?a AND 0x0F = ?a" by (simp add: take_bit_eq_mask mask_eq_exp_minus_1)
  have o: "(ucast (drop_bit 24 n OR 0xE0) :: byte) = ?a OR 0xE0" by (simp add: unsigned_or_eq)
  have z: "?a AND 0xF0 = 0" by (subst a15 [symmetric]) (simp add: and.assoc)
  show "(ucast (drop_bit 24 n OR 0xE0) :: byte) AND 0xF0 = 0xE0" unfolding o bit.conj_disj_distrib2 z by simp
  have t: "(ucast (drop_bit 24 n OR 0xE0) :: byte) AND 0x0F = ?a" unfolding o bit.conj_disj_distrib2 a15 by simp
  have e: "m mod 256 + 256 * (m div 256 mod 256) + 65536 * (m div 65536 mod 256) + 16777216 * (m div 16777216) = m" for m :: nat
  proof -
    have "m div 65536 = m div 256 div 256" "m div 16777216 = m div 65536 div 256" by (simp_all add: div_mult2_eq [symmetric])
    then have "m = 256 * (m div 256) + m mod 256" "m div 256 = 256 * (m div 65536) + m div 256 mod 256"
      "m div 65536 = 256 * (m div 16777216) + m div 65536 mod 256" by simp_all
    then show ?thesis by linarith
  qed
  show "unat (ucast n :: byte) + 2 ^ 8 * unat (ucast (drop_bit 8 n) :: byte) + 2 ^ 16 * unat (ucast (drop_bit 16 n) :: byte)
      + 2 ^ 24 * unat ((ucast (drop_bit 24 n OR 0xE0) :: byte) AND 0x0F) = unat n"
    unfolding t U D using e [of "unat n"] h16 by simp
qed

lemma readsect_reads:
  assumes d: "ata_disk dev drive" "gets_ready st" and n: "unat n < 2 ^ 28"
  shows "\<exists>t. readsect dev st dst n s = Some t \<and> lmem t = put_bytes dst (drive (unat n)) (lmem s)"
proof -
  obtain i where i: "waitdisk st s = Some (s\<lparr>polls := i\<rparr>)" using waitdisk_ready [OF d(2)] by blast
  let ?r = "(regs s)(0x1F2 := 1, 0x1F3 := ucast n, 0x1F4 := ucast (drop_bit 8 n), 0x1F5 := ucast (drop_bit 16 n),
    0x1F6 := ucast (drop_bit 24 n OR 0xE0), 0x1F7 := 0x20) :: nat \<Rightarrow> byte"
  obtain j where j: "waitdisk st (s\<lparr>polls := i, regs := ?r\<rparr>) = Some (s\<lparr>polls := i, regs := ?r, polls := j\<rparr>)"
    using waitdisk_ready [OF d(2), of "s\<lparr>polls := i, regs := ?r\<rparr>"] by blast
  have "dev ?r = drive (unat n)"
    using d(1) [unfolded ata_disk_def, rule_format, of ?r] lba_number [OF n] by simp
  then show ?thesis using i j by (simp add: readsect_def boot_outb_def)
qed

section \<open>Facts: reading a segment\<close>

lemma word_offset:
  fixes a x :: uint
  assumes "unat a + n \<le> 2 ^ 32"
  shows "unat (x - a) < n \<longleftrightarrow> unat a \<le> unat x \<and> unat x < unat a + n"
    "unat a \<le> unat x \<Longrightarrow> unat (x - a) = unat x - unat a"
proof -
  have b: "unat x < 2 ^ 32" "unat a < 2 ^ 32" using unsigned_less [of x] unsigned_less [of a] by simp_all
  have e: "unat (x - a) = (if unat a \<le> unat x then unat x - unat a else unat x + 2 ^ 32 - unat a)"
    by (simp add: unat_sub_if' )
  show "unat a \<le> unat x \<Longrightarrow> unat (x - a) = unat x - unat a" using e by simp
  show "unat (x - a) < n \<longleftrightarrow> unat a \<le> unat x \<and> unat x < unat a + n" using e assms b by auto
qed

lemma put_bytes_at:
  assumes "unat a + length bs \<le> 2 ^ 32"
  shows "put_bytes a bs m x = (if unat a \<le> unat x \<and> unat x < unat a + length bs then bs ! (unat x - unat a) else m x)"
  using word_offset [OF assms, of x] by (auto simp: put_bytes_def)

text \<open>The file \<open>F\<close> behind the boot sector.\<close>

definition on_drive :: "(nat \<Rightarrow> byte) \<Rightarrow> (nat \<Rightarrow> block) \<Rightarrow> bool" where
  "on_drive F drive \<longleftrightarrow> (\<forall>k. drive (Suc k) = map F [512 * k..<512 * k + 512])"

lemma readseg_loop_reads:
  assumes d: "ata_disk dev drive" "gets_ready st" "on_drive F drive"
  shows "unat epa + 512 \<le> 2 ^ 32 \<Longrightarrow> 1 \<le> unat n \<Longrightarrow> (pa < epa \<Longrightarrow> 512 * unat n + (unat epa - unat pa) < 2 ^ 34) \<Longrightarrow>
    \<exists>t. readseg_loop dev st pa epa n s = Some t \<and>
      (\<forall>x. unat pa \<le> unat x \<and> unat x < unat epa \<longrightarrow> lmem t x = F (512 * (unat n - 1) + (unat x - unat pa))) \<and>
      (\<forall>x. unat x < unat pa \<longrightarrow> lmem t x = lmem s x)"
proof (induction "unat epa - unat pa" arbitrary: pa n s rule: less_induct)
  case less
  show ?case
  proof (cases "pa < epa")
    case False
    then show ?thesis by (subst readseg_loop.simps) (auto simp: word_less_nat_alt)
  next
    case True
    then have lt: "unat pa < unat epa" by (simp add: word_less_nat_alt)
    have nb: "unat n < 2 ^ 25" using less.prems(3) [OF True] by simp
    then obtain u where u: "readsect dev st pa n s = Some u" "lmem u = put_bytes pa (drive (unat n)) (lmem s)"
      using readsect_reads [OF d(1,2), of n pa s] by auto
    have dr: "drive (unat n) = map F [512 * (unat n - 1)..<512 * (unat n - 1) + 512]"
      using d(3) less.prems(2) by (metis on_drive_def Suc_diff_1 less_eq_Suc_le One_nat_def)
    have lu: "lmem u x = (if unat pa \<le> unat x \<and> unat x < unat pa + 512 then F (512 * (unat n - 1) + (unat x - unat pa)) else lmem s x)" for x
      unfolding u(2) using put_bytes_at [of pa "drive (unat n)" "lmem s" x] lt less.prems(1) dr by auto
    have np: "unat (pa + SECTSIZE) = unat pa + 512" using lt less.prems(1) by (simp add: SECTSIZE_def unat_plus_if')
    have nn: "unat (n + 1) = unat n + 1" using nb by (simp add: unat_plus_if')
    have "\<exists>t. readseg_loop dev st (pa + SECTSIZE) epa (n + 1) u = Some t \<and>
      (\<forall>x. unat (pa + SECTSIZE) \<le> unat x \<and> unat x < unat epa \<longrightarrow> lmem t x = F (512 * (unat (n + 1) - 1) + (unat x - unat (pa + SECTSIZE)))) \<and>
      (\<forall>x. unat x < unat (pa + SECTSIZE) \<longrightarrow> lmem t x = lmem u x)"
    proof (rule less.hyps [OF _ less.prems(1)])
      show "unat epa - unat (pa + SECTSIZE) < unat epa - unat pa" unfolding np using lt by simp
      show "1 \<le> unat (n + 1)" unfolding nn by simp
      show "512 * unat (n + 1) + (unat epa - unat (pa + SECTSIZE)) < 2 ^ 34" if "pa + SECTSIZE < epa"
        using that less.prems(3) [OF True] unfolding word_less_nat_alt np nn by simp
    qed
    then obtain t where t: "readseg_loop dev st (pa + SECTSIZE) epa (n + 1) u = Some t"
        "\<And>x. unat pa + 512 \<le> unat x \<Longrightarrow> unat x < unat epa \<Longrightarrow> lmem t x = F (512 * unat n + (unat x - (unat pa + 512)))"
        "\<And>x. unat x < unat pa + 512 \<Longrightarrow> lmem t x = lmem u x"
      unfolding np nn by auto
    have "readseg_loop dev st pa epa n s = Some t" using True u(1) t(1) by (subst readseg_loop.simps) simp
    moreover have "lmem t x = F (512 * (unat n - 1) + (unat x - unat pa))" if x: "unat pa \<le> unat x" "unat x < unat epa" for x
    proof (cases "unat x < unat pa + 512")
      case True
      then show ?thesis using t(3) lu x by simp
    next
      case False
      then have "512 * unat n + (unat x - (unat pa + 512)) = 512 * (unat n - 1) + (unat x - unat pa)"
        using less.prems(2) by (simp add: diff_mult_distrib2)
      then show ?thesis using t(2) [of x] x False by simp
    qed
    moreover have "lmem t x = lmem s x" if "unat x < unat pa" for x using t(3) [of x] lu [of x] that by simp
    ultimately show ?thesis by blast
  qed
qed

lemma readseg_reads:
  assumes d: "ata_disk dev drive" "gets_ready st" "on_drive F drive"
    and b: "unat off mod 512 \<le> unat pa" "unat pa + unat count + 512 \<le> 2 ^ 32"
  shows "\<exists>t. readseg dev st pa count off s = Some t \<and>
    (\<forall>x. unat pa \<le> unat x \<and> unat x < unat pa + unat count \<longrightarrow> lmem t x = F (unat off + (unat x - unat pa))) \<and>
    (\<forall>x. unat x < unat pa - unat off mod 512 \<longrightarrow> lmem t x = lmem s x)"
proof -
  let ?pa = "pa - off mod SECTSIZE" and ?n = "off div SECTSIZE + 1"
  have m: "unat (off mod SECTSIZE) = unat off mod 512" "unat (off div SECTSIZE) = unat off div 512"
    by (simp_all add: SECTSIZE_def unat_mod unat_div)
  have p: "unat ?pa = unat pa - unat off mod 512" using b(1) m(1) by (simp add: unat_sub word_le_nat_alt)
  have e: "unat (pa + count) = unat pa + unat count" using b(2) by (simp add: unat_plus_if')
  have ob: "unat off < 2 ^ 32" using unsigned_less [of off] by simp
  then have "unat off div 512 < 2 ^ 23" by (simp add: less_mult_imp_div_less)
  then have n: "unat ?n = unat off div 512 + 1" using m(2) by (simp add: unat_plus_if')
  have bn: "512 * unat ?n + (unat (pa + count) - unat ?pa) < 2 ^ 34" unfolding n e using ob b by simp
  obtain t where t: "readseg dev st pa count off s = Some t"
      "\<And>x. unat ?pa \<le> unat x \<Longrightarrow> unat x < unat (pa + count) \<Longrightarrow> lmem t x = F (512 * (unat ?n - 1) + (unat x - unat ?pa))"
      "\<And>x. unat x < unat ?pa \<Longrightarrow> lmem t x = lmem s x"
    using readseg_loop_reads [OF d, of "pa + count" ?n ?pa s] b(2) e n bn unfolding readseg_def by auto
  have "lmem t x = F (unat off + (unat x - unat pa))" if "unat pa \<le> unat x" "unat x < unat pa + unat count" for x
  proof -
    have "512 * (unat off div 512) + (unat x - (unat pa - unat off mod 512)) = unat off + (unat x - unat pa)"
      using that(1) b(1) mult_div_mod_eq [of 512 "unat off"] by linarith
    moreover have "unat ?pa \<le> unat x" using that(1) p by linarith
    ultimately show ?thesis using t(2) [of x] that(2) p n e by simp
  qed
  then show ?thesis using t(1,3) p by auto
qed

section \<open>Facts: the image in memory\<close>

definition file32 :: "(nat \<Rightarrow> byte) \<Rightarrow> nat \<Rightarrow> uint" where
  "file32 F k = word_of_nat (dec_le [F k, F (k + 1), F (k + 2), F (k + 3)])"

definition file16 :: "(nat \<Rightarrow> byte) \<Rightarrow> nat \<Rightarrow> nat" where
  "file16 F k = dec_le [F k, F (k + 1)]"

text \<open>The program headers of the file, and the memory a loaded segment calls for.\<close>

definition phoff :: "(nat \<Rightarrow> byte) \<Rightarrow> nat" where "phoff F = unat (file32 F 28)"
definition phnum :: "(nat \<Rightarrow> byte) \<Rightarrow> nat" where "phnum F = file16 F 44"

definition file_seg :: "(nat \<Rightarrow> byte) \<Rightarrow> nat \<Rightarrow> proghdr" where
  "file_seg F i = (let k = phoff F + 32 * i in
     \<lparr>p_off = file32 F (k + 4), p_paddr = file32 F (k + 12), p_filesz = file32 F (k + 16), p_memsz = file32 F (k + 20)\<rparr>)"

definition seg_len :: "proghdr \<Rightarrow> nat" where
  "seg_len p = max (unat (p_filesz p)) (unat (p_memsz p))"

text \<open>Where the first sector of a segment is stored.\<close>

definition seg_start :: "proghdr \<Rightarrow> nat" where
  "seg_start p = unat (p_paddr p) - unat (p_off p) mod 512"

definition seg_in :: "(uint \<Rightarrow> byte) \<Rightarrow> (nat \<Rightarrow> byte) \<Rightarrow> proghdr \<Rightarrow> bool" where
  "seg_in m F p \<longleftrightarrow> (\<forall>x. unat (p_paddr p) \<le> unat x \<and> unat x < unat (p_paddr p) + seg_len p \<longrightarrow>
     m x = (if unat x - unat (p_paddr p) < unat (p_filesz p) then F (unat (p_off p) + (unat x - unat (p_paddr p))) else 0))"

definition seg_fits :: "proghdr \<Rightarrow> bool" where
  "seg_fits p \<longleftrightarrow> 0x11000 + unat (p_off p) mod 512 \<le> unat (p_paddr p) \<and> unat (p_paddr p) + seg_len p + 512 \<le> 2 ^ 32"

text \<open>A kernel the loader can load: the program headers are in the first page of the file, the segments
  lie above that page in memory, and each ends before the first sector of the ones behind it.\<close>

definition loadable :: "(nat \<Rightarrow> byte) \<Rightarrow> bool" where
  "loadable F \<longleftrightarrow> file32 F 0 = ELF_MAGIC \<and> phoff F + 32 * phnum F \<le> 4096 \<and>
     (\<forall>i < phnum F. seg_fits (file_seg F i)) \<and>
     (\<forall>j < phnum F. \<forall>i < j. unat (p_paddr (file_seg F i)) + seg_len (file_seg F i) \<le> seg_start (file_seg F j))"

definition header_in :: "(uint \<Rightarrow> byte) \<Rightarrow> (nat \<Rightarrow> byte) \<Rightarrow> bool" where
  "header_in m F \<longleftrightarrow> (\<forall>x. 0x10000 \<le> unat x \<and> unat x < 0x11000 \<longrightarrow> m x = F (unat x - 0x10000))"

lemma header_byte:
  assumes h: "header_in m F" and a: "unat a = 0x10000 + k" "k < 4096"
  shows "m a = F k"
  using h a by (simp add: header_in_def)

lemma header_add:
  fixes a :: uint
  assumes "unat a = 0x10000 + k" "k + j \<le> 4096"
  shows "unat (a + word_of_nat j) = 0x10000 + (k + j)"
proof -
  have "unat (word_of_nat j :: uint) = j" using assms(2) by (simp add: unat_of_nat)
  then show ?thesis using assms by (simp add: unat_plus_if')
qed

lemma header_ld32:
  assumes h: "header_in m F" and a: "unat a = 0x10000 + k" "k + 4 \<le> 4096"
  shows "ld32 m a = file32 F k"
  using header_byte [OF h a(1)] header_byte [OF h header_add [OF a(1), of 1]] header_byte [OF h header_add [OF a(1), of 2]]
    header_byte [OF h header_add [OF a(1), of 3]] a(2) by (simp add: ld32_def file32_def)

lemma header_ld16:
  assumes h: "header_in m F" and a: "unat a = 0x10000 + k" "k + 2 \<le> 4096"
  shows "ld16 m a = file16 F k"
  using header_byte [OF h a(1)] header_byte [OF h header_add [OF a(1), of 1]] a(2) by (simp add: ld16_def file16_def)

lemma header_ph:
  assumes h: "header_in m F" and a: "unat a = 0x10000 + (phoff F + 32 * i)" "phoff F + 32 * i + 32 \<le> 4096"
  shows "ph_at m a = file_seg F i"
proof -
  have "ld32 m (a + word_of_nat j) = file32 F (phoff F + 32 * i + j)" if "j \<le> 28" for j
    by (rule header_ld32 [OF h header_add [OF a(1)]]) (use a(2) that in simp_all)
  from this [of 4] this [of 12] this [of 16] this [of 20] show ?thesis by (simp add: ph_at_def file_seg_def Let_def)
qed

lemma load_segment_loads:
  assumes d: "ata_disk dev drive" "gets_ready st" "on_drive F drive"
    and h: "header_in (lmem s) F" and a: "unat ph = 0x10000 + (phoff F + 32 * i)" "phoff F + 32 * i + 32 \<le> 4096"
    and f: "seg_fits (file_seg F i)"
  shows "\<exists>t. load_segment dev st ph s = Some t \<and> header_in (lmem t) F \<and> seg_in (lmem t) F (file_seg F i) \<and>
    (\<forall>x. unat x < seg_start (file_seg F i) \<longrightarrow> lmem t x = lmem s x)"
proof -
  define p where "p = file_seg F i"
  let ?P = "unat (p_paddr p)" and ?O = "unat (p_off p)" and ?f = "unat (p_filesz p)" and ?m = "unat (p_memsz p)"
  have b: "0x11000 + ?O mod 512 \<le> ?P" "?P + ?f + 512 \<le> 2 ^ 32" "?P + ?m \<le> 2 ^ 32"
    using f max.cobounded1 [of ?f ?m] max.cobounded2 [of ?m ?f] unfolding p_def [symmetric] seg_fits_def seg_len_def by linarith+
  have "?O mod 512 \<le> ?P" using b(1) by simp
  then obtain u where u: "readseg dev st (p_paddr p) (p_filesz p) (p_off p) s = Some u"
      "\<And>x. ?P \<le> unat x \<Longrightarrow> unat x < ?P + ?f \<Longrightarrow> lmem u x = F (?O + (unat x - ?P))"
      "\<And>x. unat x < ?P - ?O mod 512 \<Longrightarrow> lmem u x = lmem s x"
    using readseg_reads [OF d, of "p_off p" "p_paddr p" "p_filesz p" s] b(2) by blast
  have "lmem u x = lmem s x" if "unat x < 0x11000" for x using that b(1) by (intro u(3)) linarith
  then have hu: "header_in (lmem u) F" using h by (simp add: header_in_def)
  have q: "ph_at (lmem s) ph = p" "ph_at (lmem u) ph = p" using header_ph [OF h a] header_ph [OF hu a] by (simp_all add: p_def)
  define m where "m = (if p_memsz p > p_filesz p then stosb (p_paddr p + p_filesz p) 0 (p_memsz p - p_filesz p) (lmem u) else lmem u)"
  have run: "load_segment dev st ph s = Some (u\<lparr>lmem := m\<rparr>)"
    using u(1) by (simp add: load_segment_def q Let_def m_def)
  have mx: "m x = (if ?P + ?f \<le> unat x \<and> unat x < ?P + ?m then 0 else lmem u x)" for x
  proof (cases "p_filesz p < p_memsz p")
    case True
    then have lt: "?f < ?m" by (simp add: word_less_nat_alt)
    have c: "unat (p_memsz p - p_filesz p) = ?m - ?f" "unat (p_paddr p + p_filesz p) = ?P + ?f"
      using lt b by (simp_all add: unat_sub word_le_nat_alt unat_plus_if')
    have "unat (p_paddr p + p_filesz p) + (?m - ?f) \<le> 2 ^ 32" using c lt b(3) by simp
    from word_offset(1) [OF this, of x] show ?thesis using True lt c by (auto simp: m_def stosb_def)
  next
    case False
    then have "\<not> ?f < ?m" by (simp add: word_less_nat_alt)
    with False show ?thesis by (auto simp: m_def)
  qed
  have "header_in m F" using hu b(1) mx by (simp add: header_in_def)
  moreover have "seg_in m F p" unfolding seg_in_def seg_len_def using mx u(2) by auto
  moreover have "m x = lmem s x" if "unat x < seg_start p" for x
  proof -
    have "unat x < ?P - ?O mod 512" using that by (simp add: seg_start_def)
    then show ?thesis using mx [of x] u(3) [of x] by auto
  qed
  ultimately show ?thesis using run by (simp add: p_def)
qed

lemma load_segments_loads:
  assumes d: "ata_disk dev drive" "gets_ready st" "on_drive F drive" and L: "loadable F"
    and e: "unat eph = 0x10000 + (phoff F + 32 * phnum F)"
  shows "i \<le> phnum F \<Longrightarrow> header_in (lmem s) F \<Longrightarrow> unat ph = 0x10000 + (phoff F + 32 * i) \<Longrightarrow>
    \<exists>t. load_segments dev st ph eph s = Some t \<and> header_in (lmem t) F \<and>
      (\<forall>j. i \<le> j \<and> j < phnum F \<longrightarrow> seg_in (lmem t) F (file_seg F j)) \<and>
      (\<forall>x. (\<forall>j. i \<le> j \<and> j < phnum F \<longrightarrow> unat x < seg_start (file_seg F j)) \<longrightarrow> lmem t x = lmem s x)"
proof (induction "phnum F - i" arbitrary: i ph s)
  case 0
  then have "\<not> ph < eph" using e by (simp add: word_less_nat_alt)
  then show ?case using 0 by (subst load_segments.simps) auto
next
  case (Suc k)
  have i: "i < phnum F" using Suc.hyps(2) by simp
  have hb: "phoff F + 32 * phnum F \<le> 4096" using L by (simp add: loadable_def)
  then have a: "phoff F + 32 * i + 32 \<le> 4096" using i by linarith
  have lt: "ph < eph" using e Suc.prems(3) i by (simp add: word_less_nat_alt)
  have f: "seg_fits (file_seg F i)" using L i by (simp add: loadable_def)
  obtain u where u: "load_segment dev st ph s = Some u" "header_in (lmem u) F" "seg_in (lmem u) F (file_seg F i)"
      "\<And>x. unat x < seg_start (file_seg F i) \<Longrightarrow> lmem u x = lmem s x"
    using load_segment_loads [OF d Suc.prems(2,3) a f] by blast
  have k: "k = phnum F - Suc i" using Suc.hyps(2) by simp
  have np: "unat (ph + 32) = 0x10000 + (phoff F + 32 * Suc i)" using header_add [OF Suc.prems(3), of 32] a by simp
  obtain t where t: "load_segments dev st (ph + 32) eph u = Some t" "header_in (lmem t) F"
      "\<And>j. Suc i \<le> j \<Longrightarrow> j < phnum F \<Longrightarrow> seg_in (lmem t) F (file_seg F j)"
      "\<And>x. (\<forall>j. Suc i \<le> j \<and> j < phnum F \<longrightarrow> unat x < seg_start (file_seg F j)) \<Longrightarrow> lmem t x = lmem u x"
    using Suc.hyps(1) [of "Suc i" u "ph + 32", OF _ Suc_leI [OF i] u(2) np] k by blast
  have "seg_in (lmem t) F (file_seg F i)"
    unfolding seg_in_def
  proof (intro allI impI)
    fix x :: uint assume x: "unat (p_paddr (file_seg F i)) \<le> unat x \<and> unat x < unat (p_paddr (file_seg F i)) + seg_len (file_seg F i)"
    have "unat x < seg_start (file_seg F j)" if "Suc i \<le> j" "j < phnum F" for j
    proof -
      have "unat (p_paddr (file_seg F i)) + seg_len (file_seg F i) \<le> seg_start (file_seg F j)"
        using L that unfolding loadable_def by simp
      then show ?thesis using x by linarith
    qed
    then have "lmem t x = lmem u x" using t(4) by blast
    then show "lmem t x = (if unat x - unat (p_paddr (file_seg F i)) < unat (p_filesz (file_seg F i))
        then F (unat (p_off (file_seg F i)) + (unat x - unat (p_paddr (file_seg F i)))) else 0)"
      using u(3) x unfolding seg_in_def by simp
  qed
  then have "seg_in (lmem t) F (file_seg F j)" if "i \<le> j" "j < phnum F" for j
    using t(3) [of j] that by (cases "i = j") auto
  moreover have "lmem t x = lmem s x" if "\<forall>j. i \<le> j \<and> j < phnum F \<longrightarrow> unat x < seg_start (file_seg F j)" for x :: uint
    using t(4) [of x] u(4) [of x] that i by (metis Suc_leD order.refl)
  moreover have "load_segments dev st ph eph s = Some t" using lt u(1) t(1) by (subst load_segments.simps) simp
  ultimately show ?case using t(2) by blast
qed

lemma bootmain_run:
  assumes d: "ata_disk dev drive" "gets_ready st" "on_drive F drive" and L: "loadable F"
  shows "\<exists>t. bootmain dev st s = Some (Some (file32 F 24), t) \<and> (\<forall>i < phnum F. seg_in (lmem t) F (file_seg F i))"
proof -
  have c: "unat (4096 :: uint) = 4096" "unat (0x10000 :: uint) = 0x10000" "unat (0 :: uint) = 0" by simp_all
  obtain u where u: "readseg dev st 0x10000 4096 0 s = Some u"
      "\<And>x. 0x10000 \<le> unat x \<Longrightarrow> unat x < 0x10000 + 4096 \<Longrightarrow> lmem u x = F (unat x - 0x10000)"
    using readseg_reads [OF d, of 0 "0x10000" 4096 s] unfolding c by auto
  have h: "header_in (lmem u) F" using u(2) by (simp add: header_in_def)
  have mg: "ld32 (lmem u) 0x10000 = ELF_MAGIC" using header_ld32 [OF h, of "0x10000" 0] L by (simp add: loadable_def)
  have po: "ld32 (lmem u) (0x10000 + 28) = file32 F 28" by (rule header_ld32 [OF h]) simp_all
  have pn: "ld16 (lmem u) (0x10000 + 44) = phnum F" unfolding phnum_def by (rule header_ld16 [OF h]) simp_all
  let ?ph = "0x10000 + file32 F 28" and ?eph = "0x10000 + file32 F 28 + 32 * word_of_nat (phnum F) :: uint"
  have b: "phoff F + 32 * phnum F \<le> 4096" using L by (simp add: loadable_def)
  have ph: "unat ?ph = 0x10000 + (phoff F + 32 * 0)" using b by (simp add: phoff_def unat_plus_if')
  have "32 * word_of_nat (phnum F) = (word_of_nat (32 * phnum F) :: uint)" by simp
  then have eph: "unat ?eph = 0x10000 + (phoff F + 32 * phnum F)"
    using header_add [OF ph, of "32 * phnum F"] b by simp
  obtain t where t: "load_segments dev st ?ph ?eph u = Some t" "header_in (lmem t) F"
      "\<And>j. j < phnum F \<Longrightarrow> seg_in (lmem t) F (file_seg F j)"
    using load_segments_loads [OF d L eph _ h ph] by auto
  have en: "ld32 (lmem t) (0x10000 + 24) = file32 F 24" by (rule header_ld32 [OF t(2)]) simp_all
  have "bootmain dev st s = Some (Some (file32 F 24), t)"
    using u(1) mg t(1) en by (simp only: bootmain_def bind.bind_lunit po pn simp_thms if_False Let_def)
  then show ?thesis using t(3) by blast
qed

section \<open>Property\<close>

text \<open>C39: the boot loader loads the kernel.  With a disk that delivers the sectors asked for and gets ready
  again and again, and a loadable ELF file behind the boot sector, the loader comes back with the entry
  point of the file; every segment is in memory at its physical address, its bytes those of the file
  and the rest of it zero.  \<open>loadable\<close> asks for more than the order of the segments the source speaks
  of: a segment must end before the first sector of a later one, whose address is rounded down.\<close>

theorem bootmain_loads:
  assumes "ata_disk dev drive" "gets_ready st" "on_drive F drive" "loadable F"
  shows "\<exists>t. bootmain dev st s = Some (Some (file32 F 24), t) \<and>
    (\<forall>i < phnum F. \<forall>x. unat (p_paddr (file_seg F i)) \<le> unat x \<and> unat x < unat (p_paddr (file_seg F i)) + seg_len (file_seg F i) \<longrightarrow>
      lmem t x = (if unat x - unat (p_paddr (file_seg F i)) < unat (p_filesz (file_seg F i))
        then F (unat (p_off (file_seg F i)) + (unat x - unat (p_paddr (file_seg F i)))) else 0))"
  using bootmain_run [OF assms] unfolding seg_in_def by blast

text \<open>A file with a segment of four bytes at \<open>0x100000\<close>, followed by four zeroes, and one of two bytes.\<close>

definition demo_elf :: "nat \<Rightarrow> byte" where
  "demo_elf k =
     (let hdr = [0x7F, 0x45, 0x4C, 0x46] @ replicate 20 0 @ [0x0C, 0, 0x10, 0] @ [52, 0, 0, 0] @ replicate 12 0 @ [2, 0] @ replicate 6 0;
          ph1 = [1, 0, 0, 0] @ [0, 2, 0, 0] @ replicate 4 0 @ [0, 0, 0x10, 0] @ [4, 0, 0, 0] @ [8, 0, 0, 0] @ replicate 8 0;
          ph2 = [1, 0, 0, 0] @ [0, 4, 0, 0] @ replicate 4 0 @ [0, 0x10, 0x10, 0] @ [2, 0, 0, 0] @ [2, 0, 0, 0] @ replicate 8 0;
          bs = hdr @ ph1 @ ph2 in
      if k < length bs then bs ! k else if k = 512 then 0xAA else if k = 515 then 0xBB else if k = 1025 then 0xCC else 0)"

definition demo_drive :: "nat \<Rightarrow> block" where
  "demo_drive n = map demo_elf [512 * (n - 1)..<512 * (n - 1) + 512]"

definition demo_dev :: "(nat \<Rightarrow> byte) \<Rightarrow> block" where
  "demo_dev r = demo_drive (unat (r 0x1F3) + 2 ^ 8 * unat (r 0x1F4) + 2 ^ 16 * unat (r 0x1F5) + 2 ^ 24 * unat (r 0x1F6 AND 0x0F))"

theorem bootmain_loads_witness:
  "\<exists>t. bootmain demo_dev (\<lambda>_. 0x40) \<lparr>lmem = (\<lambda>_. 7), regs = (\<lambda>_. 0), polls = 0\<rparr> = Some (Some 0x10000C, t) \<and>
     lmem t 0x100000 = 0xAA \<and> lmem t 0x100003 = 0xBB \<and> lmem t 0x100007 = 0 \<and> lmem t 0x101001 = 0xCC"
proof -
  have B: "demo_elf 0 = 0x7F" "demo_elf 1 = 0x45" "demo_elf 2 = 0x4C" "demo_elf 3 = 0x46" "demo_elf 24 = 0x0C" "demo_elf 25 = 0"
    "demo_elf 26 = 0x10" "demo_elf 27 = 0" "demo_elf 28 = 52" "demo_elf 29 = 0" "demo_elf 30 = 0" "demo_elf 31 = 0"
    "demo_elf 44 = 2" "demo_elf 45 = 0" by code_simp+
  have P: "map demo_elf [56..<60] = [0, 2, 0, 0]" "map demo_elf [64..<76] = [0, 0, 0x10, 0, 4, 0, 0, 0, 8, 0, 0, 0]"
    "map demo_elf [88..<92] = [0, 4, 0, 0]" "map demo_elf [96..<108] = [0, 0x10, 0x10, 0, 2, 0, 0, 0, 2, 0, 0, 0]" by code_simp+
  have n: "phnum demo_elf = 2" "file32 demo_elf 24 = 0x10000C" by (simp_all add: phnum_def file16_def file32_def B)
  have m: "file32 demo_elf 0 = ELF_MAGIC" "phoff demo_elf = 52" by (simp_all add: ELF_MAGIC_def phoff_def file32_def B B(2) [unfolded One_nat_def] B(3) [unfolded numeral_2_eq_2])
  have f: "file_seg demo_elf 0 = \<lparr>p_off = 512, p_paddr = 0x100000, p_filesz = 4, p_memsz = 8\<rparr>"
    "file_seg demo_elf 1 = \<lparr>p_off = 1024, p_paddr = 0x101000, p_filesz = 2, p_memsz = 2\<rparr>"
    using P by (simp_all add: file_seg_def Let_def m(2) file32_def upt_conv_Cons)
  have "ata_disk demo_dev demo_drive" "gets_ready (\<lambda>_. 0x40)" "on_drive demo_elf demo_drive"
    by (auto simp: ata_disk_def demo_dev_def gets_ready_def on_drive_def demo_drive_def)
  moreover have "\<forall>i < 2. seg_fits (file_seg demo_elf i)"
    "\<forall>j < 2. \<forall>i < j. unat (p_paddr (file_seg demo_elf i)) + seg_len (file_seg demo_elf i) \<le> seg_start (file_seg demo_elf j)"
    by (auto simp: less_2_cases_iff seg_fits_def seg_len_def seg_start_def f f [unfolded One_nat_def])
  then have "loadable demo_elf" unfolding loadable_def n m by simp
  ultimately obtain t where t: "bootmain demo_dev (\<lambda>_. 0x40) \<lparr>lmem = (\<lambda>_. 7), regs = (\<lambda>_. 0), polls = 0\<rparr> = Some (Some 0x10000C, t)"
    and T: "\<And>i x. i < 2 \<Longrightarrow> unat (p_paddr (file_seg demo_elf i)) \<le> unat x \<and> unat x < unat (p_paddr (file_seg demo_elf i)) + seg_len (file_seg demo_elf i) \<Longrightarrow>
      lmem t x = (if unat x - unat (p_paddr (file_seg demo_elf i)) < unat (p_filesz (file_seg demo_elf i))
        then demo_elf (unat (p_off (file_seg demo_elf i)) + (unat x - unat (p_paddr (file_seg demo_elf i)))) else 0)"
    using bootmain_loads [of demo_dev demo_drive "\<lambda>_. 0x40" demo_elf "\<lparr>lmem = (\<lambda>_. 7), regs = (\<lambda>_. 0), polls = 0\<rparr>"] unfolding n by blast
  have b: "demo_elf 512 = 0xAA" "demo_elf 515 = 0xBB" "demo_elf 1025 = 0xCC" by code_simp+
  show ?thesis using t T [of 0 "0x100000"] T [of 0 "0x100003"] T [of 0 "0x100007"] T [of 1 "0x101001"] b
    by (simp only: f) (simp add: seg_len_def)
qed

end
