(* ===== verification/Spec2Isabelle.thy ===== *)
theory Spec2Isabelle
  imports Trap VmUser SyscallProps ConsoleProps ProcsProps Spinlock Grep ShMain Umain Ide Kmain MkfsBoot UmallocProps Bootmain
begin

text \<open>
  A verification library of xv6, the teaching operating system under \<open>src/pdos/xv6-comment\<close>: the
  kernel in C and the programs that run on it.  Every file name below is relative to that directory.

  \<^bold>\<open>How kernel code is modelled.\<close>  A routine is a state transformer over records that extend each
  other from the page allocator up (\<open>kmem_state\<close>, \<open>vm_state\<close>, \<open>proc_state\<close>, \<open>bio_state\<close>,
  \<open>log_state\<close>, \<open>fs_state\<close>, \<open>file_state\<close>, \<open>sys_state\<close>); a routine of a lower layer is polymorphic in
  the rest of the state, so the upper layers call it as it is.  The outcome (\<open>Machine\<close>) is a result
  with the new state, a \<open>panic\<close> with its message, the point where the process gives up the CPU
  (\<open>sleep\<close>, \<open>sched\<close>), or C behaviour without a meaning.  A loop over a range is \<open>kfor\<close>, a search
  \<open>kfirst\<close>, another bounded loop a recursion on its bound.  Words of the hardware are 32-bit words
  where they wrap (\<open>Mmu\<close>, \<open>Vm\<close>, \<open>Syscall\<close>, \<open>Console\<close>), naturals with the reduction written out
  elsewhere (\<open>u32\<close>, \<open>s32\<close> of \<open>Prelude\<close>).  Kernel memory is a map from addresses to bytes, the disk a
  map from sectors to blocks; the trace of disk writes is part of the state, so a crash is a prefix of
  it.

  \<^bold>\<open>Theories, bottom up.\<close>
  \<^item> \<open>Prelude\<close>, \<open>Machine\<close>: C integers, byte ranges, little-endian fields; the outcome monad, its
    simplification set \<open>kmon_simps\<close> and the calculus \<open>keeps\<close> of what an operation leaves alone.
  \<^item> \<open>Cstring\<close> (\<open>string.c\<close>), \<open>Mmu\<close> (\<open>mmu.h\<close>, \<open>memlayout.h\<close>), \<open>Gates\<close> (descriptors, \<open>seginit\<close>,
    \<open>tvinit\<close>): memory routines equal to copies and fills of ranges; splitting addresses and
    building them are inverse.
  \<^item> \<open>Kalloc\<close> (\<open>kalloc.c\<close>): the free list in memory; the locale \<open>page_allocator\<close> is its interface,
    interpreted on \<open>kalloc\<close> and \<open>kfree\<close>.
  \<^item> \<open>Vm\<close> (\<open>vm.c\<close>) with \<open>VmProps\<close>, \<open>VmUser\<close>: page tables in memory; \<open>mappages\<close> refines an update of the
    map from virtual pages to entries and takes exactly the pages its tables need; \<open>setupkvm\<close> and
    \<open>copyuvm\<close> make an address space that reads as the parent's, in pages of its own.
  \<^item> \<open>Proc\<close>, \<open>Procs\<close> (\<open>proc.c\<close>) with \<open>ProcsProps\<close>: the table, sleeping and waking, the scheduler
    between two context switches, \<open>fork\<close>, \<open>exit\<close>, \<open>wait\<close>, \<open>kill\<close>, \<open>growproc\<close>.
  \<^item> \<open>Spinlock\<close> (\<open>spinlock.c\<close>): an interleaving step relation of any number of CPUs; mutual
    exclusion and the interrupt counters are invariants of the reachable states.
  \<^item> \<open>Bio\<close> (\<open>bio.c\<close>, \<open>memide.c\<close>): the cache over the disk; the locale \<open>block_cache\<close> states what its
    clients rely on and is interpreted on \<open>bread\<close>, \<open>bwrite\<close>, \<open>brelse\<close>.
  \<^item> \<open>Ide\<close> (\<open>ide.c\<close>): the disk driver of the default build; its linked queue of requests is a list, of
    which one request is under way.
  \<^item> \<open>Devices\<close>, \<open>Lapic\<close>, \<open>Mp\<close> (\<open>picirq.c\<close>, \<open>ioapic.c\<close>, \<open>timer.c\<close>, \<open>uartinit\<close>, \<open>lapic.c\<close>, \<open>mp.c\<close>): what is
    stored into the controllers and which interrupts they let through; the clock, read while it may be
    changing; the tables of processors in memory.
  \<^item> \<open>Log\<close> (\<open>log.c\<close>): transactions; every prefix of the writes of \<open>commit\<close>, followed by recovery,
    leaves all or nothing, and admission keeps to the size of the log.
  \<^item> \<open>Fs\<close>, \<open>FsProps\<close> (\<open>fs.c\<close>): block allocation, inodes and their cache, file contents,
    directories, path names; refinements to views of the disk (\<open>fbyte\<close>, \<open>bitmap\<close>, \<open>dirent_at\<close>).
  \<^item> \<open>Mkfs\<close>, \<open>MkfsBlocks\<close>, \<open>MkfsImage\<close> (\<open>mkfs.c\<close>): the program that makes the first image; read with the
    functions of \<open>Fs\<close>, the image has the files it was given.  \<open>FsWalk\<close>, \<open>MkfsBoot\<close>: path lookup as a walk
    over such a disk, and the kernel finding on the image each file it was made with.
  \<^item> \<open>Pipe\<close>, \<open>File\<close> (\<open>pipe.c\<close>, \<open>file.c\<close>): the ring buffer, through the locale \<open>byte_ring\<close>, and the
    table of open files with its reference counts.
  \<^item> \<open>Console\<close>, \<open>Kbd\<close> with \<open>ConsoleProps\<close>: screen and serial output, the input buffer and its three
    indices, the keyboard's state machine.
  \<^item> \<open>Syscall\<close>, \<open>Exec\<close>, \<open>Sysfile\<close>, \<open>Trap\<close> with \<open>SyscallProps\<close>: arguments from user memory, every
    system call, program loading, dispatch of traps.
  \<^item> \<open>Bootmain\<close> (\<open>bootmain.c\<close>), \<open>Kmain\<close> (\<open>main.c\<close>): the boot loader puts the segments of the kernel file in
    place; \<open>main\<close> in the order of its calls, and the other processors started on stacks of their own.
  \<^item> \<open>Sh\<close>, \<open>ShPrint\<close>, \<open>ShRun\<close> (\<open>sh.c\<close>): the parser with its depth bounded by four calls for each
    byte of the line, which is proved to be enough; the NULs it stores; reading printed commands
    back; \<open>runcmd\<close> as a tree of system calls, executed over descriptor tables.  \<open>ShMain\<close>: \<open>main\<close> and
    \<open>getcmd\<close>, a session of several lines.
  \<^item> \<open>Ulib\<close> (\<open>ulib.c\<close>, \<open>printf.c\<close>), \<open>Grep\<close>, \<open>Uprogs\<close>, \<open>Umain\<close>: the user library and programs; \<open>init\<close> as a
    step relation that has at most one shell running.
  \<^item> \<open>Umalloc\<close>, \<open>UmallocProps\<close> (\<open>umalloc.c\<close>): the circular list of free blocks; for every sequence of calls
    the blocks stay apart and no memory is lost.

  \<^bold>\<open>Bounds.\<close>  The only fuel is that of the shell's parser.  Loops that nothing in the code bounds (\<open>strlen\<close>,
  \<open>strcpy\<close>, the walks over linked lists of \<open>Ide\<close> and \<open>Umalloc\<close>, the entries of \<open>Mp\<close>, the clock of \<open>Lapic\<close>)
  are partial functions whose \<open>None\<close> is not returning, and the lemmas show when they return; every
  other recursion has its measure proved.

  \<^bold>\<open>Not modelled.\<close>  The assembly sources (\<open>.S\<close>, the inline assembly of \<open>x86.h\<close> apart from its effect);
  the test programs (\<open>usertests.c\<close>, \<open>forktest.c\<close>, \<open>stressfs.c\<close>, \<open>zombie.c\<close>); the listings under \<open>fmt\<close>, which
  are copies of the sources; and the exercises outside this directory.  The file system runs over the
  in-memory disk of \<open>memide.c\<close>, not over \<open>Ide\<close>, whose completion by interrupt it does not see.  Apart
  from \<open>Spinlock\<close>, kernel routines are run by one process at a time between the points where it gives up
  the CPU; locks are state there, so that taking one twice or releasing a free one shows.
\<close>

end
